(* ===== verification/Prelude.thy ===== *)
theory Prelude
  imports Main "HOL-Library.Word" "HOL-Library.Monad_Syntax"
begin

text \<open>
  What every component of the development shares.

  \<^item> The C scalar types the sources use: \<open>uchar\<close>/\<open>char\<close> as \<open>8 word\<close>,
    \<open>ushort\<close> as \<open>16 word\<close>, \<open>uint\<close> and \<open>int\<close> as \<open>32 word\<close> (read with
    \<open>unat\<close> or \<open>sint\<close>).
  \<^item> Bounded memory: an object is a \<open>byte list\<close>, a pointer into it is an index, and a
    load or a store outside the object is \<open>None\<close> (undefined behaviour in C).
  \<^item> The kernel's effects: a step may return, panic, put the calling process to sleep, or
    touch memory it must not. A kernel operation is a function from the state to one of these.
  \<^item> Generic lemmas on lists, options and words, and the collections the component theories
    add to.
\<close>

unbundle bit_operations_syntax

text \<open>Pairs (of a device and a sector, say) are kept whole under quantifiers.\<close>

declare split_paired_All [simp del] split_paired_Ex [simp del]

named_theorems kern_simps "unfolding of the kernel monad"
named_theorems invs "invariants of the components"

subsection \<open>Scalar types\<close>

type_synonym byte = "8 word"
type_synonym u16 = "16 word"
type_synonym u32 = "32 word"

subsection \<open>Bounded memory\<close>

text \<open>A load and a store at an index of an object; \<open>None\<close> outside it.\<close>

definition ld :: "'a list \<Rightarrow> nat \<Rightarrow> 'a option" where
  "ld m a = (if a < length m then Some (m ! a) else None)"

definition st :: "'a list \<Rightarrow> nat \<Rightarrow> 'a \<Rightarrow> 'a list option" where
  "st m a v = (if a < length m then Some (m[a := v]) else None)"

lemma ld_Some [simp]: "a < length m \<Longrightarrow> ld m a = Some (m ! a)"
  by (simp add: ld_def)

lemma ld_eq_Some_iff: "ld m a = Some v \<longleftrightarrow> a < length m \<and> v = m ! a"
  by (auto simp: ld_def)

lemma ld_eq_None_iff [simp]: "ld m a = None \<longleftrightarrow> length m \<le> a"
  by (auto simp: ld_def)

lemma st_Some [simp]: "a < length m \<Longrightarrow> st m a v = Some (m[a := v])"
  by (simp add: st_def)

lemma st_eq_Some_iff: "st m a v = Some m' \<longleftrightarrow> a < length m \<and> m' = m[a := v]"
  by (auto simp: st_def)

lemma st_eq_None_iff [simp]: "st m a v = None \<longleftrightarrow> length m \<le> a"
  by (auto simp: st_def)

text \<open>The object with the bytes \<open>vs\<close> written at \<open>a\<close>: the reference for every copy loop.\<close>

definition overwrite :: "'a list \<Rightarrow> nat \<Rightarrow> 'a list \<Rightarrow> 'a list" where
  "overwrite m a vs = take a m @ vs @ drop (a + length vs) m"

lemma length_overwrite [simp]:
  "a + length vs \<le> length m \<Longrightarrow> length (overwrite m a vs) = length m"
  by (simp add: overwrite_def)

lemma overwrite_Nil [simp]: "overwrite m a [] = m"
  by (simp add: overwrite_def)

lemma nth_overwrite:
  assumes "a + length vs \<le> length m" "i < length m"
  shows "overwrite m a vs ! i = (if a \<le> i \<and> i < a + length vs then vs ! (i - a) else m ! i)"
  using assms by (auto simp: overwrite_def nth_append min_def)

lemma overwrite_Cons:
  assumes "a < length m"
  shows "overwrite m a (v # vs) = overwrite (m[a := v]) (Suc a) vs"
  using assms by (auto simp: overwrite_def take_Suc_conv_app_nth upd_conv_take_nth_drop add.commute)

lemma overwrite_snoc:
  assumes "a + length vs < length m"
  shows "overwrite m a (vs @ [v]) = (overwrite m a vs)[a + length vs := v]"
proof (rule nth_equalityI)
  show "length (overwrite m a (vs @ [v])) = length ((overwrite m a vs)[a + length vs := v])"
    using assms by simp
next
  fix i
  assume "i < length (overwrite m a (vs @ [v]))"
  with assms show "overwrite m a (vs @ [v]) ! i = (overwrite m a vs)[a + length vs := v] ! i"
    by (auto simp: nth_overwrite nth_list_update nth_append)
qed

lemma take_drop_overwrite [simp]:
  "a + length vs \<le> length m \<Longrightarrow> take (length vs) (drop a (overwrite m a vs)) = vs"
  by (simp add: overwrite_def)

lemma take_Suc_drop:
  "a < length m \<Longrightarrow> take (Suc n) (drop a m) = m ! a # take n (drop (Suc a) m)"
  by (metis Cons_nth_drop_Suc take_Suc_Cons)

lemma find_SomeD: "find P xs = Some x \<Longrightarrow> x \<in> set xs \<and> P x"
  by (auto simp: find_Some_iff)

subsection \<open>Effects of kernel code\<close>

text \<open>
  How kernel code can stop other than by returning: \<open>Panic\<close> with the message of
  \<open>panic()\<close> (\<open>console.c\<close>), \<open>Asleep\<close> when the process would call \<open>sleep()\<close>
  and wait for another process, \<open>Fault\<close> for an access outside an object, \<open>Hang\<close>
  for a loop that its bound on the number of rounds did not see end.
\<close>

datatype stop = Panic string | Asleep | Fault | Hang

type_synonym ('s, 'a) kern = "'s \<Rightarrow> stop + 'a \<times> 's"

definition ret :: "'a \<Rightarrow> ('s, 'a) kern" where
  "ret x s = Inr (x, s)"

definition kbind :: "('s, 'a) kern \<Rightarrow> ('a \<Rightarrow> ('s, 'b) kern) \<Rightarrow> ('s, 'b) kern" where
  "kbind m f s = (case m s of Inl e \<Rightarrow> Inl e | Inr (x, s') \<Rightarrow> f x s')"

definition kthen :: "('s, 'a) kern \<Rightarrow> ('s, 'b) kern \<Rightarrow> ('s, 'b) kern" where
  "kthen m f = kbind m (\<lambda>_. f)"

definition panic :: "string \<Rightarrow> ('s, 'a) kern" where
  "panic msg s = Inl (Panic msg)"

definition gets :: "('s \<Rightarrow> 'a) \<Rightarrow> ('s, 'a) kern" where
  "gets f s = Inr (f s, s)"

definition modify :: "('s \<Rightarrow> 's) \<Rightarrow> ('s, unit) kern" where
  "modify f s = Inr ((), f s)"

definition lift_opt :: "'a option \<Rightarrow> ('s, 'a) kern" where
  "lift_opt x s = (case x of None \<Rightarrow> Inl Fault | Some v \<Rightarrow> Inr (v, s))"

lemmas kern_defs [kern_simps] = ret_def kthen_def panic_def gets_def modify_def lift_opt_def

lemma kbind_Inr [simp]: "m s = Inr (x, s') \<Longrightarrow> kbind m f s = f x s'"
  by (simp add: kbind_def)

lemma kbind_Inl [simp]: "m s = Inl e \<Longrightarrow> kbind m f s = Inl e"
  by (simp add: kbind_def)

lemma kbind_ret [simp]: "kbind (ret x) f = f x"
  by (simp add: fun_eq_iff kbind_def ret_def)

lemma kbind_gets [simp]: "kbind (gets g) f s = f (g s) s"
  by (simp add: kbind_def gets_def)

lemma kbind_gets_comp: "kbind (gets (\<lambda>s. f (g s))) h = kbind (gets g) (\<lambda>x. h (f x))"
  by (simp add: fun_eq_iff kbind_def gets_def)

lemma kbind_modify [simp]: "kbind (modify g) f s = f () (g s)"
  by (simp add: kbind_def modify_def)

lemma kbind_panic [simp]: "kbind (panic msg) f s = Inl (Panic msg)"
  by (simp add: kbind_def panic_def)

lemma kbind_assoc: "kbind (kbind m f) g = kbind m (\<lambda>x. kbind (f x) g)"
  by (auto simp: kbind_def fun_eq_iff split: sum.split prod.split)

lemma kbind_eq_Inr_iff:
  "kbind m f s = Inr r \<longleftrightarrow> (\<exists>x s'. m s = Inr (x, s') \<and> f x s' = Inr r)"
  by (auto simp: kbind_def split: sum.splits prod.splits)

subsection \<open>Operations that keep a part of the state\<close>

text \<open>\<open>kept f s r\<close>: when an operation started in \<open>s\<close> ends with \<open>r\<close> normally, it has kept \<open>f\<close>.\<close>

definition kept :: "('s \<Rightarrow> 'v) \<Rightarrow> 's \<Rightarrow> stop + 'a \<times> 's \<Rightarrow> bool" where
  "kept f s r \<longleftrightarrow> (\<forall>x s'. r = Inr (x, s') \<longrightarrow> f s' = f s)"

lemma keptD: "kept f s r \<Longrightarrow> r = Inr (x, s') \<Longrightarrow> f s' = f s"
  by (auto simp: kept_def)

lemma kept_kbind: "kept f s (m s) \<Longrightarrow> (\<And>x s'. m s = Inr (x, s') \<Longrightarrow> kept f s' (k x s')) \<Longrightarrow> kept f s (kbind m k s)"
  by (auto simp: kept_def kbind_eq_Inr_iff)

lemma kept_branches:
  "kept f s (Inl e)"
  "f s' = f s \<Longrightarrow> kept f s (Inr (x, s'))"
  "kept f s (ret x s)" "kept f s (gets g s)" "kept f s (panic m s)" "kept f s (lift_opt z s)"
  "f (h s) = f s \<Longrightarrow> kept f s (modify h s)"
  "(b \<Longrightarrow> kept f s r1) \<Longrightarrow> (\<not> b \<Longrightarrow> kept f s r2) \<Longrightarrow> kept f s (if b then r1 else r2)"
  "(b \<Longrightarrow> kept f s (m1 s)) \<Longrightarrow> (\<not> b \<Longrightarrow> kept f s (m2 s)) \<Longrightarrow> kept f s ((if b then m1 else m2) s)"
  "(z = None \<Longrightarrow> kept f s r1) \<Longrightarrow> (\<And>y. z = Some y \<Longrightarrow> kept f s (r y)) \<Longrightarrow> kept f s (case z of None \<Rightarrow> r1 | Some y \<Rightarrow> r y)"
  "(z = None \<Longrightarrow> kept f s (m1 s)) \<Longrightarrow> (\<And>y. z = Some y \<Longrightarrow> kept f s (mm y s)) \<Longrightarrow>
     kept f s ((case z of None \<Rightarrow> m1 | Some y \<Rightarrow> mm y) s)"
  "(\<And>a b. w = (a, b) \<Longrightarrow> kept f s (m3 a b s)) \<Longrightarrow> kept f s ((case w of (a, b) \<Rightarrow> m3 a b) s)"
  by (auto simp: kept_def ret_def gets_def panic_def modify_def lift_opt_def split: if_splits option.splits prod.splits)

lemmas kept_rules = kept_branches kept_kbind

subsection \<open>32-bit words as integers\<close>

lemma unat_u32_less: "unat (x :: u32) < 2 ^ 32"
  using unsigned_less [of x, where ?'a = nat] by simp

lemma uint_u32_bounds: "0 \<le> uint (x :: u32)" "uint (x :: u32) < 2 ^ 32"
  using uint_bounded [of x] by simp_all

lemma sint_u32: "sint (x :: u32) = (if uint x < 2 ^ 31 then uint x else uint x - 2 ^ 32)"
proof -
  note u = uint_u32_bounds [of x]
  have "uint x div 2 ^ 31 = (if 2 ^ 31 \<le> uint x then 1 else 0)"
    using u int_div_pos_eq [of "uint x" "2 ^ 31" 1 "uint x - 2 ^ 31"] by simp
  then have "bit (uint x) 31 \<longleftrightarrow> 2 ^ 31 \<le> uint x"
    by (simp add: bit_iff_odd)
  moreover have "take_bit 32 (uint x) = uint x" using u by (simp add: take_bit_int_eq_self_iff)
  ultimately show ?thesis
    by (auto simp: sint_uint signed_take_bit_eq_take_bit_minus not_le)
qed

lemma unat_neg_u32: "x \<noteq> 0 \<Longrightarrow> unat (- x :: u32) = 2 ^ 32 - unat x"
  using unat_sub_if' [of 0 x] by (simp add: unsigned_eq_0_iff)

end
