(* ===== verification/CString.thy ===== *)
theory CString
  imports Prelude "HOL-Library.Sublist"
begin

text \<open>
  The memory and string routines of the kernel (\<open>string.c\<close>, with the string
  instructions of \<open>x86.h\<close>) and of the user library (\<open>ulib.c\<close>).

  The block routines work on one object, a \<open>byte list\<close> indexed by address, because their
  two operands may overlap in it. The string routines walk a pointer forward, so a pointer is
  the part of its object from the pointer on: \<open>*p\<close> is the head, \<open>p++\<close> the tail, and
  running off the end of the object is \<open>None\<close>.
\<close>

subsection \<open>Block routines\<close>

text \<open>\<open>rep stosb\<close> stores the low byte of \<open>data\<close>, \<open>rep stosl\<close> its four bytes,
  lowest first, \<open>cnt\<close> times.\<close>

fun stosb :: "byte list \<Rightarrow> nat \<Rightarrow> u32 \<Rightarrow> nat \<Rightarrow> byte list option" where
  "stosb m addr data 0 = Some m"
| "stosb m addr data (Suc cnt) =
     do { m' \<leftarrow> st m addr (ucast data); stosb m' (Suc addr) data cnt }"

fun stosl :: "byte list \<Rightarrow> nat \<Rightarrow> u32 \<Rightarrow> nat \<Rightarrow> byte list option" where
  "stosl m addr data 0 = Some m"
| "stosl m addr data (Suc cnt) =
     do { m1 \<leftarrow> st m addr (ucast data);
          m2 \<leftarrow> st m1 (addr + 1) (ucast (drop_bit 8 data));
          m3 \<leftarrow> st m2 (addr + 2) (ucast (drop_bit 16 data));
          m4 \<leftarrow> st m3 (addr + 3) (ucast (drop_bit 24 data));
          stosl m4 (addr + 4) data cnt }"

definition memset :: "byte list \<Rightarrow> nat \<Rightarrow> u32 \<Rightarrow> nat \<Rightarrow> byte list option" where
  "memset m dst c n =
     (if dst mod 4 = 0 \<and> n mod 4 = 0 then
        let c' = c AND 0xFF in
        stosl m dst (push_bit 24 c' OR push_bit 16 c' OR push_bit 8 c' OR c') (n div 4)
      else stosb m dst c n)"

fun memcmp :: "byte list \<Rightarrow> byte list \<Rightarrow> nat \<Rightarrow> int option" where
  "memcmp s1 s2 0 = Some 0"
| "memcmp (a # s1) (b # s2) (Suc n) =
     (if a \<noteq> b then Some (uint a - uint b) else memcmp s1 s2 n)"
| "memcmp [] s2 (Suc n) = None"
| "memcmp s1 [] (Suc n) = None"

text \<open>The two copy loops of \<open>memmove\<close>: \<open>*--d = *--s\<close> and \<open>*d++ = *s++\<close>.\<close>

fun copy_down :: "byte list \<Rightarrow> nat \<Rightarrow> nat \<Rightarrow> nat \<Rightarrow> byte list option" where
  "copy_down m d s 0 = Some m"
| "copy_down m d s (Suc n) =
     do { b \<leftarrow> ld m (s - 1); m' \<leftarrow> st m (d - 1) b; copy_down m' (d - 1) (s - 1) n }"

fun copy_up :: "byte list \<Rightarrow> nat \<Rightarrow> nat \<Rightarrow> nat \<Rightarrow> byte list option" where
  "copy_up m d s 0 = Some m"
| "copy_up m d s (Suc n) =
     do { b \<leftarrow> ld m s; m' \<leftarrow> st m d b; copy_up m' (Suc d) (Suc s) n }"

definition memmove :: "byte list \<Rightarrow> nat \<Rightarrow> nat \<Rightarrow> nat \<Rightarrow> byte list option" where
  "memmove m dst src n =
     (if src < dst \<and> src + n > dst then copy_down m (dst + n) (src + n) n
      else copy_up m dst src n)"

text \<open>The user library's \<open>memmove\<close> always copies upwards (\<open>ulib.c\<close>).\<close>

definition ulib_memmove :: "byte list \<Rightarrow> nat \<Rightarrow> nat \<Rightarrow> nat \<Rightarrow> byte list option" where
  "ulib_memmove m vdst vsrc n = copy_up m vdst vsrc n"

definition ulib_memset :: "byte list \<Rightarrow> nat \<Rightarrow> u32 \<Rightarrow> nat \<Rightarrow> byte list option" where
  "ulib_memset m dst c n = stosb m dst c n"

subsection \<open>String routines\<close>

fun strncmp :: "byte list \<Rightarrow> byte list \<Rightarrow> nat \<Rightarrow> int option" where
  "strncmp p q 0 = Some 0"
| "strncmp (a # p) (b # q) (Suc n) =
     (if a \<noteq> 0 \<and> a = b then strncmp p q n else Some (uint a - uint b))"
| "strncmp [] q (Suc n) = None"
| "strncmp p [] (Suc n) = None"

fun zero_fill :: "byte list \<Rightarrow> nat \<Rightarrow> byte list option" where
  "zero_fill s 0 = Some s"
| "zero_fill (x # s) (Suc n) = map_option ((#) 0) (zero_fill s n)"
| "zero_fill [] (Suc n) = None"

fun strncpy :: "byte list \<Rightarrow> byte list \<Rightarrow> nat \<Rightarrow> byte list option" where
  "strncpy s t 0 = Some s"
| "strncpy (x # s) (c # t) (Suc n) =
     (if c \<noteq> 0 then map_option ((#) c) (strncpy s t n) else map_option ((#) 0) (zero_fill s n))"
| "strncpy [] t (Suc n) = None"
| "strncpy s [] (Suc n) = None"

text \<open>
  \<open>safestrcpy\<close> after its first \<open>--n\<close>. When the terminator is copied, \<open>s\<close> has
  already moved past it and the final \<open>*s = 0\<close> clears one more byte.
\<close>

fun safestrcpy_loop :: "byte list \<Rightarrow> byte list \<Rightarrow> nat \<Rightarrow> byte list option" where
  "safestrcpy_loop (x # s) t 0 = Some (0 # s)"
| "safestrcpy_loop (x # s) (c # t) (Suc n) =
     (if c \<noteq> 0 then map_option ((#) c) (safestrcpy_loop s t n)
      else (case s of [] \<Rightarrow> None | _ # s' \<Rightarrow> Some (0 # 0 # s')))"
| "safestrcpy_loop [] t n = None"
| "safestrcpy_loop s [] (Suc n) = None"

definition safestrcpy :: "byte list \<Rightarrow> byte list \<Rightarrow> nat \<Rightarrow> byte list option" where
  "safestrcpy s t n = (if n = 0 then Some s else safestrcpy_loop s t (n - 1))"

fun strlen :: "byte list \<Rightarrow> nat option" where
  "strlen [] = None"
| "strlen (c # s) = (if c = 0 then Some 0 else map_option Suc (strlen s))"

fun strcpy :: "byte list \<Rightarrow> byte list \<Rightarrow> byte list option" where
  "strcpy (x # s) (c # t) =
     (if c \<noteq> 0 then map_option ((#) c) (strcpy s t) else Some (0 # s))"
| "strcpy [] t = None"
| "strcpy s [] = None"

fun strcmp :: "byte list \<Rightarrow> byte list \<Rightarrow> int option" where
  "strcmp (a # p) (b # q) = (if a \<noteq> 0 \<and> a = b then strcmp p q else Some (uint a - uint b))"
| "strcmp [] q = None"
| "strcmp p [] = None"

text \<open>\<open>strchr\<close> returns a pointer, here its offset from \<open>s\<close>, or the null pointer
  (\<open>Some None\<close>); \<open>None\<close> is a read outside the object.\<close>

fun strchr :: "byte list \<Rightarrow> byte \<Rightarrow> nat option option" where
  "strchr [] c = None"
| "strchr (x # s) c =
     (if x = 0 then Some None
      else if x = c then Some (Some 0)
      else map_option (map_option Suc) (strchr s c))"

fun atoi_loop :: "u32 \<Rightarrow> byte list \<Rightarrow> u32 option" where
  "atoi_loop n [] = None"
| "atoi_loop n (c # s) =
     (if 0x30 \<le> c \<and> c \<le> 0x39 then atoi_loop (n * 10 + ucast c - 0x30) s else Some n)"

definition atoi :: "byte list \<Rightarrow> u32 option" where
  "atoi s = atoi_loop 0 s"

text \<open>
  \<open>gets\<close> reads one byte at a time with \<open>read(0, &c, 1)\<close>; the standard input is the
  list of the bytes still to come, and its end is a \<open>read\<close> that returns less than 1.
  The result is the buffer and the input left.
\<close>

fun gets_loop :: "byte list \<Rightarrow> nat \<Rightarrow> nat \<Rightarrow> byte list \<Rightarrow> (byte list \<times> nat \<times> byte list) option" where
  "gets_loop buf i 0 inp = Some (buf, i, inp)"
| "gets_loop buf i (Suc k) [] = Some (buf, i, [])"
| "gets_loop buf i (Suc k) (c # inp) =
     do { buf' \<leftarrow> st buf i c;
          if c = 0x0A \<or> c = 0x0D then Some (buf', Suc i, inp)
          else gets_loop buf' (Suc i) k inp }"

definition ulib_gets :: "byte list \<Rightarrow> nat \<Rightarrow> byte list \<Rightarrow> (byte list \<times> byte list) option" where
  "ulib_gets buf nmax inp =
     do { (buf', i, inp') \<leftarrow> gets_loop buf 0 (nmax - 1) inp;
          buf'' \<leftarrow> st buf' i 0;
          Some (buf'', inp') }"

subsection \<open>What the strings mean\<close>

text \<open>
  The name that at most \<open>n\<close> bytes at \<open>p\<close> hold: up to the terminator, if one comes
  first. \<open>readable n p\<close> says that a scan which stops at a terminator or after \<open>n\<close>
  bytes stays inside the object.
\<close>

definition cname :: "nat \<Rightarrow> byte list \<Rightarrow> byte list" where
  "cname n p = takeWhile (\<lambda>c. c \<noteq> 0) (take n p)"

definition readable :: "nat \<Rightarrow> byte list \<Rightarrow> bool" where
  "readable n p \<longleftrightarrow> n \<le> length p \<or> 0 \<in> set p"

lemma cname_0 [simp]: "cname 0 p = []"
  by (simp add: cname_def)

lemma cname_Suc [simp]: "cname (Suc n) (c # p) = (if c = 0 then [] else c # cname n p)"
  by (simp add: cname_def)

lemma readable_0 [simp]: "readable 0 p"
  by (simp add: readable_def)

lemma readable_Suc [simp]: "readable (Suc n) (c # p) \<longleftrightarrow> c = 0 \<or> readable n p"
  by (auto simp: readable_def)

lemma readable_Suc_Nil [simp]: "\<not> readable (Suc n) []"
  by (simp add: readable_def)

lemma length_cname: "length (cname n p) \<le> n"
  by (metis cname_def length_take length_takeWhile_le min.bounded_iff)

lemma zero_notin_cname [simp]: "0 \<notin> set (cname n p)"
  by (auto simp: cname_def dest: set_takeWhileD)


subsection \<open>Block routines meet their reference\<close>

lemma copy_up_overwrite:
  assumes "d + n \<le> length m" "s + n \<le> length m" "\<not> (s < d \<and> d < s + n)"
  shows "copy_up m d s n = Some (overwrite m d (take n (drop s m)))"
  using assms
proof (induction n arbitrary: m d s)
  case 0
  then show ?case by simp
next
  case (Suc n)
  have eq: "take n (drop (Suc s) (m[d := m ! s])) = take n (drop (Suc s) m)"
    using Suc.prems by (auto simp: drop_update_cancel drop_update_swap take_update_cancel)
  have "copy_up m d s (Suc n) = copy_up (m[d := m ! s]) (Suc d) (Suc s) n"
    using Suc.prems by simp
  also have "\<dots> = Some (overwrite (m[d := m ! s]) (Suc d) (take n (drop (Suc s) (m[d := m ! s]))))"
    by (rule Suc.IH) (use Suc.prems in auto)
  also have "\<dots> = Some (overwrite m d (take (Suc n) (drop s m)))"
    using Suc.prems by (simp add: eq take_Suc_drop overwrite_Cons)
  finally show ?case .
qed

lemma copy_down_overwrite:
  assumes "d + n \<le> length m" "s + n \<le> length m" "s < d"
  shows "copy_down m (d + n) (s + n) n = Some (overwrite m d (take n (drop s m)))"
  using assms
proof (induction n arbitrary: m)
  case 0
  then show ?case by simp
next
  case (Suc n)
  let ?m = "m[d + n := m ! (s + n)]"
  have eq: "take n (drop s ?m) = take n (drop s m)"
    using Suc.prems by (simp add: drop_update_swap)
  have "copy_down m (d + Suc n) (s + Suc n) (Suc n) = copy_down ?m (d + n) (s + n) n"
    using Suc.prems by simp
  also have "\<dots> = Some (overwrite ?m d (take n (drop s ?m)))"
    by (rule Suc.IH) (use Suc.prems in auto)
  also have "\<dots> = Some (overwrite m d (take (Suc n) (drop s m)))"
    using Suc.prems
    by (simp add: eq take_Suc_conv_app_nth overwrite_snoc)
      (auto intro!: nth_equalityI simp: nth_overwrite nth_list_update)
  finally show ?case .
qed

lemma memmove_overwrite:
  "dst + n \<le> length m \<Longrightarrow> src + n \<le> length m \<Longrightarrow>
     memmove m dst src n = Some (overwrite m dst (take n (drop src m)))"
  by (auto simp: memmove_def copy_down_overwrite copy_up_overwrite)

lemma stosb_overwrite:
  "a + n \<le> length m \<Longrightarrow> stosb m a v n = Some (overwrite m a (replicate n (ucast v)))"
  by (induction n arbitrary: m a) (simp_all add: overwrite_Cons)

lemma splat_bytes:
  fixes c :: u32
  defines "w \<equiv> push_bit 24 (c AND 0xFF) OR push_bit 16 (c AND 0xFF) OR push_bit 8 (c AND 0xFF) OR (c AND 0xFF)"
  shows "(ucast w :: byte) = ucast c" "(ucast (drop_bit 8 w) :: byte) = ucast c"
    "(ucast (drop_bit 16 w) :: byte) = ucast c" "(ucast (drop_bit 24 w) :: byte) = ucast c"
proof -
  have ff: "(0xFF :: u32) = mask 8"
    by (simp add: mask_eq_exp_minus_1)
  show "(ucast w :: byte) = ucast c" "(ucast (drop_bit 8 w) :: byte) = ucast c"
    "(ucast (drop_bit 16 w) :: byte) = ucast c" "(ucast (drop_bit 24 w) :: byte) = ucast c"
    unfolding w_def ff by (auto intro!: bit_word_eqI simp: bit_simps)
qed

lemma stosl_overwrite:
  assumes "(ucast v :: byte) = b" "(ucast (drop_bit 8 v) :: byte) = b"
    "(ucast (drop_bit 16 v) :: byte) = b" "(ucast (drop_bit 24 v) :: byte) = b"
  shows "a + 4 * n \<le> length m \<Longrightarrow> stosl m a v n = Some (overwrite m a (replicate (4 * n) b))"
proof (induction n arbitrary: m a)
  case 0
  then show ?case by simp
next
  case (Suc n)
  have "replicate (4 * Suc n) b = b # b # b # b # replicate (4 * n) b"
    by (simp add: numeral_eq_Suc)
  with Suc assms show ?case
    by (simp add: overwrite_Cons numeral_eq_Suc)
qed

text \<open>
  The kernel's \<open>memset\<close>, which stores whole words when the address and
  the length are multiples of four, writes exactly the bytes that a byte-wise fill writes.
\<close>

lemma memset_fills:
  assumes "dst + n \<le> length m"
  shows "memset m dst c n = Some (overwrite m dst (replicate n (ucast c)))"
proof (cases "dst mod 4 = 0 \<and> n mod 4 = 0")
  case True
  then have n: "4 * (n div 4) = n" by auto
  with assms have "dst + 4 * (n div 4) \<le> length m" by simp
  from stosl_overwrite [OF splat_bytes this] True n show ?thesis
    by (simp add: memset_def)
next
  case False
  with assms show ?thesis
    by (auto simp: memset_def stosb_overwrite)
qed

lemma memset_fills_witness:
  "memset [1, 2, 3, 4, 5, 6, 7, 8 :: byte] 4 0x107 4 =
     Some (overwrite [1, 2, 3, 4, 5, 6, 7, 8] 4 (replicate 4 (ucast (0x107 :: u32))))"
  by (rule memset_fills) simp

text \<open>
  C36 (functional correctness): the kernel's \<open>memmove\<close> copies the \<open>n\<close> source bytes as
  they were before the call, whether or not the two regions overlap, and changes nothing else.
\<close>

theorem memmove_copies:
  assumes "dst + n \<le> length m" "src + n \<le> length m"
  shows "memmove m dst src n = Some (overwrite m dst (take n (drop src m)))"
  using assms by (rule memmove_overwrite)

theorem memmove_copies_witness:
  "memmove [1, 2, 3, 4, 5 :: byte] 1 0 4 =
     Some (overwrite [1, 2, 3, 4, 5] 1 (take 4 (drop 0 [1, 2, 3, 4, 5])))"
  by (rule memmove_copies) simp_all

text \<open>
  The user library's \<open>memmove\<close> is right only where the destination does not start inside
  the source; where it does, the copy runs over bytes it has not read yet.
\<close>

lemma ulib_memmove_copies:
  assumes "vdst + n \<le> length m" "vsrc + n \<le> length m" "\<not> (vsrc < vdst \<and> vdst < vsrc + n)"
  shows "ulib_memmove m vdst vsrc n = memmove m vdst vsrc n"
  using assms by (simp add: ulib_memmove_def copy_up_overwrite memmove_overwrite)

subsection \<open>String routines meet their meaning\<close>

text \<open>Lexicographic order of the unsigned bytes, a proper prefix being smaller.\<close>

definition bytes_less :: "byte list \<Rightarrow> byte list \<Rightarrow> bool" where
  "bytes_less s t \<longleftrightarrow> (s, t) \<in> lexord {(a, b). a < b}"

lemma bytes_less_simps [simp]:
  "bytes_less [] (b # t)" "\<not> bytes_less s []"
  "bytes_less (a # s) (b # t) \<longleftrightarrow> a < b \<or> a = b \<and> bytes_less s t"
  by (auto simp: bytes_less_def)

lemma byte_diff:
  fixes a b :: byte
  shows "uint a - uint b < 0 \<longleftrightarrow> a < b" "uint a = uint b \<longleftrightarrow> a = b"
    "uint a < uint b \<longleftrightarrow> a < b" "uint a = 0 \<longleftrightarrow> a = 0" "0 < uint a \<longleftrightarrow> a \<noteq> 0" "0 < a \<longleftrightarrow> a \<noteq> 0"
proof -
  show "0 < a \<longleftrightarrow> a \<noteq> 0" by (simp add: word_neq_0_conv)
  then show "0 < uint a \<longleftrightarrow> a \<noteq> 0" by (simp add: word_less_def)
qed (simp_all add: word_less_def word_uint_eq_iff)

lemma strncmp_cname:
  assumes "readable n p" "readable n q"
  shows "\<exists>v. strncmp p q n = Some v \<and> (v = 0 \<longleftrightarrow> cname n p = cname n q)
    \<and> (v < 0 \<longleftrightarrow> bytes_less (cname n p) (cname n q))"
  using assms
proof (induction p q n rule: strncmp.induct)
  case (2 a p b q n)
  then show ?case
    by (cases "a = 0"; cases "b = 0")
      (auto simp: byte_diff)
qed auto

lemma zero_fill_eq: "n \<le> length s \<Longrightarrow> zero_fill s n = Some (replicate n 0 @ drop n s)"
  by (induction s n rule: zero_fill.induct) auto

lemma strncpy_cname:
  assumes "n \<le> length s" "readable n t"
  shows "strncpy s t n = Some (cname n t @ replicate (n - length (cname n t)) 0 @ drop n s)"
  using assms by (induction s t n rule: strncpy.induct) (auto simp: zero_fill_eq)

lemma cname_pad:
  assumes "0 \<notin> set xs" "length xs \<le> n"
  shows "cname n (xs @ replicate (n - length xs) 0 @ r) = xs"
  using assms
  by (cases "length xs = n") (auto simp: cname_def takeWhile_append)

lemma safestrcpy_loop_cname:
  assumes "n < length s" "readable n t"
  shows "\<exists>r. safestrcpy_loop s t n = Some (cname n t @ 0 # r) \<and> length (cname n t @ 0 # r) = length s"
  using assms
proof (induction s t n rule: safestrcpy_loop.induct)
  case (2 x s c t n)
  then show ?case by (cases s) (auto split: list.splits)
qed auto

lemma strlen_cname: "readable n p \<Longrightarrow> 0 \<in> set (take n p) \<Longrightarrow> strlen p = Some (length (cname n p))"
proof (induction p arbitrary: n)
  case Nil
  then show ?case by simp
next
  case (Cons c p)
  then show ?case by (cases n) auto
qed

text \<open>A terminated string: the bytes \<open>s\<close>, then the terminator.\<close>

definition cstr :: "byte list \<Rightarrow> byte list \<Rightarrow> bool" where
  "cstr p s \<longleftrightarrow> 0 \<notin> set s \<and> (\<exists>r. p = s @ 0 # r)"

lemma cstr_Nil [simp]: "\<not> cstr [] s"
  by (simp add: cstr_def)

lemma cstr_Cons [simp]:
  "cstr (c # p) s \<longleftrightarrow> (if c = 0 then s = [] else \<exists>s'. s = c # s' \<and> cstr p s')"
  by (cases s) (auto simp: cstr_def)

lemma strlen_cstr: "cstr p s \<Longrightarrow> strlen p = Some (length s)"
  by (induction p arbitrary: s) (auto split: if_splits)

lemma strlen_Some_cstr: "strlen p = Some k \<Longrightarrow> cstr p (take k p)"
  by (induction p arbitrary: k) (auto split: if_splits)

lemma strcmp_cstr:
  "cstr p s \<Longrightarrow> cstr q t \<Longrightarrow> \<exists>v. strcmp p q = Some v \<and> (v = 0 \<longleftrightarrow> s = t) \<and> (v < 0 \<longleftrightarrow> bytes_less s t)"
proof (induction p q arbitrary: s t rule: strcmp.induct)
  case (1 a p b q)
  then show ?case
    by (cases "a = 0"; cases "b = 0")
      (auto simp: byte_diff)
qed auto

lemma strchr_cstr:
  "cstr p s \<Longrightarrow> strchr p c = Some (if c \<in> set s then Some (length (takeWhile (\<lambda>x. x \<noteq> c) s)) else None)"
  by (induction p arbitrary: s) (auto split: if_splits)

lemma strcpy_cstr:
  "cstr t u \<Longrightarrow> length u < length s \<Longrightarrow> strcpy s t = Some (u @ 0 # drop (Suc (length u)) s)"
proof (induction s t arbitrary: u rule: strcpy.induct)
  case (1 x s c t)
  then show ?case by (cases "c = 0") auto
qed auto

lemma strchr_bound: "strchr s c = Some (Some k) \<Longrightarrow> k < length s"
  by (induction s arbitrary: k) (auto split: if_splits)

lemma strchr_takeWhile:
  assumes "c \<noteq> 0" "0 \<in> set s"
  shows "strchr s c = Some (if c \<in> set (takeWhile (\<lambda>x. x \<noteq> 0) s)
    then Some (length (takeWhile (\<lambda>x. x \<noteq> c) s)) else None)"
  using assms by (induction s) auto

end
