(* ===== verification/Printf.thy ===== *)
theory Printf
  imports CString
begin

text \<open>
  Formatted output: \<open>printint\<close> and \<open>cprintf\<close> of the kernel (\<open>console.c\<close>) and
  \<open>printint\<close> and \<open>printf\<close> of the user library (\<open>printf.c\<close>). A run returns the
  bytes handed to \<open>consputc\<close> or \<open>putc\<close>, in order; \<open>None\<close> is an access outside
  the digit buffer, the argument area or a string. The words after the format on the stack are
  a list, and \<open>mem a\<close> is the memory from the address \<open>a\<close> on.
\<close>

subsection \<open>Integers\<close>

definition lower_digits :: "byte list" where
  "lower_digits = [0x30, 0x31, 0x32, 0x33, 0x34, 0x35, 0x36, 0x37, 0x38, 0x39,
     0x61, 0x62, 0x63, 0x64, 0x65, 0x66]"

definition upper_digits :: "byte list" where
  "upper_digits = [0x30, 0x31, 0x32, 0x33, 0x34, 0x35, 0x36, 0x37, 0x38, 0x39,
     0x41, 0x42, 0x43, 0x44, 0x45, 0x46]"

text \<open>The \<open>do ... while\<close> loop that fills \<open>buf\<close>, least significant digit first. The
  store into the 16-byte buffer bounds it whatever the base is.\<close>

function digit_loop :: "byte list \<Rightarrow> u32 \<Rightarrow> u32 \<Rightarrow> byte list \<Rightarrow> nat \<Rightarrow> (byte list \<times> nat) option" where
  "digit_loop digits base x buf i =
     (if base = 0 then None
      else case ld digits (unat (x mod base)) of None \<Rightarrow> None
      | Some d \<Rightarrow>
         (case st buf i d of None \<Rightarrow> None
          | Some buf' \<Rightarrow>
             if x div base \<noteq> 0 then digit_loop digits base (x div base) buf' (Suc i)
             else Some (buf', Suc i)))"
  by pat_completeness auto
termination
  by (relation "measure (\<lambda>(_, _, _, buf, i). length buf - i)") (auto simp: st_eq_Some_iff)

declare digit_loop.simps [simp del]

definition print_digits :: "byte list \<Rightarrow> u32 \<Rightarrow> u32 \<Rightarrow> bool \<Rightarrow> byte list option" where
  "print_digits digits x base neg =
     do { (buf, i) \<leftarrow> digit_loop digits base x (replicate 16 0) 0;
          (buf', j) \<leftarrow> (if neg then map_option (\<lambda>b. (b, Suc i)) (st buf i 0x2D) else Some (buf, i));
          Some (rev (take j buf')) }"

definition cons_printint :: "u32 \<Rightarrow> u32 \<Rightarrow> bool \<Rightarrow> byte list option" where
  "cons_printint xx base sign =
     (let neg = (sign \<and> sint xx < 0); x = (if neg then - xx else xx)
      in print_digits lower_digits x base neg)"

definition printint :: "u32 \<Rightarrow> u32 \<Rightarrow> bool \<Rightarrow> byte list option" where
  "printint xx base sign =
     (let neg = (sign \<and> sint xx < 0); x = (if neg then - xx else xx)
      in print_digits upper_digits x base neg)"

subsection \<open>Formats\<close>

definition null_str :: "byte list" where
  "null_str = [0x28, 0x6E, 0x75, 0x6C, 0x6C, 0x29]"

text \<open>\<open>for(; *s; s++) putc(*s)\<close>: the bytes up to the terminator.\<close>

fun put_str :: "byte list \<Rightarrow> byte list option" where
  "put_str [] = None"
| "put_str (c # s) = (if c = 0 then Some [] else map_option ((#) c) (put_str s))"

definition put_arg_str :: "(u32 \<Rightarrow> byte list) \<Rightarrow> u32 \<Rightarrow> byte list option" where
  "put_arg_str mem a = (if a = 0 then Some null_str else put_str (mem a))"

text \<open>What \<open>%c\<close> prints, and the arguments left.\<close>

definition cprintf_conv :: "(u32 \<Rightarrow> byte list) \<Rightarrow> byte \<Rightarrow> u32 list \<Rightarrow> (byte list \<times> u32 list) option" where
  "cprintf_conv mem c argp =
     (if c = 0x64 then
        (case argp of [] \<Rightarrow> None | a # r \<Rightarrow> map_option (\<lambda>o'. (o', r)) (cons_printint a 10 True))
      else if c = 0x78 \<or> c = 0x70 then
        (case argp of [] \<Rightarrow> None | a # r \<Rightarrow> map_option (\<lambda>o'. (o', r)) (cons_printint a 16 False))
      else if c = 0x73 then
        (case argp of [] \<Rightarrow> None | a # r \<Rightarrow> map_option (\<lambda>o'. (o', r)) (put_arg_str mem a))
      else if c = 0x25 then Some ([0x25], argp)
      else Some ([0x25, c], argp))"

fun cprintf :: "(u32 \<Rightarrow> byte list) \<Rightarrow> byte list \<Rightarrow> u32 list \<Rightarrow> byte list option" where
  "cprintf mem [] argp = None"
| "cprintf mem (c # fmt) argp =
     (if c = 0 then Some []
      else if c \<noteq> 0x25 then map_option ((#) c) (cprintf mem fmt argp)
      else case fmt of [] \<Rightarrow> None
        | c' # fmt' \<Rightarrow>
          if c' = 0 then Some []
          else do { (o1, argp') \<leftarrow> cprintf_conv mem c' argp;
                    o2 \<leftarrow> cprintf mem fmt' argp';
                    Some (o1 @ o2) })"

definition printf_conv :: "(u32 \<Rightarrow> byte list) \<Rightarrow> byte \<Rightarrow> u32 list \<Rightarrow> (byte list \<times> u32 list) option" where
  "printf_conv mem c ap =
     (if c = 0x64 then
        (case ap of [] \<Rightarrow> None | a # r \<Rightarrow> map_option (\<lambda>o'. (o', r)) (printint a 10 True))
      else if c = 0x78 \<or> c = 0x70 then
        (case ap of [] \<Rightarrow> None | a # r \<Rightarrow> map_option (\<lambda>o'. (o', r)) (printint a 16 False))
      else if c = 0x73 then
        (case ap of [] \<Rightarrow> None | a # r \<Rightarrow> map_option (\<lambda>o'. (o', r)) (put_arg_str mem a))
      else if c = 0x63 then
        (case ap of [] \<Rightarrow> None | a # r \<Rightarrow> Some ([ucast a], r))
      else if c = 0x25 then Some ([c], ap)
      else Some ([0x25, c], ap))"

text \<open>The loop of \<open>printf\<close>; \<open>pct\<close> is \<open>state == '%'\<close>.\<close>

fun printf_loop :: "(u32 \<Rightarrow> byte list) \<Rightarrow> byte list \<Rightarrow> bool \<Rightarrow> u32 list \<Rightarrow> byte list option" where
  "printf_loop mem [] pct ap = None"
| "printf_loop mem (c # fmt) pct ap =
     (if c = 0 then Some []
      else if \<not> pct then
        (if c = 0x25 then printf_loop mem fmt True ap
         else map_option ((#) c) (printf_loop mem fmt False ap))
      else do { (o1, ap') \<leftarrow> printf_conv mem c ap;
                o2 \<leftarrow> printf_loop mem fmt False ap';
                Some (o1 @ o2) })"

definition printf :: "(u32 \<Rightarrow> byte list) \<Rightarrow> byte list \<Rightarrow> u32 list \<Rightarrow> byte list option" where
  "printf mem fmt ap = printf_loop mem fmt False ap"

subsection \<open>Numerals\<close>

text \<open>The reference: the numeral of \<open>n\<close> in a base, most significant digit first.\<close>

fun numeral_of :: "byte list \<Rightarrow> nat \<Rightarrow> nat \<Rightarrow> byte list" where
  "numeral_of digits base n =
     (if base < 2 then [] else if n < base then [digits ! n]
      else numeral_of digits base (n div base) @ [digits ! (n mod base)])"

declare numeral_of.simps [simp del]

lemma numeral_of_nonempty [simp]: "2 \<le> base \<Longrightarrow> numeral_of digits base n \<noteq> []"
  by (subst numeral_of.simps) simp

lemma length_numeral_of: "2 \<le> base \<Longrightarrow> n < base ^ Suc k \<Longrightarrow> length (numeral_of digits base n) \<le> Suc k"
proof (induction k arbitrary: n)
  case 0
  then show ?case by (subst numeral_of.simps) simp
next
  case (Suc k)
  have "length (numeral_of digits base (n div base)) \<le> Suc k"
    by (rule Suc.IH) (use Suc.prems in \<open>simp_all add: div_less_iff_less_mult mult.commute\<close>)
  with Suc.prems show ?case by (subst numeral_of.simps) simp
qed

lemma digit_loop_numeral:
  assumes "2 \<le> unat base" "unat base \<le> length digits"
    "i + length (numeral_of digits (unat base) (unat x)) \<le> length buf"
  shows "digit_loop digits base x buf i =
    Some (overwrite buf i (rev (numeral_of digits (unat base) (unat x))),
          i + length (numeral_of digits (unat base) (unat x)))"
  using assms
proof (induction digits base x buf i rule: digit_loop.induct)
  case (1 digits base x buf i)
  let ?d = "digits ! (unat x mod unat base)"
  have base: "base \<noteq> 0" using "1.prems"(1) by auto
  have lt: "unat x mod unat base < length digits"
    using "1.prems"(1,2) mod_less_divisor [of "unat base" "unat x"] by linarith
  have quot: "x div base = 0 \<longleftrightarrow> unat x < unat base"
    using "1.prems"(1) by (metis div_eq_0_iff not_numeral_le_zero unat_div unat_eq_zero)
  show ?case
  proof (cases "unat x < unat base")
    case True
    then have num: "numeral_of digits (unat base) (unat x) = [digits ! unat x]"
      using "1.prems"(1) by (subst numeral_of.simps) simp
    with "1.prems"(3) have "i < length buf" by simp
    with True base lt quot num show ?thesis
      by (subst digit_loop.simps) (simp add: unat_mod overwrite_Cons)
  next
    case False
    then have num: "numeral_of digits (unat base) (unat x) =
        numeral_of digits (unat base) (unat x div unat base) @ [?d]"
      using "1.prems"(1) by (subst numeral_of.simps) simp
    with "1.prems"(3) have i: "i < length buf" by simp
    have "digit_loop digits base (x div base) (buf[i := ?d]) (Suc i) =
      Some (overwrite (buf[i := ?d]) (Suc i) (rev (numeral_of digits (unat base) (unat (x div base)))),
            Suc i + length (numeral_of digits (unat base) (unat (x div base))))"
      using "1.prems" num i base lt False quot
      by (intro "1.IH") (auto simp: unat_mod unat_div)
    with False base lt quot num i show ?thesis
      by (subst digit_loop.simps) (simp add: unat_mod unat_div overwrite_Cons)
  qed
qed

lemma print_digits_numeral:
  assumes "2 \<le> unat base" "unat base \<le> length digits"
    "length (numeral_of digits (unat base) (unat x)) < 16"
  shows "print_digits digits x base neg =
    Some ((if neg then [0x2D] else []) @ numeral_of digits (unat base) (unat x))"
proof -
  let ?n = "numeral_of digits (unat base) (unat x)"
  have loop: "digit_loop digits base x (replicate 16 0) 0 =
      Some (overwrite (replicate 16 0) 0 (rev ?n), length ?n)"
    using digit_loop_numeral [of base digits 0 x "replicate 16 0"] assms by simp
  have "take (length ?n) (overwrite (replicate 16 0) 0 (rev ?n)) = rev ?n"
    using assms(3) by (simp add: overwrite_def)
  moreover have "take (Suc (length ?n)) ((overwrite (replicate 16 0) 0 (rev ?n))[length ?n := 0x2D]) =
      rev ?n @ [0x2D]"
    using assms(3) by (simp add: overwrite_def take_Suc_conv_app_nth nth_append)
  ultimately show ?thesis
    using assms(3) by (simp add: print_digits_def loop)
qed

lemma print_digits_10:
  "length digits = 16 \<Longrightarrow>
     print_digits digits x 10 neg = Some ((if neg then [0x2D] else []) @ numeral_of digits 10 (unat x))"
  using length_numeral_of [of 10 "unat x" 9 digits] unat_u32_less [of x]
  by (subst print_digits_numeral) auto

lemma print_digits_16:
  "length digits = 16 \<Longrightarrow>
     print_digits digits x 16 neg = Some ((if neg then [0x2D] else []) @ numeral_of digits 16 (unat x))"
  using length_numeral_of [of 16 "unat x" 7 digits] unat_u32_less [of x]
  by (subst print_digits_numeral) auto

lemma length_digits [simp]: "length upper_digits = 16" "length lower_digits = 16"
  by (simp_all add: upper_digits_def lower_digits_def)

lemma unat_neg_sint: "sint (x :: u32) < 0 \<Longrightarrow> unat (- x) = nat (- sint x)"
proof -
  assume *: "sint x < 0"
  then have "x \<noteq> 0" by auto
  obtain n where n: "unat x = n" "uint x = int n" by simp
  show ?thesis
    using * unat_u32_less [of x] unfolding sint_u32 unat_neg_u32 [OF \<open>x \<noteq> 0\<close>] n
    by (auto split: if_splits)
qed

lemma unat_sint: "\<not> sint (x :: u32) < 0 \<Longrightarrow> unat x = nat (sint x)"
proof -
  assume *: "\<not> sint x < 0"
  obtain n where n: "unat x = n" "uint x = int n" by simp
  show ?thesis using * unat_u32_less [of x] unfolding sint_u32 n by (auto split: if_splits)
qed

text \<open>The decimal numeral of a signed integer.\<close>

definition decimal :: "int \<Rightarrow> byte list" where
  "decimal i = (if i < 0 then 0x2D # numeral_of upper_digits 10 (nat (- i))
     else numeral_of upper_digits 10 (nat i))"

lemma printint_decimal: "printint xx 10 True = Some (decimal (sint xx))"
  by (simp add: printint_def Let_def print_digits_10 decimal_def unat_neg_sint unat_sint)

lemma printint_hex: "printint xx 16 False = Some (numeral_of upper_digits 16 (unat xx))"
  by (simp add: printint_def print_digits_16)

lemma numeral_of_10_cong:
  "numeral_of lower_digits 10 n = numeral_of upper_digits 10 n"
proof (induction n rule: less_induct)
  case (less n)
  have dig: "take 10 lower_digits = take 10 upper_digits"
    by (simp add: lower_digits_def upper_digits_def)
  have "lower_digits ! k = upper_digits ! k" if "k < 10" for k
    using nth_take [OF that, of lower_digits] nth_take [OF that, of upper_digits] dig by simp
  with less show ?case
    by (subst (1 2) numeral_of.simps) simp
qed

lemma cons_printint_decimal: "cons_printint xx 10 True = Some (decimal (sint xx))"
  by (simp add: cons_printint_def Let_def print_digits_10 decimal_def unat_neg_sint unat_sint
      numeral_of_10_cong)

lemma cons_printint_hex: "cons_printint xx 16 False = Some (numeral_of lower_digits 16 (unat xx))"
  by (simp add: cons_printint_def print_digits_16)

subsection \<open>Reading back what was printed\<close>

lemma upper_digit_10: "k < 10 \<Longrightarrow> upper_digits ! k = 0x30 + of_nat k"
proof -
  assume "k < 10"
  then have "k \<in> {0, 1, 2, 3, 4, 5, 6, 7, 8, 9}" by auto
  then show ?thesis by (auto simp: upper_digits_def)
qed

lemma digit_10_range: "k < 10 \<Longrightarrow> 0x30 \<le> (0x30 + of_nat k :: byte) \<and> (0x30 + of_nat k :: byte) \<le> 0x39
    \<and> (ucast (0x30 + of_nat k :: byte) :: u32) = 0x30 + of_nat k"
proof -
  assume "k < 10"
  then have "k \<in> {0, 1, 2, 3, 4, 5, 6, 7, 8, 9}" by auto
  then show ?thesis by auto
qed

lemma atoi_loop_numeral:
  "atoi_loop a (numeral_of upper_digits 10 n @ r) =
     atoi_loop (a * 10 ^ length (numeral_of upper_digits 10 n) + of_nat n) r"
proof (induction n arbitrary: r rule: less_induct)
  case (less n)
  show ?case
  proof (cases "n < 10")
    case True
    then have num: "numeral_of upper_digits 10 n = [0x30 + of_nat n]"
      by (subst numeral_of.simps) (simp add: upper_digit_10)
    show ?thesis
      using digit_10_range [OF True] by (simp add: num)
  next
    case False
    let ?m = "n mod 10"
    have m: "?m < 10" by simp
    have num: "numeral_of upper_digits 10 n = numeral_of upper_digits 10 (n div 10) @ [0x30 + of_nat ?m]"
      using False by (subst numeral_of.simps) (simp add: upper_digit_10)
    have "n div 10 < n" using False by simp
    note IH = less.IH [OF this, of "(0x30 + of_nat ?m) # r"]
    have "(of_nat n :: u32) = of_nat (10 * (n div 10) + n mod 10)"
      by simp
    also have "\<dots> = 10 * of_nat (n div 10) + of_nat ?m"
      by (simp only: of_nat_add of_nat_mult of_nat_numeral)
    finally show ?thesis
      using digit_10_range [OF m] IH by (simp add: num algebra_simps)
  qed
qed

text \<open>
  C35 (round trip): \<open>printf\<close>'s conversion of any non-negative \<open>int\<close> to decimal fits the
  16-byte buffer, and \<open>atoi\<close> reads the printed text back as the same number.
\<close>

theorem printint_atoi:
  assumes "0 \<le> sint xx"
  shows "\<exists>s. printint xx 10 True = Some s \<and> atoi (s @ 0 # r) = Some xx"
proof -
  have "of_nat (nat (sint xx)) = xx"
    using assms unat_sint [of xx] by (simp flip: unat_sint)
  with assms show ?thesis
    by (simp add: printint_decimal decimal_def atoi_def atoi_loop_numeral)
qed

theorem printint_atoi_witness:
  "0 \<le> sint (2012 :: u32) \<and> (\<exists>s. printint 2012 10 True = Some s \<and> atoi (s @ 0 # []) = Some 2012)"
proof -
  have "0 \<le> sint (2012 :: u32)" by simp
  from this printint_atoi [OF this, of "[]"] show ?thesis by (rule conjI)
qed

subsection \<open>Formats as sequences of pieces\<close>

text \<open>
  The directives \<open>printf\<close> has a case for, each with the argument it consumes. (Its comment says
  that it understands only \<open>%d\<close>, \<open>%x\<close>, \<open>%p\<close> and \<open>%s\<close>; the code has \<open>%c\<close> and \<open>%%\<close> too.)
\<close>

datatype piece = Lit byte | Dec u32 | Hex u32 | Ptr u32 | Str u32 | Chr u32 | Percent | Unknown byte

fun piece_fmt :: "piece \<Rightarrow> byte list" where
  "piece_fmt (Lit c) = [c]"
| "piece_fmt (Dec _) = [0x25, 0x64]"
| "piece_fmt (Hex _) = [0x25, 0x78]"
| "piece_fmt (Ptr a) = [0x25, 0x70]"
| "piece_fmt (Str _) = [0x25, 0x73]"
| "piece_fmt (Chr _) = [0x25, 0x63]"
| "piece_fmt Percent = [0x25, 0x25]"
| "piece_fmt (Unknown c) = [0x25, c]"

fun piece_args :: "piece \<Rightarrow> u32 list" where
  "piece_args (Dec a) = [a]"
| "piece_args (Hex a) = [a]"
| "piece_args (Ptr a) = [a]"
| "piece_args (Str a) = [a]"
| "piece_args (Chr a) = [a]"
| "piece_args _ = []"

fun piece_out :: "(u32 \<Rightarrow> byte list) \<Rightarrow> piece \<Rightarrow> byte list" where
  "piece_out mem (Lit c) = [c]"
| "piece_out mem (Dec a) = decimal (sint a)"
| "piece_out mem (Hex a) = numeral_of upper_digits 16 (unat a)"
| "piece_out mem (Ptr a) = numeral_of upper_digits 16 (unat a)"
| "piece_out mem (Str a) = (if a = 0 then null_str else takeWhile (\<lambda>c. c \<noteq> 0) (mem a))"
| "piece_out mem (Chr a) = [ucast a]"
| "piece_out mem Percent = [0x25]"
| "piece_out mem (Unknown c) = [0x25, c]"

fun piece_ok :: "(u32 \<Rightarrow> byte list) \<Rightarrow> piece \<Rightarrow> bool" where
  "piece_ok mem (Lit c) \<longleftrightarrow> c \<noteq> 0 \<and> c \<noteq> 0x25"
| "piece_ok mem (Str a) \<longleftrightarrow> a = 0 \<or> 0 \<in> set (mem a)"
| "piece_ok mem (Unknown c) \<longleftrightarrow> c \<notin> {0, 0x64, 0x78, 0x70, 0x73, 0x63, 0x25}"
| "piece_ok mem _ \<longleftrightarrow> True"

lemma put_str_takeWhile: "0 \<in> set s \<Longrightarrow> put_str s = Some (takeWhile (\<lambda>c. c \<noteq> 0) s)"
  by (induction s) auto

lemma put_arg_str_eq: "a = 0 \<or> 0 \<in> set (mem a) \<Longrightarrow> put_arg_str mem a = Some (piece_out mem (Str a))"
  by (auto simp: put_arg_str_def put_str_takeWhile)

lemma printf_loop_piece:
  assumes "piece_ok mem p"
  shows "printf_loop mem (piece_fmt p @ fmt) False (piece_args p @ ap) =
    map_option ((@) (piece_out mem p)) (printf_loop mem fmt False ap)"
  using assms
  by (cases p; cases "printf_loop mem fmt False ap")
    (auto simp: printf_conv_def printint_decimal printint_hex put_arg_str_eq
      simp del: piece_out.simps(5))

text \<open>
  C34 (functional correctness): on a format made of literal bytes and of the directives
  \<open>%d\<close>, \<open>%x\<close>, \<open>%p\<close>, \<open>%s\<close>, \<open>%c\<close> and \<open>%%\<close>, with an argument for each
  directive that takes one, \<open>printf\<close> prints the pieces one after the other: literals as they
  are, integers in signed decimal, and for \<open>%x\<close> and \<open>%p\<close> in unsigned hexadecimal, strings up
  to their terminator and a null string as \<open>(null)\<close>, and characters as their low byte. Any
  other character after a \<open>%\<close> is printed with the \<open>%\<close> and consumes no argument.
\<close>

theorem printf_pieces:
  assumes "\<forall>p \<in> set ps. piece_ok mem p"
  shows "printf mem (concat (map piece_fmt ps) @ 0 # r) (concat (map piece_args ps) @ ap) =
    Some (concat (map (piece_out mem) ps))"
  using assms unfolding printf_def
proof (induction ps)
  case Nil
  then show ?case by simp
next
  case (Cons p ps)
  then show ?case
    using printf_loop_piece [of mem p "concat (map piece_fmt ps) @ 0 # r" "concat (map piece_args ps) @ ap"]
    by simp
qed

theorem printf_pieces_witness:
  "printf (\<lambda>_. [0x61, 0]) ([0x78, 0x3D, 0x25, 0x64, 0x25, 0x73, 0x25, 0x70] @ 0 # []) ([7, 8, 0x1F] @ []) =
     Some [0x78, 0x3D, 0x37, 0x61, 0x31, 0x46]"
proof -
  let ?ps = "[Lit 0x78, Lit 0x3D, Dec 7, Str 8, Ptr 0x1F]"
  have "\<forall>p \<in> set ?ps. piece_ok (\<lambda>_. [0x61, 0]) p" by simp
  from printf_pieces [OF this, of "[]" "[]"] show ?thesis
    by (simp add: decimal_def numeral_of.simps upper_digits_def)
qed

end
