(* ===== verification/Grep.thy ===== *)
theory Grep
  imports CString
begin

text \<open>
  The regular-expression matcher and the line filter of \<open>grep.c\<close>.

  A terminated C string is the list of its bytes before the terminator, so \<open>*text == '\0'\<close>
  is the empty list. The bytes of the metacharacters are \<open>^\<close> 5E, \<open>$\<close> 24,
  \<open>.\<close> 2E and \<open>*\<close> 2A.
\<close>

subsection \<open>The matcher\<close>

function matchhere :: "byte list \<Rightarrow> byte list \<Rightarrow> bool"
  and matchstar :: "byte \<Rightarrow> byte list \<Rightarrow> byte list \<Rightarrow> bool" where
  "matchhere re text =
     (case re of [] \<Rightarrow> True
      | c # re1 \<Rightarrow>
         if re1 \<noteq> [] \<and> hd re1 = 0x2A then matchstar c (tl re1) text
         else if c = 0x24 \<and> re1 = [] then text = []
         else (case text of [] \<Rightarrow> False
               | t # text1 \<Rightarrow> (c = 0x2E \<or> c = t) \<and> matchhere re1 text1))"
| "matchstar c re text =
     (matchhere re text \<or>
      (case text of [] \<Rightarrow> False
       | t # text1 \<Rightarrow> (t = c \<or> c = 0x2E) \<and> matchstar c re text1))"
  by pat_completeness auto
termination
  by (relation "measures [\<lambda>x. case x of Inl (re, text) \<Rightarrow> 2 * length re
        | Inr (c, re, text) \<Rightarrow> Suc (2 * length re),
      \<lambda>x. case x of Inl (re, text) \<Rightarrow> length text | Inr (c, re, text) \<Rightarrow> length text]")
    (auto simp: neq_Nil_conv)

declare matchhere.simps [simp del] matchstar.simps [simp del]

text \<open>The \<open>do ... while(*text++ != '\0')\<close> loop of \<open>match\<close>.\<close>

fun match_loop :: "byte list \<Rightarrow> byte list \<Rightarrow> bool" where
  "match_loop re [] = matchhere re []"
| "match_loop re (t # text) = (matchhere re (t # text) \<or> match_loop re text)"

definition match :: "byte list \<Rightarrow> byte list \<Rightarrow> bool" where
  "match re text =
     (case re of [] \<Rightarrow> match_loop re text
      | c # re1 \<Rightarrow> if c = 0x5E then matchhere re1 text else match_loop re text)"

subsection \<open>The line filter\<close>

text \<open>
  The inner loop of \<open>grep\<close>: find the next newline from \<open>p\<close> on, match the line before
  it, print the line if it matches. The newline is overwritten by a terminator while the line is
  matched and restored only if the line is printed. The result is the buffer, \<open>p\<close> and the
  bytes written.
\<close>

function grep_lines :: "byte list \<Rightarrow> byte list \<Rightarrow> nat \<Rightarrow> (byte list \<times> nat \<times> byte list) option" where
  "grep_lines pattern buf p =
     (case strchr (drop p buf) 0x0A of None \<Rightarrow> None
      | Some None \<Rightarrow> Some (buf, p, [])
      | Some (Some k) \<Rightarrow>
         let q = p + k; buf1 = buf[q := 0];
             hit = match pattern (takeWhile (\<lambda>c. c \<noteq> 0) (drop p buf1));
             buf2 = (if hit then buf1[q := 0x0A] else buf1);
             out1 = (if hit then take (q + 1 - p) (drop p buf2) else [])
         in map_option (\<lambda>(b, p', out2). (b, p', out1 @ out2)) (grep_lines pattern buf2 (q + 1)))"
  by pat_completeness auto
termination
  by (relation "measure (\<lambda>(_, buf, p). length buf - p)") (auto dest!: strchr_bound)

declare grep_lines.simps [simp del]

text \<open>
  The outer loop. \<open>reads\<close> is what the successive \<open>read\<close> calls have available; a call
  takes at most the room left in the buffer. \<open>m\<close> is a C \<open>int\<close>: when it is negative
  the \<open>read\<close> stores before the buffer.
\<close>

function grep_loop :: "byte list \<Rightarrow> byte list \<Rightarrow> int \<Rightarrow> byte list list \<Rightarrow> byte list option" where
  "grep_loop pattern buf m [] = Some []"
| "grep_loop pattern buf m (r # rs) =
     (let n = min (length r) (length buf - nat m) in
      if n = 0 then Some []
      else if m < 0 then None
      else
        let reads' = (if n < length r then drop n r # rs else rs);
            buf1 = overwrite buf (nat m) (take n r);
            m1 = m + int n
        in do {
          (buf2, p, out1) \<leftarrow> grep_lines pattern buf1 0;
          let m2 = (if p = 0 then 0 else m1);
          let m3 = (if 0 < m2 then m2 - int p else m2);
          buf3 \<leftarrow> (if 0 < m2 then ulib_memmove buf2 0 p (nat m3) else Some buf2);
          out2 \<leftarrow> grep_loop pattern buf3 m3 reads';
          Some (out1 @ out2) })"
  by pat_completeness auto
termination
  by (relation "measure (\<lambda>(_, _, _, reads). sum_list (map length reads) + length reads)") auto

declare grep_loop.simps(2) [simp del]

definition grep_bufsize :: nat where
  "grep_bufsize = 1024"

text \<open>\<open>buf\<close> is a global array: it starts zeroed.\<close>

definition grep :: "byte list \<Rightarrow> byte list list \<Rightarrow> byte list option" where
  "grep pattern reads = grep_loop pattern (replicate grep_bufsize 0) 0 reads"

subsection \<open>What a pattern means\<close>

text \<open>
  \<open>lang re w v\<close>: the pattern \<open>re\<close> (no leading \<open>^\<close>) can consume \<open>w\<close> when
  \<open>v\<close> is the text left after it. A character followed by \<open>*\<close> consumes any number of
  characters it matches, a final \<open>$\<close> consumes nothing and wants no text left, any other
  character consumes one character it matches; \<open>.\<close> matches every character.
\<close>

inductive lang :: "byte list \<Rightarrow> byte list \<Rightarrow> byte list \<Rightarrow> bool" where
  lang_empty: "lang [] [] v"
| lang_star: "lang re w v \<Longrightarrow> \<forall>t \<in> set u. t = c \<or> c = 0x2E \<Longrightarrow> lang (c # 0x2A # re) (u @ w) v"
| lang_end: "lang [0x24] [] []"
| lang_char: "lang re w v \<Longrightarrow> c = 0x2E \<or> c = t \<Longrightarrow> re = [] \<or> hd re \<noteq> 0x2A \<Longrightarrow> c \<noteq> 0x24 \<or> re \<noteq> []
    \<Longrightarrow> lang (c # re) (t # w) v"

inductive_simps lang_Nil_simp [simp]: "lang [] w v"
inductive_simps lang_Cons_simp: "lang (c # re) w v"

lemma lang_star_simp:
  "lang (c # 0x2A # re) w v \<longleftrightarrow> (\<exists>u w'. w = u @ w' \<and> (\<forall>t \<in> set u. t = c \<or> c = 0x2E) \<and> lang re w' v)"
  by (subst lang_Cons_simp) auto

lemma lang_star_split:
  "(\<exists>w v. tx = w @ v \<and> lang (c # 0x2A # re) w v) \<longleftrightarrow>
     (\<exists>u w v. tx = u @ w @ v \<and> (\<forall>t \<in> set u. t = c \<or> c = 0x2E) \<and> lang re w v)" (is "?l \<longleftrightarrow> ?r")
proof
  assume ?l
  then obtain u w v where "tx = (u @ w) @ v" "\<forall>t \<in> set u. t = c \<or> c = 0x2E" "lang re w v"
    by (auto simp: lang_star_simp)
  then show ?r by (intro exI [of _ u] exI [of _ w] exI [of _ v]) simp
next
  assume ?r
  then obtain u w v where "tx = u @ w @ v" "\<forall>t \<in> set u. t = c \<or> c = 0x2E" "lang re w v"
    by blast
  then show ?l
    by (intro exI [of _ "u @ w"] exI [of _ v]) (auto simp: lang_star_simp)
qed

lemma star_unfold:
  "(\<exists>u w v. t # tx = u @ w @ v \<and> (\<forall>x \<in> set u. P x) \<and> L w v) \<longleftrightarrow>
     (\<exists>w v. t # tx = w @ v \<and> L w v) \<or> P t \<and> (\<exists>u w v. tx = u @ w @ v \<and> (\<forall>x \<in> set u. P x) \<and> L w v)"
  (is "?l \<longleftrightarrow> ?r")
proof
  assume ?l
  then obtain u w v where u: "t # tx = u @ w @ v" "\<forall>x \<in> set u. P x" "L w v" by blast
  show ?r
  proof (cases u)
    case Nil
    with u show ?thesis by auto
  next
    case (Cons x u')
    with u have "P t" "tx = u' @ w @ v" "\<forall>x \<in> set u'. P x" by auto
    with u(3) show ?thesis by blast
  qed
next
  assume ?r
  then show ?l
  proof (elim disjE conjE exE)
    fix w v assume "t # tx = w @ v" "L w v"
    then show ?l by (intro exI [of _ "[]"] exI [of _ w] exI [of _ v]) simp
  next
    fix u w v assume "P t" "tx = u @ w @ v" "\<forall>x \<in> set u. P x" "L w v"
    then show ?l by (intro exI [of _ "t # u"] exI [of _ w] exI [of _ v]) simp
  qed
qed

lemma lang_char_simp:
  "re = [] \<or> hd re \<noteq> 0x2A \<Longrightarrow> c \<noteq> 0x24 \<or> re \<noteq> [] \<Longrightarrow>
     lang (c # re) w v \<longleftrightarrow> (\<exists>t w'. w = t # w' \<and> (c = 0x2E \<or> c = t) \<and> lang re w' v)"
  by (subst lang_Cons_simp) auto

lemma lang_end_simp: "lang [0x24] w v \<longleftrightarrow> w = [] \<and> v = []"
  by (subst lang_Cons_simp) auto

lemma matchhere_matchstar_lang:
  "matchhere re tx \<longleftrightarrow> (\<exists>w v. tx = w @ v \<and> lang re w v)"
  "matchstar c re tx \<longleftrightarrow>
     (\<exists>u w v. tx = u @ w @ v \<and> (\<forall>t \<in> set u. t = c \<or> c = 0x2E) \<and> lang re w v)"
proof (induction re tx and c re tx rule: matchhere_matchstar.induct)
  case (1 re tx)
  show ?case
  proof (cases re)
    case Nil
    then show ?thesis by (subst matchhere.simps) simp
  next
    case (Cons c re1)
    consider (star) re2 where "re1 = 0x2A # re2"
      | (last) "re1 = []" "c = 0x24"
      | (char) "re1 = [] \<or> hd re1 \<noteq> 0x2A" "c \<noteq> 0x24 \<or> re1 \<noteq> []"
      by (cases re1) auto
    then show ?thesis
    proof cases
      case star
      with Cons "1.IH"(1) [OF Cons] show ?thesis
        by (subst matchhere.simps) (simp add: lang_star_split)
    next
      case last
      with Cons show ?thesis
        by (subst matchhere.simps) (simp add: lang_end_simp)
    next
      case char
      show ?thesis
      proof (cases tx)
        case Nil
        with Cons char show ?thesis
          by (subst matchhere.simps) (auto simp: lang_char_simp)
      next
        case (Cons t tx1)
        with \<open>re = c # re1\<close> char "1.IH"(2) [OF \<open>re = c # re1\<close> _ _ Cons] show ?thesis
          by (subst matchhere.simps) (auto simp: lang_char_simp Cons_eq_append_conv)
      qed
    qed
  qed
next
  case (2 c re tx)
  show ?case
  proof (cases tx)
    case Nil
    with "2.IH"(1) show ?thesis
      by (subst matchstar.simps) auto
  next
    case (Cons t tx1)
    with "2.IH"(1) "2.IH"(2) [OF Cons] star_unfold [of t tx1 "\<lambda>t. t = c \<or> c = 0x2E" "lang re"]
    show ?thesis
      by (subst matchstar.simps) simp
  qed
qed


text \<open>
  C19 (equivalence): \<open>match\<close> finds the pattern in a text exactly when some part of the text
  is in the pattern's language with what follows it, at the start of the text if the pattern
  begins with \<open>^\<close> and anywhere otherwise; the three mutually recursive routines terminate on
  every pattern and text.
\<close>

theorem match_lang:
  "match re tx \<longleftrightarrow>
     (if re \<noteq> [] \<and> hd re = 0x5E then \<exists>w v. tx = w @ v \<and> lang (tl re) w v
      else \<exists>u w v. tx = u @ w @ v \<and> lang re w v)"
proof -
  have "match_loop re tx \<longleftrightarrow> (\<exists>u w v. tx = u @ w @ v \<and> lang re w v)" for re
  proof (induction tx)
    case Nil
    then show ?case by (auto simp: matchhere_matchstar_lang)
  next
    case (Cons t tx)
    with star_unfold [of t tx "\<lambda>_. True" "lang re"] show ?case
      by (simp add: matchhere_matchstar_lang)
  qed
  then show ?thesis
    by (cases re) (auto simp: match_def matchhere_matchstar_lang)
qed

subsection \<open>The filter on input that arrives in one read\<close>

text \<open>The lines of the input that end with a newline; a last partial line is not one of them.\<close>

function complete_lines :: "byte list \<Rightarrow> byte list list" where
  "complete_lines s =
     (if 0x0A \<in> set s
      then takeWhile (\<lambda>c. c \<noteq> 0x0A) s # complete_lines (tl (dropWhile (\<lambda>c. c \<noteq> 0x0A) s))
      else [])"
  by pat_completeness auto
termination
proof (relation "measure length", simp)
  fix s :: "byte list"
  assume "0x0A \<in> set s"
  then have "dropWhile (\<lambda>c. c \<noteq> 0x0A) s \<noteq> []" by simp
  moreover have "length (dropWhile (\<lambda>c. c \<noteq> 0x0A) s) \<le> length s"
    by (rule length_dropWhile_le)
  ultimately have "length (tl (dropWhile (\<lambda>c. c \<noteq> 0x0A) s)) < length s"
    by (cases "dropWhile (\<lambda>c. c \<noteq> 0x0A) s") auto
  then show "(tl (dropWhile (\<lambda>c. c \<noteq> 0x0A) s), s) \<in> measure length" by simp
qed

declare complete_lines.simps [simp del]

definition matching_lines :: "byte list \<Rightarrow> byte list \<Rightarrow> byte list" where
  "matching_lines pattern s = concat (map (\<lambda>l. l @ [0x0A]) (filter (match pattern) (complete_lines s)))"

lemma drop_list_update_at: "drop p (xs[p + k := v]) = (drop p xs)[k := v]"
  by (simp add: drop_update_swap)

lemma newline_split:
  assumes "0x0A \<in> set (s :: byte list)"
  obtains l s' where "s = l @ 0x0A # s'" "0x0A \<notin> set l"
    "takeWhile (\<lambda>c. c \<noteq> 0x0A) s = l" "tl (dropWhile (\<lambda>c. c \<noteq> 0x0A) s) = s'"
proof -
  from split_list_first [OF assms] obtain l s' where s: "s = l @ 0x0A # s'" "0x0A \<notin> set l" by blast
  moreover from s have "takeWhile (\<lambda>c. c \<noteq> 0x0A) s = l" "dropWhile (\<lambda>c. c \<noteq> 0x0A) s = 0x0A # s'"
    by (auto simp: takeWhile_append dropWhile_append)
  ultimately show thesis using that by simp
qed

lemma grep_lines_matching:
  assumes "drop p buf = data @ 0 # r" "0 \<notin> set data"
  shows "\<exists>b p'. grep_lines pattern buf p = Some (b, p', matching_lines pattern data)
    \<and> length b = length buf \<and> p' \<le> p + length data"
  using assms
proof (induction data arbitrary: p buf rule: complete_lines.induct)
  case (1 data)
  show ?case
  proof (cases "0x0A \<in> set data")
    case False
    have "strchr (data @ 0 # r) 0x0A = Some None"
      using False "1.prems"(2) by (simp add: strchr_cstr [of _ data] cstr_def)
    with "1.prems"(1) False show ?thesis
      by (subst grep_lines.simps) (simp add: matching_lines_def complete_lines.simps)
  next
    case True
    then obtain l data' where d: "data = l @ 0x0A # data'" "0x0A \<notin> set l"
      "takeWhile (\<lambda>c. c \<noteq> 0x0A) data = l" "tl (dropWhile (\<lambda>c. c \<noteq> 0x0A) data) = data'"
      by (rule newline_split)
    have chr: "strchr (drop p buf) 0x0A = Some (Some (length l))"
      using True "1.prems" d by (simp add: strchr_cstr [of _ data] cstr_def takeWhile_append)
    let ?buf1 = "buf[p + length l := 0]"
    let ?hit = "match pattern l"
    let ?buf2 = "if ?hit then ?buf1[p + length l := 0x0A] else ?buf1"
    have line: "takeWhile (\<lambda>c. c \<noteq> 0) (drop p ?buf1) = l"
      using "1.prems" d by (auto simp: drop_list_update_at list_update_append takeWhile_append)
    have rest: "drop (p + length l + 1) ?buf2 = data' @ 0 # r"
    proof -
      have "drop (p + length l + 1) ?buf2 = drop (length l + 1) (drop p buf)"
        by (simp add: drop_update_cancel add.commute)
      with "1.prems"(1) d(1) show ?thesis by simp
    qed
    have out: "take (length l + 1) (drop p (?buf1[p + length l := 0x0A])) = l @ [0x0A]"
      using "1.prems"(1) d(1) by (simp add: drop_list_update_at list_update_append)
    have "0 \<notin> set data'" using "1.prems"(2) d(1) by simp
    with "1.IH" [OF True, unfolded d(4), OF rest] obtain b p' where
      "grep_lines pattern ?buf2 (p + length l + 1) = Some (b, p', matching_lines pattern data')"
      "length b = length buf" "p' \<le> p + length l + 1 + length data'"
      by auto
    moreover have "matching_lines pattern data =
        (if ?hit then l @ [0x0A] else []) @ matching_lines pattern data'"
      using True d(3,4) by (simp add: matching_lines_def complete_lines.simps [of data])
    ultimately show ?thesis
      using chr line out d(1) by (subst grep_lines.simps) (simp add: Let_def)
  qed
qed

text \<open>
  C37 (functional correctness): when the whole input (no zero bytes, less than a buffer) arrives
  in one \<open>read\<close>, \<open>grep\<close> writes exactly the newline-terminated lines that match, in
  order, and stays inside its buffer.
\<close>

theorem grep_one_read:
  assumes "0 \<notin> set data" "length data < grep_bufsize"
  shows "grep pattern [data] = Some (matching_lines pattern data)"
proof (cases "data = []")
  case True
  then show ?thesis
    by (simp add: grep_def grep_loop.simps matching_lines_def complete_lines.simps)
next
  case False
  let ?buf = "overwrite (replicate grep_bufsize 0) 0 data"
  have "drop 0 ?buf = data @ 0 # replicate (grep_bufsize - length data - 1) 0"
    using assms(2) by (simp add: overwrite_def Suc_diff_Suc flip: replicate_Suc)
  from grep_lines_matching [OF this assms(1), of pattern] obtain b p where
    lines: "grep_lines pattern ?buf 0 = Some (b, p, matching_lines pattern data)"
      "length b = grep_bufsize" "p \<le> length data"
    using assms(2) by auto
  have "\<exists>b'. ulib_memmove b 0 p (length data - p) = Some b'"
    using lines(2,3) assms(2) by (simp add: ulib_memmove_def copy_up_overwrite)
  with lines False assms(2) show ?thesis
    by (auto simp: grep_def grep_loop.simps(2) Let_def nat_diff_distrib)
qed

theorem grep_one_read_witness:
  "grep [0x62] [[0x61, 0x62, 0x0A, 0x63, 0x0A, 0x62]] = Some [0x61, 0x62, 0x0A]"
proof -
  have "grep [0x62] [[0x61, 0x62, 0x0A, 0x63, 0x0A, 0x62]] =
      Some (matching_lines [0x62] [0x61, 0x62, 0x0A, 0x63, 0x0A, 0x62])"
    by (rule grep_one_read) (simp_all add: grep_bufsize_def)
  then show ?thesis
    by (simp add: matching_lines_def complete_lines.simps match_def matchhere.simps)
qed

text \<open>
  An error: when the input arrives in several reads, the bytes of earlier reads that are still
  in the buffer are scanned again. Three reads \<open>"aa\nbb\n"\<close>, \<open>"c\n"\<close> and
  \<open>"d\n"\<close>, whose lines all match, first print a stale empty line and a stale \<open>bb\<close>,
  then leave \<open>m\<close> negative, and the third \<open>read\<close> stores before the buffer.
\<close>

lemma grep_stale_lines:
  "grep [] [[0x61, 0x61, 0x0A, 0x62, 0x62, 0x0A], [0x63, 0x0A]] =
     Some [0x61, 0x61, 0x0A, 0x62, 0x62, 0x0A, 0x63, 0x0A, 0x0A, 0x62, 0x62, 0x0A]
   \<and> grep [] [[0x61, 0x61, 0x0A, 0x62, 0x62, 0x0A], [0x63, 0x0A], [0x64, 0x0A]] = None"
  by code_simp

end
