(* ===== verification/Bio.thy ===== *)
theory Bio
  imports Prelude
begin

text \<open>
  The buffer cache (\<open>bio.c\<close>, \<open>buf.h\<close>) and the disk driver below it (\<open>ide.c\<close>).

  A pointer to a \<open>struct buf\<close> is the index of the buffer in \<open>bcache.buf\<close>, and
  \<open>bcache.head\<close> has the index \<open>NBUF\<close>; the doubly linked list through
  \<open>prev\<close>/\<open>next\<close> is kept as the two pointer fields. The flag bits are three
  booleans. The disk is the device behind the ports: it knows the sector last written at every
  address, and its history of writes, the latest first, so that a crash can be described by
  an earlier history. It works on one command at a time (\<open>dbusy\<close>, at the address \<open>dcur\<close>),
  and raises an interrupt when it has done so; a drive that has no command raises none.

  One process runs in the cache at a time: its locks are not part of the state, and a
  \<open>sleep()\<close> that would wait for another process ends the operation with \<open>Asleep\<close>.
  The wait for the disk in \<open>iderw\<close> lets the interrupt handler run.
\<close>

subsection \<open>State\<close>

abbreviation NBUF :: nat where "NBUF \<equiv> 10"
abbreviation BSIZE :: nat where "BSIZE \<equiv> 512"

text \<open>The index that stands for \<open>&bcache.head\<close>.\<close>

abbreviation HEAD :: nat where "HEAD \<equiv> NBUF"

record buf =
  b_busy :: bool
  b_valid :: bool
  b_dirty :: bool
  b_dev :: nat
  b_sector :: nat
  b_data :: "byte list"

record bio_st =
  bufs :: "buf list"
  bnext :: "nat \<Rightarrow> nat"
  bprev :: "nat \<Rightarrow> nat"
  idequeue :: "nat list"
  havedisk1 :: bool
  ide_err :: bool
  dcur :: "nat \<times> nat"
  dbusy :: bool
  dbase :: "nat \<times> nat \<Rightarrow> byte list"
  dwrites :: "((nat \<times> nat) \<times> byte list) list"

definition upd_buf :: "nat \<Rightarrow> (buf \<Rightarrow> buf) \<Rightarrow> 'a bio_st_scheme \<Rightarrow> 'a bio_st_scheme" where
  "upd_buf b f s = s\<lparr>bufs := (bufs s)[b := f (bufs s ! b)]\<rparr>"

subsection \<open>The disk driver\<close>

text \<open>The sector at a drive and address: the latest write, or what the disk held at first.\<close>

definition content :: "(nat \<times> nat \<Rightarrow> byte list) \<Rightarrow> ((nat \<times> nat) \<times> byte list) list \<Rightarrow> nat \<times> nat \<Rightarrow> byte list" where
  "content base ws a = (case map_of ws a of Some d \<Rightarrow> d | None \<Rightarrow> base a)"

definition dcontent :: "'a bio_st_scheme \<Rightarrow> nat \<times> nat \<Rightarrow> byte list" where
  "dcontent s = content (dbase s) (dwrites s)"

lemma content_Nil [simp]: "content base [] = base"
  by (simp add: content_def fun_eq_iff)

lemma content_Cons [simp]: "content base ((a, d) # ws) = (content base ws)(a := d)"
  by (simp add: content_def fun_eq_iff)

text \<open>The port writes of \<open>idestart\<close>, in order, and the address the drive reads off them.\<close>

definition ide_ports :: "buf \<Rightarrow> (nat \<times> byte) list" where
  "ide_ports b =
     (let sec = (of_nat (b_sector b) :: u32); dev = (of_nat (b_dev b) :: u32) in
      [(0x3f6, 0), (0x1f2, 1),
       (0x1f3, ucast (sec AND 0xff)),
       (0x1f4, ucast (drop_bit 8 sec AND 0xff)),
       (0x1f5, ucast (drop_bit 16 sec AND 0xff)),
       (0x1f6, ucast (0xe0 OR push_bit 4 (dev AND 1) OR (drop_bit 24 sec AND 0x0f))),
       (0x1f7, if b_dirty b then 0x30 else 0x20)])"

definition ide_decode :: "(nat \<times> byte) list \<Rightarrow> nat \<times> nat" where
  "ide_decode ports =
     (let r = (\<lambda>p. unat (the (map_of ports p))) in
      ((r 0x1f6 div 16) mod 2,
       r 0x1f3 + 2 ^ 8 * r 0x1f4 + 2 ^ 16 * r 0x1f5 + 2 ^ 24 * (r 0x1f6 mod 16)))"

definition idestart :: "nat \<Rightarrow> 'a bio_st_scheme \<Rightarrow> 'a bio_st_scheme" where
  "idestart b s =
     (let a = ide_decode (ide_ports (bufs s ! b)) in
      s\<lparr>dcur := a, dbusy := True,
        dwrites := (if b_dirty (bufs s ! b) then (a, b_data (bufs s ! b)) # dwrites s else dwrites s)\<rparr>)"

definition ideintr :: "'a bio_st_scheme \<Rightarrow> 'a bio_st_scheme" where
  "ideintr s =
     (case idequeue s of [] \<Rightarrow> s
      | b # q \<Rightarrow>
         let s1 = s\<lparr>idequeue := q\<rparr>;
             s2 = (if \<not> b_dirty (bufs s1 ! b) \<and> \<not> ide_err s1
                   then upd_buf b (b_data_update (\<lambda>_. dcontent s1 (dcur s1))) s1 else s1);
             s3 = upd_buf b (\<lambda>x. x\<lparr>b_valid := True, b_dirty := False\<rparr>) s2
         in if q \<noteq> [] then idestart (hd q) s3 else s3)"

text \<open>
  The wait at the end of \<open>iderw\<close>: the process sleeps, interrupts of the drive are served, until
  the request is done. When the drive has been given no command, nothing wakes the sleeper.
\<close>

fun ide_wait :: "nat \<Rightarrow> nat \<Rightarrow> ('a bio_st_scheme, unit) kern" where
  "ide_wait 0 b s = Inl Hang"
| "ide_wait (Suc n) b s =
     (if b_valid (bufs s ! b) \<and> \<not> b_dirty (bufs s ! b) then Inr ((), s)
      else if \<not> dbusy s then Inl Asleep
      else ide_wait n b (ideintr (s\<lparr>dbusy := False\<rparr>)))"

definition iderw :: "nat \<Rightarrow> ('a bio_st_scheme, unit) kern" where
  "iderw b s =
     (let x = bufs s ! b in
      if \<not> b_busy x then Inl (Panic ''iderw: buf not busy'')
      else if b_valid x \<and> \<not> b_dirty x then Inl (Panic ''iderw: nothing to do'')
      else if b_dev x \<noteq> 0 \<and> \<not> havedisk1 s then Inl (Panic ''iderw: ide disk 1 not present'')
      else
        let s1 = s\<lparr>idequeue := idequeue s @ [b]\<rparr>;
            s2 = (if hd (idequeue s1) = b then idestart b s1 else s1)
        in ide_wait (Suc (length (idequeue s2))) b s2)"

subsection \<open>The buffer cache\<close>

text \<open>One round of the loop of \<open>binit\<close>: link \<open>b\<close> in after the head.\<close>

definition blink :: "nat \<Rightarrow> 'a bio_st_scheme \<Rightarrow> 'a bio_st_scheme" where
  "blink b s =
     (let n = bnext s HEAD in
      s\<lparr>bnext := (bnext s)(b := n, HEAD := b), bprev := (bprev s)(b := HEAD, n := b)\<rparr>)"

definition binit :: "'a bio_st_scheme \<Rightarrow> 'a bio_st_scheme" where
  "binit s =
     fold (\<lambda>b s. blink b (upd_buf b (b_dev_update (\<lambda>_. 2 ^ 32 - 1)) s)) [0..<NBUF]
       (s\<lparr>bnext := (bnext s)(HEAD := HEAD), bprev := (bprev s)(HEAD := HEAD)\<rparr>)"

text \<open>
  A walk along one pointer field from \<open>b\<close> to the head, looking for a buffer that satisfies
  \<open>P\<close>: \<open>Some None\<close> at the head, \<open>None\<close> if the walk is longer than the fuel.
\<close>

fun scan :: "(nat \<Rightarrow> nat) \<Rightarrow> (nat \<Rightarrow> bool) \<Rightarrow> nat \<Rightarrow> nat \<Rightarrow> nat option option" where
  "scan nx P 0 b = None"
| "scan nx P (Suc n) b =
     (if b = HEAD then Some None else if P b then Some (Some b) else scan nx P n (nx b))"

definition bget :: "nat \<Rightarrow> nat \<Rightarrow> ('a bio_st_scheme, nat) kern" where
  "bget dev sector s =
     (case scan (bnext s) (\<lambda>b. b_dev (bufs s ! b) = dev \<and> b_sector (bufs s ! b) = sector)
             (Suc NBUF) (bnext s HEAD) of
        None \<Rightarrow> Inl Hang
      | Some (Some b) \<Rightarrow>
          if \<not> b_busy (bufs s ! b) then Inr (b, upd_buf b (b_busy_update (\<lambda>_. True)) s)
          else Inl Asleep
      | Some None \<Rightarrow>
          (case scan (bprev s) (\<lambda>b. \<not> b_busy (bufs s ! b) \<and> \<not> b_dirty (bufs s ! b))
                 (Suc NBUF) (bprev s HEAD) of
             None \<Rightarrow> Inl Hang
           | Some (Some b) \<Rightarrow>
               Inr (b, upd_buf b (\<lambda>x. x\<lparr>b_dev := dev, b_sector := sector,
                                        b_busy := True, b_valid := False, b_dirty := False\<rparr>) s)
           | Some None \<Rightarrow> Inl (Panic ''bget: no buffers'')))"

definition bread :: "nat \<Rightarrow> nat \<Rightarrow> ('a bio_st_scheme, nat) kern" where
  "bread dev sector =
     kbind (bget dev sector) (\<lambda>b s.
       if \<not> b_valid (bufs s ! b) then kbind (iderw b) (\<lambda>_. ret b) s else Inr (b, s))"

definition bwrite :: "nat \<Rightarrow> ('a bio_st_scheme, unit) kern" where
  "bwrite b s =
     (if \<not> b_busy (bufs s ! b) then Inl (Panic ''bwrite'')
      else iderw b (upd_buf b (b_dirty_update (\<lambda>_. True)) s))"

text \<open>The list surgery of \<open>brelse\<close>: take \<open>b\<close> out, link it in after the head.\<close>

definition bunlink :: "nat \<Rightarrow> 'a bio_st_scheme \<Rightarrow> 'a bio_st_scheme" where
  "bunlink b s =
     (let n = bnext s b; p = bprev s b in
      s\<lparr>bprev := (bprev s)(n := p), bnext := (bnext s)(p := n)\<rparr>)"

definition brelse :: "nat \<Rightarrow> ('a bio_st_scheme, unit) kern" where
  "brelse b s =
     (if \<not> b_busy (bufs s ! b) then Inl (Panic ''brelse'')
      else Inr ((), upd_buf b (b_busy_update (\<lambda>_. False)) (blink b (bunlink b s))))"

text \<open>Code that holds a buffer reads and writes \<open>b->data\<close>.\<close>

definition bdata :: "nat \<Rightarrow> 'a bio_st_scheme \<Rightarrow> byte list" where
  "bdata b s = b_data (bufs s ! b)"

definition set_bdata :: "nat \<Rightarrow> byte list \<Rightarrow> ('a bio_st_scheme, unit) kern" where
  "set_bdata b d = modify (upd_buf b (b_data_update (\<lambda>_. d)))"

text \<open>The log pins a buffer by setting \<open>B_DIRTY\<close> on it.\<close>

definition set_dirty :: "nat \<Rightarrow> ('a bio_st_scheme, unit) kern" where
  "set_dirty b = modify (upd_buf b (b_dirty_update (\<lambda>_. True)))"

subsection \<open>The pointer ring\<close>

text \<open>\<open>seg f x us y\<close>: following \<open>f\<close> from \<open>x\<close> visits \<open>us\<close> and then is at \<open>y\<close>.\<close>

fun seg :: "(nat \<Rightarrow> nat) \<Rightarrow> nat \<Rightarrow> nat list \<Rightarrow> nat \<Rightarrow> bool" where
  "seg f x [] y \<longleftrightarrow> x = y"
| "seg f x (u # us) y \<longleftrightarrow> x = u \<and> seg f (f u) us y"

lemma seg_append: "seg f x (us @ vs) y \<longleftrightarrow> (\<exists>z. seg f x us z \<and> seg f z vs y)"
  by (induction us arbitrary: x) auto

lemma seg_upd [simp]: "u \<notin> set us \<Longrightarrow> seg (f(u := v)) x us y \<longleftrightarrow> seg f x us y"
  by (induction us arbitrary: x) auto

lemma scan_seg:
  assumes "seg f x us HEAD" "HEAD \<notin> set us" "length us < n"
  shows "scan f P n x = Some (find P us)"
  using assms
proof (induction us arbitrary: x n)
  case Nil
  then show ?case by (cases n) auto
next
  case (Cons u us)
  then show ?case by (cases n) auto
qed

text \<open>The list from the head and back to it, read along one of the two pointer fields.\<close>

definition cyc :: "(nat \<Rightarrow> nat) \<Rightarrow> nat list \<Rightarrow> bool" where
  "cyc f us \<longleftrightarrow> seg f (f HEAD) us HEAD \<and> distinct us \<and> HEAD \<notin> set us"

lemma cyc_remove:
  assumes "cyc f (us @ b # vs)"
  shows "cyc (f((if us = [] then HEAD else last us) := f b)) (us @ vs)"
proof (cases us rule: rev_cases)
  case Nil
  with assms show ?thesis by (simp add: cyc_def)
next
  case (snoc us' p)
  with assms have *: "seg f (f HEAD) us' p" "f p = b" "seg f (f b) vs HEAD" "distinct (us' @ p # b # vs)"
    "HEAD \<notin> set (us' @ p # b # vs)"
    by (auto simp: cyc_def seg_append)
  then show ?thesis by (auto simp: cyc_def snoc seg_append)
qed

lemma cyc_pred:
  assumes "cyc f (us @ b # vs)"
  shows "f b = (if vs = [] then HEAD else hd vs)" "f (if us = [] then HEAD else last us) = b"
proof -
  show "f b = (if vs = [] then HEAD else hd vs)"
    using assms by (cases vs) (auto simp: cyc_def seg_append)
  show "f (if us = [] then HEAD else last us) = b"
    using assms by (cases us rule: rev_cases) (auto simp: cyc_def seg_append)
qed

lemma cyc_push:
  "cyc f us \<Longrightarrow> b \<notin> set us \<Longrightarrow> b \<noteq> HEAD \<Longrightarrow> cyc (f(b := f HEAD, HEAD := b)) (b # us)"
  by (simp add: cyc_def fun_upd_twist)

lemma cyc_push_back:
  assumes "cyc f us" "b \<notin> set us" "b \<noteq> HEAD"
  shows "cyc (f(b := HEAD, (if us = [] then HEAD else last us) := b)) (us @ [b])"
proof (cases us rule: rev_cases)
  case Nil
  with assms show ?thesis by (simp add: cyc_def)
next
  case (snoc us' p)
  with assms show ?thesis by (auto simp: cyc_def seg_append)
qed

text \<open>The two fields describe the same list, most recently used first.\<close>

definition ring :: "'a bio_st_scheme \<Rightarrow> nat list \<Rightarrow> bool" where
  "ring s us \<longleftrightarrow> cyc (bnext s) us \<and> cyc (bprev s) (rev us)"

lemma ring_blink:
  assumes "ring s us" "b \<notin> set us" "b \<noteq> HEAD"
  shows "ring (blink b s) (b # us)"
proof -
  have "bnext s HEAD = (if us = [] then HEAD else hd us)"
    using assms(1) by (cases us) (auto simp: ring_def cyc_def)
  then have "bnext s HEAD = (if rev us = [] then HEAD else last (rev us))"
    by (simp add: last_rev)
  with assms show ?thesis
    using cyc_push [of "bnext s" us b] cyc_push_back [of "bprev s" "rev us" b]
    by (simp add: ring_def blink_def Let_def)
qed

lemma ring_bunlink:
  assumes "ring s (us @ b # vs)"
  shows "ring (bunlink b s) (us @ vs)"
proof -
  have n: "cyc (bnext s) (us @ b # vs)" and p: "cyc (bprev s) (rev vs @ b # rev us)"
    using assms by (simp_all add: ring_def)
  have pb: "bprev s b = (if us = [] then HEAD else last us)"
    using cyc_pred(1) [OF p] by (simp add: hd_rev)
  have nb: "bnext s b = (if rev vs = [] then HEAD else last (rev vs))"
    using cyc_pred(1) [OF n] by (simp add: last_rev)
  from cyc_remove [OF n] cyc_remove [OF p] show ?thesis
    unfolding ring_def bunlink_def Let_def pb nb by simp
qed


subsection \<open>The address on the wire\<close>

lemma take_bit_32_unat [simp]: "take_bit 32 (unat (x :: u32)) = unat x"
  using unat_u32_less [of x] by (simp add: take_bit_nat_eq_self_iff)

lemma unat_byte_of: "unat (ucast (drop_bit k x AND 0xff) :: byte) = unat (x :: u32) div 2 ^ k mod 2 ^ 8"
proof -
  have "drop_bit k x AND 0xff = take_bit 8 (drop_bit k x)"
    by (simp add: take_bit_eq_mask mask_eq_exp_minus_1)
  moreover have "unat (ucast (take_bit 8 (drop_bit k x)) :: byte) = take_bit 8 (drop_bit k (unat x))"
    by (simp add: unsigned_ucast_eq unsigned_take_bit_eq unsigned_drop_bit_eq)
  ultimately show ?thesis
    by (simp only: drop_bit_eq_div take_bit_eq_mod)
qed

lemma low_bits_of_nat: "take_bit n (drop_bit k (x :: u32)) = of_nat (unat x div 2 ^ k mod 2 ^ n)"
proof -
  have "unat (take_bit n (drop_bit k x)) = take_bit n (drop_bit k (unat x))"
    by (simp add: unsigned_take_bit_eq unsigned_drop_bit_eq)
  then show ?thesis by (metis drop_bit_eq_div take_bit_eq_mod of_nat_unat ucast_id)
qed

lemma drive_reg:
  "unat (ucast (0xe0 OR push_bit 4 (d AND 1) OR (drop_bit 24 x AND 0x0f)) :: byte)
    = 0xe0 + 16 * (unat (d :: u32) mod 2) + unat (x :: u32) div 2 ^ 24 mod 16"
proof -
  have d: "d AND 1 = of_nat (unat d mod 2)"
    using low_bits_of_nat [of 1 0 d] by (simp add: take_bit_eq_mask)
  have x: "drop_bit 24 x AND 0x0f = of_nat (unat x div 2 ^ 24 mod 16)"
    using low_bits_of_nat [of 4 24 x] by (simp add: take_bit_eq_mask mask_eq_exp_minus_1)
  have "unat x div 2 ^ 24 mod 16 \<in> set [0..<16]" "unat d mod 2 \<in> {0, 1}" by auto
  then show ?thesis
    unfolding d x by (auto simp: upt_rec)
qed

lemma nat_bytes_28: "(n :: nat) mod 2 ^ 8 + 2 ^ 8 * (n div 2 ^ 8 mod 2 ^ 8)
    + 2 ^ 16 * (n div 2 ^ 16 mod 2 ^ 8) + 2 ^ 24 * (n div 2 ^ 24 mod 16) = n mod 2 ^ 28"
proof -
  have "n mod 2 ^ 28 = n mod 2 ^ 24 + 2 ^ 24 * (n div 2 ^ 24 mod 16)"
    using mod_mult2_eq [of n "2 ^ 24" 16] by simp
  moreover have "n mod 2 ^ 24 = n mod 2 ^ 16 + 2 ^ 16 * (n div 2 ^ 16 mod 2 ^ 8)"
    using mod_mult2_eq [of n "2 ^ 16" "2 ^ 8"] by simp
  moreover have "n mod 2 ^ 16 = n mod 2 ^ 8 + 2 ^ 8 * (n div 2 ^ 8 mod 2 ^ 8)"
    using mod_mult2_eq [of n "2 ^ 8" "2 ^ 8"] by simp
  ultimately show ?thesis by simp
qed

lemma ide_decode_regs:
  "ide_decode [(0x3f6, c), (0x1f2, n), (0x1f3, r3), (0x1f4, r4), (0x1f5, r5), (0x1f6, r6), (0x1f7, cmd)]
    = (unat r6 div 16 mod 2, unat r3 + 2 ^ 8 * unat r4 + 2 ^ 16 * unat r5 + 2 ^ 24 * (unat r6 mod 16))"
  by (simp add: ide_decode_def Let_def)

lemma ide_decode_ports:
  assumes "b_dev b < 2" "b_sector b < 2 ^ 28"
  shows "ide_decode (ide_ports b) = (b_dev b, b_sector b)"
proof -
  let ?x = "of_nat (b_sector b) :: u32"
  have x: "unat ?x = b_sector b" and d: "unat (of_nat (b_dev b) :: u32) = b_dev b"
    using assms by (simp_all add: unat_of_nat take_bit_nat_eq_self_iff)
  have r0: "unat (ucast (?x AND 0xff) :: byte) = b_sector b mod 2 ^ 8"
    using unat_byte_of [of 0 ?x] x by simp
  have r6: "unat (ucast (0xe0 OR push_bit 4 (of_nat (b_dev b) AND 1) OR (drop_bit 24 ?x AND 0x0f)) :: byte)
      = 16 * (14 + b_dev b mod 2) + b_sector b div 2 ^ 24 mod 16"
    unfolding drive_reg x d by simp
  have q: "(16 * (14 + b_dev b mod 2) + b_sector b div 2 ^ 24 mod 16) div 16 mod 2 = b_dev b"
    using assms(1) div_mult_self2 [of 16 "b_sector b div 2 ^ 24 mod 16" "14 + b_dev b"]
    by (auto simp: add.commute less_2_cases_iff simp del: div_mult_self2)
  have m: "(16 * (14 + b_dev b mod 2) + b_sector b div 2 ^ 24 mod 16) mod 16 = b_sector b div 2 ^ 24 mod 16"
    by (simp only: mod_mult_self4 mod_mod_trivial)
  have "ide_decode (ide_ports b) = (b_dev b, b_sector b mod 2 ^ 8 + 2 ^ 8 * (b_sector b div 2 ^ 8 mod 2 ^ 8)
    + 2 ^ 16 * (b_sector b div 2 ^ 16 mod 2 ^ 8) + 2 ^ 24 * (b_sector b div 2 ^ 24 mod 16))"
    by (simp only: ide_ports_def Let_def ide_decode_regs r0 r6 unat_byte_of x q m)
  then show ?thesis
    using assms by (simp only: nat_bytes_28) simp
qed

subsection \<open>What the driver does with one request\<close>

definition bid :: "buf \<Rightarrow> nat \<times> nat" where "bid x = (b_dev x, b_sector x)"

lemma bid_fields [simp]:
  "bid (x\<lparr>b_busy := t\<rparr>) = bid x" "bid (x\<lparr>b_valid := t\<rparr>) = bid x" "bid (x\<lparr>b_dirty := t\<rparr>) = bid x"
  "bid (x\<lparr>b_data := d\<rparr>) = bid x" "bid (x\<lparr>b_dev := v\<rparr>) = (v, b_sector x)"
  "bid (x\<lparr>b_sector := n\<rparr>) = (b_dev x, n)"
  by (simp_all add: bid_def)

lemma bufs_upd_buf [simp]: "bufs (upd_buf b f s) = (bufs s)[b := f (bufs s ! b)]"
  by (simp add: upd_buf_def)

lemma upd_buf_fields [simp]:
  "bnext (upd_buf b f s) = bnext s" "bprev (upd_buf b f s) = bprev s"
  "idequeue (upd_buf b f s) = idequeue s" "havedisk1 (upd_buf b f s) = havedisk1 s"
  "ide_err (upd_buf b f s) = ide_err s" "dcur (upd_buf b f s) = dcur s" "dbusy (upd_buf b f s) = dbusy s"
  "dbase (upd_buf b f s) = dbase s" "dwrites (upd_buf b f s) = dwrites s"
  "bio_st.more (upd_buf b f s) = bio_st.more s"
  by (simp_all add: upd_buf_def)

lemma dcontent_upd_buf [simp]: "dcontent (upd_buf b f s) = dcontent s"
  by (simp add: dcontent_def)

lemma dcontent_fields [simp]:
  "dcontent (s\<lparr>bnext := n\<rparr>) = dcontent s" "dcontent (s\<lparr>bprev := n\<rparr>) = dcontent s"
  "dcontent (s\<lparr>idequeue := q\<rparr>) = dcontent s" "dcontent (s\<lparr>dcur := a\<rparr>) = dcontent s"
  "dcontent (s\<lparr>bufs := bs\<rparr>) = dcontent s" "dcontent (s\<lparr>dbusy := y\<rparr>) = dcontent s"
  by (simp_all add: dcontent_def)

lemma dcontent_write [simp]:
  "dcontent (s\<lparr>dwrites := (a, d) # w\<rparr>) = (dcontent (s\<lparr>dwrites := w\<rparr>))(a := d)"
  by (auto simp: dcontent_def)

text \<open>A request on an idle disk that reports no error is served by one interrupt.\<close>

lemma iderw_read:
  assumes "idequeue s = []" "\<not> ide_err s" "b < length (bufs s)"
    and "b_busy (bufs s ! b)" "\<not> b_valid (bufs s ! b)" "\<not> b_dirty (bufs s ! b)"
    and "b_dev (bufs s ! b) < 2" "b_sector (bufs s ! b) < 2 ^ 28" "havedisk1 s"
  shows "iderw b s = Inr ((), s\<lparr>dcur := bid (bufs s ! b), dbusy := False, idequeue := [], bufs := (bufs s)[b :=
    (bufs s ! b)\<lparr>b_data := dcontent s (bid (bufs s ! b)), b_valid := True, b_dirty := False\<rparr>]\<rparr>)"
  using assms
  by (simp add: iderw_def idestart_def ideintr_def Let_def ide_decode_ports upd_buf_def numeral_2_eq_2 bid_def)

lemma iderw_write:
  assumes "idequeue s = []" "b < length (bufs s)" "b_busy (bufs s ! b)" "b_dirty (bufs s ! b)"
    and "b_dev (bufs s ! b) < 2" "b_sector (bufs s ! b) < 2 ^ 28" "havedisk1 s"
  shows "iderw b s = Inr ((), s\<lparr>dcur := bid (bufs s ! b), dbusy := False, idequeue := [],
    dwrites := (bid (bufs s ! b), b_data (bufs s ! b)) # dwrites s,
    bufs := (bufs s)[b := (bufs s ! b)\<lparr>b_valid := True, b_dirty := False\<rparr>]\<rparr>)"
  using assms
  by (simp add: iderw_def idestart_def ideintr_def Let_def ide_decode_ports upd_buf_def numeral_2_eq_2 bid_def)

subsection \<open>The cache as seen by its clients\<close>

text \<open>
  Blocks that some code holds (\<open>B_BUSY\<close>), blocks that must not be evicted
  (\<open>B_DIRTY\<close>), the buffer that holds a block, and the content of a block: that of its
  valid buffer, or else the disk's.
\<close>

definition marked :: "(buf \<Rightarrow> bool) \<Rightarrow> buf list \<Rightarrow> (nat \<times> nat) set" where
  "marked P bs = bid ` {x \<in> set bs. P x}"

definition held :: "'a bio_st_scheme \<Rightarrow> (nat \<times> nat) set" where
  "held s = marked b_busy (bufs s)"

definition dirtied :: "'a bio_st_scheme \<Rightarrow> (nat \<times> nat) set" where
  "dirtied s = marked b_dirty (bufs s)"

definition owner :: "'a bio_st_scheme \<Rightarrow> nat \<times> nat \<Rightarrow> nat \<Rightarrow> bool" where
  "owner s a b \<longleftrightarrow> b < length (bufs s) \<and> b_busy (bufs s ! b) \<and> bid (bufs s ! b) = a"

definition bval :: "'a bio_st_scheme \<Rightarrow> nat \<times> nat \<Rightarrow> byte list" where
  "bval s a = (case find (\<lambda>x. b_valid x \<and> bid x = a) (bufs s) of
                 Some x \<Rightarrow> b_data x | None \<Rightarrow> dcontent s a)"

text \<open>The blocks the driver can address: two drives, 28 bits of sector number.\<close>

definition okblk :: "nat \<times> nat \<Rightarrow> bool" where
  "okblk a \<longleftrightarrow> fst a < 2 \<and> snd a < 2 ^ 28"

text \<open>
  The invariant between operations. A buffer is valid exactly when it has been given to a block;
  no two valid buffers have the same block; a buffer that is neither held nor dirty has the
  content of the disk.
\<close>

definition buf_ok :: "(nat \<times> nat \<Rightarrow> byte list) \<Rightarrow> buf \<Rightarrow> bool" where
  "buf_ok d x \<longleftrightarrow> length (b_data x) = BSIZE
     \<and> (if b_valid x then okblk (bid x) \<and> (\<not> b_busy x \<and> \<not> b_dirty x \<longrightarrow> b_data x = d (bid x))
        else b_dev x = 2 ^ 32 - 1 \<and> \<not> b_busy x \<and> \<not> b_dirty x)"

definition one_buf_each :: "buf list \<Rightarrow> bool" where
  "one_buf_each bs \<longleftrightarrow> (\<forall>i < length bs. \<forall>j < length bs.
     b_valid (bs ! i) \<and> b_valid (bs ! j) \<and> bid (bs ! i) = bid (bs ! j) \<longrightarrow> i = j)"

definition binv :: "'a bio_st_scheme \<Rightarrow> bool" where
  "binv s \<longleftrightarrow> length (bufs s) = NBUF \<and> (\<forall>x \<in> set (bufs s). buf_ok (dcontent s) x)
     \<and> one_buf_each (bufs s) \<and> (\<exists>us. ring s us \<and> set us = {..<NBUF})
     \<and> idequeue s = [] \<and> havedisk1 s \<and> \<not> ide_err s \<and> (\<forall>a. length (dcontent s a) = BSIZE)"

lemma bval_valid:
  assumes "one_buf_each (bufs s)" "i < length (bufs s)" "b_valid (bufs s ! i)"
  shows "bval s (bid (bufs s ! i)) = b_data (bufs s ! i)"
proof -
  obtain j where j: "find (\<lambda>x. b_valid x \<and> bid x = bid (bufs s ! i)) (bufs s) = Some (bufs s ! j)"
    "j < length (bufs s)" "b_valid (bufs s ! j)" "bid (bufs s ! j) = bid (bufs s ! i)"
    using assms(2,3) by (cases "find (\<lambda>x. b_valid x \<and> bid x = bid (bufs s ! i)) (bufs s)")
      (auto simp: find_None_iff find_Some_iff)
  with assms have "j = i" unfolding one_buf_each_def by blast
  with j(1) show ?thesis by (simp add: bval_def)
qed

lemma bval_uncached:
  assumes "\<And>x. x \<in> set (bufs s) \<Longrightarrow> b_valid x \<Longrightarrow> bid x \<noteq> a"
  shows "bval s a = dcontent s a"
proof -
  have "find (\<lambda>x. b_valid x \<and> bid x = a) (bufs s) = None"
    using assms by (auto simp: find_None_iff)
  then show ?thesis by (simp add: bval_def)
qed

lemma held_nth: "b < length (bufs s) \<Longrightarrow> b_busy (bufs s ! b) \<Longrightarrow> bid (bufs s ! b) \<in> held s"
  by (simp add: held_def marked_def)

lemma dirtied_nth: "b < length (bufs s) \<Longrightarrow> b_dirty (bufs s ! b) \<Longrightarrow> bid (bufs s ! b) \<in> dirtied s"
  by (simp add: dirtied_def marked_def)

lemma buf_okD:
  "binv s \<Longrightarrow> b < NBUF \<Longrightarrow> buf_ok (dcontent s) (bufs s ! b)"
  by (simp add: binv_def)

lemma one_buf_eachD:
  "one_buf_each bs \<Longrightarrow> i < length bs \<Longrightarrow> j < length bs \<Longrightarrow> b_valid (bs ! i) \<Longrightarrow> b_valid (bs ! j) \<Longrightarrow>
    bid (bs ! i) = bid (bs ! j) \<Longrightarrow> i = j"
  by (simp add: one_buf_each_def)

text \<open>One buffer is changed: what becomes of the contents and of the marks.\<close>

lemma one_buf_each_upd:
  assumes "one_buf_each bs" "i < length bs"
    and "\<And>j. j < length bs \<Longrightarrow> j \<noteq> i \<Longrightarrow> b_valid (bs ! j) \<Longrightarrow> bid (bs ! j) \<noteq> bid x'"
  shows "one_buf_each (bs[i := x'])"
  using assms unfolding one_buf_each_def length_list_update
  by (metis nth_list_update_eq nth_list_update_neq)

lemma bval_upd:
  assumes "one_buf_each (bufs s)" "i < length (bufs s)" "one_buf_each (bufs s')"
    and s': "bufs s' = (bufs s)[i := x']" "b_valid x'"
    and x: "b_valid (bufs s ! i) \<Longrightarrow> bid (bufs s ! i) \<noteq> bid x' \<Longrightarrow>
      b_data (bufs s ! i) = dcontent s (bid (bufs s ! i))"
    and d: "\<And>c. c \<noteq> bid x' \<Longrightarrow> dcontent s' c = dcontent s c"
  shows "bval s' = (bval s)(bid x' := b_data x')"
proof
  fix c
  have i: "i < length (bufs s')" "bufs s' ! i = x'" using s' assms(2) by simp_all
  consider (here) "c = bid x'"
    | (buf) j where "c \<noteq> bid x'" "j < length (bufs s)" "b_valid (bufs s ! j)" "c = bid (bufs s ! j)"
    | (disk) "c \<noteq> bid x'" "\<And>j. j < length (bufs s) \<Longrightarrow> b_valid (bufs s ! j) \<Longrightarrow> bid (bufs s ! j) \<noteq> c"
    by blast
  then show "bval s' c = ((bval s)(bid x' := b_data x')) c"
  proof cases
    case here
    then show ?thesis using bval_valid [OF assms(3), of i] i s'(2) by simp
  next
    case disk
    then have "bval s c = dcontent s c" by (intro bval_uncached) (metis in_set_conv_nth)
    moreover from disk have "bval s' c = dcontent s' c"
      unfolding s' by (intro bval_uncached) (auto simp: s' dest: set_update_subset_insert [THEN subsetD] in_set_conv_nth [THEN iffD1])
    ultimately show ?thesis using disk d by simp
  next
    case buf
    show ?thesis
    proof (cases "j = i")
      case True
      with buf have "bval s' c = dcontent s' c"
        using one_buf_eachD [OF assms(1), of _ i]
        by (intro bval_uncached) (auto simp: in_set_conv_nth s' nth_list_update split: if_splits)
      with True buf x d show ?thesis using bval_valid [OF assms(1), of i] by simp
    next
      case False
      with buf have "bufs s' ! j = bufs s ! j" "j < length (bufs s')" by (simp_all add: s')
      with buf show ?thesis using bval_valid [OF assms(1), of j] bval_valid [OF assms(3), of j] by simp
    qed
  qed
qed

lemma marked_upd:
  assumes "one_buf_each bs" "i < length bs" "\<And>x. x \<in> set bs \<Longrightarrow> P x \<Longrightarrow> b_valid x"
  shows "marked P (bs[i := x']) = (marked P bs - (if P (bs ! i) then {bid (bs ! i)} else {}))
           \<union> (if P x' then {bid x'} else {})" (is "?l = ?r")
proof (rule set_eqI)
  fix a
  have v: "P (bs ! j) \<Longrightarrow> b_valid (bs ! j)" if "j < length bs" for j using assms(3) that by simp
  have m: "a \<in> marked P cs \<longleftrightarrow> (\<exists>j < length cs. P (cs ! j) \<and> bid (cs ! j) = a)" for cs
    by (auto simp: marked_def in_set_conv_nth)
  show "a \<in> ?l \<longleftrightarrow> a \<in> ?r"
  proof
    assume "a \<in> ?l"
    then obtain j where j: "j < length bs" "P (bs[i := x'] ! j)" "bid (bs[i := x'] ! j) = a"
      unfolding m by auto
    then show "a \<in> ?r"
      using assms(2) v one_buf_eachD [OF assms(1), of j i]
      by (cases "j = i") (auto simp: m)
  next
    assume "a \<in> ?r"
    then show "a \<in> ?l"
      unfolding m Un_iff Diff_iff
      using assms(2) by (auto split: if_splits) (metis nth_list_update_neq nth_list_update_eq)+
  qed
qed

text \<open>
  The change of one buffer that the operations below are instances of: buffer \<open>i\<close> becomes
  \<open>x'\<close>, which is valid; the disk changes at most at the block of \<open>x'\<close>.
\<close>

definition buf_step :: "nat \<Rightarrow> buf \<Rightarrow> 'a bio_st_scheme \<Rightarrow> 'a bio_st_scheme \<Rightarrow> bool" where
  "buf_step i x' s s' \<longleftrightarrow> i < NBUF \<and> bufs s' = (bufs s)[i := x'] \<and> b_valid x'
     \<and> (\<forall>j < NBUF. j \<noteq> i \<longrightarrow> b_valid (bufs s ! j) \<longrightarrow> bid (bufs s ! j) \<noteq> bid x')
     \<and> (b_valid (bufs s ! i) \<longrightarrow> bid (bufs s ! i) \<noteq> bid x' \<longrightarrow>
          \<not> b_busy (bufs s ! i) \<and> \<not> b_dirty (bufs s ! i))
     \<and> buf_ok (dcontent s') x' \<and> length (dcontent s' (bid x')) = BSIZE
     \<and> (\<forall>c. c \<noteq> bid x' \<longrightarrow> dcontent s' c = dcontent s c)
     \<and> (\<exists>us. ring s' us \<and> set us = {..<NBUF})
     \<and> idequeue s' = [] \<and> havedisk1 s' = havedisk1 s \<and> ide_err s' = ide_err s"

lemma buf_step_same:
  assumes "binv s" "i < NBUF" "b_valid (bufs s ! i)" "bid x' = bid (bufs s ! i)" "b_valid x'"
    and "bufs s' = (bufs s)[i := x']" "buf_ok (dcontent s') x'"
    and "dcontent s' = dcontent s \<or> dcontent s' = (dcontent s)(bid x' := b_data x')"
    and "\<exists>us. ring s' us \<and> set us = {..<NBUF}"
    and "idequeue s' = []" "havedisk1 s' = havedisk1 s" "ide_err s' = ide_err s"
  shows "buf_step i x' s s'"
proof -
  have "length (dcontent s' (bid x')) = BSIZE"
    using assms(1,7,8) by (auto simp: binv_def buf_ok_def)
  moreover have "bid (bufs s ! j) \<noteq> bid x'" if "j < NBUF" "j \<noteq> i" "b_valid (bufs s ! j)" for j
    using that assms(1-4) one_buf_eachD [of "bufs s" j i] by (auto simp: binv_def)
  moreover have "dcontent s' c = dcontent s c" if "c \<noteq> bid x'" for c
    using assms(8) that by auto
  ultimately show ?thesis
    using assms(2-7,9-) by (simp add: buf_step_def)
qed

lemma buf_step_binv:
  assumes "binv s" "buf_step i x' s s'"
  shows "binv s'"
proof -
  have len: "length (bufs s) = NBUF" "i < NBUF" using assms by (simp_all add: binv_def buf_step_def)
  have "one_buf_each (bufs s')"
    using assms len one_buf_each_upd [of "bufs s" i x'] by (auto simp: binv_def buf_step_def)
  moreover have "buf_ok (dcontent s') (bufs s' ! j)" if "j < NBUF" for j
  proof (cases "j = i")
    case True
    then show ?thesis using assms len by (simp add: buf_step_def)
  next
    case False
    then have "bufs s' ! j = bufs s ! j" "b_valid (bufs s ! j) \<longrightarrow> bid (bufs s ! j) \<noteq> bid x'"
      using assms that by (simp_all add: buf_step_def)
    with buf_okD [OF assms(1) that] show ?thesis
      using assms(2) by (simp add: buf_ok_def buf_step_def)
  qed
  moreover have "length (dcontent s' a) = BSIZE" for a
    using assms by (cases "a = bid x'") (auto simp: binv_def buf_step_def)
  moreover have "length (bufs s') = NBUF" using assms by (simp add: binv_def buf_step_def)
  ultimately show ?thesis
    using assms by (auto simp: binv_def buf_step_def in_set_conv_nth)
qed

lemma buf_step_bval:
  assumes "binv s" "buf_step i x' s s'"
  shows "bval s' = (bval s)(bid x' := b_data x')"
  using assms buf_step_binv [OF assms] buf_okD [OF assms(1), of i]
  by (intro bval_upd) (auto simp: binv_def buf_step_def buf_ok_def)

lemma buf_step_marked:
  assumes "binv s" "buf_step i x' s s'"
  shows "held s' = (held s - (if b_busy (bufs s ! i) then {bid (bufs s ! i)} else {}))
      \<union> (if b_busy x' then {bid x'} else {})"
    and "dirtied s' = (dirtied s - (if b_dirty (bufs s ! i) then {bid (bufs s ! i)} else {}))
      \<union> (if b_dirty x' then {bid x'} else {})"
proof -
  have "b_valid x" if "x \<in> set (bufs s)" "b_busy x \<or> b_dirty x" for x
    using assms(1) that unfolding binv_def buf_ok_def by metis
  moreover have "bufs s' = (bufs s)[i := x']" "i < length (bufs s)" "one_buf_each (bufs s)"
    using assms by (auto simp: binv_def buf_step_def)
  ultimately show
    "held s' = (held s - (if b_busy (bufs s ! i) then {bid (bufs s ! i)} else {}))
      \<union> (if b_busy x' then {bid x'} else {})"
    "dirtied s' = (dirtied s - (if b_dirty (bufs s ! i) then {bid (bufs s ! i)} else {}))
      \<union> (if b_dirty x' then {bid x'} else {})"
    unfolding held_def dirtied_def by (simp_all add: marked_upd)
qed

lemma buf_step_owner:
  assumes "buf_step i x' s s'" "owner s c j" "j \<noteq> i"
  shows "owner s' c j"
  using assms by (simp add: owner_def buf_step_def)

lemmas buf_step_laws = buf_step_binv buf_step_bval buf_step_marked

lemma owner_unique:
  assumes "binv s" "owner s a i" "owner s a j"
  shows "i = j"
proof -
  have "b_valid (bufs s ! i)" "b_valid (bufs s ! j)"
    using assms buf_okD [OF assms(1)] by (auto simp: owner_def binv_def buf_ok_def split: if_splits)
  with assms show ?thesis
    by (auto simp: owner_def binv_def intro: one_buf_eachD)
qed

lemma owner_facts:
  assumes "binv s" "owner s a b"
  shows "b < NBUF" "b_busy (bufs s ! b)" "b_valid (bufs s ! b)" "bid (bufs s ! b) = a" "okblk a"
    "b_data (bufs s ! b) = bval s a" "a \<in> held s" "length (b_data (bufs s ! b)) = BSIZE"
proof -
  show b: "b < NBUF" "b_busy (bufs s ! b)" "bid (bufs s ! b) = a"
    using assms by (auto simp: owner_def binv_def)
  with buf_okD [OF assms(1), of b] show v: "b_valid (bufs s ! b)" "okblk a" "length (b_data (bufs s ! b)) = BSIZE"
    by (auto simp: buf_ok_def split: if_splits)
  with b show "b_data (bufs s ! b) = bval s a"
    using assms(1) bval_valid [of s b] by (simp add: binv_def)
  show "a \<in> held s" using assms by (auto simp: held_def marked_def owner_def)
qed

lemma owner_others:
  assumes "binv s" "owner s a b" "j < NBUF" "j \<noteq> b" "b_valid (bufs s ! j)"
  shows "bid (bufs s ! j) \<noteq> a"
  using assms owner_facts [OF assms(1,2)] one_buf_eachD [of "bufs s" j b] by (auto simp: binv_def)

subsection \<open>The laws of the operations\<close>

lemma ring_cong: "bnext s' = bnext s \<Longrightarrow> bprev s' = bprev s \<Longrightarrow> ring s' us = ring s us"
  by (simp add: ring_def)

text \<open>
  The abstract cache: a list of buffers, the most recently used first. A block is looked for
  from the front, a buffer to recycle from the back.
\<close>

definition lru_get :: "nat list \<Rightarrow> nat \<Rightarrow> nat \<Rightarrow> ('a bio_st_scheme, nat) kern" where
  "lru_get us dev sector s =
    (case find (\<lambda>b. bid (bufs s ! b) = (dev, sector)) us of
       Some b \<Rightarrow> if \<not> b_busy (bufs s ! b) then Inr (b, upd_buf b (b_busy_update (\<lambda>_. True)) s)
                 else Inl Asleep
     | None \<Rightarrow>
        (case find (\<lambda>b. \<not> b_busy (bufs s ! b) \<and> \<not> b_dirty (bufs s ! b)) (rev us) of
           Some b \<Rightarrow> Inr (b, upd_buf b (\<lambda>x. x\<lparr>b_dev := dev, b_sector := sector,
                                   b_busy := True, b_valid := False, b_dirty := False\<rparr>) s)
         | None \<Rightarrow> Inl (Panic ''bget: no buffers'')))"

lemma bget_ring:
  assumes "ring s us" "set us = {..<NBUF}"
  shows "bget dev sector s = lru_get us dev sector s"
proof -
  have "distinct us" using assms by (simp add: ring_def cyc_def)
  then have "length us = NBUF" using assms(2) distinct_card [of us] by simp
  then have "scan (bnext s) P (Suc NBUF) (bnext s HEAD) = Some (find P us)"
    "scan (bprev s) P (Suc NBUF) (bprev s HEAD) = Some (find P (rev us))" for P
    using assms(1) by (auto simp: ring_def cyc_def intro!: scan_seg)
  then show ?thesis
    by (simp add: bget_def lru_get_def bid_def split: option.split)
qed

text \<open>A free and clean buffer is left unless all are pinned.\<close>

lemma free_buffer:
  assumes "binv s" "card (held s \<union> dirtied s) < NBUF"
  shows "\<exists>b < NBUF. \<not> b_busy (bufs s ! b) \<and> \<not> b_dirty (bufs s ! b)"
proof (rule ccontr)
  assume "\<not> ?thesis"
  then have all: "b_busy (bufs s ! b) \<or> b_dirty (bufs s ! b)" if "b < NBUF" for b using that by blast
  have len: "length (bufs s) = NBUF" using assms(1) by (simp add: binv_def)
  have "b_valid (bufs s ! b)" if "b < NBUF" for b
    using all [OF that] buf_okD [OF assms(1) that] by (auto simp: buf_ok_def split: if_splits)
  then have "inj_on (\<lambda>b. bid (bufs s ! b)) {..<NBUF}"
    using assms(1) len by (auto simp: inj_on_def binv_def intro: one_buf_eachD)
  then have "card ((\<lambda>b. bid (bufs s ! b)) ` {..<NBUF}) = NBUF" by (simp add: card_image)
  moreover have "(\<lambda>b. bid (bufs s ! b)) ` {..<NBUF} \<subseteq> held s \<union> dirtied s"
    using all len held_nth [of _ s] dirtied_nth [of _ s] unfolding image_subset_iff by (metis UnI1 UnI2 lessThan_iff)
  moreover have "finite (held s \<union> dirtied s)" by (simp add: held_def dirtied_def marked_def)
  ultimately show False using assms(2) card_mono by (metis leD)
qed

lemma bread_hit:
  assumes "binv s" "okblk (d, n)" "(d, n) \<notin> held s" "b < NBUF" "bid (bufs s ! b) = (d, n)"
  shows "bread d n s = Inr (b, upd_buf b (b_busy_update (\<lambda>_. True)) s)"
    and "buf_step b ((bufs s ! b)\<lparr>b_busy := True\<rparr>) s (upd_buf b (b_busy_update (\<lambda>_. True)) s)"
    and "\<not> b_busy (bufs s ! b)"
proof -
  obtain us where us: "ring s us" "set us = {..<NBUF}" using assms(1) by (auto simp: binv_def)
  have len: "length (bufs s) = NBUF" using assms(1) by (simp add: binv_def)
  have ok: "b_dev (bufs s ! c) \<noteq> 2 ^ 32 - 1" if "bid (bufs s ! c) = (d, n)" for c
    using assms(2) that by (auto simp: bid_def okblk_def)
  have v: "b_valid (bufs s ! c)" if "c < NBUF" "bid (bufs s ! c) = (d, n)" for c
    using buf_okD [OF assms(1) that(1)] ok [OF that(2)] by (auto simp: buf_ok_def split: if_splits)
  have uniq: "c = b" if "c < NBUF" "bid (bufs s ! c) = (d, n)" for c
    using that assms len v by (auto simp: binv_def intro!: one_buf_eachD [of "bufs s" c b])
  show nb: "\<not> b_busy (bufs s ! b)" using assms(3-5) len held_nth [of b s] by auto
  have "find (\<lambda>b. bid (bufs s ! b) = (d, n)) us \<noteq> None"
    using us(2) assms(4,5) by (auto simp: find_None_iff)
  then obtain c where c: "find (\<lambda>b. bid (bufs s ! b) = (d, n)) us = Some c" by blast
  then have "c \<in> set us" "bid (bufs s ! c) = (d, n)" by (auto simp: find_Some_iff)
  with c us(2) uniq have "find (\<lambda>b. bid (bufs s ! b) = (d, n)) us = Some b" by auto
  then show "bread d n s = Inr (b, upd_buf b (b_busy_update (\<lambda>_. True)) s)"
    using nb v [OF assms(4,5)] assms(4) len by (simp add: bread_def kbind_def bget_ring [OF us] lru_get_def)
  show "buf_step b ((bufs s ! b)\<lparr>b_busy := True\<rparr>) s (upd_buf b (b_busy_update (\<lambda>_. True)) s)"
    using v [OF assms(4,5)] buf_okD [OF assms(1,4)] assms(1)
    by (intro buf_step_same) (simp_all add: buf_ok_def ring_def binv_def assms)
qed

lemma bread_miss:
  assumes "binv s" "okblk (d, n)" "\<And>b. b < NBUF \<Longrightarrow> bid (bufs s ! b) \<noteq> (d, n)"
    and "card (held s \<union> dirtied s) < NBUF"
  shows "\<exists>b x' s'. bread d n s = Inr (b, s') \<and> buf_step b x' s s' \<and> \<not> b_busy (bufs s ! b) \<and> \<not> b_dirty (bufs s ! b)
    \<and> bid x' = (d, n) \<and> b_busy x' \<and> \<not> b_dirty x' \<and> b_data x' = dcontent s (d, n)
    \<and> dwrites s' = dwrites s \<and> dbase s' = dbase s \<and> bio_st.more s' = bio_st.more s"
proof -
  obtain us where us: "ring s us" "set us = {..<NBUF}" using assms(1) by (auto simp: binv_def)
  have len: "length (bufs s) = NBUF" using assms(1) by (simp add: binv_def)
  let ?P = "\<lambda>b. \<not> b_busy (bufs s ! b) \<and> \<not> b_dirty (bufs s ! b)"
  have "find (\<lambda>b. bid (bufs s ! b) = (d, n)) us = None"
    using us(2) assms(3) by (auto simp: find_None_iff)
  moreover from free_buffer [OF assms(1,4)] us(2) have "find ?P (rev us) \<noteq> None"
    by (auto simp: find_None_iff)
  then obtain b where fb: "find ?P (rev us) = Some b" by blast
  then have b: "b < NBUF" "\<not> b_busy (bufs s ! b)" "\<not> b_dirty (bufs s ! b)"
    using us(2) find_SomeD [OF fb] by simp_all
  let ?x = "(bufs s ! b)\<lparr>b_dev := d, b_sector := n, b_busy := True, b_valid := False, b_dirty := False\<rparr>"
  let ?x' = "?x\<lparr>b_data := dcontent s (d, n), b_valid := True, b_dirty := False\<rparr>"
  let ?s1 = "s\<lparr>bufs := (bufs s)[b := ?x]\<rparr>"
  let ?s' = "s\<lparr>dcur := (d, n), dbusy := False, idequeue := [], bufs := (bufs s)[b := ?x']\<rparr>"
  have "iderw b ?s1 = Inr ((), ?s')"
    using assms(1,2) len b by (subst iderw_read) (simp_all add: binv_def okblk_def)
  with fb calculation have "bread d n s = Inr (b, ?s')"
    using len b by (simp add: bread_def kbind_def bget_ring [OF us] lru_get_def upd_buf_def ret_def)
  moreover have "buf_step b ?x' s ?s'"
    using assms(1-3) b us unfolding buf_step_def
    by (simp add: binv_def buf_ok_def ring_def bid_def [of ?x'])
  ultimately show ?thesis using b by (intro exI [of _ b] exI [of _ ?x'] exI [of _ ?s']) (simp add: bid_def)
qed

text \<open>
  The laws, stated for a client: a read of a block that is not held succeeds as long as not all
  buffers are pinned, and changes no content.
\<close>

lemma bread_law:
  assumes "binv s" "okblk (d, n)" "(d, n) \<notin> held s" "card (insert (d, n) (held s \<union> dirtied s)) \<le> NBUF"
  shows "\<exists>b s'. bread d n s = Inr (b, s') \<and> binv s' \<and> owner s' (d, n) b \<and> bval s' = bval s
    \<and> held s' = insert (d, n) (held s) \<and> dirtied s' = dirtied s
    \<and> dwrites s' = dwrites s \<and> dbase s' = dbase s \<and> bio_st.more s' = bio_st.more s
    \<and> (\<forall>c j. owner s c j \<longrightarrow> owner s' c j)"
proof (cases "\<exists>b < NBUF. bid (bufs s ! b) = (d, n)")
  case True
  then obtain b where b: "b < NBUF" "bid (bufs s ! b) = (d, n)" by blast
  let ?s' = "upd_buf b (b_busy_update (\<lambda>_. True)) s"
  note hit = bread_hit [OF assms(1-3) b]
  have v: "b_valid (bufs s ! b)" "one_buf_each (bufs s)" "length (bufs s) = NBUF"
    using assms(1) hit(2) buf_okD [OF assms(1) b(1)] by (auto simp: buf_step_def binv_def)
  have "bval ?s' = bval s"
    using buf_step_bval [OF assms(1) hit(2)] bval_valid [OF v(2), of b] b v by (simp add: fun_eq_iff)
  moreover have "held ?s' = insert (d, n) (held s)" "dirtied ?s' = dirtied s"
    using buf_step_marked [OF assms(1) hit(2)] b hit(3) dirtied_nth [of b s] v by auto
  moreover have "owner ?s' (d, n) b" using b v by (simp add: owner_def)
  moreover have "owner ?s' c j" if "owner s c j" for c j
  proof -
    have "j \<noteq> b" using hit(3) that by (auto simp: owner_def)
    with buf_step_owner [OF hit(2) that] show ?thesis .
  qed
  ultimately show ?thesis
    using hit(1) buf_step_binv [OF assms(1) hit(2)] by auto
next
  case False
  have nd: "(d, n) \<notin> held s \<union> dirtied s"
  proof
    assume "(d, n) \<in> held s \<union> dirtied s"
    then obtain x where "x \<in> set (bufs s)" "bid x = (d, n)"
      by (auto simp: held_def dirtied_def marked_def)
    with False assms(1) show False by (auto simp: in_set_conv_nth binv_def)
  qed
  have "finite (held s \<union> dirtied s)" by (simp add: held_def dirtied_def marked_def)
  with nd assms(4) have "card (held s \<union> dirtied s) < NBUF" by simp
  with False bread_miss [OF assms(1,2)] obtain b x' s' where
    r: "bread d n s = Inr (b, s')" and st: "buf_step b x' s s'"
    and b: "\<not> b_busy (bufs s ! b)" "\<not> b_dirty (bufs s ! b)"
    and x': "bid x' = (d, n)" "b_busy x'" "\<not> b_dirty x'" "b_data x' = dcontent s (d, n)"
    and more: "dwrites s' = dwrites s" "dbase s' = dbase s" "bio_st.more s' = bio_st.more s" by metis
  have "bval s (d, n) = dcontent s (d, n)"
    using False assms(1) by (intro bval_uncached) (auto simp: in_set_conv_nth binv_def)
  then have "bval s' = bval s" using buf_step_bval [OF assms(1) st] x' by auto
  moreover have "held s' = insert (d, n) (held s)" "dirtied s' = dirtied s"
    using buf_step_marked [OF assms(1) st] b x' by auto
  moreover have "owner s' (d, n) b"
    using st x' assms(1) by (simp add: owner_def buf_step_def binv_def)
  moreover have "owner s' c j" if "owner s c j" for c j
  proof -
    have "j \<noteq> b" using b that by (auto simp: owner_def)
    with buf_step_owner [OF st that] show ?thesis .
  qed
  ultimately show ?thesis using r more buf_step_binv [OF assms(1) st] by auto
qed

lemma held_step:
  assumes "binv s" "owner s a b" "buf_step b x' s s'" "bid x' = a"
  shows "binv s'" "bval s' = (bval s)(a := b_data x')"
    "held s' = (if b_busy x' then held s else held s - {a})"
    "dirtied s' = (if b_dirty x' then insert a (dirtied s) else dirtied s - {a})"
    "c \<noteq> a \<Longrightarrow> owner s c j \<Longrightarrow> owner s' c j"
    "b_busy x' \<Longrightarrow> owner s' c j \<longleftrightarrow> owner s c j"
proof -
  note ow = owner_facts [OF assms(1,2)]
  have len: "length (bufs s) = NBUF" using assms(1) by (simp add: binv_def)
  show "binv s'" "bval s' = (bval s)(a := b_data x')"
    using buf_step_binv [OF assms(1,3)] buf_step_bval [OF assms(1,3)] assms(4) by simp_all
  show "held s' = (if b_busy x' then held s else held s - {a})"
    using buf_step_marked(1) [OF assms(1,3)] ow assms(4) by auto
  have "a \<notin> dirtied s" if "\<not> b_dirty (bufs s ! b)"
  proof
    assume "a \<in> dirtied s"
    then obtain j where "j < NBUF" "b_dirty (bufs s ! j)" "bid (bufs s ! j) = a"
      using len by (auto simp: dirtied_def marked_def in_set_conv_nth)
    moreover from this have "b_valid (bufs s ! j)"
      using buf_okD [OF assms(1), of j] by (auto simp: buf_ok_def split: if_splits)
    ultimately show False using owner_others [OF assms(1,2), of j] that by auto
  qed
  then show "dirtied s' = (if b_dirty x' then insert a (dirtied s) else dirtied s - {a})"
    using buf_step_marked(2) [OF assms(1,3)] ow assms(4) by auto
  have j: "owner s' c j \<longleftrightarrow> owner s c j" if "j \<noteq> b" for c j
    using that assms(3) by (simp add: owner_def buf_step_def)
  show "owner s' c j" if "c \<noteq> a" "owner s c j"
    using that j [of j c] ow by (auto simp: owner_def)
  show "owner s' c j \<longleftrightarrow> owner s c j" if "b_busy x'"
    using j [of j c] that ow assms(3,4) len by (cases "j = b") (auto simp: owner_def buf_step_def)
qed

lemma set_bdata_law:
  assumes "binv s" "owner s a b" "length d = BSIZE"
  shows "\<exists>s'. set_bdata b d s = Inr ((), s') \<and> binv s' \<and> bval s' = (bval s)(a := d)
    \<and> held s' = held s \<and> dirtied s' = dirtied s \<and> owner s' = owner s
    \<and> dwrites s' = dwrites s \<and> dbase s' = dbase s \<and> bio_st.more s' = bio_st.more s"
proof -
  note ow = owner_facts [OF assms(1,2)]
  let ?x' = "(bufs s ! b)\<lparr>b_data := d\<rparr>" and ?s' = "upd_buf b (b_data_update (\<lambda>_. d)) s"
  have st: "buf_step b ?x' s ?s'"
    using ow assms(1,3) by (intro buf_step_same) (simp_all add: buf_ok_def ring_def binv_def)
  have "dirtied ?s' = dirtied s"
    using held_step(4) [OF assms(1,2) st] ow dirtied_nth [of b s] assms(1)
      buf_step_marked(2) [OF assms(1) st] by (auto simp: binv_def)
  with held_step [OF assms(1,2) st] ow show ?thesis
    by (auto simp: set_bdata_def modify_def fun_eq_iff)
qed

lemma set_dirty_law:
  assumes "binv s" "owner s a b"
  shows "\<exists>s'. set_dirty b s = Inr ((), s') \<and> binv s' \<and> bval s' = bval s
    \<and> held s' = held s \<and> dirtied s' = insert a (dirtied s) \<and> owner s' = owner s
    \<and> dwrites s' = dwrites s \<and> dbase s' = dbase s \<and> bio_st.more s' = bio_st.more s"
proof -
  note ow = owner_facts [OF assms(1,2)]
  let ?x' = "(bufs s ! b)\<lparr>b_dirty := True\<rparr>" and ?s' = "upd_buf b (b_dirty_update (\<lambda>_. True)) s"
  have st: "buf_step b ?x' s ?s'"
    using ow assms(1) by (intro buf_step_same) (simp_all add: buf_ok_def ring_def binv_def)
  with held_step [OF assms(1,2) st] ow show ?thesis
    by (auto simp: set_dirty_def modify_def fun_eq_iff)
qed

lemma bwrite_law:
  assumes "binv s" "owner s a b"
  shows "\<exists>s'. bwrite b s = Inr ((), s') \<and> binv s' \<and> bval s' = bval s
    \<and> held s' = held s \<and> dirtied s' = dirtied s - {a} \<and> owner s' = owner s
    \<and> dwrites s' = (a, bval s a) # dwrites s \<and> dbase s' = dbase s \<and> bio_st.more s' = bio_st.more s"
proof -
  note ow = owner_facts [OF assms(1,2)]
  let ?x' = "(bufs s ! b)\<lparr>b_dirty := True, b_valid := True, b_dirty := False\<rparr>"
  let ?s' = "s\<lparr>dcur := a, dbusy := False, idequeue := [], dwrites := (a, bval s a) # dwrites s, bufs := (bufs s)[b := ?x']\<rparr>"
  have ab: "b_dev (bufs s ! b) = fst a" "b_sector (bufs s ! b) = snd a"
    using ow(4) by (auto simp: bid_def)
  have r: "bwrite b s = Inr ((), ?s')"
    using assms(1) ow ab unfolding bwrite_def upd_buf_def
    by (subst iderw_write) (simp_all add: binv_def okblk_def)
  have "s\<lparr>dwrites := dwrites s\<rparr> = s" by simp
  then have dc: "dcontent ?s' = (dcontent s)(a := bval s a)"
    by (simp add: dcontent_def)
  have st: "buf_step b ?x' s ?s'"
    using ow assms(1) unfolding buf_step_def
    by (intro buf_step_same [unfolded buf_step_def]) (simp_all add: buf_ok_def ring_def binv_def dc)
  with held_step [OF assms(1,2) st] ow r show ?thesis
    by (auto simp: fun_eq_iff)
qed

lemma brelse_law:
  assumes "binv s" "owner s a b" "a \<in> dirtied s \<or> bval s a = dcontent s a"
  shows "\<exists>s'. brelse b s = Inr ((), s') \<and> binv s' \<and> bval s' = bval s
    \<and> held s' = held s - {a} \<and> dirtied s' = dirtied s \<and> (\<forall>c j. c \<noteq> a \<longrightarrow> owner s c j \<longrightarrow> owner s' c j)
    \<and> dwrites s' = dwrites s \<and> dbase s' = dbase s \<and> bio_st.more s' = bio_st.more s"
proof -
  note ow = owner_facts [OF assms(1,2)]
  let ?x' = "(bufs s ! b)\<lparr>b_busy := False\<rparr>"
  let ?s' = "upd_buf b (b_busy_update (\<lambda>_. False)) (blink b (bunlink b s))"
  have f: "bufs ?s' = (bufs s)[b := ?x']" "dcontent ?s' = dcontent s" "dwrites ?s' = dwrites s"
    "dbase ?s' = dbase s" "bio_st.more ?s' = bio_st.more s" "idequeue ?s' = idequeue s"
    "havedisk1 ?s' = havedisk1 s" "ide_err ?s' = ide_err s"
    by (simp_all add: blink_def bunlink_def Let_def)
  obtain us where us: "ring s us" "set us = {..<NBUF}" using assms(1) by (auto simp: binv_def)
  then obtain vs ws where vw: "us = vs @ b # ws" using ow(1) split_list [of b us] by auto
  have "distinct us" using us by (simp add: ring_def cyc_def)
  then have "ring (blink b (bunlink b s)) (b # vs @ ws)" "set (b # vs @ ws) = {..<NBUF}"
    using us vw ow(1) by (auto intro!: ring_blink ring_bunlink)
  then have rg: "\<exists>us. ring ?s' us \<and> set us = {..<NBUF}" by (auto simp: ring_def)
  have dirty: "a \<in> dirtied s \<Longrightarrow> b_dirty (bufs s ! b)"
  proof -
    assume "a \<in> dirtied s"
    then obtain j where "j < NBUF" "b_dirty (bufs s ! j)" "bid (bufs s ! j) = a"
      using assms(1) by (auto simp: dirtied_def marked_def in_set_conv_nth binv_def)
    moreover from this have "b_valid (bufs s ! j)"
      using buf_okD [OF assms(1), of j] by (auto simp: buf_ok_def split: if_splits)
    ultimately show ?thesis using owner_others [OF assms(1,2), of j] by auto
  qed
  have st: "buf_step b ?x' s ?s'"
    using ow assms(1,3) rg dirty f by (intro buf_step_same) (auto simp: buf_ok_def binv_def)
  have "dirtied ?s' = dirtied s"
    using buf_step_marked(2) [OF assms(1) st] ow dirtied_nth [of b s] assms(1) by (auto simp: binv_def)
  with held_step [OF assms(1,2) st] ow f show ?thesis
    by (auto simp: brelse_def fun_eq_iff)
qed

subsection \<open>The contract of the cache\<close>

text \<open>
  What the log and the file system rely on. \<open>view\<close> is the content of the blocks as the
  kernel sees it, \<open>disk\<close> what is on the disk, \<open>frame\<close> everything the cache leaves
  alone.
\<close>

locale block_cache =
  fixes inv :: "'s \<Rightarrow> bool"
    and view :: "'s \<Rightarrow> nat \<times> nat \<Rightarrow> byte list"
    and hist :: "'s \<Rightarrow> ((nat \<times> nat) \<times> byte list) list"
    and frame :: "'s \<Rightarrow> (nat \<times> nat \<Rightarrow> byte list) \<times> 'f"
    and holds :: "'s \<Rightarrow> (nat \<times> nat) set"
    and pinned :: "'s \<Rightarrow> (nat \<times> nat) set"
    and own :: "'s \<Rightarrow> nat \<times> nat \<Rightarrow> nat \<Rightarrow> bool"
    and rd :: "nat \<Rightarrow> nat \<Rightarrow> ('s, nat) kern"
    and wr :: "nat \<Rightarrow> ('s, unit) kern"
    and rel :: "nat \<Rightarrow> ('s, unit) kern"
    and data :: "nat \<Rightarrow> 's \<Rightarrow> byte list"
    and set_data :: "nat \<Rightarrow> byte list \<Rightarrow> ('s, unit) kern"
    and pin :: "nat \<Rightarrow> ('s, unit) kern"
  assumes rd: "inv s \<Longrightarrow> okblk (d, n) \<Longrightarrow> (d, n) \<notin> holds s \<Longrightarrow>
        card (insert (d, n) (holds s \<union> pinned s)) \<le> NBUF \<Longrightarrow>
        \<exists>b s'. rd d n s = Inr (b, s') \<and> inv s' \<and> own s' (d, n) b \<and> view s' = view s
          \<and> holds s' = insert (d, n) (holds s) \<and> pinned s' = pinned s \<and> hist s' = hist s
          \<and> frame s' = frame s \<and> (\<forall>c j. own s c j \<longrightarrow> own s' c j)"
    and data: "inv s \<Longrightarrow> own s a b \<Longrightarrow> data b s = view s a"
    and data_length: "inv s \<Longrightarrow> length (view s a) = BSIZE"
    and set_data: "inv s \<Longrightarrow> own s a b \<Longrightarrow> length x = BSIZE \<Longrightarrow>
        \<exists>s'. set_data b x s = Inr ((), s') \<and> inv s' \<and> view s' = (view s)(a := x)
          \<and> holds s' = holds s \<and> pinned s' = pinned s \<and> own s' = own s \<and> hist s' = hist s
          \<and> frame s' = frame s"
    and pin: "inv s \<Longrightarrow> own s a b \<Longrightarrow>
        \<exists>s'. pin b s = Inr ((), s') \<and> inv s' \<and> view s' = view s
          \<and> holds s' = holds s \<and> pinned s' = insert a (pinned s) \<and> own s' = own s \<and> hist s' = hist s
          \<and> frame s' = frame s"
    and wr: "inv s \<Longrightarrow> own s a b \<Longrightarrow>
        \<exists>s'. wr b s = Inr ((), s') \<and> inv s' \<and> view s' = view s \<and> holds s' = holds s
          \<and> pinned s' = pinned s - {a} \<and> own s' = own s \<and> hist s' = (a, view s a) # hist s
          \<and> frame s' = frame s"
    and rel: "inv s \<Longrightarrow> own s a b \<Longrightarrow> a \<in> pinned s \<or> view s a = content (fst (frame s)) (hist s) a \<Longrightarrow>
        \<exists>s'. rel b s = Inr ((), s') \<and> inv s' \<and> view s' = view s \<and> holds s' = holds s - {a}
          \<and> pinned s' = pinned s \<and> hist s' = hist s \<and> frame s' = frame s
          \<and> (\<forall>c j. c \<noteq> a \<longrightarrow> own s c j \<longrightarrow> own s' c j)"
    and coherent: "inv s \<Longrightarrow> a \<notin> holds s \<Longrightarrow> a \<notin> pinned s \<Longrightarrow> view s a = content (fst (frame s)) (hist s) a"
    and own_holds: "inv s \<Longrightarrow> own s a b \<Longrightarrow> a \<in> holds s"
begin

text \<open>Reading a block: \<open>bp = bread(dev, n); ... bp->data ...; brelse(bp)\<close>.\<close>

definition peek :: "nat \<Rightarrow> nat \<Rightarrow> ('s, byte list) kern" where
  "peek d n = kbind (rd d n) (\<lambda>b. kbind (gets (data b)) (\<lambda>x. kbind (rel b) (\<lambda>_. ret x)))"

lemma peek_view:
  assumes "inv s" "okblk (d, n)" "(d, n) \<notin> holds s" "card (insert (d, n) (holds s \<union> pinned s)) \<le> NBUF"
  shows "\<exists>s'. peek d n s = Inr (view s (d, n), s') \<and> inv s' \<and> view s' = view s \<and> holds s' = holds s
    \<and> pinned s' = pinned s \<and> hist s' = hist s \<and> frame s' = frame s
    \<and> (\<forall>c j. own s c j \<longrightarrow> own s' c j)"
proof -
  from rd [OF assms] obtain b s1 where s1: "rd d n s = Inr (b, s1)" "inv s1" "own s1 (d, n) b"
    "view s1 = view s" "holds s1 = insert (d, n) (holds s)" "pinned s1 = pinned s" "hist s1 = hist s"
    "frame s1 = frame s" "\<forall>c j. own s c j \<longrightarrow> own s1 c j" by blast
  have "(d, n) \<in> pinned s1 \<or> view s1 (d, n) = content (fst (frame s1)) (hist s1) (d, n)"
    using coherent [OF assms(1,3)] s1 by auto
  from rel [OF s1(2,3) this] obtain s2 where s2: "rel b s1 = Inr ((), s2)" "inv s2" "view s2 = view s1"
    "holds s2 = holds s1 - {(d, n)}" "pinned s2 = pinned s1" "hist s2 = hist s1" "frame s2 = frame s1"
    "\<forall>c j. c \<noteq> (d, n) \<longrightarrow> own s1 c j \<longrightarrow> own s2 c j" by blast
  have "own s2 c j" if "own s c j" for c j
    using that s1(9) s2(8) own_holds [OF assms(1) that] assms(3) by metis
  then show ?thesis
    using s1 s2 data [OF s1(2,3)] assms(3) by (auto simp: peek_def kbind_def gets_def ret_def)
qed

text \<open>
  Replacing a block on disk: \<open>bread\<close>, new data computed from the state, \<open>bwrite\<close>,
  \<open>brelse\<close>.
\<close>

definition poke :: "nat \<Rightarrow> nat \<Rightarrow> (nat \<Rightarrow> 's \<Rightarrow> byte list) \<Rightarrow> ('s, unit) kern" where
  "poke d n g = kbind (rd d n) (\<lambda>b. kbind (gets (g b)) (\<lambda>x.
     kbind (set_data b x) (\<lambda>_. kbind (wr b) (\<lambda>_. rel b))))"

lemma poke_view:
  assumes "inv s" "okblk (d, n)" "(d, n) \<notin> holds s" "card (insert (d, n) (holds s \<union> pinned s)) \<le> NBUF"
    and "length x = BSIZE"
    and g: "\<And>b s1. inv s1 \<Longrightarrow> own s1 (d, n) b \<Longrightarrow> view s1 = view s \<Longrightarrow> frame s1 = frame s \<Longrightarrow>
      \<forall>c j. own s c j \<longrightarrow> own s1 c j \<Longrightarrow> g b s1 = x"
  shows "\<exists>s'. poke d n g s = Inr ((), s') \<and> inv s' \<and> view s' = (view s)((d, n) := x)
    \<and> holds s' = holds s \<and> pinned s' = pinned s - {(d, n)}
    \<and> hist s' = ((d, n), x) # hist s \<and> frame s' = frame s
    \<and> (\<forall>c j. own s c j \<longrightarrow> own s' c j)"
proof -
  from rd [OF assms(1-4)] obtain b s1 where s1: "rd d n s = Inr (b, s1)" "inv s1" "own s1 (d, n) b"
    "view s1 = view s" "holds s1 = insert (d, n) (holds s)" "pinned s1 = pinned s" "hist s1 = hist s"
    "frame s1 = frame s" "\<forall>c j. own s c j \<longrightarrow> own s1 c j" by blast
  from set_data [OF s1(2,3) assms(5)] obtain s2 where s2: "set_data b x s1 = Inr ((), s2)" "inv s2"
    "view s2 = (view s1)((d, n) := x)" "holds s2 = holds s1" "pinned s2 = pinned s1" "own s2 = own s1"
    "hist s2 = hist s1" "frame s2 = frame s1" by blast
  with s1 have "own s2 (d, n) b" by simp
  from wr [OF s2(2) this] obtain s3 where s3: "wr b s2 = Inr ((), s3)" "inv s3" "view s3 = view s2"
    "holds s3 = holds s2" "pinned s3 = pinned s2 - {(d, n)}" "own s3 = own s2"
    "hist s3 = ((d, n), view s2 (d, n)) # hist s2" "frame s3 = frame s2" by blast
  have "own s3 (d, n) b" "view s3 (d, n) = content (fst (frame s3)) (hist s3) (d, n)"
    using s1 s2 s3 by simp_all
  with rel [OF s3(2)] obtain s4 where s4: "rel b s3 = Inr ((), s4)" "inv s4" "view s4 = view s3"
    "holds s4 = holds s3 - {(d, n)}" "pinned s4 = pinned s3" "hist s4 = hist s3" "frame s4 = frame s3"
    "\<forall>c j. c \<noteq> (d, n) \<longrightarrow> own s3 c j \<longrightarrow> own s4 c j" by blast
  have "own s4 c j" if "own s c j" for c j
    using that s1(9) s2(6) s3(6) s4(8) own_holds [OF assms(1) that] assms(3) by metis
  then show ?thesis
    using s1 s2 s3 s4 g [OF s1(2-4,8,9)] assms(3) by (auto simp: poke_def kbind_def gets_def)
qed

text \<open>
  Copying a block to its home: both are held, the copy is written and both are released.
\<close>

definition copy :: "nat \<Rightarrow> nat \<Rightarrow> nat \<Rightarrow> ('s, unit) kern" where
  "copy d m n = kbind (rd d m) (\<lambda>l. kbind (rd d n) (\<lambda>b. kbind (gets (data l)) (\<lambda>x.
     kbind (set_data b x) (\<lambda>_. kbind (wr b) (\<lambda>_. kbind (rel l) (\<lambda>_. rel b))))))"

lemma copy_view:
  assumes "inv s" "okblk (d, m)" "okblk (d, n)" "holds s = {}" "m \<noteq> n"
    and "card (insert (d, m) (insert (d, n) (pinned s))) \<le> NBUF" "finite (pinned s)"
  shows "\<exists>s'. copy d m n s = Inr ((), s') \<and> inv s' \<and> view s' = (view s)((d, n) := view s (d, m))
    \<and> holds s' = {} \<and> pinned s' = pinned s - {(d, n)}
    \<and> hist s' = ((d, n), view s (d, m)) # hist s \<and> frame s' = frame s"
proof -
  have "card (insert (d, m) (holds s \<union> pinned s)) \<le> NBUF"
    unfolding assms(4) using assms(6,7)
    by (auto intro: order_trans [OF card_mono [of "insert (d, m) (insert (d, n) (pinned s))"]])
  with rd [OF assms(1,2)] assms(4) obtain l s1 where s1: "rd d m s = Inr (l, s1)" "inv s1" "own s1 (d, m) l"
    "view s1 = view s" "holds s1 = {(d, m)}" "pinned s1 = pinned s" "hist s1 = hist s"
    "frame s1 = frame s" by auto
  have "(d, n) \<notin> holds s1" "card (insert (d, n) (holds s1 \<union> pinned s1)) \<le> NBUF"
    using assms(5,6) s1 by (auto simp: insert_commute)
  with rd [OF s1(2) assms(3)] obtain b s2 where s2: "rd d n s1 = Inr (b, s2)" "inv s2" "own s2 (d, n) b"
    "view s2 = view s1" "holds s2 = insert (d, n) (holds s1)" "pinned s2 = pinned s1" "hist s2 = hist s1"
    "frame s2 = frame s1" "\<forall>c j. own s1 c j \<longrightarrow> own s2 c j" by blast
  let ?x = "view s (d, m)"
  have dl: "data l s2 = ?x" using data [OF s2(2)] s1 s2 by simp
  from set_data [OF s2(2,3) data_length [OF assms(1), of "(d, m)"]] obtain s3 where
    s3: "set_data b ?x s2 = Inr ((), s3)" "inv s3"
    "view s3 = (view s2)((d, n) := ?x)" "holds s3 = holds s2" "pinned s3 = pinned s2" "own s3 = own s2"
    "hist s3 = hist s2" "frame s3 = frame s2" by blast
  with s2 have "own s3 (d, n) b" by simp
  from wr [OF s3(2) this] obtain s4 where s4: "wr b s3 = Inr ((), s4)" "inv s4" "view s4 = view s3"
    "holds s4 = holds s3" "pinned s4 = pinned s3 - {(d, n)}" "own s4 = own s3"
    "hist s4 = ((d, n), view s3 (d, n)) # hist s3" "frame s4 = frame s3" by blast
  have "own s4 (d, m) l" using s1 s2 s3 s4 by simp
  moreover have "(d, m) \<in> pinned s4 \<or> view s4 (d, m) = content (fst (frame s4)) (hist s4) (d, m)"
    using coherent [OF assms(1), of "(d, m)"] assms(4,5) s1 s2 s3 s4 by auto
  ultimately obtain s5 where s5: "rel l s4 = Inr ((), s5)" "inv s5" "view s5 = view s4"
    "holds s5 = holds s4 - {(d, m)}" "pinned s5 = pinned s4" "hist s5 = hist s4" "frame s5 = frame s4"
    "\<forall>c j. c \<noteq> (d, m) \<longrightarrow> own s4 c j \<longrightarrow> own s5 c j" using rel [OF s4(2)] by blast
  have "own s5 (d, n) b" "view s5 (d, n) = content (fst (frame s5)) (hist s5) (d, n)"
    using s2 s3 s4 s5 assms(5) by auto
  with rel [OF s5(2)] obtain s6 where s6: "rel b s5 = Inr ((), s6)" "inv s6" "view s6 = view s5"
    "holds s6 = holds s5 - {(d, n)}" "pinned s6 = pinned s5" "hist s6 = hist s5" "frame s6 = frame s5"
    by blast
  have "copy d m n s = Inr ((), s6)"
    using s1(1) s2(1) s3(1) s4(1) s5(1) s6(1) dl by (simp add: copy_def kbind_def gets_def)
  then show ?thesis
    using s1 s2 s3 s4 s5 s6 assms(5) by auto
qed

end

lemma bdata_law: "binv s \<Longrightarrow> owner s a b \<Longrightarrow> bdata b s = bval s a"
  by (simp add: bdata_def owner_facts(6))

lemma binv_coherent:
  assumes "binv s" "a \<notin> held s" "a \<notin> dirtied s"
  shows "bval s a = dcontent s a"
proof (cases "\<exists>b < NBUF. b_valid (bufs s ! b) \<and> bid (bufs s ! b) = a")
  case True
  then obtain b where b: "b < NBUF" "b_valid (bufs s ! b)" "bid (bufs s ! b) = a" by blast
  with assms have "\<not> b_busy (bufs s ! b)" "\<not> b_dirty (bufs s ! b)"
    using held_nth [of b s] dirtied_nth [of b s] by (auto simp: binv_def)
  then show ?thesis
    using b assms(1) buf_okD [OF assms(1) b(1)] bval_valid [of s b] by (auto simp: buf_ok_def binv_def)
next
  case False
  with assms(1) show ?thesis by (intro bval_uncached) (auto simp: in_set_conv_nth binv_def)
qed

text \<open>What the cache leaves alone: the disk as it was at first, and the layers above.\<close>

definition bframe :: "'a bio_st_scheme \<Rightarrow> (nat \<times> nat \<Rightarrow> byte list) \<times> 'a" where
  "bframe s = (dbase s, bio_st.more s)"

lemma dcontent_frame: "content (fst (bframe s)) (dwrites s) = dcontent s"
  by (simp add: bframe_def dcontent_def)

lemma bval_length:
  assumes "binv s"
  shows "length (bval s a) = BSIZE"
  using assms by (auto simp: bval_def binv_def buf_ok_def split: option.split dest: find_SomeD)

interpretation bc: block_cache binv bval dwrites bframe held dirtied owner
  bread bwrite brelse bdata set_bdata set_dirty
proof unfold_locales
  fix s :: "'a bio_st_scheme" and d n assume "binv s" "okblk (d, n)" "(d, n) \<notin> held s"
    "card (insert (d, n) (held s \<union> dirtied s)) \<le> NBUF"
  from bread_law [OF this] show "\<exists>b s'. bread d n s = Inr (b, s') \<and> binv s' \<and> owner s' (d, n) b \<and> bval s' = bval s
     \<and> held s' = insert (d, n) (held s) \<and> dirtied s' = dirtied s \<and> dwrites s' = dwrites s
     \<and> bframe s' = bframe s \<and> (\<forall>c j. owner s c j \<longrightarrow> owner s' c j)"
    by (elim ex_forward) (simp add: bframe_def)
next
  fix s :: "'a bio_st_scheme" and a b and x :: "byte list" assume "binv s" "owner s a b" "length x = BSIZE"
  from set_bdata_law [OF this] show "\<exists>s'. set_bdata b x s = Inr ((), s') \<and> binv s' \<and> bval s' = (bval s)(a := x)
     \<and> held s' = held s \<and> dirtied s' = dirtied s \<and> owner s' = owner s \<and> dwrites s' = dwrites s
     \<and> bframe s' = bframe s"
    by (elim ex_forward) (simp add: bframe_def)
next
  fix s :: "'a bio_st_scheme" and a b assume o: "binv s" "owner s a b"
  from set_dirty_law [OF this] show "\<exists>s'. set_dirty b s = Inr ((), s') \<and> binv s' \<and> bval s' = bval s \<and> held s' = held s
     \<and> dirtied s' = insert a (dirtied s) \<and> owner s' = owner s \<and> dwrites s' = dwrites s
     \<and> bframe s' = bframe s"
    by (elim ex_forward) (simp add: bframe_def)
  from bwrite_law [OF o] show "\<exists>s'. bwrite b s = Inr ((), s') \<and> binv s' \<and> bval s' = bval s \<and> held s' = held s
     \<and> dirtied s' = dirtied s - {a} \<and> owner s' = owner s \<and> dwrites s' = (a, bval s a) # dwrites s
     \<and> bframe s' = bframe s"
    by (elim ex_forward) (simp add: bframe_def)
next
  fix s :: "'a bio_st_scheme" and a b assume "binv s" "owner s a b"
    "a \<in> dirtied s \<or> bval s a = content (fst (bframe s)) (dwrites s) a"
  from brelse_law [OF this [unfolded dcontent_frame]]
  show "\<exists>s'. brelse b s = Inr ((), s') \<and> binv s' \<and> bval s' = bval s
     \<and> held s' = held s - {a} \<and> dirtied s' = dirtied s \<and> dwrites s' = dwrites s
     \<and> bframe s' = bframe s \<and> (\<forall>c j. c \<noteq> a \<longrightarrow> owner s c j \<longrightarrow> owner s' c j)"
    by (elim ex_forward) (simp add: bframe_def)
qed (simp_all add: bdata_law binv_coherent owner_facts(7) bval_length dcontent_frame)

subsection \<open>Start-up\<close>

text \<open>The cache and the driver as the kernel finds them: zeroed memory, an idle disk.\<close>

definition bss :: "'a bio_st_scheme \<Rightarrow> bool" where
  "bss s \<longleftrightarrow> bufs s = replicate NBUF \<lparr>b_busy = False, b_valid = False, b_dirty = False,
       b_dev = 0, b_sector = 0, b_data = replicate BSIZE 0\<rparr>
     \<and> idequeue s = [] \<and> havedisk1 s \<and> \<not> ide_err s \<and> (\<forall>a. length (dcontent s a) = BSIZE)"

lemma binit_round:
  assumes "ring s us" "b \<notin> set us" "b \<noteq> HEAD"
  shows "ring (blink b (upd_buf b f s)) (b # us)"
  using assms by (intro ring_blink) (simp_all add: ring_def)

lemma binit_fold:
  assumes "ring s []" "n \<le> NBUF"
  shows "ring (fold (\<lambda>b s. blink b (upd_buf b f s)) [0..<n] s) (rev [0..<n])"
  using assms(2)
proof (induction n)
  case 0
  then show ?case using assms(1) by simp
next
  case (Suc n)
  then show ?case by (auto intro!: binit_round)
qed

lemma blink_fields [simp]:
  "bufs (blink b s) = bufs s" "idequeue (blink b s) = idequeue s" "havedisk1 (blink b s) = havedisk1 s"
  "ide_err (blink b s) = ide_err s" "dcontent (blink b s) = dcontent s"
  "bio_st.more (blink b s) = bio_st.more s"
  by (simp_all add: blink_def Let_def)

lemma fold_fields:
  "idequeue (fold (\<lambda>b s. blink b (upd_buf b f s)) bs s) = idequeue s"
  "havedisk1 (fold (\<lambda>b s. blink b (upd_buf b f s)) bs s) = havedisk1 s"
  "ide_err (fold (\<lambda>b s. blink b (upd_buf b f s)) bs s) = ide_err s"
  "dcontent (fold (\<lambda>b s. blink b (upd_buf b f s)) bs s) = dcontent s"
  "bio_st.more (fold (\<lambda>b s. blink b (upd_buf b f s)) bs s) = bio_st.more s"
  "bufs (fold (\<lambda>b s. blink b (upd_buf b f s)) bs s) = fold (\<lambda>b xs. xs[b := f (xs ! b)]) bs (bufs s)"
  by (induction bs arbitrary: s) simp_all

lemma binit_bufs:
  "length xs = n \<Longrightarrow> fold (\<lambda>b xs. xs[b := f (xs ! b)]) [0..<n] xs = map f xs"
proof (induction n arbitrary: xs)
  case (Suc n)
  then obtain ys y where xs: "xs = ys @ [y]" "length ys = n" by (metis length_Suc_conv_rev)
  have "fold (\<lambda>b xs. xs[b := f (xs ! b)]) bs (ys @ [y]) = fold (\<lambda>b xs. xs[b := f (xs ! b)]) bs ys @ [y]"
    if "set bs \<subseteq> {..<length ys}" for bs
    using that by (induction bs arbitrary: ys) (simp_all add: list_update_append nth_append)
  from this [of "[0..<n]"] Suc.IH [of ys] xs show ?case
    by (simp add: lessThan_atLeast0 nth_append list_update_append)
qed simp

lemma binit_binv:
  assumes "bss s"
  shows "binv (binit s)" "held (binit s) = {}" "dirtied (binit s) = {}" "bval (binit s) = dcontent s"
proof -
  let ?b = "\<lparr>b_busy = False, b_valid = False, b_dirty = False,
       b_dev = 2 ^ 32 - 1, b_sector = 0, b_data = replicate BSIZE 0\<rparr> :: buf"
  have bs: "bufs (binit s) = replicate NBUF ?b"
    using assms by (simp add: binit_def fold_fields binit_bufs bss_def)
  have "ring (s\<lparr>bnext := (bnext s)(HEAD := HEAD), bprev := (bprev s)(HEAD := HEAD)\<rparr>) []"
    by (simp add: ring_def cyc_def)
  then have "ring (binit s) (rev [0..<NBUF])"
    unfolding binit_def by (rule binit_fold) simp
  then have "\<exists>us. ring (binit s) us \<and> set us = {..<NBUF}"
    by (intro exI [of _ "rev [0..<NBUF]"]) auto
  moreover have dc: "dcontent (binit s) = dcontent s" by (simp add: binit_def fold_fields)
  ultimately show "binv (binit s)"
    using assms bs by (auto simp: binv_def bss_def buf_ok_def one_buf_each_def binit_def fold_fields)
  show "held (binit s) = {}" "dirtied (binit s) = {}" using bs by (auto simp: held_def dirtied_def marked_def)
  show "bval (binit s) = dcontent s"
    using bs dc by (intro ext) (subst bval_uncached; simp)
qed

subsection \<open>Properties\<close>

text \<open>
  C4 (refinement): the doubly linked list of the cache is a least-recently-used order. With the
  list read along \<open>next\<close> as \<open>us\<close>, \<open>bget\<close> hands out the cached buffer of the
  block, sleeps if it is held, and otherwise recycles the last buffer of \<open>us\<close> that is
  neither held nor dirty, or panics if there is none; and \<open>brelse\<close> moves the released
  buffer to the front of \<open>us\<close>, keeping both pointer fields consistent.
\<close>

theorem bcache_lru:
  assumes "ring s us" "set us = {..<NBUF}"
  shows "bget dev sector s = lru_get us dev sector s \<and>
    (\<forall>b < NBUF. b_busy (bufs s ! b) \<longrightarrow>
      (\<exists>s'. brelse b s = Inr ((), s') \<and> ring s' (b # remove1 b us) \<and> set (b # remove1 b us) = {..<NBUF}))"
proof (intro conjI allI impI)
  show "bget dev sector s = lru_get us dev sector s" by (rule bget_ring [OF assms])
next
  fix b
  assume b: "b < NBUF" "b_busy (bufs s ! b)"
  then obtain vs ws where vw: "us = vs @ b # ws" using assms(2) split_list [of b us] by auto
  have "distinct us" using assms by (simp add: ring_def cyc_def)
  then have r: "remove1 b us = vs @ ws" "b \<notin> set (vs @ ws)" using vw by (auto simp: remove1_append)
  then have "ring (blink b (bunlink b s)) (b # remove1 b us)"
    using assms vw b by (simp add: ring_blink ring_bunlink)
  then have "ring (upd_buf b (b_busy_update (\<lambda>_. False)) (blink b (bunlink b s))) (b # remove1 b us)"
    by (simp add: ring_def)
  moreover have "set (b # remove1 b us) = {..<NBUF}" using assms(2) vw r by auto
  ultimately show "\<exists>s'. brelse b s = Inr ((), s') \<and> ring s' (b # remove1 b us) \<and> set (b # remove1 b us) = {..<NBUF}"
    using b by (simp add: brelse_def)
qed

text \<open>
  The request queue: its buffers are for different blocks, and when it is not empty the drive is
  at work on the block of its head, which has been sent to the disk if it is to be written.
\<close>

definition ide_ok :: "'a bio_st_scheme \<Rightarrow> bool" where
  "ide_ok s \<longleftrightarrow> distinct (map (\<lambda>c. bid (bufs s ! c)) (idequeue s))
     \<and> (\<forall>c \<in> set (idequeue s). c < length (bufs s) \<and> okblk (bid (bufs s ! c)))
     \<and> (case idequeue s of [] \<Rightarrow> True
        | c # q \<Rightarrow> dbusy s \<and> dcur s = bid (bufs s ! c)
            \<and> (b_dirty (bufs s ! c) \<longrightarrow> dcontent s (bid (bufs s ! c)) = b_data (bufs s ! c)))"

text \<open>What is written when the requests \<open>q\<close> are started, the latest write first.\<close>

definition ide_writes :: "'a bio_st_scheme \<Rightarrow> nat list \<Rightarrow> ((nat \<times> nat) \<times> byte list) list" where
  "ide_writes s q = rev (map (\<lambda>c. (bid (bufs s ! c), b_data (bufs s ! c))) (filter (\<lambda>c. b_dirty (bufs s ! c)) q))"

lemma ide_writes_simps [simp]: "ide_writes s [] = []"
  "ide_writes s (c # q) = ide_writes s q @ (if b_dirty (bufs s ! c) then [(bid (bufs s ! c), b_data (bufs s ! c))] else [])"
  by (simp_all add: ide_writes_def)

lemma ide_writes_cong: "\<forall>c \<in> set q. bufs s' ! c = bufs s ! c \<Longrightarrow> ide_writes s' q = ide_writes s q"
  by (induction q) simp_all

lemma idestart_eq:
  assumes "okblk (bid (bufs s ! b))"
  shows "idestart b s = s\<lparr>dcur := bid (bufs s ! b), dbusy := True, dwrites := ide_writes s [b] @ dwrites s\<rparr>"
  using assms by (auto simp: idestart_def ide_decode_ports okblk_def bid_def Let_def)

lemma content_other: "a \<notin> fst ` set ws \<Longrightarrow> content base (ws @ vs) a = content base vs a"
  by (induction ws) auto

lemma ide_writes_other:
  assumes "a \<notin> (\<lambda>c. bid (bufs s ! c)) ` set q"
  shows "content base (ide_writes s q @ vs) a = content base vs a"
  using assms by (intro content_other) (auto simp: ide_writes_def)

text \<open>An interrupt completes the request at the head, and starts the next one.\<close>

lemma ideintr_serves:
  assumes "ide_ok s" "idequeue s = c # q"
  defines "s' \<equiv> ideintr (s\<lparr>dbusy := False\<rparr>)"
  shows "idequeue s' = q" "length (bufs s') = length (bufs s)" "ide_err s' = ide_err s" "dbase s' = dbase s"
    "dbusy s' \<longleftrightarrow> q \<noteq> []" "\<And>j. j \<noteq> c \<Longrightarrow> bufs s' ! j = bufs s ! j" "\<And>j. bid (bufs s' ! j) = bid (bufs s ! j)"
    "b_valid (bufs s' ! c)" "\<not> b_dirty (bufs s' ! c)" "b_dirty (bufs s ! c) \<Longrightarrow> b_data (bufs s' ! c) = b_data (bufs s ! c)"
    "b_dirty (bufs s ! c) \<or> \<not> ide_err s \<Longrightarrow> b_data (bufs s' ! c) = dcontent s (bid (bufs s ! c))"
    "dwrites s' = ide_writes s (take 1 q) @ dwrites s" "ide_ok s'"
proof -
  let ?x = "(if b_dirty (bufs s ! c) \<or> ide_err s then bufs s ! c
    else (bufs s ! c)\<lparr>b_data := dcontent s (bid (bufs s ! c))\<rparr>)\<lparr>b_valid := True, b_dirty := False\<rparr>"
  define t where "t = s\<lparr>dbusy := False, idequeue := q, bufs := (bufs s)[c := ?x]\<rparr>"
  have ok: "c < length (bufs s)" "dcur s = bid (bufs s ! c)" "distinct (map (\<lambda>c. bid (bufs s ! c)) (c # q))"
      "\<forall>d \<in> set q. d < length (bufs s) \<and> okblk (bid (bufs s ! d))"
      "b_dirty (bufs s ! c) \<Longrightarrow> dcontent s (bid (bufs s ! c)) = b_data (bufs s ! c)"
    using assms(1,2) by (simp_all add: ide_ok_def)
  have cq: "c \<notin> set q" using ok(3) by auto
  have tb: "bufs t ! j = (if j = c then ?x else bufs s ! j)" "bid (bufs t ! j) = bid (bufs s ! j)" for j
    using ok(1) by (auto simp: t_def bid_def nth_list_update)
  have s': "s' = (if q \<noteq> [] then idestart (hd q) t else t)"
    using ok(1,2) by (auto simp: s'_def ideintr_def assms(2) Let_def upd_buf_def t_def)
  have s'2: "s' = (case q of [] \<Rightarrow> t
      | d # _ \<Rightarrow> t\<lparr>dcur := bid (bufs s ! d), dbusy := True, dwrites := ide_writes s [d] @ dwrites s\<rparr>)"
  proof (cases q)
    case (Cons d r)
    then have "d \<noteq> c" "okblk (bid (bufs t ! d))" using cq ok(4) tb(2) by auto
    then show ?thesis using idestart_eq [of t d] tb(1) [of d] by (simp add: s' Cons t_def)
  qed (simp add: s')
  have b: "bufs s' = bufs t" by (simp add: s'2 split: list.split)
  show "idequeue s' = q" "length (bufs s') = length (bufs s)" "ide_err s' = ide_err s" "dbase s' = dbase s"
    "dbusy s' \<longleftrightarrow> q \<noteq> []" by (simp_all add: s'2 t_def split: list.split)
  show "\<And>j. j \<noteq> c \<Longrightarrow> bufs s' ! j = bufs s ! j" "\<And>j. bid (bufs s' ! j) = bid (bufs s ! j)"
    "b_valid (bufs s' ! c)" "\<not> b_dirty (bufs s' ! c)" by (simp_all add: b tb)
  show "b_dirty (bufs s ! c) \<Longrightarrow> b_data (bufs s' ! c) = b_data (bufs s ! c)"
    "b_dirty (bufs s ! c) \<or> \<not> ide_err s \<Longrightarrow> b_data (bufs s' ! c) = dcontent s (bid (bufs s ! c))"
    using ok(5) by (auto simp: b tb)
  show w: "dwrites s' = ide_writes s (take 1 q) @ dwrites s" by (cases q) (simp_all add: s'2 t_def)
  show "ide_ok s'"
  proof (cases q)
    case (Cons d r)
    have d: "d \<noteq> c" using cq Cons by auto
    have "dcontent s' (bid (bufs s ! d)) = b_data (bufs s ! d)" if "b_dirty (bufs s ! d)"
      using that w Cons by (simp add: dcontent_def)
    then show ?thesis using ok(3,4) d Cons
      by (simp add: ide_ok_def b tb(2)) (simp add: s'2 t_def tb(1) split: if_splits)
  qed (simp add: ide_ok_def s'2 t_def)
qed

text \<open>Interrupts serve the whole queue, in order, and the wait of its last request ends.\<close>

lemma ide_wait_queue:
  assumes "ide_ok s" "idequeue s = q @ [b]" "\<not> (b_valid (bufs s ! b) \<and> \<not> b_dirty (bufs s ! b))" "length q + 1 < n"
  shows "\<exists>s'. ide_wait n b s = Inr ((), s') \<and> idequeue s' = [] \<and> \<not> dbusy s' \<and> dbase s' = dbase s
    \<and> dwrites s' = ide_writes s (tl (q @ [b])) @ dwrites s
    \<and> (\<forall>c \<in> set (q @ [b]). b_valid (bufs s' ! c) \<and> \<not> b_dirty (bufs s' ! c)
        \<and> (b_dirty (bufs s ! c) \<longrightarrow> b_data (bufs s' ! c) = b_data (bufs s ! c))
        \<and> (b_dirty (bufs s ! c) \<or> \<not> ide_err s \<longrightarrow> b_data (bufs s' ! c) = dcontent s' (bid (bufs s ! c))))
    \<and> (\<forall>c. c \<notin> set (q @ [b]) \<longrightarrow> bufs s' ! c = bufs s ! c)"
  using assms
proof (induction q arbitrary: s n)
  case Nil
  then obtain m where n: "n = Suc (Suc m)" by (cases n; cases "n - 1") auto
  have q: "idequeue s = [b]" using Nil.prems(2) by simp
  note i = ideintr_serves [OF Nil.prems(1) q]
  have "dbusy s" using Nil.prems(1) q by (simp add: ide_ok_def)
  then show ?case using Nil.prems(3) i unfolding n
    by (intro exI [of _ "ideintr (s\<lparr>dbusy := False\<rparr>)"]) (auto simp: dcontent_def)
next
  case (Cons c q)
  then obtain m where n: "n = Suc m" by (cases n) auto
  have q: "idequeue s = c # (q @ [b])" using Cons.prems(2) by simp
  define t where "t = ideintr (s\<lparr>dbusy := False\<rparr>)"
  note i = ideintr_serves [OF Cons.prems(1) q, folded t_def]
  have busy: "dbusy s" and dist: "distinct (map (\<lambda>c. bid (bufs s ! c)) (c # q @ [b]))"
    using Cons.prems(1) q by (simp_all add: ide_ok_def)
  have cq: "c \<notin> set (q @ [b])" "c \<noteq> b" "bid (bufs s ! c) \<notin> (\<lambda>c. bid (bufs s ! c)) ` set (q @ [b])"
    using dist by auto
  have same: "\<forall>d \<in> set (q @ [b]). bufs t ! d = bufs s ! d" using i(6) cq(1) by metis
  have "\<not> (b_valid (bufs t ! b) \<and> \<not> b_dirty (bufs t ! b))" using Cons.prems(3) i(6) [of b] cq(2) by simp
  moreover have "length q + 1 < m" using Cons.prems(4) n by simp
  ultimately obtain s' where
    s': "ide_wait m b t = Inr ((), s')" "idequeue s' = []" "\<not> dbusy s'" "dbase s' = dbase t"
      "dwrites s' = ide_writes t (tl (q @ [b])) @ dwrites t"
      "\<forall>d \<in> set (q @ [b]). b_valid (bufs s' ! d) \<and> \<not> b_dirty (bufs s' ! d)
        \<and> (b_dirty (bufs t ! d) \<longrightarrow> b_data (bufs s' ! d) = b_data (bufs t ! d))
        \<and> (b_dirty (bufs t ! d) \<or> \<not> ide_err t \<longrightarrow> b_data (bufs s' ! d) = dcontent s' (bid (bufs t ! d)))"
      "\<forall>d. d \<notin> set (q @ [b]) \<longrightarrow> bufs s' ! d = bufs t ! d"
    using Cons.IH [OF i(13,1)] by blast
  have "ide_writes t (tl (q @ [b])) = ide_writes s (tl (q @ [b]))"
    using same by (intro ide_writes_cong) (cases q; simp)
  then have "dwrites s' = ide_writes s (tl (q @ [b])) @ ide_writes s (take 1 (q @ [b])) @ dwrites s"
    using s'(5) i(12) by simp
  then have w: "dwrites s' = ide_writes s (q @ [b]) @ dwrites s" by (cases q) simp_all
  have "dcontent s' (bid (bufs s ! c)) = dcontent s (bid (bufs s ! c))"
    unfolding dcontent_def w using s'(4) i(4) ide_writes_other [OF cq(3)] by simp
  moreover have "bufs s' ! c = bufs t ! c" using s'(7) cq(1) by blast
  moreover have "ide_wait n b s = Inr ((), s')" using s'(1) Cons.prems(3) busy unfolding n t_def by auto
  ultimately show ?case using s' i same w cq(1) by (intro exI [of _ s']) auto
qed

text \<open>
  C32 (liveness): a request to \<open>iderw\<close> that passes its three checks always returns, however many
  requests are queued before it: the disk is started when it is idle, the interrupt handler serves
  the queue in order, starting each request when the one before it is done, and at the end the
  queue is empty, the drive is idle, and every buffer of the queue and the caller's own are valid and
  clean. The requests that were dirty, and no others, have been written to the disk, once and in
  the order of the queue; and every buffer holds what the disk holds for its block, unless the
  drive failed to read it. Other buffers are unchanged.
\<close>

theorem iderw_completes:
  assumes "ide_ok s" "b_busy (bufs s ! b)" "\<not> (b_valid (bufs s ! b) \<and> \<not> b_dirty (bufs s ! b))"
    and "b_dev (bufs s ! b) = 0 \<or> havedisk1 s" "b < length (bufs s)" "okblk (bid (bufs s ! b))"
    and "bid (bufs s ! b) \<notin> (\<lambda>c. bid (bufs s ! c)) ` set (idequeue s)"
  shows "\<exists>s'. iderw b s = Inr ((), s') \<and> idequeue s' = [] \<and> \<not> dbusy s' \<and> dbase s' = dbase s
    \<and> dwrites s' = ide_writes s (tl (idequeue s) @ [b]) @ dwrites s
    \<and> (\<forall>c \<in> set (idequeue s @ [b]). b_valid (bufs s' ! c) \<and> \<not> b_dirty (bufs s' ! c)
        \<and> (b_dirty (bufs s ! c) \<longrightarrow> b_data (bufs s' ! c) = b_data (bufs s ! c))
        \<and> (b_dirty (bufs s ! c) \<or> \<not> ide_err s \<longrightarrow> b_data (bufs s' ! c) = dcontent s' (bid (bufs s ! c))))
    \<and> (\<forall>c. c \<notin> set (idequeue s @ [b]) \<longrightarrow> bufs s' ! c = bufs s ! c)"
proof -
  define t where "t = s\<lparr>idequeue := idequeue s @ [b]\<rparr>"
  define s2 where "s2 = (if hd (idequeue t) = b then idestart b t else t)"
  have bq: "b \<notin> set (idequeue s)" using assms(7) by auto
  have tw: "ide_writes t q = ide_writes s q" for q by (rule ide_writes_cong) (simp add: t_def)
  have s2: "s2 = (if idequeue s = [] then t\<lparr>dcur := bid (bufs s ! b), dbusy := True, dwrites := ide_writes s [b] @ dwrites s\<rparr> else t)"
  proof (cases "idequeue s")
    case Nil
    then show ?thesis using idestart_eq [of t b] assms(6) tw [of "[b]"] by (simp add: s2_def t_def)
  qed (use bq in \<open>auto simp: s2_def t_def\<close>)
  have f: "idequeue s2 = idequeue s @ [b]" "bufs s2 = bufs s" "ide_err s2 = ide_err s" "dbase s2 = dbase s"
    by (simp_all add: s2 t_def)
  have w: "ide_writes s2 q = ide_writes s q" for q by (rule ide_writes_cong) (simp add: f)
  have ok: "ide_ok s2"
  proof (cases "idequeue s")
    case Nil
    then show ?thesis using assms(5,6) by (auto simp: ide_ok_def s2 t_def dcontent_def)
  next
    case (Cons c q)
    then have "s2 = t" by (simp add: s2)
    then show ?thesis using assms(1,5-7) Cons by (auto simp: ide_ok_def t_def)
  qed
  have run: "iderw b s = ide_wait (Suc (length (idequeue s2))) b s2"
    using assms(2-4) by (auto simp: iderw_def s2_def t_def Let_def)
  have wr: "ide_writes s (tl (idequeue s @ [b])) @ dwrites s2 = ide_writes s (tl (idequeue s) @ [b]) @ dwrites s"
    by (cases "idequeue s") (simp_all add: s2 t_def)
  have "\<not> (b_valid (bufs s2 ! b) \<and> \<not> b_dirty (bufs s2 ! b))" "length (idequeue s) + 1 < Suc (length (idequeue s2))"
    using assms(3) by (simp_all add: f)
  from ide_wait_queue [OF ok f(1) this, unfolded f(2-4) w wr] show ?thesis unfolding run .
qed

text \<open>
  C21 (functional): a read through the cache returns the current content of the block whenever
  the block is not held and a buffer can be had, and it changes no block's content, neither as
  the kernel sees it nor on the disk; at most one more buffer is taken.
\<close>

theorem bread_current:
  assumes "binv s" "okblk (d, n)" "(d, n) \<notin> held s" "card (insert (d, n) (held s \<union> dirtied s)) \<le> NBUF"
  shows "\<exists>b s'. bread d n s = Inr (b, s') \<and> bdata b s' = bval s (d, n) \<and> binv s'
    \<and> bval s' = bval s \<and> dcontent s' = dcontent s
    \<and> held s' = insert (d, n) (held s) \<and> dirtied s' = dirtied s"
proof -
  from bc.rd [OF assms] obtain b s' where "bread d n s = Inr (b, s')" "binv s'" "owner s' (d, n) b"
    "bval s' = bval s" "held s' = insert (d, n) (held s)" "dirtied s' = dirtied s"
    "dwrites s' = dwrites s" "bframe s' = bframe s" by blast
  then show ?thesis using bdata_law [of s' "(d, n)" b] by (simp add: dcontent_frame [symmetric])
qed

text \<open>A machine with two blank disks, after \<open>binit\<close>.\<close>

definition bio0 :: bio_st where
  "bio0 = \<lparr>bufs = replicate NBUF \<lparr>b_busy = False, b_valid = False, b_dirty = False,
       b_dev = 0, b_sector = 0, b_data = replicate BSIZE 0\<rparr>,
     bnext = (\<lambda>_. 0), bprev = (\<lambda>_. 0), idequeue = [], havedisk1 = True, ide_err = False,
     dcur = (0, 0), dbusy = False, dbase = (\<lambda>a. replicate BSIZE (of_nat (snd a))), dwrites = []\<rparr>"

lemma bss_bio0: "bss bio0"
  by (simp add: bss_def bio0_def dcontent_def)

lemma ring_bio0: "ring (binit bio0) [9, 8, 7, 6, 5, 4, 3, 2, 1, 0]"
proof -
  have "ring (bio0\<lparr>bnext := (bnext bio0)(HEAD := HEAD), bprev := (bprev bio0)(HEAD := HEAD)\<rparr>) []"
    by (simp add: ring_def cyc_def)
  moreover have "rev [0..<NBUF] = [9, 8, 7, 6, 5, 4, 3, 2, 1, 0]" by (simp add: upt_rec)
  ultimately show ?thesis
    unfolding binit_def using binit_fold [of _ NBUF "b_dev_update (\<lambda>_. 2 ^ 32 - 1)"] by simp
qed

lemma bufs_binit_bio0: "bufs (binit bio0) = replicate NBUF \<lparr>b_busy = False, b_valid = False,
    b_dirty = False, b_dev = 2 ^ 32 - 1, b_sector = 0, b_data = replicate BSIZE 0\<rparr>"
  by (simp add: binit_def fold_fields binit_bufs bio0_def)

theorem bcache_lru_witness:
  "bget 1 7 (binit bio0) = Inr (0, upd_buf 0 (\<lambda>x. x\<lparr>b_dev := 1, b_sector := 7,
     b_busy := True, b_valid := False, b_dirty := False\<rparr>) (binit bio0))"
proof -
  have "set [9, 8, 7, 6, 5, 4, 3, 2, 1, 0] = {..<NBUF}" by (auto simp: less_Suc_eq numeral_eq_Suc)
  from bcache_lru [OF ring_bio0 this, of 1 7] show ?thesis
    by (simp add: lru_get_def bid_def bufs_binit_bio0)
qed

theorem bread_current_witness:
  "\<exists>b s'. bread 1 7 (binit bio0) = Inr (b, s') \<and> bdata b s' = replicate BSIZE 7"
proof -
  note z = binit_binv [OF bss_bio0]
  have "okblk (1, 7)" by (simp add: okblk_def)
  from bread_current [OF z(1) this] obtain b s' where "bread 1 7 (binit bio0) = Inr (b, s')"
    "bdata b s' = bval (binit bio0) (1, 7)" by (auto simp: z)
  moreover have "bval (binit bio0) (1, 7) = replicate BSIZE 7"
    unfolding z by (simp add: dcontent_def bio0_def)
  ultimately show ?thesis by auto
qed

text \<open>
  The drive is reading block 5 of disk 1 into buffer 3 when the write of block 7 out of buffer 2
  is asked for.
\<close>

definition bio1 :: bio_st where
  "bio1 = bio0\<lparr>bufs := (bufs bio0)[
       3 := \<lparr>b_busy = True, b_valid = False, b_dirty = False, b_dev = 1, b_sector = 5, b_data = []\<rparr>,
       2 := \<lparr>b_busy = True, b_valid = True, b_dirty = True, b_dev = 1, b_sector = 7, b_data = replicate BSIZE 1\<rparr>],
     idequeue := [3], dbusy := True, dcur := (1, 5)\<rparr>"

theorem iderw_completes_witness:
  "\<exists>s'. iderw 2 bio1 = Inr ((), s') \<and> dwrites s' = [((1, 7), replicate BSIZE 1)]
     \<and> b_valid (bufs s' ! 3) \<and> b_data (bufs s' ! 3) = dcontent s' (1, 5) \<and> \<not> b_dirty (bufs s' ! 2)"
proof -
  have b: "bufs bio1 ! 2 = \<lparr>b_busy = True, b_valid = True, b_dirty = True, b_dev = 1, b_sector = 7, b_data = replicate BSIZE 1\<rparr>"
    "bufs bio1 ! 3 = \<lparr>b_busy = True, b_valid = False, b_dirty = False, b_dev = 1, b_sector = 5, b_data = []\<rparr>"
    "length (bufs bio1) = NBUF" "idequeue bio1 = [3]" "dbusy bio1" "dcur bio1 = (1, 5)" "havedisk1 bio1" "\<not> ide_err bio1"
    "dwrites bio1 = []"
    by (simp_all add: bio1_def bio0_def)
  have "ide_ok bio1" by (simp add: ide_ok_def b bid_def okblk_def)
  from iderw_completes [OF this, of 2] show ?thesis by (simp add: b bid_def okblk_def ide_writes_def) blast
qed

end
