(* ===== verification/Layout.thy ===== *)
theory Layout
  imports Prelude
begin

text \<open>
  How the kernel lays out C integers and structures in blocks of bytes: little-endian
  16 and 32 bit fields at an offset of a block. A field is read as its unsigned value and
  written modulo its width. The on-disk structures of \<open>fs.h\<close> are decoded with these.
\<close>

subsection \<open>Integer fields\<close>

definition get16 :: "byte list \<Rightarrow> nat \<Rightarrow> nat" where
  "get16 d k = unat (d ! k) + 2 ^ 8 * unat (d ! (k + 1))"

definition get32 :: "byte list \<Rightarrow> nat \<Rightarrow> nat" where
  "get32 d k = get16 d k + 2 ^ 16 * get16 d (k + 2)"

definition bytes16 :: "nat \<Rightarrow> byte list" where
  "bytes16 v = [of_nat v, of_nat (v div 2 ^ 8)]"

definition bytes32 :: "nat \<Rightarrow> byte list" where
  "bytes32 v = bytes16 v @ bytes16 (v div 2 ^ 16)"

definition put16 :: "byte list \<Rightarrow> nat \<Rightarrow> nat \<Rightarrow> byte list" where
  "put16 d k v = overwrite d k (bytes16 v)"

definition put32 :: "byte list \<Rightarrow> nat \<Rightarrow> nat \<Rightarrow> byte list" where
  "put32 d k v = overwrite d k (bytes32 v)"

text \<open>The signed reading of a 16 and of a 32 bit pattern (\<open>short\<close>, \<open>int\<close>).\<close>

definition sgn16 :: "nat \<Rightarrow> int" where
  "sgn16 v = (if v < 2 ^ 15 then int v else int v - 2 ^ 16)"

definition sgn32 :: "nat \<Rightarrow> int" where
  "sgn32 v = (if v < 2 ^ 31 then int v else int v - 2 ^ 32)"

text \<open>The bit pattern of an \<open>int\<close>.\<close>

definition uns32 :: "int \<Rightarrow> nat" where
  "uns32 i = nat (i mod 2 ^ 32)"

lemma length_bytes [simp]: "length (bytes16 v) = 2" "length (bytes32 v) = 4"
  by (simp_all add: bytes16_def bytes32_def)

lemma length_put [simp]:
  "k + 2 \<le> length d \<Longrightarrow> length (put16 d k v) = length d"
  "k + 4 \<le> length d \<Longrightarrow> length (put32 d k v) = length d"
  by (simp_all add: put16_def put32_def)

lemma unat_byte_of_nat: "unat (of_nat v :: byte) = v mod 2 ^ 8"
  by (simp add: unat_of_nat)

lemma unat_byte_less: "unat (x :: byte) < 2 ^ 8"
  using unsigned_less [of x, where ?'a = nat] by simp

lemma get16_less: "get16 d k < 2 ^ 16"
  using unat_byte_less [of "d ! k"] unat_byte_less [of "d ! (k + 1)"] by (simp add: get16_def)

lemma get32_less: "get32 d k < 2 ^ 32"
  using get16_less [of d k] get16_less [of d "k + 2"] by (simp add: get32_def)

lemma get16_put16_same:
  assumes "k + 2 \<le> length d"
  shows "get16 (put16 d k v) k = v mod 2 ^ 16"
proof -
  have "get16 (put16 d k v) k = v mod 2 ^ 8 + 2 ^ 8 * (v div 2 ^ 8 mod 2 ^ 8)"
    using assms by (simp add: get16_def put16_def nth_overwrite bytes16_def unat_byte_of_nat)
  also have "\<dots> = v mod 2 ^ 16" using mod_mult2_eq [of v "2 ^ 8" "2 ^ 8"] by simp
  finally show ?thesis .
qed

lemma get16_overwrite_other:
  "a + length vs \<le> length d \<Longrightarrow> k + 2 \<le> length d \<Longrightarrow> k + 2 \<le> a \<or> a + length vs \<le> k \<Longrightarrow>
    get16 (overwrite d a vs) k = get16 d k"
  by (auto simp: get16_def nth_overwrite)

lemma get32_overwrite_other:
  "a + length vs \<le> length d \<Longrightarrow> k + 4 \<le> length d \<Longrightarrow> k + 4 \<le> a \<or> a + length vs \<le> k \<Longrightarrow>
    get32 (overwrite d a vs) k = get32 d k"
  by (auto simp: get32_def get16_overwrite_other)

lemma overwrite_append:
  assumes "a + length (us @ vs) \<le> length m"
  shows "overwrite m a (us @ vs) = overwrite (overwrite m a us) (a + length us) vs"
  using assms by (intro nth_equalityI) (auto simp: nth_overwrite nth_append)

lemma put32_put16: "k + 4 \<le> length d \<Longrightarrow> put32 d k v = put16 (put16 d k v) (k + 2) (v div 2 ^ 16)"
  using overwrite_append [of k "bytes16 v" "bytes16 (v div 2 ^ 16)" d]
  by (simp add: put32_def put16_def bytes32_def)

lemma get32_put32_same:
  assumes "k + 4 \<le> length d"
  shows "get32 (put32 d k v) k = v mod 2 ^ 32"
proof -
  have "get16 (put16 (put16 d k v) (k + 2) (v div 2 ^ 16)) k = v mod 2 ^ 16"
    using assms get16_overwrite_other [of "k + 2" "bytes16 (v div 2 ^ 16)" "put16 d k v" k]
    by (simp add: get16_put16_same put16_def [of "put16 d k v"])
  moreover have "get16 (put16 (put16 d k v) (k + 2) (v div 2 ^ 16)) (k + 2) = v div 2 ^ 16 mod 2 ^ 16"
    using assms by (simp add: get16_put16_same)
  ultimately show ?thesis
    using assms mod_mult2_eq [of v "2 ^ 16" "2 ^ 16"] by (simp add: get32_def put32_put16)
qed

lemma get_put_simps [simp]:
  "k + 2 \<le> length d \<Longrightarrow> v < 2 ^ 16 \<Longrightarrow> get16 (put16 d k v) k = v"
  "k + 4 \<le> length d \<Longrightarrow> v < 2 ^ 32 \<Longrightarrow> get32 (put32 d k v) k = v"
  by (simp_all add: get16_put16_same get32_put32_same)

lemma get_put_other:
  "j + 2 \<le> length d \<Longrightarrow> k + 2 \<le> length d \<Longrightarrow> k + 2 \<le> j \<or> j + 2 \<le> k \<Longrightarrow> get16 (put16 d j v) k = get16 d k"
  "j + 4 \<le> length d \<Longrightarrow> k + 4 \<le> length d \<Longrightarrow> k + 4 \<le> j \<or> j + 4 \<le> k \<Longrightarrow> get32 (put32 d j v) k = get32 d k"
  "j + 2 \<le> length d \<Longrightarrow> k + 4 \<le> length d \<Longrightarrow> k + 4 \<le> j \<or> j + 2 \<le> k \<Longrightarrow> get32 (put16 d j v) k = get32 d k"
  "j + 4 \<le> length d \<Longrightarrow> k + 2 \<le> length d \<Longrightarrow> k + 2 \<le> j \<or> j + 4 \<le> k \<Longrightarrow> get16 (put32 d j v) k = get16 d k"
  by (simp_all add: put16_def put32_def get16_overwrite_other get32_overwrite_other)

lemma sgn32_uns32: "- (2 ^ 31) \<le> i \<Longrightarrow> i < 2 ^ 31 \<Longrightarrow> sgn32 (uns32 i) = i"
proof (cases "0 \<le> i")
  case False
  assume "- (2 ^ 31) \<le> i" "i < 2 ^ 31"
  with False have "i mod 2 ^ 32 = i + 2 ^ 32"
    using int_mod_pos_eq [of i "2 ^ 32" "- 1" "i + 2 ^ 32"] by simp
  then show ?thesis using False \<open>- (2 ^ 31) \<le> i\<close> by (simp add: sgn32_def uns32_def)
qed (simp add: sgn32_def uns32_def)

lemma uns32_nat [simp]: "n < 2 ^ 32 \<Longrightarrow> uns32 (int n) = n"
  by (simp add: uns32_def)

lemma sgn32_small: "n < 2 ^ 31 \<Longrightarrow> sgn32 n = int n"
  by (simp add: sgn32_def)

text \<open>A table of 32 bit fields, as \<open>sector[]\<close> in a log header or \<open>addrs[]\<close> in an inode.\<close>

fun put_table :: "byte list \<Rightarrow> nat \<Rightarrow> nat list \<Rightarrow> byte list" where
  "put_table d k [] = d"
| "put_table d k (v # vs) = put_table (put32 d k v) (k + 4) vs"

definition get_table :: "byte list \<Rightarrow> nat \<Rightarrow> nat \<Rightarrow> nat list" where
  "get_table d k n = map (\<lambda>i. get32 d (k + 4 * i)) [0..<n]"

lemma length_put_table [simp]: "k + 4 * length vs \<le> length d \<Longrightarrow> length (put_table d k vs) = length d"
  by (induction d k vs rule: put_table.induct) simp_all

lemma get_put_table_other:
  "k + 4 * length vs \<le> length d \<Longrightarrow> j + 4 \<le> length d \<Longrightarrow> j + 4 \<le> k \<or> k + 4 * length vs \<le> j \<Longrightarrow>
    get32 (put_table d k vs) j = get32 d j"
  by (induction d k vs rule: put_table.induct) (auto simp: get_put_other)

lemma get_put_table:
  "k + 4 * length vs \<le> length d \<Longrightarrow> \<forall>v \<in> set vs. v < 2 ^ 32 \<Longrightarrow> i < length vs \<Longrightarrow>
    get32 (put_table d k vs) (k + 4 * i) = vs ! i"
proof (induction d k vs arbitrary: i rule: put_table.induct)
  case (2 d k v vs)
  show ?case
  proof (cases i)
    case 0
    with 2 show ?thesis by (simp add: get_put_table_other)
  next
    case (Suc j)
    with 2(1) [of j] 2(2-) show ?thesis by (simp add: algebra_simps)
  qed
qed simp

lemma get_table_put_table:
  "k + 4 * length vs \<le> length d \<Longrightarrow> \<forall>v \<in> set vs. v < 2 ^ 32 \<Longrightarrow> get_table (put_table d k vs) k (length vs) = vs"
  by (intro nth_equalityI) (auto simp: get_table_def get_put_table)

end
