(* ===== verification/Log.thy ===== *)
theory Log
  imports Bio Layout
begin

text \<open>
  The write-ahead log (\<open>log.c\<close>) over the buffer cache, and the super block that places it
  (\<open>readsb\<close> of \<open>fs.c\<close>).

  \<open>struct log\<close> is an extension of the cache's state record. \<open>lh_n\<close> is an
  \<open>int\<close> as in the code, since it is also read from the disk; sector numbers are kept as their
  unsigned 32 bit patterns. \<open>begin_trans\<close> in a state with a transaction open would wait for
  another process and ends with \<open>Asleep\<close>; \<open>wakeup\<close> has no one to wake.

  The theorems are about crashes. The disk keeps its history of writes, so a machine that stops
  at some moment has on its disk an earlier history; what it finds there after a reboot is what
  \<open>recover_from_log\<close> makes of it.
\<close>

subsection \<open>State\<close>

abbreviation LOGSIZE :: nat where "LOGSIZE \<equiv> 10"
abbreviation ROOTDEV :: nat where "ROOTDEV \<equiv> 1"

record log_st = bio_st +
  lg_start :: nat
  lg_size :: int
  lg_busy :: bool
  lg_dev :: nat
  lh_n :: int
  lh_sector :: "nat list"

record superblock =
  sb_size :: nat
  sb_nblocks :: nat
  sb_ninodes :: nat
  sb_nlog :: nat

definition get_superblock :: "byte list \<Rightarrow> superblock" where
  "get_superblock d = \<lparr>sb_size = get32 d 0, sb_nblocks = get32 d 4, sb_ninodes = get32 d 8, sb_nlog = get32 d 12\<rparr>"

definition readsb :: "nat \<Rightarrow> ('a bio_st_scheme, superblock) kern" where
  "readsb dev = kbind (bread dev 1) (\<lambda>bp. kbind (gets (bdata bp)) (\<lambda>d.
     kbind (brelse bp) (\<lambda>_. ret (get_superblock d))))"

subsection \<open>Operations\<close>

text \<open>
  The loops over \<open>sector[]\<close> leave the array when \<open>n\<close> exceeds its size
  \<open>LOGSIZE\<close>; that is a \<open>Fault\<close>.
\<close>

definition read_head :: "('a log_st_scheme, unit) kern" where
  "read_head s =
     kbind (bread (lg_dev s) (lg_start s)) (\<lambda>b. kbind (gets (bdata b)) (\<lambda>d.
       let n = sgn32 (get32 d 0) in
       if int LOGSIZE < n then (\<lambda>s. Inl Fault)
       else kbind (modify (\<lambda>s. s\<lparr>lh_n := n,
                lh_sector := overwrite (lh_sector s) 0 (get_table d 4 (nat n))\<rparr>)) (\<lambda>_.
              brelse b))) s"

definition head_block :: "int \<Rightarrow> nat list \<Rightarrow> byte list \<Rightarrow> byte list" where
  "head_block n secs d = put_table (put32 d 0 (uns32 n)) 4 (take (nat n) secs)"

definition write_head :: "('a log_st_scheme, unit) kern" where
  "write_head s =
     kbind (bread (lg_dev s) (lg_start s)) (\<lambda>b. kbind (gets (bdata b)) (\<lambda>d.
       if int LOGSIZE < lh_n s then (\<lambda>s. Inl Fault)
       else kbind (set_bdata b (head_block (lh_n s) (lh_sector s) d)) (\<lambda>_.
              kbind (bwrite b) (\<lambda>_. brelse b)))) s"

text \<open>The loop of \<open>install_trans\<close>: \<open>k\<close> rounds are left, the next is \<open>tail\<close>.\<close>

fun install_loop :: "nat \<Rightarrow> nat \<Rightarrow> ('a log_st_scheme, unit) kern" where
  "install_loop 0 tail s = Inr ((), s)"
| "install_loop (Suc k) tail s =
     (if LOGSIZE \<le> tail then Inl Fault
      else
        kbind (bread (lg_dev s) ((lg_start s + tail + 1) mod 2 ^ 32)) (\<lambda>lbuf.
        kbind (bread (lg_dev s) (lh_sector s ! tail)) (\<lambda>dbuf.
        kbind (gets (bdata lbuf)) (\<lambda>d.
        kbind (set_bdata dbuf d) (\<lambda>_.
        kbind (bwrite dbuf) (\<lambda>_.
        kbind (brelse lbuf) (\<lambda>_.
        kbind (brelse dbuf) (\<lambda>_.
        install_loop k (Suc tail)))))))) s)"

definition install_trans :: "('a log_st_scheme, unit) kern" where
  "install_trans s = install_loop (nat (lh_n s)) 0 s"

definition recover_from_log :: "('a log_st_scheme, unit) kern" where
  "recover_from_log =
     kbind read_head (\<lambda>_. kbind install_trans (\<lambda>_. kbind (modify (lh_n_update (\<lambda>_. 0))) (\<lambda>_. write_head)))"

definition initlog :: "('a log_st_scheme, unit) kern" where
  "initlog =
     (if 4 + 4 * LOGSIZE \<ge> BSIZE then panic ''initlog: too big logheader''
      else kbind (readsb ROOTDEV) (\<lambda>sb.
        kbind (modify (\<lambda>s. s\<lparr>lg_start := uns32 (int (sb_size sb) - int (sb_nlog sb)),
                              lg_size := sgn32 (sb_nlog sb), lg_dev := ROOTDEV\<rparr>)) (\<lambda>_.
        recover_from_log)))"

definition begin_trans :: "('a log_st_scheme, unit) kern" where
  "begin_trans s = (if lg_busy s then Inl Asleep else Inr ((), s\<lparr>lg_busy := True\<rparr>))"

definition commit_trans :: "('a log_st_scheme, unit) kern" where
  "commit_trans =
     kbind (\<lambda>s. if lh_n s > 0
        then kbind write_head (\<lambda>_. kbind install_trans (\<lambda>_.
               kbind (modify (lh_n_update (\<lambda>_. 0))) (\<lambda>_. write_head))) s
        else Inr ((), s)) (\<lambda>_. modify (lg_busy_update (\<lambda>_. False)))"

text \<open>The search for an entry that the write can be absorbed in, else the next free one.\<close>

fun absorb :: "nat list \<Rightarrow> nat \<Rightarrow> nat" where
  "absorb [] x = 0"
| "absorb (y # ys) x = (if y = x then 0 else Suc (absorb ys x))"

definition log_write :: "nat \<Rightarrow> ('a log_st_scheme, unit) kern" where
  "log_write b s =
     (if lh_n s \<ge> int LOGSIZE \<or> lh_n s \<ge> lg_size s - 1 then Inl (Panic ''too big a transaction'')
      else if \<not> lg_busy s then Inl (Panic ''write outside of trans'')
      else
        let dev = b_dev (bufs s ! b); sec = b_sector (bufs s ! b);
            i = absorb (take (nat (lh_n s)) (lh_sector s)) sec in
        kbind (modify (\<lambda>s. s\<lparr>lh_sector := (lh_sector s)[i := sec]\<rparr>)) (\<lambda>_.
        kbind (bread dev ((lg_start s + i + 1) mod 2 ^ 32)) (\<lambda>lbuf.
        kbind (gets (bdata b)) (\<lambda>d.
        kbind (set_bdata lbuf d) (\<lambda>_.
        kbind (bwrite lbuf) (\<lambda>_.
        kbind (brelse lbuf) (\<lambda>_.
        kbind (modify (\<lambda>s. if int i = lh_n s then s\<lparr>lh_n := lh_n s + 1\<rparr> else s)) (\<lambda>_.
        set_dirty b))))))) s)"

subsection \<open>Frame\<close>

text \<open>The cache leaves the log's variables alone, and the cache does not depend on them.\<close>

lemma bframe_logD:
  fixes s :: "'a log_st_scheme"
  assumes "bframe s' = bframe s"
  shows "lg_start s' = lg_start s" "lg_size s' = lg_size s" "lg_busy s' = lg_busy s" "lg_dev s' = lg_dev s"
    "lh_n s' = lh_n s" "lh_sector s' = lh_sector s" "log_st.more s' = log_st.more s" "dbase s' = dbase s"
  using assms by (cases s; cases s'; simp add: bframe_def)+

lemma bio_log_update:
  fixes s s' :: "'a bio_st_scheme"
  assumes "bio_st.truncate s' = bio_st.truncate s"
  shows "binv s' = binv s" "bval s' = bval s" "held s' = held s" "dirtied s' = dirtied s"
    "owner s' = owner s" "dcontent s' = dcontent s" "dwrites s' = dwrites s" "dbase s' = dbase s"
proof -
  have "bufs s' = bufs s" "bnext s' = bnext s" "bprev s' = bprev s" "idequeue s' = idequeue s"
    "havedisk1 s' = havedisk1 s" "ide_err s' = ide_err s"
    and d: "dwrites s' = dwrites s" "dbase s' = dbase s"
    using assms by (cases s; cases s'; simp add: bio_st.defs)+
  moreover from d have "dcontent s' = dcontent s" by (simp add: dcontent_def)
  ultimately show "binv s' = binv s" "bval s' = bval s" "held s' = held s" "dirtied s' = dirtied s"
    "owner s' = owner s" "dcontent s' = dcontent s" "dwrites s' = dwrites s" "dbase s' = dbase s"
    by (simp_all add: binv_def bval_def [abs_def] held_def dirtied_def owner_def [abs_def] ring_def cong: option.case_cong)
qed

lemma bio_of_log_update [simp]:
  "bio_st.truncate (lh_n_update f1 s) = bio_st.truncate s"
  "bio_st.truncate (lh_sector_update f2 s) = bio_st.truncate s"
  "bio_st.truncate (lg_busy_update f3 s) = bio_st.truncate s"
  "bio_st.truncate (lg_start_update f4 s) = bio_st.truncate s"
  "bio_st.truncate (lg_size_update f5 s) = bio_st.truncate s"
  "bio_st.truncate (lg_dev_update f6 s) = bio_st.truncate s"
  by (cases s; simp add: bio_st.defs)+

lemmas log_update_simps [simp] =
  bio_log_update [OF bio_of_log_update(1)] bio_log_update [OF bio_of_log_update(2)]
  bio_log_update [OF bio_of_log_update(3)] bio_log_update [OF bio_of_log_update(4)]
  bio_log_update [OF bio_of_log_update(5)] bio_log_update [OF bio_of_log_update(6)]

subsection \<open>Invariant\<close>

text \<open>The sectors in the current transaction, the blocks of the log, and its place on the disk.\<close>

definition secs :: "'a log_st_scheme \<Rightarrow> nat list" where
  "secs s = take (nat (lh_n s)) (lh_sector s)"

definition lregion :: "'a log_st_scheme \<Rightarrow> nat set" where
  "lregion s = {lg_start s ..< lg_start s + nat (lg_size s)}"

definition inlog :: "'a log_st_scheme \<Rightarrow> nat \<times> nat \<Rightarrow> bool" where
  "inlog s a \<longleftrightarrow> fst a = lg_dev s \<and> snd a \<in> lregion s"

definition lgeom :: "'a log_st_scheme \<Rightarrow> bool" where
  "lgeom s \<longleftrightarrow> lg_dev s < 2 \<and> 1 \<le> lg_size s \<and> lg_size s \<le> int LOGSIZE
     \<and> lg_start s + nat (lg_size s) \<le> 2 ^ 28 \<and> length (lh_sector s) = LOGSIZE"

text \<open>
  The invariant of a transaction on a disk whose committed content is \<open>D\<close>: the dirty blocks
  are the ones in the transaction, each with its current content in its log block; every change
  is in the transaction; the header on disk is empty; and outside the log the disk still has
  \<open>D\<close>.
\<close>

definition linv :: "(nat \<times> nat \<Rightarrow> byte list) \<Rightarrow> 'a log_st_scheme \<Rightarrow> bool" where
  "linv D s \<longleftrightarrow> binv s \<and> lgeom s \<and> 0 \<le> lh_n s \<and> lh_n s \<le> lg_size s - 1
     \<and> distinct (secs s) \<and> (\<forall>x \<in> set (secs s). x < 2 ^ 28 \<and> x \<notin> lregion s)
     \<and> dirtied s = Pair (lg_dev s) ` set (secs s)
     \<and> (\<forall>i < length (secs s). dcontent s (lg_dev s, lg_start s + 1 + i) = bval s (lg_dev s, secs s ! i))
     \<and> get32 (dcontent s (lg_dev s, lg_start s)) 0 = 0
     \<and> (\<forall>a. a \<notin> dirtied s \<longrightarrow> bval s a = dcontent s a)
     \<and> (\<forall>a. \<not> inlog s a \<longrightarrow> dcontent s a = D a)
     \<and> (\<forall>x \<in> lregion s. (lg_dev s, x) \<notin> held s)"

text \<open>The blocks outside the log, as the kernel sees them.\<close>

definition hview :: "'a log_st_scheme \<Rightarrow> nat \<times> nat \<Rightarrow> byte list" where
  "hview s a = (if inlog s a then [] else bval s a)"

text \<open>What the log leaves alone.\<close>

definition lframe :: "'a log_st_scheme \<Rightarrow> (nat \<times> nat \<Rightarrow> byte list) \<times> nat \<times> int \<times> nat \<times> 'a" where
  "lframe s = (dbase s, lg_start s, lg_size s, lg_dev s, log_st.more s)"

lemma lframe_geom:
  assumes "lframe s' = lframe s"
  shows "lregion s' = lregion s" "inlog s' = inlog s" "lg_dev s' = lg_dev s" "lg_start s' = lg_start s"
    "lg_size s' = lg_size s" "dbase s' = dbase s" "log_st.more s' = log_st.more s"
  using assms by (auto simp: lframe_def lregion_def inlog_def fun_eq_iff)

lemma absorb_le: "absorb xs x \<le> length xs"
  by (induction xs) auto

lemma absorb_nth: "absorb xs x < length xs \<Longrightarrow> xs ! absorb xs x = x"
  by (induction xs) auto

lemma absorb_notin: "absorb xs x = length xs \<longleftrightarrow> x \<notin> set xs"
  using absorb_le by (induction xs) (auto simp: Suc_le_eq)

lemma length_secs: "linv D s \<Longrightarrow> length (secs s) = nat (lh_n s)"
  by (auto simp: linv_def lgeom_def secs_def)

lemma finite_marks [simp]: "finite (held s)" "finite (dirtied s)"
  by (simp_all add: held_def dirtied_def marked_def)

lemma lregion_entry:
  assumes "linv D s" "i \<le> length (secs s)" "lh_n s < lg_size s - 1 \<or> i < length (secs s)"
  shows "lg_start s + 1 + i \<in> lregion s" "okblk (lg_dev s, lg_start s + 1 + i)"
    "(lg_start s + i + 1) mod 2 ^ 32 = lg_start s + 1 + i"
proof -
  have "lg_start s + 1 + i < lg_start s + nat (lg_size s)" "lg_start s + nat (lg_size s) \<le> 2 ^ 28"
    "lg_dev s < 2"
    using assms length_secs [OF assms(1)] unfolding linv_def lgeom_def by auto
  then show "lg_start s + 1 + i \<in> lregion s" "okblk (lg_dev s, lg_start s + 1 + i)"
    "(lg_start s + i + 1) mod 2 ^ 32 = lg_start s + 1 + i"
    by (simp_all add: lregion_def okblk_def)
qed

subsection \<open>Writing through the log\<close>

lemma secs_absorb:
  assumes "linv D s" "lh_n s < lg_size s - 1" "i = absorb (secs s) n"
    and "lh_sector s' = (lh_sector s)[i := n]" "lh_n s' = (if int i = lh_n s then lh_n s + 1 else lh_n s)"
  shows "secs s' = (if n \<in> set (secs s) then secs s else secs s @ [n])" "i < length (secs s')" "secs s' ! i = n"
proof -
  have n: "0 \<le> lh_n s" "nat (lh_n s) < length (lh_sector s)"
    using assms(1,2) by (auto simp: linv_def lgeom_def)
  have le: "i \<le> length (secs s)" using absorb_le assms(3) by simp
  show "secs s' = (if n \<in> set (secs s) then secs s else secs s @ [n])"
  proof (cases "n \<in> set (secs s)")
    case True
    then have i: "i < length (secs s)" using le absorb_notin [of "secs s" n] assms(3) by auto
    then have "secs s' = (secs s)[i := n]"
      using assms(4,5) length_secs [OF assms(1)] n by (auto simp: secs_def take_update_swap)
    also have "\<dots> = secs s" using absorb_nth [of "secs s" n] i assms(3) by (metis list_update_id)
    finally show ?thesis using True by simp
  next
    case False
    then have "i = length (secs s)" using absorb_notin [of "secs s" n] assms(3) by simp
    then have i: "i = nat (lh_n s)" "int i = lh_n s" using length_secs [OF assms(1)] n by simp_all
    then have "lh_n s' = lh_n s + 1" "lh_sector s' = (lh_sector s)[nat (lh_n s) := n]"
      using assms(4,5) by simp_all
    then have "secs s' = secs s @ [n]"
      using n by (simp add: secs_def nat_add_distrib take_Suc_conv_app_nth)
    then show ?thesis using False by simp
  qed
  then show "i < length (secs s')" "secs s' ! i = n"
    using le absorb_notin [of "secs s" n] absorb_nth [of "secs s" n] assms(3)
    by (auto simp: nth_append split: if_splits)
qed

text \<open>
  A held block is changed and given to \<open>log_write\<close>: the change is part of the transaction,
  and the disk has changed in the log only.
\<close>

lemma log_update_law:
  assumes inv: "linv D s" "lg_busy s" "owner s (lg_dev s, n) b" "n \<notin> lregion s" "length x = BSIZE"
    and room: "lh_n s < lg_size s - 1" "card (held s \<union> dirtied s) < NBUF"
  shows "\<exists>s'. kbind (set_bdata b x) (\<lambda>_. log_write b) s = Inr ((), s') \<and> linv D s' \<and> lg_busy s'
    \<and> hview s' = (hview s)((lg_dev s, n) := x) \<and> held s' = held s
    \<and> secs s' = (if n \<in> set (secs s) then secs s else secs s @ [n])
    \<and> dirtied s' = insert (lg_dev s, n) (dirtied s) \<and> (\<forall>c j. owner s c j \<longrightarrow> owner s' c j)
    \<and> lframe s' = lframe s
    \<and> dwrites s' = ((lg_dev s, lg_start s + 1 + absorb (secs s) n), x) # dwrites s"
proof -
  define i where "i = absorb (secs s) n"
  let ?dev = "lg_dev s" and ?lb = "(lg_dev s, lg_start s + 1 + i)" and ?a = "(lg_dev s, n)"
  have bi: "binv s" using inv(1) by (simp add: linv_def)
  have lb: "lg_start s + 1 + i \<in> lregion s" "okblk ?lb" "(lg_start s + i + 1) mod 2 ^ 32 = lg_start s + 1 + i"
    using lregion_entry [OF inv(1), of i] absorb_le [of "secs s" n] room(1) by (auto simp: i_def)
  from bc.set_data [OF bi inv(3,5)] obtain s1 where s1: "set_bdata b x s = Inr ((), s1)" "binv s1"
    "bval s1 = (bval s)(?a := x)" "held s1 = held s" "dirtied s1 = dirtied s" "owner s1 = owner s"
    "dwrites s1 = dwrites s" "bframe s1 = bframe s" by blast
  note f1 = bframe_logD [OF s1(8)]
  define s2 where "s2 = s1\<lparr>lh_sector := (lh_sector s1)[i := n]\<rparr>"
  have lbh: "?lb \<notin> held s" using inv(1) lb(1) by (simp add: linv_def)
  have c2: "card (insert ?lb (held s2 \<union> dirtied s2)) \<le> NBUF"
    using room(2) s1 card_insert_le_m1 [of NBUF "held s \<union> dirtied s" ?lb] by (simp add: s2_def)
  have "\<exists>s'. bc.poke ?dev (lg_start s + 1 + i) (\<lambda>_. bdata b) s2 = Inr ((), s') \<and> binv s'
    \<and> bval s' = (bval s2)(?lb := x) \<and> held s' = held s2 \<and> dirtied s' = dirtied s2 - {?lb}
    \<and> dwrites s' = (?lb, x) # dwrites s2 \<and> bframe s' = bframe s2
    \<and> (\<forall>c j. owner s2 c j \<longrightarrow> owner s' c j)"
    using s1 inv(3,5) lbh lb(2) c2
    by (intro bc.poke_view) (auto simp: s2_def bdata_law [where a = ?a])
  then obtain s3 where s3: "bc.poke ?dev (lg_start s + 1 + i) (\<lambda>_. bdata b) s2 = Inr ((), s3)" "binv s3"
    "bval s3 = (bval s2)(?lb := x)" "held s3 = held s2" "dirtied s3 = dirtied s2 - {?lb}"
    "dwrites s3 = (?lb, x) # dwrites s2" "bframe s3 = bframe s2" "\<forall>c j. owner s2 c j \<longrightarrow> owner s3 c j"
    by blast
  note f3 = bframe_logD [OF s3(7)]
  define s4 where "s4 = (if int i = lh_n s3 then s3\<lparr>lh_n := lh_n s3 + 1\<rparr> else s3)"
  have s4: "binv s4" "bval s4 = bval s3" "held s4 = held s3" "dirtied s4 = dirtied s3" "owner s4 = owner s3"
    "dwrites s4 = dwrites s3" "dbase s4 = dbase s3" by (simp_all add: s4_def s3(2))
  have "owner s4 ?a b" using s3(8) s4 s1 inv(3) by (simp add: s2_def)
  from bc.pin [OF s4(1) this] obtain s5 where s5: "set_dirty b s4 = Inr ((), s5)" "binv s5"
    "bval s5 = bval s4" "held s5 = held s4" "dirtied s5 = insert ?a (dirtied s4)" "owner s5 = owner s4"
    "dwrites s5 = dwrites s4" "bframe s5 = bframe s4" by blast
  note f5 = bframe_logD [OF s5(8)]
  have bid: "b_dev (bufs s1 ! b) = ?dev" "b_sector (bufs s1 ! b) = n"
    using owner_facts(4) [OF s1(2), of ?a b] inv(3) s1(6) by (auto simp: bid_def)
  have "secs s1 = secs s" by (simp add: secs_def f1)
  then have "log_write b s1 = kbind (bc.poke ?dev (lg_start s + 1 + i) (\<lambda>_. bdata b)) (\<lambda>_.
      kbind (modify (\<lambda>s. if int i = lh_n s then s\<lparr>lh_n := lh_n s + 1\<rparr> else s)) (\<lambda>_. set_dirty b)) s2"
    using room(1) inv(1,2) bid lb(3)
    by (simp add: log_write_def Let_def f1 bc.poke_def kbind_assoc linv_def lgeom_def s2_def
        secs_def [symmetric] i_def [symmetric])
  then have run: "kbind (set_bdata b x) (\<lambda>_. log_write b) s = Inr ((), s5)"
    using s1(1) s3(1) s5(1) by (simp add: s4_def)
  have fr: "lframe s5 = lframe s" "lg_busy s5"
    using f1 f3 f5 inv(2) s1(8) by (simp_all add: lframe_def s4_def s2_def)
  note g = lframe_geom [OF fr(1)]
  have "lh_sector s5 = (lh_sector s)[i := n]" "lh_n s5 = (if int i = lh_n s then lh_n s + 1 else lh_n s)"
    using f1 f3 f5 by (simp_all add: s4_def s2_def)
  note sec = secs_absorb [OF inv(1) room(1) i_def this] this
  have nlb: "?lb \<notin> dirtied s" using inv(1) lb(1) by (auto simp: linv_def)
  have ne: "?a \<noteq> ?lb" using inv(4) lb(1) by auto
  have v5: "bval s5 = (bval s)(?a := x, ?lb := x)" "held s5 = held s" "dirtied s5 = insert ?a (dirtied s)"
    "dwrites s5 = (?lb, x) # dwrites s" "\<forall>c j. owner s c j \<longrightarrow> owner s5 c j"
    using s1 s3 s4 s5 nlb by (simp_all add: s2_def)
  have d5: "dcontent s5 = (dcontent s)(?lb := x)" using v5(4) g(6) by (simp add: dcontent_def)
  have hv: "hview s5 = (hview s)(?a := x)"
    using g(2) v5(1) lb(1) inv(4) by (auto simp: hview_def fun_eq_iff inlog_def)
  have "linv D s5"
    unfolding linv_def
  proof (intro conjI)
    show "lgeom s5" using inv(1) g sec(4) by (simp add: linv_def lgeom_def)
    show "0 \<le> lh_n s5" "lh_n s5 \<le> lg_size s5 - 1" using inv(1) room(1) g sec(5) by (auto simp: linv_def)
    show "distinct (secs s5)" using inv(1) sec(1) by (simp add: linv_def)
    show "\<forall>x\<in>set (secs s5). x < 2 ^ 28 \<and> x \<notin> lregion s5"
      using inv(1,4) sec(1) g owner_facts(5) [OF bi inv(3)] by (auto simp: linv_def okblk_def)
    show "dirtied s5 = Pair (lg_dev s5) ` set (secs s5)"
      using inv(1) sec(1) v5(3) g by (auto simp: linv_def)
    show "\<forall>j<length (secs s5). dcontent s5 (lg_dev s5, lg_start s5 + 1 + j) = bval s5 (lg_dev s5, secs s5 ! j)"
    proof (intro allI impI)
      fix j assume j: "j < length (secs s5)"
      show "dcontent s5 (lg_dev s5, lg_start s5 + 1 + j) = bval s5 (lg_dev s5, secs s5 ! j)"
      proof (cases "j = i")
        case True
        then show ?thesis using sec(3) g d5 v5(1) ne by simp
      next
        case False
        have "secs s5 ! j \<noteq> n"
          using False j sec(2,3) \<open>distinct (secs s5)\<close> by (metis nth_eq_iff_index_eq)
        moreover have js: "j < length (secs s)" "secs s5 ! j = secs s ! j"
          using j sec(1-3) False absorb_notin [of "secs s" n]
          by (auto simp: i_def nth_append less_Suc_eq split: if_splits)
        moreover have "secs s ! j \<notin> lregion s" using inv(1) js(1) by (simp add: linv_def)
        then have "secs s ! j \<noteq> lg_start s + 1 + i" using lb(1) by auto
        ultimately show ?thesis
          using inv(1) g d5 v5(1) lb(1) False by (auto simp: linv_def)
      qed
    qed
    show "get32 (dcontent s5 (lg_dev s5, lg_start s5)) 0 = 0" using inv(1) d5 g by (simp add: linv_def)
    show "\<forall>c. c \<notin> dirtied s5 \<longrightarrow> bval s5 c = dcontent s5 c" using inv(1) v5 d5 by (auto simp: linv_def)
    show "\<forall>c. \<not> inlog s5 c \<longrightarrow> dcontent s5 c = D c" using inv(1) d5 g lb(1) by (auto simp: linv_def inlog_def)
    show "\<forall>y\<in>lregion s5. (lg_dev s5, y) \<notin> held s5" using inv(1) v5 g by (simp add: linv_def)
  qed (rule s5(2))
  with run fr hv v5 sec(1) show ?thesis by (auto simp: i_def)
qed

subsection \<open>Commit\<close>

lemma content_append: "content base (us @ vs) = content (content base vs) us"
  by (induction us) auto

lemma content_consistent:
  "\<forall>(a, v) \<in> set ws. v = f a \<Longrightarrow> content base ws = (\<lambda>a. if a \<in> fst ` set ws then f a else base a)"
proof (induction ws)
  case (Cons w ws)
  then show ?case by (cases w) (simp add: fun_eq_iff)
qed simp

lemma length_head_block [simp]:
  assumes "n \<le> int LOGSIZE" "length d = BSIZE"
  shows "length (head_block n ss d) = BSIZE"
proof -
  have "4 + 4 * length (take (nat n) ss) \<le> BSIZE" using assms by simp
  then show ?thesis using assms by (simp add: head_block_def)
qed

lemma write_head_law:
  assumes "binv s" "okblk (lg_dev s, lg_start s)" "held s = {}" "(lg_dev s, lg_start s) \<notin> dirtied s"
    and "card (dirtied s) < NBUF" "lh_n s \<le> int LOGSIZE"
  shows "\<exists>s'. write_head s = Inr ((), s') \<and> binv s' \<and> held s' = {} \<and> dirtied s' = dirtied s
    \<and> bval s' = (bval s)((lg_dev s, lg_start s) :=
          head_block (lh_n s) (lh_sector s) (bval s (lg_dev s, lg_start s)))
    \<and> dwrites s' = ((lg_dev s, lg_start s),
          head_block (lh_n s) (lh_sector s) (bval s (lg_dev s, lg_start s))) # dwrites s
    \<and> bframe s' = bframe s"
proof -
  let ?h = "(lg_dev s, lg_start s)"
  let ?x = "head_block (lh_n s) (lh_sector s) (bval s ?h)"
  have "write_head s = bc.poke (lg_dev s) (lg_start s) (\<lambda>b s1. head_block (lh_n s) (lh_sector s) (bdata b s1)) s"
    using assms(6) unfolding write_head_def bc.poke_def
    by (simp add: kbind_gets_comp [of "head_block (lh_n s) (lh_sector s)" "bdata _"])
  moreover have "\<exists>s'. bc.poke (lg_dev s) (lg_start s) (\<lambda>b s1. head_block (lh_n s) (lh_sector s) (bdata b s1)) s
      = Inr ((), s') \<and> binv s' \<and> bval s' = (bval s)(?h := ?x) \<and> held s' = held s
    \<and> dirtied s' = dirtied s - {?h} \<and> dwrites s' = (?h, ?x) # dwrites s \<and> bframe s' = bframe s
    \<and> (\<forall>c j. owner s c j \<longrightarrow> owner s' c j)"
    using assms bval_length [OF assms(1)]
    by (intro bc.poke_view) (auto simp: bdata_law [where a = ?h])
  ultimately show ?thesis using assms(3,4) by auto
qed

definition installs :: "'a log_st_scheme \<Rightarrow> nat \<Rightarrow> nat \<Rightarrow> ((nat \<times> nat) \<times> byte list) list" where
  "installs s t k = rev (map (\<lambda>i. ((lg_dev s, lh_sector s ! i), bval s (lg_dev s, lg_start s + 1 + i))) [t..<t + k])"

lemma installs_Suc:
  "installs s t (Suc k) = installs s (Suc t) k @ [((lg_dev s, lh_sector s ! t), bval s (lg_dev s, lg_start s + 1 + t))]"
proof -
  have "[t..<t + Suc k] = t # [Suc t..<Suc t + k]" by (simp add: upt_conv_Cons)
  then show ?thesis unfolding installs_def by simp
qed

lemma set_installs:
  "set (installs s t k) = (\<lambda>i. ((lg_dev s, lh_sector s ! i), bval s (lg_dev s, lg_start s + 1 + i))) ` {t..<t + k}"
  by (auto simp: installs_def)

lemma install_loop_law:
  assumes "binv s" "held s = {}" "t + k \<le> LOGSIZE" "lg_dev s < 2"
    and "\<And>i. t \<le> i \<Longrightarrow> i < t + k \<Longrightarrow> lg_start s + 1 + i < 2 ^ 28 \<and> lh_sector s ! i < 2 ^ 28
      \<and> card (insert (lg_dev s, lh_sector s ! i) (dirtied s)) < NBUF"
    and "\<And>i j. t \<le> i \<Longrightarrow> i < t + k \<Longrightarrow> t \<le> j \<Longrightarrow> j < t + k \<Longrightarrow> lg_start s + 1 + i \<noteq> lh_sector s ! j"
  shows "\<exists>s'. install_loop k t s = Inr ((), s') \<and> binv s' \<and> held s' = {} \<and> bframe s' = bframe s
    \<and> dirtied s' = dirtied s - (\<lambda>i. (lg_dev s, lh_sector s ! i)) ` {t..<t + k}
    \<and> bval s' = content (bval s) (installs s t k) \<and> dwrites s' = installs s t k @ dwrites s"
  using assms
proof (induction k arbitrary: t s)
  case 0
  then show ?case by (simp add: installs_def)
next
  case (Suc k)
  let ?m = "lg_start s + 1 + t" and ?n = "lh_sector s ! t" and ?d = "lg_dev s"
  have t: "?m < 2 ^ 28" "?n < 2 ^ 28" "card (insert (?d, ?n) (dirtied s)) < NBUF" "?m \<noteq> ?n"
    using Suc.prems(5) [of t] Suc.prems(6) [of t t] by auto
  have "card (insert (?d, ?m) (insert (?d, ?n) (dirtied s))) \<le> NBUF"
    using t(3) card_insert_le_m1 [of NBUF "insert (?d, ?n) (dirtied s)" "(?d, ?m)"] by simp
  moreover have "okblk (?d, ?m)" "okblk (?d, ?n)" using t Suc.prems(4) by (simp_all add: okblk_def)
  ultimately obtain s1 where s1: "bc.copy ?d ?m ?n s = Inr ((), s1)" "binv s1"
    "bval s1 = (bval s)((?d, ?n) := bval s (?d, ?m))" "held s1 = {}" "dirtied s1 = dirtied s - {(?d, ?n)}"
    "dwrites s1 = ((?d, ?n), bval s (?d, ?m)) # dwrites s" "bframe s1 = bframe s"
    using bc.copy_view [OF Suc.prems(1) _ _ Suc.prems(2) t(4) _ finite_marks(2), of ?d] by blast
  note f = bframe_logD [OF s1(7)]
  have pre: "Suc t + k \<le> LOGSIZE" "lg_dev s1 < 2" using Suc.prems(3,4) f by simp_all
  have c1: "lg_start s1 + 1 + i < 2 ^ 28 \<and> lh_sector s1 ! i < 2 ^ 28
      \<and> card (insert (lg_dev s1, lh_sector s1 ! i) (dirtied s1)) < NBUF" if "Suc t \<le> i" "i < Suc t + k" for i
  proof -
    have "card (insert (?d, lh_sector s ! i) (dirtied s - {(?d, ?n)})) \<le> card (insert (?d, lh_sector s ! i) (dirtied s))"
      by (intro card_mono) auto
    with Suc.prems(5) [of i] that show ?thesis unfolding f s1(5) by linarith
  qed
  have c2: "lg_start s1 + 1 + i \<noteq> lh_sector s1 ! j"
    if "Suc t \<le> i" "i < Suc t + k" "Suc t \<le> j" "j < Suc t + k" for i j
    using that Suc.prems(6) [of i j] f by simp
  from Suc.IH [OF s1(2,4) pre c1 c2] obtain s' where s': "install_loop k (Suc t) s1 = Inr ((), s')" "binv s'" "held s' = {}"
    "bframe s' = bframe s1" "dirtied s' = dirtied s1 - (\<lambda>i. (lg_dev s1, lh_sector s1 ! i)) ` {Suc t..<Suc t + k}"
    "bval s' = content (bval s1) (installs s1 (Suc t) k)" "dwrites s' = installs s1 (Suc t) k @ dwrites s1"
    by blast
  have "installs s1 (Suc t) k = installs s (Suc t) k"
    unfolding installs_def f s1(3) using Suc.prems(6) by (auto intro!: map_cong)
  moreover have "{t..<t + Suc k} = insert t {Suc t..<Suc t + k}" by auto
  ultimately have "bval s' = content (bval s) (installs s t (Suc k))"
    "dwrites s' = installs s t (Suc k) @ dwrites s"
    "dirtied s' = dirtied s - (\<lambda>i. (?d, lh_sector s ! i)) ` {t..<t + Suc k}"
    using s1 s'(5-) f by (auto simp: installs_Suc content_append)
  moreover have "install_loop (Suc k) t s = kbind (bc.copy ?d ?m ?n) (\<lambda>_. install_loop k (Suc t)) s"
    using t(1) Suc.prems(3) by (simp add: bc.copy_def kbind_assoc)
  ultimately show ?case using s1(1,7) s'(1-4) by auto
qed

lemma head_block_decode:
  assumes "length d = BSIZE" "length ss = LOGSIZE" "k \<le> LOGSIZE" "\<forall>x \<in> set (take k ss). x < 2 ^ 32"
  shows "get32 (head_block (int k) ss d) 0 = k" "get_table (head_block (int k) ss d) 4 k = take k ss"
proof -
  have l: "length (take k ss) = k" "4 + 4 * length (take k ss) \<le> length (put32 d 0 (uns32 (int k)))"
    using assms by simp_all
  show "get32 (head_block (int k) ss d) 0 = k"
    using assms l by (simp add: head_block_def get_put_table_other)
  show "get_table (head_block (int k) ss d) 4 k = take k ss"
    using get_table_put_table [OF l(2) assms(4)] l(1) by (simp add: head_block_def)
qed

text \<open>The writes of a commit, the last first: the header, the home blocks, the empty header.\<close>

definition home_writes :: "'a log_st_scheme \<Rightarrow> ((nat \<times> nat) \<times> byte list) list" where
  "home_writes s = rev (map (\<lambda>x. ((lg_dev s, x), bval s (lg_dev s, x))) (secs s))"

lemma commit_law:
  assumes inv: "linv D s" "held s = {}" and n: "0 < lh_n s"
  shows "\<exists>s' H H0. commit_trans s = Inr ((), s')
    \<and> dwrites s' = ((lg_dev s, lg_start s), H0) # home_writes s @ ((lg_dev s, lg_start s), H) # dwrites s
    \<and> get32 H 0 = length (secs s) \<and> get_table H 4 (length (secs s)) = secs s \<and> get32 H0 0 = 0
    \<and> binv s' \<and> held s' = {} \<and> dirtied s' = {} \<and> lh_n s' = 0 \<and> lh_sector s' = lh_sector s
    \<and> hview s' = hview s \<and> lframe s' = lframe s \<and> \<not> lg_busy s'"
proof -
  define k where "k = length (secs s)"
  have kn: "lh_n s = int k" "k = nat (lh_n s)" "0 < k" using length_secs [OF inv(1)] n by (simp_all add: k_def)
  have k9: "k < nat (lg_size s)" "k \<le> LOGSIZE" "k < NBUF" using inv(1) kn(1) by (auto simp: linv_def lgeom_def)
  have bi: "binv s" "lgeom s" using inv(1) by (simp_all add: linv_def)
  let ?d = "lg_dev s" and ?h = "(lg_dev s, lg_start s)"
  have hl: "lg_start s \<in> lregion s" using bi(2) by (auto simp: lregion_def lgeom_def)
  have hd: "?h \<notin> dirtied s" using inv(1) hl by (auto simp: linv_def)
  have okh: "okblk ?h" using bi(2) by (auto simp: okblk_def lgeom_def)
  have dk: "dirtied s = Pair ?d ` set (secs s)" "distinct (secs s)" using inv(1) by (simp_all add: linv_def)
  then have cd: "card (dirtied s) = k"
    by (simp add: card_image inj_on_def distinct_card k_def)
  have sec: "\<And>i. i < k \<Longrightarrow> lh_sector s ! i = secs s ! i" by (simp add: secs_def kn(2))
  have secb: "\<And>i. i < k \<Longrightarrow> lh_sector s ! i < 2 ^ 28 \<and> lh_sector s ! i \<notin> lregion s
      \<and> (?d, lh_sector s ! i) \<in> dirtied s"
    using inv(1) sec by (auto simp: linv_def k_def)
  have ent: "\<And>i. i < k \<Longrightarrow> lg_start s + 1 + i \<in> lregion s \<and> lg_start s + 1 + i < 2 ^ 28"
    using lregion_entry [OF inv(1)] by (auto simp: k_def okblk_def)
  let ?H = "head_block (lh_n s) (lh_sector s) (bval s ?h)"
  obtain s1 where s1: "write_head s = Inr ((), s1)" "binv s1" "held s1 = {}" "dirtied s1 = dirtied s"
    "bval s1 = (bval s)(?h := ?H)" "dwrites s1 = (?h, ?H) # dwrites s" "bframe s1 = bframe s"
    using write_head_law [OF bi(1) okh inv(2) hd] cd k9 kn(1) by auto
  note f1 = bframe_logD [OF s1(7)]
  have p1: "0 + k \<le> LOGSIZE" "lg_dev s1 < 2" using k9 bi(2) f1 by (simp_all add: lgeom_def)
  have p2: "lg_start s1 + 1 + i < 2 ^ 28 \<and> lh_sector s1 ! i < 2 ^ 28
      \<and> card (insert (lg_dev s1, lh_sector s1 ! i) (dirtied s1)) < NBUF" if "0 \<le> i" "i < 0 + k" for i
    using that secb [of i] ent [of i] f1 s1(4) cd k9(3) by (simp add: insert_absorb)
  have p3: "lg_start s1 + 1 + i \<noteq> lh_sector s1 ! j" if "0 \<le> i" "i < 0 + k" "0 \<le> j" "j < 0 + k" for i j
    using that secb [of j] ent [of i] f1 by auto
  from install_loop_law [OF s1(2,3) p1 p2 p3] obtain s2 where
    s2: "install_loop k 0 s1 = Inr ((), s2)" "binv s2" "held s2 = {}" "bframe s2 = bframe s1"
    "dirtied s2 = dirtied s1 - (\<lambda>i. (lg_dev s1, lh_sector s1 ! i)) ` {0..<0 + k}"
    "bval s2 = content (bval s1) (installs s1 0 k)" "dwrites s2 = installs s1 0 k @ dwrites s1" by blast
  note f2 = bframe_logD [OF s2(4)]
  have "installs s1 0 k = rev (map (\<lambda>i. ((?d, secs s ! i), bval s (?d, secs s ! i))) [0..<k])"
    unfolding installs_def f1 rev_is_rev_conv
  proof (rule map_cong)
    fix i assume "i \<in> set [0..<k]"
    then have i: "i < k" by simp
    have "(?d, lg_start s + 1 + i) \<notin> dirtied s" using ent [OF i] inv(1) by (auto simp: linv_def)
    then have "bval s (?d, lg_start s + 1 + i) = bval s (?d, secs s ! i)"
      using inv(1) i by (auto simp: linv_def k_def)
    then show "((?d, lh_sector s ! i), bval s1 (?d, lg_start s + 1 + i)) = ((?d, secs s ! i), bval s (?d, secs s ! i))"
      using s1(5) sec [OF i] by simp
  qed simp
  also have "\<dots> = home_writes s"
  proof -
    have "map (\<lambda>i. ((?d, secs s ! i), bval s (?d, secs s ! i))) [0..<k] = map (\<lambda>x. ((?d, x), bval s (?d, x))) (secs s)"
      by (intro nth_equalityI) (simp_all add: k_def)
    then show ?thesis by (simp add: home_writes_def)
  qed
  finally have I: "installs s1 0 k = home_writes s" .
  have D2: "dirtied s2 = {}"
    using s2(5) s1(4) dk(1) f1 sec by (auto simp: k_def in_set_conv_nth)
  define s3 where "s3 = s2\<lparr>lh_n := 0\<rparr>"
  let ?E = "head_block 0 (lh_sector s) (bval s2 ?h)"
  have s3: "binv s3" "held s3 = {}" "dirtied s3 = {}" "bval s3 = bval s2" "dwrites s3 = dwrites s2" "lh_n s3 = 0"
    "lg_dev s3 = ?d" "lg_start s3 = lg_start s" "lh_sector s3 = lh_sector s"
    using s2(2,3) D2 f1 f2 by (simp_all add: s3_def)
  have "\<exists>s4. write_head s3 = Inr ((), s4) \<and> binv s4 \<and> held s4 = {} \<and> dirtied s4 = {}
    \<and> bval s4 = (bval s2)(?h := ?E) \<and> dwrites s4 = (?h, ?E) # dwrites s2 \<and> bframe s4 = bframe s3"
    using write_head_law [OF s3(1) _ s3(2)] okh unfolding s3(3-) by simp
  then obtain s4 where s4: "write_head s3 = Inr ((), s4)" "binv s4" "held s4 = {}" "dirtied s4 = {}"
    "bval s4 = (bval s2)(?h := ?E)" "dwrites s4 = (?h, ?E) # dwrites s2" "bframe s4 = bframe s3"
    by blast
  note f4 = bframe_logD [OF s4(7)]
  let ?s' = "s4\<lparr>lg_busy := False\<rparr>"
  have run: "commit_trans s = Inr ((), ?s')"
    using n s1(1) s2(1) s4(1) kn(1) f1 by (simp add: commit_trans_def install_trans_def kbind_assoc s3_def modify_def)
  have "bval s2 = (\<lambda>a. if a \<in> fst ` set (home_writes s) then bval s a else bval s1 a)"
    unfolding s2(6) I by (intro content_consistent) (auto simp: home_writes_def)
  then have bv: "bval s2 a = bval s a" if "\<not> inlog s a" for a
    using that s1(5) hl by (auto simp: inlog_def)
  have fr: "lframe ?s' = lframe s" using f1 f2 f4 by (simp add: lframe_def s3_def)
  have hv: "hview ?s' = hview s"
    using lframe_geom(2) [OF fr] bv s4(5) hl by (auto simp: hview_def fun_eq_iff inlog_def)
  have lenH: "length (bval s ?h) = BSIZE" "length (bval s2 ?h) = BSIZE"
    using bval_length bi(1) s2(2) by blast+
  have ls: "length (lh_sector s) = LOGSIZE" using bi(2) by (simp add: lgeom_def)
  have "\<forall>x \<in> set (take k (lh_sector s)). x < 2 ^ 32" using inv(1) kn(2) by (auto simp: linv_def secs_def)
  then have H: "get32 ?H 0 = k" "get_table ?H 4 k = secs s"
    using head_block_decode [OF lenH(1) ls k9(2)] kn(1) by (simp_all add: secs_def)
  have "get32 ?E 0 = 0" using head_block_decode(1) [OF lenH(2) ls, of 0] by simp
  moreover have "lh_n ?s' = 0" "lh_sector ?s' = lh_sector s" using f1 f2 f4 by (simp_all add: s3_def)
  ultimately show ?thesis
    using run s4 s1(6) s2(7) I hv fr H unfolding k_def [symmetric]
    by - (rule exI [of _ ?s'], rule exI [of _ ?H], rule exI [of _ ?E], simp)
qed

subsection \<open>Recovery\<close>

lemma read_head_law:
  assumes "binv r" "held r = {}" "dirtied r = {}" "lgeom r" "k \<le> LOGSIZE"
    and k: "get32 (bval r (lg_dev r, lg_start r)) 0 = k"
  shows "\<exists>r'. read_head r = Inr ((), r') \<and> binv r' \<and> held r' = {} \<and> dirtied r' = {} \<and> bval r' = bval r
    \<and> dwrites r' = dwrites r \<and> lframe r' = lframe r \<and> lg_busy r' = lg_busy r \<and> lh_n r' = int k
    \<and> length (lh_sector r') = LOGSIZE \<and> take k (lh_sector r') = get_table (bval r (lg_dev r, lg_start r)) 4 k"
proof -
  let ?h = "(lg_dev r, lg_start r)"
  have ok: "okblk ?h" using assms(4) by (auto simp: okblk_def lgeom_def)
  have "card (insert ?h (held r \<union> dirtied r)) \<le> NBUF" using assms(2,3) by simp
  from bc.rd [OF assms(1) ok _ this] assms(2) obtain b r1 where
    r1: "bread (lg_dev r) (lg_start r) r = Inr (b, r1)" "binv r1" "owner r1 ?h b" "bval r1 = bval r"
    "held r1 = {?h}" "dirtied r1 = dirtied r" "dwrites r1 = dwrites r" "bframe r1 = bframe r" by auto
  note f1 = bframe_logD [OF r1(8)]
  define t where "t = get_table (bval r ?h) 4 k"
  define r2 where "r2 = r1\<lparr>lh_n := int k, lh_sector := overwrite (lh_sector r) 0 t\<rparr>"
  have r2: "binv r2" "owner r2 ?h b" "bval r2 = bval r" "held r2 = {?h}" "dirtied r2 = {}" "dwrites r2 = dwrites r"
    using r1 assms(3) by (simp_all add: r2_def)
  have "bval r2 ?h = content (fst (bframe r2)) (dwrites r2) ?h"
    using r2 bc.coherent [OF assms(1)] assms(2,3) f1 by (simp add: bframe_def r2_def)
  with bc.rel [OF r2(1,2)] obtain r3 where r3: "brelse b r2 = Inr ((), r3)" "binv r3" "bval r3 = bval r2"
    "held r3 = held r2 - {?h}" "dirtied r3 = dirtied r2" "dwrites r3 = dwrites r2" "bframe r3 = bframe r2" by blast
  note f3 = bframe_logD [OF r3(7)]
  have lt: "length t = k" by (simp add: t_def get_table_def)
  have "sgn32 k = int k" using assms(5) by (simp add: sgn32_small)
  moreover have "bdata b r1 = bval r ?h" using bdata_law [OF r1(2,3)] r1(4) by simp
  ultimately have run: "read_head r = Inr ((), r3)"
    using r1(1) r3(1) k assms(5) f1 by (simp add: read_head_def Let_def t_def r2_def)
  have "length (lh_sector r) = LOGSIZE" using assms(4) by (simp add: lgeom_def)
  then have "length (lh_sector r3) = LOGSIZE" "take k (lh_sector r3) = t"
    using f3 lt assms(5) take_drop_overwrite [of 0 t "lh_sector r"] by (simp_all add: r2_def)
  moreover have "lframe r3 = lframe r" "lg_busy r3 = lg_busy r" "lh_n r3 = int k"
    using f1 f3 by (simp_all add: lframe_def r2_def)
  ultimately show ?thesis
    using run r2 r3 by (auto simp: t_def)
qed

lemma recover_law:
  assumes "binv r" "held r = {}" "dirtied r = {}" "lgeom r"
    and k: "get32 (dcontent r (lg_dev r, lg_start r)) 0 = k" "int k \<le> lg_size r - 1"
    and ss: "get_table (dcontent r (lg_dev r, lg_start r)) 4 k = ss" "\<forall>x \<in> set ss. x < 2 ^ 28 \<and> x \<notin> lregion r"
  shows "\<exists>r'. recover_from_log r = Inr ((), r') \<and> linv (dcontent r') r' \<and> lh_n r' = 0 \<and> held r' = {}
    \<and> lframe r' = lframe r \<and> lg_busy r' = lg_busy r
    \<and> (\<forall>a. \<not> inlog r a \<longrightarrow> dcontent r' a = content (dcontent r)
         (rev (map (\<lambda>i. ((lg_dev r, ss ! i), dcontent r (lg_dev r, lg_start r + 1 + i))) [0..<k])) a)"
proof -
  let ?d = "lg_dev r" and ?h = "(lg_dev r, lg_start r)"
  have bd: "bval r = dcontent r"
    using binv_coherent [OF assms(1)] assms(2,3) by auto
  have kk: "k < nat (lg_size r)" "k < LOGSIZE" using k(2) assms(4) by (auto simp: lgeom_def)
  have lenss: "length ss = k" using ss(1) by (auto simp: get_table_def)
  from read_head_law [OF assms(1-4), of k] obtain r1 where
    r1: "read_head r = Inr ((), r1)" "binv r1" "held r1 = {}" "dirtied r1 = {}" "bval r1 = bval r"
    "dwrites r1 = dwrites r" "lframe r1 = lframe r" "lg_busy r1 = lg_busy r" "lh_n r1 = int k"
    "length (lh_sector r1) = LOGSIZE" "take k (lh_sector r1) = ss"
    using k(1) kk(2) ss(1) bd by auto
  note g1 = lframe_geom [OF r1(7)]
  have sec: "lh_sector r1 ! i = ss ! i" if "i < k" for i using r1(11) that by (metis nth_take)
  have ent: "lg_start r + 1 + i \<in> lregion r \<and> lg_start r + 1 + i < 2 ^ 28" if "i < k" for i
    using that kk(1) assms(4) by (auto simp: lregion_def lgeom_def)
  have p1: "0 + k \<le> LOGSIZE" "lg_dev r1 < 2" using kk g1 assms(4) by (simp_all add: lgeom_def)
  have p2: "lg_start r1 + 1 + i < 2 ^ 28 \<and> lh_sector r1 ! i < 2 ^ 28
      \<and> card (insert (lg_dev r1, lh_sector r1 ! i) (dirtied r1)) < NBUF" if "0 \<le> i" "i < 0 + k" for i
    using that ent [of i] sec [of i] ss(2) lenss g1 r1(4) by simp
  have p3: "lg_start r1 + 1 + i \<noteq> lh_sector r1 ! j" if "0 \<le> i" "i < 0 + k" "0 \<le> j" "j < 0 + k" for i j
    using that ent [of i] sec [of j] ss(2) lenss g1 nth_mem [of j ss] by auto
  from install_loop_law [OF r1(2,3) p1 p2 p3] obtain r2 where
    r2: "install_loop k 0 r1 = Inr ((), r2)" "binv r2" "held r2 = {}" "bframe r2 = bframe r1"
    "dirtied r2 = dirtied r1 - (\<lambda>i. (lg_dev r1, lh_sector r1 ! i)) ` {0..<0 + k}"
    "bval r2 = content (bval r1) (installs r1 0 k)" "dwrites r2 = installs r1 0 k @ dwrites r1" by blast
  note f2 = bframe_logD [OF r2(4)]
  have I: "installs r1 0 k = rev (map (\<lambda>i. ((?d, ss ! i), dcontent r (?d, lg_start r + 1 + i))) [0..<k])"
    unfolding installs_def g1 r1(5) bd using sec by simp
  define r3 where "r3 = r2\<lparr>lh_n := 0\<rparr>"
  have r3: "binv r3" "held r3 = {}" "dirtied r3 = {}" "bval r3 = bval r2" "dwrites r3 = dwrites r2" "lh_n r3 = 0"
    "lg_dev r3 = ?d" "lg_start r3 = lg_start r" "length (lh_sector r3) = LOGSIZE"
    using r2(2,3,5) r1(4,10) f2 g1 by (simp_all add: r3_def)
  let ?E = "head_block 0 (lh_sector r3) (bval r2 ?h)"
  have "okblk ?h" using assms(4) by (auto simp: okblk_def lgeom_def)
  then have "\<exists>r4. write_head r3 = Inr ((), r4) \<and> binv r4 \<and> held r4 = {} \<and> dirtied r4 = {}
    \<and> bval r4 = (bval r2)(?h := ?E) \<and> dwrites r4 = (?h, ?E) # dwrites r2 \<and> bframe r4 = bframe r3"
    using write_head_law [OF r3(1) _ r3(2)] unfolding r3(3-8) by simp
  then obtain r4 where r4: "write_head r3 = Inr ((), r4)" "binv r4" "held r4 = {}" "dirtied r4 = {}"
    "bval r4 = (bval r2)(?h := ?E)" "dwrites r4 = (?h, ?E) # dwrites r2" "bframe r4 = bframe r3" by blast
  note f4 = bframe_logD [OF r4(7)]
  have run: "recover_from_log r = Inr ((), r4)"
    using r1(1,9) r2(1) r4(1) by (simp add: recover_from_log_def install_trans_def r3_def)
  have fr: "lframe r4 = lframe r" using r1(7) f2 f4 by (simp add: lframe_def r3_def)
  note g = lframe_geom [OF fr]
  have rest: "lh_n r4 = 0" "lg_busy r4 = lg_busy r" "lh_sector r4 = lh_sector r3"
    using f2 f4 r1(8) by (simp_all add: r3_def)
  have b4: "bval r4 = dcontent r4" using binv_coherent [OF r4(2)] r4(3,4) by auto
  have lh: "length (bval r2 ?h) = BSIZE" using bval_length r2(2) by blast
  have "get32 (dcontent r4 ?h) 0 = 0"
    using head_block_decode(1) [OF lh r3(9), of 0] r4(5) b4 [symmetric] by simp
  moreover have "lgeom r4" using assms(4) g rest(3) r3(9) by (simp add: lgeom_def)
  ultimately have linv: "linv (dcontent r4) r4"
    using r4(2-4) rest(1) b4 g by (auto simp: linv_def secs_def lgeom_def)
  have hl: "inlog r ?h" using assms(4) by (auto simp: inlog_def lregion_def lgeom_def)
  have "\<forall>a. \<not> inlog r a \<longrightarrow> dcontent r4 a = content (dcontent r)
         (rev (map (\<lambda>i. ((?d, ss ! i), dcontent r (?d, lg_start r + 1 + i))) [0..<k])) a"
    using b4 [symmetric] r4(5) r2(6) r1(5) bd hl unfolding I by auto
  with run linv rest fr r4(3) show ?thesis by blast
qed

lemma initlog_law:
  assumes boot: "bss r" "length (lh_sector r) = LOGSIZE"
    and sb: "sb = get_superblock (dcontent r (ROOTDEV, 1))"
    and geom: "lg_dev s = ROOTDEV" "lg_start s = uns32 (int (sb_size sb) - int (sb_nlog sb))"
      "lg_size s = sgn32 (sb_nlog sb)" "lgeom s"
    and k: "get32 (dcontent r (lg_dev s, lg_start s)) 0 = k" "int k \<le> lg_size s - 1"
    and ss: "get_table (dcontent r (lg_dev s, lg_start s)) 4 k = ss" "\<forall>x \<in> set ss. x < 2 ^ 28 \<and> x \<notin> lregion s"
  shows "\<exists>r'. initlog (binit r) = Inr ((), r') \<and> linv (dcontent r') r' \<and> lh_n r' = 0 \<and> held r' = {}
    \<and> lg_dev r' = lg_dev s \<and> lg_start r' = lg_start s \<and> lg_size r' = lg_size s
    \<and> lg_busy r' = lg_busy r \<and> log_st.more r' = log_st.more r
    \<and> (\<forall>a. \<not> inlog s a \<longrightarrow> dcontent r' a = content (dcontent r)
         (rev (map (\<lambda>i. ((lg_dev s, ss ! i), dcontent r (lg_dev s, lg_start s + 1 + i))) [0..<k])) a)"
proof -
  note z = binit_binv [OF boot(1)]
  have more: "bio_st.more (binit r) = bio_st.more r" by (simp add: binit_def fold_fields)
  then have ls: "lh_sector (binit r) = lh_sector r" "lg_busy (binit r) = lg_busy r" "log_st.more (binit r) = log_st.more r"
    by (cases r; cases "binit r"; auto)+
  have "okblk (ROOTDEV, 1)" by (simp add: okblk_def)
  from bc.peek_view [OF z(1) this] obtain r1 where r1:
    "bc.peek ROOTDEV 1 (binit r) = Inr (dcontent r (ROOTDEV, 1), r1)" "binv r1" "bval r1 = dcontent r"
    "held r1 = {}" "dirtied r1 = {}" "bframe r1 = bframe (binit r)" by (auto simp: z)
  note f1 = bframe_logD [OF r1(6)]
  define r2 where "r2 = r1\<lparr>lg_start := lg_start s, lg_size := lg_size s, lg_dev := lg_dev s\<rparr>"
  have d2: "dcontent r2 = dcontent r"
    using binv_coherent [OF r1(2)] r1(3-5) by (auto simp: r2_def fun_eq_iff)
  have g2: "lg_dev r2 = lg_dev s" "lg_start r2 = lg_start s" "lg_size r2 = lg_size s" "lregion r2 = lregion s"
    "inlog r2 = inlog s" by (auto simp: r2_def lregion_def inlog_def fun_eq_iff)
  have "lgeom r2" using geom(4) boot(2) f1 ls g2 by (simp add: lgeom_def) (simp add: r2_def)
  moreover have "binv r2" "held r2 = {}" "dirtied r2 = {}" using r1 by (simp_all add: r2_def)
  ultimately obtain r' where r': "recover_from_log r2 = Inr ((), r')" "linv (dcontent r') r'" "lh_n r' = 0"
    "held r' = {}" "lframe r' = lframe r2" "lg_busy r' = lg_busy r2" "\<forall>a. \<not> inlog s a \<longrightarrow> dcontent r' a = content (dcontent r)
         (rev (map (\<lambda>i. ((lg_dev s, ss ! i), dcontent r (lg_dev s, lg_start s + 1 + i))) [0..<k])) a"
    using recover_law [of r2 k ss] k ss unfolding d2 g2 by auto
  have "readsb ROOTDEV (binit r) = kbind (bc.peek ROOTDEV 1) (\<lambda>d. ret (get_superblock d)) (binit r)"
    by (simp add: readsb_def bc.peek_def kbind_assoc)
  then have "readsb ROOTDEV (binit r) = Inr (sb, r1)" using r1(1) sb by (simp add: ret_def)
  then have "initlog (binit r) = recover_from_log r2"
    using geom by (simp add: initlog_def r2_def)
  moreover have "lg_busy r2 = lg_busy r" "log_st.more r2 = log_st.more r" using f1 ls(2,3) by (simp_all add: r2_def)
  ultimately show ?thesis using r' lframe_geom [OF r'(5)] g2 by auto
qed

text \<open>
  What recovery makes of a disk on which the header and the log blocks of \<open>s\<close> are complete
  and some of the home blocks are installed: the content of the transaction.
\<close>

lemma recover_committed:
  assumes inv: "linv D s"
    and log: "\<And>i. i < length (secs s) \<Longrightarrow> C (lg_dev s, lg_start s + 1 + i) = dcontent s (lg_dev s, lg_start s + 1 + i)"
    and home: "\<And>a. \<not> inlog s a \<Longrightarrow> a \<notin> dirtied s \<Longrightarrow> C a = dcontent s a"
    and a: "\<not> inlog s a"
  shows "content C (rev (map (\<lambda>i. ((lg_dev s, secs s ! i), C (lg_dev s, lg_start s + 1 + i))) [0..<length (secs s)])) a
    = bval s a" (is "content C ?ws a = _")
proof -
  have "\<forall>(b, v) \<in> set ?ws. v = bval s b"
    using inv log by (auto simp: linv_def)
  from content_consistent [OF this, of C] have
    "content C ?ws a = (if a \<in> fst ` set ?ws then bval s a else C a)" by (rule fun_cong)
  moreover have "fst ` set ?ws = dirtied s"
  proof -
    have "fst ` set ?ws = (\<lambda>i. (lg_dev s, secs s ! i)) ` {0..<length (secs s)}"
      by (simp add: image_image)
    also have "\<dots> = Pair (lg_dev s) ` (\<lambda>i. secs s ! i) ` {0..<length (secs s)}" by (simp add: image_image)
    also have "(\<lambda>i. secs s ! i) ` {0..<length (secs s)} = set (secs s)" by (auto simp: set_conv_nth)
    finally show ?thesis using inv by (simp add: linv_def)
  qed
  moreover have "a \<notin> dirtied s \<Longrightarrow> C a = bval s a" using home [OF a] inv by (auto simp: linv_def)
  ultimately show ?thesis by auto
qed

lemma home_writes_facts:
  assumes "linv D s"
  shows "\<forall>(a, v) \<in> set (home_writes s). v = bval s a" "fst ` set (home_writes s) = dirtied s"
    "\<And>a. a \<in> dirtied s \<Longrightarrow> \<not> inlog s a"
proof -
  show "\<forall>(a, v) \<in> set (home_writes s). v = bval s a" by (auto simp: home_writes_def)
  show "fst ` set (home_writes s) = dirtied s" using assms by (simp add: home_writes_def linv_def image_image)
  show "\<And>a. a \<in> dirtied s \<Longrightarrow> \<not> inlog s a" using assms by (auto simp: linv_def inlog_def)
qed

lemma length_le_append_Cons:
  assumes "us @ vs = x # ws" "length vs \<le> length ws"
  shows "\<exists>us'. us = x # us' \<and> us' @ vs = ws"
  using assms by (cases us) auto

text \<open>The disk contents a crash during the commit can leave, from the writes that reached it.\<close>

lemma commit_suffix:
  assumes "us @ vs = (h, E) # hw @ (h, H) # ws" "length ws \<le> length vs"
  shows "vs = (h, E) # hw @ (h, H) # ws \<or> (\<exists>u2. set u2 \<subseteq> set hw \<and> vs = u2 @ (h, H) # ws) \<or> vs = ws"
proof (cases us)
  case Nil
  with assms show ?thesis by simp
next
  case (Cons u us')
  with assms(1) have "us' @ vs = hw @ (h, H) # ws" by simp
  then consider c where "hw = us' @ c" "vs = c @ (h, H) # ws" | c where "us' = hw @ c" "c @ vs = (h, H) # ws"
    by (auto simp: append_eq_append_conv2)
  then show ?thesis
  proof cases
    case 1
    then show ?thesis by auto
  next
    case 2
    then show ?thesis using assms(2) by (cases c) (auto intro!: exI [of _ "[]"])
  qed
qed

text \<open>Where the log of \<open>s\<close> is, according to the super block of the disk \<open>C\<close>.\<close>

definition placed :: "(nat \<times> nat \<Rightarrow> byte list) \<Rightarrow> 'a log_st_scheme \<Rightarrow> bool" where
  "placed C s \<longleftrightarrow> (let sb = get_superblock (C (ROOTDEV, 1)) in
     lg_dev s = ROOTDEV \<and> lg_start s = uns32 (int (sb_size sb) - int (sb_nlog sb))
     \<and> lg_size s = sgn32 (sb_nlog sb) \<and> 1 \<notin> lregion s)"

lemma reboot_law:
  assumes inv: "linv D s" and p: "placed D s"
    and boot: "bss r" "length (lh_sector r) = LOGSIZE" "dcontent r (ROOTDEV, 1) = D (ROOTDEV, 1)"
    and head: "get32 (dcontent r (lg_dev s, lg_start s)) 0 = 0
      \<or> (get32 (dcontent r (lg_dev s, lg_start s)) 0 = length (secs s)
         \<and> get_table (dcontent r (lg_dev s, lg_start s)) 4 (length (secs s)) = secs s)"
    and log: "\<And>i. i < length (secs s) \<Longrightarrow>
      dcontent r (lg_dev s, lg_start s + 1 + i) = dcontent s (lg_dev s, lg_start s + 1 + i)"
    and home: "\<And>a. \<not> inlog s a \<Longrightarrow> a \<notin> dirtied s \<Longrightarrow> dcontent r a = dcontent s a"
  shows "\<exists>r'. initlog (binit r) = Inr ((), r') \<and>
    (if get32 (dcontent r (lg_dev s, lg_start s)) 0 = 0
     then \<forall>a. \<not> inlog s a \<longrightarrow> dcontent r' a = dcontent r a
     else \<forall>a. \<not> inlog s a \<longrightarrow> dcontent r' a = bval s a)"
proof -
  let ?sb = "get_superblock (dcontent r (ROOTDEV, 1))"
  have g: "lg_dev s = ROOTDEV" "lg_start s = uns32 (int (sb_size ?sb) - int (sb_nlog ?sb))"
    "lg_size s = sgn32 (sb_nlog ?sb)" "lgeom s"
    using p boot(3) inv by (simp_all add: placed_def Let_def linv_def)
  note init = initlog_law [OF boot(1,2) refl g]
  show ?thesis
  proof (cases "get32 (dcontent r (lg_dev s, lg_start s)) 0 = 0")
    case True
    have "int 0 \<le> lg_size s - 1" "get_table (dcontent r (lg_dev s, lg_start s)) 4 0 = []"
      using g(4) by (simp_all add: lgeom_def get_table_def)
    from init [OF True this] obtain r' where "initlog (binit r) = Inr ((), r')"
      "\<forall>a. \<not> inlog s a \<longrightarrow> dcontent r' a = dcontent r a" by auto
    with True show ?thesis by auto
  next
    case False
    with head have h: "get32 (dcontent r (lg_dev s, lg_start s)) 0 = length (secs s)"
      "get_table (dcontent r (lg_dev s, lg_start s)) 4 (length (secs s)) = secs s" by auto
    have "int (length (secs s)) \<le> lg_size s - 1" "\<forall>x\<in>set (secs s). x < 2 ^ 28 \<and> x \<notin> lregion s"
      using inv length_secs [OF inv] by (auto simp: linv_def)
    from init [OF h(1) this(1) h(2) this(2)] obtain r' where "initlog (binit r) = Inr ((), r')"
      "\<forall>a. \<not> inlog s a \<longrightarrow> dcontent r' a = content (dcontent r) (rev (map (\<lambda>i. ((lg_dev s, secs s ! i),
         dcontent r (lg_dev s, lg_start s + 1 + i))) [0..<length (secs s)])) a" by blast
    with False recover_committed [OF inv, of "dcontent r", OF log home] show ?thesis by auto
  qed
qed

lemma linv_disk:
  assumes "linv D s"
  shows "\<not> inlog s a \<Longrightarrow> dcontent s a = D a" "a \<notin> dirtied s \<Longrightarrow> bval s a = dcontent s a"
    "inlog s (lg_dev s, lg_start s)" "get32 (dcontent s (lg_dev s, lg_start s)) 0 = 0"
    "i < length (secs s) \<Longrightarrow> inlog s (lg_dev s, lg_start s + 1 + i)"
  using assms lregion_entry(1) [OF assms, of i]
  by (auto simp: linv_def inlog_def lregion_def lgeom_def)

text \<open>The machine boots in state \<open>r\<close> and finds \<open>C\<close> on the disk outside the log of \<open>s\<close>.\<close>

definition recovers :: "'a log_st_scheme \<Rightarrow> 'a log_st_scheme \<Rightarrow> (nat \<times> nat \<Rightarrow> byte list) \<Rightarrow> bool" where
  "recovers s r C \<longleftrightarrow>
     (\<exists>r'. initlog (binit r) = Inr ((), r') \<and> (\<forall>a. \<not> inlog s a \<longrightarrow> dcontent r' a = C a))"

text \<open>The three kinds of disk a crash during a commit leaves.\<close>

lemma reboot_before:
  assumes "linv D s" "placed D s" "bss r" "length (lh_sector r) = LOGSIZE" "dcontent r = dcontent s"
  shows "recovers s r D"
proof -
  have "\<not> inlog s (ROOTDEV, 1)" using assms(2) by (auto simp: placed_def Let_def inlog_def)
  with reboot_law [OF assms(1-4)] linv_disk [OF assms(1)] assms(5) show ?thesis by (auto simp: recovers_def)
qed

lemma reboot_during:
  assumes inv: "linv D s" and p: "placed D s" "1 \<notin> set (secs s)"
    and r: "bss r" "length (lh_sector r) = LOGSIZE"
      "dcontent r = content (dcontent s) (ws @ [((lg_dev s, lg_start s), H)])"
    and ws: "set ws \<subseteq> set (home_writes s)" "0 < lh_n s"
    and H: "get32 H 0 = length (secs s)" "get_table H 4 (length (secs s)) = secs s"
  shows "recovers s r (bval s)"
proof -
  let ?h = "(lg_dev s, lg_start s)"
  note hw = home_writes_facts [OF inv] and d = linv_disk [OF inv]
  have one: "\<not> inlog s (ROOTDEV, 1)" "(ROOTDEV, 1) \<notin> dirtied s"
    using p inv by (auto simp: placed_def Let_def inlog_def linv_def)
  have "\<forall>(a, v) \<in> set ws. v = bval s a" using ws(1) hw(1) by auto
  from content_consistent [OF this] have
    c: "dcontent r = (\<lambda>a. if a \<in> fst ` set ws then bval s a else ((dcontent s)(?h := H)) a)"
    using r(3) by (simp add: content_append)
  have "fst ` set ws \<subseteq> dirtied s" using ws(1) hw(2) by (metis image_mono)
  then have u: "a \<notin> fst ` set ws" if "inlog s a \<or> a \<notin> dirtied s" for a using hw(3) that by blast
  have "dcontent r ?h = H" using c u [of ?h] d(3) by simp
  moreover have "length (secs s) \<noteq> 0" using length_secs [OF inv] ws(2) by simp
  moreover have "dcontent r (lg_dev s, lg_start s + 1 + i) = dcontent s (lg_dev s, lg_start s + 1 + i)"
    if "i < length (secs s)" for i using c u d(5) [OF that] by simp
  moreover have "dcontent r a = dcontent s a" if "\<not> inlog s a" "a \<notin> dirtied s" for a
    using c u [of a] that d(3) by auto
  ultimately show ?thesis
    using reboot_law [OF inv p(1) r(1,2)] d(1) one H by (auto simp: recovers_def)
qed

lemma reboot_after:
  assumes inv: "linv D s" and p: "placed D s" "1 \<notin> set (secs s)"
    and r: "bss r" "length (lh_sector r) = LOGSIZE" "dcontent r = content (dcontent s)
      (((lg_dev s, lg_start s), E) # home_writes s @ [((lg_dev s, lg_start s), H)])"
    and E: "get32 E 0 = 0"
  shows "recovers s r (bval s)"
proof -
  let ?h = "(lg_dev s, lg_start s)"
  note hw = home_writes_facts [OF inv] and d = linv_disk [OF inv]
  have one: "\<not> inlog s (ROOTDEV, 1)" "(ROOTDEV, 1) \<notin> dirtied s"
    using p inv by (auto simp: placed_def Let_def inlog_def linv_def)
  from content_consistent [OF hw(1)] have
    c: "dcontent r = (\<lambda>a. if a \<in> dirtied s then bval s a else ((dcontent s)(?h := H)) a)(?h := E)"
    using r(3) by (simp add: content_append hw(2))
  have "dcontent r (lg_dev s, lg_start s + 1 + i) = dcontent s (lg_dev s, lg_start s + 1 + i)"
    if "i < length (secs s)" for i using c hw(3) d(5) [OF that] by auto
  moreover have "dcontent r a = dcontent s a" if "\<not> inlog s a" "a \<notin> dirtied s" for a
    using c that d(3) by auto
  moreover have "dcontent r a = bval s a" if "\<not> inlog s a" for a
    using c that d(2) [of a] d(3) by auto
  moreover have "dcontent r ?h = E" using c by simp
  ultimately show ?thesis
    using reboot_law [OF inv p(1) r(1,2)] d(1) one E by (auto simp: recovers_def)
qed

text \<open>
  C1 (safety): a commit is atomic against crashes. In a state of an open transaction
  (\<open>linv\<close>, committed disk content \<open>D\<close>, current content \<open>bval s\<close>), with no
  buffer held, \<open>commit_trans\<close> succeeds; and if the machine stops after any number of the
  disk writes it makes (\<open>vs\<close> is what reached the disk) and boots again, \<open>binit\<close> and
  \<open>initlog\<close> succeed and leave every block outside the log with its content before the
  transaction, or every such block with its content after it: before, if nothing of the commit
  was written, and after, if all of it was.
\<close>

theorem commit_crash_atomic:
  fixes s :: "'a log_st_scheme"
  assumes inv: "linv D s" "held s = {}" and p: "placed D s" "1 \<notin> set (secs s)"
  shows "\<exists>s'. commit_trans s = Inr ((), s') \<and> hview s' = hview s \<and>
    (\<forall>us vs. \<forall>r :: 'a log_st_scheme. dwrites s' = us @ vs \<and> length (dwrites s) \<le> length vs \<and>
        bss r \<and> length (lh_sector r) = LOGSIZE \<and> dcontent r = content (dbase s) vs \<longrightarrow>
      recovers s r D \<and> (us = [] \<longrightarrow> lh_n s = 0) \<or> recovers s r (bval s) \<and> (vs = dwrites s \<longrightarrow> lh_n s = 0))"
proof (cases "0 < lh_n s")
  case False
  then have n: "lh_n s = 0" using inv(1) by (simp add: linv_def)
  have "commit_trans s = Inr ((), s\<lparr>lg_busy := False\<rparr>)"
    using False by (simp add: commit_trans_def kbind_def modify_def)
  moreover have "hview (s\<lparr>lg_busy := False\<rparr>) = hview s"
    by (simp add: hview_def [abs_def] inlog_def lregion_def cong: if_cong)
  moreover have "recovers s r D"
    if "dwrites s = us @ vs" "length (dwrites s) \<le> length vs" "bss r" "length (lh_sector r) = LOGSIZE"
      "dcontent r = content (dbase s) vs" for us vs and r :: "'a log_st_scheme"
    using reboot_before [OF inv(1) p(1) that(3,4)] that(1,2,5) by (simp add: dcontent_def [of s])
  ultimately show ?thesis using n by (intro exI [of _ "s\<lparr>lg_busy := False\<rparr>"]) auto
next
  case True
  let ?h = "(lg_dev s, lg_start s)"
  from commit_law [OF inv True] obtain s' H E where s': "commit_trans s = Inr ((), s')"
    "dwrites s' = (?h, E) # home_writes s @ (?h, H) # dwrites s" "get32 H 0 = length (secs s)"
    "get_table H 4 (length (secs s)) = secs s" "get32 E 0 = 0" "hview s' = hview s" by blast
  have "recovers s r D \<and> (us = [] \<longrightarrow> lh_n s = 0) \<or> recovers s r (bval s) \<and> (vs = dwrites s \<longrightarrow> lh_n s = 0)"
    if vs: "dwrites s' = us @ vs" "length (dwrites s) \<le> length vs"
      and r: "bss r" "length (lh_sector r) = LOGSIZE" "dcontent r = content (dbase s) vs"
    for us vs and r :: "'a log_st_scheme"
  proof -
    from commit_suffix [OF vs(1) [symmetric, unfolded s'(2)] vs(2)] consider
        (all) "vs = (?h, E) # home_writes s @ (?h, H) # dwrites s"
      | (part) ws where "set ws \<subseteq> set (home_writes s)" "vs = ws @ (?h, H) # dwrites s"
      | (none) "vs = dwrites s" by blast
    then show ?thesis
    proof cases
      case none
      then have "us \<noteq> []" using vs(1) s'(2) by auto
      with none reboot_before [OF inv(1) p(1) r(1,2)] r(3) show ?thesis by (auto simp: dcontent_def [of s])
    next
      case part
      then have "dcontent r = content (dcontent s) (ws @ [(?h, H)])"
        by (simp add: r(3) content_append dcontent_def [of s])
      with part reboot_during [OF inv(1) p r(1,2) _ part(1) True s'(3,4)] show ?thesis by auto
    next
      case all
      then have "dcontent r = content (dcontent s) ((?h, E) # home_writes s @ [(?h, H)])"
        by (simp add: r(3) content_append dcontent_def [of s])
      with all reboot_after [OF inv(1) p r(1,2) _ s'(5), of H] show ?thesis by auto
    qed
  qed
  with s'(1,6) show ?thesis by blast
qed

subsection \<open>The contract of the log\<close>

text \<open>
  What the file system relies on: inside a transaction, reads see the writes made so far, and a
  block that is held can be replaced by \<open>set_bdata\<close> and \<open>log_write\<close>.
  \<open>used\<close> is the set of blocks in the transaction, \<open>cap\<close> how many it may have.
\<close>

locale logged_blocks =
  fixes inv :: "'s \<Rightarrow> bool"
    and dev :: "'s \<Rightarrow> nat"
    and valid :: "'s \<Rightarrow> nat \<Rightarrow> bool"
    and view :: "'s \<Rightarrow> nat \<Rightarrow> byte list"
    and hold :: "'s \<Rightarrow> nat set"
    and own :: "'s \<Rightarrow> nat \<Rightarrow> nat \<Rightarrow> bool"
    and used :: "'s \<Rightarrow> nat set"
    and cap :: "'s \<Rightarrow> nat"
    and open_tr :: "'s \<Rightarrow> bool"
    and frame :: "'s \<Rightarrow> 'f"
    and rd :: "nat \<Rightarrow> nat \<Rightarrow> ('s, nat) kern"
    and rel :: "nat \<Rightarrow> ('s, unit) kern"
    and data :: "nat \<Rightarrow> 's \<Rightarrow> byte list"
    and set_data :: "nat \<Rightarrow> byte list \<Rightarrow> ('s, unit) kern"
    and logw :: "nat \<Rightarrow> ('s, unit) kern"
  assumes rd: "inv s \<Longrightarrow> valid s n \<Longrightarrow> n \<notin> hold s \<Longrightarrow> card (hold s) + card (used s) < NBUF \<Longrightarrow>
      \<exists>b s'. rd (dev s) n s = Inr (b, s') \<and> inv s' \<and> own s' n b \<and> view s' = view s
        \<and> hold s' = insert n (hold s) \<and> used s' = used s \<and> frame s' = frame s
        \<and> (\<forall>m j. own s m j \<longrightarrow> own s' m j)"
    and data: "inv s \<Longrightarrow> own s n b \<Longrightarrow> data b s = view s n"
    and data_length: "inv s \<Longrightarrow> valid s n \<Longrightarrow> length (view s n) = BSIZE"
    and own_hold: "inv s \<Longrightarrow> own s n b \<Longrightarrow> n \<in> hold s"
    and hold_finite: "inv s \<Longrightarrow> finite (hold s)"
    and put: "inv s \<Longrightarrow> own s n b \<Longrightarrow> length x = BSIZE \<Longrightarrow> open_tr s \<Longrightarrow> card (used s) < cap s \<Longrightarrow>
      card (hold s) + card (used s) < NBUF \<Longrightarrow>
      \<exists>s'. kbind (set_data b x) (\<lambda>_. logw b) s = Inr ((), s') \<and> inv s' \<and> view s' = (view s)(n := x)
        \<and> hold s' = hold s \<and> used s' = insert n (used s) \<and> frame s' = frame s
        \<and> (\<forall>m j. own s m j \<longrightarrow> own s' m j)"
    and rel: "inv s \<Longrightarrow> own s n b \<Longrightarrow>
      \<exists>s'. rel b s = Inr ((), s') \<and> inv s' \<and> view s' = view s \<and> hold s' = hold s - {n}
        \<and> used s' = used s \<and> frame s' = frame s \<and> (\<forall>m j. m \<noteq> n \<longrightarrow> own s m j \<longrightarrow> own s' m j)"
    and frame: "frame s' = frame s \<Longrightarrow> dev s' = dev s \<and> valid s' = valid s \<and> cap s' = cap s \<and> open_tr s' = open_tr s"
begin

definition peek :: "nat \<Rightarrow> nat \<Rightarrow> ('s, byte list) kern" where
  "peek d n = kbind (rd d n) (\<lambda>b. kbind (gets (data b)) (\<lambda>x. kbind (rel b) (\<lambda>_. ret x)))"

lemma peek_view:
  assumes "inv s" "valid s n" "n \<notin> hold s" "card (hold s) + card (used s) < NBUF"
  shows "\<exists>s'. peek (dev s) n s = Inr (view s n, s') \<and> inv s' \<and> view s' = view s \<and> hold s' = hold s
    \<and> used s' = used s \<and> frame s' = frame s \<and> (\<forall>m j. own s m j \<longrightarrow> own s' m j)"
proof -
  from rd [OF assms] obtain b s1 where s1: "rd (dev s) n s = Inr (b, s1)" "inv s1" "own s1 n b" "view s1 = view s"
    "hold s1 = insert n (hold s)" "used s1 = used s" "frame s1 = frame s" "\<forall>m j. own s m j \<longrightarrow> own s1 m j" by blast
  from rel [OF s1(2,3)] obtain s2 where s2: "rel b s1 = Inr ((), s2)" "inv s2" "view s2 = view s1"
    "hold s2 = hold s1 - {n}" "used s2 = used s1" "frame s2 = frame s1" "\<forall>m j. m \<noteq> n \<longrightarrow> own s1 m j \<longrightarrow> own s2 m j"
    by blast
  have "own s2 m j" if "own s m j" for m j
    using that s1(8) s2(7) own_hold [OF assms(1) that] assms(3) by metis
  then show ?thesis
    using s1 s2 data [OF s1(2,3)] assms(3) by (auto simp: peek_def kbind_def gets_def ret_def)
qed

text \<open>\<open>bp = bread(dev, n); change bp->data; log_write(bp); brelse(bp)\<close>.\<close>

definition update :: "nat \<Rightarrow> nat \<Rightarrow> (byte list \<Rightarrow> byte list) \<Rightarrow> ('s, unit) kern" where
  "update d n f = kbind (rd d n) (\<lambda>b. kbind (gets (data b)) (\<lambda>x.
     kbind (set_data b (f x)) (\<lambda>_. kbind (logw b) (\<lambda>_. rel b))))"

lemma update_view:
  assumes "inv s" "valid s n" "n \<notin> hold s" "open_tr s" "card (used s) < cap s" "Suc (card (hold s) + card (used s)) < NBUF"
    and "length (f (view s n)) = BSIZE"
  shows "\<exists>s'. update (dev s) n f s = Inr ((), s') \<and> inv s' \<and> view s' = (view s)(n := f (view s n))
    \<and> hold s' = hold s \<and> used s' = insert n (used s) \<and> frame s' = frame s \<and> (\<forall>m j. own s m j \<longrightarrow> own s' m j)"
proof -
  from rd [OF assms(1-3)] assms(6) obtain b s1 where s1: "rd (dev s) n s = Inr (b, s1)" "inv s1" "own s1 n b"
    "view s1 = view s" "hold s1 = insert n (hold s)" "used s1 = used s" "frame s1 = frame s"
    "\<forall>m j. own s m j \<longrightarrow> own s1 m j" by auto
  have "card (hold s1) = Suc (card (hold s))" using s1(5) assms(3) hold_finite [OF assms(1)] by simp
  then obtain s2 where s2: "kbind (set_data b (f (view s n))) (\<lambda>_. logw b) s1 = Inr ((), s2)" "inv s2"
    "view s2 = (view s1)(n := f (view s n))" "hold s2 = hold s1" "used s2 = insert n (used s1)" "frame s2 = frame s1"
    "\<forall>m j. own s1 m j \<longrightarrow> own s2 m j"
    using put [OF s1(2,3) assms(7)] frame [OF s1(7)] assms(4-6) s1(6) by auto
  with s1(3) have "own s2 n b" by blast
  from rel [OF s2(2) this] obtain s3 where s3: "rel b s2 = Inr ((), s3)" "inv s3" "view s3 = view s2"
    "hold s3 = hold s2 - {n}" "used s3 = used s2" "frame s3 = frame s2" "\<forall>m j. m \<noteq> n \<longrightarrow> own s2 m j \<longrightarrow> own s3 m j"
    by blast
  have "own s3 m j" if "own s m j" for m j
    using that s1(8) s2(7) s3(7) own_hold [OF assms(1) that] assms(3) by metis
  moreover have "update (dev s) n f s = kbind (kbind (set_data b (f (view s n))) (\<lambda>_. logw b)) (\<lambda>_. rel b) s1"
    using s1(1) data [OF s1(2,3)] s1(4) by (simp add: update_def kbind_assoc)
  then have "update (dev s) n f s = Inr ((), s3)" using s2(1) s3(1) by simp
  ultimately show ?thesis
    using s1 s2 s3 assms(3) by auto
qed

end

text \<open>The state of a file system in or between transactions.\<close>

definition tinv :: "(nat \<times> nat \<Rightarrow> byte list) \<Rightarrow> 'a log_st_scheme \<Rightarrow> bool" where
  "tinv D s \<longleftrightarrow> linv D s \<and> fst ` held s \<subseteq> {lg_dev s}"

definition fvalid :: "'a log_st_scheme \<Rightarrow> nat \<Rightarrow> bool" where
  "fvalid s n \<longleftrightarrow> n < 2 ^ 28 \<and> n \<notin> lregion s"

definition fview :: "'a log_st_scheme \<Rightarrow> nat \<Rightarrow> byte list" where
  "fview s n = hview s (lg_dev s, n)"

definition fhold :: "'a log_st_scheme \<Rightarrow> nat set" where
  "fhold s = {n. (lg_dev s, n) \<in> held s}"

definition fown :: "'a log_st_scheme \<Rightarrow> nat \<Rightarrow> nat \<Rightarrow> bool" where
  "fown s n b \<longleftrightarrow> owner s (lg_dev s, n) b"

definition lused :: "'a log_st_scheme \<Rightarrow> nat set" where
  "lused s = set (secs s)"

definition lcap :: "'a log_st_scheme \<Rightarrow> nat" where
  "lcap s = nat (lg_size s) - 1"

definition fframe :: "'a log_st_scheme \<Rightarrow> ((nat \<times> nat \<Rightarrow> byte list) \<times> nat \<times> int \<times> nat \<times> 'a) \<times> bool" where
  "fframe s = (lframe s, lg_busy s)"

lemma tinv_held:
  assumes "tinv D s"
  shows "held s = Pair (lg_dev s) ` fhold s" "dirtied s = Pair (lg_dev s) ` set (secs s)"
    "card (held s \<union> dirtied s) \<le> card (fhold s) + card (lused s)" "finite (fhold s)"
    "fhold s \<inter> lregion s = {}"
proof -
  show h: "held s = Pair (lg_dev s) ` fhold s" using assms by (auto simp: tinv_def fhold_def)
  show d: "dirtied s = Pair (lg_dev s) ` set (secs s)" using assms by (simp add: tinv_def linv_def)
  have "inj (Pair (lg_dev s))" by (simp add: inj_on_def)
  then show fin: "finite (fhold s)" using h finite_marks(1) [of s] by (metis finite_imageD inj_on_subset subset_UNIV)
  have "card (held s) = card (fhold s)" unfolding h by (simp add: card_image inj_on_def)
  moreover have "card (dirtied s) = card (lused s)" unfolding d lused_def by (simp add: card_image inj_on_def)
  ultimately show "card (held s \<union> dirtied s) \<le> card (fhold s) + card (lused s)"
    using card_Un_le [of "held s" "dirtied s"] by linarith
  show "fhold s \<inter> lregion s = {}" using assms by (auto simp: tinv_def linv_def fhold_def)
qed

lemma card_lused: "tinv D s \<Longrightarrow> int (card (lused s)) = lh_n s"
  using length_secs [of D s] by (auto simp: tinv_def linv_def lused_def distinct_card)

lemma finite_lused [simp]: "finite (lused s)"
  by (simp add: lused_def)

lemma fframe_geom:
  assumes "fframe s' = fframe s"
  shows "lg_dev s' = lg_dev s" "lg_start s' = lg_start s" "lg_size s' = lg_size s" "lregion s' = lregion s"
    "inlog s' = inlog s" "lg_busy s' = lg_busy s" "log_st.more s' = log_st.more s" "lframe s' = lframe s"
    "fvalid s' = fvalid s" "lcap s' = lcap s" "dbase s' = dbase s"
  using assms lframe_geom [of s' s] by (auto simp: fframe_def fvalid_def lcap_def)

text \<open>Steps of the cache that change no content keep the state of the transaction.\<close>

lemma tinv_cache_step:
  assumes "tinv D s" "binv s'" "bval s' = bval s" "dirtied s' = dirtied s" "dwrites s' = dwrites s"
    "bframe s' = bframe s" "held s' \<subseteq> held s \<or> (\<exists>n. fvalid s n \<and> held s' = insert (lg_dev s, n) (held s))"
  shows "tinv D s'" "fframe s' = fframe s" "fview s' = fview s" "lused s' = lused s"
proof -
  note f = bframe_logD [OF assms(6)]
  show fr: "fframe s' = fframe s" using f by (simp add: fframe_def lframe_def)
  note g = fframe_geom [OF fr]
  have dc: "dcontent s' = dcontent s" using assms(5) g(11) by (simp add: dcontent_def)
  have sc: "secs s' = secs s" using f by (simp add: secs_def)
  have "fst ` held s' \<subseteq> {lg_dev s}"
    using assms(1,7) unfolding tinv_def by (elim conjE disjE exE) (blast, simp)
  moreover have "\<forall>x\<in>lregion s. (lg_dev s, x) \<notin> held s'"
    using assms(1,7) by (auto simp: tinv_def linv_def fvalid_def)
  ultimately show "tinv D s'"
    using assms(1-4) f g dc sc by (simp add: tinv_def linv_def lgeom_def)
  show "fview s' = fview s" using assms(3) g by (simp add: fview_def [abs_def] hview_def cong: if_cong)
  show "lused s' = lused s" using sc by (simp add: lused_def)
qed

lemma fown_unique: "tinv D s \<Longrightarrow> fown s n b \<Longrightarrow> binv s \<and> owner s (lg_dev s, n) b \<and> fvalid s n \<and> n \<in> fhold s"
  using owner_facts [of s "(lg_dev s, n)" b]
  by (auto simp: tinv_def linv_def fown_def fvalid_def fhold_def okblk_def)

lemma tinv_rd:
  assumes "tinv D s" "fvalid s n" "n \<notin> fhold s" "card (fhold s) + card (lused s) < NBUF"
  shows "\<exists>b s'. bread (lg_dev s) n s = Inr (b, s') \<and> tinv D s' \<and> fown s' n b \<and> fview s' = fview s
    \<and> fhold s' = insert n (fhold s) \<and> lused s' = lused s \<and> fframe s' = fframe s
    \<and> (\<forall>m j. fown s m j \<longrightarrow> fown s' m j)"
proof -
  have b: "binv s" "okblk (lg_dev s, n)" "(lg_dev s, n) \<notin> held s"
    using assms(1-3) by (auto simp: tinv_def linv_def lgeom_def okblk_def fvalid_def fhold_def)
  have "card (held s \<union> dirtied s) < NBUF" using tinv_held(3) [OF assms(1)] assms(4) by simp
  then have "card (insert (lg_dev s, n) (held s \<union> dirtied s)) \<le> NBUF"
    using card_insert_le_m1 [of NBUF "held s \<union> dirtied s" "(lg_dev s, n)"] by simp
  from bc.rd [OF b this] obtain i s' where s': "bread (lg_dev s) n s = Inr (i, s')" "binv s'"
    "owner s' (lg_dev s, n) i" "bval s' = bval s" "held s' = insert (lg_dev s, n) (held s)"
    "dirtied s' = dirtied s" "dwrites s' = dwrites s" "bframe s' = bframe s" "\<forall>c j. owner s c j \<longrightarrow> owner s' c j"
    by blast
  note t = tinv_cache_step [OF assms(1) s'(2,4,6-8)] and g = fframe_geom(1)
  have "tinv D s'" "fframe s' = fframe s" "fview s' = fview s" "lused s' = lused s"
    using t assms(2) s'(5) by blast+
  with s' g [of s' s] show ?thesis by (auto simp: fown_def fhold_def)
qed

lemma tinv_rel:
  assumes "tinv D s" "fown s n b"
  shows "\<exists>s'. brelse b s = Inr ((), s') \<and> tinv D s' \<and> fview s' = fview s \<and> fhold s' = fhold s - {n}
    \<and> lused s' = lused s \<and> fframe s' = fframe s \<and> (\<forall>m j. m \<noteq> n \<longrightarrow> fown s m j \<longrightarrow> fown s' m j)"
proof -
  have o: "binv s" "owner s (lg_dev s, n) b" using fown_unique [OF assms] by simp_all
  have "(lg_dev s, n) \<in> dirtied s \<or> bval s (lg_dev s, n) = content (fst (bframe s)) (dwrites s) (lg_dev s, n)"
    using linv_disk(2) [of D s] assms(1) by (auto simp: tinv_def dcontent_frame)
  from bc.rel [OF o this] obtain s' where s': "brelse b s = Inr ((), s')" "binv s'" "bval s' = bval s"
    "held s' = held s - {(lg_dev s, n)}" "dirtied s' = dirtied s" "dwrites s' = dwrites s" "bframe s' = bframe s"
    "\<forall>c j. c \<noteq> (lg_dev s, n) \<longrightarrow> owner s c j \<longrightarrow> owner s' c j" by blast
  note t = tinv_cache_step [OF assms(1) s'(2,3,5-7)] and g = fframe_geom(1)
  have "tinv D s'" "fframe s' = fframe s" "fview s' = fview s" "lused s' = lused s"
    using t s'(4) by blast+
  with s' g [of s' s] show ?thesis by (auto simp: fown_def fhold_def)
qed

lemma tinv_put:
  assumes "tinv D s" "fown s n b" "length x = BSIZE" "lg_busy s" "card (lused s) < lcap s"
    "card (fhold s) + card (lused s) < NBUF"
  shows "\<exists>s'. kbind (set_bdata b x) (\<lambda>_. log_write b) s = Inr ((), s') \<and> tinv D s' \<and> fview s' = (fview s)(n := x)
    \<and> fhold s' = fhold s \<and> lused s' = insert n (lused s) \<and> fframe s' = fframe s
    \<and> (\<forall>m j. fown s m j \<longrightarrow> fown s' m j)"
proof -
  have o: "owner s (lg_dev s, n) b" "n \<notin> lregion s" using fown_unique [OF assms(1,2)] by (auto simp: fvalid_def)
  have "lh_n s < lg_size s - 1" using card_lused [OF assms(1)] assms(5) by (auto simp: lcap_def)
  moreover have "card (held s \<union> dirtied s) < NBUF" using tinv_held(3) [OF assms(1)] assms(6) by simp
  ultimately obtain s' where s': "kbind (set_bdata b x) (\<lambda>_. log_write b) s = Inr ((), s')" "linv D s'" "lg_busy s'"
    "hview s' = (hview s)((lg_dev s, n) := x)" "held s' = held s"
    "secs s' = (if n \<in> set (secs s) then secs s else secs s @ [n])" "\<forall>c j. owner s c j \<longrightarrow> owner s' c j"
    "lframe s' = lframe s"
    using log_update_law [OF _ assms(4) o assms(3), of D] assms(1) by (auto simp: tinv_def)
  have fr: "fframe s' = fframe s" using s'(3,8) assms(4) by (simp add: fframe_def)
  note g = fframe_geom [OF fr]
  have "lused s' = insert n (lused s)" using s'(6) by (auto simp: lused_def)
  moreover have "fview s' = (fview s)(n := x)" using s'(4) g(1) by (auto simp: fview_def fun_eq_iff)
  moreover have "tinv D s'" "fhold s' = fhold s" using assms(1) s'(2,5) g(1) by (simp_all add: tinv_def fhold_def)
  ultimately show ?thesis using s' fr g(1) by (auto simp: fown_def)
qed

interpretation lb: logged_blocks "tinv D" lg_dev fvalid fview fhold fown lused lcap lg_busy fframe
  bread brelse bdata set_bdata log_write for D
proof unfold_locales
  fix s :: "'a log_st_scheme" and n b
  assume o: "tinv D s" "fown s n b"
  show "bdata b s = fview s n"
    using fown_unique [OF o] bdata_law [of s "(lg_dev s, n)" b]
    by (auto simp: fview_def hview_def inlog_def fvalid_def)
  show "n \<in> fhold s" using fown_unique [OF o] by simp
next
  fix s :: "'a log_st_scheme" and n
  assume "tinv D s" "fvalid s n"
  then show "length (fview s n) = BSIZE"
    using bval_length by (auto simp: fview_def hview_def inlog_def fvalid_def tinv_def linv_def)
next
  fix s s' :: "'a log_st_scheme"
  assume "fframe s' = fframe s"
  from fframe_geom [OF this]
  show "lg_dev s' = lg_dev s \<and> fvalid s' = fvalid s \<and> lcap s' = lcap s \<and> lg_busy s' = lg_busy s" by simp
qed (rule tinv_rd tinv_rel tinv_put tinv_held(4); assumption)+

subsection \<open>Properties\<close>

text \<open>
  C22 (functional): \<open>log_write\<close> of a block that its caller holds and has changed makes the
  change part of the transaction: readers of the block see it, no other block outside the log
  changes, the block is entered in the log header exactly once (an earlier entry is reused), its
  content is in its log block on the disk and nothing else on the disk has changed, so the
  committed content \<open>D\<close> is still what a reboot would find.
\<close>

theorem log_write_joins:
  assumes "linv D s" "lg_busy s" "owner s (lg_dev s, n) b" "n \<notin> lregion s" "length x = BSIZE"
    and "lh_n s < lg_size s - 1" "card (held s \<union> dirtied s) < NBUF"
  shows "\<exists>s'. kbind (set_bdata b x) (\<lambda>_. log_write b) s = Inr ((), s') \<and> linv D s'
    \<and> hview s' = (hview s)((lg_dev s, n) := x)
    \<and> secs s' = (if n \<in> set (secs s) then secs s else secs s @ [n])
    \<and> dwrites s' = ((lg_dev s, lg_start s + 1 + absorb (secs s) n), x) # dwrites s"
  using log_update_law [OF assms] by blast

text \<open>A disk with a file system of 100 blocks, the last ten of them the log.\<close>

definition sblock0 :: "byte list" where
  "sblock0 = put_table (replicate BSIZE 0) 0 [100, 60, 24, 10]"

lemma get_sblock0: "get_superblock sblock0 = \<lparr>sb_size = 100, sb_nblocks = 60, sb_ninodes = 24, sb_nlog = 10\<rparr>"
proof -
  have "get32 sblock0 (0 + 4 * i) = [100, 60, 24, 10] ! i" if "i < 4" for i
    unfolding sblock0_def using that by (intro get_put_table) auto
  from this [of 0] this [of 1] this [of 2] this [of 3] show ?thesis
    by (simp add: get_superblock_def)
qed

text \<open>The log after the boot of a machine with a disk on which no transaction is committed.\<close>

lemma disk_boot:
  fixes r :: "'a log_st_scheme"
  assumes b: "bss r" "length (lh_sector r) = LOGSIZE"
    and sb: "get_superblock (dcontent r (ROOTDEV, 1)) = \<lparr>sb_size = start + 10, sb_nblocks = nb, sb_ninodes = ni, sb_nlog = 10\<rparr>" "start + 10 \<le> 2 ^ 28"
    and h: "get32 (dcontent r (ROOTDEV, start)) 0 = 0"
  shows "\<exists>s :: 'a log_st_scheme. initlog (binit r) = Inr ((), s) \<and> linv (dcontent s) s \<and> lh_n s = 0 \<and> held s = {}
    \<and> lg_dev s = ROOTDEV \<and> lg_start s = start \<and> lg_size s = 10 \<and> lg_busy s = lg_busy r \<and> log_st.more s = log_st.more r
    \<and> (\<forall>n. n \<notin> {start..<start + 10} \<longrightarrow> dcontent s (ROOTDEV, n) = dcontent r (ROOTDEV, n))"
proof -
  define g where "g = r\<lparr>lg_start := start, lg_size := 10, lg_dev := 1\<rparr>"
  have g: "lg_dev g = 1" "lg_start g = start" "lg_size g = 10" "length (lh_sector g) = LOGSIZE"
    using b(2) by (simp_all add: g_def)
  have 1: "lg_dev g = ROOTDEV" "lg_start g = uns32 (int (sb_size (get_superblock (dcontent r (ROOTDEV, 1)))) -
      int (sb_nlog (get_superblock (dcontent r (ROOTDEV, 1)))))"
    "lg_size g = sgn32 (sb_nlog (get_superblock (dcontent r (ROOTDEV, 1))))" "lgeom g"
    unfolding sb(1) using sb(2) by (simp_all add: g lgeom_def uns32_def sgn32_def)
  have 2: "get32 (dcontent r (lg_dev g, lg_start g)) 0 = 0" "int 0 \<le> lg_size g - 1"
    "get_table (dcontent r (lg_dev g, lg_start g)) 4 0 = []" "\<forall>x \<in> set []. x < 2 ^ 28 \<and> x \<notin> lregion g"
    using h by (simp_all add: g get_table_def)
  from initlog_law [OF b refl 1 2] obtain s where s: "initlog (binit r) = Inr ((), s)" "linv (dcontent s) s"
    "lh_n s = 0" "held s = {}" "lg_dev s = lg_dev g" "lg_start s = lg_start g" "lg_size s = lg_size g"
    "lg_busy s = lg_busy r" "log_st.more s = log_st.more r" "\<And>a. \<not> inlog g a \<Longrightarrow> dcontent s a = dcontent r a" by auto
  have "\<not> inlog g (ROOTDEV, n)" if "n \<notin> {start..<start + 10}" for n using that by (auto simp: inlog_def lregion_def g)
  with s show ?thesis by (intro exI [of _ s]) (simp add: g)
qed

text \<open>The blocks the kernel then sees are those of the disk.\<close>

lemma boot_view:
  assumes s: "linv (dcontent s) s" "lh_n s = 0" "held s = {}" "lg_size s = 10"
  shows "tinv (dcontent s) s" "fhold s = {}" "lused s = {}" "lcap s = 9" "lregion s = {lg_start s..<lg_start s + 10}"
    "n \<notin> {lg_start s..<lg_start s + 10} \<Longrightarrow> fview s n = dcontent s (lg_dev s, n)"
proof -
  show "tinv (dcontent s) s" "fhold s = {}" "lused s = {}" "lcap s = 9" using s by (simp_all add: tinv_def fhold_def lused_def secs_def lcap_def)
  show r: "lregion s = {lg_start s..<lg_start s + 10}" using s(4) by (simp add: lregion_def)
  have "bval s = dcontent s" using binv_coherent [of s] s(1-3) by (auto simp: linv_def secs_def)
  then show "n \<notin> {lg_start s..<lg_start s + 10} \<Longrightarrow> fview s n = dcontent s (lg_dev s, n)"
    using r by (auto simp: fview_def hview_def inlog_def)
qed

lemma image_boot:
  fixes r :: "'a log_st_scheme"
  assumes b: "bss r" "length (lh_sector r) = LOGSIZE"
    and d: "dcontent r (ROOTDEV, 1) = sblock0" "dcontent r (1, 90) = replicate BSIZE 0"
  shows "\<exists>s :: 'a log_st_scheme. initlog (binit r) = Inr ((), s) \<and> linv (dcontent s) s \<and> lh_n s = 0 \<and> held s = {}
    \<and> lg_dev s = ROOTDEV \<and> lg_start s = 90 \<and> lg_size s = 10
    \<and> (\<forall>n. n \<notin> {90..<100} \<longrightarrow> dcontent s (ROOTDEV, n) = dcontent r (ROOTDEV, n))"
  using disk_boot [OF b, of 90 60 24] d by (auto simp: get_sblock0 get32_def get16_def)

definition log0 :: log_st where
  "log0 = \<lparr>bufs = bufs bio0, bnext = bnext bio0, bprev = bprev bio0, idequeue = [], havedisk1 = True,
     ide_err = False, dcur = (0, 0), dbusy = False,
     dbase = (\<lambda>a. if a = (ROOTDEV, 1) then sblock0 else replicate BSIZE 0), dwrites = [],
     lg_start = 0, lg_size = 0, lg_busy = False, lg_dev = 0, lh_n = 0, lh_sector = replicate LOGSIZE 0\<rparr>"

lemma log0_boot:
  "\<exists>s :: log_st. initlog (binit log0) = Inr ((), s) \<and> linv (dcontent s) s \<and> lh_n s = 0 \<and> held s = {}
    \<and> lg_dev s = ROOTDEV \<and> lg_start s = 90 \<and> lg_size s = 10 \<and> dcontent s (ROOTDEV, 1) = sblock0"
proof -
  have "bss log0" "length (lh_sector log0) = LOGSIZE" "dcontent log0 (ROOTDEV, 1) = sblock0"
    "dcontent log0 (1, 90) = replicate BSIZE 0"
    by (simp_all add: bss_def log0_def bio0_def dcontent_def sblock0_def)
  from image_boot [OF this] this(3) show ?thesis by fastforce
qed

text \<open>A transaction on it with block 5 changed, still open.\<close>

lemma log0_transaction:
  "\<exists>(s :: log_st) D b. linv D s \<and> lg_busy s \<and> owner s (lg_dev s, 5) b \<and> placed D s \<and> lh_n s = 0
    \<and> lg_size s = 10 \<and> lregion s = {90..<100} \<and> held s = {(lg_dev s, 5)} \<and> tinv D s"
proof -
  from log0_boot obtain s :: log_st where s: "linv (dcontent s) s" "lh_n s = 0" "held s = {}" "lg_dev s = ROOTDEV"
    "lg_start s = 90" "lg_size s = 10" "dcontent s (ROOTDEV, 1) = sblock0" by blast
  define s1 where "s1 = s\<lparr>lg_busy := True\<rparr>"
  have l1: "linv (dcontent s) s1"
    using s(1) unfolding linv_def secs_def s1_def by (simp add: lgeom_def lregion_def inlog_def)
  then have t1: "tinv (dcontent s) s1" using s(3) by (simp add: tinv_def s1_def)
  have reg: "lregion s1 = {90..<100}" using s(5,6) by (simp add: lregion_def s1_def)
  have "fvalid s1 5" "5 \<notin> fhold s1" "card (fhold s1) + card (lused s1) < NBUF"
    using s(2,3) reg by (simp_all add: fvalid_def fhold_def lused_def secs_def s1_def)
  from tinv_rd [OF t1 this] obtain b s2 where s2: "tinv (dcontent s) s2" "fown s2 5 b"
    "fhold s2 = insert 5 (fhold s1)" "lused s2 = lused s1" "fframe s2 = fframe s1" by blast
  note g = fframe_geom [OF s2(5)]
  have "fhold s1 = {}" using s(3) by (simp add: fhold_def s1_def)
  then have "held s2 = {(lg_dev s2, 5)}" using tinv_held(1) [OF s2(1)] s2(3) by simp
  moreover have "lh_n s2 = 0" using card_lused [OF s2(1)] card_lused [OF t1] s2(4) s(2) by (simp add: s1_def)
  moreover have "placed (dcontent s) s2"
    using s(4-7) reg g by (simp add: placed_def s1_def get_sblock0 uns32_def sgn32_def)
  moreover have "lg_busy s2" "lg_size s2 = 10" using g s(6) by (simp_all add: s1_def)
  ultimately show ?thesis
    using s2(1,2) reg g(4) by (intro exI [of _ s2] exI [of _ "dcontent s"] exI [of _ b]) (simp add: tinv_def fown_def)
qed

theorem log_write_joins_witness:
  "\<exists>(s :: log_st) s' b. kbind (set_bdata b (replicate BSIZE 7)) (\<lambda>_. log_write b) s = Inr ((), s') \<and> secs s' = [5]"
proof -
  from log0_transaction obtain s :: log_st and D b where s: "linv D s" "lg_busy s" "owner s (lg_dev s, 5) b"
    "placed D s" "lh_n s = 0" "lg_size s = 10" "lregion s = {90..<100}" "held s = {(lg_dev s, 5)}" by blast
  have "secs s = []" "dirtied s = {}" using s(1,5) by (simp_all add: secs_def linv_def)
  with log_write_joins [OF s(1-3), of "replicate BSIZE 7"] s show ?thesis by auto
qed

theorem commit_crash_atomic_witness:
  "\<exists>(s :: log_st) s'. lh_n s = 1 \<and> commit_trans s = Inr ((), s')"
proof -
  from log0_transaction obtain s :: log_st and D b where s: "linv D s" "lg_busy s" "owner s (lg_dev s, 5) b"
    "placed D s" "lh_n s = 0" "lg_size s = 10" "lregion s = {90..<100}" "held s = {(lg_dev s, 5)}" "tinv D s" by blast
  have e: "secs s = []" "dirtied s = {}" using s(1,5) by (simp_all add: secs_def linv_def)
  have "card (held s \<union> dirtied s) < NBUF" using s(8) e by simp
  with log_update_law [OF s(1-3), of "replicate BSIZE 7"] s obtain s1 where
    s1: "linv D s1" "held s1 = held s" "secs s1 = [5]" "lframe s1 = lframe s"
      "\<forall>c j. owner s c j \<longrightarrow> owner s1 c j" using e(1) by auto
  note g = lframe_geom [OF s1(4)]
  have "tinv D s1" "fown s1 5 b" using s1 s(3,9) g by (simp_all add: tinv_def fown_def)
  from tinv_rel [OF this] obtain s2 where s2: "tinv D s2" "fhold s2 = fhold s1 - {5}" "lused s2 = lused s1"
    "fframe s2 = fframe s1" "brelse b s1 = Inr ((), s2)" by blast
  note f = fframe_geom [OF s2(4)]
  have "lused s1 = {5}" using s1(3) by (simp add: lused_def)
  then have n2: "lh_n s2 = 1" using card_lused [OF s2(1)] s2(3) by simp
  have "held s2 = {}" using tinv_held(1) [OF s2(1)] s2(2) s1(2) s(8) g by (simp add: fhold_def)
  moreover have "lg_start s2 = lg_start s" "lregion s2 = lregion s" "lg_dev s2 = lg_dev s" "lg_size s2 = lg_size s"
    using f g by simp_all
  then have "placed D s2" using s(4) by (simp add: placed_def)
  moreover have "secs s2 = secs s1"
    using bframe_logD [of s2 s1] s2(5) by (auto simp: secs_def brelse_def bframe_def blink_def bunlink_def Let_def split: if_splits)
  ultimately have "\<exists>s'. commit_trans s2 = Inr ((), s')"
    using commit_crash_atomic [of D s2] s2(1) s1(3) by (auto simp: tinv_def)
  with n2 show ?thesis by blast
qed

end
