(* ===== verification/Fs.thy ===== *)
theory Fs
  imports Log
begin

text \<open>
  The file system's lower half (\<open>fs.c\<close>, \<open>fs.h\<close>, \<open>file.h\<close>): block allocation,
  inodes and their content, over the log.

  The inode cache extends the state record of the log; a \<open>struct inode *\<close> is the index of its
  entry. \<open>short\<close> fields are integers (read from the disk as signed 16 bit values and written
  modulo \<open>2 ^ 16\<close>), block numbers and sizes are naturals below \<open>2 ^ 32\<close>. The device
  switch stands for the drivers: \<open>devsw_read\<close> gives the result and the bytes of a read of
  \<open>n\<close> bytes, \<open>devsw_write\<close> the result of a write. A lock that another process holds ends
  the operation with \<open>Asleep\<close>.
\<close>

subsection \<open>On-disk and in-memory structures\<close>

abbreviation NDIRECT :: nat where "NDIRECT \<equiv> 12"
abbreviation NINDIRECT :: nat where "NINDIRECT \<equiv> 128"
abbreviation MAXFILE :: nat where "MAXFILE \<equiv> 140"
abbreviation IPB :: nat where "IPB \<equiv> 8"
abbreviation BPB :: nat where "BPB \<equiv> 4096"
abbreviation NINODE :: nat where "NINODE \<equiv> 50"
abbreviation NDEV :: int where "NDEV \<equiv> 10"
abbreviation ROOTINO :: nat where "ROOTINO \<equiv> 1"
abbreviation T_DIR :: int where "T_DIR \<equiv> 1"
abbreviation T_FILE :: int where "T_FILE \<equiv> 2"
abbreviation T_DEV :: int where "T_DEV \<equiv> 3"

definition IBLOCK :: "nat \<Rightarrow> nat" where
  "IBLOCK i = i div IPB + 2"

definition BBLOCK :: "nat \<Rightarrow> nat \<Rightarrow> nat" where
  "BBLOCK b ninodes = b div BPB + ninodes div IPB + 3"

record dinode =
  di_type :: int
  di_major :: int
  di_minor :: int
  di_nlink :: int
  di_size :: nat
  di_addrs :: "nat list"

text \<open>The inode at byte \<open>k\<close> of a block.\<close>

definition get_dinode :: "byte list \<Rightarrow> nat \<Rightarrow> dinode" where
  "get_dinode d k = \<lparr>di_type = sgn16 (get16 d k), di_major = sgn16 (get16 d (k + 2)),
     di_minor = sgn16 (get16 d (k + 4)), di_nlink = sgn16 (get16 d (k + 6)),
     di_size = get32 d (k + 8), di_addrs = get_table d (k + 12) (NDIRECT + 1)\<rparr>"

definition uns16 :: "int \<Rightarrow> nat" where
  "uns16 i = nat (i mod 2 ^ 16)"

definition put_dinode :: "byte list \<Rightarrow> nat \<Rightarrow> dinode \<Rightarrow> byte list" where
  "put_dinode d k v =
     put_table (put32 (put16 (put16 (put16 (put16 d k (uns16 (di_type v))) (k + 2) (uns16 (di_major v)))
       (k + 4) (uns16 (di_minor v))) (k + 6) (uns16 (di_nlink v))) (k + 8) (di_size v))
       (k + 12) (di_addrs v)"

record inode =
  i_dev :: nat
  i_inum :: nat
  i_ref :: int
  i_busy :: bool
  i_valid :: bool
  i_copy :: dinode

record fs_st = log_st +
  icache :: "inode list"
  devsw_read :: "nat \<Rightarrow> (nat \<Rightarrow> int \<times> byte list) option"
  devsw_write :: "nat \<Rightarrow> (byte list \<Rightarrow> int) option"

abbreviation ino :: "'a fs_st_scheme \<Rightarrow> nat \<Rightarrow> inode" where
  "ino s ip \<equiv> icache s ! ip"

definition upd_ino :: "nat \<Rightarrow> (inode \<Rightarrow> inode) \<Rightarrow> ('a fs_st_scheme, unit) kern" where
  "upd_ino ip f = modify (\<lambda>s. s\<lparr>icache := (icache s)[ip := f (icache s ! ip)]\<rparr>)"

definition upd_copy :: "nat \<Rightarrow> (dinode \<Rightarrow> dinode) \<Rightarrow> ('a fs_st_scheme, unit) kern" where
  "upd_copy ip f = upd_ino ip (\<lambda>x. x\<lparr>i_copy := f (i_copy x)\<rparr>)"

subsection \<open>Blocks\<close>

definition bzero :: "nat \<Rightarrow> nat \<Rightarrow> ('a log_st_scheme, unit) kern" where
  "bzero dev bno = kbind (bread dev bno) (\<lambda>bp. kbind (set_bdata bp (replicate BSIZE 0)) (\<lambda>_.
     kbind (log_write bp) (\<lambda>_. brelse bp)))"

text \<open>
  Bit \<open>bi\<close> of a bitmap block. \<open>bscan\<close> is the inner loop of \<open>balloc\<close>: the first clear
  bit among the next \<open>k\<close> from \<open>bi\<close> on.
\<close>

definition bit_used :: "byte list \<Rightarrow> nat \<Rightarrow> bool" where
  "bit_used d bi \<longleftrightarrow> d ! (bi div 8) AND push_bit (bi mod 8) 1 \<noteq> 0"

definition mark_bit :: "byte list \<Rightarrow> nat \<Rightarrow> byte list" where
  "mark_bit d bi = d[bi div 8 := d ! (bi div 8) OR push_bit (bi mod 8) 1]"

definition clear_bit :: "byte list \<Rightarrow> nat \<Rightarrow> byte list" where
  "clear_bit d bi = d[bi div 8 := d ! (bi div 8) AND NOT (push_bit (bi mod 8) 1)]"

fun bscan :: "byte list \<Rightarrow> nat \<Rightarrow> nat \<Rightarrow> nat option" where
  "bscan d 0 bi = None"
| "bscan d (Suc k) bi = (if \<not> bit_used d bi then Some bi else bscan d k (Suc bi))"

function balloc_loop :: "nat \<Rightarrow> superblock \<Rightarrow> nat \<Rightarrow> ('a log_st_scheme, nat) kern" where
  "balloc_loop dev sb b =
     (if b < sb_size sb then
        kbind (bread dev (BBLOCK b (sb_ninodes sb))) (\<lambda>bp.
        kbind (gets (bdata bp)) (\<lambda>d.
        case bscan d (min BPB (sb_size sb - b)) 0 of
          Some bi \<Rightarrow>
            kbind (set_bdata bp (mark_bit d bi)) (\<lambda>_.
            kbind (log_write bp) (\<lambda>_.
            kbind (brelse bp) (\<lambda>_.
            kbind (bzero dev (b + bi)) (\<lambda>_. ret (b + bi)))))
        | None \<Rightarrow> kbind (brelse bp) (\<lambda>_. balloc_loop dev sb (b + BPB))))
      else panic ''balloc: out of blocks'')"
  by auto
termination by (relation "measure (\<lambda>(dev, sb, b). sb_size sb - b)") auto

definition balloc :: "nat \<Rightarrow> ('a log_st_scheme, nat) kern" where
  "balloc dev = kbind (readsb dev) (\<lambda>sb. balloc_loop dev sb 0)"

definition bfree :: "nat \<Rightarrow> nat \<Rightarrow> ('a log_st_scheme, unit) kern" where
  "bfree dev b =
     kbind (readsb dev) (\<lambda>sb.
     kbind (bread dev (BBLOCK b (sb_ninodes sb))) (\<lambda>bp.
     kbind (gets (bdata bp)) (\<lambda>d.
     if \<not> bit_used d (b mod BPB) then panic ''freeing free block''
     else kbind (set_bdata bp (clear_bit d (b mod BPB))) (\<lambda>_. kbind (log_write bp) (\<lambda>_. brelse bp)))))"

subsection \<open>Inodes\<close>

definition iget :: "nat \<Rightarrow> nat \<Rightarrow> ('a fs_st_scheme, nat) kern" where
  "iget dev inum s =
     (case find (\<lambda>ip. i_ref (ino s ip) > 0 \<and> i_dev (ino s ip) = dev \<and> i_inum (ino s ip) = inum) [0..<NINODE] of
        Some ip \<Rightarrow> kbind (upd_ino ip (\<lambda>x. x\<lparr>i_ref := i_ref x + 1\<rparr>)) (\<lambda>_. ret ip) s
      | None \<Rightarrow>
         (case find (\<lambda>ip. i_ref (ino s ip) = 0) [0..<NINODE] of
            None \<Rightarrow> Inl (Panic ''iget: no inodes'')
          | Some ip \<Rightarrow>
              kbind (upd_ino ip (\<lambda>x. x\<lparr>i_dev := dev, i_inum := inum, i_ref := 1,
                                        i_busy := False, i_valid := False\<rparr>)) (\<lambda>_. ret ip) s))"

definition idup :: "nat \<Rightarrow> ('a fs_st_scheme, nat) kern" where
  "idup ip = kbind (upd_ino ip (\<lambda>x. x\<lparr>i_ref := i_ref x + 1\<rparr>)) (\<lambda>_. ret ip)"

function ialloc_loop :: "nat \<Rightarrow> int \<Rightarrow> nat \<Rightarrow> nat \<Rightarrow> ('a fs_st_scheme, nat) kern" where
  "ialloc_loop dev ty ninodes inum =
     (if inum < ninodes then
        kbind (bread dev (IBLOCK inum)) (\<lambda>bp.
        kbind (gets (bdata bp)) (\<lambda>d.
        if di_type (get_dinode d (inum mod IPB * 64)) = 0 then
          kbind (set_bdata bp (put16 (overwrite d (inum mod IPB * 64) (replicate 64 0))
                                  (inum mod IPB * 64) (uns16 ty))) (\<lambda>_.
          kbind (log_write bp) (\<lambda>_.
          kbind (brelse bp) (\<lambda>_. iget dev inum)))
        else kbind (brelse bp) (\<lambda>_. ialloc_loop dev ty ninodes (Suc inum))))
      else panic ''ialloc: no inodes'')"
  by auto
termination by (relation "measure (\<lambda>(dev, ty, ninodes, inum). ninodes - inum)") auto

definition ialloc :: "nat \<Rightarrow> int \<Rightarrow> ('a fs_st_scheme, nat) kern" where
  "ialloc dev ty = kbind (readsb dev) (\<lambda>sb. ialloc_loop dev ty (sb_ninodes sb) 1)"

definition iupdate :: "nat \<Rightarrow> ('a fs_st_scheme, unit) kern" where
  "iupdate ip s =
     (let x = ino s ip in
      kbind (bread (i_dev x) (IBLOCK (i_inum x))) (\<lambda>bp.
      kbind (gets (bdata bp)) (\<lambda>d.
      kbind (set_bdata bp (put_dinode d (i_inum x mod IPB * 64) (i_copy x))) (\<lambda>_.
      kbind (log_write bp) (\<lambda>_. brelse bp)))) s)"

definition ilock :: "nat \<Rightarrow> ('a fs_st_scheme, unit) kern" where
  "ilock ip s =
     (let x = ino s ip in
      if i_ref x < 1 then Inl (Panic ''ilock'')
      else if i_busy x then Inl Asleep
      else
        kbind (upd_ino ip (i_busy_update (\<lambda>_. True))) (\<lambda>_.
        if i_valid x then ret ()
        else
          kbind (bread (i_dev x) (IBLOCK (i_inum x))) (\<lambda>bp.
          kbind (gets (bdata bp)) (\<lambda>d.
          kbind (upd_ino ip (i_copy_update (\<lambda>_. get_dinode d (i_inum x mod IPB * 64)))) (\<lambda>_.
          kbind (brelse bp) (\<lambda>_.
          kbind (upd_ino ip (i_valid_update (\<lambda>_. True))) (\<lambda>_ s.
          if di_type (i_copy (ino s ip)) = 0 then Inl (Panic ''ilock: no type'') else Inr ((), s))))))) s)"

definition iunlock :: "nat \<Rightarrow> ('a fs_st_scheme, unit) kern" where
  "iunlock ip s =
     (if \<not> i_busy (ino s ip) \<or> i_ref (ino s ip) < 1 then Inl (Panic ''iunlock'')
      else upd_ino ip (i_busy_update (\<lambda>_. False)) s)"

text \<open>The first loop of \<open>itrunc\<close>, over the direct blocks, and the one over an indirect block.\<close>

fun itrunc_direct :: "nat \<Rightarrow> nat list \<Rightarrow> ('a fs_st_scheme, unit) kern" where
  "itrunc_direct ip [] s = Inr ((), s)"
| "itrunc_direct ip (i # is) s =
     (let a = di_addrs (i_copy (ino s ip)) ! i in
      if a \<noteq> 0 then
        kbind (bfree (i_dev (ino s ip)) a) (\<lambda>_.
        kbind (upd_copy ip (\<lambda>c. c\<lparr>di_addrs := (di_addrs c)[i := 0]\<rparr>)) (\<lambda>_. itrunc_direct ip is)) s
      else itrunc_direct ip is s)"

fun itrunc_indirect :: "nat \<Rightarrow> nat list \<Rightarrow> ('a fs_st_scheme, unit) kern" where
  "itrunc_indirect dev [] s = Inr ((), s)"
| "itrunc_indirect dev (a # as) s =
     (if a \<noteq> 0 then kbind (bfree dev a) (\<lambda>_. itrunc_indirect dev as) s else itrunc_indirect dev as s)"

definition itrunc :: "nat \<Rightarrow> ('a fs_st_scheme, unit) kern" where
  "itrunc ip =
     kbind (itrunc_direct ip [0..<NDIRECT]) (\<lambda>_.
     kbind (\<lambda>s. let a = di_addrs (i_copy (ino s ip)) ! NDIRECT; dev = i_dev (ino s ip) in
       if a \<noteq> 0 then
         kbind (bread dev a) (\<lambda>bp.
         kbind (gets (bdata bp)) (\<lambda>d.
         kbind (itrunc_indirect dev (get_table d 0 NINDIRECT)) (\<lambda>_.
         kbind (brelse bp) (\<lambda>_.
         kbind (bfree dev a) (\<lambda>_.
         upd_copy ip (\<lambda>c. c\<lparr>di_addrs := (di_addrs c)[NDIRECT := 0]\<rparr>)))))) s
       else Inr ((), s)) (\<lambda>_.
     kbind (upd_copy ip (di_size_update (\<lambda>_. 0))) (\<lambda>_. iupdate ip)))"

definition iput :: "nat \<Rightarrow> ('a fs_st_scheme, unit) kern" where
  "iput ip =
     kbind (\<lambda>s. let x = ino s ip in
       if i_ref x = 1 \<and> i_valid x \<and> di_nlink (i_copy x) = 0 then
         if i_busy x then Inl (Panic ''iput busy'')
         else
           kbind (upd_ino ip (i_busy_update (\<lambda>_. True))) (\<lambda>_.
           kbind (itrunc ip) (\<lambda>_.
           kbind (upd_copy ip (di_type_update (\<lambda>_. 0))) (\<lambda>_.
           kbind (iupdate ip) (\<lambda>_.
           upd_ino ip (\<lambda>x. x\<lparr>i_busy := False, i_valid := False\<rparr>))))) s
       else Inr ((), s)) (\<lambda>_.
     upd_ino ip (\<lambda>x. x\<lparr>i_ref := i_ref x - 1\<rparr>))"

definition iunlockput :: "nat \<Rightarrow> ('a fs_st_scheme, unit) kern" where
  "iunlockput ip = kbind (iunlock ip) (\<lambda>_. iput ip)"

subsection \<open>Inode content\<close>

definition bmap :: "nat \<Rightarrow> nat \<Rightarrow> ('a fs_st_scheme, nat) kern" where
  "bmap ip bn s =
     (let dev = i_dev (ino s ip); addrs = di_addrs (i_copy (ino s ip)) in
      if bn < NDIRECT then
        if addrs ! bn = 0 then
          kbind (balloc dev) (\<lambda>addr.
          kbind (upd_copy ip (\<lambda>c. c\<lparr>di_addrs := (di_addrs c)[bn := addr]\<rparr>)) (\<lambda>_. ret addr)) s
        else Inr (addrs ! bn, s)
      else if bn - NDIRECT < NINDIRECT then
        kbind (if addrs ! NDIRECT = 0 then
            kbind (balloc dev) (\<lambda>addr.
            kbind (upd_copy ip (\<lambda>c. c\<lparr>di_addrs := (di_addrs c)[NDIRECT := addr]\<rparr>)) (\<lambda>_. ret addr))
          else ret (addrs ! NDIRECT)) (\<lambda>ind.
        kbind (bread dev ind) (\<lambda>bp.
        kbind (gets (bdata bp)) (\<lambda>d.
        kbind (if get32 d (4 * (bn - NDIRECT)) = 0 then
            kbind (balloc dev) (\<lambda>addr.
            kbind (gets (bdata bp)) (\<lambda>d'.
            kbind (set_bdata bp (put32 d' (4 * (bn - NDIRECT)) addr)) (\<lambda>_.
            kbind (log_write bp) (\<lambda>_. ret addr))))
          else ret (get32 d (4 * (bn - NDIRECT)))) (\<lambda>addr.
        kbind (brelse bp) (\<lambda>_. ret addr))))) s
      else Inl (Panic ''bmap: out of range''))"

record stat =
  st_type :: int
  st_dev :: nat
  st_ino :: nat
  st_nlink :: int
  st_size :: nat

definition stati :: "nat \<Rightarrow> 'a fs_st_scheme \<Rightarrow> stat" where
  "stati ip s = \<lparr>st_type = di_type (i_copy (ino s ip)), st_dev = i_dev (ino s ip), st_ino = i_inum (ino s ip),
     st_nlink = di_nlink (i_copy (ino s ip)), st_size = di_size (i_copy (ino s ip))\<rparr>"

text \<open>The loop of \<open>readi\<close>: \<open>n\<close> bytes are left, from \<open>off\<close> on.\<close>

function readi_loop :: "nat \<Rightarrow> nat \<Rightarrow> nat \<Rightarrow> ('a fs_st_scheme, byte list) kern" where
  "readi_loop ip off n =
     (if n = 0 then ret []
      else
        let m = min n (BSIZE - off mod BSIZE) in
        kbind (gets (\<lambda>s. i_dev (ino s ip))) (\<lambda>dev.
        kbind (bmap ip (off div BSIZE)) (\<lambda>addr.
        kbind (bread dev addr) (\<lambda>bp.
        kbind (gets (bdata bp)) (\<lambda>d.
        kbind (brelse bp) (\<lambda>_.
        kbind (readi_loop ip (off + m) (n - m)) (\<lambda>r. ret (take m (drop (off mod BSIZE) d) @ r))))))))"
  by auto
termination by (relation "measure (\<lambda>(ip, off, n). n)") auto

definition readi :: "nat \<Rightarrow> nat \<Rightarrow> nat \<Rightarrow> ('a fs_st_scheme, int \<times> byte list) kern" where
  "readi ip off n s =
     (let c = i_copy (ino s ip) in
      if di_type c = T_DEV then
        if di_major c < 0 \<or> di_major c \<ge> NDEV then Inr ((-1, []), s)
        else case devsw_read s (nat (di_major c)) of None \<Rightarrow> Inr ((-1, []), s) | Some f \<Rightarrow> Inr (f n, s)
      else if off > di_size c \<or> (off + n) mod 2 ^ 32 < off then Inr ((-1, []), s)
      else
        let n' = (if off + n > di_size c then di_size c - off else n) in
        kbind (readi_loop ip off n') (\<lambda>r. ret (int n', r)) s)"

text \<open>The loop of \<open>writei\<close>: the bytes \<open>src\<close> are left to be written from \<open>off\<close> on.\<close>

function writei_loop :: "nat \<Rightarrow> byte list \<Rightarrow> nat \<Rightarrow> ('a fs_st_scheme, unit) kern" where
  "writei_loop ip src off =
     (if src = [] then ret ()
      else
        let m = min (length src) (BSIZE - off mod BSIZE) in
        kbind (gets (\<lambda>s. i_dev (ino s ip))) (\<lambda>dev.
        kbind (bmap ip (off div BSIZE)) (\<lambda>addr.
        kbind (bread dev addr) (\<lambda>bp.
        kbind (gets (bdata bp)) (\<lambda>d.
        kbind (set_bdata bp (overwrite d (off mod BSIZE) (take m src))) (\<lambda>_.
        kbind (log_write bp) (\<lambda>_.
        kbind (brelse bp) (\<lambda>_. writei_loop ip (drop m src) (off + m)))))))))"
  by auto
termination by (relation "measure (\<lambda>(ip, src, off). length src)") (auto simp: min_def)

definition writei :: "nat \<Rightarrow> byte list \<Rightarrow> nat \<Rightarrow> ('a fs_st_scheme, int) kern" where
  "writei ip src off s =
     (let c = i_copy (ino s ip); n = length src in
      if di_type c = T_DEV then
        if di_major c < 0 \<or> di_major c \<ge> NDEV then Inr (-1, s)
        else case devsw_write s (nat (di_major c)) of None \<Rightarrow> Inr (-1, s) | Some f \<Rightarrow> Inr (f src, s)
      else if off > di_size c \<or> (off + n) mod 2 ^ 32 < off then Inr (-1, s)
      else if (off + n) mod 2 ^ 32 > MAXFILE * BSIZE then Inr (-1, s)
      else
        kbind (writei_loop ip src off) (\<lambda>_ s.
        if n > 0 \<and> off + n > di_size (i_copy (ino s ip)) then
          kbind (upd_copy ip (di_size_update (\<lambda>_. off + n))) (\<lambda>_. kbind (iupdate ip) (\<lambda>_. ret (int n))) s
        else Inr (int n, s)) s)"

subsection \<open>Encoding of inodes\<close>

definition dinode_ok :: "dinode \<Rightarrow> bool" where
  "dinode_ok v \<longleftrightarrow> di_type v \<in> {-(2 ^ 15)..<2 ^ 15} \<and> di_major v \<in> {-(2 ^ 15)..<2 ^ 15}
     \<and> di_minor v \<in> {-(2 ^ 15)..<2 ^ 15} \<and> di_nlink v \<in> {-(2 ^ 15)..<2 ^ 15}
     \<and> di_size v < 2 ^ 32 \<and> length (di_addrs v) = NDIRECT + 1 \<and> (\<forall>a \<in> set (di_addrs v). a < 2 ^ 32)"

lemma uns16_less: "uns16 i < 2 ^ 16"
  by (simp add: uns16_def nat_less_iff)

lemma sgn16_uns16: "i \<in> {-(2 ^ 15)..<2 ^ 15} \<Longrightarrow> sgn16 (uns16 i) = i"
proof (cases "0 \<le> i")
  case False
  assume i: "i \<in> {-(2 ^ 15)..<2 ^ 15}"
  with False have "i mod 2 ^ 16 = i + 2 ^ 16"
    using int_mod_pos_eq [of i "2 ^ 16" "- 1" "i + 2 ^ 16"] by simp
  with False i show ?thesis by (simp add: sgn16_def uns16_def)
qed (simp add: sgn16_def uns16_def)

lemma uns16_sgn16: "v < 2 ^ 16 \<Longrightarrow> uns16 (sgn16 v) = v"
  by (auto simp: uns16_def sgn16_def nat_mod_distrib)

lemma sgn16_range: "v < 2 ^ 16 \<Longrightarrow> sgn16 v \<in> {-(2 ^ 15)..<2 ^ 15}"
  by (auto simp: sgn16_def)

lemma dinode_ok_get: "dinode_ok (get_dinode d k)"
  using sgn16_range [OF get16_less] get32_less
  by (auto simp: dinode_ok_def get_dinode_def get_table_def)

lemma get_put_table_other16:
  "k + 4 * length vs \<le> length d \<Longrightarrow> j + 2 \<le> length d \<Longrightarrow> j + 2 \<le> k \<or> k + 4 * length vs \<le> j \<Longrightarrow>
    get16 (put_table d k vs) j = get16 d j"
  by (induction d k vs rule: put_table.induct) (auto simp: get_put_other)

lemma length_put_dinode [simp]:
  "k + 64 \<le> length d \<Longrightarrow> dinode_ok v \<Longrightarrow> length (put_dinode d k v) = length d"
  by (simp add: put_dinode_def dinode_ok_def)

lemma get_put_dinode:
  assumes "k + 64 \<le> length d" "dinode_ok v"
  shows "get_dinode (put_dinode d k v) k = v"
proof -
  note ok = assms(2) [unfolded dinode_ok_def]
  have l: "length (di_addrs v) = 13" using ok by simp
  define d1 where "d1 = put16 d k (uns16 (di_type v))"
  define d2 where "d2 = put16 d1 (k + 2) (uns16 (di_major v))"
  define d3 where "d3 = put16 d2 (k + 4) (uns16 (di_minor v))"
  define d4 where "d4 = put16 d3 (k + 6) (uns16 (di_nlink v))"
  define d5 where "d5 = put32 d4 (k + 8) (di_size v)"
  have len: "length d1 = length d" "length d2 = length d" "length d3 = length d" "length d4 = length d"
    "length d5 = length d" using assms(1) by (simp_all add: d1_def d2_def d3_def d4_def d5_def)
  have p: "put_dinode d k v = put_table d5 (k + 12) (di_addrs v)"
    by (simp add: put_dinode_def d1_def d2_def d3_def d4_def d5_def)
  note b = uns16_less [of "di_type v"] uns16_less [of "di_major v"] uns16_less [of "di_minor v"] uns16_less [of "di_nlink v"]
  have 1: "get16 d5 k = uns16 (di_type v)" "get16 d5 (k + 2) = uns16 (di_major v)"
    "get16 d5 (k + 4) = uns16 (di_minor v)" "get16 d5 (k + 6) = uns16 (di_nlink v)"
    using assms(1) len b unfolding d5_def d4_def d3_def d2_def d1_def
    by (simp_all add: get_put_other)
  have 2: "get32 d5 (k + 8) = di_size v" using assms(1) len ok unfolding d5_def by simp
  have "get_table (put_table d5 (k + 12) (di_addrs v)) (k + 12) 13 = di_addrs v"
    using get_table_put_table [of "k + 12" "di_addrs v" d5] assms(1) len ok by simp
  then show ?thesis
    using 1 2 assms(1) len l ok unfolding p get_dinode_def
    by (simp add: get_put_table_other get_put_table_other16 sgn16_uns16)
qed

lemma put_table_overwrite: "k + 4 * length vs \<le> length d \<Longrightarrow> put_table d k vs = overwrite d k (concat (map bytes32 vs))"
proof (induction d k vs rule: put_table.induct)
  case (2 d k v vs)
  have "length (concat (map bytes32 vs)) = 4 * length vs" by (induction vs) simp_all
  then show ?case using 2 by (simp add: put32_def overwrite_append)
qed simp

text \<open>An inode's slot is all that \<open>put_dinode\<close> changes, so its neighbours in the block keep theirs.\<close>

lemma put_dinode_overwrite:
  assumes "k + 64 \<le> length d" "length (di_addrs v) = NDIRECT + 1"
  shows "\<exists>bs. length bs = 64 \<and> put_dinode d k v = overwrite d k bs"
proof -
  let ?bs = "bytes16 (uns16 (di_type v)) @ bytes16 (uns16 (di_major v)) @ bytes16 (uns16 (di_minor v))
    @ bytes16 (uns16 (di_nlink v)) @ bytes32 (di_size v) @ concat (map bytes32 (di_addrs v))"
  have "length (concat (map bytes32 xs)) = 4 * length xs" for xs by (induction xs) simp_all
  then have l: "length ?bs = 64" using assms(2) by simp
  moreover have "overwrite d k ?bs = put_dinode d k v"
    using assms l by (simp add: overwrite_append put_dinode_def put16_def put32_def put_table_overwrite
        add.assoc del: add_2_eq_Suc add_2_eq_Suc')
  ultimately show ?thesis by metis
qed

lemma get_dinode_overwrite_other:
  assumes "k + length bs \<le> length d" "j + 64 \<le> length d" "j + 64 \<le> k \<or> k + length bs \<le> j"
  shows "get_dinode (overwrite d k bs) j = get_dinode d j"
proof -
  have "get_table (overwrite d k bs) (j + 12) 13 = get_table d (j + 12) 13"
    unfolding get_table_def using assms by (intro map_cong refl get32_overwrite_other) auto
  then show ?thesis
    using assms by (auto simp: get_dinode_def get16_overwrite_other get32_overwrite_other)
qed

lemma get_put_dinode_other:
  assumes "k + 64 \<le> length d" "j + 64 \<le> length d" "j + 64 \<le> k \<or> k + 64 \<le> j" "dinode_ok v"
  shows "get_dinode (put_dinode d k v) j = get_dinode d j"
  using put_dinode_overwrite [OF assms(1), of v] assms get_dinode_overwrite_other [of k _ d j]
  by (auto simp: dinode_ok_def)

subsection \<open>Encoding of the bitmap\<close>

lemma bit_used_iff: "bit_used d i \<longleftrightarrow> bit (d ! (i div 8)) (i mod 8)"
proof -
  have "w AND push_bit k 1 \<noteq> 0 \<longleftrightarrow> bit w k" if "k < 8" for w :: byte and k
    using that by (auto simp: bit_eq_iff [where ?'a = byte] bit_and_iff bit_exp_iff)
  then show ?thesis by (simp add: bit_used_def)
qed

lemma length_bits [simp]: "length (mark_bit d i) = length d" "length (clear_bit d i) = length d"
  by (simp_all add: mark_bit_def clear_bit_def)

lemma bit_used_mark:
  assumes "i < 8 * length d" "j < 8 * length d"
  shows "bit_used (mark_bit d i) j \<longleftrightarrow> j = i \<or> bit_used d j"
proof -
  have "i div 8 < length d" using assms(1) by simp
  moreover have "j div 8 = i div 8 \<and> j mod 8 = i mod 8 \<longleftrightarrow> j = i" by (metis mult_div_mod_eq)
  ultimately show ?thesis
    by (auto simp: bit_used_iff mark_bit_def nth_list_update bit_or_iff bit_exp_iff)
qed

lemma bit_used_clear:
  assumes "i < 8 * length d" "j < 8 * length d"
  shows "bit_used (clear_bit d i) j \<longleftrightarrow> j \<noteq> i \<and> bit_used d j"
proof -
  have "i div 8 < length d" using assms(1) by simp
  moreover have "j div 8 = i div 8 \<and> j mod 8 = i mod 8 \<longleftrightarrow> j = i" by (metis mult_div_mod_eq)
  ultimately show ?thesis
    by (auto simp: bit_used_iff clear_bit_def nth_list_update bit_and_iff bit_not_iff bit_exp_iff)
qed

lemma bscan_find: "bscan d k i = find (\<lambda>j. \<not> bit_used d j) [i..<i + k]"
  by (induction d k i rule: bscan.induct) (simp_all add: upt_rec)

subsection \<open>Block allocation\<close>

text \<open>The super block and the bitmap, as the kernel sees them.\<close>

definition sbl :: "'a log_st_scheme \<Rightarrow> superblock" where
  "sbl s = get_superblock (fview s 1)"

abbreviation BB :: "'a log_st_scheme \<Rightarrow> nat \<Rightarrow> nat" where
  "BB s b \<equiv> BBLOCK b (sb_ninodes (sbl s))"

definition bused :: "'a log_st_scheme \<Rightarrow> nat \<Rightarrow> bool" where
  "bused s b \<longleftrightarrow> bit_used (fview s (BB s b)) (b mod BPB)"

text \<open>The super block and the bitmap blocks can be read.\<close>

definition bitmap_ok :: "'a log_st_scheme \<Rightarrow> bool" where
  "bitmap_ok s \<longleftrightarrow> fvalid s 1 \<and> 1 \<notin> fhold s
     \<and> (\<forall>b < sb_size (sbl s). fvalid s (BB s b) \<and> BB s b \<notin> fhold s)"

lemma sbl_cong: "fview s' = fview s \<Longrightarrow> sbl s' = sbl s"
  by (simp add: sbl_def)

lemma bitmap_ok_cong: "fview s' = fview s \<Longrightarrow> fhold s' = fhold s \<Longrightarrow> fvalid s' = fvalid s \<Longrightarrow> bitmap_ok s' = bitmap_ok s"
  by (simp add: bitmap_ok_def sbl_def)

lemma readsb_law:
  assumes "tinv D s" "fvalid s 1" "1 \<notin> fhold s" "card (fhold s) + card (lused s) < NBUF"
  shows "\<exists>s'. readsb (lg_dev s) s = Inr (sbl s, s') \<and> tinv D s' \<and> fview s' = fview s \<and> fhold s' = fhold s
    \<and> lused s' = lused s \<and> fframe s' = fframe s \<and> (\<forall>m j. fown s m j \<longrightarrow> fown s' m j)"
proof -
  have "readsb (lg_dev s) s = kbind (lb.peek (lg_dev s) 1) (\<lambda>d. ret (get_superblock d)) s"
    by (simp add: readsb_def lb.peek_def kbind_assoc)
  with lb.peek_view [OF assms] show ?thesis by (auto simp: sbl_def ret_def)
qed

lemma bzero_law:
  assumes "tinv D s" "fvalid s n" "n \<notin> fhold s" "lg_busy s" "card (lused s) < lcap s" "Suc (card (fhold s) + card (lused s)) < NBUF"
  shows "\<exists>s'. bzero (lg_dev s) n s = Inr ((), s') \<and> tinv D s' \<and> fview s' = (fview s)(n := replicate BSIZE 0)
    \<and> fhold s' = fhold s \<and> lused s' = insert n (lused s) \<and> fframe s' = fframe s \<and> (\<forall>m j. fown s m j \<longrightarrow> fown s' m j)"
proof -
  have "bzero (lg_dev s) n s = lb.update (lg_dev s) n (\<lambda>_. replicate BSIZE 0) s"
    by (simp add: bzero_def lb.update_def kbind_def gets_def split: sum.split prod.split)
  with lb.update_view [OF assms, of "\<lambda>_. replicate BSIZE 0"] show ?thesis by simp
qed

lemma BBLOCK_same:
  assumes "b mod BPB = 0" "j < BPB"
  shows "BBLOCK (b + j) n = BBLOCK b n" "(b + j) mod BPB = j"
proof -
  obtain q where "b = BPB * q" using assms(1) by (metis mod_0_imp_dvd dvdE)
  then show "BBLOCK (b + j) n = BBLOCK b n" "(b + j) mod BPB = j"
    using assms(2) by (simp_all add: BBLOCK_def)
qed

lemma find_append: "find P (xs @ ys) = (case find P xs of None \<Rightarrow> find P ys | r \<Rightarrow> r)"
  by (induction xs) simp_all

lemma find_map: "find P (map f xs) = map_option f (find (\<lambda>x. P (f x)) xs)"
  by (induction xs) simp_all

lemma find_cong_set: "(\<And>x. x \<in> set xs \<Longrightarrow> P x = Q x) \<Longrightarrow> find P xs = find Q xs"
  by (induction xs) simp_all

text \<open>The search in one bitmap block is the search in its range of block numbers.\<close>

lemma bscan_range:
  assumes "b mod BPB = 0" "b < sz"
  shows "find (\<lambda>b. \<not> bit_used (V (BBLOCK b n)) (b mod BPB)) [b..<sz] =
    (case bscan (V (BBLOCK b n)) (min BPB (sz - b)) 0 of
       Some bi \<Rightarrow> Some (b + bi)
     | None \<Rightarrow> find (\<lambda>b. \<not> bit_used (V (BBLOCK b n)) (b mod BPB)) [b + BPB..<sz])"
proof -
  let ?k = "min BPB (sz - b)" and ?P = "\<lambda>b. \<not> bit_used (V (BBLOCK b n)) (b mod BPB)"
  have "[b..<sz] = [b..<b + ?k] @ [b + ?k..<sz]"
    using assms(2) upt_add_eq_append [of b "b + ?k" "sz - (b + ?k)"] by (auto simp: min_def split: if_splits)
  moreover have "[b..<b + ?k] = map (\<lambda>j. b + j) [0..<?k]" by (simp add: map_add_upt add.commute)
  moreover have "find (\<lambda>j. ?P (b + j)) [0..<?k] = find (\<lambda>j. \<not> bit_used (V (BBLOCK b n)) j) [0..<?k]"
    using BBLOCK_same [OF assms(1)] by (intro find_cong_set) simp
  moreover have "[b + ?k..<sz] = [b + BPB..<sz]" by (auto simp: min_def)
  ultimately show ?thesis
    by (simp add: find_append find_map bscan_find split: option.split)
qed

lemma balloc_loop_law:
  assumes "tinv D s" "lg_busy s" "bitmap_ok s" "b mod BPB = 0" "sb = sbl s"
    and "find (\<lambda>b. \<not> bused s b) [b..<sb_size sb] = Some r" "fvalid s r" "r \<notin> fhold s"
    and "card (insert (BB s r) (lused s)) < lcap s" "Suc (card (fhold s) + card (insert (BB s r) (lused s))) < NBUF"
  shows "\<exists>s'. balloc_loop (lg_dev s) sb b s = Inr (r, s') \<and> tinv D s'
    \<and> fview s' = (fview s)(BB s r := mark_bit (fview s (BB s r)) (r mod BPB), r := replicate BSIZE 0)
    \<and> fhold s' = fhold s \<and> lused s' = insert r (insert (BB s r) (lused s)) \<and> fframe s' = fframe s \<and> (\<forall>m j. fown s m j \<longrightarrow> fown s' m j)"
  using assms
proof (induction "sb_size sb - b" arbitrary: b s rule: less_induct)
  case less
  note prems = less.prems
  have b: "b < sb_size sb"
    using prems(6) by (cases "b < sb_size sb") (auto simp: upt_conv_Nil)
  let ?n = "BB s b" and ?d = "fview s (BB s b)"
  have le: "card (lused s) < lcap s" "Suc (card (fhold s) + card (lused s)) < NBUF"
    using prems(9,10) card_insert_le [of "lused s" "BB s r"] by linarith+
  have n: "fvalid s ?n" "?n \<notin> fhold s" "card (fhold s) + card (lused s) < NBUF"
    using prems(3,5) b le by (simp_all add: bitmap_ok_def)
  from lb.rd [OF prems(1) n] obtain bp s1 where s1: "bread (lg_dev s) ?n s = Inr (bp, s1)" "tinv D s1"
    "fown s1 ?n bp" "fview s1 = fview s" "fhold s1 = insert ?n (fhold s)" "lused s1 = lused s" "fframe s1 = fframe s"
    "\<forall>m j. fown s m j \<longrightarrow> fown s1 m j" by blast
  note g1 = fframe_geom [OF s1(7)]
  have dat: "bdata bp s1 = ?d" using lb.data [OF s1(2,3)] s1(4) by simp
  have rng: "find (\<lambda>b. \<not> bused s b) [b..<sb_size sb] =
    (case bscan ?d (min BPB (sb_size sb - b)) 0 of Some bi \<Rightarrow> Some (b + bi)
     | None \<Rightarrow> find (\<lambda>b. \<not> bused s b) [b + BPB..<sb_size sb])"
    unfolding bused_def by (rule bscan_range [OF prems(4) b])
  have unfold: "balloc_loop (lg_dev s) sb b s =
    (case bscan ?d (min BPB (sb_size sb - b)) 0 of
       Some bi \<Rightarrow> kbind (kbind (set_bdata bp (mark_bit ?d bi)) (\<lambda>_. log_write bp)) (\<lambda>_. kbind (brelse bp) (\<lambda>_.
            kbind (bzero (lg_dev s) (b + bi)) (\<lambda>_. ret (b + bi)))) s1
     | None \<Rightarrow> kbind (brelse bp) (\<lambda>_. balloc_loop (lg_dev s) sb (b + BPB)) s1)"
    using b s1(1) dat prems(5)
    by (subst balloc_loop.simps) (simp add: kbind_assoc split: option.split)
  show ?case
  proof (cases "bscan ?d (min BPB (sb_size sb - b)) 0")
    case None
    from lb.rel [OF s1(2,3)] obtain s2 where s2: "brelse bp s1 = Inr ((), s2)" "tinv D s2" "fview s2 = fview s1"
      "fhold s2 = fhold s1 - {?n}" "lused s2 = lused s1" "fframe s2 = fframe s1"
      "\<forall>m j. m \<noteq> ?n \<longrightarrow> fown s1 m j \<longrightarrow> fown s2 m j" by blast
    note g2 = fframe_geom [OF s2(6)]
    have eq: "fview s2 = fview s" "fhold s2 = fhold s" "fframe s2 = fframe s" "lused s2 = lused s"
      using s1 s2 n(2) by auto
    have own: "\<forall>m j. fown s m j \<longrightarrow> fown s2 m j"
      using s1(8) s2(7) n(2) lb.own_hold [OF prems(1)] by metis
    have sb: "sbl s2 = sbl s" "bused s2 = bused s" using eq(1) by (simp_all add: sbl_def bused_def [abs_def])
    have "\<exists>s'. balloc_loop (lg_dev s2) sb (b + BPB) s2 = Inr (r, s') \<and> tinv D s'
      \<and> fview s' = (fview s2)(BB s2 r := mark_bit (fview s2 (BB s2 r)) (r mod BPB), r := replicate BSIZE 0)
      \<and> fhold s' = fhold s2 \<and> lused s' = insert r (insert (BB s2 r) (lused s2)) \<and> fframe s' = fframe s2 \<and> (\<forall>m j. fown s2 m j \<longrightarrow> fown s' m j)"
      using None b prems rng eq sb g1 g2 s2(2) bitmap_ok_cong [of s2 s]
      by (intro less.hyps) simp_all
    then show ?thesis using unfold None s2(1) eq own g1 g2 sb by auto
  next
    case (Some bi)
    then have r: "r = b + bi" using rng prems(6) by simp
    have bi: "bi < BPB" using Some by (auto simp: bscan_find dest: find_SomeD)
    have same: "BB s r = ?n" "r mod BPB = bi" using BBLOCK_same [OF prems(4) bi] r by simp_all
    have c1: "card (fhold s1) = Suc (card (fhold s))" using s1(5) n(2) lb.hold_finite [OF prems(1)] by simp
    have "length (mark_bit ?d bi) = BSIZE" using lb.data_length [OF prems(1) n(1)] by simp
    from lb.put [OF s1(2,3) this] c1 prems(2) le g1 s1(6) obtain s2 where
      s2: "kbind (set_bdata bp (mark_bit ?d bi)) (\<lambda>_. log_write bp) s1 = Inr ((), s2)" "tinv D s2"
        "fview s2 = (fview s1)(?n := mark_bit ?d bi)" "fhold s2 = fhold s1" "lused s2 = insert ?n (lused s1)"
        "fframe s2 = fframe s1" "\<forall>m j. fown s1 m j \<longrightarrow> fown s2 m j" by auto
    from s2(7) s1(3) have "fown s2 ?n bp" by blast
    from lb.rel [OF s2(2) this] obtain s3 where s3: "brelse bp s2 = Inr ((), s3)" "tinv D s3" "fview s3 = fview s2"
      "fhold s3 = fhold s2 - {?n}" "lused s3 = lused s2" "fframe s3 = fframe s2"
      "\<forall>m j. m \<noteq> ?n \<longrightarrow> fown s2 m j \<longrightarrow> fown s3 m j" by blast
    have fr3: "fframe s3 = fframe s" "fhold s3 = fhold s" using s1 s2 s3 n(2) by auto
    note g3 = fframe_geom [OF fr3(1)]
    have "fvalid s3 r" "r \<notin> fhold s3" "lg_busy s3" "card (lused s3) < lcap s3" "Suc (card (fhold s3) + card (lused s3)) < NBUF"
      using prems(2,7-10) g3 fr3(2) s2(5) s3(5) s1(6) same(1) by auto
    from bzero_law [OF s3(2) this] obtain s4 where s4: "bzero (lg_dev s3) r s3 = Inr ((), s4)" "tinv D s4"
      "fview s4 = (fview s3)(r := replicate BSIZE 0)" "fhold s4 = fhold s3" "lused s4 = insert r (lused s3)"
      "fframe s4 = fframe s3" "\<forall>m j. fown s3 m j \<longrightarrow> fown s4 m j" by blast
    have "\<forall>m j. fown s m j \<longrightarrow> fown s4 m j"
      using s1(8) s2(7) s3(7) s4(7) n(2) lb.own_hold [OF prems(1)] by metis
    then show ?thesis
      using unfold Some s2 s3 s4 fr3 g3 s1(4,6) same r by (auto simp: ret_def)
  qed
qed

lemma balloc_law:
  assumes "tinv D s" "lg_busy s" "bitmap_ok s"
    and "find (\<lambda>b. \<not> bused s b) [0..<sb_size (sbl s)] = Some r" "fvalid s r" "r \<notin> fhold s"
    and "card (insert (BB s r) (lused s)) < lcap s" "Suc (card (fhold s) + card (insert (BB s r) (lused s))) < NBUF"
  shows "\<exists>s'. balloc (lg_dev s) s = Inr (r, s') \<and> tinv D s'
    \<and> fview s' = (fview s)(BB s r := mark_bit (fview s (BB s r)) (r mod BPB), r := replicate BSIZE 0)
    \<and> fhold s' = fhold s \<and> lused s' = insert r (insert (BB s r) (lused s)) \<and> fframe s' = fframe s \<and> (\<forall>m j. fown s m j \<longrightarrow> fown s' m j)"
proof -
  have "fvalid s 1" "1 \<notin> fhold s" "card (fhold s) + card (lused s) < NBUF"
    using assms(3,8) card_insert_le [of "lused s" "BB s r"] by (simp_all add: bitmap_ok_def)
  from readsb_law [OF assms(1) this] obtain s1 where s1: "readsb (lg_dev s) s = Inr (sbl s, s1)" "tinv D s1"
    "fview s1 = fview s" "fhold s1 = fhold s" "lused s1 = lused s" "fframe s1 = fframe s"
    "\<forall>m j. fown s m j \<longrightarrow> fown s1 m j" by blast
  note g = fframe_geom [OF s1(6)]
  have sb: "sbl s1 = sbl s" "bused s1 = bused s" using s1(3) by (simp_all add: sbl_def bused_def [abs_def])
  have "\<exists>s'. balloc_loop (lg_dev s1) (sbl s) 0 s1 = Inr (r, s') \<and> tinv D s'
    \<and> fview s' = (fview s1)(BB s1 r := mark_bit (fview s1 (BB s1 r)) (r mod BPB), r := replicate BSIZE 0)
    \<and> fhold s' = fhold s1 \<and> lused s' = insert r (insert (BB s1 r) (lused s1)) \<and> fframe s' = fframe s1 \<and> (\<forall>m j. fown s1 m j \<longrightarrow> fown s' m j)"
    using assms s1(2-5) sb g bitmap_ok_cong [of s1 s] by (intro balloc_loop_law) simp_all
  with s1 sb g show ?thesis by (auto simp: balloc_def)
qed

lemma bfree_law:
  assumes "tinv D s" "lg_busy s" "bitmap_ok s" "b < sb_size (sbl s)" "bused s b"
    and "card (lused s) < lcap s" "Suc (card (fhold s) + card (lused s)) < NBUF"
  shows "\<exists>s'. bfree (lg_dev s) b s = Inr ((), s') \<and> tinv D s'
    \<and> fview s' = (fview s)(BB s b := clear_bit (fview s (BB s b)) (b mod BPB))
    \<and> fhold s' = fhold s \<and> lused s' = insert (BB s b) (lused s) \<and> fframe s' = fframe s \<and> (\<forall>m j. fown s m j \<longrightarrow> fown s' m j)"
proof -
  let ?n = "BB s b"
  have "fvalid s 1" "1 \<notin> fhold s" "card (fhold s) + card (lused s) < NBUF" using assms(3,7) by (simp_all add: bitmap_ok_def)
  from readsb_law [OF assms(1) this] obtain s1 where s1: "readsb (lg_dev s) s = Inr (sbl s, s1)" "tinv D s1"
    "fview s1 = fview s" "fhold s1 = fhold s" "lused s1 = lused s" "fframe s1 = fframe s"
    "\<forall>m j. fown s m j \<longrightarrow> fown s1 m j" by blast
  note g = fframe_geom [OF s1(6)]
  have n: "fvalid s1 ?n" "?n \<notin> fhold s1" "card (fhold s1) + card (lused s1) < NBUF"
    using assms(3,4,7) s1(4,5) g by (simp_all add: bitmap_ok_def)
  from lb.rd [OF s1(2) n] obtain bp s2 where s2: "bread (lg_dev s1) ?n s1 = Inr (bp, s2)" "fview s2 = fview s1"
    "fown s2 ?n bp" "tinv D s2" by blast
  have used: "bit_used (bdata bp s2) (b mod BPB)"
    using lb.data [OF s2(4,3)] s2(2) s1(3) assms(5) by (simp add: bused_def)
  have "length (clear_bit (fview s1 ?n) (b mod BPB)) = BSIZE" using lb.data_length [OF s1(2) n(1)] by simp
  moreover have "lg_busy s1" "card (lused s1) < lcap s1" "Suc (card (fhold s1) + card (lused s1)) < NBUF"
    using assms s1(4,5) g by simp_all
  ultimately obtain s' where s': "lb.update (lg_dev s1) ?n (\<lambda>d. clear_bit d (b mod BPB)) s1 = Inr ((), s')" "tinv D s'"
    "fview s' = (fview s1)(?n := clear_bit (fview s1 ?n) (b mod BPB))" "fhold s' = fhold s1"
    "lused s' = insert ?n (lused s1)" "fframe s' = fframe s1" "\<forall>m j. fown s1 m j \<longrightarrow> fown s' m j"
    using lb.update_view [OF s1(2) n(1,2), of "\<lambda>d. clear_bit d (b mod BPB)"] by blast
  have "bfree (lg_dev s) b s = lb.update (lg_dev s1) ?n (\<lambda>d. clear_bit d (b mod BPB)) s1"
    using s1(1) s2(1) used g(1) by (simp add: bfree_def lb.update_def)
  with s' s1 show ?thesis by auto
qed

lemma bused_upd:
  assumes "fview s' = (fview s)(BB s r := d, r := x)" "\<not> bused s r" "\<forall>b < sb_size (sbl s). bused s (BB s b)" "bused s 1"
    and "b < sb_size (sbl s)"
  shows "sbl s' = sbl s" "bused s' b \<longleftrightarrow> bit_used (if BB s b = BB s r then d else fview s (BB s b)) (b mod BPB)"
proof -
  have "1 < BB s r" by (simp add: BBLOCK_def)
  then show sb: "sbl s' = sbl s" using assms(1,2,4) by (auto simp: sbl_def)
  have "BB s b \<noteq> r" using assms(2,3,5) by auto
  with sb assms(1) show "bused s' b \<longleftrightarrow> bit_used (if BB s b = BB s r then d else fview s (BB s b)) (b mod BPB)"
    by (simp add: bused_def)
qed

lemma bused_marked:
  assumes v: "fview s' = (fview s)(BB s r := mark_bit (fview s (BB s r)) (r mod BPB), r := x)"
    and r: "\<not> bused s r" and used: "\<forall>b < sb_size (sbl s). bused s (BB s b)" "bused s 1"
    and len: "length (fview s (BB s r)) = BSIZE" and b: "b < sb_size (sbl s)"
  shows "sbl s' = sbl s" "bused s' b \<longleftrightarrow> b = r \<or> bused s b"
proof -
  note u = bused_upd [OF v r used b]
  show "sbl s' = sbl s" by (rule u(1))
  show "bused s' b \<longleftrightarrow> b = r \<or> bused s b"
  proof (cases "BB s b = BB s r")
    case True
    then have "b div BPB = r div BPB" by (simp add: BBLOCK_def)
    then have "b mod BPB = r mod BPB \<longleftrightarrow> b = r" by (metis mult_div_mod_eq)
    then show ?thesis
      using u(2) True bit_used_mark [of "r mod BPB" "fview s (BB s r)" "b mod BPB"] len
      by (simp add: bused_def)
  next
    case False
    then show ?thesis using u(2) by (auto simp: bused_def)
  qed
qed

text \<open>
  C17 (functional): when the first free block of the bitmap is not a block of the log, \<open>balloc\<close>
  hands it out, marks exactly that block as used and zeroes it; every other block, the super block
  included, and the mark of every other block are unchanged. The other hypotheses say that a
  transaction is open with room for the two blocks it logs, that the super block and the bitmap can
  be read, that the bitmap marks them as used, and that the block has a 28 bit address and is not
  held. (\<open>balloc\<close> itself knows nothing of the log: it searches the bitmap up to the end of the
  disk, and the bitmap that \<open>mkfs\<close> writes has the blocks of the log as free.)
\<close>

theorem balloc_first_free:
  assumes "tinv D s" "lg_busy s" "bitmap_ok s" "card (insert (BB s r) (lused s)) < lcap s" "Suc (card (fhold s) + card (insert (BB s r) (lused s))) < NBUF"
    and "find (\<lambda>b. \<not> bused s b) [0..<sb_size (sbl s)] = Some r" "fvalid s r" "r \<notin> fhold s"
    and "\<forall>b < sb_size (sbl s). bused s (BB s b)" "bused s 1"
  shows "\<exists>s'. balloc (lg_dev s) s = Inr (r, s') \<and> tinv D s' \<and> sbl s' = sbl s
    \<and> (\<forall>b < sb_size (sbl s). bused s' b \<longleftrightarrow> b = r \<or> bused s b)
    \<and> fview s' r = replicate BSIZE 0 \<and> (\<forall>n. n \<noteq> r \<and> n \<noteq> BB s r \<longrightarrow> fview s' n = fview s n)
    \<and> fhold s' = fhold s \<and> lused s' = insert r (insert (BB s r) (lused s))"
proof -
  from balloc_law [OF assms(1-3,6-8,4,5)] obtain s' where s': "balloc (lg_dev s) s = Inr (r, s')" "tinv D s'"
    "fview s' = (fview s)(BB s r := mark_bit (fview s (BB s r)) (r mod BPB), r := replicate BSIZE 0)"
    "fhold s' = fhold s" "lused s' = insert r (insert (BB s r) (lused s))" by blast
  have r: "\<not> bused s r" "r < sb_size (sbl s)" using assms(6) by (auto dest: find_SomeD)
  have len: "length (fview s (BB s r)) = BSIZE"
    using lb.data_length [OF assms(1)] assms(3) r(2) by (auto simp: bitmap_ok_def)
  note u = bused_marked [OF s'(3) r(1) assms(9,10) len]
  show ?thesis using s' u(1) [OF r(2)] u(2) by auto
qed

subsection \<open>Inodes\<close>

text \<open>The log leaves the inode cache alone, and does not depend on it.\<close>

lemma fframe_fsD:
  fixes s :: "'a fs_st_scheme"
  assumes "fframe s' = fframe s"
  shows "icache s' = icache s" "devsw_read s' = devsw_read s" "devsw_write s' = devsw_write s"
    "fs_st.more s' = fs_st.more s"
  using fframe_geom(7) [OF assms] by (cases s; cases s'; simp)+

lemma log_fs_update:
  fixes s s' :: "'a log_st_scheme"
  assumes "log_st.truncate s' = log_st.truncate s"
  shows "tinv D s' = tinv D s" "fview s' = fview s" "fhold s' = fhold s" "fown s' = fown s" "lused s' = lused s"
    "lcap s' = lcap s" "fvalid s' = fvalid s" "sbl s' = sbl s" "bused s' = bused s"
proof -
  have f: "bio_st.truncate s' = bio_st.truncate s" "lg_start s' = lg_start s" "lg_size s' = lg_size s"
    "lg_dev s' = lg_dev s" "lh_n s' = lh_n s" "lh_sector s' = lh_sector s"
    using assms by (cases s; cases s'; simp add: bio_st.defs log_st.defs)+
  have "binv s' = binv s" "bval s' = bval s" "held s' = held s" "dirtied s' = dirtied s"
    "owner s' = owner s" "dcontent s' = dcontent s"
    using f(1) by (cases s; cases s'; simp add: bio_st.defs binv_def bval_def [abs_def] held_def dirtied_def
        owner_def [abs_def] ring_def dcontent_def cong: option.case_cong)+
  then show "tinv D s' = tinv D s" "fview s' = fview s" "fhold s' = fhold s" "fown s' = fown s" "lused s' = lused s"
    "lcap s' = lcap s" "fvalid s' = fvalid s" "sbl s' = sbl s" "bused s' = bused s"
    using f(2-) by (simp_all add: tinv_def linv_def lgeom_def lregion_def inlog_def secs_def fview_def [abs_def]
        hview_def fhold_def fown_def [abs_def] lused_def lcap_def fvalid_def [abs_def] sbl_def bused_def [abs_def]
        cong: if_cong)
qed

lemma log_of_fs_update [simp]:
  "log_st.truncate (icache_update f s) = log_st.truncate s"
  by (cases s; simp add: log_st.defs)

lemmas fs_update_simps [simp] = log_fs_update [OF log_of_fs_update]

text \<open>What the file system's operations leave alone: everything but the cache of inodes.\<close>

definition gframe :: "'a fs_st_scheme \<Rightarrow> nat \<times> nat \<times> int \<times> bool \<times> (nat \<Rightarrow> (nat \<Rightarrow> int \<times> byte list) option)
    \<times> (nat \<Rightarrow> (byte list \<Rightarrow> int) option) \<times> 'a" where
  "gframe s = (lg_dev s, lg_start s, lg_size s, lg_busy s, devsw_read s, devsw_write s, fs_st.more s)"

lemma gframe_fframe: "fframe s' = fframe s \<Longrightarrow> gframe s' = gframe s"
  using fframe_geom [of s' s] fframe_fsD [of s' s] by (simp add: gframe_def)

lemma gframe_icache [simp]: "gframe (icache_update f s) = gframe s"
  by (simp add: gframe_def)

lemma gframeD:
  assumes "gframe s' = gframe s"
  shows "lg_dev s' = lg_dev s" "lg_busy s' = lg_busy s" "fvalid s' = fvalid s" "lcap s' = lcap s"
    "devsw_read s' = devsw_read s" "devsw_write s' = devsw_write s" "fs_st.more s' = fs_st.more s"
  using assms by (simp_all add: gframe_def fvalid_def [abs_def] lregion_def lcap_def)

text \<open>The inodes on the disk.\<close>

definition islot :: "nat \<Rightarrow> nat" where
  "islot inum = inum mod IPB * 64"

definition dnode :: "'a log_st_scheme \<Rightarrow> nat \<Rightarrow> dinode" where
  "dnode s inum = get_dinode (fview s (IBLOCK inum)) (islot inum)"

lemma islot_le: "islot inum + 64 \<le> BSIZE"
proof -
  have "inum mod IPB \<le> 7" by simp
  then show ?thesis by (simp add: islot_def)
qed

lemma islot_disjoint: "IBLOCK i = IBLOCK j \<Longrightarrow> i \<noteq> j \<Longrightarrow> islot i + 64 \<le> islot j \<or> islot j + 64 \<le> islot i"
proof -
  assume "IBLOCK i = IBLOCK j" "i \<noteq> j"
  then have "i mod IPB \<noteq> j mod IPB" by (metis IBLOCK_def add_right_cancel mult_div_mod_eq)
  then show ?thesis by (auto simp: islot_def)
qed

lemma dnode_put:
  assumes "length (fview s (IBLOCK i)) = BSIZE" "dinode_ok v"
    and "fview s' = (fview s)(IBLOCK i := put_dinode (fview s (IBLOCK i)) (islot i) v)"
  shows "dnode s' = (dnode s)(i := v)"
proof
  fix j
  show "dnode s' j = ((dnode s)(i := v)) j"
  proof (cases "IBLOCK j = IBLOCK i")
    case True
    then show ?thesis
      using assms islot_le [of i] islot_le [of j] islot_disjoint [of j i]
      by (cases "j = i") (simp_all add: dnode_def get_put_dinode get_put_dinode_other)
  next
    case False
    then have "j \<noteq> i" by auto
    with False show ?thesis using assms(3) by (simp add: dnode_def)
  qed
qed

definition in_ok :: "'a fs_st_scheme \<Rightarrow> nat \<Rightarrow> bool" where
  "in_ok s ip \<longleftrightarrow> ip < NINODE \<and> length (icache s) = NINODE \<and> i_dev (ino s ip) = lg_dev s
     \<and> fvalid s (IBLOCK (i_inum (ino s ip))) \<and> IBLOCK (i_inum (ino s ip)) \<notin> fhold s"

lemma iupdate_law:
  assumes "tinv D s" "lg_busy s" "in_ok s ip" "dinode_ok (i_copy (ino s ip))"
    and "card (lused s) < lcap s" "Suc (card (fhold s) + card (lused s)) < NBUF"
  shows "\<exists>s'. iupdate ip s = Inr ((), s') \<and> tinv D s'
    \<and> fview s' = (fview s)(IBLOCK (i_inum (ino s ip)) :=
          put_dinode (fview s (IBLOCK (i_inum (ino s ip)))) (islot (i_inum (ino s ip))) (i_copy (ino s ip)))
    \<and> fhold s' = fhold s \<and> lused s' = insert (IBLOCK (i_inum (ino s ip))) (lused s) \<and> fframe s' = fframe s
    \<and> (\<forall>m j. fown s m j \<longrightarrow> fown s' m j)"
proof -
  let ?n = "IBLOCK (i_inum (ino s ip))" and ?k = "islot (i_inum (ino s ip))"
  have n: "fvalid s ?n" "?n \<notin> fhold s" using assms(3) by (simp_all add: in_ok_def)
  have "length (put_dinode (fview s ?n) ?k (i_copy (ino s ip))) = BSIZE"
    using lb.data_length [OF assms(1) n(1)] islot_le assms(4) by simp
  moreover have "iupdate ip s = lb.update (lg_dev s) ?n (\<lambda>d. put_dinode d ?k (i_copy (ino s ip))) s"
    using assms(3) by (simp add: iupdate_def lb.update_def Let_def in_ok_def islot_def)
  ultimately show ?thesis
    using lb.update_view [OF assms(1) n assms(2,5,6), of "\<lambda>d. put_dinode d ?k (i_copy (ino s ip))"] by simp
qed

lemma ilock_law:
  assumes "tinv D s" "in_ok s ip" "i_ref (ino s ip) \<ge> 1" "\<not> i_busy (ino s ip)" "card (fhold s) + card (lused s) < NBUF"
    and "\<not> i_valid (ino s ip) \<Longrightarrow> di_type (dnode s (i_inum (ino s ip))) \<noteq> 0"
  shows "\<exists>s'. ilock ip s = Inr ((), s') \<and> tinv D s' \<and> fview s' = fview s \<and> fhold s' = fhold s \<and> lused s' = lused s
    \<and> gframe s' = gframe s
    \<and> icache s' = (icache s)[ip := (ino s ip)\<lparr>i_busy := True,
         i_copy := if i_valid (ino s ip) then i_copy (ino s ip) else dnode s (i_inum (ino s ip)), i_valid := True\<rparr>]"
proof (cases "i_valid (ino s ip)")
  case True
  then have same: "(ino s ip)\<lparr>i_busy := True, i_valid := True\<rparr> = (ino s ip)\<lparr>i_busy := True\<rparr>"
    by (cases "ino s ip") simp
  show ?thesis
    using assms True by (simp add: ilock_def Let_def upd_ino_def in_ok_def ret_def same)
next
  case False
  let ?n = "IBLOCK (i_inum (ino s ip))" and ?x = "ino s ip"
  define s1 where "s1 = s\<lparr>icache := (icache s)[ip := ?x\<lparr>i_busy := True\<rparr>]\<rparr>"
  have n: "tinv D s1" "fvalid s1 ?n" "?n \<notin> fhold s1" "card (fhold s1) + card (lused s1) < NBUF" "lg_dev s1 = i_dev ?x"
    using assms(1,2,5) by (simp_all add: in_ok_def s1_def)
  from lb.rd [OF n(1-4)] n(5) obtain bp s2 where s2: "bread (i_dev ?x) ?n s1 = Inr (bp, s2)" "tinv D s2" "fown s2 ?n bp"
    "fview s2 = fview s1" "fhold s2 = insert ?n (fhold s1)" "lused s2 = lused s1" "fframe s2 = fframe s1" by auto
  define s3 where "s3 = s2\<lparr>icache := (icache s2)[ip := (icache s2 ! ip)\<lparr>i_copy := dnode s (i_inum ?x)\<rparr>]\<rparr>"
  have "tinv D s3" "fown s3 ?n bp" using s2 by (simp_all add: s3_def)
  from lb.rel [OF this] obtain s4 where s4: "brelse bp s3 = Inr ((), s4)" "tinv D s4" "fview s4 = fview s3"
    "fhold s4 = fhold s3 - {?n}" "lused s4 = lused s3" "fframe s4 = fframe s3" by blast
  have dat: "get_dinode (bdata bp s2) (i_inum ?x mod IPB * 64) = dnode s (i_inum ?x)"
    using lb.data [OF s2(2,3)] s2(4) by (simp add: dnode_def islot_def s1_def)
  have ic: "icache s4 = (icache s)[ip := ?x\<lparr>i_busy := True, i_copy := dnode s (i_inum ?x)\<rparr>]"
    using fframe_fsD(1) [OF s2(7)] fframe_fsD(1) [OF s4(6)] assms(2) by (simp add: s3_def s1_def in_ok_def)
  let ?s' = "s4\<lparr>icache := (icache s4)[ip := (icache s4 ! ip)\<lparr>i_valid := True\<rparr>]\<rparr>"
  have "ilock ip s = Inr ((), ?s')"
    using assms False s2(1) s4(1) ic dat
    by (simp add: ilock_def Let_def upd_ino_def in_ok_def s1_def s3_def)
  moreover have "icache ?s' = (icache s)[ip := ?x\<lparr>i_busy := True, i_copy := dnode s (i_inum ?x), i_valid := True\<rparr>]"
    using ic assms(2) by (simp add: in_ok_def)
  moreover have "gframe s4 = gframe s"
    using gframe_fframe [OF s4(6)] gframe_fframe [OF s2(7)] by (simp add: s3_def s1_def)
  ultimately show ?thesis
    using s4 s2 n(3) False by (intro exI [of _ ?s']) (simp add: s3_def s1_def)
qed

text \<open>
  A disk with a file system: the super block above, blocks 2 to 5 for 24 inodes, the bitmap in
  block 6 with the first twelve blocks used, data blocks from 7 on. The inode 1 is the root
  directory, whose content is in block 7: the entries \<open>.\<close>, \<open>..\<close> and \<open>a\<close>; the
  inode 2 is the file \<open>a\<close> of 600 bytes in the blocks 8 and 9.
\<close>

definition root_dinode :: dinode where
  "root_dinode = \<lparr>di_type = T_DIR, di_major = 0, di_minor = 0, di_nlink = 1, di_size = 48,
     di_addrs = 7 # replicate 12 0\<rparr>"

definition file_dinode :: dinode where
  "file_dinode = \<lparr>di_type = T_FILE, di_major = 0, di_minor = 0, di_nlink = 1, di_size = 600,
     di_addrs = [8, 9] @ replicate 11 0\<rparr>"

definition dirent0 :: "nat \<Rightarrow> byte list \<Rightarrow> byte list" where
  "dirent0 inum nm = bytes16 inum @ nm @ replicate (14 - length nm) 0"

definition img0 :: "nat \<Rightarrow> byte list" where
  "img0 n =
     (if n = 1 then sblock0
      else if n = 2 then put_dinode (put_dinode (replicate BSIZE 0) 64 root_dinode) 128 file_dinode
      else if n = 6 then [0xff, 0x0f] @ replicate 510 0
      else if n = 7 then overwrite (replicate BSIZE 0) 0 (dirent0 1 [0x2e] @ dirent0 1 [0x2e, 0x2e] @ dirent0 2 [0x61])
      else if n = 8 then replicate BSIZE 0x68
      else if n = 9 then replicate BSIZE 0x69
      else replicate BSIZE 0)"

definition fs0 :: fs_st where
  "fs0 = \<lparr>bufs = bufs bio0, bnext = bnext bio0, bprev = bprev bio0, idequeue = [], havedisk1 = True,
     ide_err = False, dcur = (0, 0), dbusy = False, dbase = (\<lambda>a. img0 (snd a)), dwrites = [],
     lg_start = 0, lg_size = 0, lg_busy = False, lg_dev = 0, lh_n = 0, lh_sector = replicate LOGSIZE 0,
     icache = replicate NINODE \<lparr>i_dev = 0, i_inum = 0, i_ref = 0, i_busy = False, i_valid = False,
       i_copy = \<lparr>di_type = 0, di_major = 0, di_minor = 0, di_nlink = 0, di_size = 0, di_addrs = replicate 13 0\<rparr>\<rparr>,
     devsw_read = (\<lambda>_. None), devsw_write = (\<lambda>_. None)\<rparr>"

lemma dinode_ok_img0 [simp]: "dinode_ok root_dinode" "dinode_ok file_dinode"
  by (auto simp: dinode_ok_def root_dinode_def file_dinode_def)

lemma length_sblock0 [simp]: "length sblock0 = BSIZE"
  by (simp add: sblock0_def)

lemma length_dirent0 [simp]: "length nm \<le> 14 \<Longrightarrow> length (dirent0 inum nm) = 16"
  by (simp add: dirent0_def)

lemma length_img0 [simp]: "length (img0 n) = BSIZE"
  by (simp add: img0_def)

text \<open>The machine after the boot with that disk, with a transaction open.\<close>

lemma fs0_boot:
  "\<exists>(s :: fs_st) D. tinv D s \<and> lg_busy s \<and> lg_dev s = ROOTDEV \<and> fhold s = {} \<and> lused s = {} \<and> lcap s = 9
    \<and> lregion s = {90..<100} \<and> (\<forall>n. n \<notin> {90..<100} \<longrightarrow> fview s n = img0 n) \<and> icache s = icache fs0"
proof -
  have "bss fs0" "length (lh_sector fs0) = LOGSIZE" "dcontent fs0 (ROOTDEV, 1) = sblock0"
    "dcontent fs0 (1, 90) = replicate BSIZE 0"
    by (simp_all add: bss_def fs0_def bio0_def dcontent_def) (simp_all add: img0_def)
  from image_boot [OF this] obtain s where s: "initlog (binit fs0) = Inr ((), s)" "linv (dcontent s) s" "lh_n s = 0"
    "held s = {}" "lg_dev s = ROOTDEV" "lg_start s = 90" "lg_size s = 10"
    "\<forall>n. n \<notin> {90..<100} \<longrightarrow> dcontent s (ROOTDEV, n) = dcontent fs0 (ROOTDEV, n)" by blast
  note v = boot_view [OF s(2,3,4,7), unfolded s(6)]
  let ?s = "s\<lparr>lg_busy := True, icache := icache fs0\<rparr>"
  have "linv (dcontent s) (s\<lparr>lg_busy := True\<rparr>)"
    using s(2) unfolding linv_def secs_def by (simp add: lgeom_def lregion_def inlog_def)
  then have "tinv (dcontent s) (s\<lparr>lg_busy := True\<rparr>)" using s(4) by (simp add: tinv_def)
  then have "tinv (dcontent s) ?s" by simp
  moreover have "fview ?s n = img0 n" if "n \<notin> {90..<100}" for n
  proof -
    have "fview ?s n = fview s n" by (simp add: fview_def hview_def inlog_def lregion_def)
    also have "\<dots> = dcontent fs0 (ROOTDEV, n)" using v(6) [of n] s(5,8) that by simp
    finally show ?thesis by (simp add: dcontent_def fs0_def)
  qed
  moreover have "fhold (s\<lparr>lg_busy := True\<rparr>) = {}" "lused (s\<lparr>lg_busy := True\<rparr>) = {}" "lcap (s\<lparr>lg_busy := True\<rparr>) = 9"
    using v(2-4) by (simp_all add: fhold_def lused_def secs_def lcap_def)
  moreover have "lregion ?s = {90..<100}" using v(5) by (simp add: lregion_def)
  ultimately show ?thesis using s(5) by (intro exI [of _ ?s] exI [of _ "dcontent s"]) simp
qed

lemma fs0_bitmap:
  fixes s :: fs_st
  assumes "\<forall>n. n \<notin> {90..<100} \<longrightarrow> fview s n = img0 n" "lregion s = {90..<100}" "fhold s = {}"
  shows "sbl s = \<lparr>sb_size = 100, sb_nblocks = 60, sb_ninodes = 24, sb_nlog = 10\<rparr>" "b < 100 \<Longrightarrow> BB s b = 6"
    "bitmap_ok s" "find (\<lambda>b. \<not> bused s b) [0..<100] = Some 12" "b < 16 \<Longrightarrow> bused s b \<longleftrightarrow> b < 12"
proof -
  show sb: "sbl s = \<lparr>sb_size = 100, sb_nblocks = 60, sb_ninodes = 24, sb_nlog = 10\<rparr>"
    using assms(1) by (simp add: sbl_def img0_def get_sblock0)
  then show BB: "BB s b = 6" if "b < 100" for b using that by (simp add: BBLOCK_def)
  show "bitmap_ok s" using assms(2,3) sb BB by (simp add: bitmap_ok_def fvalid_def)
  have m: "fview s 6 = [0xff, 0x0f] @ replicate 510 0" using assms(1) by (simp add: img0_def)
  have "bused s b \<longleftrightarrow> b < 12" if "b < 16" for b
  proof -
    have "bused s b \<longleftrightarrow> bit (([0xff, 0x0f :: byte] @ replicate 510 0) ! (b div 8)) (b mod 8)"
      using that BB [of b] m by (simp add: bused_def bit_used_iff)
    moreover have "b \<in> set [0..<16]" using that by simp
    ultimately show ?thesis by (auto simp: upt_rec)
  qed
  note u = this
  show "bused s b \<longleftrightarrow> b < 12" if "b < 16" for b using u that .
  have "[0..<100] = [0..<12] @ 12 # [13..<100]" by (simp add: upt_rec)
  moreover have "find (\<lambda>b. \<not> bused s b) [0..<12] = None" using u by (auto simp: find_None_iff)
  ultimately show "find (\<lambda>b. \<not> bused s b) [0..<100] = Some 12"
    using u [of 12] by (simp only: find_append) simp
qed

theorem balloc_first_free_witness:
  "\<exists>(s :: fs_st) s'. bused s 11 \<and> \<not> bused s 12 \<and> balloc ROOTDEV s = Inr (12, s') \<and> bused s' 12"
proof -
  from fs0_boot obtain s :: fs_st and D where s: "tinv D s" "lg_busy s" "lg_dev s = ROOTDEV" "fhold s = {}"
    "lused s = {}" "lcap s = 9" "lregion s = {90..<100}" "\<forall>n. n \<notin> {90..<100} \<longrightarrow> fview s n = img0 n" by blast
  note b = fs0_bitmap [OF s(8,7,4)]
  have "\<forall>b < sb_size (sbl s). bused s (BB s b)" "bused s 1" using b(1,2,5) by auto
  moreover have "\<not> bused s 12" using find_SomeD [OF b(4)] by simp
  ultimately obtain s' where "balloc (lg_dev s) s = Inr (12, s')" "\<forall>b < 100. bused s' b \<longleftrightarrow> b = 12 \<or> bused s b"
    using balloc_first_free [OF s(1,2) b(3), of 12] s(3-7) b by (auto simp: fvalid_def)
  with \<open>\<not> bused s 12\<close> s(3) b(5) [of 11] show ?thesis
    by (intro exI [of _ s] exI [of _ s']) simp
qed

end
