(* ===== verification/Dir.thy ===== *)
theory Dir
  imports Fs CString
begin

text \<open>
  Directories and path names (\<open>fs.c\<close>). A directory's content is a sequence of 16 byte
  entries: a little-endian inode number, zero for a free entry, and a name of up to 14 bytes
  padded with zeroes. A path is the memory from its first byte on; \<open>skipelem\<close> gives the rest
  of it, reading past its end is a fault. The current directory of the calling process is an
  argument.
\<close>

subsection \<open>Directories\<close>

abbreviation DIRSIZ :: nat where "DIRSIZ \<equiv> 14"
abbreviation ROOTDEV :: nat where "ROOTDEV \<equiv> 1"

definition namecmp :: "byte list \<Rightarrow> byte list \<Rightarrow> int option" where
  "namecmp s t = strncmp s t DIRSIZ"

text \<open>The loop of \<open>dirlookup\<close>; \<open>off\<close> is a \<open>uint\<close>.\<close>

function dirlookup_loop :: "nat \<Rightarrow> byte list \<Rightarrow> nat \<Rightarrow> ('a fs_st_scheme, (nat \<times> nat) option) kern" where
  "dirlookup_loop dp name off =
     kbind (gets (\<lambda>s. di_size (i_copy (ino s dp)))) (\<lambda>sz.
     if off < sz \<and> off < 2 ^ 32 then
       kbind (readi dp off 16) (\<lambda>(r, de).
       if r \<noteq> 16 then panic ''dirlink read''
       else if get16 de 0 = 0 then dirlookup_loop dp name (off + 16)
       else
         kbind (lift_opt (namecmp name (drop 2 de))) (\<lambda>c.
         if c = 0 then
           kbind (gets (\<lambda>s. i_dev (ino s dp))) (\<lambda>dev.
           kbind (iget dev (get16 de 0)) (\<lambda>ip. ret (Some (ip, off))))
         else dirlookup_loop dp name (off + 16)))
     else ret None)"
  by auto
termination by (relation "measure (\<lambda>(dp, name, off). 2 ^ 32 - off)") auto

definition dirlookup :: "nat \<Rightarrow> byte list \<Rightarrow> ('a fs_st_scheme, (nat \<times> nat) option) kern" where
  "dirlookup dp name s =
     (if di_type (i_copy (ino s dp)) \<noteq> T_DIR then Inl (Panic ''dirlookup not DIR'')
      else dirlookup_loop dp name 0 s)"

function dirlink_slot :: "nat \<Rightarrow> nat \<Rightarrow> ('a fs_st_scheme, nat) kern" where
  "dirlink_slot dp off =
     kbind (gets (\<lambda>s. di_size (i_copy (ino s dp)))) (\<lambda>sz.
     if off < sz \<and> off < 2 ^ 32 then
       kbind (readi dp off 16) (\<lambda>(r, de).
       if r \<noteq> 16 then panic ''dirlink read''
       else if get16 de 0 = 0 then ret off
       else dirlink_slot dp (off + 16))
     else ret off)"
  by auto
termination by (relation "measure (\<lambda>(dp, off). 2 ^ 32 - off)") auto

text \<open>\<open>strncpy\<close> sets all bytes of the name, so what was in \<open>de\<close> before does not matter.\<close>

definition dirlink :: "nat \<Rightarrow> byte list \<Rightarrow> nat \<Rightarrow> ('a fs_st_scheme, int) kern" where
  "dirlink dp name inum =
     kbind (dirlookup dp name) (\<lambda>r.
     case r of
       Some (ip, off) \<Rightarrow> kbind (iput ip) (\<lambda>_. ret (-1))
     | None \<Rightarrow>
         kbind (dirlink_slot dp 0) (\<lambda>off.
         kbind (lift_opt (strncpy (replicate DIRSIZ 0) name DIRSIZ)) (\<lambda>nm.
         kbind (writei dp (bytes16 (inum mod 2 ^ 16) @ nm) off) (\<lambda>r.
         if r \<noteq> 16 then panic ''dirlink'' else ret 0))))"

subsection \<open>Paths\<close>

fun skip_slashes :: "byte list \<Rightarrow> byte list option" where
  "skip_slashes [] = None"
| "skip_slashes (c # p) = (if c = 47 then skip_slashes p else Some (c # p))"

text \<open>The bytes up to the next slash or the terminator, and the path from there on.\<close>

fun take_elem :: "byte list \<Rightarrow> (byte list \<times> byte list) option" where
  "take_elem [] = None"
| "take_elem (c # p) =
     (if c \<noteq> 47 \<and> c \<noteq> 0 then map_option (\<lambda>(e, r). (c # e, r)) (take_elem p) else Some ([], c # p))"

definition skipelem :: "byte list \<Rightarrow> byte list \<Rightarrow> (byte list \<times> byte list) option option" where
  "skipelem path name =
     Option.bind (skip_slashes path) (\<lambda>s.
     if hd s = 0 then Some None
     else
       Option.bind (take_elem s) (\<lambda>(e, p).
       let name' = (if length e \<ge> DIRSIZ then overwrite name 0 (take DIRSIZ e)
                    else overwrite name 0 (e @ [0])) in
       map_option (\<lambda>p'. Some (p', name')) (skip_slashes p)))"

lemma skip_slashes_length: "skip_slashes p = Some q \<Longrightarrow> length q \<le> length p"
  by (induction p) (auto split: if_splits)

lemma take_elem_length: "take_elem p = Some (e, q) \<Longrightarrow> length e + length q = length p"
  by (induction p arbitrary: e q) (auto split: if_splits)

lemma skip_slashes_hd: "skip_slashes p = Some q \<Longrightarrow> q \<noteq> [] \<and> hd q \<noteq> 47"
  by (induction p) (auto split: if_splits)

lemma skipelem_length:
  assumes "skipelem p n = Some (Some (p', n'))"
  shows "length p' < length p"
proof -
  obtain s e q where s: "skip_slashes p = Some s" "hd s \<noteq> 0" "take_elem s = Some (e, q)" "skip_slashes q = Some p'"
    using assms by (auto simp: skipelem_def Let_def bind_eq_Some_conv split: if_splits prod.splits)
  have "e \<noteq> []" using s(2,3) skip_slashes_hd [OF s(1)] by (cases s) auto
  with skip_slashes_length [OF s(1)] take_elem_length [OF s(3)] skip_slashes_length [OF s(4)]
  show ?thesis by (cases e) auto
qed

function namex_loop :: "nat \<Rightarrow> byte list \<Rightarrow> bool \<Rightarrow> byte list
    \<Rightarrow> ('a fs_st_scheme, (nat \<times> byte list) option) kern" where
  "namex_loop ip path nameiparent name =
     (case skipelem path name of
        None \<Rightarrow> (\<lambda>s. Inl Fault)
      | Some None \<Rightarrow>
          if nameiparent then kbind (iput ip) (\<lambda>_. ret None) else ret (Some (ip, name))
      | Some (Some (path', name')) \<Rightarrow>
          kbind (ilock ip) (\<lambda>_.
          kbind (gets (\<lambda>s. di_type (i_copy (ino s ip)))) (\<lambda>ty.
          if ty \<noteq> T_DIR then kbind (iunlockput ip) (\<lambda>_. ret None)
          else if nameiparent \<and> hd path' = 0 then kbind (iunlock ip) (\<lambda>_. ret (Some (ip, name')))
          else
            kbind (dirlookup ip name') (\<lambda>r.
            case r of
              None \<Rightarrow> kbind (iunlockput ip) (\<lambda>_. ret None)
            | Some (nxt, _) \<Rightarrow> kbind (iunlockput ip) (\<lambda>_. namex_loop nxt path' nameiparent name')))))"
  by auto
termination by (relation "measure (\<lambda>(ip, path, par, name). length path)") (auto dest: skipelem_length)

declare dirlookup_loop.simps [simp del] dirlink_slot.simps [simp del] namex_loop.simps [simp del]

definition namex :: "nat \<Rightarrow> byte list \<Rightarrow> bool \<Rightarrow> byte list \<Rightarrow> ('a fs_st_scheme, (nat \<times> byte list) option) kern" where
  "namex cwd path nameiparent name =
     (if path = [] then (\<lambda>s. Inl Fault)
      else
        kbind (if hd path = 47 then iget ROOTDEV ROOTINO else idup cwd) (\<lambda>ip.
        namex_loop ip path nameiparent name))"

definition namei :: "nat \<Rightarrow> byte list \<Rightarrow> ('a fs_st_scheme, nat option) kern" where
  "namei cwd path = kbind (namex cwd path False (replicate DIRSIZ 0)) (\<lambda>r. ret (map_option fst r))"

definition nameiparent :: "nat \<Rightarrow> byte list \<Rightarrow> byte list \<Rightarrow> ('a fs_st_scheme, (nat \<times> byte list) option) kern" where
  "nameiparent cwd path name = namex cwd path True name"

subsection \<open>The elements of a path\<close>

text \<open>The elements of a path name: what stands between slashes, without the empty ones.\<close>

fun split_slash :: "byte list \<Rightarrow> byte list list" where
  "split_slash [] = [[]]"
| "split_slash (c # s) =
     (if c = 47 then [] # split_slash s else (c # hd (split_slash s)) # tl (split_slash s))"

definition elems :: "byte list \<Rightarrow> byte list list" where
  "elems s = filter (\<lambda>e. e \<noteq> []) (split_slash s)"

lemma elems_slash: "elems s = elems (dropWhile ((=) 47) s)"
  by (induction s) (auto simp: elems_def)

lemma split_slash_eq:
  "split_slash s = takeWhile (\<lambda>c. c \<noteq> 47) s
     # (case dropWhile (\<lambda>c. c \<noteq> 47) s of [] \<Rightarrow> [] | c # r \<Rightarrow> split_slash r)"
  by (induction s) auto

lemma elems_first:
  assumes "s \<noteq> []" "hd s \<noteq> 47"
  shows "elems s = takeWhile (\<lambda>c. c \<noteq> 47) s # elems (dropWhile (\<lambda>c. c \<noteq> 47) s)"
proof -
  have "takeWhile (\<lambda>c. c \<noteq> 47) s \<noteq> []" using assms by (cases s) auto
  moreover have "elems (dropWhile (\<lambda>c. c \<noteq> 47) s)
      = filter (\<lambda>e. e \<noteq> []) (case dropWhile (\<lambda>c. c \<noteq> 47) s of [] \<Rightarrow> [] | c # r \<Rightarrow> split_slash r)"
    using hd_dropWhile [of "\<lambda>c. c \<noteq> 47" s]
    by (cases "dropWhile (\<lambda>c. c \<noteq> 47) s") (auto simp: elems_def simp del: dropWhile_eq_Nil_conv)
  ultimately show ?thesis by (subst elems_def, subst split_slash_eq) simp
qed

lemma elems_Nil [simp]: "elems [] = []"
  by (simp add: elems_def)

lemma skip_slashes_cstr: "cstr p s \<Longrightarrow> \<exists>q. skip_slashes p = Some q \<and> cstr q (dropWhile ((=) 47) s)"
  by (induction p arbitrary: s) (auto split: if_splits)

lemma take_elem_cstr:
  "cstr p s \<Longrightarrow> \<exists>q. take_elem p = Some (takeWhile (\<lambda>c. c \<noteq> 47) s, q) \<and> cstr q (dropWhile (\<lambda>c. c \<noteq> 47) s)"
  by (induction p arbitrary: s) (fastforce split: if_splits)+

lemma cstr_hd: "cstr p s \<Longrightarrow> p \<noteq> [] \<and> (hd p = 0 \<longleftrightarrow> s = []) \<and> (s \<noteq> [] \<longrightarrow> hd p = hd s)"
  by (cases p; cases s) (auto simp: cstr_def split: if_splits)

lemma cname_overwrite_name:
  assumes "DIRSIZ \<le> length name" "0 \<notin> set e"
  shows "cname DIRSIZ (if length e \<ge> DIRSIZ then overwrite name 0 (take DIRSIZ e) else overwrite name 0 (e @ [0]))
    = take DIRSIZ e"
proof (cases "length e \<ge> DIRSIZ")
  case True
  then have "\<forall>c \<in> set (take DIRSIZ e). c \<noteq> 0" using assms(2) by (auto dest: in_set_takeD)
  with True show ?thesis by (simp add: cname_def overwrite_def takeWhile_eq_all_conv)
next
  case False
  then have "take DIRSIZ (overwrite name 0 (e @ [0])) = e @ 0 # take (13 - length e) (drop (Suc (length e)) name)"
    by (simp add: overwrite_def take_Cons' )
  moreover have "takeWhile (\<lambda>c. c \<noteq> 0) (e @ 0 # r) = e" for r using assms(2) by (induction e) auto
  ultimately show ?thesis using False by (simp add: cname_def)
qed

text \<open>
  \<open>skipelem\<close> takes the elements off a path one by one. On a terminated path
  without elements it returns 0; otherwise it stores the first element, cut to \<open>DIRSIZ\<close> bytes,
  in the name buffer and returns the path of the remaining ones, which has no leading slash and is
  empty exactly when none remain. It never reads past the terminator.
\<close>

lemma skipelem_elems:
  assumes "cstr path s" "length name = DIRSIZ"
  shows "if elems s = [] then skipelem path name = Some None
    else \<exists>path' s' name'. skipelem path name = Some (Some (path', name')) \<and> cstr path' s' \<and> length name' = DIRSIZ
      \<and> cname DIRSIZ name' = take DIRSIZ (hd (elems s)) \<and> elems s' = tl (elems s)
      \<and> hd path' \<noteq> 47 \<and> (hd path' = 0 \<longleftrightarrow> tl (elems s) = [])"
proof -
  obtain q where q: "skip_slashes path = Some q" "cstr q (dropWhile ((=) 47) s)"
    using skip_slashes_cstr [OF assms(1)] by blast
  let ?t = "dropWhile ((=) 47) s"
  have t: "?t \<noteq> [] \<Longrightarrow> hd ?t \<noteq> 47" using hd_dropWhile [of "(=) 47" s] by auto
  show ?thesis
  proof (cases "?t = []")
    case True
    then have "elems s = []" by (subst elems_slash) (simp only: elems_Nil)
    with True q show ?thesis using cstr_hd [OF q(2)] by (simp add: skipelem_def)
  next
    case False
    let ?e = "takeWhile (\<lambda>c. c \<noteq> 47) ?t" and ?r = "dropWhile (\<lambda>c. c \<noteq> 47) ?t"
    have es: "elems s = ?e # elems ?r" using elems_slash [of s] elems_first [OF False t [OF False]] by simp
    obtain u where u: "take_elem q = Some (?e, u)" "cstr u ?r" using take_elem_cstr [OF q(2)] by blast
    obtain v where v: "skip_slashes u = Some v" "cstr v (dropWhile ((=) 47) ?r)"
      using skip_slashes_cstr [OF u(2)] by blast
    have "0 \<notin> set s" using assms(1) by (simp add: cstr_def)
    then have nz: "0 \<notin> set ?e" by (auto dest: set_takeWhileD set_dropWhileD)
    have emp: "elems x = [] \<longleftrightarrow> dropWhile ((=) 47) x = []" for x
      using elems_slash [of x] elems_first [of "dropWhile ((=) 47) x"] hd_dropWhile [of "(=) 47" x]
      by (cases "dropWhile ((=) 47) x = []") auto
    let ?n = "if length ?e \<ge> DIRSIZ then overwrite name 0 (take DIRSIZ ?e) else overwrite name 0 (?e @ [0])"
    have "skipelem path name = Some (Some (v, ?n))"
      using q(1) u(1) v(1) conjunct1 [OF conjunct2 [OF cstr_hd [OF q(2)]]] False
      by (simp add: skipelem_def Let_def del: dropWhile_eq_Nil_conv)
    moreover have "length ?n = DIRSIZ" using assms(2) by simp
    moreover have "cname DIRSIZ ?n = take DIRSIZ ?e"
      using assms(2) nz by (intro cname_overwrite_name) simp_all
    moreover have "hd v \<noteq> 47" using skip_slashes_hd [OF v(1)] by simp
    moreover have "hd v = 0 \<longleftrightarrow> elems ?r = []" using cstr_hd [OF v(2)] emp [of ?r] by simp
    ultimately show ?thesis using es v(2) elems_slash [of ?r] by auto
  qed
qed

end
