(* ===== verification/Mmu.thy ===== *)
theory Mmu
  imports Prelude
begin

text \<open>
  The x86 address arithmetic of \<open>mmu.h\<close> and \<open>memlayout.h\<close>: addresses and page table
  entries are 32 bit words, and all arithmetic on them wraps around as it does in the code. The
  lemmas read the bit operations as arithmetic on the numbers the words stand for.
\<close>

subsection \<open>Constants and macros\<close>

abbreviation PGSIZE :: u32 where "PGSIZE \<equiv> 4096"
abbreviation EXTMEM :: u32 where "EXTMEM \<equiv> 0x100000"
abbreviation PHYSTOP :: u32 where "PHYSTOP \<equiv> 0xE000000"
abbreviation DEVSPACE :: u32 where "DEVSPACE \<equiv> 0xFE000000"
abbreviation KERNBASE :: u32 where "KERNBASE \<equiv> 0x80000000"
abbreviation KERNLINK :: u32 where "KERNLINK \<equiv> 0x80100000"
abbreviation PTE_P :: u32 where "PTE_P \<equiv> 1"
abbreviation PTE_W :: u32 where "PTE_W \<equiv> 2"
abbreviation PTE_U :: u32 where "PTE_U \<equiv> 4"

definition v2p :: "u32 \<Rightarrow> u32" where
  "v2p a = a - KERNBASE"

definition p2v :: "u32 \<Rightarrow> u32" where
  "p2v a = a + KERNBASE"

definition PDX :: "u32 \<Rightarrow> nat" where
  "PDX va = unat (drop_bit 22 va AND 0x3FF)"

definition PTX :: "u32 \<Rightarrow> nat" where
  "PTX va = unat (drop_bit 12 va AND 0x3FF)"

definition PGADDR :: "u32 \<Rightarrow> u32 \<Rightarrow> u32 \<Rightarrow> u32" where
  "PGADDR d t ofs = push_bit 22 d OR push_bit 12 t OR ofs"

definition PGROUNDUP :: "u32 \<Rightarrow> u32" where
  "PGROUNDUP sz = (sz + PGSIZE - 1) AND NOT (PGSIZE - 1)"

definition PGROUNDDOWN :: "u32 \<Rightarrow> u32" where
  "PGROUNDDOWN a = a AND NOT (PGSIZE - 1)"

definition PTE_ADDR :: "u32 \<Rightarrow> u32" where
  "PTE_ADDR pte = pte AND NOT 0xFFF"

subsection \<open>Arithmetic reading\<close>

lemma and_not_mask: "(a :: u32) AND NOT (mask n) = push_bit n (drop_bit n a)"
  by (rule bit_word_eqI) (auto simp: bit_simps)

lemma mask_12: "(4095 :: u32) = mask 12"
  by (simp add: mask_eq_exp_minus_1)

lemma mask_10: "(1023 :: u32) = mask 10"
  by (simp add: mask_eq_exp_minus_1)

lemma unat_and_not_mask: "unat ((a :: u32) AND NOT (mask n)) = unat a div 2 ^ n * 2 ^ n"
proof -
  have "unat a div 2 ^ n * 2 ^ n \<le> unat a" by (simp add: div_times_less_eq_dividend)
  then have "unat a div 2 ^ n * 2 ^ n < 2 ^ 32" using unat_u32_less [of a] by linarith
  then show ?thesis
    unfolding and_not_mask unsigned_push_bit_eq unsigned_drop_bit_eq
    using unat_u32_less [of a] by (simp add: push_bit_eq_mult drop_bit_eq_div take_bit_eq_mod)
qed

lemma unat_PGROUNDDOWN: "unat (PGROUNDDOWN a) = unat a div 4096 * 4096"
  using unat_and_not_mask [of a 12] by (simp add: PGROUNDDOWN_def mask_12)

lemma unat_PTE_ADDR: "unat (PTE_ADDR a) = unat a div 4096 * 4096"
  using unat_and_not_mask [of a 12] by (simp add: PTE_ADDR_def mask_12)

lemma PGROUNDUP_eq: "PGROUNDUP a = PGROUNDDOWN (a + 4095)"
  by (simp add: PGROUNDUP_def PGROUNDDOWN_def add.commute)

lemma unat_PGROUNDUP: "unat a + 4095 < 2 ^ 32 \<Longrightarrow> unat (PGROUNDUP a) = (unat a + 4095) div 4096 * 4096"
  by (simp add: PGROUNDUP_eq unat_PGROUNDDOWN unat_add_lem [THEN iffD1])

lemma unat_low_bits: "unat ((a :: u32) AND mask n) = unat a mod 2 ^ n"
proof -
  have "unat (take_bit n a) = take_bit n (unat a)" by (simp add: unsigned_take_bit_eq)
  then show ?thesis by (simp only: take_bit_eq_mask [symmetric]) (simp add: take_bit_eq_mod)
qed

lemma PDX_eq: "PDX va = unat va div 2 ^ 22"
proof -
  have "unat va div 2 ^ 22 < 2 ^ 10" using unat_u32_less [of va] by (simp add: less_mult_imp_div_less)
  then show ?thesis by (simp add: PDX_def mask_10 unat_low_bits unat_div drop_bit_eq_div)
qed

lemma PTX_eq: "PTX va = unat va div 2 ^ 12 mod 2 ^ 10"
  by (simp add: PTX_def mask_10 unat_low_bits unat_div drop_bit_eq_div)

lemma PDX_less: "PDX va < 1024"
  using unat_u32_less [of va] by (simp add: PDX_eq less_mult_imp_div_less)

lemma PTX_less: "PTX va < 1024"
  by (simp add: PTX_eq)

subsection \<open>Pages\<close>

definition pg_aligned :: "u32 \<Rightarrow> bool" where
  "pg_aligned a \<longleftrightarrow> a mod PGSIZE = 0"

lemma pg_aligned_iff: "pg_aligned a \<longleftrightarrow> 4096 dvd unat a"
proof -
  have "unat (a mod PGSIZE) = unat a mod 4096" by (simp add: unat_mod)
  then show ?thesis by (metis pg_aligned_def dvd_eq_mod_eq_0 unsigned_0 unsigned_eq_0_iff)
qed

lemma pg_aligned_bits: "pg_aligned a \<longleftrightarrow> a AND 4095 = 0"
proof -
  have "unat (a AND 4095) = unat a mod 2 ^ 12" unfolding mask_12 by (rule unat_low_bits)
  then have "a AND 4095 = 0 \<longleftrightarrow> unat a mod 4096 = 0" by (simp flip: unsigned_eq_0_iff [where ?'a = nat])
  then show ?thesis by (simp add: pg_aligned_iff dvd_eq_mod_eq_0)
qed

lemma pg_aligned_simps [simp]: "pg_aligned (PGROUNDDOWN a)" "pg_aligned (PTE_ADDR a)" "pg_aligned (PGROUNDUP a)"
  by (simp_all add: pg_aligned_iff unat_PGROUNDDOWN unat_PTE_ADDR PGROUNDUP_eq)

lemma PGROUNDDOWN_aligned: "pg_aligned a \<Longrightarrow> PGROUNDDOWN a = a"
  by (rule word_unat_eq_iff [THEN iffD2]) (simp add: unat_PGROUNDDOWN pg_aligned_iff)

text \<open>An entry is an aligned address with flags in the low twelve bits.\<close>

lemma PTE_ADDR_OR:
  assumes "pg_aligned a" "f AND NOT 4095 = 0"
  shows "PTE_ADDR (a OR f) = a" "(a OR f) AND NOT (NOT 4095) = f"
proof -
  have a: "a AND 4095 = 0" using assms(1) by (simp add: pg_aligned_bits)
  show "PTE_ADDR (a OR f) = a"
  proof (rule bit_word_eqI)
    fix n assume "n < LENGTH(32)"
    have "\<not> bit (a AND 4095) n" "\<not> bit (f AND NOT 4095) n" using a assms(2) by simp_all
    then show "bit (PTE_ADDR (a OR f)) n = bit a n" using \<open>n < LENGTH(32)\<close>
      by (auto simp: PTE_ADDR_def mask_12 bit_simps simp flip: mask_12)
  qed
  show "(a OR f) AND NOT (NOT 4095) = f"
  proof (rule bit_word_eqI)
    fix n assume "n < LENGTH(32)"
    have "\<not> bit (a AND 4095) n" "\<not> bit (f AND NOT 4095) n" using a assms(2) by simp_all
    then show "bit ((a OR f) AND NOT (NOT 4095)) n = bit f n" using \<open>n < LENGTH(32)\<close>
      by (auto simp: mask_12 bit_simps)
  qed
qed

end
