(* ===== verification/Kalloc.thy ===== *)
theory Kalloc
  imports Mmu Dir
begin

text \<open>
  The physical page allocator (\<open>kalloc.c\<close>). Physical memory is a sequence of frames of 4096
  bytes; the kernel reaches the frame at physical address \<open>pa\<close> at \<open>KERNBASE + pa\<close>, and its
  pointers are these addresses as 32 bit words. The free list is kept, as in the code, in the first
  word of the free pages themselves. The linker's \<open>end\<close> and \<open>data\<close> are parameters of
  the state. Allocator calls run under \<open>kmem.lock\<close> and are atomic here.
\<close>

subsection \<open>State and operations\<close>

record mem_st = fs_st +
  frames :: "nat \<Rightarrow> byte list"
  freelist :: u32
  use_lock :: bool
  kend :: u32
  kdata :: u32

text \<open>The frame and the offset in it of a kernel address, and the words and bytes there.\<close>

definition frame_no :: "u32 \<Rightarrow> nat" where
  "frame_no v = unat (v2p v) div 4096"

definition frame_off :: "u32 \<Rightarrow> nat" where
  "frame_off v = unat (v2p v) mod 4096"

definition ldw :: "'a mem_st_scheme \<Rightarrow> u32 \<Rightarrow> u32" where
  "ldw s v = of_nat (get32 (frames s (frame_no v)) (frame_off v))"

definition stw :: "u32 \<Rightarrow> u32 \<Rightarrow> 'a mem_st_scheme \<Rightarrow> 'a mem_st_scheme" where
  "stw v x s = s\<lparr>frames := (frames s)(frame_no v := put32 (frames s (frame_no v)) (frame_off v) (unat x))\<rparr>"

definition set_page :: "u32 \<Rightarrow> byte list \<Rightarrow> 'a mem_st_scheme \<Rightarrow> 'a mem_st_scheme" where
  "set_page v d s = s\<lparr>frames := (frames s)(frame_no v := d)\<rparr>"

definition kfree :: "u32 \<Rightarrow> ('a mem_st_scheme, unit) kern" where
  "kfree v s =
     (if v mod PGSIZE \<noteq> 0 \<or> v < kend s \<or> v2p v \<ge> PHYSTOP then Inl (Panic ''kfree'')
      else
        let s1 = set_page v (replicate 4096 1) s;
            s2 = stw v (freelist s1) s1 in
        Inr ((), s2\<lparr>freelist := v\<rparr>))"

definition kalloc :: "('a mem_st_scheme, u32) kern" where
  "kalloc s =
     (let r = freelist s in
      if r \<noteq> 0 then Inr (r, s\<lparr>freelist := ldw s r\<rparr>) else Inr (r, s))"

text \<open>
  The loop of \<open>freerange\<close>. When the address would wrap around, \<open>kfree\<close> has already
  panicked, so the bound that makes the recursion end is never met.
\<close>

function freerange_loop :: "u32 \<Rightarrow> u32 \<Rightarrow> ('a mem_st_scheme, unit) kern" where
  "freerange_loop p vend =
     (if p + PGSIZE \<le> vend then
        kbind (kfree p) (\<lambda>_. if p < p + PGSIZE then freerange_loop (p + PGSIZE) vend else (\<lambda>s. Inl Hang))
      else ret ())"
  by auto
termination
  by (relation "measure (\<lambda>(p, vend). 2 ^ 32 - unat p)")
    (auto simp: word_less_nat_alt intro!: diff_less_mono2 less_le_trans [OF unsigned_less])

declare freerange_loop.simps [simp del]

definition freerange :: "u32 \<Rightarrow> u32 \<Rightarrow> ('a mem_st_scheme, unit) kern" where
  "freerange vstart vend = freerange_loop (PGROUNDUP vstart) vend"

definition kinit1 :: "u32 \<Rightarrow> u32 \<Rightarrow> ('a mem_st_scheme, unit) kern" where
  "kinit1 vstart vend = kbind (modify (use_lock_update (\<lambda>_. False))) (\<lambda>_. freerange vstart vend)"

definition kinit2 :: "u32 \<Rightarrow> u32 \<Rightarrow> ('a mem_st_scheme, unit) kern" where
  "kinit2 vstart vend = kbind (freerange vstart vend) (\<lambda>_. modify (use_lock_update (\<lambda>_. True)))"

subsection \<open>The interface of the allocator\<close>

text \<open>
  What its clients rely on: \<open>avail s ps\<close> says that \<open>ps\<close> are the free pages in the order
  they will be handed out; \<open>page s v\<close> that \<open>v\<close> is the address of a page the allocator
  manages; \<open>bytes s v\<close> is a page's content, and \<open>rest s\<close> all other state.
\<close>

locale page_allocator =
  fixes alloc :: "('s, u32) kern" and free :: "u32 \<Rightarrow> ('s, unit) kern"
    and avail :: "'s \<Rightarrow> u32 list \<Rightarrow> bool" and page :: "'s \<Rightarrow> u32 \<Rightarrow> bool"
    and bytes :: "'s \<Rightarrow> u32 \<Rightarrow> byte list" and rest :: "'s \<Rightarrow> 'r"
  assumes avail_pages: "avail s ps \<Longrightarrow> distinct ps \<and> (\<forall>p \<in> set ps. page s p \<and> p \<noteq> 0)"
    and alloc_none: "avail s [] \<Longrightarrow> alloc s = Inr (0, s)"
    and alloc_some: "avail s (p # ps) \<Longrightarrow> \<exists>s'. alloc s = Inr (p, s') \<and> avail s' ps \<and> bytes s' = bytes s \<and> rest s' = rest s"
    and free_page: "avail s ps \<Longrightarrow> page s v \<Longrightarrow> v \<notin> set ps \<Longrightarrow>
      \<exists>s'. free v s = Inr ((), s') \<and> avail s' (v # ps) \<and> rest s' = rest s
        \<and> (\<forall>w. page s w \<longrightarrow> w \<noteq> v \<longrightarrow> bytes s' w = bytes s w)
        \<and> length (bytes s' v) = 4096 \<and> drop 4 (bytes s' v) = replicate 4092 1"
    and page_rest: "rest s' = rest s \<Longrightarrow> page s' = page s"
begin

primrec alloc_many :: "nat \<Rightarrow> ('s, u32 list) kern" where
  "alloc_many 0 = ret []"
| "alloc_many (Suc n) = kbind alloc (\<lambda>p. kbind (alloc_many n) (\<lambda>ps. ret (p # ps)))"

primrec free_many :: "u32 list \<Rightarrow> ('s, unit) kern" where
  "free_many [] = ret ()"
| "free_many (v # vs) = kbind (free v) (\<lambda>_. free_many vs)"

lemma alloc_many:
  "avail s ps \<Longrightarrow> n \<le> length ps \<Longrightarrow>
   \<exists>s'. alloc_many n s = Inr (take n ps, s') \<and> avail s' (drop n ps) \<and> bytes s' = bytes s \<and> rest s' = rest s"
proof (induction n arbitrary: s ps)
  case 0
  then show ?case by (simp add: ret_def)
next
  case (Suc n)
  then obtain p qs where ps: "ps = p # qs" by (cases ps) auto
  obtain s1 where s1: "alloc s = Inr (p, s1)" "avail s1 qs" "bytes s1 = bytes s" "rest s1 = rest s"
    using alloc_some Suc.prems(1) ps by blast
  from Suc.IH [OF s1(2)] Suc.prems(2) ps obtain s2 where
    s2: "alloc_many n s1 = Inr (take n qs, s2)" "avail s2 (drop n qs)" "bytes s2 = bytes s1" "rest s2 = rest s1"
    by auto
  then show ?case using s1 ps by (simp add: ret_def)
qed

lemma free_many:
  "avail s ps \<Longrightarrow> distinct vs \<Longrightarrow> \<forall>v \<in> set vs. page s v \<and> v \<notin> set ps \<Longrightarrow>
   \<exists>s'. free_many vs s = Inr ((), s') \<and> avail s' (rev vs @ ps) \<and> rest s' = rest s
     \<and> (\<forall>w. page s w \<longrightarrow> w \<notin> set vs \<longrightarrow> bytes s' w = bytes s w)"
proof (induction vs arbitrary: s ps)
  case Nil
  then show ?case by (simp add: ret_def)
next
  case (Cons v vs)
  then obtain s1 where s1: "free v s = Inr ((), s1)" "avail s1 (v # ps)" "rest s1 = rest s"
      "\<forall>w. page s w \<longrightarrow> w \<noteq> v \<longrightarrow> bytes s1 w = bytes s w"
    using free_page [of s ps v] by auto
  moreover have "\<forall>w \<in> set vs. page s1 w \<and> w \<notin> set (v # ps)"
    using Cons.prems page_rest [OF s1(3)] by auto
  ultimately show ?case using Cons.IH [OF s1(2)] Cons.prems(2) page_rest [OF s1(3)] by fastforce
qed

end

subsection \<open>The free list\<close>

definition kpage :: "'a mem_st_scheme \<Rightarrow> u32 \<Rightarrow> bool" where
  "kpage s v \<longleftrightarrow> pg_aligned v \<and> kend s \<le> v \<and> v2p v < PHYSTOP"

definition page_bytes :: "'a mem_st_scheme \<Rightarrow> u32 \<Rightarrow> byte list" where
  "page_bytes s v = frames s (frame_no v)"

fun chain :: "'a mem_st_scheme \<Rightarrow> u32 \<Rightarrow> u32 list \<Rightarrow> bool" where
  "chain s v [] \<longleftrightarrow> v = 0"
| "chain s v (p # ps) \<longleftrightarrow> v = p \<and> kpage s p \<and> chain s (ldw s p) ps"

definition mem_ok :: "'a mem_st_scheme \<Rightarrow> bool" where
  "mem_ok s \<longleftrightarrow> (\<forall>f. length (frames s f) = 4096)"

definition kfreelist :: "'a mem_st_scheme \<Rightarrow> u32 list \<Rightarrow> bool" where
  "kfreelist s ps \<longleftrightarrow> mem_ok s \<and> distinct ps \<and> chain s (freelist s) ps"

definition mrest :: "'a mem_st_scheme \<Rightarrow> fs_st \<times> bool \<times> u32 \<times> u32 \<times> 'a" where
  "mrest s = (fs_st.truncate s, use_lock s, kend s, kdata s, mem_st.more s)"

lemma mrest_update [simp]: "mrest (frames_update f s) = mrest s" "mrest (freelist_update g s) = mrest s"
  by (cases s; simp add: mrest_def fs_st.defs)+

lemma v2p_small: "v2p v < PHYSTOP \<Longrightarrow> unat (v2p v) < 0xE000000"
  by (simp add: word_less_nat_alt)

lemma unat_v2p: "v2p v < PHYSTOP \<Longrightarrow> unat v = unat (v2p v) + 0x80000000"
proof -
  assume "v2p v < PHYSTOP"
  then have "unat (v2p v) < 0xE000000" by (rule v2p_small)
  then have "unat (v2p v + KERNBASE) = unat (v2p v) + 0x80000000"
    by (subst unat_add_lem [THEN iffD1]) simp_all
  then show ?thesis by (simp add: v2p_def)
qed

lemma kpage_unat: "kpage s v \<Longrightarrow> unat (v2p v) = frame_no v * 4096 \<and> frame_off v = 0 \<and> v \<noteq> 0"
proof -
  assume v: "kpage s v"
  then have u: "unat v = unat (v2p v) + 0x80000000" by (simp add: kpage_def unat_v2p)
  have "4096 dvd unat v" using v by (simp add: kpage_def pg_aligned_iff)
  moreover have "(4096 :: nat) dvd 0x80000000" by simp
  ultimately have "4096 dvd unat (v2p v)" using u dvd_add_left_iff [of 4096 "0x80000000" "unat (v2p v)"] by simp
  then show ?thesis using u by (auto simp: frame_no_def frame_off_def)
qed

lemma frame_no_inj: "kpage s v \<Longrightarrow> kpage s w \<Longrightarrow> frame_no v = frame_no w \<longleftrightarrow> v = w"
proof
  assume k: "kpage s v" "kpage s w" and "frame_no v = frame_no w"
  then have "unat (v2p v) = unat (v2p w)" using kpage_unat [OF k(1)] kpage_unat [OF k(2)] by simp
  then have "unat v = unat w" using k by (simp add: kpage_def unat_v2p)
  then show "v = w" by (rule word_unat_eq_iff [THEN iffD2])
qed simp

lemma unat_get32 [simp]: "unat (of_nat (get32 d k) :: u32) = get32 d k"
  using get32_less [of d k] by (simp add: unat_of_nat take_bit_nat_eq_self)

lemma ldw_stw: "mem_ok s \<Longrightarrow> frame_off v \<le> 4092 \<Longrightarrow> ldw (stw v x s) v = x"
  by (simp add: ldw_def stw_def mem_ok_def unat_u32_less [simplified])

lemma mem_ok_stw [simp]: "mem_ok s \<Longrightarrow> frame_off v \<le> 4092 \<Longrightarrow> mem_ok (stw v x s)"
  by (simp add: mem_ok_def stw_def)

lemma mem_ok_set_page [simp]: "mem_ok s \<Longrightarrow> length d = 4096 \<Longrightarrow> mem_ok (set_page v d s)"
  by (simp add: mem_ok_def set_page_def)

lemma mem_ok_freelist [simp]: "mem_ok (freelist_update f s) = mem_ok s"
  by (simp add: mem_ok_def)

lemma chain_cong:
  assumes "kend s' = kend s" "\<forall>p \<in> set ps. page_bytes s' p = page_bytes s p"
  shows "chain s' v ps = chain s v ps"
  using assms(2) by (induction ps arbitrary: v) (auto simp: kpage_def assms(1) ldw_def page_bytes_def)

lemma chain_pages: "chain s v ps \<Longrightarrow> \<forall>p \<in> set ps. kpage s p"
  by (induction ps arbitrary: v) auto

text \<open>The list a chain stands for is determined by the memory.\<close>

lemma chain_unique: "chain s v ps \<Longrightarrow> chain s v qs \<Longrightarrow> ps = qs"
proof (induction ps arbitrary: v qs)
  case Nil
  then show ?case using kpage_unat [of s 0] by (cases qs) auto
next
  case (Cons p ps)
  then show ?case using kpage_unat [of s 0] by (cases qs) auto
qed

lemma kalloc_law:
  assumes "kfreelist s (p # ps)"
  shows "kalloc s = Inr (p, s\<lparr>freelist := ldw s p\<rparr>)" "kfreelist (s\<lparr>freelist := ldw s p\<rparr>) ps"
proof -
  have c: "freelist s = p" "kpage s p" "chain s (ldw s p) ps" using assms by (auto simp: kfreelist_def)
  show "kalloc s = Inr (p, s\<lparr>freelist := ldw s p\<rparr>)" using c kpage_unat [OF c(2)] by (simp add: kalloc_def)
  have "chain (s\<lparr>freelist := ldw s p\<rparr>) (ldw s p) ps"
    using c(3) by (subst chain_cong) (simp_all add: page_bytes_def)
  then show "kfreelist (s\<lparr>freelist := ldw s p\<rparr>) ps" using assms by (simp add: kfreelist_def)
qed

lemma kfree_law:
  assumes "kfreelist s ps" "kpage s v" "v \<notin> set ps"
  shows "\<exists>s'. kfree v s = Inr ((), s') \<and> kfreelist s' (v # ps) \<and> mrest s' = mrest s
    \<and> (\<forall>w. frame_no w \<noteq> frame_no v \<longrightarrow> page_bytes s' w = page_bytes s w)
    \<and> length (page_bytes s' v) = 4096 \<and> drop 4 (page_bytes s' v) = replicate 4092 1"
proof -
  let ?s1 = "set_page v (replicate 4096 1) s"
  let ?s2 = "stw v (freelist s) ?s1"
  let ?s3 = "?s2\<lparr>freelist := v\<rparr>"
  have off: "frame_off v = 0" using kpage_unat [OF assms(2)] by simp
  have m: "mem_ok ?s1" using assms(1) by (simp add: kfreelist_def)
  have run: "kfree v s = Inr ((), ?s3)"
    using assms(2) by (auto simp: kfree_def kpage_def pg_aligned_def Let_def set_page_def)
  have same: "frame_no w \<noteq> frame_no v \<Longrightarrow> page_bytes ?s3 w = page_bytes s w" for w
    by (simp add: page_bytes_def stw_def set_page_def)
  have junk: "length (page_bytes ?s3 v) = 4096" "drop 4 (page_bytes ?s3 v) = replicate 4092 1"
    using off by (auto simp: page_bytes_def stw_def set_page_def put32_def nth_overwrite bytes32_def bytes16_def intro!: nth_equalityI)
  have kp: "kpage ?s3 = kpage s" by (simp add: kpage_def [abs_def] stw_def set_page_def)
  have "ldw ?s3 v = ldw ?s2 v" by (simp add: ldw_def)
  also have "\<dots> = freelist s" using ldw_stw [OF m] off by simp
  finally have l: "ldw ?s3 v = freelist s" .
  have ch: "chain s (freelist s) ps" using assms(1) by (simp add: kfreelist_def)
  have "\<forall>p \<in> set ps. frame_no p \<noteq> frame_no v"
    using chain_pages [OF ch] frame_no_inj [of s] assms(2,3) by metis
  then have "chain ?s3 (freelist s) ps"
    using ch same by (subst chain_cong [of ?s3 s]) (simp_all add: stw_def set_page_def)
  then have "kfreelist ?s3 (v # ps)"
    using l kp assms m off by (simp add: kfreelist_def)
  moreover have "mrest ?s3 = mrest s" by (simp add: stw_def set_page_def)
  ultimately show ?thesis using run same junk by blast
qed

lemma mrestD:
  assumes "mrest s' = mrest s"
  shows "kend s' = kend s" "kdata s' = kdata s" "use_lock s' = use_lock s" "kpage s' = kpage s"
    "mem_st.more s' = mem_st.more s" "fs_st.truncate s' = fs_st.truncate s"
  using assms by (simp_all add: mrest_def kpage_def [abs_def])

interpretation ka: page_allocator kalloc kfree kfreelist kpage page_bytes mrest
proof
  fix s s' :: "'a mem_st_scheme" and ps p v
  show "kfreelist s ps \<Longrightarrow> distinct ps \<and> (\<forall>p \<in> set ps. kpage s p \<and> p \<noteq> 0)"
    using chain_pages [of s "freelist s" ps] kpage_unat [of s] by (auto simp: kfreelist_def)
  show "kfreelist s [] \<Longrightarrow> kalloc s = Inr (0, s)" by (simp add: kfreelist_def kalloc_def)
  show "kfreelist s (p # ps) \<Longrightarrow> \<exists>s'. kalloc s = Inr (p, s') \<and> kfreelist s' ps \<and> page_bytes s' = page_bytes s \<and> mrest s' = mrest s"
    using kalloc_law [of s p ps] by (auto simp: page_bytes_def [abs_def])
  show "kfreelist s ps \<Longrightarrow> kpage s v \<Longrightarrow> v \<notin> set ps \<Longrightarrow>
      \<exists>s'. kfree v s = Inr ((), s') \<and> kfreelist s' (v # ps) \<and> mrest s' = mrest s
        \<and> (\<forall>w. kpage s w \<longrightarrow> w \<noteq> v \<longrightarrow> page_bytes s' w = page_bytes s w)
        \<and> length (page_bytes s' v) = 4096 \<and> drop 4 (page_bytes s' v) = replicate 4092 1"
    using kfree_law [of s ps v] frame_no_inj [of s _ v] by metis
  show "mrest s' = mrest s \<Longrightarrow> kpage s' = kpage s" by (rule mrestD(4))
qed

subsection \<open>Filling the free list\<close>

fun pages :: "u32 \<Rightarrow> nat \<Rightarrow> u32 list" where
  "pages p 0 = []"
| "pages p (Suc n) = p # pages (p + PGSIZE) n"

lemma unat_plus_page: "unat p + 4096 < 2 ^ 32 \<Longrightarrow> unat (p + PGSIZE) = unat p + 4096"
  by (subst unat_add_lem [THEN iffD1]) simp_all

lemma aligned_plus_page: "pg_aligned p \<Longrightarrow> unat p + 4096 < 2 ^ 32 \<Longrightarrow> pg_aligned (p + PGSIZE)"
  by (simp add: pg_aligned_iff unat_plus_page)

lemma set_pages:
  "pg_aligned p \<Longrightarrow> unat p + 4096 * n < 2 ^ 32 \<Longrightarrow>
   set (pages p n) = {v. pg_aligned v \<and> unat p \<le> unat v \<and> unat v < unat p + 4096 * n}"
proof (induction n arbitrary: p)
  case 0
  then show ?case by auto
next
  case (Suc n)
  have b: "unat p + 4096 < 2 ^ 32" using Suc.prems(2) by simp
  have u: "unat (p + PGSIZE) = unat p + 4096" using b by (rule unat_plus_page)
  have "set (pages (p + PGSIZE) n) = {v. pg_aligned v \<and> unat p + 4096 \<le> unat v \<and> unat v < unat p + 4096 * Suc n}"
    using Suc.IH [of "p + PGSIZE"] Suc.prems aligned_plus_page [OF Suc.prems(1) b] by (simp add: u add.assoc)
  moreover have "v = p" if "pg_aligned v" "unat p \<le> unat v" "unat v < unat p + 4096" for v
  proof -
    have "4096 dvd unat v - unat p" using that(1) Suc.prems(1) by (simp add: pg_aligned_iff dvd_diff_nat)
    moreover have "unat v - unat p < 4096" using that by simp
    ultimately have "unat v = unat p" using that(2) by (auto dest: nat_dvd_not_less)
    then show ?thesis by (rule word_unat_eq_iff [THEN iffD2])
  qed
  ultimately show ?case using Suc.prems by (auto simp: not_le)
qed

lemma distinct_pages: "pg_aligned p \<Longrightarrow> unat p + 4096 * n < 2 ^ 32 \<Longrightarrow> distinct (pages p n)"
proof (induction n arbitrary: p)
  case (Suc n)
  have b: "unat p + 4096 < 2 ^ 32" using Suc.prems(2) by simp
  have u: "unat (p + PGSIZE) = unat p + 4096" using b by (rule unat_plus_page)
  have "pg_aligned (p + PGSIZE)" "unat (p + PGSIZE) + 4096 * n < 2 ^ 32"
    using aligned_plus_page [OF Suc.prems(1) b] u Suc.prems(2) by simp_all
  then show ?case using Suc.IH [of "p + PGSIZE"] set_pages [of "p + PGSIZE" n] u by auto
qed simp

lemma freerange_loop_pages:
  "unat p + 4096 * n \<le> unat vend \<Longrightarrow> unat vend < unat p + 4096 * Suc n \<Longrightarrow> unat vend + 4096 < 2 ^ 32 \<Longrightarrow>
   freerange_loop p vend = ka.free_many (pages p n)"
proof (induction n arbitrary: p)
  case 0
  then have "unat (p + PGSIZE) = unat p + 4096" by (intro unat_plus_page) simp
  then show ?case using 0 by (subst freerange_loop.simps) (simp add: word_le_nat_alt)
next
  case (Suc n)
  then have u: "unat (p + PGSIZE) = unat p + 4096" by (intro unat_plus_page) simp
  then have "p + PGSIZE \<le> vend" "p < p + PGSIZE" using Suc.prems by (simp_all add: word_le_nat_alt word_less_nat_alt)
  moreover note Suc.IH [of "p + PGSIZE"]
  ultimately show ?case using Suc.prems u by (subst freerange_loop.simps) simp
qed

lemma freerange_law:
  assumes "kfreelist s ps" "kend s \<le> PGROUNDUP a" "KERNBASE \<le> PGROUNDUP a" "PGROUNDUP a \<le> vend" "vend \<le> 0x8E000000"
    "\<forall>v \<in> set ps. PGROUNDUP a \<le> v \<longrightarrow> vend \<le> v"
  shows "\<exists>s' qs. freerange a vend s = Inr ((), s') \<and> kfreelist s' (qs @ ps) \<and> mrest s' = mrest s
    \<and> set qs = {v. pg_aligned v \<and> PGROUNDUP a \<le> v \<and> unat v + 4096 \<le> unat vend}"
proof -
  let ?p = "PGROUNDUP a"
  define n where "n = (unat vend - unat ?p) div 4096"
  have le: "unat ?p \<le> unat vend" "unat vend \<le> 0x8E000000" "0x80000000 \<le> unat ?p"
    using assms(3-5) by (simp_all add: word_le_nat_alt)
  have n: "unat ?p + 4096 * n \<le> unat vend" "unat vend < unat ?p + 4096 * Suc n"
    using le(1) div_times_less_eq_dividend [of "unat vend - unat ?p" 4096]
      dividend_less_times_div [of 4096 "unat vend - unat ?p"] by (auto simp: n_def)
  have small: "unat ?p + 4096 * n < 2 ^ 32" "unat vend + 4096 < 2 ^ 32" using n(1) le(2) by simp_all
  note set = set_pages [OF _ small(1), simplified] and dist = distinct_pages [OF _ small(1), simplified]
  have in_range: "kpage s v \<and> v \<notin> set ps" if v: "v \<in> set (pages ?p n)" for v
  proof -
    have v': "pg_aligned v" "unat ?p \<le> unat v" "unat v < unat ?p + 4096 * n" using v set by simp_all
    then have "unat v < unat vend" using n(1) by simp
    then have "v \<notin> set ps" using assms(6) v'(2) by (auto simp: word_le_nat_alt)
    moreover have "unat (v2p v) = unat v - 0x80000000"
      using le(3) v'(2) by (simp add: v2p_def unat_sub word_le_nat_alt)
    then have "v2p v < PHYSTOP" using \<open>unat v < unat vend\<close> le(2) by (simp add: word_less_nat_alt)
    moreover have "kend s \<le> v" using assms(2) v'(2) by (simp add: word_le_nat_alt)
    ultimately show ?thesis using v'(1) by (simp add: kpage_def)
  qed
  obtain s' where s': "ka.free_many (pages ?p n) s = Inr ((), s')" "kfreelist s' (rev (pages ?p n) @ ps)" "mrest s' = mrest s"
    using ka.free_many [OF assms(1) dist] in_range by blast
  have "set (pages ?p n) = {v. pg_aligned v \<and> ?p \<le> v \<and> unat v + 4096 \<le> unat vend}"
  proof -
    have "unat v < unat ?p + 4096 * n \<longleftrightarrow> unat v + 4096 \<le> unat vend" if "pg_aligned v" "unat ?p \<le> unat v" for v
    proof -
      have "4096 dvd unat v - unat ?p"
        using that(1) pg_aligned_simps(3) [of a] unfolding pg_aligned_iff by (rule dvd_diff_nat)
      then obtain k where k: "unat v - unat ?p = 4096 * k" by (rule dvdE)
      then have v: "unat v = unat ?p + 4096 * k" using that(2) by simp
      show ?thesis using n unfolding v by auto
    qed
    then show ?thesis using set by (auto simp: word_le_nat_alt)
  qed
  moreover have "freerange a vend s = Inr ((), s')"
    using s'(1) by (simp add: freerange_def freerange_loop_pages [OF n small(2)])
  ultimately show ?thesis using s'(2,3) by (intro exI [of _ s'] exI [of _ "rev (pages ?p n)"]) simp
qed

lemma aligned_step: "pg_aligned v \<Longrightarrow> 4096 dvd c \<Longrightarrow> unat v < c \<longleftrightarrow> unat v + 4096 \<le> c"
proof -
  assume "pg_aligned v" "4096 dvd c"
  then obtain j k where "unat v = 4096 * j" "c = 4096 * k" by (auto simp: pg_aligned_iff elim!: dvdE)
  then show ?thesis by auto
qed

lemma PGROUNDUP_least:
  assumes "pg_aligned v" "unat a + 4095 < 2 ^ 32"
  shows "a \<le> v \<longleftrightarrow> PGROUNDUP a \<le> v"
proof -
  obtain k where k: "unat v = 4096 * k" using assms(1) by (auto simp: pg_aligned_iff elim!: dvdE)
  have "unat a \<le> 4096 * k \<longleftrightarrow> (unat a + 4095) div 4096 < Suc k" by (subst div_less_iff_less_mult) auto
  then show ?thesis by (simp add: word_le_nat_alt unat_PGROUNDUP [OF assms(2)] k less_Suc_eq_le)
qed

lemma v2p_range: "v2p v < PHYSTOP \<longleftrightarrow> KERNBASE \<le> v \<and> unat v < 0x8E000000"
proof
  assume "v2p v < PHYSTOP"
  then show "KERNBASE \<le> v \<and> unat v < 0x8E000000" using unat_v2p [of v] v2p_small [of v] by (simp add: word_le_nat_alt)
next
  assume v: "KERNBASE \<le> v \<and> unat v < 0x8E000000"
  then have "unat (v2p v) = unat v - 0x80000000" by (simp add: v2p_def unat_sub word_le_nat_alt)
  with v show "v2p v < PHYSTOP" by (simp add: word_less_nat_alt word_le_nat_alt less_diff_conv2)
qed

text \<open>
  C30 (invariant): the boot sequence of \<open>main\<close>, \<open>kinit1(end, P2V(4MB))\<close> and then
  \<open>kinit2(P2V(4MB), P2V(PHYSTOP))\<close>, neither panics nor runs off, and leaves a free list that
  holds every page of physical memory above the kernel exactly once.
\<close>

theorem kinit_all_pages:
  assumes "mem_ok s" "freelist s = 0" "KERNBASE \<le> kend s" "kend s \<le> 0x80400000"
  shows "\<exists>s' ps. kbind (kinit1 (kend s) 0x80400000) (\<lambda>_. kinit2 0x80400000 0x8E000000) s = Inr ((), s')
    \<and> kfreelist s' ps \<and> set ps = {v. kpage s' v} \<and> use_lock s'"
proof -
  let ?a = "PGROUNDUP (kend s)" and ?s = "s\<lparr>use_lock := False\<rparr>"
  have k: "0x80000000 \<le> unat (kend s)" "unat (kend s) \<le> 0x80400000" using assms(3,4) by (simp_all add: word_le_nat_alt)
  then have ua: "unat ?a = (unat (kend s) + 4095) div 4096 * 4096" by (intro unat_PGROUNDUP) simp
  have "unat ?a \<le> (0x80400000 + 4095) div 4096 * 4096" unfolding ua using k(2) by (intro mult_le_mono1 div_le_mono add_right_mono)
  moreover have "unat (kend s) \<le> unat ?a" unfolding ua by simp
  ultimately have a: "kend s \<le> ?a" "KERNBASE \<le> ?a" "?a \<le> 0x80400000" using k by (simp_all add: word_le_nat_alt)
  have "kfreelist ?s []" using assms(1,2) by (simp add: kfreelist_def mem_ok_def)
  from freerange_law [OF this, of "kend s" "0x80400000"] a obtain s1 ps where
    s1: "freerange (kend s) 0x80400000 ?s = Inr ((), s1)" "kfreelist s1 ps" "mrest s1 = mrest ?s"
      "set ps = {v. pg_aligned v \<and> ?a \<le> v \<and> unat v + 4096 \<le> 0x80400000}"
    by auto
  have r: "PGROUNDUP 0x80400000 = 0x80400000" by (simp add: PGROUNDUP_def)
  have "\<forall>v \<in> set ps. 0x80400000 \<le> v \<longrightarrow> 0x8E000000 \<le> v" using s1(4) by (auto simp: word_le_nat_alt)
  moreover have "kend s1 \<le> 0x80400000" using mrestD(1) [OF s1(3)] assms(4) by simp
  ultimately obtain s2 qs where
    s2: "freerange 0x80400000 0x8E000000 s1 = Inr ((), s2)" "kfreelist s2 (qs @ ps)" "mrest s2 = mrest s1"
      "set qs = {v. pg_aligned v \<and> 0x80400000 \<le> v \<and> unat v + 4096 \<le> 0x8E000000}"
    using freerange_law [OF s1(2), of "0x80400000" "0x8E000000"] r by auto
  let ?t = "s2\<lparr>use_lock := True\<rparr>"
  have "chain ?t v xs = chain s2 v xs" for v xs by (rule chain_cong) (simp_all add: page_bytes_def)
  then have "kfreelist ?t (qs @ ps)" using s2(2) by (simp add: kfreelist_def mem_ok_def)
  moreover have "kbind (kinit1 (kend s) 0x80400000) (\<lambda>_. kinit2 0x80400000 0x8E000000) s = Inr ((), ?t)"
    using s1(1) s2(1) by (simp add: kinit1_def kinit2_def kbind_assoc modify_def)
  moreover have "set (qs @ ps) = {v. kpage ?t v}"
  proof -
    have e: "kend ?t = kend s" using mrestD(1) [OF s1(3)] mrestD(1) [OF s2(3)] by simp
    have "kpage ?t v \<longleftrightarrow> v \<in> set (qs @ ps)" for v
    proof (cases "pg_aligned v")
      case True
      have "unat (kend s) + 4095 < 2 ^ 32" using k by simp
      then show ?thesis
        using s1(4) s2(4) a k PGROUNDUP_least [OF True, of "kend s"] aligned_step [OF True, of "0x80400000"] aligned_step [OF True, of "0x8E000000"]
        by (auto simp: kpage_def e v2p_range True word_le_nat_alt)
    qed (use s1(4) s2(4) in \<open>simp add: kpage_def\<close>)
    then show ?thesis by blast
  qed
  ultimately show ?thesis by (intro exI [of _ ?t] exI [of _ "qs @ ps"]) simp
qed

text \<open>A machine at boot: no free pages yet, the kernel ends 1MB and 64KB above \<open>KERNBASE\<close>.\<close>

definition mem0 :: mem_st where
  "mem0 = fs_st.extend fs0 (mem_st.fields (\<lambda>_. replicate 4096 0) 0 False 0x80110000 0x80108000)"

lemma mem0_simps [simp]: "frames mem0 = (\<lambda>_. replicate 4096 0)" "freelist mem0 = 0" "kend mem0 = 0x80110000"
    "kdata mem0 = 0x80108000" "use_lock mem0 = False"
  by (simp_all add: mem0_def fs_st.defs mem_st.defs)

theorem kinit_all_pages_witness:
  "\<exists>s' ps. kbind (kinit1 (kend mem0) 0x80400000) (\<lambda>_. kinit2 0x80400000 0x8E000000) mem0 = Inr ((), s')
    \<and> kfreelist s' ps \<and> set ps = {v. kpage s' v}"
  using kinit_all_pages [of mem0] by (auto simp: mem_ok_def)

text \<open>
  C20 (functional): the allocator is a stack of pages. \<open>kalloc\<close> returns 0 when no page is free,
  and otherwise takes the first page off the free list without touching memory. \<open>kfree\<close> of any
  page that is not free puts it in front of the list and fills it with 1s behind the link, and
  changes no other page; of an address that is not that of a page above the kernel it panics. What
  is stored in a page that is not free does not matter to the list.
\<close>

theorem kalloc_kfree:
  assumes "kfreelist s ps"
  shows "(case ps of
      [] \<Rightarrow> kalloc s = Inr (0, s)
    | p # qs \<Rightarrow> p \<noteq> 0 \<and> (\<exists>s1. kalloc s = Inr (p, s1) \<and> kfreelist s1 qs \<and> page_bytes s1 = page_bytes s \<and> mrest s1 = mrest s))
    \<and> (\<forall>v. \<not> kpage s v \<longrightarrow> kfree v s = Inl (Panic ''kfree''))
    \<and> (\<forall>v. kpage s v \<and> v \<notin> set ps \<longrightarrow>
        (\<exists>s2. kfree v s = Inr ((), s2) \<and> kfreelist s2 (v # ps) \<and> mrest s2 = mrest s
          \<and> length (page_bytes s2 v) = 4096 \<and> drop 4 (page_bytes s2 v) = replicate 4092 1
          \<and> (\<forall>w. kpage s w \<and> w \<noteq> v \<longrightarrow> page_bytes s2 w = page_bytes s w))
        \<and> (\<forall>d. length d = 4096 \<longrightarrow> kfreelist (set_page v d s) ps))"
proof (intro conjI allI impI)
  show "case ps of [] \<Rightarrow> kalloc s = Inr (0, s)
    | p # qs \<Rightarrow> p \<noteq> 0 \<and> (\<exists>s1. kalloc s = Inr (p, s1) \<and> kfreelist s1 qs \<and> page_bytes s1 = page_bytes s \<and> mrest s1 = mrest s)"
    using assms ka.alloc_none ka.alloc_some ka.avail_pages [OF assms] by (cases ps) auto
next
  fix v
  assume "\<not> kpage s v"
  then show "kfree v s = Inl (Panic ''kfree'')" by (auto simp: kfree_def kpage_def pg_aligned_def not_le not_less)
next
  fix v
  assume "kpage s v \<and> v \<notin> set ps"
  then have v: "kpage s v" "v \<notin> set ps" by auto
  from ka.free_page [OF assms v] show "\<exists>s2. kfree v s = Inr ((), s2) \<and> kfreelist s2 (v # ps) \<and> mrest s2 = mrest s
      \<and> length (page_bytes s2 v) = 4096 \<and> drop 4 (page_bytes s2 v) = replicate 4092 1
      \<and> (\<forall>w. kpage s w \<and> w \<noteq> v \<longrightarrow> page_bytes s2 w = page_bytes s w)" by blast
  fix d :: "byte list"
  assume d: "length d = 4096"
  have "page_bytes (set_page v d s) p = page_bytes s p" if "p \<in> set ps" for p
    using that v frame_no_inj [of s p v] ka.avail_pages [OF assms] by (auto simp: page_bytes_def set_page_def)
  then have "chain (set_page v d s) (freelist s) ps = chain s (freelist s) ps"
    by (intro chain_cong) (simp_all add: set_page_def)
  then show "kfreelist (set_page v d s) ps"
    using assms d by (simp add: kfreelist_def) (simp add: set_page_def)
qed

theorem kalloc_kfree_witness:
  "\<exists>s2 s1. kfree 0x80200000 mem0 = Inr ((), s2) \<and> drop 4 (page_bytes s2 0x80200000) = replicate 4092 1
     \<and> kalloc s2 = Inr (0x80200000, s1) \<and> kfreelist s1 [] \<and> kfree 0x80200001 mem0 = Inl (Panic ''kfree'')"
proof -
  have e: "kfreelist mem0 []" by (simp add: kfreelist_def mem_ok_def)
  moreover have "kpage mem0 0x80200000" "\<not> kpage mem0 0x80200001" by (simp_all add: kpage_def pg_aligned_def v2p_def)
  ultimately obtain s2 where s2: "kfree 0x80200000 mem0 = Inr ((), s2)" "kfreelist s2 [0x80200000]"
      "drop 4 (page_bytes s2 0x80200000) = replicate 4092 1" "kfree 0x80200001 mem0 = Inl (Panic ''kfree'')"
    using kalloc_kfree [OF e] by auto
  from kalloc_kfree [OF s2(2)] s2 show ?thesis by auto
qed

end
