(* ===== verification/Vm.thy ===== *)
theory Vm
  imports Kalloc
begin

text \<open>
  Virtual memory (\<open>vm.c\<close>): two-level page tables kept in pages of the allocator. A page
  table is named by the kernel address of its directory, an entry by the kernel address of its
  word, and 0 is the null pointer; entries are 32 bit words with the hardware's flag bits.
  Following a null pointer is a fault. Loops over addresses run in 32 bit arithmetic; where an
  address could wrap around and the loop start over, the recursion ends with \<open>Hang\<close>.
  Each CPU, named by its number, has its own page table register.
\<close>

subsection \<open>Page tables\<close>

record vm_st = mem_st +
  kpgdir :: u32
  cr3 :: "nat \<Rightarrow> u32"

definition walkpgdir :: "u32 \<Rightarrow> u32 \<Rightarrow> bool \<Rightarrow> ('a mem_st_scheme, u32) kern" where
  "walkpgdir pgdir va alloc s =
     (let pde = pgdir + 4 * of_nat (PDX va) in
      if ldw s pde AND PTE_P \<noteq> 0 then Inr (p2v (PTE_ADDR (ldw s pde)) + 4 * of_nat (PTX va), s)
      else if \<not> alloc then Inr (0, s)
      else
        kbind kalloc (\<lambda>pgtab.
        if pgtab = 0 then ret 0
        else
          kbind (modify (set_page pgtab (replicate 4096 0))) (\<lambda>_.
          kbind (modify (stw pde (v2p pgtab OR PTE_P OR PTE_W OR PTE_U))) (\<lambda>_.
          ret (pgtab + 4 * of_nat (PTX va))))) s)"

lemma page_step: "\<not> b - a < PGSIZE \<Longrightarrow> unat (b - (a + PGSIZE)) < unat (b - a)"
proof -
  assume "\<not> b - a < PGSIZE"
  then have "unat (b - a - PGSIZE) = unat (b - a) - 4096" "4096 \<le> unat (b - a)"
    by (simp_all add: unat_sub word_le_nat_alt not_less)
  then show ?thesis unfolding diff_diff_add [symmetric] by simp
qed

text \<open>The loop of \<open>mappages\<close>: both addresses are page aligned, so it ends at the page of \<open>last\<close>, \<open>lst\<close>.\<close>

function mappages_loop :: "u32 \<Rightarrow> u32 \<Rightarrow> u32 \<Rightarrow> u32 \<Rightarrow> u32 \<Rightarrow> ('a mem_st_scheme, int) kern" where
  "mappages_loop pgdir a lst pa perm =
     kbind (walkpgdir pgdir a True) (\<lambda>pte.
     if pte = 0 then ret (-1)
     else
       kbind (gets (\<lambda>s. ldw s pte)) (\<lambda>e.
       if e AND PTE_P \<noteq> 0 then panic ''remap''
       else
         kbind (modify (stw pte (pa OR perm OR PTE_P))) (\<lambda>_.
         if a = lst then ret 0
         else if lst - a < PGSIZE then (\<lambda>s. Inl Hang)
         else mappages_loop pgdir (a + PGSIZE) lst (pa + PGSIZE) perm)))"
  by auto
termination
  by (relation "measure (\<lambda>(pgdir, a, lst, pa, perm). unat (lst - a))") (auto dest: page_step)

definition mappages :: "u32 \<Rightarrow> u32 \<Rightarrow> u32 \<Rightarrow> u32 \<Rightarrow> u32 \<Rightarrow> ('a mem_st_scheme, int) kern" where
  "mappages pgdir va sz pa perm = mappages_loop pgdir (PGROUNDDOWN va) (PGROUNDDOWN (va + sz - 1)) pa perm"

definition kmap :: "'a mem_st_scheme \<Rightarrow> (u32 \<times> u32 \<times> u32 \<times> u32) list" where
  "kmap s =
     [(KERNBASE, 0, EXTMEM, PTE_W),
      (KERNLINK, v2p KERNLINK, v2p (kdata s), 0),
      (kdata s, v2p (kdata s), PHYSTOP, PTE_W),
      (DEVSPACE, DEVSPACE, 0, PTE_W)]"

fun setupkvm_loop :: "u32 \<Rightarrow> (u32 \<times> u32 \<times> u32 \<times> u32) list \<Rightarrow> ('a mem_st_scheme, u32) kern" where
  "setupkvm_loop pgdir [] = ret pgdir"
| "setupkvm_loop pgdir ((virt, phys_start, phys_end, perm) # ks) =
     kbind (mappages pgdir virt (phys_end - phys_start) phys_start perm) (\<lambda>r.
     if r < 0 then ret 0 else setupkvm_loop pgdir ks)"

definition setupkvm :: "('a mem_st_scheme, u32) kern" where
  "setupkvm =
     kbind kalloc (\<lambda>pgdir.
     if pgdir = 0 then ret 0
     else
       kbind (modify (set_page pgdir (replicate 4096 0))) (\<lambda>_.
       if p2v PHYSTOP > DEVSPACE then panic ''PHYSTOP too high''
       else kbind (gets kmap) (\<lambda>ks. setupkvm_loop pgdir ks)))"

definition switchkvm :: "nat \<Rightarrow> ('a vm_st_scheme, unit) kern" where
  "switchkvm c = modify (\<lambda>s. s\<lparr>cr3 := (cr3 s)(c := v2p (kpgdir s))\<rparr>)"

definition kvmalloc :: "nat \<Rightarrow> ('a vm_st_scheme, unit) kern" where
  "kvmalloc c = kbind setupkvm (\<lambda>p. kbind (modify (kpgdir_update (\<lambda>_. p))) (\<lambda>_. switchkvm c))"

subsection \<open>User memory\<close>

text \<open>The bytes \<open>bs\<close> stored at a kernel address, within one page.\<close>

definition stbytes :: "u32 \<Rightarrow> byte list \<Rightarrow> 'a mem_st_scheme \<Rightarrow> 'a mem_st_scheme" where
  "stbytes v bs s =
     s\<lparr>frames := (frames s)(frame_no v := overwrite (frames s (frame_no v)) (frame_off v) bs)\<rparr>"

definition inituvm :: "u32 \<Rightarrow> byte list \<Rightarrow> ('a mem_st_scheme, unit) kern" where
  "inituvm pgdir init =
     (if length init \<ge> 4096 then panic ''inituvm: more than a page''
      else
        kbind kalloc (\<lambda>mem.
        if mem = 0 then (\<lambda>s. Inl Fault)
        else
          kbind (modify (set_page mem (replicate 4096 0))) (\<lambda>_.
          kbind (mappages pgdir 0 PGSIZE (v2p mem) (PTE_W OR PTE_U)) (\<lambda>_.
          modify (stbytes mem init)))))"

function loaduvm_loop :: "u32 \<Rightarrow> u32 \<Rightarrow> nat \<Rightarrow> u32 \<Rightarrow> u32 \<Rightarrow> u32 \<Rightarrow> ('a mem_st_scheme, int) kern" where
  "loaduvm_loop pgdir addr ip offset sz i =
     (if i < sz then
        kbind (walkpgdir pgdir (addr + i) False) (\<lambda>pte.
        if pte = 0 then panic ''loaduvm: address should exist''
        else
          kbind (gets (\<lambda>s. PTE_ADDR (ldw s pte))) (\<lambda>pa.
          let n = (if sz - i < PGSIZE then sz - i else PGSIZE) in
          kbind (readi ip (unat (offset + i)) (unat n)) (\<lambda>(r, bs).
          kbind (modify (stbytes (p2v pa) bs)) (\<lambda>_.
          if r \<noteq> int (unat n) then ret (-1)
          else if i < i + PGSIZE then loaduvm_loop pgdir addr ip offset sz (i + PGSIZE)
          else (\<lambda>s. Inl Hang)))))
      else ret 0)"
  by auto
termination
  by (relation "measure (\<lambda>(pgdir, addr, ip, offset, sz, i). 2 ^ 32 - unat i)")
    (auto simp: word_less_nat_alt intro!: diff_less_mono2 less_le_trans [OF unsigned_less])

definition loaduvm :: "u32 \<Rightarrow> u32 \<Rightarrow> nat \<Rightarrow> u32 \<Rightarrow> u32 \<Rightarrow> ('a mem_st_scheme, int) kern" where
  "loaduvm pgdir addr ip offset sz =
     (if addr mod PGSIZE \<noteq> 0 then panic ''loaduvm: addr must be page aligned''
      else loaduvm_loop pgdir addr ip offset sz 0)"

function deallocuvm_loop :: "u32 \<Rightarrow> u32 \<Rightarrow> u32 \<Rightarrow> ('a mem_st_scheme, unit) kern" where
  "deallocuvm_loop pgdir oldsz a =
     (if a < oldsz then
        kbind (walkpgdir pgdir a False) (\<lambda>pte.
        if pte = 0 then
          let a' = a + (1024 - 1) * PGSIZE + PGSIZE in
          if a < a' then deallocuvm_loop pgdir oldsz a' else (\<lambda>s. Inl Hang)
        else
          kbind (gets (\<lambda>s. ldw s pte)) (\<lambda>e.
          kbind (if e AND PTE_P \<noteq> 0 then
              let pa = PTE_ADDR e in
              if pa = 0 then panic ''kfree''
              else kbind (kfree (p2v pa)) (\<lambda>_. modify (stw pte 0))
            else ret ()) (\<lambda>_.
          if a < a + PGSIZE then deallocuvm_loop pgdir oldsz (a + PGSIZE) else (\<lambda>s. Inl Hang))))
      else ret ())"
  by auto
termination
  by (relation "measure (\<lambda>(pgdir, oldsz, a). 2 ^ 32 - unat a)")
    (auto simp: word_less_nat_alt intro!: diff_less_mono2 less_le_trans [OF unsigned_less])

definition deallocuvm :: "u32 \<Rightarrow> u32 \<Rightarrow> u32 \<Rightarrow> ('a mem_st_scheme, u32) kern" where
  "deallocuvm pgdir oldsz newsz =
     (if newsz \<ge> oldsz then ret oldsz
      else kbind (deallocuvm_loop pgdir oldsz (PGROUNDUP newsz)) (\<lambda>_. ret newsz))"

function allocuvm_loop :: "u32 \<Rightarrow> u32 \<Rightarrow> u32 \<Rightarrow> u32 \<Rightarrow> ('a mem_st_scheme, u32) kern" where
  "allocuvm_loop pgdir oldsz newsz a =
     (if a < newsz then
        kbind kalloc (\<lambda>mem.
        if mem = 0 then kbind (deallocuvm pgdir newsz oldsz) (\<lambda>_. ret 0)
        else
          kbind (modify (set_page mem (replicate 4096 0))) (\<lambda>_.
          kbind (mappages pgdir a PGSIZE (v2p mem) (PTE_W OR PTE_U)) (\<lambda>_.
          if a < a + PGSIZE then allocuvm_loop pgdir oldsz newsz (a + PGSIZE) else (\<lambda>s. Inl Hang))))
      else ret newsz)"
  by auto
termination
  by (relation "measure (\<lambda>(pgdir, oldsz, newsz, a). 2 ^ 32 - unat a)")
    (auto simp: word_less_nat_alt intro!: diff_less_mono2 less_le_trans [OF unsigned_less])

definition allocuvm :: "u32 \<Rightarrow> u32 \<Rightarrow> u32 \<Rightarrow> ('a mem_st_scheme, u32) kern" where
  "allocuvm pgdir oldsz newsz =
     (if newsz \<ge> KERNBASE then ret 0
      else if newsz < oldsz then ret oldsz
      else allocuvm_loop pgdir oldsz newsz (PGROUNDUP oldsz))"

fun freevm_loop :: "u32 \<Rightarrow> nat list \<Rightarrow> ('a mem_st_scheme, unit) kern" where
  "freevm_loop pgdir [] = ret ()"
| "freevm_loop pgdir (i # is) =
     kbind (gets (\<lambda>s. ldw s (pgdir + 4 * of_nat i))) (\<lambda>e.
     kbind (if e AND PTE_P \<noteq> 0 then kfree (p2v (PTE_ADDR e)) else ret ()) (\<lambda>_.
     freevm_loop pgdir is))"

definition freevm :: "u32 \<Rightarrow> ('a mem_st_scheme, unit) kern" where
  "freevm pgdir =
     (if pgdir = 0 then panic ''freevm: no pgdir''
      else
        kbind (deallocuvm pgdir KERNBASE 0) (\<lambda>_.
        kbind (freevm_loop pgdir [0..<1024]) (\<lambda>_.
        kfree pgdir)))"

definition clearpteu :: "u32 \<Rightarrow> u32 \<Rightarrow> ('a mem_st_scheme, unit) kern" where
  "clearpteu pgdir uva =
     kbind (walkpgdir pgdir uva False) (\<lambda>pte.
     if pte = 0 then panic ''clearpteu''
     else modify (\<lambda>s. stw pte (ldw s pte AND NOT PTE_U) s))"

function copyuvm_loop :: "u32 \<Rightarrow> u32 \<Rightarrow> u32 \<Rightarrow> u32 \<Rightarrow> ('a mem_st_scheme, u32) kern" where
  "copyuvm_loop pgdir d sz i =
     (if i < sz then
        kbind (walkpgdir pgdir i False) (\<lambda>pte.
        if pte = 0 then panic ''copyuvm: pte should exist''
        else
          kbind (gets (\<lambda>s. ldw s pte)) (\<lambda>e.
          if e AND PTE_P = 0 then panic ''copyuvm: page not present''
          else
            kbind kalloc (\<lambda>mem.
            if mem = 0 then kbind (freevm d) (\<lambda>_. ret 0)
            else
              kbind (modify (\<lambda>s. set_page mem (frames s (frame_no (p2v (PTE_ADDR e)))) s)) (\<lambda>_.
              kbind (mappages d i PGSIZE (v2p mem) (PTE_W OR PTE_U)) (\<lambda>r.
              if r < 0 then kbind (freevm d) (\<lambda>_. ret 0)
              else if i < i + PGSIZE then copyuvm_loop pgdir d sz (i + PGSIZE)
              else (\<lambda>s. Inl Hang))))))
      else ret d)"
  by auto
termination
  by (relation "measure (\<lambda>(pgdir, d, sz, i). 2 ^ 32 - unat i)")
    (auto simp: word_less_nat_alt intro!: diff_less_mono2 less_le_trans [OF unsigned_less])

definition copyuvm :: "u32 \<Rightarrow> u32 \<Rightarrow> ('a mem_st_scheme, u32) kern" where
  "copyuvm pgdir sz = kbind setupkvm (\<lambda>d. if d = 0 then ret 0 else copyuvm_loop pgdir d sz 0)"

definition uva2ka :: "u32 \<Rightarrow> u32 \<Rightarrow> ('a mem_st_scheme, u32) kern" where
  "uva2ka pgdir uva =
     kbind (walkpgdir pgdir uva False) (\<lambda>pte.
     if pte = 0 then (\<lambda>s. Inl Fault)
     else
       kbind (gets (\<lambda>s. ldw s pte)) (\<lambda>e.
       if e AND PTE_P = 0 then ret 0
       else if e AND PTE_U = 0 then ret 0
       else ret (p2v (PTE_ADDR e))))"

function copyout :: "u32 \<Rightarrow> u32 \<Rightarrow> byte list \<Rightarrow> ('a mem_st_scheme, int) kern" where
  "copyout pgdir va buf =
     (if buf = [] then ret 0
      else
        let va0 = PGROUNDDOWN va; n = min (4096 - unat (va - va0)) (length buf) in
        kbind (uva2ka pgdir va0) (\<lambda>pa0.
        if pa0 = 0 then ret (-1)
        else
          kbind (modify (stbytes (pa0 + (va - va0)) (take n buf))) (\<lambda>_.
          if n = 0 then (\<lambda>s. Inl Hang) else copyout pgdir (va0 + PGSIZE) (drop n buf))))"
  by auto
termination by (relation "measure (\<lambda>(pgdir, va, buf). length buf)") (auto simp: min_def)

declare mappages_loop.simps [simp del] loaduvm_loop.simps [simp del] deallocuvm_loop.simps [simp del]
  allocuvm_loop.simps [simp del] copyuvm_loop.simps [simp del] copyout.simps [simp del]

end
