(* ===== verification/Spinlock.thy ===== *)
theory Spinlock
  imports Mmu
begin

text \<open>
  Spin locks and the nesting of interrupt disabling (\<open>spinlock.c\<close>). A CPU is a number, a
  lock is a number; the \<open>IF\<close> bit of \<open>EFLAGS\<close> is the field \<open>ifl\<close> of a CPU. The
  operations are split at the atomic \<open>xchg\<close>, so that the same pieces make up both the
  sequential operations and the interleaving of several CPUs, which is a step relation. The memory
  the stack trace reads is a parameter.
\<close>

subsection \<open>State\<close>

record cpu =
  ncli :: int
  intena :: bool
  ifl :: bool

record spinlock =
  locked :: u32
  lk_name :: string
  lk_cpu :: "nat option"
  lk_pcs :: "u32 list"

record lock_st =
  cpus :: "nat \<Rightarrow> cpu"
  locks :: "nat \<Rightarrow> spinlock"

definition upd_cpu :: "nat \<Rightarrow> (cpu \<Rightarrow> cpu) \<Rightarrow> (lock_st, unit) kern" where
  "upd_cpu c f = modify (\<lambda>s. s\<lparr>cpus := (cpus s)(c := f (cpus s c))\<rparr>)"

definition upd_lock :: "nat \<Rightarrow> (spinlock \<Rightarrow> spinlock) \<Rightarrow> (lock_st, unit) kern" where
  "upd_lock l f = modify (\<lambda>s. s\<lparr>locks := (locks s)(l := f (locks s l))\<rparr>)"

subsection \<open>Operations\<close>

definition pushcli :: "nat \<Rightarrow> (lock_st, unit) kern" where
  "pushcli c =
     kbind (gets (\<lambda>s. ifl (cpus s c))) (\<lambda>eflags.
     kbind (upd_cpu c (ifl_update (\<lambda>_. False))) (\<lambda>_.
     kbind (gets (\<lambda>s. ncli (cpus s c))) (\<lambda>n.
     kbind (upd_cpu c (ncli_update (\<lambda>_. n + 1))) (\<lambda>_.
     if n = 0 then upd_cpu c (intena_update (\<lambda>_. eflags)) else ret ()))))"

definition popcli :: "nat \<Rightarrow> (lock_st, unit) kern" where
  "popcli c s =
     (if ifl (cpus s c) then Inl (Panic ''popcli - interruptible'')
      else
        kbind (upd_cpu c (\<lambda>x. x\<lparr>ncli := ncli x - 1\<rparr>)) (\<lambda>_ s.
        if ncli (cpus s c) < 0 then Inl (Panic ''popcli'')
        else if ncli (cpus s c) = 0 \<and> intena (cpus s c) then upd_cpu c (ifl_update (\<lambda>_. True)) s
        else Inr ((), s)) s)"

definition holding :: "nat \<Rightarrow> nat \<Rightarrow> lock_st \<Rightarrow> bool" where
  "holding c l s \<longleftrightarrow> locked (locks s l) \<noteq> 0 \<and> lk_cpu (locks s l) = Some c"

definition initlock :: "nat \<Rightarrow> string \<Rightarrow> (lock_st, unit) kern" where
  "initlock l name = upd_lock l (\<lambda>k. k\<lparr>lk_name := name, locked := 0, lk_cpu := None\<rparr>)"

text \<open>The call stack: \<open>mem\<close> reads memory, \<open>n\<close> slots are left to fill.\<close>

fun pcs_loop :: "(u32 \<Rightarrow> u32) \<Rightarrow> nat \<Rightarrow> u32 \<Rightarrow> u32 list" where
  "pcs_loop mem 0 ebp = []"
| "pcs_loop mem (Suc n) ebp =
     (if ebp = 0 \<or> ebp < KERNBASE \<or> ebp = 0xffffffff then replicate (Suc n) 0
      else mem (ebp + 4) # pcs_loop mem n (mem ebp))"

definition getcallerpcs :: "(u32 \<Rightarrow> u32) \<Rightarrow> u32 \<Rightarrow> u32 list" where
  "getcallerpcs mem v = pcs_loop mem 10 (v - 8)"

text \<open>\<open>xchg\<close> on the lock word, one atomic step.\<close>

definition xchg :: "nat \<Rightarrow> u32 \<Rightarrow> (lock_st, u32) kern" where
  "xchg l new = kbind (gets (\<lambda>s. locked (locks s l))) (\<lambda>old.
     kbind (upd_lock l (locked_update (\<lambda>_. new))) (\<lambda>_. ret old))"

definition acquire_enter :: "nat \<Rightarrow> nat \<Rightarrow> (lock_st, unit) kern" where
  "acquire_enter c l =
     kbind (pushcli c) (\<lambda>_ s. if holding c l s then Inl (Panic ''acquire'') else Inr ((), s))"

definition acquire_done :: "nat \<Rightarrow> nat \<Rightarrow> u32 list \<Rightarrow> (lock_st, unit) kern" where
  "acquire_done c l pcs =
     kbind (upd_lock l (lk_cpu_update (\<lambda>_. Some c))) (\<lambda>_. upd_lock l (lk_pcs_update (\<lambda>_. pcs)))"

definition release_enter :: "nat \<Rightarrow> nat \<Rightarrow> (lock_st, unit) kern" where
  "release_enter c l s =
     (if \<not> holding c l s then Inl (Panic ''release'')
      else upd_lock l (\<lambda>k. k\<lparr>lk_pcs := (lk_pcs k)[0 := 0], lk_cpu := None\<rparr>) s)"

text \<open>
  The operations of one CPU while no other CPU runs: a lock that is taken is never released, so
  \<open>acquire\<close> spins forever.
\<close>

definition acquire :: "nat \<Rightarrow> nat \<Rightarrow> u32 list \<Rightarrow> (lock_st, unit) kern" where
  "acquire c l pcs =
     kbind (acquire_enter c l) (\<lambda>_.
     kbind (xchg l 1) (\<lambda>old.
     if old \<noteq> 0 then (\<lambda>s. Inl Hang) else acquire_done c l pcs))"

definition release :: "nat \<Rightarrow> nat \<Rightarrow> (lock_st, unit) kern" where
  "release c l =
     kbind (release_enter c l) (\<lambda>_.
     kbind (xchg l 0) (\<lambda>_. popcli c))"

text \<open>What each piece does to the state.\<close>

lemma pushcli_run:
  "pushcli c s = Inr ((), s\<lparr>cpus := (cpus s)(c := (cpus s c)\<lparr>ncli := ncli (cpus s c) + 1,
     intena := if ncli (cpus s c) = 0 then ifl (cpus s c) else intena (cpus s c), ifl := False\<rparr>)\<rparr>)"
  by (cases "cpus s c") (simp add: pushcli_def upd_cpu_def kern_simps)

lemma popcli_run:
  "popcli c s =
     (if ifl (cpus s c) then Inl (Panic ''popcli - interruptible'')
      else if ncli (cpus s c) \<le> 0 then Inl (Panic ''popcli'')
      else Inr ((), s\<lparr>cpus := (cpus s)(c := (cpus s c)\<lparr>ncli := ncli (cpus s c) - 1,
        ifl := ncli (cpus s c) = 1 \<and> intena (cpus s c)\<rparr>)\<rparr>))"
  by (cases "cpus s c") (auto simp: popcli_def upd_cpu_def kern_simps)

lemma xchg_run:
  "xchg l v s = Inr (locked (locks s l), s\<lparr>locks := (locks s)(l := (locks s l)\<lparr>locked := v\<rparr>)\<rparr>)"
  by (simp add: xchg_def upd_lock_def kern_simps)

lemma acquire_enter_run:
  "acquire_enter c l s = (if holding c l s then Inl (Panic ''acquire'') else pushcli c s)"
  by (simp add: acquire_enter_def kbind_def pushcli_run holding_def)

lemma acquire_done_run:
  "acquire_done c l pcs s = Inr ((), s\<lparr>locks := (locks s)(l := (locks s l)\<lparr>lk_cpu := Some c, lk_pcs := pcs\<rparr>)\<rparr>)"
  by (simp add: acquire_done_def upd_lock_def kern_simps)

lemma release_enter_run:
  "release_enter c l s =
     (if \<not> holding c l s then Inl (Panic ''release'')
      else Inr ((), s\<lparr>locks := (locks s)(l := (locks s l)\<lparr>lk_cpu := None, lk_pcs := (lk_pcs (locks s l))[0 := 0]\<rparr>)\<rparr>))"
  by (cases "locks s l") (simp add: release_enter_def upd_lock_def kern_simps)

lemmas spin_runs = pushcli_run popcli_run xchg_run acquire_enter_run acquire_done_run release_enter_run

subsection \<open>Several CPUs\<close>

text \<open>
  What a CPU is doing: running code that may start an operation on a lock, spinning in
  \<open>acquire\<close>, between the successful \<open>xchg\<close> and the end of \<open>acquire\<close>, or between
  the steps of \<open>release\<close>. A step of the machine is one such piece of one CPU; a CPU that
  panics stops. CPUs may acquire any lock they do not hold and release any lock they hold.
\<close>

datatype phase = Run | Spin nat | Got nat | Clear nat | Pop

record mp_st =
  hw :: lock_st
  phases :: "nat \<Rightarrow> phase"
  crit :: "nat \<Rightarrow> nat set"

definition to_phase :: "nat \<Rightarrow> phase \<Rightarrow> (nat set \<Rightarrow> nat set) \<Rightarrow> lock_st \<Rightarrow> mp_st \<Rightarrow> mp_st" where
  "to_phase c p f h m = m\<lparr>hw := h, phases := (phases m)(c := p), crit := (crit m)(c := f (crit m c))\<rparr>"

inductive mp_step :: "mp_st \<Rightarrow> mp_st \<Rightarrow> bool" where
  start_acquire: "\<lbrakk>phases m c = Run; l \<notin> crit m c; acquire_enter c l (hw m) = Inr ((), h)\<rbrakk>
    \<Longrightarrow> mp_step m (to_phase c (Spin l) id h m)"
| spin: "\<lbrakk>phases m c = Spin l; xchg l 1 (hw m) = Inr (old, h); old \<noteq> 0\<rbrakk>
    \<Longrightarrow> mp_step m (to_phase c (Spin l) id h m)"
| take_lock: "\<lbrakk>phases m c = Spin l; xchg l 1 (hw m) = Inr (0, h)\<rbrakk>
    \<Longrightarrow> mp_step m (to_phase c (Got l) (insert l) h m)"
| end_acquire: "\<lbrakk>phases m c = Got l; acquire_done c l pcs (hw m) = Inr ((), h)\<rbrakk>
    \<Longrightarrow> mp_step m (to_phase c Run id h m)"
| start_release: "\<lbrakk>phases m c = Run; l \<in> crit m c; release_enter c l (hw m) = Inr ((), h)\<rbrakk>
    \<Longrightarrow> mp_step m (to_phase c (Clear l) id h m)"
| clear_lock: "\<lbrakk>phases m c = Clear l; xchg l 0 (hw m) = Inr (old, h)\<rbrakk>
    \<Longrightarrow> mp_step m (to_phase c Pop (\<lambda>S. S - {l}) h m)"
| end_release: "\<lbrakk>phases m c = Pop; popcli c (hw m) = Inr ((), h)\<rbrakk>
    \<Longrightarrow> mp_step m (to_phase c Run id h m)"

inductive_cases mp_stepE: "mp_step m m'"

text \<open>
  The invariant, relative to the interrupt flag each CPU had before its first lock: a lock word is
  set exactly while one CPU is inside, the recorded CPU is the one that is fully inside, and
  \<open>ncli\<close> counts the locks of a CPU and the operation it is in.
\<close>

definition pending :: "phase \<Rightarrow> nat" where
  "pending p = (case p of Spin l \<Rightarrow> 1 | Pop \<Rightarrow> 1 | _ \<Rightarrow> 0)"

definition lock_inv :: "mp_st \<Rightarrow> bool" where
  "lock_inv m \<longleftrightarrow>
     (\<forall>l. locked (locks (hw m) l) \<noteq> 0 \<longleftrightarrow> (\<exists>c. l \<in> crit m c))
   \<and> (\<forall>l c d. l \<in> crit m c \<longrightarrow> l \<in> crit m d \<longrightarrow> c = d)
   \<and> (\<forall>l c. lk_cpu (locks (hw m) l) = Some c \<longleftrightarrow> l \<in> crit m c \<and> phases m c \<noteq> Got l \<and> phases m c \<noteq> Clear l)
   \<and> (\<forall>l c. phases m c = Got l \<or> phases m c = Clear l \<longrightarrow> l \<in> crit m c)
   \<and> (\<forall>l c. phases m c = Spin l \<longrightarrow> l \<notin> crit m c)"

definition cli_inv :: "(nat \<Rightarrow> bool) \<Rightarrow> mp_st \<Rightarrow> bool" where
  "cli_inv i0 m \<longleftrightarrow>
     (\<forall>c. finite (crit m c) \<and> ncli (cpus (hw m) c) = int (card (crit m c) + pending (phases m c))
        \<and> ifl (cpus (hw m) c) = (ncli (cpus (hw m) c) = 0 \<and> i0 c)
        \<and> (ncli (cpus (hw m) c) \<noteq> 0 \<longrightarrow> intena (cpus (hw m) c) = i0 c))"

lemma pending_simps [simp]: "pending Run = 0" "pending (Spin l) = 1" "pending (Got l) = 0" "pending (Clear l) = 0" "pending Pop = 1"
  by (simp_all add: pending_def)

lemma lock_inv_step: "mp_step m m' \<Longrightarrow> lock_inv m \<Longrightarrow> lock_inv m'"
proof (induction rule: mp_step.induct)
  case (start_acquire m c l h)
  then have "locks h = locks (hw m)"
    by (auto simp: spin_runs split: if_splits)
  then show ?case using start_acquire by (auto simp: lock_inv_def to_phase_def)
next
  case (spin m c l old h)
  then have "locks h = (locks (hw m))(l := (locks (hw m) l)\<lparr>locked := 1\<rparr>)" "locked (locks (hw m) l) \<noteq> 0"
    by (auto simp: spin_runs split: if_splits)
  then show ?case using spin by (auto simp: lock_inv_def to_phase_def)
next
  case (take_lock m c l h)
  then have "locks h = (locks (hw m))(l := (locks (hw m) l)\<lparr>locked := 1\<rparr>)" "locked (locks (hw m) l) = 0"
    by (auto simp: spin_runs split: if_splits)
  then show ?case using take_lock by (auto simp: lock_inv_def to_phase_def)
next
  case (end_acquire m c l pcs h)
  then have "locks h = (locks (hw m))(l := (locks (hw m) l)\<lparr>lk_cpu := Some c, lk_pcs := pcs\<rparr>)"
    by (auto simp: spin_runs split: if_splits)
  then show ?case using end_acquire by (auto simp: lock_inv_def to_phase_def)
next
  case (start_release m c l h)
  then have "locks h = (locks (hw m))(l := (locks (hw m) l)\<lparr>lk_cpu := None, lk_pcs := (lk_pcs (locks (hw m) l))[0 := 0]\<rparr>)"
    by (auto simp: spin_runs split: if_splits)
  then show ?case using start_release by (auto simp: lock_inv_def to_phase_def)
next
  case (clear_lock m c l old h)
  then have "locks h = (locks (hw m))(l := (locks (hw m) l)\<lparr>locked := 0\<rparr>)"
    by (auto simp: spin_runs split: if_splits)
  then show ?case using clear_lock by (auto simp: lock_inv_def to_phase_def)
next
  case (end_release m c h)
  then have "locks h = locks (hw m)"
    by (auto simp: spin_runs split: if_splits)
  then show ?case using end_release by (auto simp: lock_inv_def to_phase_def)
qed

lemma cli_inv_step: "mp_step m m' \<Longrightarrow> lock_inv m \<Longrightarrow> cli_inv i0 m \<Longrightarrow> cli_inv i0 m'"
proof (induction rule: mp_step.induct)
  case (start_acquire m c l h)
  then have "cpus h = (cpus (hw m))(c := (cpus (hw m) c)\<lparr>ncli := ncli (cpus (hw m) c) + 1,
      intena := if ncli (cpus (hw m) c) = 0 then ifl (cpus (hw m) c) else intena (cpus (hw m) c), ifl := False\<rparr>)"
    by (auto simp: spin_runs lock_inv_def split: if_splits)
  then show ?case using start_acquire by (auto simp: cli_inv_def to_phase_def)
next
  case (spin m c l old h)
  then have "cpus h = cpus (hw m)"
    by (auto simp: spin_runs lock_inv_def split: if_splits)
  then show ?case using spin by (auto simp: cli_inv_def to_phase_def)
next
  case (take_lock m c l h)
  then have "cpus h = cpus (hw m)"
    by (auto simp: spin_runs lock_inv_def split: if_splits)
  then show ?case using take_lock by (auto simp: cli_inv_def to_phase_def lock_inv_def)
next
  case (end_acquire m c l pcs h)
  then have "cpus h = cpus (hw m)"
    by (auto simp: spin_runs lock_inv_def split: if_splits)
  then show ?case using end_acquire by (auto simp: cli_inv_def to_phase_def)
next
  case (start_release m c l h)
  then have "cpus h = cpus (hw m)"
    by (auto simp: spin_runs lock_inv_def split: if_splits)
  then show ?case using start_release by (auto simp: cli_inv_def to_phase_def)
next
  case (clear_lock m c l old h)
  then have "cpus h = cpus (hw m)" "l \<in> crit m c"
    by (auto simp: spin_runs lock_inv_def split: if_splits)
  moreover from this have "0 < card (crit m c)" using clear_lock.prems(2) by (auto simp: cli_inv_def card_gt_0_iff)
  ultimately show ?case using clear_lock by (auto simp: cli_inv_def to_phase_def)
next
  case (end_release m c h)
  then have "cpus h = (cpus (hw m))(c := (cpus (hw m) c)\<lparr>ncli := ncli (cpus (hw m) c) - 1,
      ifl := ncli (cpus (hw m) c) = 1 \<and> intena (cpus (hw m) c)\<rparr>)"
    by (auto simp: spin_runs lock_inv_def split: if_splits)
  then show ?case using end_release by (auto simp: cli_inv_def to_phase_def)
qed

definition boot_state :: "(nat \<Rightarrow> bool) \<Rightarrow> mp_st \<Rightarrow> bool" where
  "boot_state i0 m \<longleftrightarrow> (\<forall>l. locked (locks (hw m) l) = 0 \<and> lk_cpu (locks (hw m) l) = None)
     \<and> (\<forall>c. phases m c = Run \<and> crit m c = {} \<and> ncli (cpus (hw m) c) = 0 \<and> ifl (cpus (hw m) c) = i0 c)"

lemma reachable_inv:
  assumes "mp_step\<^sup>*\<^sup>* m0 m" "boot_state i0 m0"
  shows "lock_inv m \<and> cli_inv i0 m"
  using assms(1)
proof (induction rule: rtranclp_induct)
  case base
  show ?case using assms(2) by (simp add: boot_state_def lock_inv_def cli_inv_def)
next
  case (step m m')
  then show ?case using lock_inv_step cli_inv_step by blast
qed

text \<open>
  C5 (safety): spin locks exclude each other. In every state that any interleaving of the CPUs
  reaches, at most one CPU is inside a lock (between the \<open>xchg\<close> that took it and the one that
  clears it), that CPU's interrupts are off, and \<open>holding\<close> is true exactly for a CPU that is
  inside and neither still finishing its \<open>acquire\<close> nor already leaving.
\<close>

theorem spinlock_mutex:
  assumes "boot_state i0 m0" "mp_step\<^sup>*\<^sup>* m0 m"
  shows "(\<forall>c d l. l \<in> crit m c \<and> l \<in> crit m d \<longrightarrow> c = d)
    \<and> (\<forall>c l. l \<in> crit m c \<longrightarrow> \<not> ifl (cpus (hw m) c))
    \<and> (\<forall>c l. holding c l (hw m) \<longleftrightarrow> l \<in> crit m c \<and> phases m c \<noteq> Got l \<and> phases m c \<noteq> Clear l)"
proof -
  have inv: "lock_inv m" "cli_inv i0 m" using reachable_inv [OF assms(2,1)] by simp_all
  have "\<not> ifl (cpus (hw m) c)" if "l \<in> crit m c" for c l
  proof -
    have "0 < card (crit m c)" using inv(2) that by (auto simp: cli_inv_def card_gt_0_iff)
    then show ?thesis using inv(2) by (simp add: cli_inv_def)
  qed
  then show ?thesis using inv(1) by (auto simp: lock_inv_def holding_def)
qed

text \<open>
  C31 (error): code that acquires only locks it does not hold and releases only locks it holds
  never runs into a panic of \<open>acquire\<close>, \<open>release\<close> or \<open>popcli\<close>, whatever the other
  CPUs do; and once a CPU has left its last lock its interrupt flag is what it was before its first.
\<close>

theorem spinlock_no_panic:
  assumes "boot_state i0 m0" "mp_step\<^sup>*\<^sup>* m0 m"
  shows "(\<forall>c l. phases m c = Run \<and> l \<notin> crit m c \<longrightarrow> (\<exists>h. acquire_enter c l (hw m) = Inr ((), h)))
    \<and> (\<forall>c l. phases m c = Run \<and> l \<in> crit m c \<longrightarrow> (\<exists>h. release_enter c l (hw m) = Inr ((), h)))
    \<and> (\<forall>c. phases m c = Pop \<longrightarrow> (\<exists>h. popcli c (hw m) = Inr ((), h)))
    \<and> (\<forall>c. phases m c = Run \<and> crit m c = {} \<longrightarrow> ifl (cpus (hw m) c) = i0 c)"
proof -
  have inv: "lock_inv m" "cli_inv i0 m" using reachable_inv [OF assms(2,1)] by simp_all
  then have "holding c l (hw m) \<longleftrightarrow> l \<in> crit m c \<and> phases m c \<noteq> Got l \<and> phases m c \<noteq> Clear l" for c l
    by (auto simp: lock_inv_def holding_def)
  then show ?thesis using inv(2) by (simp add: spin_runs cli_inv_def)
qed

text \<open>Two CPUs with interrupts on, no lock taken.\<close>

definition mp0 :: mp_st where
  "mp0 = \<lparr>hw = \<lparr>cpus = (\<lambda>c. \<lparr>ncli = 0, intena = False, ifl = True\<rparr>),
       locks = (\<lambda>l. \<lparr>locked = 0, lk_name = [], lk_cpu = None, lk_pcs = replicate 10 0\<rparr>)\<rparr>,
     phases = (\<lambda>_. Run), crit = (\<lambda>_. {})\<rparr>"

lemma mp0_boot: "boot_state (\<lambda>_. True) mp0"
  by (simp add: boot_state_def mp0_def)

text \<open>CPU 0 has taken lock 7 and CPU 2 spins on it.\<close>

lemma mp0_contended:
  "\<exists>m. mp_step\<^sup>*\<^sup>* mp0 m \<and> 7 \<in> crit m 0 \<and> phases m 0 = Run \<and> phases m 2 = Spin 7"
proof -
  obtain h1 where h1: "acquire_enter 0 7 (hw mp0) = Inr ((), h1)" by (simp add: acquire_enter_run pushcli_run holding_def mp0_def)
  define m1 where "m1 = to_phase 0 (Spin 7) id h1 mp0"
  have 1: "mp_step mp0 m1" unfolding m1_def by (rule start_acquire [OF _ _ h1]) (simp_all add: mp0_def)
  have l1: "locked (locks h1 7) = 0" "lk_cpu (locks h1 7) = None"
    using h1 by (auto simp: acquire_enter_run pushcli_run mp0_def split: if_splits)
  obtain h2 where h2: "xchg 7 1 h1 = Inr (0, h2)" using l1 by (simp add: xchg_run)
  define m2 where "m2 = to_phase 0 (Got 7) (insert 7) h2 m1"
  have 2: "mp_step m1 m2" unfolding m2_def by (rule take_lock [where l = 7]) (simp_all add: m1_def to_phase_def h2)
  obtain h3 where h3: "acquire_done 0 7 [] h2 = Inr ((), h3)" by (simp add: acquire_done_run)
  define m3 where "m3 = to_phase 0 Run id h3 m2"
  have 3: "mp_step m2 m3" unfolding m3_def by (rule end_acquire [where l = 7 and pcs = "[]"]) (simp_all add: m2_def to_phase_def h3)
  have "lk_cpu (locks h3 7) = Some 0" using h3 by (auto simp: acquire_done_run)
  then obtain h4 where h4: "acquire_enter 2 7 h3 = Inr ((), h4)" by (simp add: acquire_enter_run pushcli_run holding_def)
  define m4 where "m4 = to_phase 2 (Spin 7) id h4 m3"
  have 4: "mp_step m3 m4" unfolding m4_def
    by (rule start_acquire [where l = 7]) (simp_all add: m3_def m2_def m1_def to_phase_def mp0_def h4)
  have "mp_step\<^sup>*\<^sup>* mp0 m4"     by (rule rtranclp.intros(2) [OF rtranclp.intros(2) [OF rtranclp.intros(2) [OF r_into_rtranclp [of mp_step, OF 1] 2] 3] 4])
  moreover have "7 \<in> crit m4 0" "phases m4 0 = Run" "phases m4 2 = Spin 7"
    by (simp_all add: m4_def m3_def m2_def m1_def to_phase_def)
  ultimately show ?thesis by blast
qed

theorem spinlock_mutex_witness:
  "\<exists>m. mp_step\<^sup>*\<^sup>* mp0 m \<and> 7 \<in> crit m 0 \<and> 7 \<notin> crit m 2 \<and> holding 0 7 (hw m) \<and> \<not> holding 2 7 (hw m)"
proof -
  obtain m where m: "mp_step\<^sup>*\<^sup>* mp0 m" "7 \<in> crit m 0" "phases m 0 = Run" "phases m 2 = Spin 7"
    using mp0_contended by blast
  note t = spinlock_mutex [OF mp0_boot m(1)]
  have "7 \<notin> crit m 2" using t m(2) by (meson zero_neq_numeral)
  moreover have "holding 0 7 (hw m)" "\<not> holding 2 7 (hw m)" using t m calculation by simp_all
  ultimately show ?thesis using m(1,2) by blast
qed

theorem spinlock_no_panic_witness:
  "\<exists>m. mp_step\<^sup>*\<^sup>* mp0 m \<and> (\<exists>h. release_enter 0 7 (hw m) = Inr ((), h))"
proof -
  obtain m where m: "mp_step\<^sup>*\<^sup>* mp0 m" "7 \<in> crit m 0" "phases m 0 = Run" "phases m 2 = Spin 7"
    using mp0_contended by blast
  with spinlock_no_panic [OF mp0_boot m(1)] show ?thesis by blast
qed

end

