(* ===== verification/Pipe.thy ===== *)
theory Pipe
  imports Prelude
begin

text \<open>
  Pipes (\<open>pipe.c\<close>): a ring buffer with two 32 bit counters that only ever grow and may wrap
  around. \<open>pipewrite\<close> and \<open>piperead\<close> hold the pipe's lock except while they sleep, so
  each stretch between two sleeps is one atomic segment; a segment returns, or goes to sleep with
  what is left to do, and it says which of the pipe's two channels it has woken. Segments of any number of processes, their wakeups, kills and the closing of
  the two ends interleave in a step relation. (The calls as the file layer makes them, where going
  to sleep ends the call, are in the theory of files.)
\<close>

subsection \<open>The ring buffer\<close>

abbreviation PIPESIZE :: nat where "PIPESIZE \<equiv> 512"

record pipe =
  pdata :: "byte list"
  nread :: u32
  nwrite :: u32
  readopen :: bool
  writeopen :: bool

definition pipe_init :: "byte list \<Rightarrow> pipe" where
  "pipe_init junk = \<lparr>pdata = junk, nread = 0, nwrite = 0, readopen = True, writeopen = True\<rparr>"

datatype wseg = WDone | WFail | WSleep "byte list"
datatype rseg = RDone "byte list" | RFail | RSleep

text \<open>The channels \<open>&p->nread\<close> and \<open>&p->nwrite\<close>, on which readers and writers sleep.\<close>

datatype pchan = NRead | NWrite

definition pipe_put :: "byte \<Rightarrow> pipe \<Rightarrow> pipe" where
  "pipe_put b p = p\<lparr>pdata := (pdata p)[unat (nwrite p) mod PIPESIZE := b], nwrite := nwrite p + 1\<rparr>"

text \<open>
  The loop of \<open>pipewrite\<close> from the byte it is at, up to its end or the next sleep, with the
  channels it wakes on the way.
\<close>

fun pipewrite_seg :: "bool \<Rightarrow> byte list \<Rightarrow> pipe \<Rightarrow> wseg \<times> pchan list \<times> pipe" where
  "pipewrite_seg killed [] p = (WDone, [NRead], p)"
| "pipewrite_seg killed (b # bs) p =
     (if nwrite p = nread p + of_nat PIPESIZE then
        if \<not> readopen p \<or> killed then (WFail, [], p) else (WSleep (b # bs), [NRead], p)
      else pipewrite_seg killed bs (pipe_put b p))"

fun piperead_copy :: "nat \<Rightarrow> pipe \<Rightarrow> byte list \<times> pipe" where
  "piperead_copy 0 p = ([], p)"
| "piperead_copy (Suc n) p =
     (if nread p = nwrite p then ([], p)
      else
        let b = pdata p ! (unat (nread p) mod PIPESIZE);
            (bs, p') = piperead_copy n (p\<lparr>nread := nread p + 1\<rparr>) in
        (b # bs, p'))"

definition piperead_seg :: "bool \<Rightarrow> nat \<Rightarrow> pipe \<Rightarrow> rseg \<times> pchan list \<times> pipe" where
  "piperead_seg killed n p =
     (if nread p = nwrite p \<and> writeopen p then if killed then (RFail, [], p) else (RSleep, [], p)
      else let (bs, p') = piperead_copy n p in (RDone bs, [NWrite], p'))"

text \<open>The state change of \<open>pipeclose\<close>, the channel it wakes, and whether it frees the pipe.\<close>

definition pipeclose_seg :: "bool \<Rightarrow> pipe \<Rightarrow> bool \<times> pchan list \<times> pipe" where
  "pipeclose_seg writable p =
     (let (p', w) = (if writable then (p\<lparr>writeopen := False\<rparr>, NRead) else (p\<lparr>readopen := False\<rparr>, NWrite)) in
      (\<not> readopen p' \<and> \<not> writeopen p', [w], p'))"

subsection \<open>The pipe as a bounded queue\<close>

definition pcount :: "pipe \<Rightarrow> nat" where
  "pcount p = unat (nwrite p - nread p)"

definition contents :: "pipe \<Rightarrow> byte list" where
  "contents p = map (\<lambda>i. pdata p ! ((unat (nread p) + i) mod PIPESIZE)) [0..<pcount p]"

definition pipe_inv :: "pipe \<Rightarrow> bool" where
  "pipe_inv p \<longleftrightarrow> length (pdata p) = PIPESIZE \<and> pcount p \<le> PIPESIZE"

lemma length_contents [simp]: "length (contents p) = pcount p"
  by (simp add: contents_def)

lemma unat_plus_mod: "unat (a + of_nat i :: u32) mod PIPESIZE = (unat a + i) mod PIPESIZE"
proof -
  have "unat (a + of_nat i) = (unat a + i) mod 2 ^ 32"
    by (simp add: unat_word_ariths unat_of_nat take_bit_eq_mod mod_simps)
  then show ?thesis by (simp add: mod_mod_cancel)
qed

lemma full_iff: "nwrite p = nread p + of_nat PIPESIZE \<longleftrightarrow> pcount p = PIPESIZE"
proof -
  have "nwrite p = nread p + of_nat PIPESIZE \<longleftrightarrow> nwrite p - nread p = of_nat PIPESIZE" by (auto simp: diff_eq_eq)
  also have "\<dots> \<longleftrightarrow> unat (nwrite p - nread p) = unat (of_nat PIPESIZE :: u32)" by (rule word_unat_eq_iff)
  finally show ?thesis by (simp add: pcount_def)
qed

lemma empty_iff: "nread p = nwrite p \<longleftrightarrow> contents p = []"
  by (auto simp: contents_def pcount_def unsigned_eq_0_iff)

lemma put_law:
  assumes "pipe_inv p" "pcount p < PIPESIZE"
  shows "contents (pipe_put b p) = contents p @ [b]" "pipe_inv (pipe_put b p)" "pcount (pipe_put b p) = Suc (pcount p)"
proof -
  have d: "nwrite p + 1 - nread p = (nwrite p - nread p) + 1" by simp
  have c: "unat (nwrite p + 1 - nread p) = Suc (pcount p)"
    unfolding d using assms(2) by (subst unat_add_lem [THEN iffD1]) (simp_all add: pcount_def)
  then show pc: "pcount (pipe_put b p) = Suc (pcount p)" by (simp add: pcount_def pipe_put_def)
  then show "pipe_inv (pipe_put b p)" using assms by (simp add: pipe_inv_def pipe_put_def)
  have "nwrite p = nread p + of_nat (pcount p)" by (simp add: pcount_def)
  then have w: "unat (nwrite p) mod PIPESIZE = (unat (nread p) + pcount p) mod PIPESIZE" by (metis unat_plus_mod)
  have ne: "(unat (nread p) + pcount p) mod PIPESIZE \<noteq> (unat (nread p) + i) mod PIPESIZE" if "i < pcount p" for i
  proof
    assume "(unat (nread p) + pcount p) mod PIPESIZE = (unat (nread p) + i) mod PIPESIZE"
    then have "PIPESIZE dvd (unat (nread p) + pcount p) - (unat (nread p) + i)"
      by (intro mod_eq_dvd_iff_nat [THEN iffD1]) (use that in simp_all)
    then have "PIPESIZE dvd pcount p - i" by simp
    with that assms(2) show False by (auto dest!: dvd_imp_le)
  qed
  have len: "length (pdata p) = PIPESIZE" using assms(1) by (simp add: pipe_inv_def)
  have "contents (pipe_put b p)
      = map (\<lambda>i. (pdata p)[unat (nwrite p) mod PIPESIZE := b] ! ((unat (nread p) + i) mod PIPESIZE)) [0..<Suc (pcount p)]"
    using pc by (simp add: contents_def) (simp add: pipe_put_def)
  also have "\<dots> = contents p @ [b]"
    using len by (auto simp: contents_def nth_list_update w dest: ne)
  finally show "contents (pipe_put b p) = contents p @ [b]" .
qed

lemma get_law:
  assumes "pipe_inv p" "nread p \<noteq> nwrite p"
  shows "contents p = pdata p ! (unat (nread p) mod PIPESIZE) # contents (p\<lparr>nread := nread p + 1\<rparr>)"
    "pipe_inv (p\<lparr>nread := nread p + 1\<rparr>)"
proof -
  have pos: "0 < pcount p" using assms(2) empty_iff [of p] by (metis length_contents length_greater_0_conv)
  have d: "nwrite p - (nread p + 1) = (nwrite p - nread p) - 1" by simp
  have "1 \<le> nwrite p - nread p" using pos by (simp add: pcount_def word_le_nat_alt)
  then have c: "unat (nwrite p - (nread p + 1)) = pcount p - 1" unfolding d by (simp add: unat_sub pcount_def)
  then have pc: "pcount (p\<lparr>nread := nread p + 1\<rparr>) = pcount p - 1" by (simp add: pcount_def)
  then show "pipe_inv (p\<lparr>nread := nread p + 1\<rparr>)" using assms(1) by (auto simp: pipe_inv_def)
  have "unat (nread p + 1) mod PIPESIZE = (unat (nread p) + 1) mod PIPESIZE" using unat_plus_mod [of "nread p" 1] by simp
  then have m: "(unat (nread p + 1) + i) mod PIPESIZE = (unat (nread p) + Suc i) mod PIPESIZE" for i
    by (metis add_Suc_right add_Suc_shift Suc_eq_plus1 mod_add_left_eq)
  have "[0..<pcount p] = 0 # map Suc [0..<pcount p - 1]" using pos by (simp add: map_Suc_upt upt_conv_Cons)
  then show "contents p = pdata p ! (unat (nread p) mod PIPESIZE) # contents (p\<lparr>nread := nread p + 1\<rparr>)"
    by (simp add: contents_def pc m comp_def)
qed

lemma put_fields [simp]: "readopen (pipe_put b p) = readopen p" "writeopen (pipe_put b p) = writeopen p"
  by (simp_all add: pipe_put_def)

text \<open>A write segment appends a prefix of its bytes; it stops early only on a full pipe.\<close>

lemma pipewrite_seg_law:
  assumes "pipe_inv p" "pipewrite_seg killed bs p = (r, ws, p')"
  shows "ws = (if r = WFail then [] else [NRead]) \<and> pipe_inv p' \<and> readopen p' = readopen p \<and> writeopen p' = writeopen p
    \<and> (\<exists>k \<le> length bs. contents p' = contents p @ take k bs
      \<and> (case r of WDone \<Rightarrow> k = length bs
         | WFail \<Rightarrow> k < length bs \<and> length (contents p') = PIPESIZE \<and> (\<not> readopen p \<or> killed)
         | WSleep rs \<Rightarrow> k < length bs \<and> rs = drop k bs \<and> length (contents p') = PIPESIZE \<and> readopen p \<and> \<not> killed))"
  using assms
proof (induction bs arbitrary: p)
  case Nil
  then show ?case by auto
next
  case (Cons b bs)
  show ?case
  proof (cases "pcount p = PIPESIZE")
    case True
    then show ?thesis using Cons.prems full_iff [of p] by (auto split: if_splits intro!: exI [of _ 0])
  next
    case False
    then have lt: "pcount p < PIPESIZE" using Cons.prems(1) by (simp add: pipe_inv_def)
    note put = put_law [OF Cons.prems(1) lt, of b]
    have "pipewrite_seg killed bs (pipe_put b p) = (r, ws, p')" using Cons.prems(2) False full_iff [of p] by simp
    from Cons.IH [OF put(2) this] obtain k where
      k: "k \<le> length bs" "contents p' = contents p @ [b] @ take k bs" "pipe_inv p'" "readopen p' = readopen p"
        "ws = (if r = WFail then [] else [NRead])" "writeopen p' = writeopen p" and
      r: "case r of WDone \<Rightarrow> k = length bs
         | WFail \<Rightarrow> k < length bs \<and> length (contents p') = PIPESIZE \<and> (\<not> readopen p \<or> killed)
         | WSleep rs \<Rightarrow> k < length bs \<and> rs = drop k bs \<and> length (contents p') = PIPESIZE \<and> readopen p \<and> \<not> killed"
      unfolding put(1) put_fields append_assoc by blast
    show ?thesis using k r by (auto intro!: exI [of _ "Suc k"] split: wseg.splits)
  qed
qed

text \<open>A read takes the first bytes of the queue, as many as asked for and there are.\<close>

lemma piperead_copy_law:
  "pipe_inv p \<Longrightarrow> piperead_copy n p = (bs, p') \<Longrightarrow>
   bs = take n (contents p) \<and> contents p' = drop n (contents p) \<and> pipe_inv p'
   \<and> readopen p' = readopen p \<and> writeopen p' = writeopen p"
proof (induction n arbitrary: p bs p')
  case 0
  then show ?case by auto
next
  case (Suc n)
  show ?case
  proof (cases "nread p = nwrite p")
    case True
    then show ?thesis using Suc.prems empty_iff [of p] by auto
  next
    case False
    note get = get_law [OF Suc.prems(1) False]
    obtain cs q where c: "piperead_copy n (p\<lparr>nread := nread p + 1\<rparr>) = (cs, q)" by fastforce
    then have "bs = pdata p ! (unat (nread p) mod PIPESIZE) # cs" "p' = q" using Suc.prems(2) False by auto
    then show ?thesis using Suc.IH [OF get(2) c] get(1) by simp
  qed
qed

subsection \<open>Readers and writers\<close>

text \<open>
  What a process is doing with the pipe. \<open>sent\<close> and \<open>rcvd\<close> record the bytes that went
  in and came out. A process uses an end only while it is open, and an end is closed when no
  process is using it. \<open>kills\<close> says whether a process may be killed while it writes.
\<close>

datatype act = Idle | Writing "byte list" | WAsleep "byte list" | Reading nat | RAsleep nat

record pipe_sys =
  ring :: pipe
  acts :: "nat \<Rightarrow> act"
  sent :: "byte list"
  rcvd :: "byte list"

fun wake_reader :: "act \<Rightarrow> act" where
  "wake_reader (RAsleep n) = Reading n"
| "wake_reader a = a"

fun wake_writer :: "act \<Rightarrow> act" where
  "wake_writer (WAsleep bs) = Writing bs"
| "wake_writer a = a"

text \<open>What the wakeups of a segment do to a process.\<close>

fun wake :: "pchan list \<Rightarrow> act \<Rightarrow> act" where
  "wake [] a = a"
| "wake (NRead # ws) a = wake ws (wake_reader a)"
| "wake (NWrite # ws) a = wake ws (wake_writer a)"

lemma wake_simps [simp]: "wake [] = id" "wake [NRead] = wake_reader" "wake [NWrite] = wake_writer"
  by (simp_all add: fun_eq_iff)

definition is_writer :: "act \<Rightarrow> bool" where
  "is_writer a \<longleftrightarrow> (\<exists>bs. a = Writing bs \<or> a = WAsleep bs)"

definition is_reader :: "act \<Rightarrow> bool" where
  "is_reader a \<longleftrightarrow> (\<exists>n. a = Reading n \<or> a = RAsleep n)"

inductive pipe_step :: "bool \<Rightarrow> pipe_sys \<Rightarrow> pipe_sys \<Rightarrow> bool" for kills where
  begin_write: "acts s i = Idle \<Longrightarrow> writeopen (ring s) \<Longrightarrow> pipe_step kills s (s\<lparr>acts := (acts s)(i := Writing bs)\<rparr>)"
| begin_read: "acts s i = Idle \<Longrightarrow> readopen (ring s) \<Longrightarrow> pipe_step kills s (s\<lparr>acts := (acts s)(i := Reading n)\<rparr>)"
| write_done: "acts s i = Writing bs \<Longrightarrow> pipewrite_seg k bs (ring s) = (WDone, ws, p) \<Longrightarrow>
    pipe_step kills s (s\<lparr>ring := p, acts := wake ws \<circ> (acts s)(i := Idle), sent := sent s @ bs\<rparr>)"
| write_sleep: "acts s i = Writing bs \<Longrightarrow> pipewrite_seg k bs (ring s) = (WSleep rs, ws, p) \<Longrightarrow>
    pipe_step kills s (s\<lparr>ring := p, acts := wake ws \<circ> (acts s)(i := WAsleep rs),
      sent := sent s @ take (length bs - length rs) bs\<rparr>)"
| write_fail: "acts s i = Writing bs \<Longrightarrow> pipewrite_seg k bs (ring s) = (WFail, ws, p) \<Longrightarrow> k \<longrightarrow> kills \<Longrightarrow>
    pipe_step kills s (s\<lparr>ring := p, acts := wake ws \<circ> (acts s)(i := Idle),
      sent := sent s @ take (length (contents p) - length (contents (ring s))) bs\<rparr>)"
| read_done: "acts s i = Reading n \<Longrightarrow> piperead_seg k n (ring s) = (RDone bs, ws, p) \<Longrightarrow>
    pipe_step kills s (s\<lparr>ring := p, acts := wake ws \<circ> (acts s)(i := Idle), rcvd := rcvd s @ bs\<rparr>)"
| read_sleep: "acts s i = Reading n \<Longrightarrow> piperead_seg k n (ring s) = (RSleep, ws, p) \<Longrightarrow>
    pipe_step kills s (s\<lparr>ring := p, acts := wake ws \<circ> (acts s)(i := RAsleep n)\<rparr>)"
| read_fail: "acts s i = Reading n \<Longrightarrow> piperead_seg k n (ring s) = (RFail, ws, p) \<Longrightarrow>
    pipe_step kills s (s\<lparr>ring := p, acts := wake ws \<circ> (acts s)(i := Idle)\<rparr>)"
| close_write: "\<forall>i. \<not> is_writer (acts s i) \<Longrightarrow> pipeclose_seg True (ring s) = (free, ws, p) \<Longrightarrow>
    pipe_step kills s (s\<lparr>ring := p, acts := wake ws \<circ> acts s\<rparr>)"
| close_read: "\<forall>i. \<not> is_reader (acts s i) \<Longrightarrow> pipeclose_seg False (ring s) = (free, ws, p) \<Longrightarrow>
    pipe_step kills s (s\<lparr>ring := p, acts := wake ws \<circ> acts s\<rparr>)"
| kill: "pipe_step kills s (s\<lparr>acts := (acts s)(i := wake_reader (wake_writer (acts s i)))\<rparr>)"

definition fifo_inv :: "pipe_sys \<Rightarrow> bool" where
  "fifo_inv s \<longleftrightarrow> pipe_inv (ring s) \<and> rcvd s @ contents (ring s) = sent s"

definition wake_inv :: "pipe_sys \<Rightarrow> bool" where
  "wake_inv s \<longleftrightarrow>
     (\<forall>i n. acts s i = RAsleep n \<longrightarrow> contents (ring s) = [] \<and> writeopen (ring s))
   \<and> (\<forall>i bs. acts s i = WAsleep bs \<longrightarrow> length (contents (ring s)) = PIPESIZE \<and> readopen (ring s))
   \<and> (\<forall>i. is_reader (acts s i) \<longrightarrow> readopen (ring s)) \<and> (\<forall>i. is_writer (acts s i) \<longrightarrow> writeopen (ring s))"

lemma contents_flags [simp]: "contents (p\<lparr>writeopen := b\<rparr>) = contents p" "contents (p\<lparr>readopen := b\<rparr>) = contents p"
    "pipe_inv (p\<lparr>writeopen := b\<rparr>) = pipe_inv p" "pipe_inv (p\<lparr>readopen := b\<rparr>) = pipe_inv p"
    "pcount (p\<lparr>writeopen := b\<rparr>) = pcount p" "pcount (p\<lparr>readopen := b\<rparr>) = pcount p"
  by (simp_all add: contents_def pcount_def pipe_inv_def)

lemma piperead_segD:
  assumes "pipe_inv p" "piperead_seg k n p = (r, ws, p')"
  shows "ws = (case r of RDone _ \<Rightarrow> [NWrite] | _ \<Rightarrow> []) \<and> pipe_inv p' \<and> readopen p' = readopen p \<and> writeopen p' = writeopen p
    \<and> (case r of RDone bs \<Rightarrow> contents p = bs @ contents p' \<and> (contents p \<noteq> [] \<or> \<not> writeopen p)
       | RSleep \<Rightarrow> p' = p \<and> contents p = [] \<and> writeopen p | RFail \<Rightarrow> p' = p \<and> k)"
  using assms piperead_copy_law [OF assms(1), of n] empty_iff [of p]
  by (auto simp: piperead_seg_def split: if_splits prod.splits)

lemma fifo_inv_step: "pipe_step kills s s' \<Longrightarrow> fifo_inv s \<Longrightarrow> fifo_inv s'"
proof (induction rule: pipe_step.induct)
  case (write_done s i bs k ws p)
  then show ?case using pipewrite_seg_law [of "ring s" k bs WDone ws p] by (auto simp: fifo_inv_def)
next
  case (write_sleep s i bs k rs ws p)
  then show ?case using pipewrite_seg_law [of "ring s" k bs "WSleep rs" ws p] by (auto simp: fifo_inv_def)
next
  case (write_fail s i bs k ws p)
  then obtain j where j: "pipe_inv p" "j \<le> length bs" "contents p = contents (ring s) @ take j bs"
    using pipewrite_seg_law [of "ring s" k bs WFail ws p] by (auto simp: fifo_inv_def)
  then have "length (contents p) - length (contents (ring s)) = j" by (simp del: length_contents)
  then show ?case using write_fail j by (simp add: fifo_inv_def)
next
  case (read_done s i n k bs ws p)
  then show ?case using piperead_segD [of "ring s" k n "RDone bs" ws p] by (auto simp: fifo_inv_def)
next
  case (read_sleep s i n k ws p)
  then show ?case using piperead_segD [of "ring s" k n RSleep ws p] by (auto simp: fifo_inv_def)
next
  case (read_fail s i n k ws p)
  then show ?case using piperead_segD [of "ring s" k n RFail ws p] by (auto simp: fifo_inv_def)
qed (auto simp: fifo_inv_def pipeclose_seg_def Let_def)

lemma wake_not_asleep [simp]: "wake_reader a \<noteq> RAsleep n" "wake_writer a \<noteq> WAsleep bs"
    "wake_reader a = WAsleep bs \<longleftrightarrow> a = WAsleep bs" "wake_writer a = RAsleep n \<longleftrightarrow> a = RAsleep n"
    "is_reader (wake_reader a) = is_reader a" "is_writer (wake_writer a) = is_writer a"
    "is_reader (wake_writer a) = is_reader a" "is_writer (wake_reader a) = is_writer a"
  by (cases a; simp add: is_reader_def is_writer_def)+

lemma is_simps [simp]: "is_writer (Writing bs)" "is_writer (WAsleep bs)" "\<not> is_writer Idle" "\<not> is_writer (Reading n)"
    "\<not> is_writer (RAsleep n)" "is_reader (Reading n)" "is_reader (RAsleep n)" "\<not> is_reader Idle"
    "\<not> is_reader (Writing bs)" "\<not> is_reader (WAsleep bs)"
  by (simp_all add: is_writer_def is_reader_def)

lemma wake_invD: "wake_inv s \<Longrightarrow> acts s i = Reading n \<Longrightarrow> readopen (ring s)"
    "wake_inv s \<Longrightarrow> acts s i = RAsleep n \<Longrightarrow> readopen (ring s)" "wake_inv s \<Longrightarrow> acts s i = Writing bs \<Longrightarrow> writeopen (ring s)"
  unfolding wake_inv_def by (metis is_simps)+

lemma wake_inv_write:
  assumes "wake_inv s" "acts s i = Writing bs" "pipe_inv p" "contents p = contents (ring s) @ cs"
    "readopen p = readopen (ring s)" "writeopen p = writeopen (ring s)"
    "a = Idle \<or> (\<exists>rs. a = WAsleep rs) \<and> length (contents p) = PIPESIZE \<and> readopen p" "ws = [NRead]"
  shows "wake_inv (s\<lparr>ring := p, acts := wake ws \<circ> (acts s)(i := a), sent := x\<rparr>)"
proof -
  have "is_writer (acts s i)" using assms(2) by simp
  then have w: "writeopen p" using assms(1,6) by (auto simp: wake_inv_def)
  have "length (contents p) = PIPESIZE" if "acts s j = WAsleep rs" for j rs
    using assms(1,3,4) that by (fastforce simp: wake_inv_def pipe_inv_def simp flip: length_contents)
  then show ?thesis using assms(1,5,7,8) w by (auto simp: wake_inv_def simp del: length_contents)
qed

lemma wake_inv_step: "pipe_step False s s' \<Longrightarrow> fifo_inv s \<Longrightarrow> wake_inv s \<Longrightarrow> wake_inv s'"
proof (induction rule: pipe_step.induct)
  case (write_done s i bs k ws p)
  then obtain "ws = [NRead]" "pipe_inv p" "contents p = contents (ring s) @ bs" "readopen p = readopen (ring s)" "writeopen p = writeopen (ring s)"
    using pipewrite_seg_law [of "ring s" k bs WDone ws p] by (auto simp: fifo_inv_def)
  then show ?case using write_done by (intro wake_inv_write) auto
next
  case (write_sleep s i bs k rs ws p)
  then obtain j where "ws = [NRead]" "pipe_inv p" "contents p = contents (ring s) @ take j bs" "readopen p = readopen (ring s)"
      "writeopen p = writeopen (ring s)" "length (contents p) = PIPESIZE" "readopen p"
    using pipewrite_seg_law [of "ring s" k bs "WSleep rs" ws p] by (auto simp: fifo_inv_def simp del: length_contents)
  then show ?case using write_sleep by (intro wake_inv_write) auto
next
  case (write_fail s i bs k ws p)
  then have p: "\<not> readopen (ring s)" "readopen p = readopen (ring s)" "writeopen p = writeopen (ring s)" "ws = []"
    using pipewrite_seg_law [of "ring s" k bs WFail ws p] by (auto simp: fifo_inv_def)
  have r: "acts s j \<noteq> RAsleep m" for j m using p(1) wake_invD(2) [OF write_fail.prems(2)] by blast
  have w: "acts s j \<noteq> WAsleep cs" for j cs using p(1) write_fail.prems(2) unfolding wake_inv_def by blast
  show ?case using p r w write_fail.prems(2) unfolding wake_inv_def by auto
next
  case (read_done s i n k bs ws p)
  then have "pipe_inv (ring s)" "readopen (ring s)" by (simp_all add: fifo_inv_def wake_invD)
  with piperead_segD [OF this(1) read_done(2)] show ?case using read_done
    by (auto simp: wake_inv_def split: if_splits)
next
  case (read_sleep s i n k ws p)
  then have "pipe_inv (ring s)" "readopen (ring s)" by (simp_all add: fifo_inv_def wake_invD)
  with piperead_segD [OF this(1) read_sleep(2)] show ?case using read_sleep
    by (auto simp: wake_inv_def split: if_splits)
next
  case (read_fail s i n k ws p)
  then have "pipe_inv (ring s)" "readopen (ring s)" by (simp_all add: fifo_inv_def wake_invD)
  with piperead_segD [OF this(1) read_fail(2)] show ?case using read_fail
    by (auto simp: wake_inv_def split: if_splits)
qed (auto simp: wake_inv_def pipeclose_seg_def Let_def split: if_splits)

definition pipe_sys0 :: "byte list \<Rightarrow> pipe_sys" where
  "pipe_sys0 junk = \<lparr>ring = pipe_init junk, acts = (\<lambda>_. Idle), sent = [], rcvd = []\<rparr>"

lemma pipe_sys0_inv: "length junk = PIPESIZE \<Longrightarrow> fifo_inv (pipe_sys0 junk) \<and> wake_inv (pipe_sys0 junk)"
  by (simp add: pipe_sys0_def pipe_init_def fifo_inv_def wake_inv_def pipe_inv_def pcount_def contents_def)

lemma fifo_inv_reach: "(pipe_step kills)\<^sup>*\<^sup>* s s' \<Longrightarrow> fifo_inv s \<Longrightarrow> fifo_inv s'"
  by (induction rule: rtranclp_induct) (auto intro: fifo_inv_step)

text \<open>
  C3 (safety): a pipe is a bounded first-in first-out queue. However the segments of any number of
  readers and writers, wakeups, kills and closings interleave, the bytes received so far followed by
  the bytes in the ring are exactly the bytes sent, in order, and the ring never holds more than
  \<open>PIPESIZE\<close> bytes.
\<close>

theorem pipe_fifo:
  assumes "length junk = PIPESIZE" "(pipe_step kills)\<^sup>*\<^sup>* (pipe_sys0 junk) s"
  shows "sent s = rcvd s @ contents (ring s) \<and> length (contents (ring s)) \<le> PIPESIZE"
  using fifo_inv_reach [OF assms(2)] pipe_sys0_inv [OF assms(1)] by (simp add: fifo_inv_def pipe_inv_def)

text \<open>
  C26 (invariant): no wakeup is lost, as long as no writer is killed in mid-write. A reader that
  sleeps sleeps on an empty pipe whose write end is open, a writer that sleeps sleeps on a full
  pipe whose read end is open; so readers and writers are never asleep at the same time.
\<close>

theorem pipe_no_lost_wakeup:
  assumes "length junk = PIPESIZE" "(pipe_step False)\<^sup>*\<^sup>* (pipe_sys0 junk) s"
  shows "(\<forall>i n. acts s i = RAsleep n \<longrightarrow> contents (ring s) = [] \<and> writeopen (ring s))
    \<and> (\<forall>j bs. acts s j = WAsleep bs \<longrightarrow> length (contents (ring s)) = PIPESIZE \<and> readopen (ring s))
    \<and> \<not> (\<exists>i j n bs. acts s i = RAsleep n \<and> acts s j = WAsleep bs)"
proof -
  have "fifo_inv s \<and> wake_inv s" using assms(2)
  proof (induction rule: rtranclp_induct)
    case base
    show ?case using pipe_sys0_inv [OF assms(1)] .
  next
    case (step s s')
    then show ?case using fifo_inv_step wake_inv_step by blast
  qed
  then have w: "\<forall>i n. acts s i = RAsleep n \<longrightarrow> contents (ring s) = [] \<and> writeopen (ring s)"
      "\<forall>j bs. acts s j = WAsleep bs \<longrightarrow> length (contents (ring s)) = PIPESIZE \<and> readopen (ring s)"
    by (simp_all add: wake_inv_def)
  moreover have "\<not> (\<exists>i j n bs. acts s i = RAsleep n \<and> acts s j = WAsleep bs)"
    using w by (metis list.size(3) zero_neq_numeral)
  ultimately show ?thesis by blast
qed

definition junk0 :: "byte list" where
  "junk0 = replicate PIPESIZE 0"

lemma length_junk0 [simp]: "length junk0 = PIPESIZE"
  by (simp add: junk0_def)

lemma pipe0_facts: "pipe_inv (pipe_init junk0)" "contents (pipe_init junk0) = []"
  by (simp_all add: pipe_init_def pipe_inv_def pcount_def contents_def)

text \<open>A reader waits on an empty pipe; then a writer is killed after it has filled the pipe.\<close>

lemma reader_waits:
  "(pipe_step kills)\<^sup>*\<^sup>* (pipe_sys0 junk0)
     ((pipe_sys0 junk0)\<lparr>acts := (\<lambda>_. Idle)(0 := RAsleep 1)\<rparr>)"
proof -
  let ?s = "pipe_sys0 junk0"
  let ?s1 = "?s\<lparr>acts := (acts ?s)(0 := Reading 1)\<rparr>"
  have 1: "pipe_step kills ?s ?s1" by (rule begin_read) (simp_all add: pipe_sys0_def pipe_init_def)
  have "pipe_step kills ?s1 (?s1\<lparr>ring := ring ?s, acts := (acts ?s1)(0 := RAsleep 1)\<rparr>)"
    using read_sleep [of ?s1 0 1 False "[]"] by (simp_all add: pipe_sys0_def pipe_init_def piperead_seg_def)
  moreover have "?s1\<lparr>ring := ring ?s, acts := (acts ?s1)(0 := RAsleep 1)\<rparr> = ?s\<lparr>acts := (\<lambda>_. Idle)(0 := RAsleep 1)\<rparr>"
    by (simp add: pipe_sys0_def)
  ultimately show ?thesis using 1 by simp
qed

text \<open>
  C38 (error): a wakeup is lost when a writer is killed in mid-write: \<open>pipewrite\<close> returns -1 on a
  full pipe without waking the readers. A state is reached in which a reader sleeps although
  the pipe is full and its write end is open, and nobody else is using the pipe.
\<close>

theorem pipe_killed_writer:
  "\<exists>s. (pipe_step True)\<^sup>*\<^sup>* (pipe_sys0 junk0) s \<and> acts s = (\<lambda>_. Idle)(0 := RAsleep 1)
     \<and> length (contents (ring s)) = PIPESIZE \<and> writeopen (ring s)"
proof -
  let ?s = "(pipe_sys0 junk0)\<lparr>acts := (\<lambda>_. Idle)(0 := RAsleep 1)\<rparr>" 
  obtain bs :: "byte list" where bs: "length bs = 513" using Ex_list_of_length by blast
  let ?s1 = "?s\<lparr>acts := (acts ?s)(2 := Writing bs)\<rparr>"
  have 1: "pipe_step True ?s ?s1" by (rule begin_write) (simp_all add: pipe_sys0_def pipe_init_def)
  obtain r ws p where r: "pipewrite_seg True bs (ring ?s1) = (r, ws, p)" by (cases "pipewrite_seg True bs (ring ?s1)") auto
  have "pipe_inv (ring ?s1)" "contents (ring ?s1) = []" "writeopen (ring ?s1)"
    using pipe0_facts by (simp_all add: pipe_sys0_def pipe_init_def)
  from pipewrite_seg_law [OF this(1) r] this obtain k where
    k: "pipe_inv p" "writeopen p" "contents p = take k bs" "ws = (if r = WFail then [] else [NRead])" and
    law: "case r of WDone \<Rightarrow> k = length bs
         | WFail \<Rightarrow> k < length bs \<and> length (contents p) = PIPESIZE \<and> (\<not> readopen (ring ?s1) \<or> True)
         | WSleep rs \<Rightarrow> k < length bs \<and> rs = drop k bs \<and> length (contents p) = PIPESIZE \<and> readopen (ring ?s1) \<and> \<not> True"
    by (simp del: length_contents) blast
  have "length (contents p) \<le> PIPESIZE" using k(1) by (simp add: pipe_inv_def)
  then have p: "r = WFail" "length (contents p) = PIPESIZE" "writeopen p"
    using k(1-3) law bs by (cases r; simp del: length_contents)+
  obtain s2 where s2: "s2 = ?s1\<lparr>ring := p, acts := wake ws \<circ> (acts ?s1)(2 := Idle),
      sent := sent ?s1 @ take (length (contents p) - length (contents (ring ?s1))) bs\<rparr>" by blast
  have 2: "pipe_step True ?s1 s2" unfolding s2 using r p(1) by (intro write_fail) simp_all
  have "(pipe_step True)\<^sup>*\<^sup>* ?s ?s1" using 1 by (rule r_into_rtranclp)
  also have "(pipe_step True)\<^sup>*\<^sup>* ?s1 s2" using 2 by (rule r_into_rtranclp)
  finally have "(pipe_step True)\<^sup>*\<^sup>* (pipe_sys0 junk0) s2" by (rule rtranclp_trans [OF reader_waits])
  moreover have "acts s2 = (\<lambda>_. Idle)(0 := RAsleep 1)" "ring s2 = p" using k(4) p(1) by (auto simp: s2)
  ultimately show ?thesis using p by blast
qed

theorem pipe_fifo_witness:
  "\<exists>s. (pipe_step True)\<^sup>*\<^sup>* (pipe_sys0 junk0) s \<and> sent s = rcvd s @ contents (ring s) \<and> acts s 0 = RAsleep 1"
proof -
  let ?s = "(pipe_sys0 junk0)\<lparr>acts := (\<lambda>_. Idle)(0 := RAsleep 1)\<rparr>"
  have "acts ?s 0 = RAsleep 1" by simp
  with pipe_fifo [OF length_junk0 reader_waits] reader_waits show ?thesis by blast
qed

theorem pipe_no_lost_wakeup_witness:
  "\<exists>s. (pipe_step False)\<^sup>*\<^sup>* (pipe_sys0 junk0) s \<and> acts s 0 = RAsleep 1 \<and> contents (ring s) = []"
proof -
  let ?s = "(pipe_sys0 junk0)\<lparr>acts := (\<lambda>_. Idle)(0 := RAsleep 1)\<rparr>"
  have "acts ?s 0 = RAsleep 1" by simp
  with pipe_no_lost_wakeup [OF length_junk0 reader_waits] reader_waits show ?thesis by blast
qed

end
