(* ===== verification/Proc.thy ===== *)
theory Proc
  imports Vm Spinlock
begin

text \<open>
  The process table and scheduling (\<open>proc.c\<close>, \<open>proc.h\<close>). A \<open>struct proc *\<close> is an
  index into the table, a CPU is a number, and \<open>proc\<close> of the code is the process a CPU runs.
  The spin locks and the interrupt nesting are those of \<open>spinlock.c\<close>, carried in the field
  \<open>lks\<close>; the stack trace they record for debugging is left empty. The operations that give up
  the CPU are split at \<open>swtch\<close>: \<open>sched_enter\<close> is what \<open>sched\<close> does before it,
  \<open>sched_return\<close> what it does when the process runs again. A wait channel is named by what it
  points to.
\<close>

subsection \<open>State\<close>

datatype procstate = UNUSED | EMBRYO | SLEEPING | RUNNABLE | RUNNING | ZOMBIE

datatype kaddr = Forkret | Trapret | KAddr u32

record kcontext =
  c_edi :: u32
  c_esi :: u32
  c_ebx :: u32
  c_ebp :: u32
  c_eip :: kaddr

record trapframe =
  tf_edi :: u32
  tf_esi :: u32
  tf_ebp :: u32
  tf_oesp :: u32
  tf_ebx :: u32
  tf_edx :: u32
  tf_ecx :: u32
  tf_eax :: u32
  tf_gs :: u16
  tf_fs :: u16
  tf_es :: u16
  tf_ds :: u16
  tf_trapno :: u32
  tf_err :: u32
  tf_eip :: u32
  tf_cs :: u16
  tf_eflags :: u32
  tf_esp :: u32
  tf_ss :: u16

datatype chan = NoChan | ChanProc nat | ChanTicks | ChanPipeRead u32 | ChanPipeWrite u32 | ChanInput

record proc =
  p_sz :: u32
  p_pgdir :: u32
  p_kstack :: u32
  p_state :: procstate
  p_pid :: int
  p_parent :: "nat option"
  p_tf :: trapframe
  p_retaddr :: kaddr
  p_context :: kcontext
  p_chan :: chan
  p_killed :: bool
  p_ofile :: "nat option list"
  p_cwd :: "nat option"
  p_name :: "byte list"
  p_signal :: int
  p_sigArr :: "u32 list"

abbreviation NPROC :: nat where "NPROC \<equiv> 64"
abbreviation NOFILE :: nat where "NOFILE \<equiv> 16"
abbreviation KSTACKSIZE :: u32 where "KSTACKSIZE \<equiv> 4096"
abbreviation PTABLE_LOCK :: nat where "PTABLE_LOCK \<equiv> 0"
abbreviation TICKS_LOCK :: nat where "TICKS_LOCK \<equiv> 1"

record proc_st = vm_st +
  ptable :: "proc list"
  curproc :: "nat \<Rightarrow> nat option"
  initproc :: nat
  nextpid :: int
  esp0 :: "nat \<Rightarrow> u32"
  lks :: lock_st
  ticks :: u32
  forkret_first :: bool

abbreviation prc :: "'a proc_st_scheme \<Rightarrow> nat \<Rightarrow> proc" where
  "prc s p \<equiv> ptable s ! p"

definition upd_proc :: "nat \<Rightarrow> (proc \<Rightarrow> proc) \<Rightarrow> ('a proc_st_scheme, unit) kern" where
  "upd_proc p f = modify (\<lambda>s. s\<lparr>ptable := (ptable s)[p := f (ptable s ! p)]\<rparr>)"

text \<open>An operation on the locks, and the calling process (a null pointer is a fault).\<close>

definition on_locks :: "(lock_st, 'b) kern \<Rightarrow> ('a proc_st_scheme, 'b) kern" where
  "on_locks m s = (case m (lks s) of Inl e \<Rightarrow> Inl e | Inr (x, l) \<Rightarrow> Inr (x, s\<lparr>lks := l\<rparr>))"

definition acquire_lock :: "nat \<Rightarrow> nat \<Rightarrow> ('a proc_st_scheme, unit) kern" where
  "acquire_lock c l = on_locks (acquire c l [])"

definition release_lock :: "nat \<Rightarrow> nat \<Rightarrow> ('a proc_st_scheme, unit) kern" where
  "release_lock c l = on_locks (release c l)"

definition myproc :: "nat \<Rightarrow> ('a proc_st_scheme, nat) kern" where
  "myproc c s = (case curproc s c of None \<Rightarrow> Inl Fault | Some p \<Rightarrow> Inr (p, s))"

subsection \<open>Process table\<close>

definition zero_context :: kcontext where
  "zero_context = \<lparr>c_edi = 0, c_esi = 0, c_ebx = 0, c_ebp = 0, c_eip = KAddr 0\<rparr>"

definition allocproc :: "nat \<Rightarrow> ('a proc_st_scheme, nat option) kern" where
  "allocproc c =
     kbind (acquire_lock c PTABLE_LOCK) (\<lambda>_ s.
     case find (\<lambda>p. p_state (prc s p) = UNUSED) [0..<NPROC] of
       None \<Rightarrow> kbind (release_lock c PTABLE_LOCK) (\<lambda>_. ret None) s
     | Some p \<Rightarrow>
         kbind (upd_proc p (\<lambda>x. x\<lparr>p_state := EMBRYO, p_pid := nextpid s\<rparr>)) (\<lambda>_.
         kbind (modify (\<lambda>s. s\<lparr>nextpid := nextpid s + 1\<rparr>)) (\<lambda>_.
         kbind (release_lock c PTABLE_LOCK) (\<lambda>_.
         kbind kalloc (\<lambda>kstack.
         kbind (upd_proc p (p_kstack_update (\<lambda>_. kstack))) (\<lambda>_.
         if kstack = 0 then kbind (upd_proc p (p_state_update (\<lambda>_. UNUSED))) (\<lambda>_. ret None)
         else
           kbind (upd_proc p (\<lambda>x. x\<lparr>p_retaddr := Trapret,
             p_context := zero_context\<lparr>c_eip := Forkret\<rparr>\<rparr>)) (\<lambda>_. ret (Some p))))))) s)"

text \<open>\<open>switchuvm(p)\<close>: the stack for traps is that of \<open>proc\<close>, the page table that of \<open>p\<close>.\<close>

definition switchuvm :: "nat \<Rightarrow> nat \<Rightarrow> ('a proc_st_scheme, unit) kern" where
  "switchuvm c p =
     kbind (on_locks (pushcli c)) (\<lambda>_.
     kbind (myproc c) (\<lambda>q.
     kbind (modify (\<lambda>s. s\<lparr>esp0 := (esp0 s)(c := p_kstack (prc s q) + KSTACKSIZE)\<rparr>)) (\<lambda>_ s.
     if p_pgdir (prc s p) = 0 then Inl (Panic ''switchuvm: no pgdir'')
     else
       kbind (modify (\<lambda>s. s\<lparr>cr3 := (cr3 s)(c := v2p (p_pgdir (prc s p)))\<rparr>)) (\<lambda>_.
       on_locks (popcli c)) s)))"

subsection \<open>Scheduling\<close>

text \<open>
  \<open>scheduler\<close> runs with interrupts on between its rounds; in a round it holds
  \<open>ptable.lock\<close>, and hands it to the process it picks. \<open>scheduler_back\<close> is what it does
  when that process has switched back.
\<close>

definition scheduler_enter :: "nat \<Rightarrow> ('a proc_st_scheme, unit) kern" where
  "scheduler_enter c =
     kbind (on_locks (upd_cpu c (ifl_update (\<lambda>_. True)))) (\<lambda>_. acquire_lock c PTABLE_LOCK)"

definition scheduler_pick :: "nat \<Rightarrow> nat \<Rightarrow> ('a proc_st_scheme, bool) kern" where
  "scheduler_pick c p s =
     (if p_state (prc s p) \<noteq> RUNNABLE then Inr (False, s)
      else
        kbind (modify (\<lambda>s. s\<lparr>curproc := (curproc s)(c := Some p)\<rparr>)) (\<lambda>_.
        kbind (switchuvm c p) (\<lambda>_.
        kbind (upd_proc p (p_state_update (\<lambda>_. RUNNING))) (\<lambda>_. ret True))) s)"

definition scheduler_back :: "nat \<Rightarrow> ('a proc_st_scheme, unit) kern" where
  "scheduler_back c =
     kbind (switchkvm c) (\<lambda>_. modify (\<lambda>s. s\<lparr>curproc := (curproc s)(c := None)\<rparr>))"

definition scheduler_leave :: "nat \<Rightarrow> ('a proc_st_scheme, unit) kern" where
  "scheduler_leave c = release_lock c PTABLE_LOCK"

definition sched_enter :: "nat \<Rightarrow> ('a proc_st_scheme, bool) kern" where
  "sched_enter c =
     kbind (myproc c) (\<lambda>p s.
     if \<not> holding c PTABLE_LOCK (lks s) then Inl (Panic ''sched ptable.lock'')
     else if ncli (cpus (lks s) c) \<noteq> 1 then Inl (Panic ''sched locks'')
     else if p_state (prc s p) = RUNNING then Inl (Panic ''sched running'')
     else if ifl (cpus (lks s) c) then Inl (Panic ''sched interruptible'')
     else Inr (intena (cpus (lks s) c), s))"

definition sched_return :: "nat \<Rightarrow> bool \<Rightarrow> ('a proc_st_scheme, unit) kern" where
  "sched_return c ie = on_locks (upd_cpu c (intena_update (\<lambda>_. ie)))"

definition yield_enter :: "nat \<Rightarrow> ('a proc_st_scheme, bool) kern" where
  "yield_enter c =
     kbind (acquire_lock c PTABLE_LOCK) (\<lambda>_.
     kbind (myproc c) (\<lambda>p.
     kbind (upd_proc p (p_state_update (\<lambda>_. RUNNABLE))) (\<lambda>_.
     sched_enter c)))"

definition yield_return :: "nat \<Rightarrow> bool \<Rightarrow> ('a proc_st_scheme, unit) kern" where
  "yield_return c ie = kbind (sched_return c ie) (\<lambda>_. release_lock c PTABLE_LOCK)"

definition sleep_enter :: "nat \<Rightarrow> chan \<Rightarrow> nat \<Rightarrow> ('a proc_st_scheme, bool) kern" where
  "sleep_enter c ch lk s =
     (case curproc s c of
        None \<Rightarrow> Inl (Panic ''sleep'')
      | Some p \<Rightarrow>
          kbind (if lk \<noteq> PTABLE_LOCK then
              kbind (acquire_lock c PTABLE_LOCK) (\<lambda>_. release_lock c lk)
            else ret ()) (\<lambda>_.
          kbind (upd_proc p (\<lambda>x. x\<lparr>p_chan := ch, p_state := SLEEPING\<rparr>)) (\<lambda>_.
          sched_enter c)) s)"

text \<open>What \<open>sleep\<close> does when the process runs again, before and after the caller's lock is free.\<close>

definition sleep_wake :: "nat \<Rightarrow> bool \<Rightarrow> nat \<Rightarrow> ('a proc_st_scheme, unit) kern" where
  "sleep_wake c ie lk =
     kbind (sched_return c ie) (\<lambda>_.
     kbind (myproc c) (\<lambda>p.
     kbind (upd_proc p (p_chan_update (\<lambda>_. NoChan))) (\<lambda>_.
     if lk \<noteq> PTABLE_LOCK then release_lock c PTABLE_LOCK else ret ())))"

definition sleep_return :: "nat \<Rightarrow> bool \<Rightarrow> nat \<Rightarrow> ('a proc_st_scheme, unit) kern" where
  "sleep_return c ie lk =
     kbind (sleep_wake c ie lk) (\<lambda>_. if lk \<noteq> PTABLE_LOCK then acquire_lock c lk else ret ())"

definition wakeup1 :: "chan \<Rightarrow> ('a proc_st_scheme, unit) kern" where
  "wakeup1 ch = modify (\<lambda>s. s\<lparr>ptable := map (\<lambda>x.
     if p_state x = SLEEPING \<and> p_chan x = ch then x\<lparr>p_state := RUNNABLE\<rparr> else x) (ptable s)\<rparr>)"

definition wakeup :: "nat \<Rightarrow> chan \<Rightarrow> ('a proc_st_scheme, unit) kern" where
  "wakeup c ch =
     kbind (acquire_lock c PTABLE_LOCK) (\<lambda>_.
     kbind (wakeup1 ch) (\<lambda>_. release_lock c PTABLE_LOCK))"

definition kill :: "nat \<Rightarrow> int \<Rightarrow> ('a proc_st_scheme, int) kern" where
  "kill c pid =
     kbind (acquire_lock c PTABLE_LOCK) (\<lambda>_ s.
     case find (\<lambda>p. p_pid (prc s p) = pid) [0..<NPROC] of
       None \<Rightarrow> kbind (release_lock c PTABLE_LOCK) (\<lambda>_. ret (-1)) s
     | Some p \<Rightarrow>
         kbind (upd_proc p (\<lambda>x. x\<lparr>p_killed := True,
           p_state := if p_state x = SLEEPING then RUNNABLE else p_state x\<rparr>)) (\<lambda>_.
         kbind (release_lock c PTABLE_LOCK) (\<lambda>_. ret 0)) s)"

text \<open>\<open>signal\<close> names an undeclared array; it is read as the one of the calling process.\<close>

definition signal :: "nat \<Rightarrow> int \<Rightarrow> u32 \<Rightarrow> ('a proc_st_scheme, int) kern" where
  "signal c signum handler =
     (if signum \<ge> 0 \<and> signum < 32 then
        kbind (myproc c) (\<lambda>p.
        kbind (upd_proc p (\<lambda>x. x\<lparr>p_sigArr := (p_sigArr x)[nat signum := handler]\<rparr>)) (\<lambda>_. ret 0))
      else ret (-1))"

definition register_handler :: "nat \<Rightarrow> u32 \<Rightarrow> ('a proc_st_scheme, unit) kern" where
  "register_handler c sighandler =
     kbind (myproc c) (\<lambda>p.
     kbind (gets (\<lambda>s. prc s p)) (\<lambda>x.
     kbind (uva2ka (p_pgdir x) (tf_esp (p_tf x))) (\<lambda>addr.
     if tf_esp (p_tf x) AND 0xFFF = 0 then panic ''esp_offset == 0''
     else if addr = 0 then (\<lambda>s. Inl Fault)
     else
       kbind (modify (stw (addr + ((tf_esp (p_tf x) - 4) AND 0xFFF)) (tf_eip (p_tf x)))) (\<lambda>_.
       upd_proc p (\<lambda>x. x\<lparr>p_tf := (p_tf x)\<lparr>tf_esp := tf_esp (p_tf x) - 4, tf_eip := sighandler\<rparr>\<rparr>)))))"

end
