(* ===== verification/File.thy ===== *)
theory File
  imports Proc Pipe
begin

text \<open>
  Open files (\<open>file.c\<close>) and the calls of \<open>pipe.c\<close> as files make them. A
  \<open>struct file *\<close> is an index into the table; a pipe is named by the page it lives in. A
  call that would go to sleep, on a pipe or for a lock of the file system, ends with
  \<open>Asleep\<close>. A read returns the result and the bytes it stored, a write is given the bytes it
  reads. Calls on the table run under \<open>ftable.lock\<close> and are atomic here.
\<close>

subsection \<open>State\<close>

datatype ftype = FD_NONE | FD_PIPE | FD_INODE

record ofile =
  f_type :: ftype
  f_ref :: int
  f_readable :: bool
  f_writable :: bool
  f_pipe :: u32
  f_ip :: nat
  f_off :: nat

abbreviation NFILE :: nat where "NFILE \<equiv> 100"

record file_st = proc_st +
  ftable :: "ofile list"
  pipes :: "u32 \<Rightarrow> pipe"

abbreviation fil :: "'a file_st_scheme \<Rightarrow> nat \<Rightarrow> ofile" where
  "fil s f \<equiv> ftable s ! f"

definition upd_file :: "nat \<Rightarrow> (ofile \<Rightarrow> ofile) \<Rightarrow> ('a file_st_scheme, unit) kern" where
  "upd_file f g = modify (\<lambda>s. s\<lparr>ftable := (ftable s)[f := g (ftable s ! f)]\<rparr>)"

subsection \<open>Pipes\<close>

text \<open>The wakeups of a segment of a pipe operation, on the channels in the pipe at \<open>p\<close>.\<close>

fun pipe_chan :: "u32 \<Rightarrow> pchan \<Rightarrow> chan" where
  "pipe_chan p NRead = ChanPipeRead p"
| "pipe_chan p NWrite = ChanPipeWrite p"

fun pipe_wakeups :: "nat \<Rightarrow> u32 \<Rightarrow> pchan list \<Rightarrow> ('a file_st_scheme, unit) kern" where
  "pipe_wakeups c p [] = ret ()"
| "pipe_wakeups c p (w # ws) = kbind (wakeup c (pipe_chan p w)) (\<lambda>_. pipe_wakeups c p ws)"

definition pipeclose :: "nat \<Rightarrow> u32 \<Rightarrow> bool \<Rightarrow> ('a file_st_scheme, unit) kern" where
  "pipeclose c p writable =
     kbind (gets (\<lambda>s. pipeclose_seg writable (pipes s p))) (\<lambda>(done, ws, q).
     kbind (modify (\<lambda>s. s\<lparr>pipes := (pipes s)(p := q)\<rparr>)) (\<lambda>_.
     kbind (pipe_wakeups c p ws) (\<lambda>_.
     if done then kfree p else ret ())))"

definition pipewrite :: "nat \<Rightarrow> u32 \<Rightarrow> byte list \<Rightarrow> int \<Rightarrow> ('a file_st_scheme, int) kern" where
  "pipewrite c p bs n =
     kbind (myproc c) (\<lambda>me.
     kbind (gets (\<lambda>s. pipewrite_seg (p_killed (prc s me)) bs (pipes s p))) (\<lambda>(r, ws, q).
     kbind (modify (\<lambda>s. s\<lparr>pipes := (pipes s)(p := q)\<rparr>)) (\<lambda>_.
     kbind (pipe_wakeups c p ws) (\<lambda>_.
     case r of
       WDone \<Rightarrow> ret n
     | WFail \<Rightarrow> ret (-1)
     | WSleep rs \<Rightarrow> (\<lambda>s. Inl Asleep)))))"

definition piperead :: "nat \<Rightarrow> u32 \<Rightarrow> int \<Rightarrow> ('a file_st_scheme, int \<times> byte list) kern" where
  "piperead c p n =
     kbind (myproc c) (\<lambda>me.
     kbind (gets (\<lambda>s. piperead_seg (p_killed (prc s me)) (nat n) (pipes s p))) (\<lambda>(r, ws, q).
     kbind (modify (\<lambda>s. s\<lparr>pipes := (pipes s)(p := q)\<rparr>)) (\<lambda>_.
     kbind (pipe_wakeups c p ws) (\<lambda>_.
     case r of
       RDone bs \<Rightarrow> ret (int (length bs), bs)
     | RFail \<Rightarrow> ret (-1, [])
     | RSleep \<Rightarrow> (\<lambda>s. Inl Asleep)))))"

subsection \<open>Files\<close>

definition filealloc :: "('a file_st_scheme, nat option) kern" where
  "filealloc s =
     (case find (\<lambda>f. f_ref (fil s f) = 0) [0..<NFILE] of
        None \<Rightarrow> Inr (None, s)
      | Some f \<Rightarrow> kbind (upd_file f (f_ref_update (\<lambda>_. 1))) (\<lambda>_. ret (Some f)) s)"

definition filedup :: "nat \<Rightarrow> ('a file_st_scheme, nat) kern" where
  "filedup f s =
     (if f_ref (fil s f) < 1 then Inl (Panic ''filedup'')
      else kbind (upd_file f (\<lambda>x. x\<lparr>f_ref := f_ref x + 1\<rparr>)) (\<lambda>_. ret f) s)"

definition fileclose :: "nat \<Rightarrow> nat \<Rightarrow> ('a file_st_scheme, unit) kern" where
  "fileclose c f s =
     (if f_ref (fil s f) < 1 then Inl (Panic ''fileclose'')
      else
        kbind (upd_file f (\<lambda>x. x\<lparr>f_ref := f_ref x - 1\<rparr>)) (\<lambda>_ s.
        if f_ref (fil s f) > 0 then Inr ((), s)
        else
          let ff = fil s f in
          kbind (upd_file f (\<lambda>x. x\<lparr>f_ref := 0, f_type := FD_NONE\<rparr>)) (\<lambda>_.
          if f_type ff = FD_PIPE then pipeclose c (f_pipe ff) (f_writable ff)
          else if f_type ff = FD_INODE then
            kbind begin_trans (\<lambda>_. kbind (iput (f_ip ff)) (\<lambda>_. commit_trans))
          else ret ()) s) s)"

definition filestat :: "nat \<Rightarrow> ('a file_st_scheme, int \<times> stat option) kern" where
  "filestat f s =
     (if f_type (fil s f) = FD_INODE then
        kbind (ilock (f_ip (fil s f))) (\<lambda>_.
        kbind (gets (stati (f_ip (fil s f)))) (\<lambda>st.
        kbind (iunlock (f_ip (fil s f))) (\<lambda>_. ret (0, Some st)))) s
      else Inr ((-1, None), s))"

definition fileread :: "nat \<Rightarrow> nat \<Rightarrow> int \<Rightarrow> ('a file_st_scheme, int \<times> byte list) kern" where
  "fileread c f n s =
     (let x = fil s f in
      if \<not> f_readable x then Inr ((-1, []), s)
      else if f_type x = FD_PIPE then piperead c (f_pipe x) n s
      else if f_type x = FD_INODE then
        kbind (ilock (f_ip x)) (\<lambda>_.
        kbind (readi (f_ip x) (f_off x) (uns32 n)) (\<lambda>(r, bs).
        kbind (if r > 0 then upd_file f (\<lambda>x. x\<lparr>f_off := (f_off x + nat r) mod 2 ^ 32\<rparr>) else ret ()) (\<lambda>_.
        kbind (iunlock (f_ip x)) (\<lambda>_. ret (r, bs))))) s
      else Inl (Panic ''fileread''))"

text \<open>The loop of \<open>filewrite\<close>; the result is the value of \<open>i\<close> when it ends.\<close>

function filewrite_loop :: "nat \<Rightarrow> byte list \<Rightarrow> int \<Rightarrow> int \<Rightarrow> ('a file_st_scheme, int) kern" where
  "filewrite_loop f bs n i =
     (if i < n then
        let n1 = (if n - i > ((10 - 1 - 1 - 2) div 2) * 512 then ((10 - 1 - 1 - 2) div 2) * 512 else n - i) in
        kbind begin_trans (\<lambda>_.
        kbind (gets (\<lambda>s. f_ip (fil s f))) (\<lambda>ip.
        kbind (ilock ip) (\<lambda>_.
        kbind (gets (\<lambda>s. f_off (fil s f))) (\<lambda>off.
        kbind (writei ip (take (nat n1) (drop (nat i) bs)) off) (\<lambda>r.
        kbind (if r > 0 then upd_file f (\<lambda>x. x\<lparr>f_off := (f_off x + nat r) mod 2 ^ 32\<rparr>) else ret ()) (\<lambda>_.
        kbind (iunlock ip) (\<lambda>_.
        kbind commit_trans (\<lambda>_.
        if r < 0 then ret i
        else if r \<noteq> n1 then panic ''short filewrite''
        else filewrite_loop f bs n (i + n1)))))))))
      else ret i)"
  by auto
termination by (relation "measure (\<lambda>(f, bs, n, i). nat (n - i))") auto

declare filewrite_loop.simps [simp del]

definition filewrite :: "nat \<Rightarrow> nat \<Rightarrow> byte list \<Rightarrow> int \<Rightarrow> ('a file_st_scheme, int) kern" where
  "filewrite c f bs n s =
     (let x = fil s f in
      if \<not> f_writable x then Inr (-1, s)
      else if f_type x = FD_PIPE then pipewrite c (f_pipe x) bs n s
      else if f_type x = FD_INODE then
        kbind (filewrite_loop f bs n 0) (\<lambda>i. ret (if i = n then n else -1)) s
      else Inl (Panic ''filewrite''))"

text \<open>\<open>pipealloc\<close>: on failure, whatever was allocated is given back.\<close>

definition pipealloc_bad :: "nat \<Rightarrow> nat option \<Rightarrow> nat option \<Rightarrow> ('a file_st_scheme, (nat \<times> nat) option) kern" where
  "pipealloc_bad c f0 f1 =
     kbind (case f0 of None \<Rightarrow> ret () | Some f \<Rightarrow> fileclose c f) (\<lambda>_.
     kbind (case f1 of None \<Rightarrow> ret () | Some f \<Rightarrow> fileclose c f) (\<lambda>_. ret None))"

definition pipealloc :: "nat \<Rightarrow> ('a file_st_scheme, (nat \<times> nat) option) kern" where
  "pipealloc c =
     kbind filealloc (\<lambda>r0.
     case r0 of None \<Rightarrow> pipealloc_bad c None None
     | Some f0 \<Rightarrow>
         kbind filealloc (\<lambda>r1.
         case r1 of None \<Rightarrow> pipealloc_bad c (Some f0) None
         | Some f1 \<Rightarrow>
             kbind kalloc (\<lambda>p.
             if p = 0 then pipealloc_bad c (Some f0) (Some f1)
             else
               kbind (modify (\<lambda>s. s\<lparr>pipes := (pipes s)(p := pipe_init (take PIPESIZE (drop 52 (page_bytes s p))))\<rparr>)) (\<lambda>_.
               kbind (upd_file f0 (\<lambda>x. x\<lparr>f_type := FD_PIPE, f_readable := True, f_writable := False, f_pipe := p\<rparr>)) (\<lambda>_.
               kbind (upd_file f1 (\<lambda>x. x\<lparr>f_type := FD_PIPE, f_readable := False, f_writable := True, f_pipe := p\<rparr>)) (\<lambda>_.
               ret (Some (f0, f1))))))))"

end
