(* ===== verification/Process.thy ===== *)
theory Process
  imports File
begin

text \<open>
  The life of processes (\<open>proc.c\<close>): the first process, \<open>fork\<close>, \<open>exit\<close> and
  \<open>wait\<close> over the process table, the open files, the inodes and the page tables, and
  \<open>exec\<close> (\<open>exec.c\<close>). \<open>exit\<close> and a \<open>wait\<close> that has to wait end at their
  switch to the scheduler; \<open>wait_resume\<close> is what \<open>wait\<close> does when it is woken.
\<close>

subsection \<open>Creating processes\<close>

definition zero_tf :: trapframe where
  "zero_tf = \<lparr>tf_edi = 0, tf_esi = 0, tf_ebp = 0, tf_oesp = 0, tf_ebx = 0, tf_edx = 0, tf_ecx = 0, tf_eax = 0,
     tf_gs = 0, tf_fs = 0, tf_es = 0, tf_ds = 0, tf_trapno = 0, tf_err = 0, tf_eip = 0, tf_cs = 0, tf_eflags = 0,
     tf_esp = 0, tf_ss = 0\<rparr>"

text \<open>The string \<open>initcode\<close> and its terminator.\<close>

definition initcode_name :: "byte list" where
  "initcode_name = [105, 110, 105, 116, 99, 111, 100, 101, 0]"

definition userinit :: "nat \<Rightarrow> byte list \<Rightarrow> ('a proc_st_scheme, unit) kern" where
  "userinit c initcode =
     kbind (allocproc c) (\<lambda>r.
     case r of None \<Rightarrow> (\<lambda>s. Inl Fault)
     | Some p \<Rightarrow>
         kbind (modify (initproc_update (\<lambda>_. p))) (\<lambda>_.
         kbind setupkvm (\<lambda>pgdir.
         kbind (upd_proc p (p_pgdir_update (\<lambda>_. pgdir))) (\<lambda>_.
         if pgdir = 0 then panic ''userinit: out of memory?''
         else
           kbind (inituvm pgdir initcode) (\<lambda>_.
           kbind (upd_proc p (\<lambda>x. x\<lparr>p_sz := PGSIZE,
             p_tf := zero_tf\<lparr>tf_cs := (push_bit 3 4) OR 3, tf_ds := (push_bit 3 5) OR 3,
               tf_es := (push_bit 3 5) OR 3, tf_ss := (push_bit 3 5) OR 3,
               tf_eflags := 0x200, tf_esp := PGSIZE, tf_eip := 0\<rparr>\<rparr>)) (\<lambda>_.
           kbind (gets (\<lambda>s. p_name (prc s p))) (\<lambda>old.
           kbind (lift_opt (safestrcpy old initcode_name 16)) (\<lambda>nm.
           kbind (upd_proc p (p_name_update (\<lambda>_. nm))) (\<lambda>_.
           kbind (namei 0 [47, 0]) (\<lambda>ip.
           kbind (upd_proc p (p_cwd_update (\<lambda>_. ip))) (\<lambda>_.
           upd_proc p (p_state_update (\<lambda>_. RUNNABLE)))))))))))))"

text \<open>\<open>n\<close> is a 32 bit \<open>int\<close>; \<open>sz + n\<close> is computed modulo \<open>2 ^ 32\<close>.\<close>

definition growproc :: "nat \<Rightarrow> int \<Rightarrow> ('a proc_st_scheme, int) kern" where
  "growproc c n =
     kbind (myproc c) (\<lambda>p.
     kbind (gets (\<lambda>s. prc s p)) (\<lambda>x.
     kbind (if n > 0 then allocuvm (p_pgdir x) (p_sz x) (p_sz x + of_int n)
            else if n < 0 then deallocuvm (p_pgdir x) (p_sz x) (p_sz x + of_int n)
            else ret (p_sz x)) (\<lambda>sz.
     if n \<noteq> 0 \<and> sz = 0 then ret (-1)
     else
       kbind (upd_proc p (p_sz_update (\<lambda>_. sz))) (\<lambda>_.
       kbind (switchuvm c p) (\<lambda>_. ret 0)))))"

fun fork_files :: "nat \<Rightarrow> nat \<Rightarrow> nat list \<Rightarrow> ('a file_st_scheme, unit) kern" where
  "fork_files me np [] = ret ()"
| "fork_files me np (i # is) =
     kbind (gets (\<lambda>s. p_ofile (prc s me) ! i)) (\<lambda>fo.
     kbind (case fo of
         None \<Rightarrow> ret ()
       | Some f \<Rightarrow> kbind (filedup f) (\<lambda>g. upd_proc np (\<lambda>x. x\<lparr>p_ofile := (p_ofile x)[i := Some g]\<rparr>))) (\<lambda>_.
     fork_files me np is))"

text \<open>\<open>fork\<close> after \<open>allocproc\<close> has given it the slot \<open>np\<close>.\<close>

definition fork_copy :: "nat \<Rightarrow> nat \<Rightarrow> ('a file_st_scheme, int) kern" where
  "fork_copy c np =
     kbind (myproc c) (\<lambda>me.
     kbind (gets (\<lambda>s. prc s me)) (\<lambda>x.
     kbind (copyuvm (p_pgdir x) (p_sz x)) (\<lambda>pgdir.
     kbind (upd_proc np (p_pgdir_update (\<lambda>_. pgdir))) (\<lambda>_.
     if pgdir = 0 then
       kbind (gets (\<lambda>s. p_kstack (prc s np))) (\<lambda>k.
       kbind (kfree k) (\<lambda>_.
       kbind (upd_proc np (\<lambda>y. y\<lparr>p_kstack := 0, p_state := UNUSED\<rparr>)) (\<lambda>_. ret (-1))))
     else
       kbind (upd_proc np (\<lambda>y. y\<lparr>p_sz := p_sz x, p_parent := Some me, p_tf := (p_tf x)\<lparr>tf_eax := 0\<rparr>\<rparr>)) (\<lambda>_.
       kbind (fork_files me np [0..<NOFILE]) (\<lambda>_.
       kbind (lift_opt (p_cwd x)) (\<lambda>d.
       kbind (idup d) (\<lambda>d'.
       kbind (upd_proc np (p_cwd_update (\<lambda>_. Some d'))) (\<lambda>_.
       kbind (gets (\<lambda>s. p_pid (prc s np))) (\<lambda>pid.
       kbind (upd_proc np (p_state_update (\<lambda>_. RUNNABLE))) (\<lambda>_.
       kbind (gets (\<lambda>s. p_name (prc s np))) (\<lambda>old.
       kbind (lift_opt (safestrcpy old (p_name x) 16)) (\<lambda>nm.
       kbind (upd_proc np (p_name_update (\<lambda>_. nm))) (\<lambda>_. ret pid))))))))))))))"

definition fork :: "nat \<Rightarrow> ('a file_st_scheme, int) kern" where
  "fork c = kbind (allocproc c) (\<lambda>r. case r of None \<Rightarrow> ret (-1) | Some np \<Rightarrow> fork_copy c np)"

definition forkret :: "nat \<Rightarrow> ('a proc_st_scheme, unit) kern" where
  "forkret c =
     kbind (release_lock c PTABLE_LOCK) (\<lambda>_ s.
     if forkret_first s then
       kbind (modify (forkret_first_update (\<lambda>_. False))) (\<lambda>_. initlog) s
     else Inr ((), s))"

subsection \<open>Ending processes\<close>

fun exit_files :: "nat \<Rightarrow> nat \<Rightarrow> nat list \<Rightarrow> ('a file_st_scheme, unit) kern" where
  "exit_files c me [] = ret ()"
| "exit_files c me (i # is) =
     kbind (gets (\<lambda>s. p_ofile (prc s me) ! i)) (\<lambda>fo.
     kbind (case fo of
         None \<Rightarrow> ret ()
       | Some f \<Rightarrow> kbind (fileclose c f) (\<lambda>_. upd_proc me (\<lambda>x. x\<lparr>p_ofile := (p_ofile x)[i := None]\<rparr>))) (\<lambda>_.
     exit_files c me is))"

definition parent_chan :: "nat option \<Rightarrow> chan" where
  "parent_chan po = (case po of None \<Rightarrow> NoChan | Some p \<Rightarrow> ChanProc p)"

fun reparent :: "nat \<Rightarrow> nat list \<Rightarrow> ('a proc_st_scheme, unit) kern" where
  "reparent me [] = ret ()"
| "reparent me (p # ps) =
     kbind (\<lambda>s.
       if p_parent (prc s p) = Some me then
         kbind (upd_proc p (p_parent_update (\<lambda>_. Some (initproc s)))) (\<lambda>_ s.
         if p_state (prc s p) = ZOMBIE then wakeup1 (ChanProc (initproc s)) s else Inr ((), s)) s
       else Inr ((), s)) (\<lambda>_.
     reparent me ps)"

text \<open>The part of \<open>exit\<close> that runs under \<open>ptable.lock\<close>, up to the switch.\<close>

definition exit_zombie :: "nat \<Rightarrow> nat \<Rightarrow> ('a proc_st_scheme, bool) kern" where
  "exit_zombie c me =
     kbind (acquire_lock c PTABLE_LOCK) (\<lambda>_.
     kbind (gets (\<lambda>s. p_parent (prc s me))) (\<lambda>par.
     kbind (wakeup1 (parent_chan par)) (\<lambda>_.
     kbind (reparent me [0..<NPROC]) (\<lambda>_.
     kbind (upd_proc me (p_state_update (\<lambda>_. ZOMBIE))) (\<lambda>_.
     sched_enter c)))))"

definition exit_enter :: "nat \<Rightarrow> ('a file_st_scheme, bool) kern" where
  "exit_enter c =
     kbind (myproc c) (\<lambda>me s.
     if me = initproc s then Inl (Panic ''init exiting'')
     else
       kbind (exit_files c me [0..<NOFILE]) (\<lambda>_.
       kbind (gets (\<lambda>s. p_cwd (prc s me))) (\<lambda>d.
       kbind (lift_opt d) (\<lambda>ip.
       kbind (iput ip) (\<lambda>_.
       kbind (upd_proc me (p_cwd_update (\<lambda>_. None))) (\<lambda>_.
       exit_zombie c me))))) s)"

text \<open>
  The scan of \<open>wait\<close>: the pid of the first zombie child, which is freed, or whether there are
  children at all.
\<close>

definition reap :: "nat \<Rightarrow> ('a proc_st_scheme, int) kern" where
  "reap p =
     kbind (gets (\<lambda>s. prc s p)) (\<lambda>x.
     kbind (kfree (p_kstack x)) (\<lambda>_.
     kbind (upd_proc p (p_kstack_update (\<lambda>_. 0))) (\<lambda>_.
     kbind (freevm (p_pgdir x)) (\<lambda>_.
     kbind (upd_proc p (\<lambda>y. y\<lparr>p_state := UNUSED, p_pid := 0, p_parent := None,
       p_name := (p_name y)[0 := 0], p_killed := False\<rparr>)) (\<lambda>_. ret (p_pid x))))))"

fun wait_scan :: "nat \<Rightarrow> bool \<Rightarrow> nat list \<Rightarrow> ('a proc_st_scheme, int option \<times> bool) kern" where
  "wait_scan me havekids [] s = Inr ((None, havekids), s)"
| "wait_scan me havekids (p # ps) s =
     (if p_parent (prc s p) \<noteq> Some me then wait_scan me havekids ps s
      else if p_state (prc s p) = ZOMBIE then kbind (reap p) (\<lambda>pid. ret (Some pid, True)) s
      else wait_scan me True ps s)"

datatype wait_res = WaitRet int | WaitSleep bool

definition wait_body :: "nat \<Rightarrow> ('a proc_st_scheme, wait_res) kern" where
  "wait_body c =
     kbind (myproc c) (\<lambda>me.
     kbind (wait_scan me False [0..<NPROC]) (\<lambda>(r, havekids).
     case r of
       Some pid \<Rightarrow> kbind (release_lock c PTABLE_LOCK) (\<lambda>_. ret (WaitRet pid))
     | None \<Rightarrow>
         kbind (gets (\<lambda>s. p_killed (prc s me))) (\<lambda>killed.
         if \<not> havekids \<or> killed then kbind (release_lock c PTABLE_LOCK) (\<lambda>_. ret (WaitRet (-1)))
         else kbind (sleep_enter c (ChanProc me) PTABLE_LOCK) (\<lambda>ie. ret (WaitSleep ie)))))"

definition wait :: "nat \<Rightarrow> ('a proc_st_scheme, wait_res) kern" where
  "wait c = kbind (acquire_lock c PTABLE_LOCK) (\<lambda>_. wait_body c)"

definition wait_resume :: "nat \<Rightarrow> bool \<Rightarrow> ('a proc_st_scheme, wait_res) kern" where
  "wait_resume c ie = kbind (sleep_return c ie PTABLE_LOCK) (\<lambda>_. wait_body c)"

end
