(* ===== verification/Exec.thy ===== *)
theory Exec
  imports Process
begin

text \<open>
  Loading a program (\<open>exec.c\<close>, \<open>elf.h\<close>). The ELF header and the program headers are
  read at their offsets in the file; \<open>junk\<close> stands for what the header variable on the stack
  holds before it is read, and shows only when the read fails. \<open>argv\<close> is the list of argument
  strings, each the memory from its first byte on.
\<close>

abbreviation ELF_MAGIC :: nat where "ELF_MAGIC \<equiv> 0x464C457F"
abbreviation ELF_PROG_LOAD :: nat where "ELF_PROG_LOAD \<equiv> 1"
abbreviation MAXARG :: nat where "MAXARG \<equiv> 32"

record elfhdr =
  e_magic :: nat
  e_entry :: u32
  e_phoff :: nat
  e_phnum :: nat

definition get_elfhdr :: "byte list \<Rightarrow> elfhdr" where
  "get_elfhdr d = \<lparr>e_magic = get32 d 0, e_entry = of_nat (get32 d 24), e_phoff = get32 d 28, e_phnum = get16 d 44\<rparr>"

record proghdr =
  ph_type :: nat
  ph_off :: u32
  ph_vaddr :: u32
  ph_filesz :: u32
  ph_memsz :: u32

definition get_proghdr :: "byte list \<Rightarrow> proghdr" where
  "get_proghdr d = \<lparr>ph_type = get32 d 0, ph_off = of_nat (get32 d 4), ph_vaddr = of_nat (get32 d 8),
     ph_filesz = of_nat (get32 d 16), ph_memsz = of_nat (get32 d 20)\<rparr>"

text \<open>The loop over the program headers: \<open>n\<close> are left; \<open>None\<close> is \<open>goto bad\<close>.\<close>

fun exec_load :: "u32 \<Rightarrow> nat \<Rightarrow> nat \<Rightarrow> nat \<Rightarrow> u32 \<Rightarrow> ('a mem_st_scheme, u32 option) kern" where
  "exec_load pgdir ip 0 off sz = ret (Some sz)"
| "exec_load pgdir ip (Suc n) off sz =
     kbind (readi ip (off mod 2 ^ 32) 32) (\<lambda>(r, d).
     if r \<noteq> 32 then ret None
     else
       let ph = get_proghdr d in
       if ph_type ph \<noteq> ELF_PROG_LOAD then exec_load pgdir ip n (off + 32) sz
       else if ph_memsz ph < ph_filesz ph then ret None
       else
         kbind (allocuvm pgdir sz (ph_vaddr ph + ph_memsz ph)) (\<lambda>sz'.
         if sz' = 0 then ret None
         else
           kbind (loaduvm pgdir (ph_vaddr ph) ip (ph_off ph) (ph_filesz ph)) (\<lambda>l.
           if l < 0 then ret None else exec_load pgdir ip n (off + 32) sz')))"

text \<open>Pushing the argument strings: the stack pointer and the addresses of the strings.\<close>

fun push_args :: "u32 \<Rightarrow> nat \<Rightarrow> u32 \<Rightarrow> byte list list \<Rightarrow> ('a mem_st_scheme, (u32 \<times> u32 list) option) kern" where
  "push_args pgdir argc sp [] = ret (Some (sp, []))"
| "push_args pgdir argc sp (a # as) =
     (if argc \<ge> MAXARG then ret None
      else
        kbind (lift_opt (strlen a)) (\<lambda>len.
        let sp' = (sp - of_nat (len + 1)) AND NOT 3 in
        kbind (copyout pgdir sp' (take (len + 1) a)) (\<lambda>r.
        if r < 0 then ret None
        else
          kbind (push_args pgdir (Suc argc) sp' as) (\<lambda>q.
          ret (map_option (\<lambda>(sp'', ps). (sp'', sp' # ps)) q)))))"

fun last_elem :: "byte list \<Rightarrow> byte list \<Rightarrow> byte list option" where
  "last_elem lst [] = None"
| "last_elem lst (c # s) = (if c = 0 then Some lst else last_elem (if c = 47 then s else lst) s)"

definition exec_bad :: "u32 \<Rightarrow> nat option \<Rightarrow> ('a mem_st_scheme, int) kern" where
  "exec_bad pgdir ip =
     kbind (if pgdir \<noteq> 0 then freevm pgdir else ret ()) (\<lambda>_.
     kbind (case ip of None \<Rightarrow> ret () | Some i \<Rightarrow> iunlockput i) (\<lambda>_. ret (-1)))"

text \<open>The second half of \<open>exec\<close>: the stack, its arguments, and the switch to the new image.\<close>

definition exec_commit :: "nat \<Rightarrow> byte list \<Rightarrow> u32 \<Rightarrow> u32 \<Rightarrow> u32 \<Rightarrow> u32 \<Rightarrow> ('a proc_st_scheme, int) kern" where
  "exec_commit c path pgdir sz sp entry =
     kbind (myproc c) (\<lambda>me.
     kbind (lift_opt (last_elem path path)) (\<lambda>lst.
     kbind (gets (\<lambda>s. p_name (prc s me))) (\<lambda>old.
     kbind (lift_opt (safestrcpy old lst 16)) (\<lambda>nm.
     kbind (upd_proc me (p_name_update (\<lambda>_. nm))) (\<lambda>_.
     kbind (gets (\<lambda>s. p_pgdir (prc s me))) (\<lambda>oldpgdir.
     kbind (upd_proc me (\<lambda>x. x\<lparr>p_pgdir := pgdir, p_sz := sz,
       p_tf := (p_tf x)\<lparr>tf_eip := entry, tf_esp := sp\<rparr>\<rparr>)) (\<lambda>_.
     kbind (switchuvm c me) (\<lambda>_.
     kbind (freevm oldpgdir) (\<lambda>_. ret 0)))))))))"

definition exec_stack :: "nat \<Rightarrow> byte list \<Rightarrow> byte list list \<Rightarrow> u32 \<Rightarrow> u32 \<Rightarrow> u32 \<Rightarrow> ('a proc_st_scheme, int) kern" where
  "exec_stack c path argv pgdir sz0 entry =
     (let szr = PGROUNDUP sz0 in
      kbind (allocuvm pgdir szr (szr + 2 * PGSIZE)) (\<lambda>sz.
      if sz = 0 then exec_bad pgdir None
      else
        kbind (clearpteu pgdir (sz - 2 * PGSIZE)) (\<lambda>_.
        kbind (push_args pgdir 0 sz argv) (\<lambda>q.
        case q of None \<Rightarrow> exec_bad pgdir None
        | Some (sp, ps) \<Rightarrow>
            let argc = length ps;
                ustack = [0xffffffff, argc, unat (sp - of_nat ((argc + 1) * 4))] @ map unat ps @ [0];
                sp' = sp - of_nat ((3 + argc + 1) * 4) in
            kbind (copyout pgdir sp' (concat (map bytes32 ustack))) (\<lambda>r.
            if r < 0 then exec_bad pgdir None
            else exec_commit c path pgdir sz sp' entry)))))"

text \<open>
  \<open>exec\<close>. The check of the header's length compares the result of \<open>readi\<close> as an unsigned
  number, so a result of -1 passes it.
\<close>

definition exec :: "nat \<Rightarrow> nat \<Rightarrow> byte list \<Rightarrow> byte list \<Rightarrow> byte list list \<Rightarrow> ('a proc_st_scheme, int) kern" where
  "exec c cwd junk path argv =
     kbind (namei cwd path) (\<lambda>r.
     case r of None \<Rightarrow> ret (-1)
     | Some ip \<Rightarrow>
         kbind (ilock ip) (\<lambda>_.
         kbind (readi ip 0 52) (\<lambda>(n, d).
         let elf = get_elfhdr (overwrite junk 0 d) in
         if uns32 n < 52 then exec_bad 0 (Some ip)
         else if e_magic elf \<noteq> ELF_MAGIC then exec_bad 0 (Some ip)
         else
           kbind setupkvm (\<lambda>pgdir.
           if pgdir = 0 then exec_bad 0 (Some ip)
           else
             kbind (exec_load pgdir ip (e_phnum elf) (e_phoff elf) 0) (\<lambda>q.
             case q of None \<Rightarrow> exec_bad pgdir (Some ip)
             | Some sz \<Rightarrow>
                 kbind (iunlockput ip) (\<lambda>_.
                 exec_stack c path argv pgdir sz (e_entry elf)))))))"

end
