(* ===== verification/Syscall.thy ===== *)
theory Syscall
  imports Exec
begin

text \<open>
  System calls: fetching and checking arguments from user memory (\<open>syscall.c\<close>), the calls of
  \<open>sysproc.c\<close> and \<open>sysfile.c\<close>, the dispatch table and \<open>trap\<close> (\<open>trap.c\<close>).

  The kernel runs on the page table of the calling process, so a user address it reads is looked
  up there: \<open>uread\<close> gives the bytes, and a page that is not mapped is a fault. A pointer argument
  is its user address, a string argument the user memory from its first byte up to the process
  size. What a call writes to user memory goes through the same lookup.
\<close>

subsection \<open>User memory\<close>

text \<open>The kernel address of a user address in the current page table, if the page is mapped.\<close>

definition ukaddr :: "'a mem_st_scheme \<Rightarrow> u32 \<Rightarrow> u32 \<Rightarrow> u32 option" where
  "ukaddr s pgdir va =
     (case walkpgdir pgdir va False s of
        Inl e \<Rightarrow> None
      | Inr (pte, _) \<Rightarrow>
          if pte = 0 \<or> ldw s pte AND PTE_P = 0 then None
          else Some (p2v (PTE_ADDR (ldw s pte)) + (va - PGROUNDDOWN va)))"

definition ubyte :: "'a mem_st_scheme \<Rightarrow> u32 \<Rightarrow> u32 \<Rightarrow> byte option" where
  "ubyte s pgdir va = map_option (\<lambda>k. frames s (frame_no k) ! frame_off k) (ukaddr s pgdir va)"

fun uread :: "'a mem_st_scheme \<Rightarrow> u32 \<Rightarrow> u32 \<Rightarrow> nat \<Rightarrow> byte list option" where
  "uread s pgdir va 0 = Some []"
| "uread s pgdir va (Suc n) =
     Option.bind (ubyte s pgdir va) (\<lambda>b. map_option ((#) b) (uread s pgdir (va + 1) n))"

fun uwrite :: "u32 \<Rightarrow> u32 \<Rightarrow> byte list \<Rightarrow> ('a mem_st_scheme, unit) kern" where
  "uwrite pgdir va [] s = Inr ((), s)"
| "uwrite pgdir va (b # bs) s =
     (case ukaddr s pgdir va of None \<Rightarrow> Inl Fault | Some k \<Rightarrow> uwrite pgdir (va + 1) bs (stbytes k [b] s))"

subsection \<open>Arguments\<close>

definition fetchint :: "nat \<Rightarrow> u32 \<Rightarrow> ('a proc_st_scheme, u32 option) kern" where
  "fetchint p addr s =
     (if addr \<ge> p_sz (prc s p) \<or> addr + 4 > p_sz (prc s p) then Inr (None, s)
      else
        case uread s (p_pgdir (prc s p)) addr 4 of
          None \<Rightarrow> Inl Fault
        | Some d \<Rightarrow> Inr (Some (of_nat (get32 d 0)), s))"

text \<open>The scan of \<open>fetchstr\<close>, \<open>n\<close> bytes below the end of the process.\<close>

fun str_scan :: "'a mem_st_scheme \<Rightarrow> u32 \<Rightarrow> u32 \<Rightarrow> nat \<Rightarrow> nat option option" where
  "str_scan s pgdir va 0 = Some None"
| "str_scan s pgdir va (Suc n) =
     (case ubyte s pgdir va of
        None \<Rightarrow> None
      | Some b \<Rightarrow> if b = 0 then Some (Some 0) else map_option (map_option Suc) (str_scan s pgdir (va + 1) n))"

definition fetchstr :: "nat \<Rightarrow> u32 \<Rightarrow> ('a proc_st_scheme, (nat \<times> byte list) option) kern" where
  "fetchstr p addr s =
     (let sz = p_sz (prc s p); pgdir = p_pgdir (prc s p) in
      if addr \<ge> sz then Inr (None, s)
      else
        case str_scan s pgdir addr (unat (sz - addr)) of
          None \<Rightarrow> Inl Fault
        | Some None \<Rightarrow> Inr (None, s)
        | Some (Some len) \<Rightarrow>
            (case uread s pgdir addr (len + 1) of None \<Rightarrow> Inl Fault | Some d \<Rightarrow> Inr (Some (len, d), s)))"

definition argint :: "nat \<Rightarrow> nat \<Rightarrow> ('a proc_st_scheme, u32 option) kern" where
  "argint c n = kbind (myproc c) (\<lambda>p.
     kbind (gets (\<lambda>s. tf_esp (p_tf (prc s p)))) (\<lambda>esp. fetchint p (esp + 4 + 4 * of_nat n)))"

text \<open>\<open>size\<close> is a C \<open>int\<close>; in the comparison it is converted to an unsigned number.\<close>

definition argptr :: "nat \<Rightarrow> nat \<Rightarrow> int \<Rightarrow> ('a proc_st_scheme, u32 option) kern" where
  "argptr c n siz =
     kbind (argint c n) (\<lambda>r.
     case r of None \<Rightarrow> ret None
     | Some i \<Rightarrow>
         kbind (myproc c) (\<lambda>p s.
         if i \<ge> p_sz (prc s p) \<or> i + of_int siz > p_sz (prc s p) then Inr (None, s) else Inr (Some i, s)))"

definition argstr :: "nat \<Rightarrow> nat \<Rightarrow> ('a proc_st_scheme, (nat \<times> byte list) option) kern" where
  "argstr c n =
     kbind (argint c n) (\<lambda>r. case r of None \<Rightarrow> ret None
     | Some addr \<Rightarrow> kbind (myproc c) (\<lambda>p. fetchstr p addr))"

subsection \<open>Process calls\<close>

text \<open>A call returns a value for \<open>%eax\<close>, or switches to the scheduler before it does.\<close>

datatype sysres = SRet u32 | SSwitch bool

definition sret :: "int \<Rightarrow> ('a proc_st_scheme, sysres) kern" where
  "sret n = ret (SRet (of_int n))"

text \<open>\<open>if((x = m) < 0) return -1;\<close>\<close>

definition or_fail :: "('s, 'b option) kern \<Rightarrow> ('b \<Rightarrow> ('s, int) kern) \<Rightarrow> ('s, int) kern" where
  "or_fail m f = kbind m (\<lambda>r. case r of None \<Rightarrow> ret (-1) | Some x \<Rightarrow> f x)"

definition sys_fork :: "nat \<Rightarrow> ('a file_st_scheme, sysres) kern" where
  "sys_fork c = kbind (fork c) sret"

definition sys_exit :: "nat \<Rightarrow> ('a file_st_scheme, sysres) kern" where
  "sys_exit c = kbind (exit_enter c) (\<lambda>ie. ret (SSwitch ie))"

definition sys_wait :: "nat \<Rightarrow> ('a proc_st_scheme, sysres) kern" where
  "sys_wait c = kbind (wait c) (\<lambda>r. case r of WaitRet pid \<Rightarrow> sret pid | WaitSleep ie \<Rightarrow> ret (SSwitch ie))"

definition sys_kill :: "nat \<Rightarrow> ('a proc_st_scheme, sysres) kern" where
  "sys_kill c = kbind (or_fail (argint c 0) (\<lambda>pid. kill c (sint pid))) sret"

definition sys_getpid :: "nat \<Rightarrow> ('a proc_st_scheme, sysres) kern" where
  "sys_getpid c = kbind (myproc c) (\<lambda>p. kbind (gets (\<lambda>s. p_pid (prc s p))) sret)"

definition sys_sbrk :: "nat \<Rightarrow> ('a proc_st_scheme, sysres) kern" where
  "sys_sbrk c =
     kbind (or_fail (argint c 0) (\<lambda>n.
       kbind (myproc c) (\<lambda>p.
       kbind (gets (\<lambda>s. p_sz (prc s p))) (\<lambda>addr.
       kbind (growproc c (sint n)) (\<lambda>r. if r < 0 then ret (-1) else ret (sint addr)))))) sret"

text \<open>The loop of \<open>sys_sleep\<close>, entered with \<open>tickslock\<close> held.\<close>

definition sleep_ticks :: "nat \<Rightarrow> u32 \<Rightarrow> u32 \<Rightarrow> ('a proc_st_scheme, sysres) kern" where
  "sleep_ticks c n ticks0 =
     kbind (myproc c) (\<lambda>p s.
     if ticks s - ticks0 < n then
       if p_killed (prc s p) then kbind (release_lock c TICKS_LOCK) (\<lambda>_. sret (-1)) s
       else kbind (sleep_enter c ChanTicks TICKS_LOCK) (\<lambda>ie. ret (SSwitch ie)) s
     else kbind (release_lock c TICKS_LOCK) (\<lambda>_. sret 0) s)"

definition sys_sleep :: "nat \<Rightarrow> ('a proc_st_scheme, sysres) kern" where
  "sys_sleep c =
     kbind (argint c 0) (\<lambda>r.
     case r of None \<Rightarrow> sret (-1)
     | Some n \<Rightarrow>
         kbind (acquire_lock c TICKS_LOCK) (\<lambda>_.
         kbind (gets ticks) (\<lambda>ticks0. sleep_ticks c n ticks0)))"

definition sys_sleep_resume :: "nat \<Rightarrow> bool \<Rightarrow> u32 \<Rightarrow> u32 \<Rightarrow> ('a proc_st_scheme, sysres) kern" where
  "sys_sleep_resume c ie n ticks0 = kbind (sleep_return c ie TICKS_LOCK) (\<lambda>_. sleep_ticks c n ticks0)"

definition sys_uptime :: "nat \<Rightarrow> ('a proc_st_scheme, sysres) kern" where
  "sys_uptime c =
     kbind (acquire_lock c TICKS_LOCK) (\<lambda>_.
     kbind (gets ticks) (\<lambda>x.
     kbind (release_lock c TICKS_LOCK) (\<lambda>_. ret (SRet x))))"

definition sys_signal :: "nat \<Rightarrow> ('a proc_st_scheme, sysres) kern" where
  "sys_signal c =
     kbind (or_fail (argint c 0) (\<lambda>signum. or_fail (argint c 1) (\<lambda>handler. signal c (sint signum) handler))) sret"

subsection \<open>File calls\<close>

definition my_cwd :: "nat \<Rightarrow> ('a proc_st_scheme, nat) kern" where
  "my_cwd c = kbind (myproc c) (\<lambda>p. kbind (gets (\<lambda>s. p_cwd (prc s p))) lift_opt)"

definition argfd :: "nat \<Rightarrow> nat \<Rightarrow> ('a proc_st_scheme, (nat \<times> nat) option) kern" where
  "argfd c n =
     kbind (argint c n) (\<lambda>r.
     case r of None \<Rightarrow> ret None
     | Some w \<Rightarrow>
         let fd = sint w in
         if fd < 0 \<or> fd \<ge> int NOFILE then ret None
         else
           kbind (myproc c) (\<lambda>p.
           kbind (gets (\<lambda>s. p_ofile (prc s p) ! nat fd)) (\<lambda>fo.
           ret (map_option (\<lambda>f. (nat fd, f)) fo))))"

definition fdalloc :: "nat \<Rightarrow> nat \<Rightarrow> ('a proc_st_scheme, int) kern" where
  "fdalloc c f =
     kbind (myproc c) (\<lambda>p s.
     case find (\<lambda>fd. p_ofile (prc s p) ! fd = None) [0..<NOFILE] of
       None \<Rightarrow> Inr (-1, s)
     | Some fd \<Rightarrow> kbind (upd_proc p (\<lambda>x. x\<lparr>p_ofile := (p_ofile x)[fd := Some f]\<rparr>)) (\<lambda>_. ret (int fd)) s)"

definition clear_fd :: "nat \<Rightarrow> nat \<Rightarrow> ('a proc_st_scheme, unit) kern" where
  "clear_fd c fd = kbind (myproc c) (\<lambda>p. upd_proc p (\<lambda>x. x\<lparr>p_ofile := (p_ofile x)[fd := None]\<rparr>))"

definition sys_dup :: "nat \<Rightarrow> ('a file_st_scheme, int) kern" where
  "sys_dup c =
     or_fail (argfd c 0) (\<lambda>(_, f).
     kbind (fdalloc c f) (\<lambda>fd.
     if fd < 0 then ret (-1) else kbind (filedup f) (\<lambda>_. ret fd)))"

definition my_pgdir :: "nat \<Rightarrow> ('a proc_st_scheme, u32) kern" where
  "my_pgdir c = kbind (myproc c) (\<lambda>p. gets (\<lambda>s. p_pgdir (prc s p)))"

definition sys_read :: "nat \<Rightarrow> ('a file_st_scheme, int) kern" where
  "sys_read c =
     or_fail (argfd c 0) (\<lambda>(_, f). or_fail (argint c 2) (\<lambda>n. or_fail (argptr c 1 (sint n)) (\<lambda>p.
     kbind (fileread c f (sint n)) (\<lambda>(r, bs).
     kbind (my_pgdir c) (\<lambda>pgdir.
     kbind (uwrite pgdir p bs) (\<lambda>_. ret r))))))"

text \<open>A file that is not open for writing is turned down before the buffer is read.\<close>

definition sys_write :: "nat \<Rightarrow> ('a file_st_scheme, int) kern" where
  "sys_write c =
     or_fail (argfd c 0) (\<lambda>(_, f). or_fail (argint c 2) (\<lambda>n. or_fail (argptr c 1 (sint n)) (\<lambda>p.
     kbind (my_pgdir c) (\<lambda>pgdir.
     kbind (gets (\<lambda>s. if f_writable (fil s f) then uread s pgdir p (nat (sint n)) else Some [])) (\<lambda>d.
     kbind (lift_opt d) (\<lambda>bs. filewrite c f bs (sint n)))))))"

definition sys_close :: "nat \<Rightarrow> ('a file_st_scheme, int) kern" where
  "sys_close c =
     or_fail (argfd c 0) (\<lambda>(fd, f).
     kbind (clear_fd c fd) (\<lambda>_. kbind (fileclose c f) (\<lambda>_. ret 0)))"

text \<open>The fields of \<open>struct stat\<close> at their offsets; the padding keeps its value.\<close>

definition sys_fstat :: "nat \<Rightarrow> ('a file_st_scheme, int) kern" where
  "sys_fstat c =
     or_fail (argfd c 0) (\<lambda>(_, f). or_fail (argptr c 1 20) (\<lambda>p.
     kbind (filestat f) (\<lambda>(r, so).
     case so of None \<Rightarrow> ret r
     | Some sx \<Rightarrow>
         kbind (my_pgdir c) (\<lambda>pgdir.
         kbind (uwrite pgdir (p + 4) (bytes32 (st_dev sx) @ bytes32 (st_ino sx))) (\<lambda>_.
         kbind (uwrite pgdir p (bytes16 (uns16 (st_type sx)))) (\<lambda>_.
         kbind (uwrite pgdir (p + 12) (bytes16 (uns16 (st_nlink sx)))) (\<lambda>_.
         kbind (uwrite pgdir (p + 16) (bytes32 (st_size sx))) (\<lambda>_. ret r))))))))"

text \<open>The undo at the label \<open>bad\<close> of \<open>sys_link\<close>.\<close>

definition link_bad :: "nat \<Rightarrow> ('a fs_st_scheme, int) kern" where
  "link_bad ip =
     kbind (ilock ip) (\<lambda>_.
     kbind (upd_copy ip (\<lambda>d. d\<lparr>di_nlink := sgn16 (uns16 (di_nlink d - 1))\<rparr>)) (\<lambda>_.
     kbind (iupdate ip) (\<lambda>_.
     kbind (iunlockput ip) (\<lambda>_.
     kbind commit_trans (\<lambda>_. ret (-1))))))"

definition sys_link :: "nat \<Rightarrow> ('a proc_st_scheme, int) kern" where
  "sys_link c =
     or_fail (argstr c 0) (\<lambda>(_, old). or_fail (argstr c 1) (\<lambda>(_, new).
     kbind (my_cwd c) (\<lambda>cwd.
     or_fail (namei cwd old) (\<lambda>ip.
     kbind begin_trans (\<lambda>_.
     kbind (ilock ip) (\<lambda>_ s.
     if di_type (i_copy (ino s ip)) = T_DIR then
       kbind (iunlockput ip) (\<lambda>_. kbind commit_trans (\<lambda>_. ret (-1))) s
     else
       kbind (upd_copy ip (\<lambda>d. d\<lparr>di_nlink := sgn16 (uns16 (di_nlink d + 1))\<rparr>)) (\<lambda>_.
       kbind (iupdate ip) (\<lambda>_.
       kbind (iunlock ip) (\<lambda>_.
       kbind (nameiparent cwd new (replicate DIRSIZ 0)) (\<lambda>r.
       case r of None \<Rightarrow> link_bad ip
       | Some (dp, name) \<Rightarrow>
           kbind (ilock dp) (\<lambda>_.
           kbind (\<lambda>s. if i_dev (ino s dp) \<noteq> i_dev (ino s ip) then Inr (-1, s)
                       else dirlink dp name (i_inum (ino s ip)) s) (\<lambda>v.
           if v < 0 then kbind (iunlockput dp) (\<lambda>_. link_bad ip)
           else
             kbind (iunlockput dp) (\<lambda>_.
             kbind (iput ip) (\<lambda>_.
             kbind commit_trans (\<lambda>_. ret 0))))))))) s))))))"

function isdirempty_loop :: "nat \<Rightarrow> nat \<Rightarrow> ('a fs_st_scheme, bool) kern" where
  "isdirempty_loop dp off =
     kbind (gets (\<lambda>s. di_size (i_copy (ino s dp)))) (\<lambda>sz.
     if off < sz \<and> off < 2 ^ 32 then
       kbind (readi dp off 16) (\<lambda>(r, de).
       if r \<noteq> 16 then panic ''isdirempty: readi''
       else if get16 de 0 \<noteq> 0 then ret False
       else isdirempty_loop dp (off + 16))
     else ret True)"
  by auto
termination by (relation "measure (\<lambda>(dp, off). 2 ^ 32 - off)") auto

declare isdirempty_loop.simps [simp del]

definition isdirempty :: "nat \<Rightarrow> ('a fs_st_scheme, bool) kern" where
  "isdirempty dp = isdirempty_loop dp 32"

definition unlink_bad :: "nat \<Rightarrow> ('a fs_st_scheme, int) kern" where
  "unlink_bad dp = kbind (iunlockput dp) (\<lambda>_. kbind commit_trans (\<lambda>_. ret (-1)))"

text \<open>\<open>sys_unlink\<close> from the point where the entry at \<open>off\<close> of \<open>dp\<close> is found.\<close>

definition unlink_entry :: "nat \<Rightarrow> nat \<Rightarrow> nat \<Rightarrow> ('a fs_st_scheme, int) kern" where
  "unlink_entry dp ip off =
     kbind (ilock ip) (\<lambda>_ s.
     if di_nlink (i_copy (ino s ip)) < 1 then Inl (Panic ''unlink: nlink < 1'')
     else
       kbind (if di_type (i_copy (ino s ip)) = T_DIR then isdirempty ip else ret True) (\<lambda>empty.
       if \<not> empty then kbind (iunlockput ip) (\<lambda>_. unlink_bad dp)
       else
         kbind (writei dp (replicate 16 0) off) (\<lambda>r.
         if r \<noteq> 16 then panic ''unlink: writei''
         else
           kbind (\<lambda>s. if di_type (i_copy (ino s ip)) = T_DIR then
               kbind (upd_copy dp (\<lambda>d. d\<lparr>di_nlink := sgn16 (uns16 (di_nlink d - 1))\<rparr>)) (\<lambda>_. iupdate dp) s
             else Inr ((), s)) (\<lambda>_.
           kbind (iunlockput dp) (\<lambda>_.
           kbind (upd_copy ip (\<lambda>d. d\<lparr>di_nlink := sgn16 (uns16 (di_nlink d - 1))\<rparr>)) (\<lambda>_.
           kbind (iupdate ip) (\<lambda>_.
           kbind (iunlockput ip) (\<lambda>_.
           kbind commit_trans (\<lambda>_. ret 0)))))))) s)"

definition sys_unlink :: "nat \<Rightarrow> ('a proc_st_scheme, int) kern" where
  "sys_unlink c =
     or_fail (argstr c 0) (\<lambda>(_, path).
     kbind (my_cwd c) (\<lambda>cwd.
     or_fail (nameiparent cwd path (replicate DIRSIZ 0)) (\<lambda>(dp, name).
     kbind begin_trans (\<lambda>_.
     kbind (ilock dp) (\<lambda>_.
     kbind (lift_opt (namecmp name [46, 0])) (\<lambda>v1.
     kbind (if v1 = 0 then ret 0 else lift_opt (namecmp name [46, 46, 0])) (\<lambda>v2.
     if v1 = 0 \<or> v2 = 0 then unlink_bad dp
     else
       kbind (dirlookup dp name) (\<lambda>r.
       case r of None \<Rightarrow> unlink_bad dp | Some (ip, off) \<Rightarrow> unlink_entry dp ip off))))))))"

definition create :: "nat \<Rightarrow> byte list \<Rightarrow> int \<Rightarrow> int \<Rightarrow> int \<Rightarrow> ('a fs_st_scheme, nat option) kern" where
  "create cwd path ty major minor =
     kbind (nameiparent cwd path (replicate DIRSIZ 0)) (\<lambda>r.
     case r of None \<Rightarrow> ret None
     | Some (dp, name) \<Rightarrow>
         kbind (ilock dp) (\<lambda>_.
         kbind (dirlookup dp name) (\<lambda>q.
         case q of
           Some (ip, off) \<Rightarrow>
             kbind (iunlockput dp) (\<lambda>_.
             kbind (ilock ip) (\<lambda>_ s.
             if ty = T_FILE \<and> di_type (i_copy (ino s ip)) = T_FILE then Inr (Some ip, s)
             else kbind (iunlockput ip) (\<lambda>_. ret None) s))
         | None \<Rightarrow>
             kbind (gets (\<lambda>s. i_dev (ino s dp))) (\<lambda>dev.
             kbind (ialloc dev ty) (\<lambda>ip.
             kbind (ilock ip) (\<lambda>_.
             kbind (upd_copy ip (\<lambda>d. d\<lparr>di_major := sgn16 (uns16 major), di_minor := sgn16 (uns16 minor), di_nlink := 1\<rparr>)) (\<lambda>_.
             kbind (iupdate ip) (\<lambda>_.
             kbind (gets (\<lambda>s. i_inum (ino s ip))) (\<lambda>inum.
             kbind (if ty = T_DIR then
                 kbind (upd_copy dp (\<lambda>d. d\<lparr>di_nlink := sgn16 (uns16 (di_nlink d + 1))\<rparr>)) (\<lambda>_.
                 kbind (iupdate dp) (\<lambda>_.
                 kbind (dirlink ip [46, 0] inum) (\<lambda>v.
                 if v < 0 then panic ''create dots''
                 else
                   kbind (gets (\<lambda>s. i_inum (ino s dp))) (\<lambda>dnum.
                   kbind (dirlink ip [46, 46, 0] dnum) (\<lambda>v.
                   if v < 0 then panic ''create dots'' else ret ())))))
               else ret ()) (\<lambda>_.
             kbind (dirlink dp name inum) (\<lambda>v.
             if v < 0 then panic ''create: dirlink''
             else kbind (iunlockput dp) (\<lambda>_. ret (Some ip)))))))))))))"

text \<open>The second half of \<open>sys_open\<close>, with \<open>ip\<close> locked.\<close>

definition open_file :: "nat \<Rightarrow> nat \<Rightarrow> u32 \<Rightarrow> ('a file_st_scheme, int) kern" where
  "open_file c ip omode =
     kbind filealloc (\<lambda>r.
     case r of None \<Rightarrow> kbind (iunlockput ip) (\<lambda>_. ret (-1))
     | Some f \<Rightarrow>
         kbind (fdalloc c f) (\<lambda>fd.
         if fd < 0 then kbind (fileclose c f) (\<lambda>_. kbind (iunlockput ip) (\<lambda>_. ret (-1)))
         else
           kbind (iunlock ip) (\<lambda>_.
           kbind (upd_file f (\<lambda>x. x\<lparr>f_type := FD_INODE, f_ip := ip, f_off := 0,
             f_readable := (omode AND 1 = 0), f_writable := (omode AND 1 \<noteq> 0 \<or> omode AND 2 \<noteq> 0)\<rparr>)) (\<lambda>_.
           ret fd))))"

definition sys_open :: "nat \<Rightarrow> ('a file_st_scheme, int) kern" where
  "sys_open c =
     or_fail (argstr c 0) (\<lambda>(_, path). or_fail (argint c 1) (\<lambda>omode.
     kbind (my_cwd c) (\<lambda>cwd.
     if omode AND 0x200 \<noteq> 0 then
       kbind begin_trans (\<lambda>_.
       kbind (create cwd path T_FILE 0 0) (\<lambda>r.
       kbind commit_trans (\<lambda>_.
       case r of None \<Rightarrow> ret (-1) | Some ip \<Rightarrow> open_file c ip omode)))
     else
       or_fail (namei cwd path) (\<lambda>ip.
       kbind (ilock ip) (\<lambda>_ s.
       if di_type (i_copy (ino s ip)) = T_DIR \<and> omode \<noteq> 0 then kbind (iunlockput ip) (\<lambda>_. ret (-1)) s
       else open_file c ip omode s)))))"

definition sys_mkdir :: "nat \<Rightarrow> ('a proc_st_scheme, int) kern" where
  "sys_mkdir c =
     kbind begin_trans (\<lambda>_.
     kbind (argstr c 0) (\<lambda>a.
     kbind (my_cwd c) (\<lambda>cwd.
     kbind (case a of None \<Rightarrow> ret None | Some (_, path) \<Rightarrow> create cwd path T_DIR 0 0) (\<lambda>r.
     case r of None \<Rightarrow> kbind commit_trans (\<lambda>_. ret (-1))
     | Some ip \<Rightarrow> kbind (iunlockput ip) (\<lambda>_. kbind commit_trans (\<lambda>_. ret 0))))))"

definition sys_mknod :: "nat \<Rightarrow> ('a proc_st_scheme, int) kern" where
  "sys_mknod c =
     kbind begin_trans (\<lambda>_.
     kbind (argstr c 0) (\<lambda>a.
     kbind (case a of None \<Rightarrow> ret None | Some x \<Rightarrow> argint c 1) (\<lambda>major.
     kbind (case major of None \<Rightarrow> ret None | Some x \<Rightarrow> argint c 2) (\<lambda>minor.
     kbind (my_cwd c) (\<lambda>cwd.
     kbind (case (a, major, minor) of
         (Some (_, path), Some ma, Some mi) \<Rightarrow> create cwd path T_DEV (sint ma) (sint mi)
       | _ \<Rightarrow> ret None) (\<lambda>r.
     case r of None \<Rightarrow> kbind commit_trans (\<lambda>_. ret (-1))
     | Some ip \<Rightarrow> kbind (iunlockput ip) (\<lambda>_. kbind commit_trans (\<lambda>_. ret 0))))))))"

definition sys_chdir :: "nat \<Rightarrow> ('a proc_st_scheme, int) kern" where
  "sys_chdir c =
     or_fail (argstr c 0) (\<lambda>(_, path).
     kbind (my_cwd c) (\<lambda>cwd.
     or_fail (namei cwd path) (\<lambda>ip.
     kbind (ilock ip) (\<lambda>_ s.
     if di_type (i_copy (ino s ip)) \<noteq> T_DIR then kbind (iunlockput ip) (\<lambda>_. ret (-1)) s
     else
       kbind (iunlock ip) (\<lambda>_.
       kbind (iput cwd) (\<lambda>_.
       kbind (myproc c) (\<lambda>p.
       kbind (upd_proc p (p_cwd_update (\<lambda>_. Some ip))) (\<lambda>_. ret 0)))) s))))"

text \<open>The loop that collects \<open>argv\<close>; \<open>n\<close> of its \<open>MAXARG\<close> slots are left.\<close>

fun exec_args :: "nat \<Rightarrow> nat \<Rightarrow> u32 \<Rightarrow> ('a proc_st_scheme, byte list list option) kern" where
  "exec_args p 0 uargv = ret None"
| "exec_args p (Suc n) uargv =
     kbind (fetchint p uargv) (\<lambda>r.
     case r of None \<Rightarrow> ret None
     | Some uarg \<Rightarrow>
         if uarg = 0 then ret (Some [])
         else
           kbind (fetchstr p uarg) (\<lambda>a.
           case a of None \<Rightarrow> ret None
           | Some (_, d) \<Rightarrow> kbind (exec_args p n (uargv + 4)) (\<lambda>as. ret (map_option ((#) d) as))))"

definition sys_exec :: "nat \<Rightarrow> byte list \<Rightarrow> ('a proc_st_scheme, int) kern" where
  "sys_exec c junk =
     or_fail (argstr c 0) (\<lambda>(_, path). or_fail (argint c 1) (\<lambda>uargv.
     kbind (myproc c) (\<lambda>p.
     or_fail (exec_args p MAXARG uargv) (\<lambda>argv.
     kbind (my_cwd c) (\<lambda>cwd. exec c cwd junk path argv)))))"

definition sys_pipe :: "nat \<Rightarrow> ('a file_st_scheme, int) kern" where
  "sys_pipe c =
     or_fail (argptr c 0 8) (\<lambda>fd.
     or_fail (pipealloc c) (\<lambda>(rf, wf).
     kbind (fdalloc c rf) (\<lambda>fd0.
     kbind (if fd0 < 0 then ret (-1) else fdalloc c wf) (\<lambda>fd1.
     if fd0 < 0 \<or> fd1 < 0 then
       kbind (if fd0 \<ge> 0 then clear_fd c (nat fd0) else ret ()) (\<lambda>_.
       kbind (fileclose c rf) (\<lambda>_.
       kbind (fileclose c wf) (\<lambda>_. ret (-1))))
     else
       kbind (my_pgdir c) (\<lambda>pgdir.
       kbind (uwrite pgdir fd (bytes32 (nat fd0))) (\<lambda>_.
       kbind (uwrite pgdir (fd + 4) (bytes32 (nat fd1))) (\<lambda>_. ret 0)))))))"

subsection \<open>Dispatch\<close>

text \<open>
  The table of system calls by number; \<open>sys_signal\<close> is commented out in it. A call that is
  not in the table prints a message and returns -1.
\<close>

definition lift_int :: "('a proc_st_scheme, int) kern \<Rightarrow> ('a proc_st_scheme, sysres) kern" where
  "lift_int m = kbind m sret"

definition syscalls :: "nat \<Rightarrow> byte list \<Rightarrow> int \<Rightarrow> ('a file_st_scheme, sysres) kern option" where
  "syscalls c junk num =
     (if num = 1 then Some (sys_fork c) else if num = 2 then Some (sys_exit c)
      else if num = 3 then Some (sys_wait c) else if num = 4 then Some (lift_int (sys_pipe c))
      else if num = 5 then Some (lift_int (sys_read c)) else if num = 6 then Some (sys_kill c)
      else if num = 7 then Some (lift_int (sys_exec c junk)) else if num = 8 then Some (lift_int (sys_fstat c))
      else if num = 9 then Some (lift_int (sys_chdir c)) else if num = 10 then Some (lift_int (sys_dup c))
      else if num = 11 then Some (sys_getpid c) else if num = 12 then Some (sys_sbrk c)
      else if num = 13 then Some (sys_sleep c) else if num = 14 then Some (sys_uptime c)
      else if num = 15 then Some (lift_int (sys_open c)) else if num = 16 then Some (lift_int (sys_write c))
      else if num = 17 then Some (lift_int (sys_mknod c)) else if num = 18 then Some (lift_int (sys_unlink c))
      else if num = 19 then Some (lift_int (sys_link c)) else if num = 20 then Some (lift_int (sys_mkdir c))
      else if num = 21 then Some (lift_int (sys_close c)) else None)"

definition set_eax :: "nat \<Rightarrow> u32 \<Rightarrow> ('a proc_st_scheme, unit) kern" where
  "set_eax p v = upd_proc p (\<lambda>x. x\<lparr>p_tf := (p_tf x)\<lparr>tf_eax := v\<rparr>\<rparr>)"

definition syscall :: "nat \<Rightarrow> byte list \<Rightarrow> ('a file_st_scheme, bool option) kern" where
  "syscall c junk =
     kbind (myproc c) (\<lambda>p.
     kbind (gets (\<lambda>s. sint (tf_eax (p_tf (prc s p))))) (\<lambda>num.
     case (if num \<ge> 0 \<and> num < 22 then syscalls c junk num else None) of
       Some f \<Rightarrow>
         kbind f (\<lambda>r. case r of SRet v \<Rightarrow> kbind (set_eax p v) (\<lambda>_. ret None) | SSwitch ie \<Rightarrow> ret (Some ie))
     | None \<Rightarrow> kbind (set_eax p (-1)) (\<lambda>_. ret None)))"

subsection \<open>Traps\<close>

text \<open>
  \<open>trap\<close> in three stretches: what the trap is about, then the exit of a killed process in user
  mode, then the yield on a clock tick. The frame is that of the current process; \<open>dev\<close> stands
  for the drivers of the other interrupts. A switch to the scheduler ends a stretch with the value
  it saves.
\<close>

datatype irq_kind = TrapTimer | TrapDevice nat | TrapSpurious | TrapOther

definition trap_kind :: "u32 \<Rightarrow> irq_kind" where
  "trap_kind trapno =
     (if trapno = 32 then TrapTimer
      else if trapno = 32 + 14 then TrapDevice 14
      else if trapno = 32 + 14 + 1 then TrapDevice 15
      else if trapno = 32 + 1 then TrapDevice 1
      else if trapno = 32 + 4 then TrapDevice 4
      else if trapno = 32 + 7 \<or> trapno = 32 + 31 then TrapSpurious
      else TrapOther)"

definition clock_tick :: "nat \<Rightarrow> ('a proc_st_scheme, unit) kern" where
  "clock_tick c =
     kbind (acquire_lock c TICKS_LOCK) (\<lambda>_.
     kbind (modify (\<lambda>s. s\<lparr>ticks := ticks s + 1\<rparr>)) (\<lambda>_.
     kbind (wakeup c ChanTicks) (\<lambda>_. release_lock c TICKS_LOCK)))"

definition trap_irq :: "nat \<Rightarrow> (nat \<Rightarrow> ('a proc_st_scheme, unit) kern) \<Rightarrow> trapframe \<Rightarrow> ('a proc_st_scheme, unit) kern" where
  "trap_irq c dev tf s =
     (case trap_kind (tf_trapno tf) of
        TrapTimer \<Rightarrow> if c = 0 then clock_tick c s else Inr ((), s)
      | TrapDevice n \<Rightarrow> if n = 15 then Inr ((), s) else dev n s
      | TrapSpurious \<Rightarrow> Inr ((), s)
      | TrapOther \<Rightarrow>
          (case curproc s c of
             None \<Rightarrow> Inl (Panic ''trap'')
           | Some p \<Rightarrow>
               if tf_cs tf AND 3 = 0 then Inl (Panic ''trap'')
               else upd_proc p (p_killed_update (\<lambda>_. True)) s))"

definition must_exit :: "nat \<Rightarrow> trapframe \<Rightarrow> 'a proc_st_scheme \<Rightarrow> bool" where
  "must_exit c tf s \<longleftrightarrow>
     (case curproc s c of None \<Rightarrow> False | Some p \<Rightarrow> p_killed (prc s p) \<and> tf_cs tf AND 3 = 3)"

definition trap :: "nat \<Rightarrow> byte list \<Rightarrow> (nat \<Rightarrow> ('a file_st_scheme, unit) kern) \<Rightarrow> trapframe
    \<Rightarrow> ('a file_st_scheme, bool option) kern" where
  "trap c junk dev tf =
     (if tf_trapno tf = 64 then
        kbind (myproc c) (\<lambda>p s.
        if p_killed (prc s p) then kbind (exit_enter c) (\<lambda>ie. ret (Some ie)) s
        else
          kbind (upd_proc p (p_tf_update (\<lambda>_. tf))) (\<lambda>_.
          kbind (syscall c junk) (\<lambda>r s.
          case r of Some ie \<Rightarrow> Inr (Some ie, s)
          | None \<Rightarrow> if p_killed (prc s p) then kbind (exit_enter c) (\<lambda>ie. ret (Some ie)) s else Inr (None, s))) s)
      else
        kbind (trap_irq c dev tf) (\<lambda>_ s.
        if must_exit c tf s then kbind (exit_enter c) (\<lambda>ie. ret (Some ie)) s
        else
          case curproc s c of
            None \<Rightarrow> Inr (None, s)
          | Some p \<Rightarrow>
              if p_state (prc s p) = RUNNING \<and> trap_kind (tf_trapno tf) = TrapTimer then
                kbind (yield_enter c) (\<lambda>ie. ret (Some ie)) s
              else Inr (None, s)))"

text \<open>What \<open>trap\<close> does when the process runs again after the yield.\<close>

definition trap_resume :: "nat \<Rightarrow> bool \<Rightarrow> trapframe \<Rightarrow> ('a file_st_scheme, bool option) kern" where
  "trap_resume c ie tf =
     kbind (yield_return c ie) (\<lambda>_ s.
     if must_exit c tf s then kbind (exit_enter c) (\<lambda>ie. ret (Some ie)) s else Inr (None, s))"

end
