(* ===== verification/Shell.thy ===== *)
theory Shell
  imports CString
begin

text \<open>
  The shell (\<open>sh.c\<close>): the tokenizer and the recursive descent parser, the termination of the
  words it found, the commands as sequences of system calls, and the prompt.

  The command line is a buffer, and a pointer into it is an index; \<open>es\<close> is the index of the
  terminator. Where the parser consumes a token before it calls itself, the recursion checks that
  the position has moved on; it always has, and otherwise the result would be \<open>Hang\<close>.
\<close>

subsection \<open>Tokens\<close>

definition whitespace :: "byte list" where
  "whitespace = [32, 9, 13, 10, 11]"

definition symbols :: "byte list" where
  "symbols = [60, 124, 62, 38, 59, 40, 41]"

function skip_ws :: "byte list \<Rightarrow> nat \<Rightarrow> nat \<Rightarrow> nat" where
  "skip_ws buf es s = (if s < es \<and> buf ! s \<in> set whitespace then skip_ws buf es (Suc s) else s)"
  by auto
termination by (relation "measure (\<lambda>(buf, es, s). es - s)") auto

function skip_word :: "byte list \<Rightarrow> nat \<Rightarrow> nat \<Rightarrow> nat" where
  "skip_word buf es s =
     (if s < es \<and> buf ! s \<notin> set whitespace \<and> buf ! s \<notin> set symbols then skip_word buf es (Suc s) else s)"
  by auto
termination by (relation "measure (\<lambda>(buf, es, s). es - s)") auto

declare skip_ws.simps [simp del] skip_word.simps [simp del]

text \<open>
  \<open>gettoken\<close>: the token, the bounds of its text, and where the next one starts. The loops read
  below \<open>es\<close> only; the other reads have no such check, and one that is not in the buffer has no
  result.
\<close>

definition gettoken :: "byte list \<Rightarrow> nat \<Rightarrow> nat \<Rightarrow> (byte \<times> nat \<times> nat \<times> nat) option" where
  "gettoken buf es ps =
     (let q = skip_ws buf es ps in
      Option.bind (ld buf q) (\<lambda>c.
      Option.bind
        (if c = 0 then Some (c, q)
         else if c \<in> {124, 40, 41, 59, 38, 60} then Some (c, Suc q)
         else if c = 62 then
           Option.bind (ld buf (Suc q)) (\<lambda>d. Some (if d = 62 then (43, Suc (Suc q)) else (c, Suc q)))
         else Some (97, skip_word buf es q))
        (\<lambda>(tok, eq). Some (tok, q, eq, skip_ws buf es eq))))"

definition peek :: "byte list \<Rightarrow> nat \<Rightarrow> nat \<Rightarrow> byte list \<Rightarrow> (bool \<times> nat) option" where
  "peek buf es ps toks =
     (let s = skip_ws buf es ps in Option.bind (ld buf s) (\<lambda>c. Some (c \<noteq> 0 \<and> c \<in> set toks, s)))"

lemma gettokenD:
  assumes "gettoken buf es ps = Some (t, q, e, s)"
  shows "q = skip_ws buf es ps" "s = skip_ws buf es e"
    "(t, e) = (if buf ! q = 0 then (0, q) else if buf ! q \<in> {124, 40, 41, 59, 38, 60} then (buf ! q, Suc q)
       else if buf ! q = 62 then (if buf ! Suc q = 62 then (43, Suc (Suc q)) else (62, Suc q))
       else (97, skip_word buf es q))"
  using assms by (auto simp: gettoken_def Let_def ld_def bind_eq_Some_conv split: if_splits)

lemma peekD:
  assumes "peek buf es ps toks = Some (m, s)"
  shows "s = skip_ws buf es ps" "m \<longleftrightarrow> buf ! s \<noteq> 0 \<and> buf ! s \<in> set toks"
  using assms by (auto simp: peek_def Let_def ld_def split: if_splits)

subsection \<open>Commands\<close>

text \<open>
  A word is the bounds of its text in the buffer. The arguments of an \<open>execcmd\<close> are its
  \<open>argv\<close> and \<open>eargv\<close>.
\<close>

type_synonym word_ref = "nat \<times> nat"

datatype cmd =
    EXEC "word_ref list"
  | REDIR cmd word_ref nat nat
  | PIPE cmd cmd
  | LIST cmd cmd
  | BACK cmd

abbreviation MAXARGS :: nat where "MAXARGS \<equiv> 10"

abbreviation O_RDONLY :: nat where "O_RDONLY \<equiv> 0"
abbreviation O_WRONLY :: nat where "O_WRONLY \<equiv> 1"
abbreviation O_CREATE :: nat where "O_CREATE \<equiv> 0x200"

subsection \<open>Parser\<close>

text \<open>
  \<open>parseredirs\<close> wraps a command into its redirections. In \<open>parseexec\<close> the command is
  the \<open>execcmd\<close> whose arguments are filled in later, through the pointer the parser kept; so
  there the redirections are collected and wrapped around it at the end.
\<close>

type_synonym redir = "word_ref \<times> nat \<times> nat"

fun wrap_redirs :: "cmd \<Rightarrow> redir list \<Rightarrow> cmd" where
  "wrap_redirs c [] = c"
| "wrap_redirs c ((w, m, fd) # rs) = wrap_redirs (REDIR c w m fd) rs"

function parseredirs :: "byte list \<Rightarrow> nat \<Rightarrow> nat \<Rightarrow> stop + redir list \<times> nat" where
  "parseredirs buf es ps =
     (case peek buf es ps [60, 62] of None \<Rightarrow> Inl Fault | Some (more, s) \<Rightarrow>
      if more then
        case gettoken buf es s of None \<Rightarrow> Inl Fault
        | Some (tok, _, _, s1) \<Rightarrow>
        case gettoken buf es s1 of None \<Rightarrow> Inl Fault
        | Some (t2, q, eq, s2) \<Rightarrow>
        if t2 \<noteq> 97 then Inl (Panic ''missing file for redirection'')
        else if s2 \<le> ps \<or> es < s2 then Inl Hang
        else
          let r = (if tok = 60 then [((q, eq), O_RDONLY, 0)]
                   else if tok = 62 \<or> tok = 43 then [((q, eq), O_WRONLY + O_CREATE, 1)] else []) in
          (case parseredirs buf es s2 of Inl e \<Rightarrow> Inl e | Inr (rs, s3) \<Rightarrow> Inr (r @ rs, s3))
      else Inr ([], s))"
  by auto
termination by (relation "measure (\<lambda>(buf, es, ps). es - ps)") auto

text \<open>The loop of \<open>parseexec\<close>: \<open>argc\<close> arguments have been found.\<close>

function parseargs :: "byte list \<Rightarrow> nat \<Rightarrow> nat \<Rightarrow> nat \<Rightarrow> stop + (word_ref list \<times> redir list) \<times> nat" where
  "parseargs buf es argc ps =
     (case peek buf es ps [124, 41, 38, 59] of None \<Rightarrow> Inl Fault | Some (stp, s) \<Rightarrow>
      if stp then Inr (([], []), s)
      else
        case gettoken buf es s of None \<Rightarrow> Inl Fault | Some (tok, q, eq, s1) \<Rightarrow>
        if tok = 0 then Inr (([], []), s1)
        else if tok \<noteq> 97 then Inl (Panic ''syntax'')
        else if Suc argc \<ge> MAXARGS then Inl (Panic ''too many args'')
        else
          case parseredirs buf es s1 of Inl e \<Rightarrow> Inl e
          | Inr (rs, s2) \<Rightarrow>
              if s2 \<le> ps \<or> es < s2 then Inl Hang
              else
                case parseargs buf es (Suc argc) s2 of Inl e \<Rightarrow> Inl e
                | Inr ((as, rs'), s3) \<Rightarrow> Inr (((q, eq) # as, rs @ rs'), s3))"
  by auto
termination by (relation "measure (\<lambda>(buf, es, argc, ps). es - ps)") auto

fun parseback :: "nat \<Rightarrow> byte list \<Rightarrow> nat \<Rightarrow> cmd \<Rightarrow> nat \<Rightarrow> stop + cmd \<times> nat" where
  "parseback 0 buf es c ps = Inl Hang"
| "parseback (Suc n) buf es c ps =
     (case peek buf es ps [38] of None \<Rightarrow> Inl Fault | Some (more, s) \<Rightarrow>
      if more then case gettoken buf es s of None \<Rightarrow> Inl Fault | Some (_, _, _, s1) \<Rightarrow> parseback n buf es (BACK c) s1
      else Inr (c, s))"

function (sequential) parseline :: "byte list \<Rightarrow> nat \<Rightarrow> nat \<Rightarrow> stop + cmd \<times> nat"
  and parsepipe :: "byte list \<Rightarrow> nat \<Rightarrow> nat \<Rightarrow> stop + cmd \<times> nat"
  and parseexec :: "byte list \<Rightarrow> nat \<Rightarrow> nat \<Rightarrow> stop + cmd \<times> nat"
  and parseblock :: "byte list \<Rightarrow> nat \<Rightarrow> nat \<Rightarrow> stop + cmd \<times> nat" where
  "parseline buf es ps =
     (case parsepipe buf es ps of Inl e \<Rightarrow> Inl e
      | Inr (c, s1) \<Rightarrow>
          case parseback (Suc es) buf es c s1 of Inl e \<Rightarrow> Inl e
          | Inr (c2, s2) \<Rightarrow>
              case peek buf es s2 [59] of None \<Rightarrow> Inl Fault | Some (more, s3) \<Rightarrow>
              if more then
                case gettoken buf es s3 of None \<Rightarrow> Inl Fault | Some (_, _, _, s4) \<Rightarrow>
                if s4 \<le> ps \<or> es < s4 then Inl Hang
                else
                  case parseline buf es s4 of Inl e \<Rightarrow> Inl e
                  | Inr (c3, s5) \<Rightarrow> Inr (LIST c2 c3, s5)
              else Inr (c2, s3))"
| "parsepipe buf es ps =
     (case parseexec buf es ps of Inl e \<Rightarrow> Inl e
      | Inr (c, s1) \<Rightarrow>
          case peek buf es s1 [124] of None \<Rightarrow> Inl Fault | Some (more, s2) \<Rightarrow>
          if more then
            case gettoken buf es s2 of None \<Rightarrow> Inl Fault | Some (_, _, _, s3) \<Rightarrow>
            if s3 \<le> ps \<or> es < s3 then Inl Hang
            else
              case parsepipe buf es s3 of Inl e \<Rightarrow> Inl e
              | Inr (c2, s4) \<Rightarrow> Inr (PIPE c c2, s4)
          else Inr (c, s2))"
| "parseexec buf es ps =
     (case peek buf es ps [40] of None \<Rightarrow> Inl Fault | Some (block, s) \<Rightarrow>
      if block then (if s < ps then Inl Hang else parseblock buf es s)
      else
        case parseredirs buf es s of Inl e \<Rightarrow> Inl e
        | Inr (rs, s1) \<Rightarrow>
            case parseargs buf es 0 s1 of Inl e \<Rightarrow> Inl e
            | Inr ((as, rs'), s2) \<Rightarrow> Inr (wrap_redirs (EXEC as) (rs @ rs'), s2))"
| "parseblock buf es ps =
     (case peek buf es ps [40] of None \<Rightarrow> Inl Fault | Some (op, s) \<Rightarrow>
      if \<not> op then Inl (Panic ''parseblock'')
      else
        case gettoken buf es s of None \<Rightarrow> Inl Fault | Some (_, _, _, s1) \<Rightarrow>
        if s1 \<le> ps \<or> es < s1 then Inl Hang
        else
          case parseline buf es s1 of Inl e \<Rightarrow> Inl e
          | Inr (c, s2) \<Rightarrow>
              case peek buf es s2 [41] of None \<Rightarrow> Inl Fault | Some (cl, s3) \<Rightarrow>
              if \<not> cl then Inl (Panic ''syntax - missing )'')
              else
                case gettoken buf es s3 of None \<Rightarrow> Inl Fault | Some (_, _, _, s4) \<Rightarrow>
                case parseredirs buf es s4 of Inl e \<Rightarrow> Inl e
                | Inr (rs, s5) \<Rightarrow> Inr (wrap_redirs c rs, s5))"
  by pat_completeness auto
termination
  by (relation "measure (\<lambda>x. case x of
      Inl (Inl (buf, es, ps)) \<Rightarrow> 4 * (es - ps) + 3 | Inl (Inr (buf, es, ps)) \<Rightarrow> 4 * (es - ps) + 2
    | Inr (Inl (buf, es, ps)) \<Rightarrow> 4 * (es - ps) + 1 | Inr (Inr (buf, es, ps)) \<Rightarrow> 4 * (es - ps))")
    auto

declare parseredirs.simps [simp del] parseargs.simps [simp del] parseline.simps [simp del] parsepipe.simps [simp del]
  parseexec.simps [simp del] parseblock.simps [simp del]

text \<open>\<open>nulterminate\<close> ends every word of the command in the buffer.\<close>

fun nulterminate :: "cmd \<Rightarrow> byte list \<Rightarrow> byte list option" where
  "nulterminate (EXEC ws) buf = fold (\<lambda>(q, eq) b. Option.bind b (\<lambda>m. Prelude.st m eq 0)) ws (Some buf)"
| "nulterminate (REDIR c (q, eq) m fd) buf = Option.bind (nulterminate c buf) (\<lambda>b. Prelude.st b eq 0)"
| "nulterminate (PIPE l r) buf = Option.bind (nulterminate l buf) (nulterminate r)"
| "nulterminate (LIST l r) buf = Option.bind (nulterminate l buf) (nulterminate r)"
| "nulterminate (BACK c) buf = nulterminate c buf"

definition parsecmd :: "byte list \<Rightarrow> stop + cmd \<times> byte list" where
  "parsecmd buf =
     (case strlen buf of None \<Rightarrow> Inl Fault
      | Some es \<Rightarrow>
          case parseline buf es 0 of Inl e \<Rightarrow> Inl e
          | Inr (c, s) \<Rightarrow>
              case peek buf es s [] of None \<Rightarrow> Inl Fault | Some (_, s') \<Rightarrow>
              if s' \<noteq> es then Inl (Panic ''syntax'')
              else case nulterminate c buf of None \<Rightarrow> Inl Fault | Some b \<Rightarrow> Inr (c, b))"

subsection \<open>Running commands\<close>

text \<open>
  A command runs as a sequence of system calls: \<open>runcmd\<close> is translated to the program of calls
  it makes. After \<open>fork1\<close> there is a program for the child and one for the parent; \<open>Open\<close>
  and \<open>Pipe\<close> have a program for failure first. A failed \<open>exec\<close> goes on.
\<close>

datatype prog =
    Exit
  | Exec "byte list list" prog
  | Message string "byte list" prog
  | Close nat prog
  | Open "byte list" nat prog prog
  | Dup nat prog
  | Fork prog prog
  | Wait prog
  | Pipe prog "nat \<Rightarrow> nat \<Rightarrow> prog"

definition word_at :: "byte list \<Rightarrow> nat \<Rightarrow> byte list" where
  "word_at buf q = takeWhile (\<lambda>c. c \<noteq> 0) (drop q buf)"

fun runcmd :: "byte list \<Rightarrow> cmd \<Rightarrow> prog" where
  "runcmd buf (EXEC []) = Exit"
| "runcmd buf (EXEC (w # ws)) =
     Exec (map (\<lambda>(q, eq). word_at buf q) (w # ws)) (Message ''exec %s failed'' (word_at buf (fst w)) Exit)"
| "runcmd buf (REDIR c (q, eq) mode fd) =
     Close fd (Open (word_at buf q) mode (Message ''open %s failed'' (word_at buf q) Exit) (runcmd buf c))"
| "runcmd buf (LIST l r) = Fork (runcmd buf l) (Wait (runcmd buf r))"
| "runcmd buf (PIPE l r) =
     Pipe (Message ''pipe'' [] Exit) (\<lambda>p0 p1.
       Fork (Close 1 (Dup p1 (Close p0 (Close p1 (runcmd buf l)))))
       (Fork (Close 0 (Dup p0 (Close p0 (Close p1 (runcmd buf r)))))
       (Close p0 (Close p1 (Wait (Wait Exit))))))"
| "runcmd buf (BACK c) = Fork (runcmd buf c) Exit"

subsection \<open>The prompt\<close>

text \<open>
  The prompt is kept in the array \<open>dirname\<close> of 256 bytes. A store outside an array is
  \<open>None\<close>, as it is for the string routines.
\<close>

fun split_pos :: "byte list \<Rightarrow> nat \<Rightarrow> nat" where
  "split_pos m 0 = 0"
| "split_pos m (Suc i) = (if m ! Suc i = 47 then Suc i else split_pos m i)"

definition strsplitSlesh :: "byte list \<Rightarrow> byte list option" where
  "strsplitSlesh dest =
     Option.bind (strlen dest) (\<lambda>n. if n = 0 then None else Some (dest[split_pos dest (n - 1) := 0]))"

fun strcat_loop :: "byte list \<Rightarrow> nat \<Rightarrow> byte list \<Rightarrow> byte list option" where
  "strcat_loop dest i [] = None"
| "strcat_loop dest i (c # src) =
     (if c = 0 then Prelude.st dest i 0
      else Option.bind (Prelude.st dest i c) (\<lambda>d. strcat_loop d (Suc i) src))"

definition strcat :: "byte list \<Rightarrow> byte list \<Rightarrow> byte list option" where
  "strcat dest src = Option.bind (strlen dest) (\<lambda>i. strcat_loop dest i src)"

text \<open>The command \<open>cd\<close> of \<open>main\<close>; \<open>ok\<close> is the result of \<open>chdir\<close>.\<close>

definition cd_up :: "byte list \<Rightarrow> byte list option" where
  "cd_up dirname =
     Option.bind (strsplitSlesh dirname) (\<lambda>d. Option.bind (strsplitSlesh d) (\<lambda>d. strcat d [47, 62, 0]))"

definition cd_into :: "byte list \<Rightarrow> byte list \<Rightarrow> byte list option" where
  "cd_into dirname name =
     Option.bind (strsplitSlesh dirname) (\<lambda>d. Option.bind (strcat d [47, 0]) (\<lambda>d.
     Option.bind (strcat d name) (\<lambda>d. strcat d [47, 62, 0])))"

definition sh_cd :: "(byte list \<Rightarrow> bool) \<Rightarrow> byte list \<Rightarrow> byte list \<Rightarrow> byte list option" where
  "sh_cd ok buf dirname =
     Option.bind (strlen buf) (\<lambda>n.
     let b = buf[n - 1 := 0]; path = drop 3 b in
     if \<not> ok path then Some dirname
     else if b ! 3 = 46 \<and> b ! 4 = 46 \<and> b ! 5 = 0 then cd_up dirname
     else cd_into dirname path)"

definition getcmd :: "byte list \<Rightarrow> nat \<Rightarrow> byte list \<Rightarrow> (int \<times> byte list \<times> byte list) option" where
  "getcmd buf nbuf inp =
     Option.bind (ulib_memset buf 0 0 nbuf) (\<lambda>b.
     map_option (\<lambda>(b', inp'). (if b' ! 0 = 0 then -1 else 0, b', inp')) (ulib_gets b nbuf inp))"

subsection \<open>What commands are connected to\<close>

text \<open>
  The meaning of the calls for file descriptors: a table of 16 descriptors, filled from the lowest
  free one; \<open>run\<close> lists the programs that a command executes with their descriptors, when all
  calls succeed, numbering the pipes it makes from \<open>k\<close> on.
\<close>

datatype obj = Inherited nat | FileObj "byte list" nat | ReadEnd nat | WriteEnd nat

type_synonym fdt = "nat \<Rightarrow> obj option"

definition free_fd :: "fdt \<Rightarrow> nat option" where
  "free_fd t = find (\<lambda>fd. t fd = None) [0..<16]"

primrec run :: "prog \<Rightarrow> fdt \<Rightarrow> nat \<Rightarrow> (byte list list \<times> fdt) list \<times> nat" where
  "run Exit = (\<lambda>t k. ([], k))"
| "run (Exec a p) = (\<lambda>t k. ([(a, t)], k))"
| "run (Message f w p) = run p"
| "run (Close fd p) = (\<lambda>t k. run p (t(fd := None)) k)"
| "run (Open f m bad p) = (\<lambda>t k. case free_fd t of None \<Rightarrow> run bad t k | Some fd \<Rightarrow> run p (t(fd \<mapsto> FileObj f m)) k)"
| "run (Dup fd p) = (\<lambda>t k. case free_fd t of None \<Rightarrow> run p t k | Some n \<Rightarrow> run p (t(n := t fd)) k)"
| "run (Fork child par) = (\<lambda>t k. let (xs, k1) = run child t k; (ys, k2) = run par t k1 in (xs @ ys, k2))"
| "run (Wait p) = run p"
| "run (Pipe bad f) = (\<lambda>t k.
     case free_fd t of None \<Rightarrow> run bad t k
     | Some p0 \<Rightarrow>
         case free_fd (t(p0 \<mapsto> ReadEnd k)) of None \<Rightarrow> run bad t k
         | Some p1 \<Rightarrow> run (f p0 p1) (t(p0 \<mapsto> ReadEnd k, p1 \<mapsto> WriteEnd k)) (Suc k))"

text \<open>What a command should execute, with which standard input and output.\<close>

fun meaning :: "byte list \<Rightarrow> cmd \<Rightarrow> obj \<Rightarrow> obj \<Rightarrow> nat \<Rightarrow> (byte list list \<times> obj \<times> obj) list \<times> nat" where
  "meaning buf (EXEC ws) i out k = (if ws = [] then [] else [(map (\<lambda>(q, eq). word_at buf q) ws, i, out)], k)"
| "meaning buf (REDIR c (q, eq) mode fd) i out k =
     (if fd = 0 then meaning buf c (FileObj (word_at buf q) mode) out k
      else meaning buf c i (FileObj (word_at buf q) mode) k)"
| "meaning buf (PIPE l r) i out k =
     (let (xs, k1) = meaning buf l i (WriteEnd k) (Suc k); (ys, k2) = meaning buf r (ReadEnd k) out k1 in (xs @ ys, k2))"
| "meaning buf (LIST l r) i out k =
     (let (xs, k1) = meaning buf l i out k; (ys, k2) = meaning buf r i out k1 in (xs @ ys, k2))"
| "meaning buf (BACK c) i out k = meaning buf c i out k"

text \<open>The parser redirects only standard input and output.\<close>

fun redirs_ok :: "cmd \<Rightarrow> bool" where
  "redirs_ok (EXEC ws) = True"
| "redirs_ok (REDIR c w mode fd) \<longleftrightarrow> fd \<le> 1 \<and> redirs_ok c"
| "redirs_ok (PIPE l r) \<longleftrightarrow> redirs_ok l \<and> redirs_ok r"
| "redirs_ok (LIST l r) \<longleftrightarrow> redirs_ok l \<and> redirs_ok r"
| "redirs_ok (BACK c) = redirs_ok c"

definition stdio :: "obj \<Rightarrow> obj \<Rightarrow> obj \<Rightarrow> fdt" where
  "stdio i out err = [0 \<mapsto> i, 1 \<mapsto> out, 2 \<mapsto> err]"

lemma free_fd_simps:
  "free_fd ((stdio i out err)(0 := None)) = Some 0" "free_fd ((stdio i out err)(1 := None)) = Some 1"
  "free_fd (stdio i out err) = Some 3" "free_fd ((stdio i out err)(3 \<mapsto> x)) = Some 4"
  "free_fd ((stdio i out err)(3 \<mapsto> x, 4 \<mapsto> y, 1 := None)) = Some 1"
  "free_fd ((stdio i out err)(3 \<mapsto> x, 4 \<mapsto> y, 0 := None)) = Some 0"
  by (simp_all add: free_fd_def stdio_def upt_rec)

lemma stdio_updates:
  "(stdio i out err)(0 \<mapsto> x) = stdio x out err" "(stdio i out err)(1 \<mapsto> x) = stdio i x err"
  "(stdio i out err)(3 := None) = stdio i out err" "(stdio i out err)(4 := None) = stdio i out err"
  by (auto simp: stdio_def fun_eq_iff)

lemmas stdio_simps = free_fd_simps free_fd_simps [unfolded One_nat_def] stdio_updates stdio_updates [unfolded One_nat_def]

lemma run_meaning:
  "redirs_ok c \<Longrightarrow> run (runcmd buf c) (stdio i out err) k
     = (case meaning buf c i out k of (xs, k') \<Rightarrow> (map (\<lambda>(a, x, y). (a, stdio x y err)) xs, k'))"
proof (induction c arbitrary: i out k)
  case (EXEC ws)
  then show ?case by (cases ws) auto
next
  case (REDIR c w mode fd)
  then show ?case by (cases w; cases "fd = 0") (auto simp: stdio_simps le_Suc_eq)
next
  case (PIPE l r)
  then show ?case by (simp add: stdio_simps Let_def split: prod.splits)
next
  case (LIST l r)
  then show ?case by (simp add: Let_def split: prod.splits)
next
  case (BACK c)
  then show ?case by (simp split: prod.splits)
qed

text \<open>
  C10 (refinement): running a command executes exactly the programs the command line names, each
  connected as written: a redirection replaces standard input or output, a pipeline joins the
  output of its left side to the input of its right side, and no program inherits any other
  descriptor, in particular no end of a pipe it does not use.
\<close>

theorem runcmd_connects:
  assumes "redirs_ok c"
  shows "fst (run (runcmd buf c) (stdio i out err) k)
    = map (\<lambda>(a, x, y). (a, [0 \<mapsto> x, 1 \<mapsto> y, 2 \<mapsto> err])) (fst (meaning buf c i out k))"
  using run_meaning [OF assms, of buf i out err k] by (simp add: stdio_def split: prod.splits)

theorem runcmd_connects_witness:
  "fst (run (runcmd [97, 0, 98, 0] (PIPE (EXEC [(0, 1)]) (EXEC [(2, 3)]))) (stdio (Inherited 0) (Inherited 1) (Inherited 2)) 7)
    = [([[97]], [0 \<mapsto> Inherited 0, 1 \<mapsto> WriteEnd 7, 2 \<mapsto> Inherited 2]), ([[98]], [0 \<mapsto> ReadEnd 7, 1 \<mapsto> Inherited 1, 2 \<mapsto> Inherited 2])]"
  using runcmd_connects [of "PIPE (EXEC [(0, 1)]) (EXEC [(2, 3)])" "[97, 0, 98, 0]" "Inherited 0" "Inherited 1" "Inherited 2" 7]
  by (simp add: word_at_def)

subsection \<open>The prompt follows the directory\<close>

lemma strlen_buf: "cstr m s \<Longrightarrow> strlen m = Some (length s)"
  by (induction m arbitrary: s) (auto split: if_splits)

lemma split_pos_last:
  assumes "47 \<notin> set e" "\<forall>j < length e. m ! (k + Suc j) = e ! j" "0 < k \<longrightarrow> m ! k = 47"
  shows "split_pos m (k + length e) = k"
  using assms
proof (induction e rule: rev_induct)
  case Nil
  then show ?case by (cases k) auto
next
  case (snoc x e)
  have "m ! Suc (k + length e) = x" using snoc.prems(2) by (auto dest: spec [of _ "length e"])
  moreover have "split_pos m (k + length e) = k"
    using snoc.prems by (intro snoc.IH) (auto simp: nth_append dest: less_SucI)
  ultimately show ?case using snoc.prems(1) by simp
qed

text \<open>Cutting a path at its last slash; a path with no slash but at its start becomes empty.\<close>

lemma strsplit_cstr:
  assumes "cstr m (d @ 47 # e)" "47 \<notin> set e"
  shows "\<exists>m'. strsplitSlesh m = Some m' \<and> cstr m' d \<and> length m' = length m"
proof -
  obtain r where m: "m = d @ 47 # e @ 0 # r" "0 \<notin> set (d @ 47 # e)" using assms(1) by (auto simp: cstr_def)
  have "split_pos m (length d + length e) = length d"
    using assms(2) by (intro split_pos_last) (auto simp: m(1) nth_append)
  then have "strsplitSlesh m = Some (m[length d := 0])"
    using strlen_buf [OF assms(1)] by (simp add: strsplitSlesh_def)
  moreover have "cstr (m[length d := 0]) d" using m by (auto simp: cstr_def)
  ultimately show ?thesis by simp
qed

lemma strcat_loop_cstr:
  assumes "cstr src e" "i + length e < length m"
  shows "strcat_loop m i src = Some (overwrite m i (e @ [0]))"
  using assms
proof (induction src arbitrary: e i m)
  case (Cons c src)
  show ?case
  proof (cases "c = 0")
    case True
    then show ?thesis using Cons.prems by (simp add: overwrite_Cons)
  next
    case False
    then obtain e' where e: "e = c # e'" "cstr src e'" using Cons.prems(1) by auto
    then have "strcat_loop (m[i := c]) (Suc i) src = Some (overwrite (m[i := c]) (Suc i) (e' @ [0]))"
      using Cons.prems(2) by (intro Cons.IH) auto
    then show ?thesis using False e Cons.prems(2) by (simp add: overwrite_Cons)
  qed
qed simp

lemma strcat_cstr:
  assumes "cstr m d" "cstr src e" "length d + length e < length m"
  shows "\<exists>m'. strcat m src = Some m' \<and> cstr m' (d @ e) \<and> length m' = length m"
proof -
  have "strcat m src = Some (overwrite m (length d) (e @ [0]))"
    using strlen_buf [OF assms(1)] strcat_loop_cstr [OF assms(2,3)] by (simp add: strcat_def)
  moreover have "take (length d) m = d" using assms(1) by (auto simp: cstr_def)
  then have "cstr (overwrite m (length d) (e @ [0])) (d @ e)"
    using assms(1,2) by (auto simp: cstr_def overwrite_def)
  ultimately show ?thesis using assms(3) by simp
qed

lemma cd_into_cstr:
  assumes "cstr m (d @ [47, 62])" "cstr src name" "length d + length name + 3 < length m"
  shows "\<exists>m'. cd_into m src = Some m' \<and> cstr m' (d @ [47] @ name @ [47, 62]) \<and> length m' = length m"
proof -
  have c: "cstr [47, 0] [47]" "cstr [47, 62, 0] [47, 62]" by simp_all
  obtain m1 where m1: "strsplitSlesh m = Some m1" "cstr m1 d" "length m1 = length m"
    using strsplit_cstr [of m d "[62]"] assms(1) by auto
  obtain m2 where m2: "strcat m1 [47, 0] = Some m2" "cstr m2 (d @ [47])" "length m2 = length m"
    using strcat_cstr [OF m1(2) c(1)] m1(3) assms(3) by auto
  obtain m3 where m3: "strcat m2 src = Some m3" "cstr m3 (d @ [47] @ name)" "length m3 = length m"
    using strcat_cstr [OF m2(2) assms(2)] m2(3) assms(3) by auto
  obtain m4 where "strcat m3 [47, 62, 0] = Some m4" "cstr m4 (d @ [47] @ name @ [47, 62])" "length m4 = length m"
    using strcat_cstr [OF m3(2) c(2)] m3(3) assms(3) by auto
  with m1 m2 m3 show ?thesis by (simp add: cd_into_def)
qed

lemma cd_up_cstr:
  assumes "cstr m (d @ [47] @ name @ [47, 62])" "47 \<notin> set name"
  shows "\<exists>m'. cd_up m = Some m' \<and> cstr m' (d @ [47, 62]) \<and> length m' = length m"
proof -
  obtain m1 where m1: "strsplitSlesh m = Some m1" "cstr m1 (d @ [47] @ name)" "length m1 = length m"
    using strsplit_cstr [of m "d @ [47] @ name" "[62]"] assms(1) by auto
  obtain m2 where m2: "strsplitSlesh m1 = Some m2" "cstr m2 d" "length m2 = length m"
    using strsplit_cstr [of m1 d name] m1(2,3) assms(2) by auto
  have "length d + 2 < length m" using assms(1) by (auto simp: cstr_def)
  then obtain m3 where "strcat m2 [47, 62, 0] = Some m3" "cstr m3 (d @ [47, 62])" "length m3 = length m"
    using strcat_cstr [of m2 d "[47, 62, 0]" "[47, 62]"] m2 by auto
  with m1 m2 show ?thesis by (simp add: cd_up_def)
qed

text \<open>
  The prompt follows \<open>cd\<close>. From a prompt \<open>D/>\<close>, entering a directory
  shows \<open>D/name/>\<close>, and the \<open>cd ..\<close> after it shows \<open>D/>\<close> again, without a store
  outside the array, as long as the longer prompt and its terminator fit into it.
\<close>

lemma prompt_roundtrip:
  assumes "cstr m (d @ [47, 62])" "cstr src name" "47 \<notin> set name" "length d + length name + 3 < length m"
  shows "\<exists>m1 m2. cd_into m src = Some m1 \<and> cstr m1 (d @ [47] @ name @ [47, 62])
    \<and> cd_up m1 = Some m2 \<and> cstr m2 (d @ [47, 62]) \<and> length m2 = length m"
  using cd_into_cstr [OF assms(1,2,4)] cd_up_cstr [OF _ assms(3)] by metis

lemma prompt_roundtrip_witness:
  "\<exists>m1 m2. cd_into (47 # 62 # replicate 254 0) [98, 105, 110, 0] = Some m1 \<and> cstr m1 [47, 98, 105, 110, 47, 62]
    \<and> cd_up m1 = Some m2 \<and> cstr m2 [47, 62]"
proof -
  have z: "replicate 254 (0 :: byte) = 0 # replicate 253 0" by (simp add: replicate_Suc [symmetric] del: replicate_Suc)
  show ?thesis
    using prompt_roundtrip [of "47 # 62 # replicate 254 0" "[]" "[98, 105, 110, 0]" "[98, 105, 110]"] z by auto
qed

text \<open>
  \<open>cd ..\<close> at the prompt \<open>/>\<close> stores outside the array: the first
  \<open>strsplitSlesh\<close> leaves the empty string, and the second one writes to its index -1.
\<close>

theorem cd_up_at_root:
  assumes "cstr m [47, 62]"
  shows "\<exists>m1. strsplitSlesh m = Some m1 \<and> cstr m1 [] \<and> strsplitSlesh m1 = None \<and> cd_up m = None"
proof -
  obtain m1 where m1: "strsplitSlesh m = Some m1" "cstr m1 []" using strsplit_cstr [of m "[]" "[62]"] assms by auto
  then have "strsplitSlesh m1 = None" using strlen_buf [of m1 "[]"] by (simp add: strsplitSlesh_def)
  with m1 show ?thesis by (simp add: cd_up_def)
qed

theorem cd_up_at_root_witness: "cd_up [47, 62, 0, 0] = None"
  using cd_up_at_root [of "[47, 62, 0, 0]"] by auto

end
