(* ===== verification/ShellParse.thy ===== *)
theory ShellParse
  imports Shell
begin

text \<open>
  The shell's parser recovers every command from its text. Commands are printed with their
  precedence made explicit by parentheses; a word is any sequence of bytes without blanks, symbols
  and terminators. The parser gives back the command, with its words as bounds in the buffer, and
  after \<open>nulterminate\<close> the bounds read as the words.
\<close>

subsection \<open>Commands and their text\<close>

datatype ast =
    AExec "byte list list"
  | ARedir ast "byte list" bool
  | APipe ast ast
  | AList ast ast
  | ABack ast

definition paren :: "bool \<Rightarrow> byte list \<Rightarrow> byte list" where
  "paren b t = (if b then [40, 32] @ t @ [41, 32] else t)"

definition pr_word :: "byte list \<Rightarrow> byte list" where
  "pr_word w = w @ [32]"

definition pr_redir :: "byte list \<times> bool \<Rightarrow> byte list" where
  "pr_redir r = [if snd r then 60 else 62, 32] @ pr_word (fst r)"

fun pr :: "nat \<Rightarrow> ast \<Rightarrow> byte list" where
  "pr p (AExec ws) = concat (map pr_word ws)"
| "pr p (ARedir c f inp) = pr 3 c @ pr_redir (f, inp)"
| "pr p (APipe l r) = paren (p > 2) (pr 3 l @ [124, 32] @ pr 2 r)"
| "pr p (ABack c) = paren (p > 1) (pr 1 c @ [38, 32])"
| "pr p (AList l r) = paren (p > 0) (pr 1 l @ [59, 32] @ pr 0 r)"

definition good_word :: "byte list \<Rightarrow> bool" where
  "good_word w \<longleftrightarrow> w \<noteq> [] \<and> (\<forall>c \<in> set w. c \<noteq> 0 \<and> c \<notin> set whitespace \<and> c \<notin> set symbols)"

fun good :: "ast \<Rightarrow> bool" where
  "good (AExec ws) \<longleftrightarrow> length ws < MAXARGS \<and> list_all good_word ws"
| "good (ARedir c f inp) \<longleftrightarrow> good c \<and> good_word f"
| "good (APipe l r) \<longleftrightarrow> good l \<and> good r"
| "good (AList l r) \<longleftrightarrow> good l \<and> good r"
| "good (ABack c) = good c"

text \<open>The command that a parsed command stands for, given how its words are read.\<close>

fun abs_cmd :: "(word_ref \<Rightarrow> byte list) \<Rightarrow> cmd \<Rightarrow> ast" where
  "abs_cmd f (EXEC ws) = AExec (map f ws)"
| "abs_cmd f (REDIR c w m fd) = ARedir (abs_cmd f c) (f w) (fd = 0)"
| "abs_cmd f (PIPE l r) = APipe (abs_cmd f l) (abs_cmd f r)"
| "abs_cmd f (LIST l r) = AList (abs_cmd f l) (abs_cmd f r)"
| "abs_cmd f (BACK c) = ABack (abs_cmd f c)"

definition slice :: "byte list \<Rightarrow> word_ref \<Rightarrow> byte list" where
  "slice str = (\<lambda>(q, eq). if eq < length str \<and> str ! eq = 32 then take (eq - q) (drop q str) else [])"

subsection \<open>Tokens of a text\<close>

text \<open>At the start of a token, or at the end: no blank is next.\<close>

definition tstart :: "byte list \<Rightarrow> bool" where
  "tstart r \<longleftrightarrow> r = [] \<or> hd r \<notin> set whitespace"

lemma sets [simp]: "set whitespace = {32, 9, 13, 10, 11}" "set symbols = {60, 124, 62, 38, 59, 40, 41}"
  by (simp_all add: whitespace_def symbols_def)

lemma skip_ws_tstart: "tstart r \<Longrightarrow> skip_ws ((pre @ r) @ [0]) (length (pre @ r)) (length pre) = length pre"
  by (cases r) (subst skip_ws.simps, simp add: tstart_def nth_append)+

lemma skip_ws_space:
  assumes "tstart r"
  shows "skip_ws ((pre @ 32 # r) @ [0]) (length (pre @ 32 # r)) (length pre) = Suc (length pre)"
proof -
  have "skip_ws (((pre @ [32]) @ r) @ [0]) (length ((pre @ [32]) @ r)) (length (pre @ [32])) = length (pre @ [32])"
    by (rule skip_ws_tstart [OF assms])
  then show ?thesis by (subst skip_ws.simps) (simp add: nth_append)
qed

lemma skip_word_good:
  assumes "\<forall>c \<in> set w. c \<notin> set whitespace \<and> c \<notin> set symbols"
  shows "skip_word ((pre @ w @ 32 # r) @ [0]) (length (pre @ w @ 32 # r)) (length pre) = length pre + length w"
  using assms
proof (induction w arbitrary: pre)
  case Nil
  then show ?case by (subst skip_word.simps) (simp add: nth_append)
next
  case (Cons c w)
  then have "skip_word (((pre @ [c]) @ w @ 32 # r) @ [0]) (length ((pre @ [c]) @ w @ 32 # r)) (length (pre @ [c]))
      = length (pre @ [c]) + length w" by (intro Cons.IH) simp
  then show ?case using Cons.prems by (subst skip_word.simps) (simp add: nth_append)
qed

lemma gettoken_symbol:
  assumes "str = pre @ c # 32 # r" "c \<in> set symbols" "tstart r"
  shows "gettoken (str @ [0]) (length str) (length pre) = Some (c, length pre, Suc (length pre), length pre + 2)"
proof -
  have "skip_ws (str @ [0]) (length str) (length pre) = length pre"
    using skip_ws_tstart [of "c # 32 # r" pre] assms(1,2) by (auto simp: tstart_def)
  moreover have "skip_ws (str @ [0]) (length str) (Suc (length pre)) = length pre + 2"
    using skip_ws_space [OF assms(3), of "pre @ [c]"] assms(1) by simp
  moreover have "(str @ [0]) ! length pre = c" "(str @ [0]) ! Suc (length pre) = 32"
    using assms(1) by (simp_all add: nth_append)
  moreover have "length pre < length (str @ [0])" "Suc (length pre) < length (str @ [0])" using assms(1) by simp_all
  ultimately show ?thesis using assms(2) by (auto simp: gettoken_def Let_def)
qed

lemma gettoken_word:
  assumes "str = pre @ pr_word w @ r" "good_word w" "tstart r"
  shows "gettoken (str @ [0]) (length str) (length pre)
    = Some (97, length pre, length pre + length w, length pre + length (pr_word w))"
proof -
  obtain c w' where w: "w = c # w'" "c \<noteq> 0" "c \<notin> set whitespace" "c \<notin> set symbols"
    using assms(2) by (cases w) (auto simp: good_word_def)
  have "skip_ws (str @ [0]) (length str) (length pre) = length pre"
    using skip_ws_tstart [of "pr_word w @ r" pre] assms(1) w by (auto simp: tstart_def pr_word_def)
  moreover have "skip_word (str @ [0]) (length str) (length pre) = length pre + length w"
    using skip_word_good [of w pre r] assms(1,2) by (auto simp: pr_word_def good_word_def)
  moreover have "skip_ws (str @ [0]) (length str) (length pre + length w) = length pre + length (pr_word w)"
    using skip_ws_space [OF assms(3), of "pre @ w"] assms(1) by (simp add: pr_word_def)
  moreover have "(str @ [0]) ! length pre = c" using assms(1) w by (simp add: nth_append pr_word_def)
  moreover have "length pre < length (str @ [0])" using assms(1) by simp
  ultimately show ?thesis using w by (auto simp: gettoken_def Let_def symbols_def)
qed

lemma gettoken_end: "str = pre \<Longrightarrow> gettoken (str @ [0]) (length str) (length pre) = Some (0, length pre, length pre, length pre)"
  using skip_ws_tstart [of "[]" pre] by (simp add: gettoken_def Let_def tstart_def)

lemma peek_tstart:
  assumes "str = pre @ r" "tstart r"
  shows "peek (str @ [0]) (length str) (length pre) toks = Some (r \<noteq> [] \<and> hd r \<noteq> 0 \<and> hd r \<in> set toks, length pre)"
  using skip_ws_tstart [OF assms(2), of pre] assms(1) by (cases r) (auto simp: peek_def nth_append)

subsection \<open>Parts of a command\<close>

definition pr_words :: "byte list list \<Rightarrow> byte list" where
  "pr_words ws = concat (map pr_word ws)"

definition pr_redirs :: "(byte list \<times> bool) list \<Rightarrow> byte list" where
  "pr_redirs rs = concat (map pr_redir rs)"

definition read_redirs :: "byte list \<Rightarrow> redir list \<Rightarrow> (byte list \<times> bool) list" where
  "read_redirs str qs = map (\<lambda>(w, m, fd). (slice str w, fd = 0)) qs"

definition follows :: "byte list \<Rightarrow> byte set \<Rightarrow> bool" where
  "follows r C \<longleftrightarrow> r = [] \<or> hd r \<in> C"

lemma pr_simps [simp]: "pr_words [] = []" "pr_words (w # ws) = pr_word w @ pr_words ws"
    "pr_redirs [] = []" "pr_redirs (x # rs) = pr_redir x @ pr_redirs rs" "pr_redirs (rs @ rs') = pr_redirs rs @ pr_redirs rs'"
    "read_redirs str [] = []" "read_redirs str (qs @ qs') = read_redirs str qs @ read_redirs str qs'"
  by (simp_all add: pr_words_def pr_redirs_def read_redirs_def)

lemma tstart_word: "good_word w \<Longrightarrow> tstart (pr_word w @ r)"
  by (cases w) (auto simp: tstart_def pr_word_def good_word_def)

lemma tstart_sym: "c \<in> set symbols \<Longrightarrow> tstart (c # r)"
  by (auto simp: tstart_def)

lemma tstart_redirs: "tstart r \<Longrightarrow> tstart (pr_redirs rs @ r)"
  by (cases rs) (auto simp: pr_redir_def tstart_def)

lemma tstart_words: "list_all good_word ws \<Longrightarrow> tstart r \<Longrightarrow> tstart (pr_words ws @ r)"
  by (cases ws) (auto simp: tstart_word)

lemma follows_tstart: "follows r C \<Longrightarrow> C \<subseteq> set symbols \<Longrightarrow> tstart r"
  by (auto simp: follows_def tstart_def)

lemma slice_word: "slice (pre @ w @ 32 # r) (length pre, length pre + length w) = w"
  by (simp add: slice_def nth_append)

lemma parseredirs_text:
  assumes "str = pre @ pr_redirs rs @ r" "\<forall>x \<in> set rs. good_word (fst x)" "tstart r" "r = [] \<or> hd r \<notin> {60, 62}"
  shows "\<exists>qs. parseredirs (str @ [0]) (length str) (length pre) = Inr (qs, length pre + length (pr_redirs rs))
    \<and> read_redirs str qs = rs \<and> (\<forall>(w, m, fd) \<in> set qs. fd \<le> 1)"
  using assms
proof (induction rs arbitrary: pre)
  case Nil
  have "peek (str @ [0]) (length str) (length pre) [60, 62] = Some (False, length pre)"
    using peek_tstart [of str pre r] Nil by auto
  then show ?case by (subst parseredirs.simps) simp
next
  case (Cons x rs)
  obtain f inp where x: "x = (f, inp)" by (cases x)
  let ?c = "if inp then 60 else 62 :: byte" and ?r = "pr_redirs rs @ r"
  have t: "tstart ?r" using Cons.prems(3) by (rule tstart_redirs)
  have s1: "str = pre @ ?c # 32 # pr_word f @ ?r" using Cons.prems(1) x by (simp add: pr_redir_def)
  then have s2: "str = (pre @ [?c, 32]) @ pr_word f @ ?r" by simp
  have s3: "str = (pre @ [?c, 32] @ pr_word f) @ ?r" using s1 by simp
  have gf: "good_word f" using Cons.prems(2) x by simp
  have pk: "peek (str @ [0]) (length str) (length pre) [60, 62] = Some (True, length pre)"
    using peek_tstart [OF s1 tstart_sym] by auto
  have g1: "gettoken (str @ [0]) (length str) (length pre) = Some (?c, length pre, Suc (length pre), length pre + 2)"
    using gettoken_symbol [OF s1 _ tstart_word [OF gf]] by auto
  have g2: "gettoken (str @ [0]) (length str) (length pre + 2)
      = Some (97, length pre + 2, length pre + 2 + length f, length pre + 2 + length (pr_word f))"
    using gettoken_word [OF s2 gf t] by simp
  obtain qs where qs: "parseredirs (str @ [0]) (length str) (length pre + 2 + length (pr_word f))
      = Inr (qs, length pre + 2 + length (pr_word f) + length (pr_redirs rs))" "read_redirs str qs = rs"
      "\<forall>(w, m, fd) \<in> set qs. fd \<le> 1"
    using Cons.IH [OF s3] Cons.prems by auto
  have "slice str (length pre + 2, length pre + 2 + length f) = f"
    using slice_word [of "pre @ [?c, 32]" f ?r] s2 by (simp add: pr_word_def)
  moreover have "length pre + 2 + length (pr_word f) \<le> length str" using s3 by simp
  ultimately show ?case using pk g1 g2 qs x
    by (subst parseredirs.simps) (auto simp: pr_redir_def read_redirs_def)
qed

abbreviation after_exec :: "byte set" where "after_exec \<equiv> {124, 41, 38, 59}"

lemma parseargs_stop:
  assumes "str = pre @ r" "follows r after_exec"
  shows "parseargs (str @ [0]) (length str) argc (length pre) = Inr (([], []), length pre)"
proof -
  have tr: "tstart r" using assms(2) follows_tstart [of r after_exec] by auto
  note pk = peek_tstart [OF assms(1) tr, of "[124, 41, 38, 59]"]
  show ?thesis
  proof (cases "r = []")
    case True
    then show ?thesis using pk gettoken_end [of str pre] assms(1) by (subst parseargs.simps) simp
  next
    case False
    then show ?thesis using pk assms(2) by (subst parseargs.simps) (auto simp: follows_def)
  qed
qed

lemma parseargs_text:
  assumes "str = pre @ pr_words ws @ pr_redirs rs @ r" "list_all good_word ws" "argc + length ws < MAXARGS"
    "\<forall>x \<in> set rs. good_word (fst x)" "follows r after_exec" "ws = [] \<longrightarrow> rs = []"
  shows "\<exists>as qs. parseargs (str @ [0]) (length str) argc (length pre)
      = Inr ((as, qs), length pre + length (pr_words ws @ pr_redirs rs))
    \<and> map (slice str) as = ws \<and> read_redirs str qs = rs \<and> (\<forall>(w, m, fd) \<in> set qs. fd \<le> 1)"
  using assms
proof (induction ws arbitrary: pre argc)
  case Nil
  then show ?case using parseargs_stop [of str pre r argc] by simp
next
  case (Cons w ws)
  have gw: "good_word w" and gws: "list_all good_word ws" using Cons.prems(2) by simp_all
  have tr: "tstart r" using Cons.prems(5) follows_tstart [of r after_exec] by auto
  let ?r = "pr_words ws @ pr_redirs rs @ r"
  have t: "tstart ?r" using tstart_words [OF gws tstart_redirs [OF tr]] by simp
  have s: "str = pre @ pr_word w @ ?r" using Cons.prems(1) by simp
  have s3: "str = (pre @ pr_word w) @ ?r" using s by simp
  obtain c w' where w: "w = c # w'" "c \<noteq> 0" "c \<notin> set symbols" using gw by (cases w) (auto simp: good_word_def)
  have pk: "peek (str @ [0]) (length str) (length pre) [124, 41, 38, 59] = Some (False, length pre)"
    using peek_tstart [OF s tstart_word [OF gw]] w by (simp add: pr_word_def)
  note g = gettoken_word [OF s gw t]
  have sl: "slice str (length pre, length pre + length w) = w"
    using slice_word [of pre w ?r] s by (simp add: pr_word_def)
  have le: "length (pre @ pr_word w) \<le> length str" "0 < length (pr_word w)" using s3 by (simp_all add: pr_word_def)
  show ?case
  proof (cases "ws = []")
    case True
    then have s4: "str = (pre @ pr_word w) @ pr_redirs rs @ r" using s3 by simp
    have "r = [] \<or> hd r \<notin> {60, 62}" using Cons.prems(5) by (auto simp: follows_def)
    from parseredirs_text [OF s4 Cons.prems(4) tr this] obtain qs where
      qs: "parseredirs (str @ [0]) (length str) (length (pre @ pr_word w)) = Inr (qs, length (pre @ pr_word w) + length (pr_redirs rs))"
        "read_redirs str qs = rs" "\<forall>(w, m, fd) \<in> set qs. fd \<le> 1" by blast
    have s5: "str = (pre @ pr_word w @ pr_redirs rs) @ r" using s4 by simp
    note rec = parseargs_stop [OF s5 Cons.prems(5), of "Suc argc"]
    have "length (pre @ pr_word w @ pr_redirs rs) \<le> length str" using s5 by simp
    then show ?thesis using pk g qs rec sl le True Cons.prems(3)
      by (subst parseargs.simps) (auto simp: add.assoc)
  next
    case False
    then obtain v vs where v: "ws = v # vs" "good_word v" using gws by (cases ws) auto
    have s4: "str = (pre @ pr_word w) @ pr_redirs [] @ ?r" using s3 by simp
    have "hd ?r \<notin> {60, 62}" using v by (cases v) (auto simp: good_word_def pr_word_def)
    with parseredirs_text [OF s4 _ t] have
      pr: "parseredirs (str @ [0]) (length str) (length (pre @ pr_word w)) = Inr ([], length (pre @ pr_word w))"
      by (auto simp: read_redirs_def)
    obtain as qs where rec: "parseargs (str @ [0]) (length str) (Suc argc) (length (pre @ pr_word w))
        = Inr ((as, qs), length (pre @ pr_word w) + length (pr_words ws @ pr_redirs rs))"
        "map (slice str) as = ws" "read_redirs str qs = rs" "\<forall>(w, m, fd) \<in> set qs. fd \<le> 1"
      using Cons.IH [OF s3, of "Suc argc"] Cons.prems(3-5) gws False by auto
    show ?thesis using pk g pr rec sl le Cons.prems(3)
      by (subst parseargs.simps) (auto simp: add.assoc)
  qed
qed

subsection \<open>The levels of the grammar\<close>

text \<open>
  That a text is parsed as a command at each level of the grammar, wherever it stands in the line,
  as long as a suitable symbol or the end follows. At the level of \<open>parseexec\<close> redirections
  may follow; at the level of \<open>&\<close> the text is read by \<open>parsepipe\<close> and some rounds of
  the loop of \<open>parseline\<close>.
\<close>

abbreviation after_pipe :: "byte set" where "after_pipe \<equiv> {41, 38, 59}"
abbreviation after_line :: "byte set" where "after_line \<equiv> {41}"

definition redir_all :: "ast \<Rightarrow> (byte list \<times> bool) list \<Rightarrow> ast" where
  "redir_all a rs = foldl (\<lambda>a (f, inp). ARedir a f inp) a rs"

definition reads_as :: "byte list \<Rightarrow> cmd \<Rightarrow> ast \<Rightarrow> bool" where
  "reads_as str d a \<longleftrightarrow> abs_cmd (slice str) d = a \<and> redirs_ok d"

definition pE :: "byte list \<Rightarrow> ast \<Rightarrow> bool" where
  "pE t a \<longleftrightarrow> (\<forall>str pre rs r. str = pre @ t @ pr_redirs rs @ r \<longrightarrow> (\<forall>x \<in> set rs. good_word (fst x)) \<longrightarrow> follows r after_exec \<longrightarrow>
     (\<exists>d. parseexec (str @ [0]) (length str) (length pre) = Inr (d, length (pre @ t @ pr_redirs rs)) \<and> reads_as str d (redir_all a rs)))"

definition pP :: "byte list \<Rightarrow> ast \<Rightarrow> bool" where
  "pP t a \<longleftrightarrow> (\<forall>str pre r. str = pre @ t @ r \<longrightarrow> follows r after_pipe \<longrightarrow>
     (\<exists>d. parsepipe (str @ [0]) (length str) (length pre) = Inr (d, length (pre @ t)) \<and> reads_as str d a))"

definition pB :: "byte list \<Rightarrow> ast \<Rightarrow> bool" where
  "pB t a \<longleftrightarrow> (\<forall>str pre r. str = pre @ t @ r \<longrightarrow> follows r after_pipe \<longrightarrow>
     (\<exists>d0 s0 d j. parsepipe (str @ [0]) (length str) (length pre) = Inr (d0, s0) \<and> j \<le> length t \<and> reads_as str d a
       \<and> (\<forall>n. parseback (n + j) (str @ [0]) (length str) d0 s0 = parseback n (str @ [0]) (length str) d (length (pre @ t)))))"

definition pL :: "byte list \<Rightarrow> ast \<Rightarrow> bool" where
  "pL t a \<longleftrightarrow> (\<forall>str pre r. str = pre @ t @ r \<longrightarrow> follows r after_line \<longrightarrow>
     (\<exists>d. parseline (str @ [0]) (length str) (length pre) = Inr (d, length (pre @ t)) \<and> reads_as str d a))"

lemma abs_wrap_redirs:
  "abs_cmd (slice str) (wrap_redirs c qs) = redir_all (abs_cmd (slice str) c) (read_redirs str qs)"
  by (induction c qs rule: wrap_redirs.induct) (simp_all add: redir_all_def read_redirs_def)

lemma redirs_ok_wrap: "redirs_ok (wrap_redirs c qs) \<longleftrightarrow> redirs_ok c \<and> (\<forall>(w, m, fd) \<in> set qs. fd \<le> 1)"
  by (induction c qs rule: wrap_redirs.induct) auto

lemma redir_all_append: "redir_all (redir_all a rs) rs' = redir_all a (rs @ rs')"
  by (simp add: redir_all_def)

lemma follows_mono: "follows r C \<Longrightarrow> C \<subseteq> D \<Longrightarrow> follows r D"
  by (auto simp: follows_def)

lemma pE_pP: "pE t a \<Longrightarrow> pP t a"
  unfolding pP_def
proof (intro allI impI)
  fix str pre r
  assume pE: "pE t a" and str: "str = pre @ t @ r" and r: "follows r after_pipe"
  have "str = pre @ t @ pr_redirs [] @ r" "follows r after_exec" using str r by (auto simp: follows_def)
  then obtain d where d: "parseexec (str @ [0]) (length str) (length pre) = Inr (d, length (pre @ t))" "reads_as str d a"
    using pE [unfolded pE_def, rule_format, of str pre "[]" r] by (auto simp: redir_all_def)
  have "str = (pre @ t) @ r" "tstart r" using str r follows_tstart [of r after_pipe] by auto
  then have "peek (str @ [0]) (length str) (length (pre @ t)) [124] = Some (False, length (pre @ t))"
    using peek_tstart [of str "pre @ t" r "[124]"] r by (auto simp: follows_def)
  then show "\<exists>d. parsepipe (str @ [0]) (length str) (length pre) = Inr (d, length (pre @ t)) \<and> reads_as str d a"
    using d by (subst parsepipe.simps) simp
qed

lemma pP_pB: "pP t a \<Longrightarrow> pB t a"
  unfolding pB_def
proof (intro allI impI)
  fix str pre r
  assume "pP t a" "str = pre @ t @ r" "follows r after_pipe"
  then obtain d where "parsepipe (str @ [0]) (length str) (length pre) = Inr (d, length (pre @ t))" "reads_as str d a"
    unfolding pP_def by blast
  then show "\<exists>d0 s0 d j. parsepipe (str @ [0]) (length str) (length pre) = Inr (d0, s0) \<and> j \<le> length t \<and> reads_as str d a
       \<and> (\<forall>n. parseback (n + j) (str @ [0]) (length str) d0 s0 = parseback n (str @ [0]) (length str) d (length (pre @ t)))"
    by (intro exI [of _ d] exI [of _ "length (pre @ t)"] exI [of _ d] exI [of _ 0]) simp
qed

text \<open>What \<open>parseline\<close> has read when it looks for \<open>;\<close>.\<close>

lemma pB_parseback:
  assumes "pB t a" "str = pre @ t @ r" "follows r {41, 59}"
  shows "\<exists>d0 s0 d. parsepipe (str @ [0]) (length str) (length pre) = Inr (d0, s0)
    \<and> parseback (Suc (length str)) (str @ [0]) (length str) d0 s0 = Inr (d, length (pre @ t)) \<and> reads_as str d a"
proof -
  have "follows r after_pipe" using assms(3) by (auto simp: follows_def)
  then obtain d0 s0 d j where d: "parsepipe (str @ [0]) (length str) (length pre) = Inr (d0, s0)" "j \<le> length t" "reads_as str d a"
      "\<And>n. parseback (n + j) (str @ [0]) (length str) d0 s0 = parseback n (str @ [0]) (length str) d (length (pre @ t))"
    using assms(1,2) unfolding pB_def by blast
  have "str = (pre @ t) @ r" "tstart r" using assms(2,3) follows_tstart [of r "{41, 59}"] by auto
  then have pk: "peek (str @ [0]) (length str) (length (pre @ t)) [38] = Some (False, length (pre @ t))"
    using peek_tstart [of str "pre @ t" r "[38]"] assms(3) by (auto simp: follows_def)
  have "j \<le> length str" using d(2) assms(2) by simp
  then have "Suc (length str) = Suc (length str - j) + j" by simp
  then have "parseback (Suc (length str)) (str @ [0]) (length str) d0 s0
      = parseback (Suc (length str - j)) (str @ [0]) (length str) d (length (pre @ t))" using d(4) by metis
  then show ?thesis using d(1,3) pk by simp
qed

lemma pB_pL: "pB t a \<Longrightarrow> pL t a"
  unfolding pL_def
proof (intro allI impI)
  fix str pre r
  assume pB: "pB t a" and str: "str = pre @ t @ r" and r: "follows r after_line"
  have "follows r {41, 59}" using r by (auto simp: follows_def)
  from pB_parseback [OF pB str this] obtain d0 s0 d where
    d: "parsepipe (str @ [0]) (length str) (length pre) = Inr (d0, s0)"
      "parseback (Suc (length str)) (str @ [0]) (length str) d0 s0 = Inr (d, length (pre @ t))" "reads_as str d a"
    by blast
  have "str = (pre @ t) @ r" "tstart r" using str r follows_tstart [of r after_line] by auto
  then have "peek (str @ [0]) (length str) (length (pre @ t)) [59] = Some (False, length (pre @ t))"
    using peek_tstart [of str "pre @ t" r "[59]"] r by (auto simp: follows_def)
  then show "\<exists>d. parseline (str @ [0]) (length str) (length pre) = Inr (d, length (pre @ t)) \<and> reads_as str d a"
    using d by (subst parseline.simps) simp
qed

lemma pL_pE:
  assumes "pL t a" "\<And>r. tstart r \<Longrightarrow> tstart (t @ r)"
  shows "pE ([40, 32] @ t @ [41, 32]) a"
  unfolding pE_def
proof (intro allI impI)
  fix str pre rs r
  assume str: "str = pre @ ([40, 32] @ t @ [41, 32]) @ pr_redirs rs @ r" and rs: "\<forall>x \<in> set rs. good_word (fst x)"
    and r: "follows r after_exec"
  let ?r = "pr_redirs rs @ r"
  have tr: "tstart r" using r follows_tstart [of r after_exec] by auto
  have s1: "str = pre @ 40 # 32 # t @ 41 # 32 # ?r" using str by simp
  have t1: "tstart (t @ 41 # 32 # ?r)" by (rule assms(2)) (simp add: tstart_def)
  have pk: "peek (str @ [0]) (length str) (length pre) [40] = Some (True, length pre)"
    using peek_tstart [OF s1 tstart_sym] by simp
  have g1: "gettoken (str @ [0]) (length str) (length pre) = Some (40, length pre, Suc (length pre), length pre + 2)"
    using gettoken_symbol [OF s1 _ t1] by simp
  have s2: "str = (pre @ [40, 32]) @ t @ 41 # 32 # ?r" using str by simp
  then obtain d where d: "parseline (str @ [0]) (length str) (length (pre @ [40, 32])) = Inr (d, length ((pre @ [40, 32]) @ t))"
      "reads_as str d a"
    using assms(1)[unfolded pL_def, rule_format, OF s2] by (auto simp: follows_def)
  let ?q = "pre @ [40, 32] @ t"
  have s3: "str = ?q @ 41 # 32 # ?r" using str by simp
  have pk2: "peek (str @ [0]) (length str) (length ?q) [41] = Some (True, length ?q)"
    using peek_tstart [OF s3 tstart_sym] by simp
  have g2: "gettoken (str @ [0]) (length str) (length ?q) = Some (41, length ?q, Suc (length ?q), length ?q + 2)"
    using gettoken_symbol [OF s3 _ tstart_redirs [OF tr]] by simp
  have s4: "str = (?q @ [41, 32]) @ pr_redirs rs @ r" using str by simp
  have "r = [] \<or> hd r \<notin> {60, 62}" using r by (auto simp: follows_def)
  from parseredirs_text [OF s4 rs tr this] obtain qs where
    qs: "parseredirs (str @ [0]) (length str) (length (?q @ [41, 32])) = Inr (qs, length (?q @ [41, 32]) + length (pr_redirs rs))"
      "read_redirs str qs = rs" "\<forall>(w, m, fd) \<in> set qs. fd \<le> 1" by blast
  have "reads_as str (wrap_redirs d qs) (redir_all a rs)"
    using d(2) qs(2,3) by (auto simp: reads_as_def abs_wrap_redirs redirs_ok_wrap)
  moreover have "parseblock (str @ [0]) (length str) (length pre) = Inr (wrap_redirs d qs, length (?q @ [41, 32]) + length (pr_redirs rs))"
    using pk g1 d(1) pk2 g2 qs(1) s1 by (subst parseblock.simps) (simp add: add.assoc)
  then have "parseexec (str @ [0]) (length str) (length pre) = Inr (wrap_redirs d qs, length (?q @ [41, 32]) + length (pr_redirs rs))"
    using pk by (subst parseexec.simps) simp
  ultimately show "\<exists>d. parseexec (str @ [0]) (length str) (length pre)
      = Inr (d, length (pre @ ([40, 32] @ t @ [41, 32]) @ pr_redirs rs)) \<and> reads_as str d (redir_all a rs)"
    by (intro exI [of _ "wrap_redirs d qs"]) (simp add: add.assoc)
qed

lemma pE_exec:
  assumes "list_all good_word ws" "length ws < MAXARGS"
  shows "pE (pr_words ws) (AExec ws)"
  unfolding pE_def
proof (intro allI impI)
  fix str pre rs r
  assume str: "str = pre @ pr_words ws @ pr_redirs rs @ r" and rs: "\<forall>x \<in> set rs. good_word (fst x)"
    and r: "follows r after_exec"
  have tr: "tstart r" using r follows_tstart [of r after_exec] by auto
  have r': "r = [] \<or> hd r \<notin> {60, 62}" using r by (auto simp: follows_def)
  let ?t = "pr_words ws @ pr_redirs rs @ r"
  have tt: "tstart ?t" using tstart_words [OF assms(1) tstart_redirs [OF tr]] by simp
  have first: "?t = [] \<or> hd ?t \<noteq> 40"
  proof (cases ws)
    case Nil
    then show ?thesis using r by (cases rs) (auto simp: follows_def pr_redir_def)
  next
    case (Cons w ws')
    then show ?thesis using assms(1) by (cases w) (auto simp: good_word_def pr_word_def)
  qed
  have pk: "peek (str @ [0]) (length str) (length pre) [40] = Some (False, length pre)"
    using peek_tstart [OF str tt] first by auto
  show "\<exists>d. parseexec (str @ [0]) (length str) (length pre)
      = Inr (d, length (pre @ pr_words ws @ pr_redirs rs)) \<and> reads_as str d (redir_all (AExec ws) rs)"
  proof (cases "ws = []")
    case True
    then have s: "str = pre @ pr_redirs rs @ r" using str by simp
    from parseredirs_text [OF s rs tr r'] obtain qs where
      qs: "parseredirs (str @ [0]) (length str) (length pre) = Inr (qs, length pre + length (pr_redirs rs))"
        "read_redirs str qs = rs" "\<forall>(w, m, fd) \<in> set qs. fd \<le> 1" by blast
    have s2: "str = (pre @ pr_redirs rs) @ r" using s by simp
    have "reads_as str (wrap_redirs (EXEC []) (qs @ [])) (redir_all (AExec ws) rs)"
      using qs(2,3) True by (auto simp: reads_as_def abs_wrap_redirs redirs_ok_wrap)
    then show ?thesis using pk qs(1) parseargs_stop [OF s2 r, of 0] True by (subst parseexec.simps) auto
  next
    case False
    then obtain w ws' where w: "ws = w # ws'" "good_word w" using assms(1) by (cases ws) auto
    have "hd ?t \<notin> {60, 62}" using w by (cases w) (auto simp: good_word_def pr_word_def)
    with parseredirs_text [of str pre "[]" ?t] str tt have
      pr: "parseredirs (str @ [0]) (length str) (length pre) = Inr ([], length pre)" by (auto simp: read_redirs_def)
    obtain as qs where as: "parseargs (str @ [0]) (length str) 0 (length pre)
        = Inr ((as, qs), length pre + length (pr_words ws @ pr_redirs rs))"
        "map (slice str) as = ws" "read_redirs str qs = rs" "\<forall>(w, m, fd) \<in> set qs. fd \<le> 1"
      using parseargs_text [OF str assms(1) _ rs r, of 0] assms(2) False by auto
    have "reads_as str (wrap_redirs (EXEC as) qs) (redir_all (AExec ws) rs)"
      using as by (auto simp: reads_as_def abs_wrap_redirs redirs_ok_wrap)
    then show ?thesis using pk pr as(1) by (subst parseexec.simps) auto
  qed
qed

lemma pE_redir:
  assumes "pE t a" "good_word f"
  shows "pE (t @ pr_redir (f, inp)) (ARedir a f inp)"
  unfolding pE_def
proof (intro allI impI)
  fix str pre rs r
  assume "str = pre @ (t @ pr_redir (f, inp)) @ pr_redirs rs @ r" "\<forall>x \<in> set rs. good_word (fst x)" "follows r after_exec"
  then show "\<exists>d. parseexec (str @ [0]) (length str) (length pre)
      = Inr (d, length (pre @ (t @ pr_redir (f, inp)) @ pr_redirs rs)) \<and> reads_as str d (redir_all (ARedir a f inp) rs)"
    using assms(1)[unfolded pE_def, THEN spec, THEN spec, THEN spec, THEN spec, of str pre "(f, inp) # rs" r] assms(2)
    by (simp add: redir_all_def)
qed

lemma pP_pipe:
  assumes "pE t1 l" "pP tr a" "\<And>r. tstart r \<Longrightarrow> tstart (tr @ r)"
  shows "pP (t1 @ [124, 32] @ tr) (APipe l a)"
  unfolding pP_def
proof (intro allI impI)
  fix str pre r
  assume str: "str = pre @ (t1 @ [124, 32] @ tr) @ r" and r: "follows r after_pipe"
  have tr: "tstart (tr @ r)" using assms(3) r follows_tstart [of r after_pipe] by auto
  have s0: "str = pre @ t1 @ pr_redirs [] @ 124 # 32 # tr @ r" using str by simp
  obtain d where d: "parseexec (str @ [0]) (length str) (length pre) = Inr (d, length (pre @ t1))" "reads_as str d l"
    using assms(1)[unfolded pE_def, rule_format, OF s0] by (auto simp: follows_def redir_all_def)
  have s1: "str = (pre @ t1) @ 124 # 32 # tr @ r" using str by simp
  have pk: "peek (str @ [0]) (length str) (length (pre @ t1)) [124] = Some (True, length (pre @ t1))"
    using peek_tstart [OF s1 tstart_sym] by simp
  note g = gettoken_symbol [OF s1 _ tr, simplified]
  have s2: "str = (pre @ t1 @ [124, 32]) @ tr @ r" using str by simp
  obtain e where e: "parsepipe (str @ [0]) (length str) (length (pre @ t1 @ [124, 32])) = Inr (e, length ((pre @ t1 @ [124, 32]) @ tr))"
      "reads_as str e a"
    using assms(2)[unfolded pP_def, rule_format, OF s2 r] by blast
  have "length (pre @ t1 @ [124, 32]) \<le> length str" using s2 by simp
  then have "parsepipe (str @ [0]) (length str) (length pre) = Inr (PIPE d e, length (pre @ t1 @ [124, 32] @ tr))"
    using d(1) pk g e(1) by (subst parsepipe.simps) (simp add: add.assoc)
  then show "\<exists>d. parsepipe (str @ [0]) (length str) (length pre) = Inr (d, length (pre @ t1 @ [124, 32] @ tr))
      \<and> reads_as str d (APipe l a)"
    using d(2) e(2) by (auto simp: reads_as_def)
qed

lemma pB_back:
  assumes "pB t a"
  shows "pB (t @ [38, 32]) (ABack a)"
  unfolding pB_def
proof (intro allI impI)
  fix str pre r
  assume str: "str = pre @ (t @ [38, 32]) @ r" and r: "follows r after_pipe"
  have s0: "str = pre @ t @ 38 # 32 # r" using str by simp
  have tr: "tstart r" using r follows_tstart [of r after_pipe] by auto
  obtain d0 s0' d j where d: "parsepipe (str @ [0]) (length str) (length pre) = Inr (d0, s0')" "j \<le> length t" "reads_as str d a"
      "\<And>n. parseback (n + j) (str @ [0]) (length str) d0 s0' = parseback n (str @ [0]) (length str) d (length (pre @ t))"
    using assms [unfolded pB_def, rule_format, OF s0] by (auto simp: follows_def)
  have s1: "str = (pre @ t) @ 38 # 32 # r" using str by simp
  have pk: "peek (str @ [0]) (length str) (length (pre @ t)) [38] = Some (True, length (pre @ t))"
    using peek_tstart [OF s1 tstart_sym] by simp
  note g = gettoken_symbol [OF s1 _ tr, simplified]
  have "parseback (Suc n) (str @ [0]) (length str) d (length (pre @ t))
      = parseback n (str @ [0]) (length str) (BACK d) (length (pre @ t @ [38, 32]))" for n
    using pk g by simp
  then have "parseback (n + Suc j) (str @ [0]) (length str) d0 s0'
      = parseback n (str @ [0]) (length str) (BACK d) (length (pre @ t @ [38, 32]))" for n
    using d(4) [of "Suc n"] by simp
  then show "\<exists>d0 s0 d j. parsepipe (str @ [0]) (length str) (length pre) = Inr (d0, s0) \<and> j \<le> length (t @ [38, 32])
      \<and> reads_as str d (ABack a) \<and> (\<forall>n. parseback (n + j) (str @ [0]) (length str) d0 s0
        = parseback n (str @ [0]) (length str) d (length (pre @ t @ [38, 32])))"
    using d(1-3) by (intro exI [of _ d0] exI [of _ s0'] exI [of _ "BACK d"] exI [of _ "Suc j"]) (auto simp: reads_as_def)
qed

lemma pL_list:
  assumes "pB t1 l" "pL tr a" "\<And>r. tstart r \<Longrightarrow> tstart (tr @ r)"
  shows "pL (t1 @ [59, 32] @ tr) (AList l a)"
  unfolding pL_def
proof (intro allI impI)
  fix str pre r
  assume str: "str = pre @ (t1 @ [59, 32] @ tr) @ r" and r: "follows r after_line"
  have tr: "tstart (tr @ r)" using assms(3) r follows_tstart [of r after_line] by auto
  have s0: "str = pre @ t1 @ 59 # 32 # tr @ r" using str by simp
  from pB_parseback [OF assms(1) s0] obtain d0 s0' d where
    d: "parsepipe (str @ [0]) (length str) (length pre) = Inr (d0, s0')"
      "parseback (Suc (length str)) (str @ [0]) (length str) d0 s0' = Inr (d, length (pre @ t1))" "reads_as str d l"
    by (auto simp: follows_def)
  have s1: "str = (pre @ t1) @ 59 # 32 # tr @ r" using str by simp
  have pk: "peek (str @ [0]) (length str) (length (pre @ t1)) [59] = Some (True, length (pre @ t1))"
    using peek_tstart [OF s1 tstart_sym] by simp
  note g = gettoken_symbol [OF s1 _ tr, simplified]
  have s2: "str = (pre @ t1 @ [59, 32]) @ tr @ r" using str by simp
  obtain e where e: "parseline (str @ [0]) (length str) (length (pre @ t1 @ [59, 32])) = Inr (e, length ((pre @ t1 @ [59, 32]) @ tr))"
      "reads_as str e a"
    using assms(2)[unfolded pL_def, rule_format, OF s2 r] by blast
  have "length (pre @ t1 @ [59, 32]) \<le> length str" using s2 by simp
  then have "parseline (str @ [0]) (length str) (length pre) = Inr (LIST d e, length (pre @ t1 @ [59, 32] @ tr))"
    using d(1,2) pk g e(1) by (subst parseline.simps) (simp add: add.assoc)
  then show "\<exists>d. parseline (str @ [0]) (length str) (length pre) = Inr (d, length (pre @ t1 @ [59, 32] @ tr))
      \<and> reads_as str d (AList l a)"
    using d(3) e(2) by (auto simp: reads_as_def)
qed

lemma tstart_pr: "good c \<Longrightarrow> tstart r \<Longrightarrow> tstart (pr p c @ r)"
proof (induction c arbitrary: p r)
  case (AExec ws)
  then show ?case using tstart_words [of ws r] by (simp add: pr_words_def)
next
  case (ARedir c f inp)
  have "tstart (pr_redir (f, inp) @ r)" by (simp add: tstart_def pr_redir_def)
  then show ?case using ARedir by simp
next
  case (APipe l c)
  have "tstart (124 # 32 # pr 2 c @ x)" for x by (simp add: tstart_def)
  then show ?case using APipe by (auto simp: paren_def tstart_def [of "40 # _"])
next
  case (AList l c)
  have "tstart (59 # 32 # pr 0 c @ x)" for x by (simp add: tstart_def)
  then show ?case using AList by (auto simp: paren_def tstart_def [of "40 # _"])
next
  case (ABack c)
  have "tstart (38 # 32 # x)" for x by (simp add: tstart_def)
  then show ?case using ABack by (auto simp: paren_def tstart_def [of "40 # _"])
qed

lemma parser_levels: "good c \<Longrightarrow> pE (pr 3 c) c \<and> pP (pr 2 c) c \<and> pB (pr 1 c) c \<and> pL (pr 0 c) c"
proof (induction c)
  case (AExec ws)
  then have "pE (pr_words ws) (AExec ws)" by (intro pE_exec) simp_all
  then show ?case using pE_pP pP_pB pB_pL by (simp add: pr_words_def)
next
  case (ARedir c f inp)
  then have "pE (pr 3 (ARedir c f inp)) (ARedir c f inp)" using pE_redir by simp
  then show ?case using pE_pP pP_pB pB_pL by simp
next
  case (APipe l r)
  then have "pP (pr 2 (APipe l r)) (APipe l r)" using pP_pipe [of "pr 3 l" l "pr 2 r" r] tstart_pr [of r] by (simp add: paren_def)
  then have "pB (pr 1 (APipe l r)) (APipe l r)" "pL (pr 0 (APipe l r)) (APipe l r)"
    using pP_pB pB_pL by (simp_all add: paren_def)
  moreover from this(2) have "pE (pr 3 (APipe l r)) (APipe l r)"
    using pL_pE [of "pr 0 (APipe l r)" "APipe l r"] tstart_pr [of "APipe l r" _ 0] APipe.prems by (simp add: paren_def)
  ultimately show ?case using pE_pP \<open>pP (pr 2 (APipe l r)) (APipe l r)\<close> by blast
next
  case (AList l r)
  then have L: "pL (pr 0 (AList l r)) (AList l r)" using pL_list [of "pr 1 l" l "pr 0 r" r] tstart_pr [of r] by (simp add: paren_def)
  then have "pE (pr 3 (AList l r)) (AList l r)"
    using pL_pE [of "pr 0 (AList l r)" "AList l r"] tstart_pr [of "AList l r" _ 0] AList.prems by (simp add: paren_def)
  with L show ?case using pE_pP pP_pB by (simp add: paren_def)
next
  case (ABack c)
  then have B: "pB (pr 1 (ABack c)) (ABack c)" using pB_back by (simp add: paren_def)
  then have L: "pL (pr 0 (ABack c)) (ABack c)" using pB_pL by (simp add: paren_def)
  then have "pE (pr 3 (ABack c)) (ABack c)"
    using pL_pE [of "pr 0 (ABack c)" "ABack c"] tstart_pr [of "ABack c" _ 0] ABack.prems by (simp add: paren_def)
  with B L show ?case using pE_pP by (simp add: paren_def)
qed

subsection \<open>The words of the terminated buffer\<close>

fun word_refs :: "cmd \<Rightarrow> word_ref list" where
  "word_refs (EXEC ws) = ws"
| "word_refs (REDIR c w m fd) = word_refs c @ [w]"
| "word_refs (PIPE l r) = word_refs l @ word_refs r"
| "word_refs (LIST l r) = word_refs l @ word_refs r"
| "word_refs (BACK c) = word_refs c"

lemma abs_cmd_cong: "(\<And>w. w \<in> set (word_refs c) \<Longrightarrow> f w = g w) \<Longrightarrow> abs_cmd f c = abs_cmd g c"
  by (induction c) auto

lemma good_word_refs: "good (abs_cmd f c) \<Longrightarrow> w \<in> set (word_refs c) \<Longrightarrow> good_word (f w)"
  by (induction c) (auto simp: list_all_iff)

definition zeroed :: "byte list \<Rightarrow> word_ref list \<Rightarrow> byte list" where
  "zeroed buf ws = fold (\<lambda>(q, eq) b. b[eq := 0]) ws buf"

lemma length_zeroed [simp]: "length (zeroed buf ws) = length buf"
  by (induction ws arbitrary: buf) (auto simp: zeroed_def)

lemma zeroed_append: "zeroed buf (ws @ vs) = zeroed (zeroed buf ws) vs"
  by (simp add: zeroed_def)

lemma nth_zeroed: "i < length buf \<Longrightarrow> zeroed buf ws ! i = (if i \<in> snd ` set ws then 0 else buf ! i)"
proof (induction ws arbitrary: buf)
  case Nil
  then show ?case by (simp add: zeroed_def)
next
  case (Cons w ws)
  then show ?case using Cons.IH [of "buf[snd w := 0]"] by (cases w) (auto simp: zeroed_def nth_list_update)
qed

lemma nulterminate_zeroed:
  "\<forall>w \<in> set (word_refs c). snd w < length buf \<Longrightarrow> nulterminate c buf = Some (zeroed buf (word_refs c))"
proof (induction c arbitrary: buf)
  case (EXEC ws)
  then show ?case by (induction ws arbitrary: buf) (auto simp: zeroed_def Prelude.st_def)
next
  case (REDIR c w m fd)
  then show ?case by (cases w) (auto simp: zeroed_append zeroed_def [of _ "[_]"] Prelude.st_def)
qed (auto simp: zeroed_append)

lemma word_at_zeroed:
  assumes "\<forall>w \<in> set (word_refs c). good_word (slice str w)" "(q, eq) \<in> set (word_refs c)"
  shows "word_at (zeroed (str @ [0]) (word_refs c)) q = slice str (q, eq)"
proof -
  let ?b = "zeroed (str @ [0]) (word_refs c)"
  have blank: "snd w < length str \<and> str ! snd w = 32" if "w \<in> set (word_refs c)" for w
    using bspec [OF assms(1) that] by (cases w) (simp add: good_word_def slice_def split: if_splits)
  have sl: "slice str (q, eq) = take (eq - q) (drop q str)" and eq: "eq < length str"
    using blank [OF assms(2)] by (auto simp: slice_def)
  have gw: "good_word (slice str (q, eq))" using assms by blast
  then have q: "q < eq" using sl by (simp add: good_word_def)
  have byte: "(str ! i \<noteq> 0 \<and> str ! i \<noteq> 32)" if i: "q \<le> i" "i < eq" for i
  proof -
    have "slice str (q, eq) ! (i - q) = str ! i" "i - q < length (slice str (q, eq))" using sl i eq by auto
    then have "str ! i \<in> set (slice str (q, eq))" by (metis nth_mem)
    then show ?thesis using gw by (auto simp: good_word_def)
  qed
  have same: "?b ! i = str ! i" if i: "q \<le> i" "i < eq" for i
    using byte [OF i] blank i eq by (auto simp: nth_zeroed nth_append)
  have stop: "?b ! eq = 0" using assms(2) eq by (force simp: nth_zeroed)
  have "take (eq - q) (drop q ?b) = take (eq - q) (drop q str)"
    by (rule nth_equalityI) (use eq q same in simp_all)
  moreover have "?b = take eq ?b @ 0 # drop (Suc eq) ?b"
    using id_take_nth_drop [of eq ?b] eq stop by simp
  then have "drop q ?b = drop q (take eq ?b @ 0 # drop (Suc eq) ?b)" by simp
  then have "drop q ?b = take (eq - q) (drop q ?b) @ 0 # drop (Suc eq) ?b"
    using eq q by (simp add: drop_take)
  ultimately have "drop q ?b = take (eq - q) (drop q str) @ 0 # drop (Suc eq) ?b" by metis
  moreover have "\<forall>x \<in> set (take (eq - q) (drop q str)). x \<noteq> 0"
    using gw sl by (auto simp: good_word_def)
  ultimately show ?thesis by (simp add: word_at_def sl takeWhile_append)
qed

lemma pr_nonzero: "good c \<Longrightarrow> 0 \<notin> set (pr p c)"
  by (induction c arbitrary: p) (auto simp: pr_word_def pr_redir_def paren_def good_word_def list_all_iff)

lemma strlen_text: "0 \<notin> set t \<Longrightarrow> strlen (t @ [0]) = Some (length t)"
  by (induction t) auto

text \<open>
  C9 Every shell command whose words are free of blanks, operator characters and terminators, and
  with fewer than \<open>MAXARGS\<close> arguments per program, is parsed back from its text: \<open>parsecmd\<close>
  accepts the line, the command it builds has the same structure, and every word pointer
  reads, in the terminated buffer, as the word written. Redirections keep their order and
  direction.
\<close>

theorem parse_roundtrip:
  assumes "good a"
  shows "\<exists>c b. parsecmd (pr 0 a @ [0]) = Inr (c, b) \<and> abs_cmd (\<lambda>(q, eq). word_at b q) c = a \<and> redirs_ok c"
proof -
  let ?t = "pr 0 a"
  have "pL ?t a" using parser_levels [OF assms] by blast
  from this [unfolded pL_def, rule_format, of ?t "[]" "[]"] obtain c where
    c: "parseline (?t @ [0]) (length ?t) 0 = Inr (c, length ?t)" "reads_as ?t c a"
    by (auto simp: follows_def)
  have end0: "peek (?t @ [0]) (length ?t) (length ?t) [] = Some (False, length ?t)"
    using peek_tstart [of ?t ?t "[]" "[]"] by (simp add: tstart_def)
  have words: "\<forall>w \<in> set (word_refs c). good_word (slice ?t w)"
    using c(2) assms good_word_refs [of "slice ?t" c] by (auto simp: reads_as_def)
  have "snd w < length (?t @ [0])" if "w \<in> set (word_refs c)" for w
    using bspec [OF words that] by (cases w) (simp add: good_word_def slice_def split: if_splits)
  then have "\<forall>w \<in> set (word_refs c). snd w < length (?t @ [0])" by blast
  note nul = nulterminate_zeroed [OF this]
  let ?b = "zeroed (?t @ [0]) (word_refs c)"
  have "parsecmd (?t @ [0]) = Inr (c, ?b)"
    using c(1) end0 nul strlen_text [OF pr_nonzero [OF assms]] by (simp add: parsecmd_def)
  moreover have "abs_cmd (\<lambda>(q, eq). word_at ?b q) c = abs_cmd (slice ?t) c"
    using word_at_zeroed [OF words] by (intro abs_cmd_cong) auto
  ultimately show ?thesis using c(2) by (auto simp: reads_as_def)
qed

theorem parse_roundtrip_witness:
  "\<exists>c b. parsecmd (pr 0 (APipe (AExec [[108, 115]]) (ARedir (AExec [[119, 99]]) [121] False)) @ [0]) = Inr (c, b)
    \<and> abs_cmd (\<lambda>(q, eq). word_at b q) c = APipe (AExec [[108, 115]]) (ARedir (AExec [[119, 99]]) [121] False)
    \<and> redirs_ok c"
  by (rule parse_roundtrip) (simp add: good_word_def)

end
