(* ===== verification/VmSpec.thy ===== *)
theory VmSpec
  imports Vm
begin

text \<open>
  What the page-table operations of \<open>vm.c\<close> do. First, all of them work on physical pages only:
  \<open>mrest\<close>, the state outside the pages and the free list, is kept. Then page tables are read as
  partial maps from virtual pages to physical pages and permissions.
\<close>

subsection \<open>Only pages change\<close>

lemma page_updates_mrest [simp]:
  "mrest (stw v x s) = mrest s" "mrest (set_page v d s) = mrest s" "mrest (stbytes v bs s) = mrest s"
  by (simp_all add: stw_def set_page_def stbytes_def)

lemma kalloc_mrest: "kept mrest s (kalloc s)"
  by (simp add: kalloc_def Let_def kept_def)

lemma kfree_mrest: "kept mrest s (kfree v s)"
  by (simp add: kfree_def Let_def kept_def)

lemma walkpgdir_mrest: "kept mrest s (walkpgdir pgdir va alloc s)"
  unfolding walkpgdir_def Let_def by (intro kept_rules kalloc_mrest; simp)

lemma mappages_loop_mrest: "kept mrest s (mappages_loop pgdir a lst pa perm s)"
proof (induction pgdir a lst pa perm arbitrary: s rule: mappages_loop.induct)
  case (1 pgdir a lst pa perm)
  show ?case by (subst mappages_loop.simps) (intro kept_rules walkpgdir_mrest 1; simp)
qed

lemma mappages_mrest: "kept mrest s (mappages pgdir va sz pa perm s)"
  unfolding mappages_def by (rule mappages_loop_mrest)

lemma setupkvm_loop_mrest: "kept mrest s (setupkvm_loop pgdir ks s)"
proof (induction pgdir ks arbitrary: s rule: setupkvm_loop.induct)
  case (2 pgdir virt phys_start phys_end perm ks)
  then show ?case unfolding setupkvm_loop.simps by (intro kept_rules mappages_mrest; simp)
qed (simp add: kept_branches)

lemma setupkvm_mrest: "kept mrest s (setupkvm s)"
  unfolding setupkvm_def by (intro kept_rules kalloc_mrest setupkvm_loop_mrest; simp)

lemma deallocuvm_loop_mrest: "kept mrest s (deallocuvm_loop pgdir oldsz a s)"
proof (induction pgdir oldsz a arbitrary: s rule: deallocuvm_loop.induct)
  case (1 pgdir oldsz a)
  show ?case by (subst deallocuvm_loop.simps, unfold Let_def) (intro kept_rules walkpgdir_mrest kfree_mrest 1; simp)
qed

lemma deallocuvm_mrest: "kept mrest s (deallocuvm pgdir oldsz newsz s)"
  unfolding deallocuvm_def by (intro kept_rules deallocuvm_loop_mrest)

lemma allocuvm_loop_mrest: "kept mrest s (allocuvm_loop pgdir oldsz newsz a s)"
proof (induction pgdir oldsz newsz a arbitrary: s rule: allocuvm_loop.induct)
  case (1 pgdir oldsz newsz a)
  show ?case
    by (subst allocuvm_loop.simps) (intro kept_rules kalloc_mrest deallocuvm_mrest mappages_mrest 1; simp)
qed

lemma allocuvm_mrest: "kept mrest s (allocuvm pgdir oldsz newsz s)"
  unfolding allocuvm_def by (intro kept_rules allocuvm_loop_mrest)

lemma freevm_loop_mrest: "kept mrest s (freevm_loop pgdir is s)"
proof (induction "is" arbitrary: s)
  case (Cons i "is")
  then show ?case unfolding freevm_loop.simps by (intro kept_rules kfree_mrest; simp)
qed (simp add: kept_branches)

lemma freevm_mrest: "kept mrest s (freevm pgdir s)"
  unfolding freevm_def by (intro kept_rules deallocuvm_mrest freevm_loop_mrest kfree_mrest)

lemma copyuvm_loop_mrest: "kept mrest s (copyuvm_loop pgdir d sz i s)"
proof (induction pgdir d sz i arbitrary: s rule: copyuvm_loop.induct)
  case (1 pgdir d sz i)
  show ?case
    by (subst copyuvm_loop.simps) (intro kept_rules kalloc_mrest walkpgdir_mrest freevm_mrest mappages_mrest 1; simp)
qed

lemma copyuvm_mrest: "kept mrest s (copyuvm pgdir sz s)"
  unfolding copyuvm_def by (intro kept_rules setupkvm_mrest copyuvm_loop_mrest)

end
