(* ===== verification/ProcTable.thy ===== *)
theory ProcTable
  imports Proc
begin

text \<open>
  What the process table promises (\<open>proc.c\<close>), as an abstract machine: the entries without the
  fields only their owner uses, the process each CPU runs, and for a process in the middle of
  \<open>fork\<close> the entry it is filling. The steps are what the operations do to the table; the
  invariants are proved here, and \<open>Sched\<close> shows that the code only makes these steps.
\<close>

subsection \<open>The machine\<close>

record aslot =
  a_state :: procstate
  a_pid :: int
  a_parent :: "nat option"
  a_chan :: chan

record atab =
  slots :: "aslot list"
  cur :: "nat \<Rightarrow> nat option"
  root :: nat
  next_pid :: int
  making :: "nat \<Rightarrow> nat option"

definition a_woken :: "chan \<Rightarrow> aslot \<Rightarrow> aslot" where
  "a_woken ch x = (if a_state x = SLEEPING \<and> a_chan x = ch then x\<lparr>a_state := RUNNABLE\<rparr> else x)"

definition upd_slot :: "nat \<Rightarrow> (aslot \<Rightarrow> aslot) \<Rightarrow> atab \<Rightarrow> atab" where
  "upd_slot p f t = t\<lparr>slots := (slots t)[p := f (slots t ! p)]\<rparr>"

text \<open>A process leaves its CPU with its entry changed by \<open>f\<close>.\<close>

definition switch_out :: "nat \<Rightarrow> nat \<Rightarrow> (aslot \<Rightarrow> aslot) \<Rightarrow> atab \<Rightarrow> atab" where
  "switch_out c p f t = (upd_slot p f t)\<lparr>cur := (cur t)(c := None)\<rparr>"

text \<open>
  \<open>exit\<close>: the children go to the first process, whoever waits for a child of this process, or
  for an adopted zombie, is woken, and the process becomes a zombie.
\<close>

definition exit_slot :: "nat \<Rightarrow> chan \<Rightarrow> nat \<Rightarrow> bool \<Rightarrow> nat \<Rightarrow> aslot \<Rightarrow> aslot" where
  "exit_slot me par rt z i x = x\<lparr>a_parent := if a_parent x = Some me then Some rt else a_parent x,
     a_state := if i = me then ZOMBIE
       else if a_state x = SLEEPING \<and> (a_chan x = par \<or> z \<and> a_chan x = ChanProc rt) then RUNNABLE
       else a_state x\<rparr>"

definition has_zombie :: "nat \<Rightarrow> aslot list \<Rightarrow> bool" where
  "has_zombie me xs \<longleftrightarrow> (\<exists>x \<in> set xs. a_parent x = Some me \<and> a_state x = ZOMBIE)"

definition a_exit :: "nat \<Rightarrow> chan \<Rightarrow> nat \<Rightarrow> aslot list \<Rightarrow> aslot list" where
  "a_exit me par rt xs = map (\<lambda>i. exit_slot me par rt (has_zombie me xs) i (xs ! i)) [0..<length xs]"

inductive astep :: "atab \<Rightarrow> atab \<Rightarrow> bool" where
  a_pick: "p < NPROC \<Longrightarrow> a_state (slots t ! p) = RUNNABLE \<Longrightarrow> cur t c = None \<Longrightarrow>
    astep t ((upd_slot p (a_state_update (\<lambda>_. RUNNING)) t)\<lparr>cur := (cur t)(c := Some p)\<rparr>)"
| a_yield: "cur t c = Some p \<Longrightarrow> astep t (switch_out c p (a_state_update (\<lambda>_. RUNNABLE)) t)"
| a_sleep: "cur t c = Some p \<Longrightarrow> making t p = None \<Longrightarrow> (\<And>q. ch \<noteq> ChanProc q) \<Longrightarrow>
    astep t (switch_out c p (\<lambda>x. x\<lparr>a_chan := ch, a_state := SLEEPING\<rparr>) t)"
| a_wait: "cur t c = Some p \<Longrightarrow> making t p = None \<Longrightarrow> \<not> has_zombie p (slots t) \<Longrightarrow>
    astep t (switch_out c p (\<lambda>x. x\<lparr>a_chan := ChanProc p, a_state := SLEEPING\<rparr>) t)"
| a_awake: "cur t c = Some p \<Longrightarrow> astep t (upd_slot p (a_chan_update (\<lambda>_. NoChan)) t)"
| a_wakeup: "astep t (t\<lparr>slots := map (a_woken ch) (slots t)\<rparr>)"
| a_kill: "p < NPROC \<Longrightarrow>
    astep t (upd_slot p (\<lambda>x. if a_state x = SLEEPING then x\<lparr>a_state := RUNNABLE\<rparr> else x) t)"
| a_alloc: "p < NPROC \<Longrightarrow> a_state (slots t ! p) = UNUSED \<Longrightarrow> cur t c = Some q \<Longrightarrow> making t q = None \<Longrightarrow>
    astep t ((upd_slot p (\<lambda>x. x\<lparr>a_state := EMBRYO, a_pid := next_pid t\<rparr>) t)
      \<lparr>next_pid := next_pid t + 1, making := (making t)(q := Some p)\<rparr>)"
| a_alloc_fail: "p < NPROC \<Longrightarrow> a_state (slots t ! p) = UNUSED \<Longrightarrow>
    astep t ((upd_slot p (a_pid_update (\<lambda>_. next_pid t)) t)\<lparr>next_pid := next_pid t + 1\<rparr>)"
| a_adopt: "cur t c = Some q \<Longrightarrow> making t q = Some p \<Longrightarrow>
    astep t ((upd_slot p (\<lambda>x. x\<lparr>a_state := RUNNABLE, a_parent := Some q\<rparr>) t)\<lparr>making := (making t)(q := None)\<rparr>)"
| a_abandon: "cur t c = Some q \<Longrightarrow> making t q = Some p \<Longrightarrow>
    astep t ((upd_slot p (a_state_update (\<lambda>_. UNUSED)) t)\<lparr>making := (making t)(q := None)\<rparr>)"
| a_exit: "cur t c = Some p \<Longrightarrow> making t p = None \<Longrightarrow> p \<noteq> root t \<Longrightarrow>
    astep t (t\<lparr>slots := a_exit p (case a_parent (slots t ! p) of None \<Rightarrow> NoChan | Some q \<Rightarrow> ChanProc q) (root t) (slots t),
      cur := (cur t)(c := None)\<rparr>)"
| a_reap: "cur t c = Some q \<Longrightarrow> p < NPROC \<Longrightarrow> a_parent (slots t ! p) = Some q \<Longrightarrow> a_state (slots t ! p) = ZOMBIE \<Longrightarrow>
    astep t (upd_slot p (\<lambda>x. x\<lparr>a_state := UNUSED, a_pid := 0, a_parent := None\<rparr>) t)"

subsection \<open>The invariants\<close>

abbreviation slot :: "atab \<Rightarrow> nat \<Rightarrow> aslot" where "slot t p \<equiv> slots t ! p"

text \<open>The table has its size, and a process is running exactly if one CPU runs it.\<close>

definition cpu_inv :: "atab \<Rightarrow> bool" where
  "cpu_inv t \<longleftrightarrow> length (slots t) = NPROC \<and> root t < NPROC
    \<and> (\<forall>c p. cur t c = Some p \<longrightarrow> p < NPROC \<and> a_state (slot t p) = RUNNING)
    \<and> (\<forall>c d p. cur t c = Some p \<longrightarrow> cur t d = Some p \<longrightarrow> c = d)
    \<and> (\<forall>p < NPROC. a_state (slot t p) = RUNNING \<longrightarrow> (\<exists>c. cur t c = Some p))"

text \<open>An entry that is being filled belongs to one process that is not asleep or dead.\<close>

definition make_inv :: "atab \<Rightarrow> bool" where
  "make_inv t \<longleftrightarrow>
     (\<forall>q p. making t q = Some p \<longrightarrow> q < NPROC \<and> p < NPROC \<and> a_state (slot t p) = EMBRYO
       \<and> a_state (slot t q) \<in> {RUNNING, RUNNABLE})
    \<and> (\<forall>q r p. making t q = Some p \<longrightarrow> making t r = Some p \<longrightarrow> q = r)"

definition pid_inv :: "atab \<Rightarrow> bool" where
  "pid_inv t \<longleftrightarrow> 0 < next_pid t \<and>
     (\<forall>p < NPROC. a_state (slot t p) \<noteq> UNUSED \<longrightarrow> 0 < a_pid (slot t p) \<and> a_pid (slot t p) < next_pid t)
    \<and> (\<forall>p < NPROC. \<forall>q < NPROC. a_state (slot t p) \<noteq> UNUSED \<longrightarrow> a_state (slot t q) \<noteq> UNUSED
        \<longrightarrow> a_pid (slot t p) = a_pid (slot t q) \<longrightarrow> p = q)"

abbreviation live :: "procstate set" where "live \<equiv> {SLEEPING, RUNNABLE, RUNNING}"

text \<open>Every process but the first one has a parent that has not exited.\<close>

definition parent_inv :: "atab \<Rightarrow> bool" where
  "parent_inv t \<longleftrightarrow> a_state (slot t (root t)) \<in> live \<and> a_parent (slot t (root t)) = None
    \<and> (\<forall>p < NPROC. a_state (slot t p) \<in> {UNUSED, EMBRYO} \<longrightarrow> a_parent (slot t p) = None)
    \<and> (\<forall>p < NPROC. a_state (slot t p) \<in> insert ZOMBIE live \<longrightarrow> p \<noteq> root t \<longrightarrow>
        (\<exists>q < NPROC. a_parent (slot t p) = Some q \<and> q \<noteq> p \<and> a_state (slot t q) \<in> live))"

text \<open>A process asleep in \<open>wait\<close> has no zombie child.\<close>

definition wait_inv :: "atab \<Rightarrow> bool" where
  "wait_inv t \<longleftrightarrow> (\<forall>p < NPROC. \<forall>q. a_state (slot t p) = SLEEPING \<longrightarrow> a_chan (slot t p) = ChanProc q \<longrightarrow>
     q = p \<and> \<not> has_zombie p (slots t))"

subsection \<open>Every step keeps the invariants\<close>

lemma upd_slot_fields [simp]:
  "cur (upd_slot p f t) = cur t" "root (upd_slot p f t) = root t" "next_pid (upd_slot p f t) = next_pid t"
  "making (upd_slot p f t) = making t" "length (slots (upd_slot p f t)) = length (slots t)"
  by (simp_all add: upd_slot_def)

lemma switch_out_fields [simp]:
  "cur (switch_out c p f t) = (cur t)(c := None)" "root (switch_out c p f t) = root t"
  "next_pid (switch_out c p f t) = next_pid t" "making (switch_out c p f t) = making t"
  "slots (switch_out c p f t) = slots (upd_slot p f t)"
  by (simp_all add: switch_out_def)

lemma slot_upd [simp]:
  "p < length (slots t) \<Longrightarrow> slot (upd_slot p f t) q = (if q = p then f (slot t p) else slot t q)"
  by (simp add: upd_slot_def nth_list_update)

lemma a_woken_fields [simp]:
  "a_pid (a_woken ch x) = a_pid x" "a_parent (a_woken ch x) = a_parent x" "a_chan (a_woken ch x) = a_chan x"
  "a_state (a_woken ch x) = (if a_state x = SLEEPING \<and> a_chan x = ch then RUNNABLE else a_state x)"
  by (simp_all add: a_woken_def)

lemma exit_slot_fields [simp]:
  "a_pid (exit_slot me par rt z i x) = a_pid x" "a_chan (exit_slot me par rt z i x) = a_chan x"
  "a_parent (exit_slot me par rt z i x) = (if a_parent x = Some me then Some rt else a_parent x)"
  "a_state (exit_slot me par rt z i x) = (if i = me then ZOMBIE
     else if a_state x = SLEEPING \<and> (a_chan x = par \<or> z \<and> a_chan x = ChanProc rt) then RUNNABLE else a_state x)"
  by (simp_all add: exit_slot_def)

lemma a_exit_nth [simp]:
  "length (a_exit me par rt xs) = length xs"
  "i < length xs \<Longrightarrow> a_exit me par rt xs ! i = exit_slot me par rt (has_zombie me xs) i (xs ! i)"
  by (simp_all add: a_exit_def)

lemma has_zombie_iff: "has_zombie p xs \<longleftrightarrow> (\<exists>i < length xs. a_parent (xs ! i) = Some p \<and> a_state (xs ! i) = ZOMBIE)"
  unfolding has_zombie_def Bex_def in_set_conv_nth by blast

lemma cpu_invD:
  assumes "cpu_inv t"
  shows "length (slots t) = NPROC" "root t < NPROC" "cur t c = Some p \<Longrightarrow> p < NPROC \<and> a_state (slot t p) = RUNNING"
    "cur t c = Some p \<Longrightarrow> cur t d = Some p \<Longrightarrow> c = d"
    "p < NPROC \<Longrightarrow> a_state (slot t p) = RUNNING \<Longrightarrow> \<exists>c. cur t c = Some p"
  using assms by (auto simp: cpu_inv_def)

lemma cpu_inv_same:
  assumes "cpu_inv t" "length (slots t') = NPROC" "root t' = root t" "cur t' = cur t"
    "\<And>p. p < NPROC \<Longrightarrow> a_state (slot t' p) = RUNNING \<longleftrightarrow> a_state (slot t p) = RUNNING"
  shows "cpu_inv t'"
  using assms unfolding cpu_inv_def by metis

lemma cpu_inv_out:
  assumes "cpu_inv t" "cur t c = Some p" "length (slots t') = NPROC" "root t' = root t" "cur t' = (cur t)(c := None)"
    "\<And>q. q < NPROC \<Longrightarrow> a_state (slot t' q) = RUNNING \<longleftrightarrow> q \<noteq> p \<and> a_state (slot t q) = RUNNING"
  shows "cpu_inv t'"
proof -
  note inv = cpu_invD [OF assms(1)]
  have "q < NPROC \<and> a_state (slot t' q) = RUNNING" if "cur t' d = Some q" for d q
  proof -
    have "d \<noteq> c" "cur t d = Some q" using that assms(5) by (auto split: if_splits)
    moreover from this have "q \<noteq> p" using inv(4) assms(2) by blast
    ultimately show ?thesis using inv(3) assms(6) by blast
  qed
  moreover have "\<exists>d. cur t' d = Some q" if q: "q < NPROC" "a_state (slot t' q) = RUNNING" for q
  proof -
    from q assms(6) have "q \<noteq> p" "a_state (slot t q) = RUNNING" by auto
    then obtain d where d: "cur t d = Some q" using inv(5) q(1) by blast
    with assms(2) \<open>q \<noteq> p\<close> have "d \<noteq> c" by auto
    then have "cur t' d = Some q" using assms(5) d by simp
    then show ?thesis by blast
  qed
  moreover have "d = e" if "cur t' d = Some q" "cur t' e = Some q" for d e q
    using that assms(5) inv(4) [of d q e] by (simp split: if_splits)
  ultimately show ?thesis using assms(1,3,4) unfolding cpu_inv_def by auto
qed

lemma cpu_inv_in:
  assumes "cpu_inv t" "p < NPROC" "a_state (slot t p) = RUNNABLE" "cur t c = None" "length (slots t') = NPROC"
    "root t' = root t" "cur t' = (cur t)(c := Some p)"
    "\<And>q. q < NPROC \<Longrightarrow> a_state (slot t' q) = RUNNING \<longleftrightarrow> q = p \<or> a_state (slot t q) = RUNNING"
  shows "cpu_inv t'"
proof -
  note inv = cpu_invD [OF assms(1)]
  have no: "cur t d \<noteq> Some p" for d using inv(3) [of d p] assms(3) by auto
  have "q < NPROC \<and> a_state (slot t' q) = RUNNING" if "cur t' d = Some q" for d q
    using that assms(2,7,8) inv(3) [of d q] by (simp split: if_splits)
  moreover have "\<exists>d. cur t' d = Some q" if q: "q < NPROC" "a_state (slot t' q) = RUNNING" for q
  proof (cases "q = p")
    case False
    then obtain d where d: "cur t d = Some q" using assms(8) [OF q(1)] q inv(5) by blast
    then have "cur t' d = Some q" using assms(4,7) by auto
    then show ?thesis by blast
  qed (use assms(7) in auto)
  moreover have "d = e" if "cur t' d = Some q" "cur t' e = Some q" for d e q
    using that assms(7) no inv(4) [of d q e] by (simp split: if_splits)
  ultimately show ?thesis using assms(1,5,6) unfolding cpu_inv_def by auto
qed

lemma make_invD:
  assumes "make_inv t" "making t q = Some p"
  shows "q < NPROC" "p < NPROC" "a_state (slot t p) = EMBRYO" "a_state (slot t q) = RUNNING \<or> a_state (slot t q) = RUNNABLE"
    "making t r = Some p \<Longrightarrow> r = q"
  using assms unfolding make_inv_def by blast+

lemma cpu_inv_step:
  assumes "astep t t'" "cpu_inv t" "make_inv t"
  shows "cpu_inv t'"
proof -
  note inv = cpu_invD [OF assms(2)]
  show ?thesis using assms(1)
proof cases
  case (a_pick p c)
  show ?thesis by (rule cpu_inv_in [OF assms(2) a_pick(2-4)]) (use a_pick cpu_invD(1) [OF assms(2)] in auto)
next
  case (a_yield c p)
  show ?thesis by (rule cpu_inv_out [OF assms(2) a_yield(2)]) (use a_yield inv(1,2) inv(3) [OF a_yield(2)] in auto)
next
  case (a_sleep c p ch)
  show ?thesis by (rule cpu_inv_out [OF assms(2) a_sleep(2)]) (use a_sleep inv(1,2) inv(3) [OF a_sleep(2)] in auto)
next
  case (a_wait c p)
  show ?thesis by (rule cpu_inv_out [OF assms(2) a_wait(2)]) (use a_wait inv(1,2) inv(3) [OF a_wait(2)] in auto)
next
  case (a_exit c p)
  show ?thesis by (rule cpu_inv_out [OF assms(2) a_exit(2)]) (use a_exit inv(1,2) inv(3) [OF a_exit(2)] in auto)
next
  case (a_adopt c q p)
  show ?thesis
    by (rule cpu_inv_same [OF assms(2)]) (use a_adopt inv(1,2) make_invD(1-4) [OF assms(3) a_adopt(3)] in auto)
next
  case (a_abandon c q p)
  show ?thesis
    by (rule cpu_inv_same [OF assms(2)]) (use a_abandon inv(1,2) make_invD(1-4) [OF assms(3) a_abandon(3)] in auto)
next
  case (a_awake c p)
  show ?thesis by (rule cpu_inv_same [OF assms(2)]) (use a_awake inv(1) inv(3) [OF a_awake(2)] in auto)
qed (rule cpu_inv_same [OF assms(2)]; use inv(1) in simp)+
qed

abbreviation awake :: "procstate set" where "awake \<equiv> {RUNNING, RUNNABLE}"

lemma make_inv_keep:
  assumes "make_inv t" "making t' = making t"
    "\<And>p. p < NPROC \<Longrightarrow> a_state (slot t p) = EMBRYO \<Longrightarrow> a_state (slot t' p) = EMBRYO"
    "\<And>q. q < NPROC \<Longrightarrow> making t q \<noteq> None \<Longrightarrow> a_state (slot t q) \<in> awake \<Longrightarrow> a_state (slot t' q) \<in> awake"
  shows "make_inv t'"
proof -
  have "making t' q = Some p \<Longrightarrow> q < NPROC \<and> p < NPROC \<and> a_state (slot t' p) = EMBRYO \<and> a_state (slot t' q) \<in> awake" for q p
    using make_invD(1-4) [OF assms(1), of q p] assms(2-4) by auto
  moreover have "making t' q = Some p \<Longrightarrow> making t' r = Some p \<Longrightarrow> q = r" for q r p
    using make_invD(5) [OF assms(1)] assms(2) by auto
  ultimately show ?thesis unfolding make_inv_def by blast
qed

lemma make_inv_done:
  assumes "make_inv t" "making t q = Some p" "making t' = (making t)(q := None)"
    "\<And>r. r < NPROC \<Longrightarrow> r \<noteq> p \<Longrightarrow> a_state (slot t' r) = a_state (slot t r)"
  shows "make_inv t'"
proof -
  note m = make_invD [OF assms(1)]
  have "r < NPROC \<and> x < NPROC \<and> a_state (slot t' x) = EMBRYO \<and> a_state (slot t' r) \<in> awake" if "making t' r = Some x" for r x
  proof -
    have r: "r \<noteq> q" "making t r = Some x" using that assms(3) by (auto split: if_splits)
    then have "x \<noteq> p" "r \<noteq> p" using m(5) [OF assms(2), of r] m(3) [OF assms(2)] m(4) [OF r(2)] by auto
    then show ?thesis using m(1-4) [OF r(2)] assms(4) by auto
  qed
  moreover have "r = r'" if "making t' r = Some x" "making t' r' = Some x" for r r' x
    using that assms(3) m(5) [of r' x r] by (auto split: if_splits)
  ultimately show ?thesis unfolding make_inv_def by blast
qed

lemma make_inv_new:
  assumes "make_inv t" "a_state (slot t p) = UNUSED" "p < NPROC" "q < NPROC" "a_state (slot t q) = RUNNING" "making t q = None"
    "making t' = (making t)(q := Some p)" "a_state (slot t' p) = EMBRYO"
    "\<And>r. r < NPROC \<Longrightarrow> r \<noteq> p \<Longrightarrow> a_state (slot t' r) = a_state (slot t r)"
  shows "make_inv t'"
proof -
  note m = make_invD [OF assms(1)]
  have "r < NPROC \<and> x < NPROC \<and> a_state (slot t' x) = EMBRYO \<and> a_state (slot t' r) \<in> awake" if "making t' r = Some x" for r x
  proof (cases "r = q")
    case True
    then have "x = p" using that assms(7) by simp
    moreover have "q \<noteq> p" using assms(2,5) by auto
    ultimately show ?thesis using True assms by auto
  next
    case False
    then have r: "making t r = Some x" using that assms(7) by simp
    then have "x \<noteq> p" "r \<noteq> p" using m(3,4) [OF r] assms(2) by auto
    then show ?thesis using m(1-4) [OF r] assms(9) by auto
  qed
  moreover have "r = r'" if "making t' r = Some x" "making t' r' = Some x" for r r' x
  proof -
    have "making t r \<noteq> Some p" for r using m(3) [of r p] assms(2) by auto
    then show ?thesis using that assms(7) m(5) [of r' x r] by (auto split: if_splits)
  qed
  ultimately show ?thesis unfolding make_inv_def by blast
qed

lemma make_inv_step:
  assumes "astep t t'" "cpu_inv t" "make_inv t"
  shows "make_inv t'"
proof -
  note inv = cpu_invD [OF assms(2)]
  show ?thesis using assms(1)
  proof cases
    case (a_yield c p)
    show ?thesis by (rule make_inv_keep [OF assms(3)]) (use a_yield inv(1) inv(3) [OF a_yield(2)] in auto)
  next
    case (a_sleep c p ch)
    show ?thesis by (rule make_inv_keep [OF assms(3)]) (use a_sleep inv(1) inv(3) [OF a_sleep(2)] in auto)
  next
    case (a_wait c p)
    show ?thesis by (rule make_inv_keep [OF assms(3)]) (use a_wait inv(1) inv(3) [OF a_wait(2)] in auto)
  next
    case (a_awake c p)
    show ?thesis by (rule make_inv_keep [OF assms(3)]) (use a_awake inv(1) inv(3) [OF a_awake(2)] in auto)
  next
    case (a_exit c p)
    show ?thesis by (rule make_inv_keep [OF assms(3)]) (use a_exit inv(1) inv(3) [OF a_exit(2)] in auto)
  next
    case (a_alloc p c q)
    show ?thesis
      by (rule make_inv_new [OF assms(3), of p q]) (use a_alloc inv(1) inv(3) [OF a_alloc(4)] in auto)
  next
    case (a_adopt c q p)
    show ?thesis
      by (rule make_inv_done [OF assms(3) a_adopt(3)]) (use a_adopt inv(1) make_invD(2) [OF assms(3) a_adopt(3)] in auto)
  next
    case (a_abandon c q p)
    show ?thesis
      by (rule make_inv_done [OF assms(3) a_abandon(3)]) (use a_abandon inv(1) make_invD(2) [OF assms(3) a_abandon(3)] in auto)
  qed (rule make_inv_keep [OF assms(3)]; use inv(1) in auto)+
qed

text \<open>Process numbers.\<close>

lemma pid_inv_keep:
  assumes "pid_inv t" "next_pid t' = next_pid t"
    "\<And>p. p < NPROC \<Longrightarrow> a_state (slot t' p) \<noteq> UNUSED \<Longrightarrow> a_state (slot t p) \<noteq> UNUSED \<and> a_pid (slot t' p) = a_pid (slot t p)"
  shows "pid_inv t'"
  using assms unfolding pid_inv_def by metis

lemma pid_inv_new:
  assumes "pid_inv t" "a_state (slot t p) = UNUSED" "p < NPROC" "next_pid t' = next_pid t + 1"
    "a_pid (slot t' p) = next_pid t" "\<And>q. q < NPROC \<Longrightarrow> q \<noteq> p \<Longrightarrow> slot t' q = slot t q"
  shows "pid_inv t'"
proof -
  have 1: "0 < a_pid (slot t' q) \<and> a_pid (slot t' q) < next_pid t'" if "q < NPROC" "a_state (slot t' q) \<noteq> UNUSED" for q
    using that assms unfolding pid_inv_def by (cases "q = p") force+
  moreover have "a_pid (slot t' q) < next_pid t" if "q < NPROC" "a_state (slot t' q) \<noteq> UNUSED" "q \<noteq> p" for q
    using that assms(1,6) unfolding pid_inv_def by metis
  then have "q = r" if "q < NPROC" "r < NPROC" "a_state (slot t' q) \<noteq> UNUSED" "a_state (slot t' r) \<noteq> UNUSED"
      "a_pid (slot t' q) = a_pid (slot t' r)" for q r
    using that assms(1,5,6) unfolding pid_inv_def by (cases "q = p"; cases "r = p") (metis less_irrefl)+
  ultimately show ?thesis using assms(1,4) unfolding pid_inv_def by auto
qed

lemma pid_inv_step:
  assumes "astep t t'" "cpu_inv t" "make_inv t" "pid_inv t"
  shows "pid_inv t'"
proof -
  note inv = cpu_invD [OF assms(2)]
  show ?thesis using assms(1)
  proof cases
    case (a_yield c p)
    show ?thesis by (rule pid_inv_keep [OF assms(4)]) (use a_yield inv(1) inv(3) [OF a_yield(2)] in auto)
  next
    case (a_sleep c p ch)
    show ?thesis by (rule pid_inv_keep [OF assms(4)]) (use a_sleep inv(1) inv(3) [OF a_sleep(2)] in auto)
  next
    case (a_wait c p)
    show ?thesis by (rule pid_inv_keep [OF assms(4)]) (use a_wait inv(1) inv(3) [OF a_wait(2)] in auto)
  next
    case (a_awake c p)
    show ?thesis by (rule pid_inv_keep [OF assms(4)]) (use a_awake inv(1) inv(3) [OF a_awake(2)] in auto)
  next
    case (a_exit c p)
    show ?thesis by (rule pid_inv_keep [OF assms(4)]) (use a_exit inv(1) inv(3) [OF a_exit(2)] in \<open>auto split: if_splits\<close>)
  next
    case (a_alloc p c q)
    show ?thesis by (rule pid_inv_new [OF assms(4) a_alloc(3,2)]) (use a_alloc inv(1) in auto)
  next
    case (a_alloc_fail p)
    show ?thesis by (rule pid_inv_new [OF assms(4) a_alloc_fail(3,2)]) (use a_alloc_fail inv(1) in auto)
  next
    case (a_adopt c q p)
    show ?thesis
      by (rule pid_inv_keep [OF assms(4)]) (use a_adopt inv(1) make_invD(1-4) [OF assms(3) a_adopt(3)] in auto)
  next
    case (a_abandon c q p)
    show ?thesis
      by (rule pid_inv_keep [OF assms(4)]) (use a_abandon inv(1) make_invD(1-4) [OF assms(3) a_abandon(3)] in auto)
  qed (rule pid_inv_keep [OF assms(4)]; use inv(1) in \<open>auto split: if_splits\<close>)+
qed

text \<open>Parents.\<close>

lemma parent_invD:
  assumes "parent_inv t"
  shows "a_state (slot t (root t)) \<in> live" "a_parent (slot t (root t)) = None"
    "p < NPROC \<Longrightarrow> a_state (slot t p) \<in> {UNUSED, EMBRYO} \<Longrightarrow> a_parent (slot t p) = None"
    "p < NPROC \<Longrightarrow> a_state (slot t p) \<in> insert ZOMBIE live \<Longrightarrow> p \<noteq> root t \<Longrightarrow>
       \<exists>q < NPROC. a_parent (slot t p) = Some q \<and> q \<noteq> p \<and> a_state (slot t q) \<in> live"
  using assms unfolding parent_inv_def by blast+

lemma no_child:
  assumes "parent_inv t" "a_state (slot t q) \<notin> live" "p < NPROC"
  shows "a_parent (slot t p) \<noteq> Some q"
proof (cases "p = root t \<or> a_state (slot t p) \<in> {UNUSED, EMBRYO}")
  case True
  then show ?thesis using parent_invD(2,3) [OF assms(1)] assms(3) by auto
next
  case False
  then have "a_state (slot t p) \<in> insert ZOMBIE live" by (cases "a_state (slot t p)") auto
  then show ?thesis using parent_invD(4) [OF assms(1,3)] False assms(2) by auto
qed

lemma parent_inv_keep:
  assumes "parent_inv t" "cpu_inv t" "root t' = root t"
    "\<And>p. p < NPROC \<Longrightarrow> a_parent (slot t' p) = a_parent (slot t p)"
    "\<And>p. p < NPROC \<Longrightarrow> a_state (slot t p) \<in> live \<Longrightarrow> a_state (slot t' p) \<in> live"
    "\<And>p. p < NPROC \<Longrightarrow> a_state (slot t' p) \<in> {UNUSED, EMBRYO} \<longleftrightarrow> a_state (slot t p) \<in> {UNUSED, EMBRYO}"
  shows "parent_inv t'"
proof -
  note v = parent_invD [OF assms(1)] and r = cpu_invD(2) [OF assms(2)]
  have "\<exists>q < NPROC. a_parent (slot t' p) = Some q \<and> q \<noteq> p \<and> a_state (slot t' q) \<in> live"
    if p: "p < NPROC" "a_state (slot t' p) \<in> insert ZOMBIE live" "p \<noteq> root t" for p
  proof -
    have "a_state (slot t p) \<notin> {UNUSED, EMBRYO}" using assms(6) [OF p(1)] p(2) by auto
    then have "a_state (slot t p) \<in> insert ZOMBIE live" by (cases "a_state (slot t p)") auto
    from v(4) [OF p(1) this p(3)] show ?thesis using assms(4) [OF p(1)] assms(5) by auto
  qed
  moreover have "a_state (slot t' p) \<in> {UNUSED, EMBRYO} \<Longrightarrow> p < NPROC \<Longrightarrow> a_parent (slot t' p) = None" for p
    using v(3) [of p] assms(4) [of p] assms(6) [of p] by auto
  ultimately show ?thesis using v(1,2) r assms(3-5) unfolding parent_inv_def by metis
qed

lemma parent_inv_adopt:
  assumes "parent_inv t" "cpu_inv t" "p < NPROC" "a_state (slot t p) = EMBRYO" "q < NPROC" "a_state (slot t q) = RUNNING" "root t' = root t"
    "\<And>i. i < NPROC \<Longrightarrow> slot t' i = (if i = p then (slot t p)\<lparr>a_state := RUNNABLE, a_parent := Some q\<rparr> else slot t i)"
  shows "parent_inv t'"
proof -
  note v = parent_invD [OF assms(1)] and r = cpu_invD(2) [OF assms(2)]
  have root: "root t \<noteq> p" using v(1) assms(4) by auto
  have "\<exists>x < NPROC. a_parent (slot t' i) = Some x \<and> x \<noteq> i \<and> a_state (slot t' x) \<in> live"
    if i: "i < NPROC" "a_state (slot t' i) \<in> insert ZOMBIE live" "i \<noteq> root t" for i
  proof (cases "i = p")
    case True
    have "q \<noteq> p" using assms(4,6) by auto
    then show ?thesis using True assms(3,5,6,8) by (intro exI [of _ q]) simp
  next
    case False
    then obtain x where x: "x < NPROC" "a_parent (slot t i) = Some x" "x \<noteq> i" "a_state (slot t x) \<in> live"
      using v(4) [of i] i assms(8) by auto
    then have "x \<noteq> p" using assms(4) by auto
    then show ?thesis using x False i(1) assms(8) by (intro exI [of _ x]) simp
  qed
  moreover have "a_state (slot t' i) \<in> {UNUSED, EMBRYO} \<Longrightarrow> i < NPROC \<Longrightarrow> a_parent (slot t' i) = None" for i
    using v(3) [of i] assms(8) [of i] by (auto split: if_splits)
  ultimately show ?thesis using v(1,2) r root assms(7,8) unfolding parent_inv_def by simp
qed

lemma parent_inv_reap:
  assumes "parent_inv t" "cpu_inv t" "p < NPROC" "a_state (slot t p) = ZOMBIE" "root t' = root t"
    "\<And>i. i < NPROC \<Longrightarrow> slot t' i = (if i = p then (slot t p)\<lparr>a_state := UNUSED, a_pid := 0, a_parent := None\<rparr> else slot t i)"
  shows "parent_inv t'"
proof -
  note v = parent_invD [OF assms(1)] and r = cpu_invD(2) [OF assms(2)]
  have root: "root t \<noteq> p" using v(1) assms(4) by auto
  have "\<exists>x < NPROC. a_parent (slot t' i) = Some x \<and> x \<noteq> i \<and> a_state (slot t' x) \<in> live"
    if i: "i < NPROC" "a_state (slot t' i) \<in> insert ZOMBIE live" "i \<noteq> root t" for i
  proof -
    have "i \<noteq> p" using i assms(6) by auto
    then obtain x where x: "x < NPROC" "a_parent (slot t i) = Some x" "x \<noteq> i" "a_state (slot t x) \<in> live"
      using v(4) [of i] i assms(6) by auto
    then have "x \<noteq> p" using assms(4) by auto
    then show ?thesis using x \<open>i \<noteq> p\<close> i(1) assms(6) by (intro exI [of _ x]) simp
  qed
  moreover have "a_state (slot t' i) \<in> {UNUSED, EMBRYO} \<Longrightarrow> i < NPROC \<Longrightarrow> a_parent (slot t' i) = None" for i
    using v(3) [of i] assms(6) [of i] by (auto split: if_splits)
  ultimately show ?thesis using v(1,2) r root assms(5,6) unfolding parent_inv_def by simp
qed

lemma parent_inv_exit:
  assumes "parent_inv t" "cpu_inv t" "me < NPROC" "a_state (slot t me) = RUNNING" "me \<noteq> root t" "root t' = root t"
    "\<And>i. i < NPROC \<Longrightarrow> slot t' i = exit_slot me par (root t) z i (slot t i)"
  shows "parent_inv t'"
proof -
  note v = parent_invD [OF assms(1)] and r = cpu_invD(2) [OF assms(2)]
  have live: "a_state (slot t' i) \<in> live" if "i < NPROC" "i \<noteq> me" "a_state (slot t i) \<in> live" for i
    using assms(7) [OF that(1)] that(2,3) by auto
  have "\<exists>x < NPROC. a_parent (slot t' i) = Some x \<and> x \<noteq> i \<and> a_state (slot t' x) \<in> live"
    if i: "i < NPROC" "a_state (slot t' i) \<in> insert ZOMBIE live" "i \<noteq> root t" for i
  proof -
    have "a_state (slot t i) \<in> insert ZOMBIE live" using i(2) assms(4) assms(7) [OF i(1)] by (auto split: if_splits)
    from v(4) [OF i(1) this i(3)] obtain x where
      x: "x < NPROC" "a_parent (slot t i) = Some x" "x \<noteq> i" "a_state (slot t x) \<in> live" by blast
    show ?thesis
    proof (cases "x = me")
      case True
      then show ?thesis using x i assms(5) assms(7) [OF i(1)] live [OF r] v(1) by (intro exI [of _ "root t"]) (auto simp: r)
    next
      case False
      then show ?thesis using x assms(7) [OF i(1)] live [OF x(1) False x(4)] by (intro exI [of _ x]) simp
    qed
  qed
  moreover have "a_state (slot t' i) \<in> {UNUSED, EMBRYO} \<Longrightarrow> i < NPROC \<Longrightarrow> a_parent (slot t' i) = None" for i
    using v(3) [of i] assms(7) [of i] by (auto split: if_splits)
  moreover have "a_parent (slot t' (root t)) = None" using v(2) assms(7) [OF r] by simp
  ultimately show ?thesis using v(1) live [OF r] assms(5,6) unfolding parent_inv_def by auto
qed

lemma parent_inv_step:
  assumes "astep t t'" "cpu_inv t" "make_inv t" "parent_inv t"
  shows "parent_inv t'"
proof -
  note inv = cpu_invD [OF assms(2)]
  show ?thesis using assms(1)
  proof cases
    case (a_yield c p)
    show ?thesis by (rule parent_inv_keep [OF assms(4,2)]) (use a_yield inv(1) inv(3) [OF a_yield(2)] in auto)
  next
    case (a_sleep c p ch)
    show ?thesis by (rule parent_inv_keep [OF assms(4,2)]) (use a_sleep inv(1) inv(3) [OF a_sleep(2)] in auto)
  next
    case (a_wait c p)
    show ?thesis by (rule parent_inv_keep [OF assms(4,2)]) (use a_wait inv(1) inv(3) [OF a_wait(2)] in auto)
  next
    case (a_awake c p)
    show ?thesis by (rule parent_inv_keep [OF assms(4,2)]) (use a_awake inv(1) inv(3) [OF a_awake(2)] in auto)
  next
    case (a_exit c p)
    show ?thesis
      by (rule parent_inv_exit [OF assms(4,2), of p]) (use a_exit inv(1) inv(3) [OF a_exit(2)] in auto)
  next
    case (a_reap c q p)
    show ?thesis by (rule parent_inv_reap [OF assms(4,2) a_reap(3,5)]) (use a_reap inv(1) in auto)
  next
    case (a_adopt c q p)
    show ?thesis
      by (rule parent_inv_adopt [OF assms(4,2), of p q])
        (use a_adopt inv(1) inv(3) [OF a_adopt(2)] make_invD(1-4) [OF assms(3) a_adopt(3)] in auto)
  next
    case (a_abandon c q p)
    show ?thesis
      by (rule parent_inv_keep [OF assms(4,2)]) (use a_abandon inv(1) make_invD(1-4) [OF assms(3) a_abandon(3)] in auto)
  qed (rule parent_inv_keep [OF assms(4,2)]; use inv(1) in auto)+
qed

text \<open>Waiting for children.\<close>

lemma wait_invD:
  "wait_inv t \<Longrightarrow> p < NPROC \<Longrightarrow> a_state (slot t p) = SLEEPING \<Longrightarrow> a_chan (slot t p) = ChanProc q \<Longrightarrow>
     q = p \<and> \<not> has_zombie p (slots t)"
  unfolding wait_inv_def by blast

lemma wait_inv_keep:
  assumes "wait_inv t" "cpu_inv t" "length (slots t') = NPROC"
    "\<And>p q. p < NPROC \<Longrightarrow> a_state (slot t' p) = SLEEPING \<Longrightarrow> a_chan (slot t' p) = ChanProc q \<Longrightarrow>
       a_state (slot t p) = SLEEPING \<and> a_chan (slot t p) = ChanProc q \<or> q = p \<and> \<not> has_zombie p (slots t)"
    "\<And>p. p < NPROC \<Longrightarrow> a_state (slot t' p) = ZOMBIE \<Longrightarrow> a_state (slot t p) = ZOMBIE \<and> a_parent (slot t' p) = a_parent (slot t p)"
  shows "wait_inv t'"
proof -
  have z: "has_zombie p (slots t') \<Longrightarrow> has_zombie p (slots t)" for p
    using assms(3,5) cpu_invD(1) [OF assms(2)] unfolding has_zombie_iff by metis
  show ?thesis unfolding wait_inv_def
  proof (intro allI impI)
    fix p q
    assume "p < NPROC" "a_state (slot t' p) = SLEEPING" "a_chan (slot t' p) = ChanProc q"
    then show "q = p \<and> \<not> has_zombie p (slots t')" using assms(4) wait_invD [OF assms(1)] z by blast
  qed
qed

lemma wait_inv_exit:
  assumes "wait_inv t" "cpu_inv t" "parent_inv t" "me < NPROC" "a_state (slot t me) = RUNNING" "me \<noteq> root t"
    "length (slots t') = NPROC" "z = has_zombie me (slots t)"
    "par = (case a_parent (slot t me) of None \<Rightarrow> NoChan | Some q \<Rightarrow> ChanProc q)"
    "\<And>i. i < NPROC \<Longrightarrow> slot t' i = exit_slot me par (root t) z i (slot t i)"
  shows "wait_inv t'"
  unfolding wait_inv_def
proof (intro allI impI)
  fix p q
  assume p: "p < NPROC" "a_state (slot t' p) = SLEEPING" "a_chan (slot t' p) = ChanProc q"
  then have s: "p \<noteq> me" "a_state (slot t p) = SLEEPING" "a_chan (slot t p) = ChanProc q"
    and w: "ChanProc q \<noteq> par" "\<not> (z \<and> q = root t)"
    using assms(10) [OF p(1)] by (auto split: if_splits)
  from wait_invD [OF assms(1) p(1) s(2,3)] have q: "q = p" "\<not> has_zombie p (slots t)" by auto
  have len: "length (slots t) = NPROC" by (rule cpu_invD(1) [OF assms(2)])
  have "\<not> has_zombie p (slots t')"
  proof
    assume "has_zombie p (slots t')"
    then obtain i where i: "i < NPROC" "a_parent (slot t' i) = Some p" "a_state (slot t' i) = ZOMBIE"
      unfolding has_zombie_iff assms(7) by blast
    show False
    proof (cases "i = me")
      case True
      obtain x where "a_parent (slot t me) = Some x" "x \<noteq> me"
        using parent_invD(4) [OF assms(3,4)] assms(5,6) by auto
      then show False using i(2) w(1) q(1) assms(9) assms(10) [OF i(1)] True by auto
    next
      case False
      then have zi: "a_state (slot t i) = ZOMBIE" using i(3) assms(10) [OF i(1)] by (auto split: if_splits)
      have "a_parent (slot t i) \<noteq> Some p" using q(2) i(1) zi len unfolding has_zombie_iff by metis
      then have "a_parent (slot t i) = Some me" "p = root t" using i(2) assms(10) [OF i(1)] by (auto split: if_splits)
      then show False using w(2) q(1) zi i(1) len assms(8) unfolding has_zombie_iff by metis
    qed
  qed
  then show "q = p \<and> \<not> has_zombie p (slots t')" using q(1) by simp
qed

lemma wait_inv_step:
  assumes "astep t t'" "cpu_inv t" "make_inv t" "parent_inv t" "wait_inv t"
  shows "wait_inv t'"
proof -
  note inv = cpu_invD [OF assms(2)]
  show ?thesis using assms(1)
  proof cases
    case (a_yield c p)
    show ?thesis by (rule wait_inv_keep [OF assms(5,2)]) (use a_yield inv(1) inv(3) [OF a_yield(2)] in \<open>auto split: if_splits\<close>)
  next
    case (a_sleep c p ch)
    show ?thesis by (rule wait_inv_keep [OF assms(5,2)]) (use a_sleep inv(1) inv(3) [OF a_sleep(2)] in \<open>auto split: if_splits\<close>)
  next
    case (a_wait c p)
    show ?thesis by (rule wait_inv_keep [OF assms(5,2)]) (use a_wait inv(1) inv(3) [OF a_wait(2)] in \<open>auto split: if_splits\<close>)
  next
    case (a_awake c p)
    show ?thesis by (rule wait_inv_keep [OF assms(5,2)]) (use a_awake inv(1) inv(3) [OF a_awake(2)] in \<open>auto split: if_splits\<close>)
  next
    case (a_exit c p)
    show ?thesis
      by (rule wait_inv_exit [OF assms(5,2,4), of p]) (use a_exit inv(1) inv(3) [OF a_exit(2)] in auto)
  next
    case (a_adopt c q p)
    show ?thesis
      by (rule wait_inv_keep [OF assms(5,2)])
        (use a_adopt inv(1) make_invD(1-4) [OF assms(3) a_adopt(3)] in \<open>auto split: if_splits\<close>)
  next
    case (a_abandon c q p)
    show ?thesis
      by (rule wait_inv_keep [OF assms(5,2)])
        (use a_abandon inv(1) make_invD(1-4) [OF assms(3) a_abandon(3)] in \<open>auto split: if_splits\<close>)
  qed (rule wait_inv_keep [OF assms(5,2)]; use inv(1) in \<open>auto split: if_splits\<close>)+
qed

definition table_inv :: "atab \<Rightarrow> bool" where
  "table_inv t \<longleftrightarrow> cpu_inv t \<and> make_inv t \<and> pid_inv t \<and> parent_inv t \<and> wait_inv t"

lemma table_inv_step: "astep t t' \<Longrightarrow> table_inv t \<Longrightarrow> table_inv t'"
  unfolding table_inv_def using cpu_inv_step make_inv_step pid_inv_step parent_inv_step wait_inv_step by metis

lemma table_inv_steps: "astep\<^sup>*\<^sup>* t t' \<Longrightarrow> table_inv t \<Longrightarrow> table_inv t'"
  by (induction rule: rtranclp_induct) (auto intro: table_inv_step)

end
