(* ===== verification/Sched.thy ===== *)
theory Sched
  imports Process VmSpec ProcTable
begin

text \<open>
  The process table under all interleavings of the CPUs (\<open>proc.c\<close>). The steps of a CPU are the
  pieces of the scheduler, of \<open>yield\<close>, \<open>sleep\<close>, \<open>fork\<close>, \<open>exit\<close> and \<open>wait\<close> between two switches
  or two acquisitions of \<open>ptable.lock\<close>. Every reachable state runs each process on at most one CPU,
  has unique process numbers, no orphans, and no parent asleep in \<open>wait\<close> with a zombie child.
\<close>

subsection \<open>What the lower layers leave alone\<close>

lemma bio_more_updates [simp]:
  "bio_st.more (upd_buf b f s) = bio_st.more s" "bio_st.more (idestart b s) = bio_st.more s"
  "bio_st.more (ideintr s) = bio_st.more s" "bio_st.more (blink b s) = bio_st.more s" "bio_st.more (bunlink b s) = bio_st.more s"
  by (simp_all add: upd_buf_def idestart_def ideintr_def blink_def bunlink_def Let_def split: list.splits)

lemma ide_wait_more: "kept bio_st.more s (ide_wait n b s)"
  by (induction n b s rule: ide_wait.induct) (auto simp: kept_def)

lemma iderw_more: "kept bio_st.more s (iderw b s)"
  using ide_wait_more by (fastforce simp: iderw_def kept_def Let_def split: if_splits)

lemma bget_more: "kept bio_st.more s (bget dev sector s)"
  by (auto simp: bget_def kept_def split: option.splits if_splits)

lemma bread_more: "kept bio_st.more s (bread dev sector s)"
  unfolding bread_def by (intro kept_rules bget_more iderw_more; simp)

lemma bwrite_more: "kept bio_st.more s (bwrite b s)"
  using iderw_more by (fastforce simp: bwrite_def kept_def split: if_splits)

lemma brelse_more: "kept bio_st.more s (brelse b s)"
  by (simp add: brelse_def kept_def)

lemma set_bdata_more: "kept bio_st.more s (set_bdata b d s)"
  by (simp add: set_bdata_def kept_def modify_def)

text \<open>What the process table consists of; the layers below do not touch it.\<close>

definition pview :: "'a proc_st_scheme \<Rightarrow> proc list \<times> (nat \<Rightarrow> nat option) \<times> nat \<times> int \<times> lock_st" where
  "pview s = (ptable s, curproc s, initproc s, nextpid s, lks s)"

lemma kept_mono: "kept f s r \<Longrightarrow> (\<And>s'. f s' = f s \<Longrightarrow> g s' = g s) \<Longrightarrow> kept g s r"
  unfolding kept_def by blast

lemma more_log: "bio_st.more s' = bio_st.more s \<Longrightarrow> log_st.more s' = log_st.more s"
  by (cases s, cases s') simp

lemma more_fs: "log_st.more s' = log_st.more s \<Longrightarrow> fs_st.more s' = fs_st.more s"
  by (cases s, cases s') simp

lemma more_mem: "fs_st.more s' = fs_st.more s \<Longrightarrow> mem_st.more s' = mem_st.more s"
  by (cases s, cases s') simp

lemma more_vm: "mem_st.more s' = mem_st.more s \<Longrightarrow> vm_st.more s' = vm_st.more s"
  by (cases s, cases s') simp

lemma more_proc: "vm_st.more s' = vm_st.more s \<Longrightarrow> pview s' = pview s"
  by (cases s, cases s') (simp add: pview_def)

lemma pview_bio: "kept bio_st.more s r \<Longrightarrow> kept pview s r"
  by (erule kept_mono) (blast intro: more_proc more_vm more_mem more_fs more_log)

lemma pview_mem: "kept mrest s r \<Longrightarrow> kept pview s r"
  by (erule kept_mono) (intro more_proc more_vm, simp add: mrest_def)

lemmas pview_blocks = bread_more [THEN pview_bio] bwrite_more [THEN pview_bio] brelse_more [THEN pview_bio]
  set_bdata_more [THEN pview_bio]

lemma readsb_pview: "kept pview s (readsb dev s)"
  unfolding readsb_def by (intro kept_rules pview_blocks)

lemma read_head_pview: "kept pview s (read_head s)"
  unfolding read_head_def Let_def by (intro kept_rules pview_blocks; simp add: pview_def)

lemma write_head_pview: "kept pview s (write_head s)"
  unfolding write_head_def by (intro kept_rules pview_blocks; simp add: pview_def)

lemma install_loop_pview: "kept pview s (install_loop k tail s)"
proof (induction k arbitrary: tail s)
  case (Suc k)
  then show ?case unfolding install_loop.simps by (intro kept_rules pview_blocks; simp)
qed (simp add: kept_branches)

lemma install_trans_pview: "kept pview s (install_trans s)"
  unfolding install_trans_def by (rule install_loop_pview)

lemma initlog_pview: "kept pview s (initlog s)"
  unfolding initlog_def recover_from_log_def
  by (intro kept_rules readsb_pview read_head_pview write_head_pview install_trans_pview; simp add: pview_def)

lemma idup_pview: "kept pview s (idup ip s)"
  unfolding idup_def upd_ino_def by (intro kept_rules; simp add: pview_def)

lemma filedup_pview: "kept pview s (filedup f s)"
  unfolding filedup_def upd_file_def by (intro kept_rules; simp add: pview_def)

subsection \<open>What the operations do to the process table\<close>

text \<open>The process table without the locks, and a process entry without what only its owner uses.\<close>

definition tview :: "'a proc_st_scheme \<Rightarrow> proc list \<times> (nat \<Rightarrow> nat option) \<times> nat \<times> int" where
  "tview s = (ptable s, curproc s, initproc s, nextpid s)"

lemma tview_pview: "kept pview s r \<Longrightarrow> kept tview s r"
  by (erule kept_mono) (simp add: pview_def tview_def)

lemma kern_Inr [simp]:
  "ret a s = Inr (x, s') \<longleftrightarrow> x = a \<and> s' = s"
  "gets f s = Inr (y, s') \<longleftrightarrow> y = f s \<and> s' = s"
  "modify g s = Inr (u, s') \<longleftrightarrow> s' = g s"
  "panic m s \<noteq> Inr z"
  by (auto simp: ret_def gets_def modify_def panic_def)

lemma on_locks_tview: "kept tview s (on_locks m s)"
  by (auto simp: on_locks_def kept_def tview_def split: sum.splits)

lemma locks_tview: "kept tview s (acquire_lock c l s)" "kept tview s (release_lock c l s)"
  by (simp_all add: acquire_lock_def release_lock_def on_locks_tview)

lemma sched_enter_tview: "kept tview s (sched_enter c s)"
  by (auto simp: sched_enter_def myproc_def kept_def kbind_eq_Inr_iff tview_def split: option.splits if_splits)

lemma sched_return_tview: "kept tview s (sched_return c ie s)"
  unfolding sched_return_def by (rule on_locks_tview)

lemma scheduler_enter_tview: "kept tview s (scheduler_enter c s)"
  unfolding scheduler_enter_def by (intro kept_rules on_locks_tview locks_tview)

lemma scheduler_leave_tview: "kept tview s (scheduler_leave c s)"
  unfolding scheduler_leave_def by (rule locks_tview)

lemma yield_return_tview: "kept tview s (yield_return c ie s)"
  unfolding yield_return_def by (intro kept_rules sched_return_tview locks_tview)

lemma forkret_tview: "kept tview s (forkret c s)"
  unfolding forkret_def
  by (intro kept_rules locks_tview initlog_pview [THEN tview_pview]; simp add: tview_def)

lemmas tview_keptD = locks_tview [THEN keptD] sched_enter_tview [THEN keptD] on_locks_tview [THEN keptD]
  sched_return_tview [THEN keptD]

lemma tviewD: "tview s' = tview s \<Longrightarrow> ptable s' = ptable s \<and> curproc s' = curproc s \<and> initproc s' = initproc s \<and> nextpid s' = nextpid s"
  by (simp add: tview_def)

lemma scheduler_back_law:
  "scheduler_back c s = Inr (u, s') \<Longrightarrow>
     tview s' = (ptable s, (curproc s)(c := None), initproc s, nextpid s)"
  by (auto simp: scheduler_back_def switchkvm_def kbind_eq_Inr_iff tview_def)

lemma scheduler_pick_law:
  "scheduler_pick c p s = Inr (True, s') \<Longrightarrow> p_state (prc s p) = RUNNABLE \<and>
     tview s' = ((ptable s)[p := (prc s p)\<lparr>p_state := RUNNING\<rparr>], (curproc s)(c := Some p), initproc s, nextpid s)"
  by (auto simp: scheduler_pick_def switchuvm_def myproc_def upd_proc_def kbind_eq_Inr_iff tview_def
      dest!: on_locks_tview [THEN keptD] split: if_splits option.splits)

lemma yield_enter_law:
  "yield_enter c s = Inr (ie, s') \<Longrightarrow> \<exists>p. curproc s c = Some p \<and>
     tview s' = ((ptable s)[p := (prc s p)\<lparr>p_state := RUNNABLE\<rparr>], curproc s, initproc s, nextpid s)"
  by (auto simp: yield_enter_def myproc_def upd_proc_def kbind_eq_Inr_iff tview_def
      dest!: tview_keptD split: option.splits)

lemma sleep_enter_law:
  "sleep_enter c ch lk s = Inr (ie, s') \<Longrightarrow> \<exists>p. curproc s c = Some p \<and>
     tview s' = ((ptable s)[p := (prc s p)\<lparr>p_chan := ch, p_state := SLEEPING\<rparr>], curproc s, initproc s, nextpid s)"
  by (auto simp: sleep_enter_def myproc_def upd_proc_def kbind_eq_Inr_iff tview_def
      dest!: tview_keptD split: option.splits if_splits)

lemma sleep_wake_law:
  "sleep_wake c ie lk s = Inr (u, s') \<Longrightarrow> \<exists>p. curproc s c = Some p \<and>
     tview s' = ((ptable s)[p := (prc s p)\<lparr>p_chan := NoChan\<rparr>], curproc s, initproc s, nextpid s)"
  by (auto simp: sleep_wake_def myproc_def upd_proc_def kbind_eq_Inr_iff tview_def
      dest!: tview_keptD split: option.splits if_splits)

definition woken :: "chan \<Rightarrow> proc \<Rightarrow> proc" where
  "woken ch x = (if p_state x = SLEEPING \<and> p_chan x = ch then x\<lparr>p_state := RUNNABLE\<rparr> else x)"

lemma wakeup1_law: "wakeup1 ch s = Inr ((), s\<lparr>ptable := map (woken ch) (ptable s)\<rparr>)"
  by (simp add: wakeup1_def modify_def woken_def [abs_def])

lemma wakeup_law:
  "wakeup c ch s = Inr (u, s') \<Longrightarrow> tview s' = (map (woken ch) (ptable s), curproc s, initproc s, nextpid s)"
  by (auto simp: wakeup_def wakeup1_law kbind_eq_Inr_iff tview_def dest!: tview_keptD)

lemma kill_law:
  assumes "kill c pid s = Inr (r, s')"
  shows "tview s' = tview s \<or>
     (\<exists>p < NPROC. p_pid (prc s p) = pid \<and>
       tview s' = ((ptable s)[p := (prc s p)\<lparr>p_killed := True,
         p_state := if p_state (prc s p) = SLEEPING then RUNNABLE else p_state (prc s p)\<rparr>], curproc s, initproc s, nextpid s))"
proof -
  obtain u s1 where a: "acquire_lock c PTABLE_LOCK s = Inr (u, s1)"
    using assms by (auto simp: kill_def kbind_eq_Inr_iff)
  note k = assms [unfolded kill_def kbind_Inr [where m = "acquire_lock c PTABLE_LOCK", OF a]]
  have s1: "tview s1 = tview s" by (rule tview_keptD(1) [OF a])
  note t = tviewD [OF s1]
  show ?thesis
  proof (cases "find (\<lambda>p. p_pid (prc s1 p) = pid) [0..<NPROC]")
    case None
    then have "tview s' = tview s1" using k by (auto simp: kbind_eq_Inr_iff dest!: tview_keptD)
    then show ?thesis using s1 by simp
  next
    case (Some p)
    then have "p < NPROC" "p_pid (prc s p) = pid" using t by (auto dest!: find_SomeD)
    moreover have "tview s' = ((ptable s)[p := (prc s p)\<lparr>p_killed := True,
         p_state := if p_state (prc s p) = SLEEPING then RUNNABLE else p_state (prc s p)\<rparr>], curproc s, initproc s, nextpid s)"
      using k Some t by (auto simp: kbind_eq_Inr_iff upd_proc_def tview_def dest!: tview_keptD)
    ultimately show ?thesis by blast
  qed
qed

text \<open>The process table as the abstract machine sees it; \<open>mk\<close> are the entries being filled.\<close>

definition aslot_of :: "proc \<Rightarrow> aslot" where
  "aslot_of x = \<lparr>a_state = p_state x, a_pid = p_pid x, a_parent = p_parent x, a_chan = p_chan x\<rparr>"

definition table :: "'a proc_st_scheme \<Rightarrow> (nat \<Rightarrow> nat option) \<Rightarrow> atab" where
  "table s mk = \<lparr>slots = map aslot_of (ptable s), cur = curproc s, root = initproc s, next_pid = nextpid s, making = mk\<rparr>"

lemma table_fields [simp]:
  "cur (table s mk) = curproc s" "root (table s mk) = initproc s" "next_pid (table s mk) = nextpid s"
  "making (table s mk) = mk" "length (slots (table s mk)) = length (ptable s)"
  "p < length (ptable s) \<Longrightarrow> slots (table s mk) ! p = aslot_of (prc s p)"
  "(table s mk)\<lparr>making := mk'\<rparr> = table s mk'"
  by (simp_all add: table_def)

lemma aslot_of_fields [simp]:
  "a_state (aslot_of x) = p_state x" "a_pid (aslot_of x) = p_pid x" "a_parent (aslot_of x) = p_parent x" "a_chan (aslot_of x) = p_chan x"
  by (simp_all add: aslot_of_def)

lemma table_cong: "tview s' = tview s \<Longrightarrow> table s' mk = table s mk"
  by (simp add: tview_def table_def)

lemma table_upd:
  assumes "tview s' = ((ptable s)[p := x], cu, ini, nx)" "p < length (ptable s)" "aslot_of x = f (aslot_of (prc s p))"
  shows "table s' mk = (upd_slot p f (table s mk))\<lparr>cur := cu, root := ini, next_pid := nx\<rparr>"
  using assms by (simp add: table_def upd_slot_def tview_def map_update)

lemma upd_slot_same [simp]:
  "(upd_slot p f (table s mk))\<lparr>cur := curproc s, root := initproc s, next_pid := nextpid s\<rparr> = upd_slot p f (table s mk)"
  by (simp add: upd_slot_def table_def)

lemma kalloc_tview: "kept tview s (kalloc s)"
  by (intro tview_pview pview_mem kalloc_mrest)

lemma allocproc_law:
  assumes "allocproc c s = Inr (r, s')" "length (ptable s) = NPROC"
  shows "tview s' = tview s \<and> r = None \<or> (\<exists>p < NPROC. p_state (prc s p) = UNUSED \<and>
     (r = None \<and> (\<forall>mk. table s' mk = (upd_slot p (a_pid_update (\<lambda>_. nextpid s)) (table s mk))\<lparr>next_pid := nextpid s + 1\<rparr>) \<or>
      r = Some p \<and> (\<forall>mk. table s' mk =
        (upd_slot p (\<lambda>x. x\<lparr>a_state := EMBRYO, a_pid := nextpid s\<rparr>) (table s mk))\<lparr>next_pid := nextpid s + 1\<rparr>)))"
proof -
  obtain u s1 where a: "acquire_lock c PTABLE_LOCK s = Inr (u, s1)"
    using assms(1) by (auto simp: allocproc_def kbind_eq_Inr_iff)
  note k = assms(1) [unfolded allocproc_def kbind_Inr [where m = "acquire_lock c PTABLE_LOCK", OF a]]
  have s1: "tview s1 = tview s" by (rule tview_keptD(1) [OF a])
  note t = tviewD [OF s1]
  show ?thesis
  proof (cases "find (\<lambda>p. p_state (prc s1 p) = UNUSED) [0..<NPROC]")
    case None
    then have "tview s' = tview s1" "r = None" using k by (auto simp: kbind_eq_Inr_iff dest!: tview_keptD)
    then show ?thesis using s1 by simp
  next
    case (Some p)
    then have p: "p < NPROC" "p_state (prc s p) = UNUSED" using t by (auto dest!: find_SomeD)
    have "r = None \<and> (\<forall>mk. table s' mk = (upd_slot p (a_pid_update (\<lambda>_. nextpid s)) (table s mk))\<lparr>next_pid := nextpid s + 1\<rparr>) \<or>
      r = Some p \<and> (\<forall>mk. table s' mk =
        (upd_slot p (\<lambda>x. x\<lparr>a_state := EMBRYO, a_pid := nextpid s\<rparr>) (table s mk))\<lparr>next_pid := nextpid s + 1\<rparr>)"
      using k Some t p assms(2)
      by (auto simp: kbind_eq_Inr_iff upd_proc_def tview_def table_def upd_slot_def aslot_of_def map_update
        dest!: tview_keptD kalloc_tview [THEN keptD] split: if_splits)
    then show ?thesis using p by blast
  qed
qed

text \<open>\<open>tabv\<close>: the abstract table, without the entries being filled.\<close>

abbreviation tabv :: "'a proc_st_scheme \<Rightarrow> atab" where "tabv s \<equiv> table s (\<lambda>_. None)"

lemma table_tabv: "table s mk = (tabv s)\<lparr>making := mk\<rparr>"
  by simp

lemma tabv_tview: "kept tview s r \<Longrightarrow> kept tabv s r"
  by (erule kept_mono) (rule table_cong)

lemma tabv_length: "tabv s' = tabv s \<Longrightarrow> length (ptable s') = length (ptable s)"
  by (metis table_fields(5))

lemma table_upd_proc:
  assumes "\<And>x. aslot_of (g x) = f (aslot_of x)" "p < length (ptable s)" "upd_proc p g s = Inr (u, s')"
  shows "table s' mk = upd_slot p f (table s mk)"
  using assms by (auto simp: upd_proc_def table_def upd_slot_def map_update)

lemma upd_proc_tabv: "(\<And>x. aslot_of (g x) = aslot_of x) \<Longrightarrow> kept tabv s (upd_proc p g s)"
  by (auto simp: upd_proc_def kept_def table_def map_update simp flip: map_update)
    (metis list_update_id map_update)

lemma length_upd_proc: "upd_proc p g s = Inr (u, s') \<Longrightarrow> length (ptable s') = length (ptable s)"
  by (auto simp: upd_proc_def)

lemma fork_files_tabv: "kept tabv s (fork_files me np is s)"
proof (induction "is" arbitrary: s)
  case (Cons i "is")
  then show ?case unfolding fork_files.simps
    by (intro kept_rules filedup_pview [THEN tview_pview, THEN tabv_tview] upd_proc_tabv; simp add: aslot_of_def)
qed (simp add: kept_branches)

text \<open>Partial correctness of a piece of kernel code: \<open>wp Q r\<close> says that \<open>Q\<close> holds when it returns.\<close>

definition wp :: "('a \<Rightarrow> 's \<Rightarrow> bool) \<Rightarrow> stop + 'a \<times> 's \<Rightarrow> bool" where
  "wp Q r \<longleftrightarrow> (\<forall>x s'. r = Inr (x, s') \<longrightarrow> Q x s')"

lemma wpD: "wp Q r \<Longrightarrow> r = Inr (x, s') \<Longrightarrow> Q x s'"
  by (simp add: wp_def)

lemma wp_mono: "wp Q r \<Longrightarrow> (\<And>x s. Q x s \<Longrightarrow> R x s) \<Longrightarrow> wp R r"
  by (simp add: wp_def)

lemma wp_kbind: "wp (\<lambda>x s'. wp Q (k x s')) (m s) \<Longrightarrow> wp Q (kbind m k s)"
  by (auto simp: wp_def kbind_eq_Inr_iff)

lemma wp_kept: "kept f s (m s) \<Longrightarrow> (\<And>x s'. f s' = f s \<Longrightarrow> Q x s') \<Longrightarrow> wp Q (m s)"
  by (auto simp: wp_def kept_def)

lemma wp_basic [simp]:
  "wp Q (ret x s) = Q x s" "wp Q (gets f s) = Q (f s) s" "wp R (modify g s) = R () (g s)"
  "wp Q (Inl e)" "wp Q (Inr (x, s)) = Q x s" "wp Q (panic m s)"
  "wp Q (lift_opt z s) = (\<forall>v. z = Some v \<longrightarrow> Q v s)"
  by (auto simp: wp_def ret_def gets_def modify_def panic_def lift_opt_def split: option.splits)

lemma wp_if: "wp Q ((if b then m1 else m2) s) = (if b then wp Q (m1 s) else wp Q (m2 s))"
  by simp

lemma wp_then:
  "kept tabv s (m s) \<Longrightarrow> (\<And>x s'. tabv s' = tabv s \<Longrightarrow> wp Q (k x s')) \<Longrightarrow> wp Q (kbind m k s)"
  by (auto simp: wp_def kept_def kbind_eq_Inr_iff)

lemma wp_upd_then:
  assumes "\<And>x. aslot_of (g x) = f (aslot_of x)" "p < length (ptable s)"
    "\<And>s'. tabv s' = upd_slot p f (tabv s) \<Longrightarrow> wp Q (k () s')"
  shows "wp Q (kbind (upd_proc p g) k s)"
  unfolding wp_def kbind_eq_Inr_iff
proof (intro allI impI, elim exE conjE)
  fix x s' u s1
  assume "upd_proc p g s = Inr (u, s1)" "k u s1 = Inr (x, s')"
  then show "Q x s'" using assms(3) [of s1] table_upd_proc [where g = g and f = f, OF assms(1,2)] by (auto simp: wp_def)
qed

lemma wp_lift: "(\<And>v. z = Some v \<Longrightarrow> wp Q (k v s)) \<Longrightarrow> wp Q (kbind (lift_opt z) k s)"
  by (cases z) (simp_all add: wp_def kbind_def lift_opt_def)

lemma wp_myproc: "wp Q (myproc c s) = (\<forall>p. curproc s c = Some p \<longrightarrow> Q p s)"
  by (auto simp: wp_def myproc_def split: option.splits)

lemma tabv_eq: "tabv s' = upd_slot p f (tabv s) \<Longrightarrow> length (ptable s') = length (ptable s)"
  by (metis table_fields(5) upd_slot_fields(5))

lemma upd_slot_twice:
  "p < length (slots t) \<Longrightarrow> upd_slot p g (upd_slot p f t) = upd_slot p (\<lambda>x. g (f x)) t"
  by (simp add: upd_slot_def)

lemma copyuvm_tabv: "kept tabv s (copyuvm pgdir sz s)"
  by (intro tabv_tview tview_pview pview_mem copyuvm_mrest)

lemma kfree_tabv: "kept tabv s (kfree v s)"
  by (intro tabv_tview tview_pview pview_mem kfree_mrest)

lemma idup_tabv: "kept tabv s (idup ip s)"
  by (intro tabv_tview tview_pview idup_pview)

lemma fork_copy_law:
  assumes "length (ptable s) = NPROC" "np < NPROC" "curproc s c = Some me"
  shows "wp (\<lambda>r s'. tabv s' = upd_slot np (a_state_update (\<lambda>_. UNUSED)) (tabv s) \<or>
      tabv s' = upd_slot np (\<lambda>x. x\<lparr>a_parent := Some me, a_state := RUNNABLE\<rparr>) (tabv s)) (fork_copy c np s)"
proof -
  let ?x = "prc s me" and ?par = "\<lambda>x. x\<lparr>a_parent := Some me\<rparr>"
  have fail: "wp (\<lambda>r s'. tabv s' = upd_slot np (a_state_update (\<lambda>_. UNUSED)) (tabv s)) (kbind (kfree k) (\<lambda>_.
       kbind (upd_proc np (\<lambda>y. y\<lparr>p_kstack := 0, p_state := UNUSED\<rparr>)) (\<lambda>_. ret (- 1 :: int))) s1)"
    if "tabv s1 = tabv s" for s1 :: "'a file_st_scheme" and k
    apply (rule wp_then [OF kfree_tabv])
    apply (rule wp_upd_then [where f = "a_state_update (\<lambda>_. UNUSED)"])
    using that assms by (auto simp: aslot_of_def dest: tabv_length)
  have success: "wp (\<lambda>r s'. tabv s' = upd_slot np (\<lambda>x. x\<lparr>a_parent := Some me, a_state := RUNNABLE\<rparr>) (tabv s))
     (kbind (upd_proc np (\<lambda>y. y\<lparr>p_sz := p_sz ?x, p_parent := Some me, p_tf := (p_tf ?x)\<lparr>tf_eax := 0\<rparr>\<rparr>)) (\<lambda>_.
       kbind (fork_files me np [0..<NOFILE]) (\<lambda>_.
       kbind (lift_opt (p_cwd ?x)) (\<lambda>d.
       kbind (idup d) (\<lambda>d'.
       kbind (upd_proc np (p_cwd_update (\<lambda>_. Some d'))) (\<lambda>_.
       kbind (gets (\<lambda>s. p_pid (prc s np))) (\<lambda>pid.
       kbind (upd_proc np (p_state_update (\<lambda>_. RUNNABLE))) (\<lambda>_.
       kbind (gets (\<lambda>s. p_name (prc s np))) (\<lambda>old.
       kbind (lift_opt (safestrcpy old (p_name ?x) 16)) (\<lambda>nm.
       kbind (upd_proc np (p_name_update (\<lambda>_. nm))) (\<lambda>_. ret pid)))))))))) s1)"
    if "tabv s1 = tabv s" for s1 :: "'a file_st_scheme"
    apply (rule wp_upd_then [where f = ?par])
      apply (simp add: aslot_of_def)
    using that assms tabv_length [OF that] apply simp
    apply (rule wp_then [OF fork_files_tabv])
    apply (rule wp_lift)
    apply (rule wp_then [OF idup_tabv])
    apply (rule wp_then [OF upd_proc_tabv], simp add: aslot_of_def)
    apply (simp only: kbind_gets)
    apply (rule wp_upd_then [where f = "a_state_update (\<lambda>_. RUNNABLE)"])
      apply (simp add: aslot_of_def)
    using assms(1,2) tabv_length [OF that] apply (auto dest!: tabv_length tabv_eq) [1]
    apply (simp only: kbind_gets)
    apply (rule wp_lift)
    apply (rule wp_then [OF upd_proc_tabv], simp add: aslot_of_def)
    using that assms(1,2) by (simp add: upd_slot_twice)
  show ?thesis unfolding fork_copy_def
    apply (rule wp_kbind, simp add: wp_myproc assms(3))
    apply (rule wp_then [OF copyuvm_tabv])
    apply (rule wp_then [OF upd_proc_tabv], simp add: aslot_of_def)
    subgoal for pgdir s1 u s2
      using fail [of s2] success [of s2] by (cases "pgdir = 0") (simp_all add: wp_if, (blast intro: wp_mono)+)
    done
qed

text \<open>The loop of \<open>exit\<close> over the children.\<close>

definition adopted :: "nat \<Rightarrow> nat \<Rightarrow> bool \<Rightarrow> bool \<Rightarrow> aslot \<Rightarrow> aslot" where
  "adopted me rt z b x = x\<lparr>a_parent := if b \<and> a_parent x = Some me then Some rt else a_parent x,
     a_state := if z \<and> a_state x = SLEEPING \<and> a_chan x = ChanProc rt then RUNNABLE else a_state x\<rparr>"

definition zchild :: "nat \<Rightarrow> 'a proc_st_scheme \<Rightarrow> nat \<Rightarrow> bool" where
  "zchild me s p \<longleftrightarrow> p_parent (prc s p) = Some me \<and> p_state (prc s p) = ZOMBIE"

lemma reparent_law:
  assumes "distinct ps" "\<forall>p \<in> set ps. p < length (ptable s)"
  shows "\<exists>s'. reparent me ps s = Inr ((), s') \<and> curproc s' = curproc s \<and> initproc s' = initproc s \<and> nextpid s' = nextpid s
    \<and> lks s' = lks s \<and> length (ptable s') = length (ptable s) \<and> (\<forall>i < length (ptable s).
       aslot_of (prc s' i) = adopted me (initproc s) (\<exists>p \<in> set ps. zchild me s p) (i \<in> set ps) (aslot_of (prc s i)))"
  using assms
proof (induction ps arbitrary: s)
  case Nil
  then show ?case by (simp add: ret_def adopted_def aslot_of_def)
next
  case (Cons p ps)
  let ?s1 = "if p_parent (prc s p) = Some me then
      (let t = s\<lparr>ptable := (ptable s)[p := (prc s p)\<lparr>p_parent := Some (initproc s)\<rparr>]\<rparr> in
       if p_state (prc s p) = ZOMBIE then t\<lparr>ptable := map (woken (ChanProc (initproc s))) (ptable t)\<rparr> else t) else s"
  have p: "p < length (ptable s)" "p \<notin> set ps" using Cons.prems by auto
  have run: "reparent me (p # ps) s = reparent me ps ?s1"
    using p(1) by (auto simp: kbind_def upd_proc_def modify_def wakeup1_law Let_def)
  have slot1: "aslot_of (prc ?s1 i) = adopted me (initproc s) (zchild me s p) (i = p) (aslot_of (prc s i))" if "i < length (ptable s)" for i
    using that p(1) by (auto simp: Let_def zchild_def adopted_def aslot_of_def woken_def nth_list_update)
  have len: "length (ptable ?s1) = length (ptable s)" by (simp add: Let_def)
  have z: "zchild me ?s1 q = zchild me s q" if "q \<in> set ps" for q
  proof -
    have "q < length (ptable s)" "q \<noteq> p" using that Cons.prems p(2) by auto
    from slot1 [OF this(1)] this(2) show ?thesis by (auto simp: zchild_def adopted_def aslot_of_def split: if_splits)
  qed
  obtain s' where s': "reparent me ps ?s1 = Inr ((), s')" "curproc s' = curproc ?s1" "initproc s' = initproc ?s1" "nextpid s' = nextpid ?s1"
    "lks s' = lks ?s1" "length (ptable s') = length (ptable ?s1)"
    "\<forall>i < length (ptable ?s1). aslot_of (prc s' i) =
       adopted me (initproc ?s1) (\<exists>p \<in> set ps. zchild me ?s1 p) (i \<in> set ps) (aslot_of (prc ?s1 i))"
    using Cons.IH [of ?s1] Cons.prems len by auto
  have same: "curproc ?s1 = curproc s" "initproc ?s1 = initproc s" "nextpid ?s1 = nextpid s" "lks ?s1 = lks s" by (simp_all add: Let_def)
  have "aslot_of (prc s' i) = adopted me (initproc s) (\<exists>p \<in> set (p # ps). zchild me s p) (i \<in> set (p # ps)) (aslot_of (prc s i))"
    if i: "i < length (ptable s)" for i
  proof -
    have "(\<exists>p \<in> set ps. zchild me ?s1 p) = (\<exists>p \<in> set ps. zchild me s p)" using z by blast
    then have "aslot_of (prc s' i) = adopted me (initproc s) (\<exists>p \<in> set ps. zchild me s p) (i \<in> set ps)
        (adopted me (initproc s) (zchild me s p) (i = p) (aslot_of (prc s i)))"
      using s'(7) i len same(2) slot1 [OF i] by simp
    also have "\<dots> = adopted me (initproc s) (\<exists>p \<in> set (p # ps). zchild me s p) (i \<in> set (p # ps)) (aslot_of (prc s i))"
      using p(2) by (auto simp: adopted_def)
    finally show ?thesis .
  qed
  then show ?case using run s'(1-6) len same by auto
qed

lemma table_eqI:
  assumes "length (ptable s') = length (ptable s)" "curproc s' = curproc s" "initproc s' = initproc s" "nextpid s' = nextpid s"
    "length xs = length (ptable s)" "\<And>i. i < length (ptable s) \<Longrightarrow> aslot_of (prc s' i) = xs ! i"
  shows "table s' mk = (table s mk)\<lparr>slots := xs\<rparr>"
proof -
  have "map aslot_of (ptable s') = xs" by (rule nth_equalityI) (use assms in auto)
  then show ?thesis using assms(2-4) by (simp add: table_def)
qed

lemma exit_slot_parts:
  "exit_slot me par rt z i x = (let y = adopted me rt z True (a_woken par x) in if i = me then y\<lparr>a_state := ZOMBIE\<rparr> else y)"
  by (cases x) (auto simp: exit_slot_def adopted_def a_woken_def Let_def)

lemma exit_zombie_law:
  assumes "exit_zombie c me s = Inr (ie, s')" "length (ptable s) = NPROC" "me < NPROC"
  shows "table s' mk = (table s mk)\<lparr>slots := a_exit me (parent_chan (p_parent (prc s me))) (initproc s) (slots (table s mk))\<rparr>"
proof -
  obtain u s1 where a: "acquire_lock c PTABLE_LOCK s = Inr (u, s1)"
    using assms(1) by (auto simp: exit_zombie_def kbind_eq_Inr_iff)
  note t = tviewD [OF tview_keptD(1) [OF a]]
  let ?par = "parent_chan (p_parent (prc s me))"
  let ?s2 = "s1\<lparr>ptable := map (woken ?par) (ptable s1)\<rparr>"
  obtain s3 where s3: "reparent me [0..<NPROC] ?s2 = Inr ((), s3)" "curproc s3 = curproc ?s2" "initproc s3 = initproc ?s2"
    "nextpid s3 = nextpid ?s2" "length (ptable s3) = NPROC" "\<forall>i < NPROC. aslot_of (prc s3 i) =
       adopted me (initproc ?s2) (\<exists>p \<in> set [0..<NPROC]. zchild me ?s2 p) (i \<in> set [0..<NPROC]) (aslot_of (prc ?s2 i))"
    using reparent_law [of "[0..<NPROC]" ?s2 me] t assms(2) by auto
  let ?s4 = "s3\<lparr>ptable := (ptable s3)[me := (prc s3 me)\<lparr>p_state := ZOMBIE\<rparr>]\<rparr>"
  have "sched_enter c ?s4 = Inr (ie, s')"
    using assms(1) a t s3(1) by (simp add: exit_zombie_def kbind_def gets_def wakeup1_law upd_proc_def modify_def)
  then have s': "tview s' = tview ?s4" by (rule tview_keptD)
  have zc: "zchild me ?s2 p \<longleftrightarrow> a_parent (slots (table s mk) ! p) = Some me \<and> a_state (slots (table s mk) ! p) = ZOMBIE" if "p < NPROC" for p
    using that t assms(2) by (auto simp: zchild_def woken_def)
  have z: "(\<exists>p \<in> set [0..<NPROC]. zchild me ?s2 p) = has_zombie me (slots (table s mk))"
    unfolding has_zombie_iff using zc assms(2) by (metis atLeastLessThan_upt atLeast0LessThan lessThan_iff table_fields(5))
  have "aslot_of (prc s' i) = a_exit me ?par (initproc s) (slots (table s mk)) ! i" if i: "i < NPROC" for i
  proof -
    have "aslot_of (prc ?s2 i) = a_woken ?par (aslot_of (prc s i))"
      using i t assms(2) by (simp add: woken_def a_woken_def aslot_of_def)
    then have "aslot_of (prc s3 i) = adopted me (initproc s) (has_zombie me (slots (table s mk))) True (a_woken ?par (aslot_of (prc s i)))"
      using s3(6) i t unfolding z by simp
    moreover have "aslot_of (prc s' i) = (if i = me then (aslot_of (prc s3 i))\<lparr>a_state := ZOMBIE\<rparr> else aslot_of (prc s3 i))"
      using s' i s3(5) assms(3) by (simp add: tview_def nth_list_update aslot_of_def)
    ultimately show ?thesis using i assms(2) by (cases "i = me") (simp_all add: exit_slot_parts)
  qed
  then show ?thesis using s' s3(2-5) t assms(2) by (intro table_eqI) (simp_all add: tview_def)
qed

lemma freevm_tabv: "kept tabv s (freevm pgdir s)"
  by (intro tabv_tview tview_pview pview_mem freevm_mrest)

abbreviation reaped :: "aslot \<Rightarrow> aslot" where
  "reaped x \<equiv> x\<lparr>a_state := UNUSED, a_pid := 0, a_parent := None\<rparr>"

lemma reap_law:
  assumes "p < length (ptable s)"
  shows "wp (\<lambda>pid s'. pid = p_pid (prc s p) \<and> tabv s' = upd_slot p reaped (tabv s)) (reap p s)"
  unfolding reap_def
  apply (simp only: kbind_gets)
  apply (rule wp_then [OF kfree_tabv])
  apply (rule wp_then [OF upd_proc_tabv], simp add: aslot_of_def)
  apply (rule wp_then [OF freevm_tabv])
  apply (rule wp_upd_then [where f = reaped])
    apply (simp add: aslot_of_def)
  using assms by (auto dest!: tabv_length)

lemma wait_scan_law:
  assumes "wait_scan me hk ps s = Inr ((r, k), s')" "\<forall>p \<in> set ps. p < length (ptable s)"
  shows "r = None \<and> s' = s \<and> (\<forall>p \<in> set ps. \<not> zchild me s p) \<or>
    (\<exists>p \<in> set ps. zchild me s p \<and> r = Some (p_pid (prc s p)) \<and> tabv s' = upd_slot p reaped (tabv s))"
  using assms
proof (induction ps arbitrary: hk)
  case Nil
  then show ?case by simp
next
  case (Cons p ps)
  show ?case
  proof (cases "zchild me s p")
    case True
    then have "kbind (reap p) (\<lambda>pid. ret (Some pid, True)) s = Inr ((r, k), s')"
      using Cons.prems(1) by (simp add: zchild_def)
    then obtain pid where "reap p s = Inr (pid, s')" "r = Some pid" by (auto simp: kbind_eq_Inr_iff)
    then have "r = Some (p_pid (prc s p))" "tabv s' = upd_slot p reaped (tabv s)"
      using wpD [OF reap_law [of p s]] Cons.prems(2) by auto
    then show ?thesis using True by auto
  next
    case False
    then have "\<exists>hk'. wait_scan me hk' ps s = Inr ((r, k), s')"
      using Cons.prems(1) by (auto simp: zchild_def split: if_splits)
    then show ?thesis using Cons.IH Cons.prems(2) False by auto
  qed
qed

lemma wait_body_law:
  assumes "wait_body c s = Inr (res, s')" "curproc s c = Some me" "length (ptable s) = NPROC" "me < NPROC"
  shows "case res of
      WaitRet r \<Rightarrow> tabv s' = tabv s \<or> (\<exists>p < NPROC. zchild me s p \<and> r = p_pid (prc s p) \<and> tabv s' = upd_slot p reaped (tabv s))
    | WaitSleep ie \<Rightarrow> (\<forall>p < NPROC. \<not> zchild me s p) \<and>
        tabv s' = upd_slot me (\<lambda>x. x\<lparr>a_chan := ChanProc me, a_state := SLEEPING\<rparr>) (tabv s)"
proof -
  have "myproc c s = Inr (me, s)" using assms(2) by (simp add: myproc_def)
  note b = assms(1) [unfolded wait_body_def kbind_Inr [where m = "myproc c", OF this]]
  then obtain r k s1 where sc: "wait_scan me False [0..<NPROC] s = Inr ((r, k), s1)"
    by (auto simp: kbind_eq_Inr_iff)
  note b2 = b [unfolded kbind_Inr [where m = "wait_scan me False [0..<NPROC]", OF sc] prod.case]
  from wait_scan_law [OF sc] assms(3) consider (none) "r = None" "s1 = s" "\<forall>p < NPROC. \<not> zchild me s p"
    | (some) p where "p < NPROC" "zchild me s p" "r = Some (p_pid (prc s p))" "tabv s1 = upd_slot p reaped (tabv s)"
    by fastforce
  then show ?thesis
  proof cases
    case none
    show ?thesis
    proof (cases "\<not> k \<or> p_killed (prc s me)")
      case True
      then show ?thesis using b2 none by (auto simp: kbind_eq_Inr_iff dest!: tview_keptD table_cong)
    next
      case False
      then obtain ie where ie: "sleep_enter c (ChanProc me) PTABLE_LOCK s = Inr (ie, s')" "res = WaitSleep ie"
        using b2 none by (auto simp: kbind_eq_Inr_iff)
      from sleep_enter_law [OF ie(1)] assms(2)
      have "tview s' = ((ptable s)[me := (prc s me)\<lparr>p_chan := ChanProc me, p_state := SLEEPING\<rparr>], curproc s, initproc s, nextpid s)"
        by auto
      from table_upd [OF this, of "\<lambda>x. x\<lparr>a_chan := ChanProc me, a_state := SLEEPING\<rparr>"] assms(3,4)
      show ?thesis using ie(2) none(3) by (simp add: aslot_of_def)
    qed
  next
    case (some p)
    then have "tabv s' = tabv s1" "res = WaitRet (p_pid (prc s p))"
      using b2 by (auto simp: kbind_eq_Inr_iff dest!: tview_keptD table_cong [where mk = "\<lambda>_. None"])
    then show ?thesis using some by auto
  qed
qed

subsection \<open>The CPUs\<close>

text \<open>
  Where a process goes on when it is picked, what a CPU is doing, and how far a process is in the
  kernel: in user mode or in code without locks, in a critical section of one lock, filling the
  entry of a child, or about to take a lock again after \<open>sleep\<close>.
\<close>

datatype resume = RFork | RYield bool | RSleep bool nat | RWait bool

datatype cpu_phase = Out | Scan | Resume | Run

datatype pmode = User | Crit nat | Forking nat | Relock nat

record psys =
  ks :: file_st
  phs :: "nat \<Rightarrow> cpu_phase"
  conts :: "nat \<Rightarrow> resume"
  modes :: "nat \<Rightarrow> pmode"

inductive pstep :: "psys \<Rightarrow> psys \<Rightarrow> bool" where
  enter: "phs y c = Out \<Longrightarrow> scheduler_enter c (ks y) = Inr (u, s) \<Longrightarrow>
    pstep y (y\<lparr>ks := s, phs := (phs y)(c := Scan)\<rparr>)"
| leave: "phs y c = Scan \<Longrightarrow> scheduler_leave c (ks y) = Inr (u, s) \<Longrightarrow>
    pstep y (y\<lparr>ks := s, phs := (phs y)(c := Out)\<rparr>)"
| pick: "phs y c = Scan \<Longrightarrow> p < NPROC \<Longrightarrow> scheduler_pick c p (ks y) = Inr (True, s) \<Longrightarrow>
    pstep y (y\<lparr>ks := s, phs := (phs y)(c := Resume)\<rparr>)"
| start: "phs y c = Resume \<Longrightarrow> curproc (ks y) c = Some p \<Longrightarrow> conts y p = RFork \<Longrightarrow> forkret c (ks y) = Inr (u, s) \<Longrightarrow>
    pstep y (y\<lparr>ks := s, phs := (phs y)(c := Run)\<rparr>)"
| resume_yield: "phs y c = Resume \<Longrightarrow> curproc (ks y) c = Some p \<Longrightarrow> conts y p = RYield ie \<Longrightarrow> yield_return c ie (ks y) = Inr (u, s) \<Longrightarrow>
    pstep y (y\<lparr>ks := s, phs := (phs y)(c := Run)\<rparr>)"
| resume_sleep: "phs y c = Resume \<Longrightarrow> curproc (ks y) c = Some p \<Longrightarrow> conts y p = RSleep ie lk \<Longrightarrow> sleep_wake c ie lk (ks y) = Inr (u, s) \<Longrightarrow>
    pstep y (y\<lparr>ks := s, phs := (phs y)(c := Run)\<rparr>)"
| resume_wait: "phs y c = Resume \<Longrightarrow> curproc (ks y) c = Some p \<Longrightarrow> conts y p = RWait ie \<Longrightarrow> wait_resume c ie (ks y) = Inr (WaitRet r, s) \<Longrightarrow>
    pstep y (y\<lparr>ks := s, phs := (phs y)(c := Run)\<rparr>)"
| resume_wait_again: "phs y c = Resume \<Longrightarrow> curproc (ks y) c = Some p \<Longrightarrow> conts y p = RWait ie \<Longrightarrow> modes y p = User \<Longrightarrow>
    wait_resume c ie (ks y) = Inr (WaitSleep ie', s) \<Longrightarrow> scheduler_back c s = Inr (v, s') \<Longrightarrow>
    pstep y (y\<lparr>ks := s', phs := (phs y)(c := Scan), conts := (conts y)(p := RWait ie')\<rparr>)"
| relock: "phs y c = Run \<Longrightarrow> curproc (ks y) c = Some p \<Longrightarrow> modes y p = Relock lk \<Longrightarrow> acquire_lock c lk (ks y) = Inr (u, s) \<Longrightarrow>
    pstep y (y\<lparr>ks := s, modes := (modes y)(p := Crit lk)\<rparr>)"
| lock: "phs y c = Run \<Longrightarrow> curproc (ks y) c = Some p \<Longrightarrow> modes y p = User \<Longrightarrow> lk \<noteq> PTABLE_LOCK \<Longrightarrow>
    acquire_lock c lk (ks y) = Inr (u, s) \<Longrightarrow> pstep y (y\<lparr>ks := s, modes := (modes y)(p := Crit lk)\<rparr>)"
| unlock: "phs y c = Run \<Longrightarrow> curproc (ks y) c = Some p \<Longrightarrow> modes y p = Crit lk \<Longrightarrow> release_lock c lk (ks y) = Inr (u, s) \<Longrightarrow>
    pstep y (y\<lparr>ks := s, modes := (modes y)(p := User)\<rparr>)"
| yield: "phs y c = Run \<Longrightarrow> curproc (ks y) c = Some p \<Longrightarrow> yield_enter c (ks y) = Inr (ie, s) \<Longrightarrow> scheduler_back c s = Inr (v, s') \<Longrightarrow>
    pstep y (y\<lparr>ks := s', phs := (phs y)(c := Scan), conts := (conts y)(p := RYield ie)\<rparr>)"
| sleep: "phs y c = Run \<Longrightarrow> curproc (ks y) c = Some p \<Longrightarrow> modes y p = Crit lk \<Longrightarrow> (\<And>q. ch \<noteq> ChanProc q) \<Longrightarrow>
    sleep_enter c ch lk (ks y) = Inr (ie, s) \<Longrightarrow> scheduler_back c s = Inr (v, s') \<Longrightarrow>
    pstep y (y\<lparr>ks := s', phs := (phs y)(c := Scan), conts := (conts y)(p := RSleep ie lk), modes := (modes y)(p := Relock lk)\<rparr>)"
| wait: "phs y c = Run \<Longrightarrow> curproc (ks y) c = Some p \<Longrightarrow> modes y p = User \<Longrightarrow> wait c (ks y) = Inr (WaitRet r, s) \<Longrightarrow>
    pstep y (y\<lparr>ks := s\<rparr>)"
| wait_sleep: "phs y c = Run \<Longrightarrow> curproc (ks y) c = Some p \<Longrightarrow> modes y p = User \<Longrightarrow> wait c (ks y) = Inr (WaitSleep ie, s) \<Longrightarrow>
    scheduler_back c s = Inr (v, s') \<Longrightarrow>
    pstep y (y\<lparr>ks := s', phs := (phs y)(c := Scan), conts := (conts y)(p := RWait ie)\<rparr>)"
| waken: "wakeup c ch (ks y) = Inr (u, s) \<Longrightarrow> pstep y (y\<lparr>ks := s\<rparr>)"
| killed: "kill c pid (ks y) = Inr (r, s) \<Longrightarrow> pstep y (y\<lparr>ks := s\<rparr>)"
| alloc: "phs y c = Run \<Longrightarrow> curproc (ks y) c = Some p \<Longrightarrow> modes y p = User \<Longrightarrow> allocproc c (ks y) = Inr (Some np, s) \<Longrightarrow>
    pstep y (y\<lparr>ks := s, modes := (modes y)(p := Forking np)\<rparr>)"
| alloc_none: "phs y c = Run \<Longrightarrow> allocproc c (ks y) = Inr (None, s) \<Longrightarrow> pstep y (y\<lparr>ks := s\<rparr>)"
| copy: "phs y c = Run \<Longrightarrow> curproc (ks y) c = Some p \<Longrightarrow> modes y p = Forking np \<Longrightarrow> fork_copy c np (ks y) = Inr (r, s) \<Longrightarrow>
    pstep y (y\<lparr>ks := s, modes := (modes y)(p := User, np := User), conts := (conts y)(np := RFork)\<rparr>)"
| exit: "phs y c = Run \<Longrightarrow> curproc (ks y) c = Some p \<Longrightarrow> modes y p = User \<Longrightarrow> p \<noteq> initproc (ks y) \<Longrightarrow>
    exit_zombie c p (ks y) = Inr (ie, s) \<Longrightarrow> scheduler_back c s = Inr (v, s') \<Longrightarrow>
    pstep y (y\<lparr>ks := s', phs := (phs y)(c := Scan)\<rparr>)"
| other: "tabv s = tabv (ks y) \<Longrightarrow> lks s = lks (ks y) \<Longrightarrow> pstep y (y\<lparr>ks := s\<rparr>)"

definition filling :: "psys \<Rightarrow> nat \<Rightarrow> nat option" where
  "filling y q = (case modes y q of Forking p \<Rightarrow> Some p | _ \<Rightarrow> None)"

definition abs_tab :: "psys \<Rightarrow> atab" where
  "abs_tab y = table (ks y) (filling y)"

definition ph_inv :: "psys \<Rightarrow> bool" where
  "ph_inv y \<longleftrightarrow> (\<forall>c. curproc (ks y) c = None \<longleftrightarrow> phs y c \<in> {Out, Scan})"

text \<open>Every step of a CPU is some steps of the abstract machine.\<close>

lemma filling_upd [simp]:
  "filling (y\<lparr>ks := s\<rparr>) = filling y" "filling (y\<lparr>ks := s, phs := f\<rparr>) = filling y" "filling (y\<lparr>ks := s, phs := f, conts := g\<rparr>) = filling y"
  "filling (y\<lparr>ks := s, modes := (modes y)(p := Crit lk)\<rparr>) = (filling y)(p := None)"
  "filling (y\<lparr>ks := s, modes := (modes y)(p := User)\<rparr>) = (filling y)(p := None)"
  "filling (y\<lparr>ks := s, modes := (modes y)(p := Forking np)\<rparr>) = (filling y)(p := Some np)"
  "filling (y\<lparr>ks := s, phs := f, conts := g, modes := (modes y)(p := Relock lk)\<rparr>) = (filling y)(p := None)"
  "filling (y\<lparr>ks := s, modes := (modes y)(p := User, np := User), conts := g\<rparr>) = (filling y)(p := None, np := None)"
  by (auto simp: filling_def fun_eq_iff)

lemma filling_None [simp]:
  "modes y p = User \<Longrightarrow> filling y p = None" "modes y p = Crit lk \<Longrightarrow> filling y p = None" "modes y p = Relock lk \<Longrightarrow> filling y p = None"
  "modes y p = Forking np \<Longrightarrow> filling y p = Some np"
  by (simp_all add: filling_def)

lemma abs_tab_fields [simp]:
  "cur (abs_tab y) = curproc (ks y)" "root (abs_tab y) = initproc (ks y)" "next_pid (abs_tab y) = nextpid (ks y)"
  "making (abs_tab y) = filling y" "slots (abs_tab y) = map aslot_of (ptable (ks y))"
  by (simp_all add: abs_tab_def table_def)

lemma switch_out_table:
  assumes "tview s = ((ptable s0)[p := x], curproc s0, initproc s0, nextpid s0)" "scheduler_back c s = Inr (v, s')"
    "p < length (ptable s0)" "aslot_of x = f (aslot_of (prc s0 p))"
  shows "table s' mk = switch_out c p f (table s0 mk)" "curproc s' = (curproc s0)(c := None)"
  using assms(1,3,4) scheduler_back_law [OF assms(2)]
  by (simp_all add: table_def switch_out_def upd_slot_def tview_def map_update)

lemma table_upd_cur:
  assumes "tview s' = ((ptable s)[p := x], cu, initproc s, nextpid s)" "p < length (ptable s)" "aslot_of x = f (aslot_of (prc s p))"
  shows "table s' mk = (upd_slot p f (table s mk))\<lparr>cur := cu\<rparr>" "curproc s' = cu"
  using assms by (simp_all add: table_def upd_slot_def tview_def map_update)

lemma upd_slot_cur [simp]: "(upd_slot p f (table s mk))\<lparr>cur := curproc s\<rparr> = upd_slot p f (table s mk)"
  by (simp add: upd_slot_def table_def)

lemma table_of_tabv:
  "tabv s' = upd_slot p f (tabv s) \<Longrightarrow> table s' mk = (upd_slot p f (table s mk'))\<lparr>making := mk\<rparr>"
  by (simp add: table_def upd_slot_def)

text \<open>A \<open>wait\<close> that returns or sleeps, as steps of the abstract machine.\<close>

lemma wait_ret_steps:
  assumes "wait_body c s = Inr (WaitRet r, s')" "curproc s c = Some me" "length (ptable s) = NPROC" "me < NPROC"
  shows "astep\<^sup>*\<^sup>* (table s mk) (table s' mk) \<and> curproc s' = curproc s"
proof -
  from wait_body_law [OF assms] consider "tabv s' = tabv s"
    | p where "p < NPROC" "zchild me s p" "tabv s' = upd_slot p reaped (tabv s)" by auto
  then show ?thesis
  proof cases
    case 1
    have "cur (tabv s') = cur (tabv s)" unfolding 1 by simp
    moreover have "table s' mk = table s mk" using 1 by (simp add: table_def)
    ultimately show ?thesis by simp
  next
    case (2 p)
    have "cur (tabv s') = cur (tabv s)" unfolding 2(3) by simp
    moreover have "table s' mk = upd_slot p reaped (table s mk)" using 2(3) by (simp add: table_def upd_slot_def)
    moreover have "astep (table s mk) (upd_slot p reaped (table s mk))"
      by (rule astep.a_reap [of _ c me]) (use 2 assms in \<open>auto simp: zchild_def\<close>)
    ultimately show ?thesis by (simp add: r_into_rtranclp)
  qed
qed

lemma wait_sleep_steps:
  assumes "wait_body c s = Inr (WaitSleep ie, s1)" "curproc s c = Some me" "length (ptable s) = NPROC" "me < NPROC" "mk me = None"
    "scheduler_back c s1 = Inr (v, s')"
  shows "astep (table s mk) (table s' mk) \<and> curproc s' = (curproc s)(c := None)"
proof -
  let ?f = "\<lambda>x. x\<lparr>a_chan := ChanProc me, a_state := SLEEPING\<rparr>"
  from wait_body_law [OF assms(1-4)] have z: "\<forall>p < NPROC. \<not> zchild me s p" and t: "tabv s1 = upd_slot me ?f (tabv s)" by auto
  have "cur (tabv s1) = cur (tabv s)" unfolding t by simp
  then have c: "curproc s' = (curproc s)(c := None)" using scheduler_back_law [OF assms(6)] by (simp add: tview_def)
  have "\<not> has_zombie me (slots (table s mk))" using z assms(3) by (auto simp: has_zombie_iff zchild_def)
  from astep.a_wait [OF _ _ this, of c] have "astep (table s mk) (switch_out c me ?f (table s mk))" using assms(2,5) by simp
  moreover have "table s' mk = switch_out c me ?f (table s mk)"
    using t scheduler_back_law [OF assms(6)] c by (simp add: table_def upd_slot_def switch_out_def tview_def)
  ultimately show ?thesis using c by simp
qed

lemma adopt_order: "(\<lambda>x :: aslot. x\<lparr>a_parent := Some p, a_state := RUNNABLE\<rparr>) = (\<lambda>x. x\<lparr>a_state := RUNNABLE, a_parent := Some p\<rparr>)"
proof
  fix x :: aslot
  show "x\<lparr>a_parent := Some p, a_state := RUNNABLE\<rparr> = x\<lparr>a_state := RUNNABLE, a_parent := Some p\<rparr>" by (cases x) simp
qed

lemma pstep_astep:
  assumes "pstep y y'" "ph_inv y" "table_inv (abs_tab y)"
  shows "ph_inv y' \<and> astep\<^sup>*\<^sup>* (abs_tab y) (abs_tab y')"
proof -
  have len: "length (ptable (ks y)) = NPROC" and cur: "\<And>c p. curproc (ks y) c = Some p \<Longrightarrow> p < NPROC"
    using assms(3) cpu_invD(1,3) [of "abs_tab y"] by (auto simp: table_inv_def)
  have ph: "curproc (ks y) c = None \<longleftrightarrow> phs y c \<in> {Out, Scan}" for c using assms(2) by (simp add: ph_inv_def)
  have upd: "filling y p = None \<Longrightarrow> (filling y)(p := None) = filling y" for p by (simp add: fun_upd_idem)
  have keep: "ph_inv y'' \<and> astep\<^sup>*\<^sup>* (abs_tab y) (abs_tab y'')"
    if "tview (ks y'') = tview (ks y)" "filling y'' = filling y" "\<And>c. phs y'' c \<in> {Out, Scan} \<longleftrightarrow> phs y c \<in> {Out, Scan}" for y''
    using that ph tviewD [OF that(1)] table_cong [OF that(1), of "filling y"] by (simp add: ph_inv_def abs_tab_def)
  have woke: "curproc s1 = curproc (ks y) \<and> length (ptable s1) = NPROC \<and> astep (table (ks y) (filling y)) (table s1 (filling y))"
    if a: "sleep_wake c ie lk (ks y) = Inr (u, s1)" "curproc (ks y) c = Some p" for c ie lk u s1 p
  proof -
    from sleep_wake_law [OF a(1)] a(2) have
      l: "tview s1 = ((ptable (ks y))[p := (prc (ks y) p)\<lparr>p_chan := NoChan\<rparr>], curproc (ks y), initproc (ks y), nextpid (ks y))" by auto
    have "table s1 (filling y) = upd_slot p (a_chan_update (\<lambda>_. NoChan)) (table (ks y) (filling y))"
      using table_upd_cur [OF l, of "a_chan_update (\<lambda>_. NoChan)"] cur [OF a(2)] len by (simp add: aslot_of_def)
    then show ?thesis using l len a(2) astep.a_awake [of "table (ks y) (filling y)" c p] by (simp add: tview_def)
  qed
  show ?thesis using assms(1)
  proof cases
    case (enter c u s)
    show ?thesis unfolding enter(1)
      by (rule keep) (use enter keptD [OF scheduler_enter_tview enter(3)] in auto)
  next
    case (leave c u s)
    show ?thesis unfolding leave(1)
      by (rule keep) (use leave keptD [OF scheduler_leave_tview leave(3)] in auto)
  next
    case (start c p u s)
    show ?thesis unfolding start(1)
      by (rule keep) (use start keptD [OF forkret_tview start(5)] in auto)
  next
    case (resume_yield c p ie u s)
    show ?thesis unfolding resume_yield(1)
      by (rule keep) (use resume_yield keptD [OF yield_return_tview resume_yield(5)] in auto)
  next
    case (relock c p lk u s)
    show ?thesis unfolding relock(1)
      by (rule keep) (use relock upd [of p] keptD [OF locks_tview(1) relock(5)] in auto)
  next
    case (lock c p lk u s)
    show ?thesis unfolding lock(1)
      by (rule keep) (use lock upd [of p] keptD [OF locks_tview(1) lock(6)] in auto)
  next
    case (unlock c p lk u s)
    show ?thesis unfolding unlock(1)
      by (rule keep) (use unlock upd [of p] keptD [OF locks_tview(2) unlock(5)] in auto)
  next
    case (other s)
    then have "table s (filling y) = table (ks y) (filling y)" "curproc s = curproc (ks y)"
      by (metis table_fields(7), metis table_fields(1))
    then show ?thesis using ph other(1) by (simp add: ph_inv_def abs_tab_def)
  next
    case (pick c p s)
    note l = scheduler_pick_law [OF pick(4)]
    have "abs_tab y' = (upd_slot p (a_state_update (\<lambda>_. RUNNING)) (abs_tab y))\<lparr>cur := (cur (abs_tab y))(c := Some p)\<rparr>"
      "curproc s = (curproc (ks y))(c := Some p)"
      using table_upd_cur [OF conjunct2 [OF l], of "a_state_update (\<lambda>_. RUNNING)"] pick(1,3) len by (simp_all add: abs_tab_def aslot_of_def)
    moreover have "astep (abs_tab y) ((upd_slot p (a_state_update (\<lambda>_. RUNNING)) (abs_tab y))\<lparr>cur := (cur (abs_tab y))(c := Some p)\<rparr>)"
      by (rule astep.a_pick) (use l pick(2,3) ph [of c] len in auto)
    ultimately show ?thesis using ph pick(1) by (auto simp: ph_inv_def)
  next
    case (resume_sleep c p ie lk u s)
    show ?thesis using woke [OF resume_sleep(5,3)] ph resume_sleep(1,2) by (auto simp: ph_inv_def abs_tab_def)
  next
    case (resume_wait c p ie r s)
    obtain s1 where a: "sleep_wake c ie PTABLE_LOCK (ks y) = Inr ((), s1)" "wait_body c s1 = Inr (WaitRet r, s)"
      using resume_wait(5) by (auto simp: wait_resume_def sleep_return_def kbind_eq_Inr_iff)
    note w = woke [OF a(1) resume_wait(3)]
    from wait_ret_steps [OF a(2), of p "filling y"] w show ?thesis
      using resume_wait(1-3) cur [OF resume_wait(3)] ph by (auto simp: ph_inv_def abs_tab_def)
  next
    case (resume_wait_again c p ie ie' s v s')
    obtain s1 where a: "sleep_wake c ie PTABLE_LOCK (ks y) = Inr ((), s1)" "wait_body c s1 = Inr (WaitSleep ie', s)"
      using resume_wait_again(6) by (auto simp: wait_resume_def sleep_return_def kbind_eq_Inr_iff)
    note w = woke [OF a(1) resume_wait_again(3)]
    from wait_sleep_steps [OF a(2), of p "filling y", OF _ _ _ _ resume_wait_again(7)] w show ?thesis
      using resume_wait_again(1-5) cur [OF resume_wait_again(3)] ph by (auto simp: ph_inv_def abs_tab_def)
  next
    case (yield c p ie s v s')
    from yield_enter_law [OF yield(4)] yield(3) have l: "tview s = ((ptable (ks y))[p := (prc (ks y) p)\<lparr>p_state := RUNNABLE\<rparr>], curproc (ks y), initproc (ks y), nextpid (ks y))"
      by auto
    have "abs_tab y' = switch_out c p (a_state_update (\<lambda>_. RUNNABLE)) (abs_tab y)" "curproc s' = (curproc (ks y))(c := None)"
      using switch_out_table [OF l yield(5), of "a_state_update (\<lambda>_. RUNNABLE)"] yield(1) cur [OF yield(3)] len by (simp_all add: abs_tab_def aslot_of_def)
    then show ?thesis using ph yield(1) astep.a_yield [of "abs_tab y" c p] yield(3) by (auto simp: ph_inv_def)
  next
    case (sleep c p lk ch ie s v s')
    from sleep_enter_law [OF sleep(6)] sleep(3) have l: "tview s = ((ptable (ks y))[p := (prc (ks y) p)\<lparr>p_chan := ch, p_state := SLEEPING\<rparr>], curproc (ks y), initproc (ks y), nextpid (ks y))"
      by auto
    have "abs_tab y' = switch_out c p (\<lambda>x. x\<lparr>a_chan := ch, a_state := SLEEPING\<rparr>) (abs_tab y)" "curproc s' = (curproc (ks y))(c := None)"
      using switch_out_table [OF l sleep(7), of "\<lambda>x. x\<lparr>a_chan := ch, a_state := SLEEPING\<rparr>"] sleep(1,4) cur [OF sleep(3)] len upd [of p]
      by (simp_all add: abs_tab_def aslot_of_def)
    then show ?thesis using ph sleep(1) astep.a_sleep [of "abs_tab y" c p ch] sleep(3-5) by (auto simp: ph_inv_def)
  next
    case (wait c p r s)
    obtain u s1 where a: "acquire_lock c PTABLE_LOCK (ks y) = Inr (u, s1)" "wait_body c s1 = Inr (WaitRet r, s)"
      using wait(5) by (auto simp: wait_def kbind_eq_Inr_iff)
    have t: "tview s1 = tview (ks y)" by (rule keptD [OF locks_tview(1) a(1)])
    from wait_ret_steps [OF a(2), of p "filling y"] show ?thesis
      using wait(1,3) cur [OF wait(3)] len tviewD [OF t] table_cong [OF t, of "filling y"] ph by (simp add: ph_inv_def abs_tab_def)
  next
    case (wait_sleep c p ie s v s')
    obtain u s1 where a: "acquire_lock c PTABLE_LOCK (ks y) = Inr (u, s1)" "wait_body c s1 = Inr (WaitSleep ie, s)"
      using wait_sleep(5) by (auto simp: wait_def kbind_eq_Inr_iff)
    have t: "tview s1 = tview (ks y)" by (rule keptD [OF locks_tview(1) a(1)])
    from wait_sleep_steps [OF a(2), of p "filling y", OF _ _ _ _ wait_sleep(6)] show ?thesis
      using wait_sleep(1,3,4) cur [OF wait_sleep(3)] len tviewD [OF t] table_cong [OF t, of "filling y"] ph
      by (simp add: ph_inv_def abs_tab_def r_into_rtranclp)
  next
    case (waken c ch u s)
    note l = wakeup_law [OF waken(2)]
    have "abs_tab y' = (abs_tab y)\<lparr>slots := map (a_woken ch) (slots (abs_tab y))\<rparr>" "curproc s = curproc (ks y)"
      using l waken(1) by (simp_all add: abs_tab_def table_def tview_def woken_def a_woken_def aslot_of_def comp_def)
    then show ?thesis using ph waken(1) astep.a_wakeup [of "abs_tab y" ch] by (auto simp: ph_inv_def)
  next
    case (killed c pid r s)
    from kill_law [OF killed(2)] consider "tview s = tview (ks y)"
      | p where "p < NPROC" "tview s = ((ptable (ks y))[p := (prc (ks y) p)\<lparr>p_killed := True,
         p_state := if p_state (prc (ks y) p) = SLEEPING then RUNNABLE else p_state (prc (ks y) p)\<rparr>], curproc (ks y), initproc (ks y), nextpid (ks y))"
      by auto
    then show ?thesis
    proof cases
      case 1
      show ?thesis unfolding killed(1) by (rule keep) (use 1 in auto)
    next
      case (2 p)
      have "abs_tab y' = upd_slot p (\<lambda>x. if a_state x = SLEEPING then x\<lparr>a_state := RUNNABLE\<rparr> else x) (abs_tab y)" "curproc s = curproc (ks y)"
        using table_upd_cur [OF 2(2), of "\<lambda>x. if a_state x = SLEEPING then x\<lparr>a_state := RUNNABLE\<rparr> else x"] killed(1) 2(1) len
        by (simp_all add: abs_tab_def aslot_of_def)
      then show ?thesis using ph killed(1) astep.a_kill [OF 2(1), of "abs_tab y"] by (simp add: ph_inv_def r_into_rtranclp)
    qed
  next
    case (alloc c p np s)
    from allocproc_law [OF alloc(5) len] have l: "np < NPROC" "p_state (prc (ks y) np) = UNUSED"
        "\<And>mk. table s mk = (upd_slot np (\<lambda>x. x\<lparr>a_state := EMBRYO, a_pid := nextpid (ks y)\<rparr>) (table (ks y) mk))\<lparr>next_pid := nextpid (ks y) + 1\<rparr>"
      by auto
    have "cur (table s (filling y)) = cur (table (ks y) (filling y))" unfolding l(3) by simp
    moreover have "abs_tab y' = (upd_slot np (\<lambda>x. x\<lparr>a_state := EMBRYO, a_pid := next_pid (abs_tab y)\<rparr>) (abs_tab y))
        \<lparr>next_pid := next_pid (abs_tab y) + 1, making := (making (abs_tab y))(p := Some np)\<rparr>"
      using l(3) alloc(1) by (simp add: abs_tab_def upd_slot_def table_def)
    ultimately show ?thesis using astep.a_alloc [of np "abs_tab y" c p] ph alloc(1,3,4) l(1,2) len
      by (simp add: ph_inv_def r_into_rtranclp)
  next
    case (alloc_none c s)
    from allocproc_law [OF alloc_none(3) len] consider "tview s = tview (ks y)"
      | p where "p < NPROC" "p_state (prc (ks y) p) = UNUSED"
        "table s (filling y) = (upd_slot p (a_pid_update (\<lambda>_. nextpid (ks y))) (table (ks y) (filling y)))\<lparr>next_pid := nextpid (ks y) + 1\<rparr>"
      by auto
    then show ?thesis
    proof cases
      case 1
      show ?thesis unfolding alloc_none(1) by (rule keep) (use 1 in auto)
    next
      case (2 p)
      have "cur (table s (filling y)) = cur (table (ks y) (filling y))" unfolding 2(3) by simp
      then have "curproc s = curproc (ks y)" by simp
      then show ?thesis using 2 astep.a_alloc_fail [of p "abs_tab y"] ph alloc_none(1) len
        by (simp add: ph_inv_def abs_tab_def r_into_rtranclp)
    qed
  next
    case (copy c p np r s)
    have m: "make_inv (abs_tab y)" "making (abs_tab y) p = Some np" using assms(3) copy(4) by (simp_all add: table_inv_def)
    have np: "np < NPROC" by (rule make_invD(2) [OF m])
    have "filling y np = None"
    proof (rule ccontr)
      assume "filling y np \<noteq> None"
      then obtain x where "making (abs_tab y) np = Some x" by auto
      from make_invD(4) [OF m(1) this] make_invD(3) [OF m] show False by auto
    qed
    then have f: "(filling y)(p := None, np := None) = (filling y)(p := None)" by (auto simp: fun_eq_iff)
    from wpD [OF fork_copy_law [OF len np copy(3)] copy(5)] show ?thesis
    proof
      assume t: "tabv s = upd_slot np (a_state_update (\<lambda>_. UNUSED)) (tabv (ks y))"
      have "cur (tabv s) = cur (tabv (ks y))" unfolding t by simp
      moreover have "abs_tab y' = (upd_slot np (a_state_update (\<lambda>_. UNUSED)) (abs_tab y))\<lparr>making := (making (abs_tab y))(p := None)\<rparr>"
        using table_of_tabv [OF t, of _ "filling y"] copy(1) f by (simp add: abs_tab_def)
      ultimately show ?thesis using astep.a_abandon [of "abs_tab y" c p np] ph copy by (simp add: ph_inv_def r_into_rtranclp)
    next
      assume t: "tabv s = upd_slot np (\<lambda>x. x\<lparr>a_parent := Some p, a_state := RUNNABLE\<rparr>) (tabv (ks y))"
      have "cur (tabv s) = cur (tabv (ks y))" unfolding t by simp
      moreover have "abs_tab y' = (upd_slot np (\<lambda>x. x\<lparr>a_state := RUNNABLE, a_parent := Some p\<rparr>) (abs_tab y))\<lparr>making := (making (abs_tab y))(p := None)\<rparr>"
        using table_of_tabv [OF t, of _ "filling y"] copy(1) f by (simp add: abs_tab_def adopt_order)
      ultimately show ?thesis using astep.a_adopt [of "abs_tab y" c p np] ph copy by (simp add: ph_inv_def r_into_rtranclp)
    qed
  next
    case (exit c p ie s v s')
    have p: "p < NPROC" by (rule cur [OF exit(3)])
    note l = exit_zombie_law [OF exit(6) len p] and b = scheduler_back_law [OF exit(7)]
    have "curproc s = curproc (ks y)" using l [of "filling y"] by (metis (no_types) table_fields(1) atab.select_convs(2) atab.surjective atab.update_convs(1))
    then have c: "curproc s' = (curproc (ks y))(c := None)" using b by (simp add: tview_def)
    have "table s' (filling y) = (table s (filling y))\<lparr>cur := (curproc (ks y))(c := None)\<rparr>"
      using b c by (simp add: table_def tview_def)
    then have "abs_tab y' = (abs_tab y)\<lparr>slots := a_exit p (case a_parent (slots (abs_tab y) ! p) of None \<Rightarrow> NoChan | Some q \<Rightarrow> ChanProc q)
        (root (abs_tab y)) (slots (abs_tab y)), cur := (cur (abs_tab y))(c := None)\<rparr>"
      using l [of "filling y"] exit(1) p len by (simp add: abs_tab_def parent_chan_def table_def)
    then show ?thesis using c ph exit astep.a_exit [of "abs_tab y" c p] by (simp add: ph_inv_def r_into_rtranclp)
  qed
qed

subsection \<open>Reachable states\<close>

text \<open>
  The table as \<open>userinit\<close> leaves it: the first process is runnable, all other entries are unused,
  and no CPU runs a process.
\<close>

definition boot_table :: "file_st \<Rightarrow> bool" where
  "boot_table s \<longleftrightarrow> length (ptable s) = NPROC \<and> initproc s < NPROC \<and> p_state (prc s (initproc s)) = RUNNABLE
    \<and> p_parent (prc s (initproc s)) = None \<and> 0 < p_pid (prc s (initproc s)) \<and> p_pid (prc s (initproc s)) < nextpid s
    \<and> (\<forall>p < NPROC. p \<noteq> initproc s \<longrightarrow> p_state (prc s p) = UNUSED \<and> p_parent (prc s p) = None)
    \<and> curproc s = (\<lambda>_. None)"

definition psys0 :: "file_st \<Rightarrow> psys" where
  "psys0 s = \<lparr>ks = s, phs = (\<lambda>_. Out), conts = (\<lambda>_. RFork), modes = (\<lambda>_. User)\<rparr>"

lemma boot_inv:
  assumes "boot_table s"
  shows "ph_inv (psys0 s)" "table_inv (abs_tab (psys0 s))"
proof -
  let ?t = "abs_tab (psys0 s)"
  have b: "length (ptable s) = NPROC" "initproc s < NPROC" "p_state (prc s (initproc s)) = RUNNABLE"
    "p_parent (prc s (initproc s)) = None" "0 < p_pid (prc s (initproc s))" "p_pid (prc s (initproc s)) < nextpid s"
    "\<And>p. p < NPROC \<Longrightarrow> p \<noteq> initproc s \<Longrightarrow> p_state (prc s p) = UNUSED \<and> p_parent (prc s p) = None" "curproc s = (\<lambda>_. None)"
    using assms by (auto simp: boot_table_def)
  have slot: "p < NPROC \<Longrightarrow> slot ?t p = aslot_of (prc s p)" for p using b(1) by (simp add: psys0_def)
  have st: "p < NPROC \<Longrightarrow> a_state (slot ?t p) = (if p = initproc s then RUNNABLE else UNUSED)" for p
    using slot [of p] b(3,7) by simp
  have f: "cur ?t = (\<lambda>_. None)" "root ?t = initproc s" "next_pid ?t = nextpid s" "making ?t = (\<lambda>_. None)" "length (slots ?t) = NPROC"
    using b by (auto simp: psys0_def filling_def fun_eq_iff)
  show "ph_inv (psys0 s)" using b(8) by (simp add: ph_inv_def psys0_def)
  have "cpu_inv ?t" using st f b(2) by (simp add: cpu_inv_def)
  moreover have "make_inv ?t" using f by (simp add: make_inv_def)
  moreover have "pid_inv ?t" using st f b(2,5,6) slot by (simp add: pid_inv_def)
  moreover have "parent_inv ?t" using st f b(2,4,7) slot by (simp add: parent_inv_def)
  moreover have "wait_inv ?t" using st by (simp add: wait_inv_def)
  ultimately show "table_inv ?t" by (simp add: table_inv_def)
qed

lemma reach_inv:
  assumes "pstep\<^sup>*\<^sup>* (psys0 s) y" "boot_table s"
  shows "ph_inv y \<and> table_inv (abs_tab y) \<and> astep\<^sup>*\<^sup>* (abs_tab (psys0 s)) (abs_tab y)"
  using assms(1)
proof (induction rule: rtranclp_induct)
  case base
  then show ?case using boot_inv [OF assms(2)] by simp
next
  case (step y y')
  then have "ph_inv y' \<and> astep\<^sup>*\<^sup>* (abs_tab y) (abs_tab y')" using pstep_astep [OF step(2)] by blast
  then show ?case using step.IH table_inv_steps [of "abs_tab y" "abs_tab y'"] by (auto intro: rtranclp_trans)
qed

lemma reach_facts:
  assumes "pstep\<^sup>*\<^sup>* (psys0 s) y" "boot_table s"
  shows "table_inv (abs_tab y)" "\<And>p. p < NPROC \<Longrightarrow> slot (abs_tab y) p = aslot_of (prc (ks y) p)"
    "cur (abs_tab y) = curproc (ks y)" "root (abs_tab y) = initproc (ks y)" "next_pid (abs_tab y) = nextpid (ks y)"
    "length (slots (abs_tab y)) = NPROC"
proof -
  show i: "table_inv (abs_tab y)" using reach_inv [OF assms] by blast
  then show len: "length (slots (abs_tab y)) = NPROC" by (simp add: table_inv_def cpu_inv_def)
  then show "\<And>p. p < NPROC \<Longrightarrow> slot (abs_tab y) p = aslot_of (prc (ks y) p)" by simp
qed simp_all

text \<open>
  C2 (refinement): whatever the CPUs do, in any interleaving of the scheduler, \<open>yield\<close>, \<open>sleep\<close>,
  \<open>wakeup\<close>, \<open>kill\<close>, \<open>fork\<close>, \<open>exit\<close> and \<open>wait\<close>, the process table makes only the steps of the
  abstract machine \<open>astep\<close>.
\<close>

theorem kernel_refines:
  assumes "boot_table s" "pstep\<^sup>*\<^sup>* (psys0 s) y"
  shows "astep\<^sup>*\<^sup>* (abs_tab (psys0 s)) (abs_tab y)"
  using reach_inv [OF assms(2,1)] by blast

text \<open>
  C23 (invariant): in every reachable state a process is \<open>RUNNING\<close> exactly if one CPU runs it,
  and then no other CPU does.
\<close>

theorem sched_one_cpu:
  assumes "boot_table s" "pstep\<^sup>*\<^sup>* (psys0 s) y" "p < NPROC"
  shows "p_state (prc (ks y) p) = RUNNING \<longleftrightarrow> (\<exists>!c. curproc (ks y) c = Some p)"
proof -
  note f = reach_facts [OF assms(2,1)]
  have "cpu_inv (abs_tab y)" using f(1) by (simp add: table_inv_def)
  note i = cpu_invD(3-5) [OF this, unfolded f(3)]
  show ?thesis
  proof
    assume "p_state (prc (ks y) p) = RUNNING"
    then obtain c where "curproc (ks y) c = Some p" using i(3) [OF assms(3)] f(2) [OF assms(3)] by auto
    then show "\<exists>!c. curproc (ks y) c = Some p" using i(2) by blast
  next
    assume "\<exists>!c. curproc (ks y) c = Some p"
    then show "p_state (prc (ks y) p) = RUNNING" using i(1) f(2) [OF assms(3)] by (metis aslot_of_fields(1))
  qed
qed

text \<open>
  C25 (invariant): process numbers are positive, below \<open>nextpid\<close>, and different for different
  entries in use, as long as the counter has not left the range of an \<open>int\<close>.
\<close>

theorem pids_unique:
  assumes "boot_table s" "pstep\<^sup>*\<^sup>* (psys0 s) y" "nextpid (ks y) < 2 ^ 31" "p < NPROC" "p_state (prc (ks y) p) \<noteq> UNUSED"
  shows "0 < p_pid (prc (ks y) p) \<and> p_pid (prc (ks y) p) < nextpid (ks y)
    \<and> (\<forall>q < NPROC. p_state (prc (ks y) q) \<noteq> UNUSED \<and> p_pid (prc (ks y) q) = p_pid (prc (ks y) p) \<longrightarrow> q = p)"
proof -
  note f = reach_facts [OF assms(2,1)]
  have "pid_inv (abs_tab y)" using f(1) by (simp add: table_inv_def)
  then show ?thesis using f(2) assms(4,5) unfolding pid_inv_def f(5) by auto
qed

text \<open>
  C24 (invariant): there are no orphans. In every reachable state every process but the first one
  has a parent in the table that is not itself and has not exited, and the first process is alive.
\<close>

theorem no_orphans:
  assumes "boot_table s" "pstep\<^sup>*\<^sup>* (psys0 s) y"
  shows "(\<forall>p < NPROC. p \<noteq> initproc (ks y) \<and> p_state (prc (ks y) p) \<in> {SLEEPING, RUNNABLE, RUNNING, ZOMBIE} \<longrightarrow>
      (\<exists>q < NPROC. p_parent (prc (ks y) p) = Some q \<and> q \<noteq> p \<and> p_state (prc (ks y) q) \<in> {SLEEPING, RUNNABLE, RUNNING}))
    \<and> p_state (prc (ks y) (initproc (ks y))) \<in> {SLEEPING, RUNNABLE, RUNNING}"
proof -
  note f = reach_facts [OF assms(2,1)]
  have i: "parent_inv (abs_tab y)" "cpu_inv (abs_tab y)" using f(1) by (simp_all add: table_inv_def)
  have r: "initproc (ks y) < NPROC" using cpu_invD(2) [OF i(2)] f(4) by simp
  have "\<exists>q < NPROC. p_parent (prc (ks y) p) = Some q \<and> q \<noteq> p \<and> p_state (prc (ks y) q) \<in> {SLEEPING, RUNNABLE, RUNNING}"
    if "p < NPROC" "p \<noteq> initproc (ks y)" "p_state (prc (ks y) p) \<in> {SLEEPING, RUNNABLE, RUNNING, ZOMBIE}" for p
    using parent_invD(4) [OF i(1) that(1)] that f(2) unfolding f(4) by auto
  then show ?thesis using parent_invD(1) [OF i(1)] f(2) r unfolding f(4) by auto
qed

text \<open>
  C18 (safety): no wakeup of a waiting parent is lost. In every reachable state a process that is
  asleep in \<open>wait\<close> has no zombie child, although \<open>exit\<close> makes the zombie after it has woken
  the parent, and although zombies are handed to the first process.
\<close>

theorem wait_no_lost_wakeup:
  assumes "boot_table s" "pstep\<^sup>*\<^sup>* (psys0 s) y"
  shows "\<forall>p q z. p < NPROC \<and> p_state (prc (ks y) p) = SLEEPING \<and> p_chan (prc (ks y) p) = ChanProc q \<and> z < NPROC
    \<and> p_parent (prc (ks y) z) = Some p \<longrightarrow> q = p \<and> p_state (prc (ks y) z) \<noteq> ZOMBIE"
proof (intro allI impI, elim conjE)
  fix p q z
  assume a: "p < NPROC" "p_state (prc (ks y) p) = SLEEPING" "p_chan (prc (ks y) p) = ChanProc q" "z < NPROC"
    "p_parent (prc (ks y) z) = Some p"
  note f = reach_facts [OF assms(2,1)]
  have "wait_inv (abs_tab y)" using f(1) by (simp add: table_inv_def)
  from wait_invD [OF this a(1), of q] have "q = p \<and> \<not> has_zombie p (slots (abs_tab y))"
    using f(2) [OF a(1)] a(2,3) by simp
  then show "q = p \<and> p_state (prc (ks y) z) \<noteq> ZOMBIE" using f(2) [OF a(4)] f(6) a(4,5) unfolding has_zombie_iff by auto
qed

text \<open>
  C39 (error): \<open>kill\<close> does not look at the state of an entry, and unused entries have the process
  number 0. So, when exactly the unused entries have that number, \<open>kill(0)\<close> succeeds as long as there is a free entry and marks the first one as
  killed; \<open>allocproc\<close> takes just that entry and does not clear the mark: the next process to be
  created is killed before it has run.
\<close>

theorem kill_unused_entry:
  assumes "length (ptable s) = NPROC" "\<forall>p < NPROC. p_pid (prc s p) = 0 \<longleftrightarrow> p_state (prc s p) = UNUSED"
    "kill c 0 s = Inr (r, s1)" "allocproc d s1 = Inr (Some np, s2)"
  shows "r = 0 \<and> p_killed (prc s2 np)"
proof -
  obtain u t where a: "acquire_lock c PTABLE_LOCK s = Inr (u, t)" using assms(3) by (auto simp: kill_def kbind_eq_Inr_iff)
  note k = assms(3) [unfolded kill_def kbind_Inr [where m = "acquire_lock c PTABLE_LOCK", OF a]]
  obtain v t1 where b: "acquire_lock d PTABLE_LOCK s1 = Inr (v, t1)" using assms(4) by (auto simp: allocproc_def kbind_eq_Inr_iff)
  note l = assms(4) [unfolded allocproc_def kbind_Inr [where m = "acquire_lock d PTABLE_LOCK", OF b]]
  have e: "ptable t = ptable s" "ptable t1 = ptable s1" using tviewD [OF tview_keptD(1) [OF a]] tviewD [OF tview_keptD(1) [OF b]] by auto
  show ?thesis
  proof (cases "find (\<lambda>p. p_pid (prc s p) = 0) [0..<NPROC]")
    case None
    then have "ptable s1 = ptable s" using k e by (auto simp: kbind_eq_Inr_iff dest!: tview_keptD tviewD)
    moreover have "find (\<lambda>p. p_state (prc s p) = UNUSED) [0..<NPROC] = None" using None assms(2) by (simp add: find_None_iff)
    ultimately show ?thesis using l e by (auto simp: kbind_eq_Inr_iff)
  next
    case (Some p)
    then have p: "p < NPROC" "p_state (prc s p) = UNUSED" using assms(2) by (auto dest!: find_SomeD)
    have s1: "r = 0" "ptable s1 = (ptable s)[p := (prc s p)\<lparr>p_killed := True, p_state := UNUSED\<rparr>]"
      using k Some e p(2) by (auto simp: kbind_eq_Inr_iff upd_proc_def dest!: tview_keptD tviewD)
    have "p_state (prc s1 q) = p_state (prc s q)" for q using s1(2) p assms(1) by (auto simp: nth_list_update)
    then have "find (\<lambda>q. p_state (prc s1 q) = UNUSED) [0..<NPROC] = find (\<lambda>q. p_pid (prc s q) = 0) [0..<NPROC]"
      using assms(2) by (intro find_cong) auto
    then have f: "find (\<lambda>q. p_state (prc t1 q) = UNUSED) [0..<NPROC] = Some p" using Some e(2) by simp
    have "np = p \<and> p_killed (prc s2 p)"
      using l f e(2) s1(2) p(1) assms(1)
      by (auto simp: kbind_eq_Inr_iff upd_proc_def dest!: tview_keptD kalloc_tview [THEN keptD] tviewD split: if_splits)
    then show ?thesis using s1(1) by simp
  qed
qed

text \<open>A machine after \<open>userinit\<close>, and one in which CPU 2 has picked the first process.\<close>

definition init_proc0 :: proc where
  "init_proc0 = \<lparr>p_sz = 4096, p_pgdir = 0x80200000, p_kstack = 0x80300000, p_state = RUNNABLE, p_pid = 1, p_parent = None,
     p_tf = zero_tf, p_retaddr = Trapret, p_context = zero_context\<lparr>c_eip := Forkret\<rparr>, p_chan = NoChan, p_killed = False,
     p_ofile = replicate NOFILE None, p_cwd = Some 0, p_name = initcode_name @ replicate 7 0, p_signal = 0, p_sigArr = replicate 32 0\<rparr>"

definition unused_proc0 :: proc where
  "unused_proc0 = init_proc0\<lparr>p_sz := 0, p_pgdir := 0, p_kstack := 0, p_state := UNUSED, p_pid := 0, p_cwd := None, p_name := replicate 16 0\<rparr>"

definition sched0 :: file_st where
  "sched0 = proc_st.extend (vm_st.extend (mem_st.extend mem0 (vm_st.fields 0x80400000 (\<lambda>_. 0x400000)))
     (proc_st.fields (init_proc0 # replicate 63 unused_proc0) (\<lambda>_. None) 0 2 (\<lambda>_. 0)
       \<lparr>cpus = (\<lambda>_. \<lparr>ncli = 0, intena = True, ifl = False\<rparr>), locks = (\<lambda>_. \<lparr>locked = 0, lk_name = [], lk_cpu = None, lk_pcs = []\<rparr>)\<rparr>
       0 False))
     (file_st.fields (replicate NFILE \<lparr>f_type = FD_NONE, f_ref = 0, f_readable = False, f_writable = False, f_pipe = 0, f_ip = 0, f_off = 0\<rparr>)
       (\<lambda>_. pipe_init junk0))"

lemma sched0_simps [simp]:
  "ptable sched0 = init_proc0 # replicate 63 unused_proc0" "curproc sched0 = (\<lambda>_. None)" "initproc sched0 = 0" "nextpid sched0 = 2"
  "lks sched0 = \<lparr>cpus = (\<lambda>_. \<lparr>ncli = 0, intena = True, ifl = False\<rparr>), locks = (\<lambda>_. \<lparr>locked = 0, lk_name = [], lk_cpu = None, lk_pcs = []\<rparr>)\<rparr>"
  "forkret_first sched0 = False"
  by (simp_all add: sched0_def mem_st.defs vm_st.defs proc_st.defs file_st.defs)

lemma sched0_boot: "boot_table sched0"
  by (auto simp: boot_table_def nth_Cons' init_proc0_def unused_proc0_def)

lemmas lock_runs = on_locks_def acquire_lock_def release_lock_def acquire_def release_def acquire_enter_def acquire_done_def
  release_enter_def xchg_def pushcli_run popcli_def upd_cpu_def upd_lock_def holding_def kbind_def ret_def gets_def modify_def

lemma sched0_running:
  "\<exists>y. pstep\<^sup>*\<^sup>* (psys0 sched0) y \<and> curproc (ks y) = (\<lambda>_. None)(2 := Some 0) \<and> p_state (prc (ks y) 0) = RUNNING
    \<and> phs y = (\<lambda>_. Out)(2 := Resume) \<and> initproc (ks y) = 0 \<and> nextpid (ks y) = 2
    \<and> p_pid (prc (ks y) 0) = 1 \<and> (\<forall>p < NPROC. p \<noteq> 0 \<longrightarrow> p_state (prc (ks y) p) = UNUSED)"
proof -
  obtain s1 where s1: "scheduler_enter 2 sched0 = Inr ((), s1)" "ptable s1 = ptable sched0" "curproc s1 = (\<lambda>_. None)"
      "initproc s1 = 0" "nextpid s1 = 2" "\<not> ifl (cpus (lks s1) 2)" "ncli (cpus (lks s1) 2) = 1"
    by (simp add: scheduler_enter_def lock_runs)
  obtain s2 where s2: "scheduler_pick 2 0 s1 = Inr (True, s2)"
    using s1(2-7) by (simp add: scheduler_pick_def switchuvm_def myproc_def upd_proc_def lock_runs init_proc0_def)
  note l = scheduler_pick_law [OF s2]
  let ?y1 = "(psys0 sched0)\<lparr>ks := s1, phs := (phs (psys0 sched0))(2 := Scan)\<rparr>"
  let ?y2 = "?y1\<lparr>ks := s2, phs := (phs ?y1)(2 := Resume)\<rparr>"
  have "pstep (psys0 sched0) ?y1" by (rule enter) (use s1(1) in \<open>simp_all add: psys0_def\<close>)
  moreover have "pstep ?y1 ?y2" by (rule pick) (use s2 in simp_all)
  ultimately have "pstep\<^sup>*\<^sup>* (psys0 sched0) ?y2" by (meson converse_rtranclp_into_rtranclp r_into_rtranclp)
  moreover have "curproc (ks ?y2) = (\<lambda>_. None)(2 := Some 0) \<and> p_state (prc (ks ?y2) 0) = RUNNING
    \<and> phs ?y2 = (\<lambda>_. Out)(2 := Resume) \<and> initproc (ks ?y2) = 0 \<and> nextpid (ks ?y2) = 2
    \<and> p_pid (prc (ks ?y2) 0) = 1 \<and> (\<forall>p < NPROC. p \<noteq> 0 \<longrightarrow> p_state (prc (ks ?y2) p) = UNUSED)"
    using l s1(2-5) by (auto simp: tview_def psys0_def nth_Cons' init_proc0_def unused_proc0_def)
  ultimately show ?thesis by blast
qed

theorem kernel_refines_witness:
  "\<exists>y :: psys. curproc (ks y) 2 = Some 0 \<and> astep\<^sup>*\<^sup>* (abs_tab (psys0 sched0)) (abs_tab y)"
  using sched0_running kernel_refines [OF sched0_boot] by (metis fun_upd_same)

theorem sched_one_cpu_witness:
  "\<exists>y :: psys. p_state (prc (ks y) 0) = RUNNING \<and> (\<exists>!c. curproc (ks y) c = Some 0)"
proof -
  obtain y where y: "pstep\<^sup>*\<^sup>* (psys0 sched0) y" "p_state (prc (ks y) 0) = RUNNING" using sched0_running by blast
  from sched_one_cpu [OF sched0_boot y(1), of 0] y(2) show ?thesis by auto
qed

theorem pids_unique_witness:
  "\<exists>y :: psys. p_state (prc (ks y) 0) = RUNNING \<and> 0 < p_pid (prc (ks y) 0)"
proof -
  obtain y where y: "pstep\<^sup>*\<^sup>* (psys0 sched0) y" "p_state (prc (ks y) 0) = RUNNING" "nextpid (ks y) = 2" using sched0_running by blast
  from pids_unique [OF sched0_boot y(1), of 0] y(2,3) show ?thesis by auto
qed

theorem no_orphans_witness:
  "\<exists>y :: psys. curproc (ks y) 2 = Some 0 \<and> p_state (prc (ks y) (initproc (ks y))) \<in> {SLEEPING, RUNNABLE, RUNNING}"
proof -
  obtain y where y: "pstep\<^sup>*\<^sup>* (psys0 sched0) y" "curproc (ks y) 2 = Some 0" using sched0_running by auto
  from no_orphans [OF sched0_boot y(1)] y(2) show ?thesis by blast
qed

theorem wait_no_lost_wakeup_witness:
  "\<exists>y :: psys. curproc (ks y) 2 = Some 0 \<and> (\<forall>p q z. p < NPROC \<and> p_state (prc (ks y) p) = SLEEPING \<and> p_chan (prc (ks y) p) = ChanProc q \<and> z < NPROC
    \<and> p_parent (prc (ks y) z) = Some p \<longrightarrow> q = p \<and> p_state (prc (ks y) z) \<noteq> ZOMBIE)"
proof -
  obtain y where y: "pstep\<^sup>*\<^sup>* (psys0 sched0) y" "curproc (ks y) 2 = Some 0" using sched0_running by auto
  from wait_no_lost_wakeup [OF sched0_boot y(1)] y(2) show ?thesis by blast
qed

theorem kill_unused_entry_witness:
  "\<exists>s1 s2. kill 2 0 (sched0\<lparr>freelist := 0x80500000\<rparr>) = Inr (0, s1) \<and> allocproc 2 s1 = Inr (Some 1, s2) \<and> p_killed (prc s2 1)"
proof -
  let ?s = "sched0\<lparr>freelist := 0x80500000\<rparr>"
  let ?u = "unused_proc0\<lparr>p_killed := True, p_state := UNUSED\<rparr>"
  have f: "find (\<lambda>p. p_pid ((init_proc0 # replicate 63 unused_proc0) ! p) = 0) [0..<NPROC] = Some 1"
    "find (\<lambda>p. p_state ((init_proc0 # replicate 63 unused_proc0)[1 := ?u] ! p) = UNUSED) [0..<NPROC] = Some 1"
    by (simp_all add: upt_rec [of 0] upt_rec [of "Suc 0"] nth_Cons' nth_list_update init_proc0_def unused_proc0_def)
  have i: "(init_proc0 # replicate 63 unused_proc0) ! 1 = unused_proc0" by (simp add: nth_Cons')
  obtain s1 where s1: "kill 2 0 ?s = Inr (0, s1)" "ptable s1 = (init_proc0 # replicate 63 unused_proc0)[1 := ?u]"
      "freelist s1 = 0x80500000" "lks s1 = (lks sched0)\<lparr>cpus := cpus (lks s1), locks := locks (lks s1)\<rparr>"
      "\<not> ifl (cpus (lks s1) 2)" "ncli (cpus (lks s1) 2) = 0" "locked (locks (lks s1) 0) = 0"
    using f(1) i by (simp add: kill_def upd_proc_def lock_runs unused_proc0_def)
  obtain s2 where s2: "allocproc 2 s1 = Inr (Some 1, s2)"
    using s1 f(2) by (simp add: allocproc_def upd_proc_def kalloc_def Let_def lock_runs)
  have "p_killed (prc s2 1)"
    using kill_unused_entry [OF _ _ s1(1) s2] by (auto simp: nth_Cons' init_proc0_def unused_proc0_def)
  then show ?thesis using s1(1) s2 by blast
qed

end
