(* ===== verification/SyscallSpec.thy ===== *)
theory SyscallSpec
  imports Syscall Sched
begin

text \<open>
  The checks on system call arguments (\<open>syscall.c\<close>): what they accept lies inside the memory of
  the calling process, so the kernel never reads or writes its own memory on behalf of a process.
\<close>

lemma fetchint_range:
  assumes "fetchint p a s = Inr (Some v, s')" "p_sz (prc s p) \<le> KERNBASE"
  shows "s' = s" "uint a + 4 \<le> uint (p_sz (prc s p))" "\<exists>d. uread s (p_pgdir (prc s p)) a 4 = Some d \<and> v = of_nat (get32 d 0)"
proof -
  let ?sz = "p_sz (prc s p)"
  have c: "a < ?sz" "a + 4 \<le> ?sz" and r: "s' = s" "\<exists>d. uread s (p_pgdir (prc s p)) a 4 = Some d \<and> v = of_nat (get32 d 0)"
    using assms(1) by (auto simp: fetchint_def not_le not_less split: if_splits option.splits)
  have "uint ?sz \<le> 0x80000000" using assms(2) by (simp add: word_le_def)
  then have "uint a + 4 < 2 ^ 32" using c(1) by (simp add: word_less_def)
  then have "uint (a + 4) = uint a + 4" by (simp add: uint_word_ariths)
  then show "uint a + 4 \<le> uint ?sz" using c(2) by (simp add: word_le_def)
  show "s' = s" "\<exists>d. uread s (p_pgdir (prc s p)) a 4 = Some d \<and> v = of_nat (get32 d 0)" by (rule r)+
qed

lemma argint_state: "argint c n s = Inr (r, s') \<Longrightarrow> s' = s"
  by (auto simp: argint_def fetchint_def myproc_def kbind_eq_Inr_iff split: option.splits if_splits)

text \<open>
  What \<open>argptr\<close> accepts, for any C \<open>int\<close> as the size: the sum of the address and the size,
  taken without wrap-around, is neither negative nor above the size of the process.
\<close>

lemma argptr_check:
  fixes i sz :: u32
  assumes "i < sz" "sz < KERNBASE" "- (2 ^ 31) \<le> siz" "siz < 2 ^ 31"
  shows "i + of_int siz \<le> sz \<longleftrightarrow> 0 \<le> uint i + siz \<and> uint i + siz \<le> uint sz"
proof -
  define x z where "x = uint i" and "z = uint sz"
  have b: "0 \<le> x" "x < z" "z < 2 ^ 31" using assms(1,2) by (simp_all add: x_def z_def word_less_def)
  have "uint (i + of_int siz) = (x + siz) mod 2 ^ 32"
    by (simp add: x_def uint_word_ariths uint_word_of_int take_bit_eq_mod mod_simps)
  also have "\<dots> = (if 0 \<le> x + siz then x + siz else x + siz + 2 ^ 32)"
  proof (cases "0 \<le> x + siz")
    case True
    then show ?thesis using b assms(4) by simp
  next
    case False
    have "(x + siz + 2 ^ 32) mod 2 ^ 32 = x + siz + 2 ^ 32"
      by (rule mod_pos_pos_trivial) (use b assms(3) False in simp_all)
    then show ?thesis using False by simp
  qed
  finally show ?thesis using b assms(3) by (auto simp: word_le_def x_def [symmetric] z_def [symmetric])
qed

lemma argptr_eq:
  assumes "curproc s c = Some p" "p_sz (prc s p) < KERNBASE" "- (2 ^ 31) \<le> siz" "siz < 2 ^ 31"
  shows "argptr c n siz s = Inr (Some i, s') \<longleftrightarrow> s' = s \<and> argint c n s = Inr (Some i, s)
    \<and> uint i < uint (p_sz (prc s p)) \<and> 0 \<le> uint i + siz \<and> uint i + siz \<le> uint (p_sz (prc s p))"
proof (cases "argint c n s")
  case (Inr x)
  obtain r s1 where "x = (r, s1)" by force
  then have a: "argint c n s = Inr (r, s)" using argint_state [of c n s r s1] Inr by simp
  show ?thesis
  proof (cases r)
    case None
    then show ?thesis using a by (simp add: argptr_def kbind_def ret_def)
  next
    case (Some j)
    then show ?thesis using a assms(1) argptr_check [of j, OF _ assms(2-4)]
      by (auto simp: argptr_def kbind_def myproc_def word_less_def not_le not_less word_le_def)
  qed
qed (simp add: argptr_def kbind_def)

lemma str_scan_uread:
  "str_scan s pgdir va n = Some (Some k) \<Longrightarrow>
     k < n \<and> (\<forall>d. uread s pgdir va (k + 1) = Some d \<longrightarrow> length d = k + 1 \<and> d ! k = 0 \<and> (\<forall>j < k. d ! j \<noteq> 0))"
proof (induction n arbitrary: va k)
  case (Suc n)
  obtain b where b: "ubyte s pgdir va = Some b" using Suc.prems by (auto split: option.splits)
  show ?case
  proof (cases "b = 0")
    case True
    then show ?thesis using Suc.prems b by auto
  next
    case False
    then obtain j where j: "k = Suc j" "str_scan s pgdir (va + 1) n = Some (Some j)" using Suc.prems b by auto
    from Suc.IH [OF j(2)] show ?thesis using b False j(1) by (auto simp: nth_Cons split: nat.splits)
  qed
qed simp

text \<open>
  C11 (bounds): when the argument checks accept, the accepted bytes lie below the size of the
  process, without wrapping around: the word of \<open>fetchint\<close>, and the string of \<open>fetchstr\<close> with its
  terminator, which is the first 0 from its address on. \<open>argptr\<close> accepts the address \<open>i\<close> with
  any \<open>int\<close> as its size, negative ones included, exactly when \<open>i\<close> is below the size of the
  process and \<open>i + siz\<close>, taken without wrap-around, is between 0 and the size of the process; so
  for a size that is not negative the \<open>siz\<close> bytes from \<open>i\<close> on lie inside it. The checks change
  nothing. The size of a process is below \<open>KERNBASE\<close>, as \<open>allocuvm\<close> keeps it.
\<close>

theorem arg_bounds:
  assumes "curproc s c = Some p" "p_sz (prc s p) < KERNBASE"
  shows "(\<forall>a v s'. fetchint p a s = Inr (Some v, s') \<longrightarrow> s' = s \<and> uint a + 4 \<le> uint (p_sz (prc s p)))
    \<and> (\<forall>n siz i s'. - (2 ^ 31) \<le> siz \<and> siz < 2 ^ 31 \<longrightarrow>
        argptr c n siz s = Inr (Some i, s') \<longleftrightarrow> s' = s \<and> argint c n s = Inr (Some i, s)
          \<and> uint i < uint (p_sz (prc s p)) \<and> 0 \<le> uint i + siz \<and> uint i + siz \<le> uint (p_sz (prc s p)))
    \<and> (\<forall>a k d s'. fetchstr p a s = Inr (Some (k, d), s') \<longrightarrow> s' = s \<and> uint a + int k < uint (p_sz (prc s p))
        \<and> length d = k + 1 \<and> d ! k = 0 \<and> (\<forall>j < k. d ! j \<noteq> 0))"
proof (intro conjI allI impI)
  fix a k d s'
  assume f: "fetchstr p a s = Inr (Some (k, d), s')"
  let ?sz = "p_sz (prc s p)"
  have a: "a < ?sz" "s' = s" "uread s (p_pgdir (prc s p)) a (k + 1) = Some d"
    and sc: "str_scan s (p_pgdir (prc s p)) a (unat (?sz - a)) = Some (Some k)"
    using f by (auto simp: fetchstr_def Let_def not_le split: if_splits option.splits)
  note l = str_scan_uread [OF sc]
  show "s' = s" "length d = k + 1" "d ! k = 0" "\<And>j. j < k \<Longrightarrow> d ! j \<noteq> 0" using l a(2,3) by auto
  have "unat (?sz - a) = unat ?sz - unat a" using a(1) by (simp add: unat_sub)
  then have "k < unat ?sz - unat a" using l by simp
  then have "int (unat a + k) < int (unat ?sz)" by linarith
  then show "uint a + int k < uint ?sz" using uint_nat [of a] uint_nat [of ?sz] by linarith
next
  fix a v s'
  assume f: "fetchint p a s = Inr (Some v, s')"
  show "s' = s" "uint a + 4 \<le> uint (p_sz (prc s p))" using fetchint_range(1,2) [OF f] assms(2) by simp_all
next
  fix n and siz :: int and i s'
  assume "- (2 ^ 31) \<le> siz \<and> siz < 2 ^ 31"
  then show "argptr c n siz s = Inr (Some i, s') \<longleftrightarrow> s' = s \<and> argint c n s = Inr (Some i, s)
      \<and> uint i < uint (p_sz (prc s p)) \<and> 0 \<le> uint i + siz \<and> uint i + siz \<le> uint (p_sz (prc s p))"
    by (intro argptr_eq [OF assms]) simp_all
qed

text \<open>
  C40 (error): a negative count passes the check of \<open>read\<close> and then makes it read a file to
  its end. \<open>argptr\<close> accepts every address \<open>i\<close> below the size of the process with the count
  \<open>n\<close> when \<open>- n \<le> i\<close>, and \<open>readi\<close>, which takes the count as an unsigned number, does for it,
  on a file (not a device, and below two gigabytes) at an offset in the file below \<open>- n\<close>, exactly
  what it does for the number of bytes that are left in the file, however many that are: so it
  stores bytes that have not been checked against the size of the process.
\<close>

theorem read_negative:
  assumes "curproc s c = Some p" "p_sz (prc s p) < KERNBASE" "argint c 1 s = Inr (Some i, s)"
    and "uint i < uint (p_sz (prc s p))" "- (2 ^ 31) \<le> n" "n < 0" "- n \<le> uint i"
  shows "argptr c 1 n s = Inr (Some i, s)
    \<and> (\<forall>(t :: 'b fs_st_scheme) ip off. di_type (i_copy (ino t ip)) \<noteq> T_DEV \<and> off \<le> di_size (i_copy (ino t ip))
        \<and> int off < - n \<and> di_size (i_copy (ino t ip)) < 2 ^ 31 \<longrightarrow>
        readi ip off (uns32 n) t = readi ip off (di_size (i_copy (ino t ip)) - off) t)"
proof (intro conjI allI impI)
  show "argptr c 1 n s = Inr (Some i, s)"
    using argptr_eq [OF assms(1,2), of n 1 i s] assms(3-7) by simp
  fix t :: "'b fs_st_scheme" and ip off
  let ?sz = "di_size (i_copy (ino t ip))"
  assume a: "di_type (i_copy (ino t ip)) \<noteq> T_DEV \<and> off \<le> ?sz \<and> int off < - n \<and> ?sz < 2 ^ 31"
  have "n mod 2 ^ 32 = n + 2 ^ 32" using assms(5,6) mod_pos_pos_trivial [of "n + 2 ^ 32" "2 ^ 32"] by simp
  then have u: "int (uns32 n) = n + 2 ^ 32" using assms(5) by (simp add: uns32_def)
  then have "int (off + uns32 n) < int (2 ^ 32)" "int ?sz < int (off + uns32 n)" using a assms(5) by simp_all
  then have "off + uns32 n < 2 ^ 32" "?sz < off + uns32 n" by (simp_all only: of_nat_less_iff)
  then show "readi ip off (uns32 n) t = readi ip off (?sz - off) t"
    using a by (simp add: readi_def Let_def del: readi_loop.simps)
qed

text \<open>
  The first process of \<open>sched0\<close> on CPU 2, with one page of memory: its stack pointer is 256 and
  the word at 264, its second argument, is 512.
\<close>

definition user0 :: file_st where
  "user0 = sched0\<lparr>curproc := (\<lambda>_. None)(2 := Some 0),
     ptable := (ptable sched0)[0 := init_proc0\<lparr>p_tf := zero_tf\<lparr>tf_esp := 256\<rparr>\<rparr>],
     frames := (\<lambda>_. replicate 4096 0)(
       frame_no 0x80200000 := put32 (replicate 4096 0) 0 0x201007,
       frame_no 0x80201000 := put32 (replicate 4096 0) 0 0x202007,
       frame_no 0x80202000 := put32 (replicate 4096 0) 264 512)\<rparr>"

lemma user0_frames:
  "frames user0 512 = put32 (replicate 4096 0) 0 0x201007" "frames user0 513 = put32 (replicate 4096 0) 0 0x202007"
  "frames user0 514 = put32 (replicate 4096 0) 264 512"
  by (simp_all add: user0_def frame_no_def v2p_def)

lemma user0_tables: "ldw user0 0x80200000 = 0x201007" "ldw user0 0x80201000 = 0x202007"
  by (simp_all add: ldw_def frame_no_def frame_off_def v2p_def user0_frames get32_put32_same)

lemma user0_page: "ukaddr user0 0x80200000 264 = Some 0x80202108" "ukaddr user0 0x80200000 265 = Some 0x80202109"
  "ukaddr user0 0x80200000 266 = Some 0x8020210A" "ukaddr user0 0x80200000 267 = Some 0x8020210B"
  by (simp_all add: ukaddr_def walkpgdir_def PDX_def PTX_def PTE_ADDR_def p2v_def PGROUNDDOWN_def Let_def user0_tables)

lemma user0_word: "uread user0 0x80200000 264 4 = Some [0, 2, 0, 0]"
proof -
  have b: "put32 (replicate 4096 0) 264 512 ! 264 = 0" "put32 (replicate 4096 0) 264 512 ! 265 = 2"
    "put32 (replicate 4096 0) 264 512 ! 266 = 0" "put32 (replicate 4096 0) 264 512 ! 267 = 0"
    by (simp_all add: put32_def bytes32_def bytes16_def nth_overwrite)
  have "uread user0 0x80200000 264 (Suc (Suc (Suc (Suc 0)))) = Some [0, 2, 0, 0]"
    by (simp add: ubyte_def user0_page frame_no_def frame_off_def v2p_def user0_frames b)
  then show ?thesis by (simp add: eval_nat_numeral)
qed

lemma user0_proc: "curproc user0 2 = Some 0" "prc user0 0 = init_proc0\<lparr>p_tf := zero_tf\<lparr>tf_esp := 256\<rparr>\<rparr>"
  "p_sz (prc user0 0) < KERNBASE" "uint (p_sz (prc user0 0)) = 4096"
  by (simp_all add: user0_def init_proc0_def)

lemma user0_argint: "argint 2 1 user0 = Inr (Some 512, user0)"
proof -
  have "get32 [0, 2, 0, 0] 0 = 512" by (simp add: get32_def get16_def)
  then show ?thesis
    using user0_word user0_proc(1,2) by (simp add: argint_def fetchint_def myproc_def kbind_def gets_def init_proc0_def)
qed

theorem arg_bounds_witness: "argptr 2 1 16 user0 = Inr (Some 512, user0) \<and> argptr 2 1 (-513) user0 \<noteq> Inr (Some 512, user0)"
proof -
  note a = arg_bounds [OF user0_proc(1,3)]
  have "argptr 2 1 16 user0 = Inr (Some 512, user0)"
    using a user0_argint user0_proc(4) by simp
  moreover have "argptr 2 1 (-513) user0 \<noteq> Inr (Some 512, user0)"
    using a user0_proc(4) by (auto dest!: conjunct2)
  ultimately show ?thesis by blast
qed

text \<open>An inode in memory, of a file of 1000 bytes.\<close>

definition fs_1000 :: fs_st where
  "fs_1000 = fs0\<lparr>icache := (icache fs0)[0 := (ino fs0 0)\<lparr>i_copy := (i_copy (ino fs0 0))\<lparr>di_type := T_FILE, di_size := 1000\<rparr>\<rparr>]\<rparr>"

theorem read_negative_witness:
  "argptr 2 1 (-1) user0 = Inr (Some 512, user0) \<and> readi 0 0 (uns32 (-1)) fs_1000 = readi 0 0 1000 fs_1000"
proof -
  have "di_type (i_copy (ino fs_1000 0)) = T_FILE" "di_size (i_copy (ino fs_1000 0)) = 1000"
    by (simp_all add: fs_1000_def fs0_def)
  moreover have "argptr 2 1 (-1) user0 = Inr (Some 512, user0) \<and> (\<forall>(t :: fs_st) ip off.
      di_type (i_copy (ino t ip)) \<noteq> T_DEV \<and> off \<le> di_size (i_copy (ino t ip)) \<and> int off < - (-1)
        \<and> di_size (i_copy (ino t ip)) < 2 ^ 31 \<longrightarrow>
      readi ip off (uns32 (-1)) t = readi ip off (di_size (i_copy (ino t ip)) - off) t)"
    by (rule read_negative [OF user0_proc(1,3) user0_argint]) (simp_all add: user0_proc(4))
  ultimately show ?thesis by (auto dest!: spec [of _ fs_1000] spec [of _ 0])
qed

end
