(* ===== verification/Kbd.thy ===== *)
theory Kbd
  imports Prelude
begin

text \<open>
  The keyboard (\<open>kbd.c\<close>, \<open>kbd.h\<close>): scan codes to characters. The state of the driver is
  its static word \<open>shift\<close>; a call reads the controller's status and data ports and returns
  \<open>-1\<close> (nothing to read), 0 (no character) or a character.
\<close>

subsection \<open>Tables\<close>

text \<open>An initialiser with entries in order, then entries at given indices; the rest is 0.\<close>

definition keytable :: "u32 list \<Rightarrow> (nat \<times> u32) list \<Rightarrow> nat \<Rightarrow> u32" where
  "keytable xs ds i =
     (case map_of ds i of Some v \<Rightarrow> v | None \<Rightarrow> if i < length xs then xs ! i else 0)"

abbreviation (input) SHIFT :: u32 where "SHIFT \<equiv> 1"
abbreviation (input) CTL :: u32 where "CTL \<equiv> 2"
abbreviation (input) ALT :: u32 where "ALT \<equiv> 4"
abbreviation (input) CAPSLOCK :: u32 where "CAPSLOCK \<equiv> 8"
abbreviation (input) NUMLOCK :: u32 where "NUMLOCK \<equiv> 16"
abbreviation (input) SCROLLLOCK :: u32 where "SCROLLLOCK \<equiv> 32"
abbreviation (input) E0ESC :: u32 where "E0ESC \<equiv> 64"

definition shiftcode :: "nat \<Rightarrow> u32" where
  "shiftcode = keytable [] [(0x1D, CTL), (0x2A, SHIFT), (0x36, SHIFT), (0x38, ALT), (0x9D, CTL), (0xB8, ALT)]"

definition togglecode :: "nat \<Rightarrow> u32" where
  "togglecode = keytable [] [(0x3A, CAPSLOCK), (0x45, NUMLOCK), (0x46, SCROLLLOCK)]"

definition normalmap :: "nat \<Rightarrow> u32" where
  "normalmap = keytable [
     0, 27, 49, 50, 51, 52, 53, 54, 55, 56, 57, 48, 45, 61, 8, 9, 113, 119, 101, 114, 116, 121,
     117, 105, 111, 112, 91, 93, 10, 0, 97, 115, 100, 102, 103, 104, 106, 107, 108, 59, 39, 96, 0,
     92, 122, 120, 99, 118, 98, 110, 109, 44, 46, 47, 0, 42, 0, 32, 0, 0, 0, 0, 0, 0, 0, 0, 0, 0,
     0, 0, 0, 55, 56, 57, 45, 52, 53, 54, 43, 49, 50, 51, 48, 46, 0, 0, 0, 0]
    [(0x9C, 0xA), (0xB5, 0x2F), (0xC8, 0xE2), (0xD0, 0xE3), (0xC9, 0xE6), (0xD1, 0xE7),
     (0xCB, 0xE4), (0xCD, 0xE5), (0x97, 0xE0), (0xCF, 0xE1), (0xD2, 0xE8), (0xD3, 0xE9)]"

definition shiftmap :: "nat \<Rightarrow> u32" where
  "shiftmap = keytable [
     0, 27, 33, 64, 35, 36, 37, 94, 38, 42, 40, 41, 95, 43, 8, 9, 81, 87, 69, 82, 84, 89, 85, 73,
     79, 80, 123, 125, 10, 0, 65, 83, 68, 70, 71, 72, 74, 75, 76, 58, 34, 126, 0, 124, 90, 88, 67,
     86, 66, 78, 77, 60, 62, 63, 0, 42, 0, 32, 0, 0, 0, 0, 0, 0, 0, 0, 0, 0, 0, 0, 0, 55, 56, 57,
     45, 52, 53, 54, 43, 49, 50, 51, 48, 46, 0, 0, 0, 0]
    [(0x9C, 0xA), (0xB5, 0x2F), (0xC8, 0xE2), (0xD0, 0xE3), (0xC9, 0xE6), (0xD1, 0xE7),
     (0xCB, 0xE4), (0xCD, 0xE5), (0x97, 0xE0), (0xCF, 0xE1), (0xD2, 0xE8), (0xD3, 0xE9)]"

definition ctlmap :: "nat \<Rightarrow> u32" where
  "ctlmap = keytable [
     0, 0, 0, 0, 0, 0, 0, 0, 0, 0, 0, 0, 0, 0, 0, 0, 17, 23, 5, 18, 20, 25, 21, 9, 15, 16, 0, 0,
     13, 0, 1, 19, 4, 6, 7, 8, 10, 11, 12, 0, 0, 0, 0, 28, 26, 24, 3, 22, 2, 14, 13, 0, 0, 239, 0, 0]
    [(0x9C, 0xD), (0xB5, 0xEF), (0xC8, 0xE2), (0xD0, 0xE3), (0xC9, 0xE6), (0xD1, 0xE7),
     (0xCB, 0xE4), (0xCD, 0xE5), (0x97, 0xE0), (0xCF, 0xE1), (0xD2, 0xE8), (0xD3, 0xE9)]"


definition charcode :: "u32 \<Rightarrow> nat \<Rightarrow> u32" where
  "charcode k = [normalmap, shiftmap, ctlmap, ctlmap] ! unat k"

subsection \<open>The driver\<close>

definition caps :: "u32 \<Rightarrow> u32" where
  "caps c = (if 0x61 \<le> c \<and> c \<le> 0x7A then c - 32 else if 0x41 \<le> c \<and> c \<le> 0x5A then c + 32 else c)"

definition kbd_press :: "nat \<Rightarrow> u32 \<Rightarrow> int \<times> u32" where
  "kbd_press data shift =
     (let shift1 = shift OR shiftcode data; shift2 = shift1 XOR togglecode data;
          c = charcode (shift2 AND (CTL OR SHIFT)) data in
      (uint (if shift2 AND CAPSLOCK \<noteq> 0 then caps c else c), shift2))"

definition kbdgetc :: "u32 \<Rightarrow> u32 \<Rightarrow> u32 \<Rightarrow> int \<times> u32" where
  "kbdgetc stat data shift =
     (if stat AND 1 = 0 then (-1, shift)
      else if data = 0xE0 then (0, shift OR E0ESC)
      else if data AND 0x80 \<noteq> 0 then
        let d = (if shift AND E0ESC \<noteq> 0 then data else data AND 0x7F) in
        (0, shift AND NOT (shiftcode (unat d) OR E0ESC))
      else if shift AND E0ESC \<noteq> 0 then kbd_press (unat (data OR 0x80)) (shift AND NOT E0ESC)
      else kbd_press (unat data) shift)"

text \<open>What \<open>consoleintr\<close> gets when it calls the driver until the controller has no more codes.\<close>

fun kbd_chars :: "u32 list \<Rightarrow> u32 \<Rightarrow> nat list \<times> u32" where
  "kbd_chars [] shift = ([], shift)"
| "kbd_chars (d # ds) shift =
     (let (c, shift1) = kbdgetc 1 d shift; (cs, shift2) = kbd_chars ds shift1 in
      (nat c # cs, shift2))"

subsection \<open>Typing\<close>

text \<open>The keys for a printable character: pressed and released, with the left shift key if needed.\<close>

definition strokes :: "bool \<Rightarrow> u32 \<Rightarrow> u32 list" where
  "strokes shifted k = (if shifted then [0x2A, k, k OR 0x80, 0xAA] else [k, k OR 0x80])"

definition keys :: "(nat \<times> bool \<times> u32) list" where
  "keys = [
     (32, False, 57), (33, True, 2), (34, True, 40), (35, True, 4), (36, True, 5), (37, True, 6),
     (38, True, 8), (39, False, 40), (40, True, 10), (41, True, 11), (42, False, 55), (43, False, 78),
     (44, False, 51), (45, False, 12), (46, False, 52), (47, False, 53), (48, False, 11), (49, False, 2),
     (50, False, 3), (51, False, 4), (52, False, 5), (53, False, 6), (54, False, 7), (55, False, 8),
     (56, False, 9), (57, False, 10), (58, True, 39), (59, False, 39), (60, True, 51), (61, False, 13),
     (62, True, 52), (63, True, 53), (64, True, 3), (65, True, 30), (66, True, 48), (67, True, 46),
     (68, True, 32), (69, True, 18), (70, True, 33), (71, True, 34), (72, True, 35), (73, True, 23),
     (74, True, 36), (75, True, 37), (76, True, 38), (77, True, 50), (78, True, 49), (79, True, 24),
     (80, True, 25), (81, True, 16), (82, True, 19), (83, True, 31), (84, True, 20), (85, True, 22),
     (86, True, 47), (87, True, 17), (88, True, 45), (89, True, 21), (90, True, 44), (91, False, 26),
     (92, False, 43), (93, False, 27), (94, True, 7), (95, True, 12), (96, False, 41), (97, False, 30),
     (98, False, 48), (99, False, 46), (100, False, 32), (101, False, 18), (102, False, 33),
     (103, False, 34), (104, False, 35), (105, False, 23), (106, False, 36), (107, False, 37),
     (108, False, 38), (109, False, 50), (110, False, 49), (111, False, 24), (112, False, 25),
     (113, False, 16), (114, False, 19), (115, False, 31), (116, False, 20), (117, False, 22),
     (118, False, 47), (119, False, 17), (120, False, 45), (121, False, 21), (122, False, 44),
     (123, True, 26), (124, True, 43), (125, True, 27), (126, True, 41)]"

definition keystrokes :: "nat \<Rightarrow> u32 list" where
  "keystrokes ch = (case map_of keys ch of None \<Rightarrow> [] | Some (sh, k) \<Rightarrow> strokes sh k)"

text \<open>The driver reads these keys as the character, and is then in its first state again.\<close>

definition types :: "nat \<Rightarrow> bool" where
  "types ch \<longleftrightarrow> (case kbd_chars (keystrokes ch) 0 of (cs, shift) \<Rightarrow> filter (\<lambda>x. x \<noteq> 0) cs = [ch] \<and> shift = 0)"

lemma types_32: "list_all types [32..<46]"
  by code_simp

lemma types_46: "list_all types [46..<60]"
  by code_simp

lemma types_60: "list_all types [60..<74]"
  by code_simp

lemma types_74: "list_all types [74..<88]"
  by code_simp

lemma types_88: "list_all types [88..<102]"
  by code_simp

lemma types_102: "list_all types [102..<115]"
  by code_simp

lemma types_115: "list_all types [115..<127]"
  by code_simp

lemma types_printable:
  assumes "ch \<in> {32..<127}"
  shows "types ch"
proof -
  have "set [32..<127] = set [32..<46] \<union> set [46..<60] \<union> set [60..<74] \<union> set [74..<88] \<union> set [88..<102] \<union>
      set [102..<115] \<union> set [115..<127]" unfolding set_upt by auto
  then show ?thesis
    using assms types_32 types_46 types_60 types_74 types_88 types_102 types_115
    unfolding list_all_iff set_upt by blast
qed

lemma types_enter: "kbd_chars [0x1C, 0x9C] 0 = ([10, 0], 0)"
  by code_simp

lemma kbd_chars_append:
  "kbd_chars (a @ b) shift =
     (let (cs, shift1) = kbd_chars a shift; (ds, shift2) = kbd_chars b shift1 in (cs @ ds, shift2))"
  by (induction a arbitrary: shift) (auto simp: Let_def split: prod.splits)

lemma kbd_line:
  "\<forall>ch\<in>set l. ch \<in> {32..<127} \<Longrightarrow>
     \<exists>cs. kbd_chars (concat (map keystrokes l)) 0 = (cs, 0) \<and> filter (\<lambda>x. x \<noteq> 0) cs = l"
proof (induction l)
  case (Cons ch l)
  then have "types ch" using types_printable by simp
  then obtain cs where "kbd_chars (keystrokes ch) 0 = (cs, 0)" "filter (\<lambda>x. x \<noteq> 0) cs = [ch]"
    by (auto simp: types_def split: prod.splits)
  with Cons show ?case by (auto simp: kbd_chars_append Let_def)
qed simp

end
