(* ===== verification/Ring.thy ===== *)
theory Ring
  imports Prelude
begin

text \<open>
  Ring buffers with free-running 32 bit indices, as the pipes and the console's input use them: a
  buffer of \<open>N\<close> elements is read at \<open>r % N\<close> and written at \<open>w % N\<close>, and the
  indices only ever grow and wrap around. The laws hold for every size that divides \<open>2 ^ 32\<close>.
\<close>

definition ring :: "nat \<Rightarrow> 'b list \<Rightarrow> u32 \<Rightarrow> nat \<Rightarrow> 'b list" where
  "ring N b r n = map (\<lambda>i. b ! ((unat r + i) mod N)) [0..<n]"

lemma length_ring [simp]: "length (ring N b r n) = n"
  by (simp add: ring_def)

lemma ring_0 [simp]: "ring N b r 0 = []"
  by (simp add: ring_def)

lemma nth_ring: "i < n \<Longrightarrow> ring N b r n ! i = b ! ((unat r + i) mod N)"
  by (simp add: ring_def)

lemma butlast_ring: "butlast (ring N b r (Suc n)) = ring N b r n"
  by (simp add: ring_def)

locale ring_size =
  fixes N :: nat
  assumes pos: "0 < N"
    and divides: "N dvd 2 ^ 32"
begin

lemma index: "unat (r + of_nat i :: u32) mod N = (unat r + i) mod N"
proof -
  have "unat (r + of_nat i) = (unat r + i) mod 2 ^ 32"
    by (simp add: unat_word_ariths unat_of_nat take_bit_eq_mod mod_simps)
  then show ?thesis using divides by (simp add: mod_mod_cancel)
qed

lemma last_elem: "ring N b r (Suc n) ! n = b ! (unat (r + of_nat n) mod N)"
  by (simp add: nth_ring index)

lemma put:
  assumes "length b = N" "n < N"
  shows "ring N (b[unat (r + of_nat n) mod N := x]) r (Suc n) = ring N b r n @ [x]"
proof -
  have ne: "(unat r + n) mod N \<noteq> (unat r + i) mod N" if "i < n" for i
  proof
    assume "(unat r + n) mod N = (unat r + i) mod N"
    then have "N dvd (unat r + n) - (unat r + i)"
      by (intro mod_eq_dvd_iff_nat [THEN iffD1]) (use that in simp_all)
    then have "N dvd n - i" by simp
    with that assms(2) show False by (auto dest!: dvd_imp_le)
  qed
  show ?thesis
    using assms pos by (auto simp: ring_def index ne nth_list_update)
qed

lemma get: "ring N b r (Suc n) = b ! (unat r mod N) # ring N b (r + 1) n"
proof -
  have "unat (r + 1) mod N = (unat r + 1) mod N" using index [of r 1] by simp
  then have m: "(unat (r + 1) + i) mod N = (unat r + Suc i) mod N" for i
    by (metis add_Suc_right add_Suc_shift Suc_eq_plus1 mod_add_left_eq)
  have "[0..<Suc n] = 0 # map Suc [0..<n]" by (simp add: map_Suc_upt upt_conv_Cons)
  then show ?thesis by (simp only: ring_def m list.map list.map_comp comp_def add_0_right)
qed

end

text \<open>Counting with wrapping indices.\<close>

lemma count_put: "unat (w - r :: u32) < 2 ^ 31 \<Longrightarrow> unat (w + 1 - r) = Suc (unat (w - r))"
proof -
  assume a: "unat (w - r) < 2 ^ 31"
  have "w + 1 - r = (w - r) + 1" by simp
  moreover have "unat ((w - r) + 1) = unat (w - r) + unat (1 :: u32)"
    by (rule unat_add_lem [THEN iffD1]) (use a in simp)
  ultimately show ?thesis by (simp only: unsigned_1)
qed

lemma count_get: "r \<noteq> w \<Longrightarrow> unat (w - r :: u32) = Suc (unat (w - (r + 1)))"
proof -
  assume a: "r \<noteq> w"
  have "w - r \<noteq> 0" using a by simp
  then have p: "0 < unat (w - r)" by (simp add: unat_gt_0)
  then have "1 \<le> w - r" by (simp add: word_le_nat_alt)
  then have "unat (w - r - 1) = unat (w - r) - 1" by (simp add: unat_sub)
  moreover have e: "w - (r + 1) = w - r - 1" by simp
  ultimately show ?thesis using p by (simp only: e)
qed

lemma count_diff: "unat (w - r :: u32) \<le> unat (e - r) \<Longrightarrow> unat (e - w) = unat (e - r) - unat (w - r)"
proof -
  assume a: "unat (w - r) \<le> unat (e - r)"
  have "unat ((e - r) - (w - r)) = unat (e - r) - unat (w - r)"
    by (rule unat_sub) (simp add: word_le_nat_alt a)
  moreover have "e - w = (e - r) - (w - r)" by simp
  ultimately show ?thesis by (simp only:)
qed

lemma add_of_nat_count: "r + of_nat (unat (w - r :: u32)) = w"
  by simp

end
