(* ===== verification/Console.thy ===== *)
theory Console
  imports Proc Printf Kbd Ring
begin

text \<open>
  The console (\<open>console.c\<close>, \<open>kbd.c\<close>): the screen, the line editor that the keyboard and
  serial interrupts drive, reading from and writing to the console device, and the process
  listing (\<open>proc.c\<close>). The screen memory is a list of cells and the cursor register a number; a
  store outside the memory is \<open>None\<close>. A character is a C \<open>int\<close>, here a natural number;
  256 is \<open>BACKSPACE\<close>. Reading stops where \<open>consoleread\<close> sleeps; it goes on with what is
  left to read.
\<close>

subsection \<open>Screen\<close>

record cga =
  crt :: "u16 list"
  cursor :: nat

definition cga_place :: "nat \<Rightarrow> cga \<Rightarrow> (u16 list \<times> nat) option" where
  "cga_place c g =
     (let pos = cursor g in
      if c = 10 then Some (crt g, pos + (80 - pos mod 80))
      else if c = 256 then Some (crt g, if pos > 0 then pos - 1 else pos)
      else map_option (\<lambda>m. (m, pos + 1)) (Prelude.st (crt g) pos (of_nat (c mod 256) OR 0x0700)))"

definition cga_scroll :: "u16 list \<times> nat \<Rightarrow> (u16 list \<times> nat) option" where
  "cga_scroll = (\<lambda>(m, pos).
     if pos div 80 \<ge> 24 then
       if length m < 24 * 80 \<or> pos - 80 > 24 * 80 then None
       else
         let m1 = overwrite m 0 (take (23 * 80) (drop 80 m)) in
         Some (overwrite m1 (pos - 80) (replicate (24 * 80 - (pos - 80)) 0), pos - 80)
     else Some (m, pos))"

definition cgaputc :: "nat \<Rightarrow> cga \<Rightarrow> cga option" where
  "cgaputc c g =
     Option.bind (Option.bind (cga_place c g) cga_scroll) (\<lambda>(m, pos).
     Option.bind (Prelude.st m pos (0x20 OR 0x0700)) (\<lambda>m'. Some \<lparr>crt = m', cursor = pos mod 2 ^ 16\<rparr>))"

text \<open>
  The serial line gets the same characters; a rubout is back, blank, back. (\<open>uartputc\<close> waits
  a bounded time for the line to be free and then sends in any case.)
\<close>

record con =
  screen :: cga
  uart_out :: "nat list"
  has_uart :: bool
  con_panicked :: bool
  cons_locking :: bool

definition uartputc :: "nat \<Rightarrow> con \<Rightarrow> con" where
  "uartputc c k = (if has_uart k then k\<lparr>uart_out := uart_out k @ [c mod 256]\<rparr> else k)"

definition consputc :: "nat \<Rightarrow> (con, unit) kern" where
  "consputc c k =
     (if con_panicked k then Inl Hang
      else
        let k1 = (if c = 256 then uartputc 8 (uartputc 32 (uartputc 8 k)) else uartputc c k) in
        case cgaputc c (screen k1) of None \<Rightarrow> Inl Fault | Some g \<Rightarrow> Inr ((), k1\<lparr>screen := g\<rparr>))"

fun consputs :: "nat list \<Rightarrow> (con, unit) kern" where
  "consputs [] = ret ()"
| "consputs (c # cs) = kbind (consputc c) (\<lambda>_. consputs cs)"

subsection \<open>Line editing\<close>

abbreviation INPUT_BUF :: nat where "INPUT_BUF \<equiv> 128"

record input =
  ibuf :: "byte list"
  ir :: u32
  iw :: u32
  ie :: u32

text \<open>\<open>^U\<close>: the loop takes characters back until the line is empty; \<open>n\<close> bounds its rounds.\<close>

fun kill_line :: "nat \<Rightarrow> input \<Rightarrow> input \<times> nat list" where
  "kill_line 0 i = (i, [])"
| "kill_line (Suc n) i =
     (if ie i \<noteq> iw i \<and> ibuf i ! (unat (ie i - 1) mod INPUT_BUF) \<noteq> 10 then
        let (i', out) = kill_line n (i\<lparr>ie := ie i - 1\<rparr>) in (i', 256 # out)
      else (i, []))"

text \<open>
  One character for \<open>consoleintr\<close>, \<open>^P\<close> apart: the new input, what it echoes, and
  whether it wakes the readers.
\<close>

definition input_key :: "nat \<Rightarrow> input \<Rightarrow> input \<times> nat list \<times> bool" where
  "input_key c i =
     (if c = 21 then let (i', out) = kill_line (unat (ie i - iw i)) i in (i', out, False)
      else if c = 8 \<or> c = 127 then
        if ie i \<noteq> iw i then (i\<lparr>ie := ie i - 1\<rparr>, [256], False) else (i, [], False)
      else if c \<noteq> 0 \<and> ie i - ir i < of_nat INPUT_BUF then
        let b = (if c = 13 then 10 else c);
            i1 = i\<lparr>ibuf := (ibuf i)[unat (ie i) mod INPUT_BUF := of_nat b], ie := ie i + 1\<rparr> in
        if b = 10 \<or> b = 4 \<or> ie i1 = ir i1 + of_nat INPUT_BUF
        then (i1\<lparr>iw := ie i1\<rparr>, [b], True) else (i1, [b], False)
      else (i, [], False))"

text \<open>
  \<open>consoleread\<close> with \<open>n\<close> of \<open>target\<close> bytes left to read and \<open>acc\<close> read so far: it
  returns them, fails because the process was killed, or sleeps and is called again.
\<close>

datatype cread = CRet "byte list" | CKilled | CSleep nat "byte list"

fun consoleread_seg :: "bool \<Rightarrow> nat \<Rightarrow> nat \<Rightarrow> byte list \<Rightarrow> input \<Rightarrow> cread \<times> input" where
  "consoleread_seg killed target 0 acc i = (CRet acc, i)"
| "consoleread_seg killed target (Suc n) acc i =
     (if ir i = iw i then (if killed then CKilled else CSleep (Suc n) acc, i)
      else
        let c = ibuf i ! (unat (ir i) mod INPUT_BUF); i1 = i\<lparr>ir := ir i + 1\<rparr> in
        if c = 4 then (CRet acc, if Suc n < target then i1\<lparr>ir := ir i1 - 1\<rparr> else i1)
        else if c = 10 then (CRet (acc @ [c]), i1)
        else consoleread_seg killed target n (acc @ [c]) i1)"

subsection \<open>The device in the kernel\<close>

abbreviation (input) CONS_LOCK :: nat where "CONS_LOCK \<equiv> 2"
abbreviation (input) INPUT_LOCK :: nat where "INPUT_LOCK \<equiv> 3"

record console_st = proc_st +
  con :: con
  inp :: input
  kbd_shift :: u32

definition on_con :: "(con, 'b) kern \<Rightarrow> ('a console_st_scheme, 'b) kern" where
  "on_con m s = (case m (con s) of Inl e \<Rightarrow> Inl e | Inr (x, k) \<Rightarrow> Inr (x, s\<lparr>con := k\<rparr>))"

text \<open>A call of \<open>cprintf\<close> whose output is \<open>out\<close>.\<close>

definition cons_print :: "nat \<Rightarrow> byte list option \<Rightarrow> ('a console_st_scheme, unit) kern" where
  "cons_print c out =
     kbind (gets (\<lambda>s. cons_locking (con s))) (\<lambda>locking.
     kbind (if locking then acquire_lock c CONS_LOCK else ret ()) (\<lambda>_.
     kbind (lift_opt out) (\<lambda>bs.
     kbind (on_con (consputs (map unat bs))) (\<lambda>_.
     if locking then release_lock c CONS_LOCK else ret ()))))"

text \<open>
  The strings a process listing prints: the state and the name. The two strings of the first
  call of \<open>cprintf\<close> are at the addresses 1 and 2.
\<close>

definition state_name :: "procstate \<Rightarrow> byte list" where
  "state_name ps = (case ps of
     UNUSED \<Rightarrow> [0x75, 0x6E, 0x75, 0x73, 0x65, 0x64, 0]
   | EMBRYO \<Rightarrow> [0x65, 0x6D, 0x62, 0x72, 0x79, 0x6F, 0]
   | SLEEPING \<Rightarrow> [0x73, 0x6C, 0x65, 0x65, 0x70, 0x20, 0]
   | RUNNABLE \<Rightarrow> [0x72, 0x75, 0x6E, 0x62, 0x6C, 0x65, 0]
   | RUNNING \<Rightarrow> [0x72, 0x75, 0x6E, 0x20, 0x20, 0x20, 0]
   | ZOMBIE \<Rightarrow> [0x7A, 0x6F, 0x6D, 0x62, 0x69, 0x65, 0])"

fun dump_pcs :: "nat \<Rightarrow> u32 list \<Rightarrow> ('a console_st_scheme, unit) kern" where
  "dump_pcs c [] = ret ()"
| "dump_pcs c (pc # pcs) =
     (if pc = 0 then ret ()
      else kbind (cons_print c (cprintf (\<lambda>_. []) [0x20, 0x25, 0x70, 0] [pc])) (\<lambda>_. dump_pcs c pcs))"

definition dump_proc :: "nat \<Rightarrow> proc \<Rightarrow> ('a console_st_scheme, unit) kern" where
  "dump_proc c x =
     (if p_state x = UNUSED then ret ()
      else
        kbind (cons_print c (cprintf (\<lambda>a. if a = 1 then state_name (p_state x) else p_name x)
          [0x25, 0x64, 0x20, 0x25, 0x73, 0x20, 0x25, 0x73, 0] [of_int (p_pid x), 1, 2])) (\<lambda>_.
        kbind (if p_state x = SLEEPING
          then kbind (gets (\<lambda>s. getcallerpcs (ldw s) (c_ebp (p_context x) + 8))) (dump_pcs c)
          else ret ()) (\<lambda>_.
        cons_print c (cprintf (\<lambda>_. []) [0x0A, 0] []))))"

fun dump_procs :: "nat \<Rightarrow> nat list \<Rightarrow> ('a console_st_scheme, unit) kern" where
  "dump_procs c [] = ret ()"
| "dump_procs c (p # ps) = kbind (gets (\<lambda>s. prc s p)) (\<lambda>x. kbind (dump_proc c x) (\<lambda>_. dump_procs c ps))"

definition procdump :: "nat \<Rightarrow> ('a console_st_scheme, unit) kern" where
  "procdump c = dump_procs c [0..<NPROC]"

text \<open>One round of \<open>consoleintr\<close>, and its loop on the characters that \<open>getc\<close> returns.\<close>

definition consoleintr_key :: "nat \<Rightarrow> nat \<Rightarrow> ('a console_st_scheme, unit) kern" where
  "consoleintr_key c k =
     (if k = 16 then procdump c
      else
        kbind (gets (\<lambda>s. input_key k (inp s))) (\<lambda>(i, out, wake).
        kbind (modify (\<lambda>s. s\<lparr>inp := i\<rparr>)) (\<lambda>_.
        kbind (on_con (consputs out)) (\<lambda>_.
        if wake then wakeup c ChanInput else ret ()))))"

fun consoleintr_loop :: "nat \<Rightarrow> nat list \<Rightarrow> ('a console_st_scheme, unit) kern" where
  "consoleintr_loop c [] = ret ()"
| "consoleintr_loop c (k # ks) = kbind (consoleintr_key c k) (\<lambda>_. consoleintr_loop c ks)"

definition consoleintr :: "nat \<Rightarrow> nat list \<Rightarrow> ('a console_st_scheme, unit) kern" where
  "consoleintr c ks =
     kbind (acquire_lock c INPUT_LOCK) (\<lambda>_.
     kbind (consoleintr_loop c ks) (\<lambda>_. release_lock c INPUT_LOCK))"

text \<open>The two interrupts: the scan codes the controller has, the bytes the serial line has.\<close>

definition kbdintr :: "nat \<Rightarrow> u32 list \<Rightarrow> ('a console_st_scheme, unit) kern" where
  "kbdintr c codes =
     kbind (gets (\<lambda>s. kbd_chars codes (kbd_shift s))) (\<lambda>(ks, shift).
     kbind (modify (\<lambda>s. s\<lparr>kbd_shift := shift\<rparr>)) (\<lambda>_. consoleintr c ks))"

definition uartintr :: "nat \<Rightarrow> byte list \<Rightarrow> ('a console_st_scheme, unit) kern" where
  "uartintr c received =
     kbind (gets (\<lambda>s. has_uart (con s))) (\<lambda>u. consoleintr c (if u then map unat received else []))"

text \<open>
  \<open>consoleread\<close> up to its end, with what it returns and the bytes it has stored at
  \<open>dst\<close>, or up to \<open>sleep\<close>, with what is left to read.
\<close>

datatype read_res = RReturn int "byte list" | RBlocked bool nat "byte list"

definition consoleread_run :: "nat \<Rightarrow> nat \<Rightarrow> nat \<Rightarrow> nat \<Rightarrow> byte list \<Rightarrow> ('a console_st_scheme, read_res) kern" where
  "consoleread_run c ip target n acc =
     kbind (myproc c) (\<lambda>p.
     kbind (gets (\<lambda>s. consoleread_seg (p_killed (prc s p)) target n acc (inp s))) (\<lambda>(r, i).
     kbind (modify (\<lambda>s. s\<lparr>inp := i\<rparr>)) (\<lambda>_.
     case r of
       CRet bs \<Rightarrow>
         kbind (release_lock c INPUT_LOCK) (\<lambda>_. kbind (ilock ip) (\<lambda>_. ret (RReturn (int (length bs)) bs)))
     | CKilled \<Rightarrow> kbind (release_lock c INPUT_LOCK) (\<lambda>_. kbind (ilock ip) (\<lambda>_. ret (RReturn (-1) acc)))
     | CSleep n' acc' \<Rightarrow> kbind (sleep_enter c ChanInput INPUT_LOCK) (\<lambda>ena. ret (RBlocked ena n' acc')))))"

definition consoleread :: "nat \<Rightarrow> nat \<Rightarrow> int \<Rightarrow> ('a console_st_scheme, read_res) kern" where
  "consoleread c ip n =
     kbind (iunlock ip) (\<lambda>_.
     kbind (acquire_lock c INPUT_LOCK) (\<lambda>_. consoleread_run c ip (nat n) (nat n) []))"

definition consoleread_resume :: "nat \<Rightarrow> nat \<Rightarrow> int \<Rightarrow> bool \<Rightarrow> nat \<Rightarrow> byte list \<Rightarrow> ('a console_st_scheme, read_res) kern" where
  "consoleread_resume c ip n ena n' acc =
     kbind (sleep_return c ena INPUT_LOCK) (\<lambda>_. consoleread_run c ip (nat n) n' acc)"

definition consolewrite :: "nat \<Rightarrow> nat \<Rightarrow> byte list \<Rightarrow> ('a console_st_scheme, int) kern" where
  "consolewrite c ip buf =
     kbind (iunlock ip) (\<lambda>_.
     kbind (acquire_lock c CONS_LOCK) (\<lambda>_.
     kbind (on_con (consputs (map unat buf))) (\<lambda>_.
     kbind (release_lock c CONS_LOCK) (\<lambda>_.
     kbind (ilock ip) (\<lambda>_. ret (int (length buf)))))))"

definition consoleinit :: "('a console_st_scheme, unit) kern" where
  "consoleinit =
     kbind (on_locks (initlock CONS_LOCK ''console'')) (\<lambda>_.
     kbind (on_locks (initlock INPUT_LOCK ''input'')) (\<lambda>_.
     modify (\<lambda>s. s\<lparr>con := (con s)\<lparr>cons_locking := True\<rparr>\<rparr>)))"

subsection \<open>Line editing on lists\<close>

text \<open>
  What the line editor promises: the lines typed and not yet read, and the line being typed, as
  two lists.
\<close>

definition line_key :: "nat \<Rightarrow> byte list \<times> byte list \<Rightarrow> byte list \<times> byte list" where
  "line_key c = (\<lambda>(d, t).
     if c = 16 then (d, t)
     else if c = 21 then (d, [])
     else if c = 8 \<or> c = 127 then (d, butlast t)
     else if c \<noteq> 0 \<and> length d + length t < INPUT_BUF then
       let b = (if c = 13 then 10 else c); t' = t @ [of_nat b] in
       if b = 10 \<or> b = 4 \<or> length d + length t' = INPUT_BUF then (d @ t', []) else (d, t')
     else (d, t))"

fun line_read :: "bool \<Rightarrow> nat \<Rightarrow> nat \<Rightarrow> byte list \<Rightarrow> byte list \<Rightarrow> cread \<times> byte list" where
  "line_read killed target 0 acc d = (CRet acc, d)"
| "line_read killed target (Suc n) acc [] = (if killed then CKilled else CSleep (Suc n) acc, [])"
| "line_read killed target (Suc n) acc (c # d) =
     (if c = 4 then (CRet acc, if Suc n < target then c # d else d)
      else if c = 10 then (CRet (acc @ [c]), d)
      else line_read killed target n (acc @ [c]) d)"

definition typed :: "input \<Rightarrow> byte list" where
  "typed i = ring INPUT_BUF (ibuf i) (ir i) (unat (ie i - ir i))"

definition lines :: "input \<Rightarrow> byte list \<times> byte list" where
  "lines i = (let n = unat (iw i - ir i) in (take n (typed i), drop n (typed i)))"

definition input_inv :: "input \<Rightarrow> bool" where
  "input_inv i \<longleftrightarrow> length (ibuf i) = INPUT_BUF \<and> unat (ie i - ir i) \<le> INPUT_BUF \<and>
     unat (iw i - ir i) \<le> unat (ie i - ir i) \<and> 10 \<notin> set (snd (lines i))"

interpretation ir: ring_size INPUT_BUF
  by unfold_locales (simp_all add: dvd_def)

lemma length_typed [simp]: "length (typed i) = unat (ie i - ir i)"
  by (simp add: typed_def)

lemma lines_eq: "lines i = (d, t) \<longleftrightarrow> d = take (unat (iw i - ir i)) (typed i) \<and> t = drop (unat (iw i - ir i)) (typed i)"
  by (auto simp: lines_def Let_def)

text \<open>Taking back the last character typed.\<close>

lemma rubout:
  assumes "input_inv i" "ie i \<noteq> iw i"
  shows "typed (i\<lparr>ie := ie i - 1\<rparr>) = butlast (typed i)"
    and "unat (iw i - ir i) < unat (ie i - ir i)"
    and "unat (ie i - ir i) = Suc (unat (ie i - 1 - ir i))"
    and "ibuf i ! (unat (ie i - 1) mod INPUT_BUF) = last (typed i)"
proof -
  have le: "unat (iw i - ir i) \<le> unat (ie i - ir i)" using assms(1) by (simp add: input_inv_def)
  have ne: "unat (iw i - ir i) \<noteq> unat (ie i - ir i)" using assms(2) by (auto simp flip: word_unat_eq_iff)
  then show lt: "unat (iw i - ir i) < unat (ie i - ir i)" using le by simp
  then have "ir i \<noteq> ie i" by auto
  from count_get [OF this] show n: "unat (ie i - ir i) = Suc (unat (ie i - 1 - ir i))"
    by (simp add: algebra_simps)
  then show "typed (i\<lparr>ie := ie i - 1\<rparr>) = butlast (typed i)"
    by (simp add: typed_def butlast_ring)
  have "last (typed i) = typed i ! unat (ie i - 1 - ir i)"
    by (subst last_conv_nth) (use n length_typed [of i] in \<open>auto simp del: length_typed\<close>)
  also have "\<dots> = ibuf i ! (unat (ir i + of_nat (unat (ie i - 1 - ir i))) mod INPUT_BUF)"
    unfolding typed_def n by (rule ir.last_elem)
  finally show "ibuf i ! (unat (ie i - 1) mod INPUT_BUF) = last (typed i)"
    by (simp only: add_of_nat_count)
qed

lemma rubout_lines:
  assumes "input_inv i" "ie i \<noteq> iw i"
  shows "lines (i\<lparr>ie := ie i - 1\<rparr>) = (fst (lines i), butlast (snd (lines i)))"
    and "input_inv (i\<lparr>ie := ie i - 1\<rparr>)"
proof -
  note r = rubout [OF assms]
  have len: "length (typed i) = Suc (unat (ie i - 1 - ir i))" using r(3) by simp
  have d: "take (unat (iw i - ir i)) (butlast (typed i)) = take (unat (iw i - ir i)) (typed i)"
    by (rule take_butlast) (use r(2) in simp)
  show l: "lines (i\<lparr>ie := ie i - 1\<rparr>) = (fst (lines i), butlast (snd (lines i)))"
    by (simp add: lines_def Let_def r(1) d drop_butlast)
  show "input_inv (i\<lparr>ie := ie i - 1\<rparr>)"
    unfolding input_inv_def l using assms(1) r(2,3) by (auto simp: input_inv_def dest: in_set_butlastD)
qed

lemma empty_line: "input_inv i \<Longrightarrow> ie i = iw i \<Longrightarrow> snd (lines i) = []"
  by (simp add: lines_def Let_def)

text \<open>\<open>^U\<close> takes back the whole line.\<close>

lemma kill_line_lines:
  "input_inv i \<Longrightarrow> unat (ie i - iw i) = n \<Longrightarrow>
     lines (fst (kill_line n i)) = (fst (lines i), []) \<and> input_inv (fst (kill_line n i))"
proof (induction n arbitrary: i)
  case 0
  then have "ie i = iw i" by (simp add: unsigned_eq_0_iff)
  with 0 show ?case using empty_line [of i] by (simp add: prod_eq_iff)
next
  case (Suc n)
  then have ne: "ie i \<noteq> iw i" by auto
  note r = rubout [OF Suc.prems(1) ne] and l = rubout_lines [OF Suc.prems(1) ne]
  have n: "unat (ie i - 1 - iw i) = n"
    using count_get [of "iw i" "ie i"] ne Suc.prems(2) by (simp add: algebra_simps)
  have "last (typed i) = last (snd (lines i))"
    using r(2) by (simp add: lines_def Let_def last_drop)
  moreover have "snd (lines i) \<noteq> []" using r(2) by (simp add: lines_def Let_def)
  ultimately have "last (typed i) \<in> set (snd (lines i))" using last_in_set [of "snd (lines i)"] by simp
  then have nl: "ibuf i ! (unat (ie i - 1) mod INPUT_BUF) \<noteq> 10"
    using Suc.prems(1) r(4) unfolding input_inv_def by metis
  show ?case
    using Suc.IH [OF l(2)] n ne nl l(1) by (simp add: case_prod_beta Let_def)
qed

text \<open>A character at the end of the line.\<close>

lemma not_full_iff: "(ie i - ir i < of_nat INPUT_BUF) = (unat (ie i - ir i) < INPUT_BUF)"
  by (simp add: word_less_nat_alt)

lemma full_ring_iff: "(e = r + of_nat INPUT_BUF) = (unat (e - r :: u32) = INPUT_BUF)"
proof -
  have "e = r + of_nat INPUT_BUF \<longleftrightarrow> e - r = of_nat INPUT_BUF" by (auto simp: diff_eq_eq)
  then show ?thesis by (simp only: word_unat_eq_iff) simp
qed

lemma type_char:
  fixes b :: byte
  assumes "input_inv i" "unat (ie i - ir i) < INPUT_BUF"
  defines "i1 \<equiv> i\<lparr>ibuf := (ibuf i)[unat (ie i) mod INPUT_BUF := b], ie := ie i + 1\<rparr>"
  shows "typed i1 = typed i @ [b]"
    and "unat (ie i1 - ir i1) = Suc (unat (ie i - ir i))"
    and "lines i1 = (fst (lines i), snd (lines i) @ [b])"
proof -
  have len: "length (ibuf i) = INPUT_BUF" using assms(1) by (simp add: input_inv_def)
  show n: "unat (ie i1 - ir i1) = Suc (unat (ie i - ir i))"
    using count_put [of "ie i" "ir i"] assms(2) by (simp add: i1_def)
  show t: "typed i1 = typed i @ [b]"
    using ir.put [OF len assms(2), of "ir i" b] n
    by (simp add: typed_def i1_def)
  show "lines i1 = (fst (lines i), snd (lines i) @ [b])"
    using t assms(1) by (simp add: lines_def Let_def input_inv_def) (simp add: i1_def)
qed

text \<open>The line editor does on the ring buffer what \<open>line_key\<close> and \<open>line_read\<close> do on lists.\<close>

lemma type_inv:
  fixes b :: byte
  assumes "input_inv i" "unat (ie i - ir i) < INPUT_BUF"
  defines "i1 \<equiv> i\<lparr>ibuf := (ibuf i)[unat (ie i) mod INPUT_BUF := b], ie := ie i + 1\<rparr>"
  shows "b \<noteq> 10 \<Longrightarrow> input_inv i1"
    and "lines (i1\<lparr>iw := ie i1\<rparr>) = (fst (lines i) @ snd (lines i) @ [b], [])"
    and "input_inv (i1\<lparr>iw := ie i1\<rparr>)"
proof -
  note t = type_char [OF assms(1,2), of b, folded i1_def]
  have len: "length (ibuf i1) = INPUT_BUF" using assms(1) by (simp add: i1_def input_inv_def)
  have w: "iw i1 = iw i" "ir i1 = ir i" by (simp_all add: i1_def)
  show "input_inv i1" if "b \<noteq> 10"
    unfolding input_inv_def t(2,3) using assms(1,2) len that w by (auto simp: input_inv_def)
  have ty: "typed (i1\<lparr>iw := ie i1\<rparr>) = typed i1" by (simp add: typed_def)
  then have l: "lines (i1\<lparr>iw := ie i1\<rparr>) = (typed i1, [])" by (simp add: lines_def Let_def)
  have "typed i = fst (lines i) @ snd (lines i)" by (simp add: lines_def Let_def)
  then show "lines (i1\<lparr>iw := ie i1\<rparr>) = (fst (lines i) @ snd (lines i) @ [b], [])"
    using l t(1) by simp
  show "input_inv (i1\<lparr>iw := ie i1\<rparr>)"
    unfolding input_inv_def l using t(2) assms(2) len w by simp
qed

lemma lines_lengths: "input_inv i \<Longrightarrow> length (fst (lines i)) + length (snd (lines i)) = unat (ie i - ir i)"
  by (simp add: lines_def Let_def input_inv_def)

lemma input_key_type:
  assumes "input_inv i" "c \<noteq> 0" "c \<noteq> 8" "c \<noteq> 127" "c \<noteq> 16" "c \<noteq> 21" "c < 256" "unat (ie i - ir i) < INPUT_BUF"
  shows "lines (fst (input_key c i)) = line_key c (lines i) \<and> input_inv (fst (input_key c i))"
proof -
  define b where "b = (if c = 13 then 10 else c)"
  define i1 where "i1 = i\<lparr>ibuf := (ibuf i)[unat (ie i) mod INPUT_BUF := of_nat b], ie := ie i + 1\<rparr>"
  define commit where "commit \<longleftrightarrow> b = 10 \<or> b = 4 \<or> unat (ie i1 - ir i1) = INPUT_BUF"
  obtain d t where dt: "lines i = (d, t)" by fastforce
  have sum: "length d + length t = unat (ie i - ir i)" using lines_lengths [OF assms(1)] dt by simp
  have n: "unat (ie i1 - ir i1) = Suc (unat (ie i - ir i))"
    unfolding i1_def by (rule type_char(2) [OF assms(1,8)])
  have lk: "line_key c (lines i) = (if commit then (d @ t @ [of_nat b], []) else (d, t @ [of_nat b]))"
    using assms sum by (simp add: line_key_def dt commit_def n b_def Let_def)
  have key: "fst (input_key c i) = (if commit then i1\<lparr>iw := ie i1\<rparr> else i1)"
    using assms unfolding input_key_def commit_def not_full_iff full_ring_iff
    by (simp add: Let_def i1_def b_def)
  have b10: "of_nat b = (10 :: byte) \<Longrightarrow> b = 10"
    using assms(7) by (auto simp: b_def word_unat_eq_iff unat_of_nat take_bit_eq_mod split: if_splits)
  show ?thesis
  proof (cases commit)
    case True
    then show ?thesis unfolding key lk using type_inv(2,3) [OF assms(1,8), of "of_nat b"] dt
      by (simp add: i1_def)
  next
    case False
    then have "of_nat b \<noteq> (10 :: byte)" using b10 by (auto simp: commit_def)
    then show ?thesis unfolding key lk
      using False type_inv(1) [OF assms(1,8), of "of_nat b"] type_char(3) [OF assms(1,8), of "of_nat b"] dt
      by (simp add: i1_def)
  qed
qed

lemma input_key_lines:
  assumes "input_inv i" "c \<noteq> 16" "c < 256"
  shows "lines (fst (input_key c i)) = line_key c (lines i) \<and> input_inv (fst (input_key c i))"
proof (cases "c = 21 \<or> c = 8 \<or> c = 127 \<or> c = 0 \<or> \<not> unat (ie i - ir i) < INPUT_BUF")
  case True
  have sum: "length (fst (lines i)) + length (snd (lines i)) = unat (ie i - ir i)"
    by (rule lines_lengths [OF assms(1)])
  consider "c = 21" | "c \<noteq> 21" "c = 8 \<or> c = 127" "ie i \<noteq> iw i" | "c \<noteq> 21" "c = 8 \<or> c = 127" "ie i = iw i"
    | "c \<noteq> 21" "c \<noteq> 8" "c \<noteq> 127" "c = 0 \<or> \<not> unat (ie i - ir i) < INPUT_BUF" using True by auto
  then show ?thesis
  proof cases
    case 1
    then show ?thesis using kill_line_lines [OF assms(1) refl]
      by (simp add: input_key_def line_key_def case_prod_beta Let_def)
  next
    case 2
    then show ?thesis using rubout_lines [OF assms(1)]
      by (auto simp: input_key_def line_key_def case_prod_beta)
  next
    case 3
    then show ?thesis using empty_line [OF assms(1)] assms(1)
      by (auto simp: input_key_def line_key_def case_prod_beta prod_eq_iff)
  next
    case 4
    then show ?thesis unfolding input_key_def not_full_iff using assms sum
      by (auto simp: line_key_def case_prod_beta prod_eq_iff)
  qed
next
  case False
  then show ?thesis using input_key_type [OF assms(1)] assms(2,3) by simp
qed

lemma read_byte:
  assumes "input_inv i" "ir i \<noteq> iw i"
  shows "lines i = (ibuf i ! (unat (ir i) mod INPUT_BUF) # fst (lines (i\<lparr>ir := ir i + 1\<rparr>)), snd (lines (i\<lparr>ir := ir i + 1\<rparr>)))"
    and "input_inv (i\<lparr>ir := ir i + 1\<rparr>)"
proof -
  have w: "unat (iw i - ir i) = Suc (unat (iw i - (ir i + 1)))" by (rule count_get [OF assms(2)])
  have "ir i \<noteq> ie i" using assms(1) w by (auto simp: input_inv_def)
  then have e: "unat (ie i - ir i) = Suc (unat (ie i - (ir i + 1)))" by (rule count_get)
  have t: "typed i = ibuf i ! (unat (ir i) mod INPUT_BUF) # typed (i\<lparr>ir := ir i + 1\<rparr>)"
    unfolding typed_def e by (simp add: ir.get)
  show l: "lines i = (ibuf i ! (unat (ir i) mod INPUT_BUF) # fst (lines (i\<lparr>ir := ir i + 1\<rparr>)), snd (lines (i\<lparr>ir := ir i + 1\<rparr>)))"
    unfolding lines_def Let_def w t by simp
  show "input_inv (i\<lparr>ir := ir i + 1\<rparr>)"
    using assms(1) unfolding input_inv_def l w e by simp
qed

lemma consoleread_seg_lines:
  "input_inv i \<Longrightarrow>
     fst (consoleread_seg killed target n acc i) = fst (line_read killed target n acc (fst (lines i))) \<and>
     lines (snd (consoleread_seg killed target n acc i)) =
       (snd (line_read killed target n acc (fst (lines i))), snd (lines i)) \<and>
     input_inv (snd (consoleread_seg killed target n acc i))"
proof (induction n arbitrary: acc i)
  case 0
  then show ?case by simp
next
  case (Suc n)
  show ?case
  proof (cases "ir i = iw i")
    case True
    then have "fst (lines i) = []" by (simp add: lines_def Let_def)
    with True Suc.prems show ?thesis by (simp add: prod_eq_iff)
  next
    case False
    note b = read_byte [OF Suc.prems False]
    have same: "i\<lparr>ir := ir i + 1\<rparr>\<lparr>ir := ir (i\<lparr>ir := ir i + 1\<rparr>) - 1\<rparr> = i" by simp
    show ?thesis using False b Suc.prems Suc.IH [OF b(2)] same by (auto simp: Let_def)
  qed
qed

subsection \<open>The screen\<close>

definition cga_ok :: "cga \<Rightarrow> bool" where
  "cga_ok g \<longleftrightarrow> 24 * 80 \<le> length (crt g) \<and> cursor g < 24 * 80"

lemma cga_place_ok:
  assumes "cga_ok g"
  shows "\<exists>m pos. cga_place c g = Some (m, pos) \<and> length m = length (crt g) \<and>
     drop (24 * 80) m = drop (24 * 80) (crt g) \<and> pos \<le> 24 * 80"
proof -
  have "cursor g mod 80 < 80" by simp
  then have "cursor g + (80 - cursor g mod 80) = 80 * (cursor g div 80) + 80"
    using mult_div_mod_eq [of 80 "cursor g"] by linarith
  moreover have "cursor g div 80 < 24" using assms by (simp add: cga_ok_def less_mult_imp_div_less)
  ultimately have "cursor g + (80 - cursor g mod 80) \<le> 24 * 80" by linarith
  then show ?thesis using assms by (auto simp: cga_place_def cga_ok_def Let_def drop_update_cancel)
qed

lemma cga_scroll_ok:
  assumes "24 * 80 \<le> length m" "pos \<le> 24 * 80"
  shows "\<exists>m' pos'. cga_scroll (m, pos) = Some (m', pos') \<and> length m' = length m \<and>
     drop (24 * 80) m' = drop (24 * 80) m \<and> pos' < 24 * 80"
proof (cases "pos div 80 \<ge> 24")
  case True
  then have p: "pos = 24 * 80" using assms(2) by linarith
  then show ?thesis using assms by (simp add: cga_scroll_def Let_def overwrite_def)
next
  case False
  then have "pos < 24 * 80" by linarith
  with False show ?thesis by (simp add: cga_scroll_def)
qed

lemma cgaputc_ok:
  assumes "cga_ok g"
  shows "\<exists>g'. cgaputc c g = Some g' \<and> cga_ok g' \<and> length (crt g') = length (crt g) \<and>
     drop (24 * 80) (crt g') = drop (24 * 80) (crt g)"
proof -
  obtain m pos where 1: "cga_place c g = Some (m, pos)" "length m = length (crt g)"
    "drop (24 * 80) m = drop (24 * 80) (crt g)" "pos \<le> 24 * 80" using cga_place_ok [OF assms] by blast
  then have "24 * 80 \<le> length m" using assms by (simp add: cga_ok_def)
  then obtain m' pos' where 2: "cga_scroll (m, pos) = Some (m', pos')" "length m' = length m"
    "drop (24 * 80) m' = drop (24 * 80) m" "pos' < 24 * 80" using cga_scroll_ok 1(4) by blast
  then show ?thesis using 1 assms by (simp add: cgaputc_def cga_ok_def drop_update_cancel)
qed

text \<open>What reaches the serial line.\<close>

definition uart_bytes :: "nat \<Rightarrow> nat list" where
  "uart_bytes c = (if c = 256 then [8, 32, 8] else [c mod 256])"

lemma consputs_ok:
  assumes "\<not> con_panicked k" "cga_ok (screen k)"
  shows "\<exists>k'. consputs cs k = Inr ((), k') \<and> cga_ok (screen k') \<and>
     drop (24 * 80) (crt (screen k')) = drop (24 * 80) (crt (screen k)) \<and>
     length (crt (screen k')) = length (crt (screen k)) \<and>
     uart_out k' = uart_out k @ (if has_uart k then concat (map uart_bytes cs) else []) \<and>
     has_uart k' = has_uart k \<and> con_panicked k' = con_panicked k \<and> cons_locking k' = cons_locking k"
  using assms
proof (induction cs arbitrary: k)
  case Nil
  then show ?case by (simp add: ret_def)
next
  case (Cons c cs)
  obtain g where g: "cgaputc c (screen k) = Some g" "cga_ok g" "length (crt g) = length (crt (screen k))"
    "drop (24 * 80) (crt g) = drop (24 * 80) (crt (screen k))" using cgaputc_ok [OF Cons.prems(2)] by blast
  define k1 where "k1 = (if c = 256 then uartputc 8 (uartputc 32 (uartputc 8 k)) else uartputc c k)\<lparr>screen := g\<rparr>"
  have f: "screen k1 = g" "uart_out k1 = uart_out k @ (if has_uart k then uart_bytes c else [])"
    "has_uart k1 = has_uart k" "con_panicked k1 = con_panicked k" "cons_locking k1 = cons_locking k"
    by (simp_all add: k1_def uartputc_def uart_bytes_def)
  have "consputc c k = Inr ((), k1)"
    using Cons.prems(1) g(1) by (cases "c = 256") (simp_all add: consputc_def k1_def uartputc_def)
  with Cons.IH [of k1] f g Cons.prems(1) show ?case by auto
qed

subsection \<open>The interrupt handler\<close>

text \<open>
  Taking a lock that is free and giving it back. \<open>cli c n s\<close>: the CPU is \<open>n\<close> deep in
  sections without interrupts.
\<close>

definition cli :: "nat \<Rightarrow> int \<Rightarrow> 'a proc_st_scheme \<Rightarrow> bool" where
  "cli c n s \<longleftrightarrow> ncli (cpus (lks s) c) = n \<and> (0 < n \<longrightarrow> \<not> ifl (cpus (lks s) c))"

definition lock_free :: "nat \<Rightarrow> 'a proc_st_scheme \<Rightarrow> bool" where
  "lock_free l s \<longleftrightarrow> locked (locks (lks s) l) = 0"

lemma acquire_run:
  assumes "locked (locks k l) = 0"
  shows "acquire c l [] k = Inr ((), k\<lparr>
    cpus := (cpus k)(c := (cpus k c)\<lparr>ncli := ncli (cpus k c) + 1,
      intena := if ncli (cpus k c) = 0 then ifl (cpus k c) else intena (cpus k c), ifl := False\<rparr>),
    locks := (locks k)(l := (locks k l)\<lparr>locked := 1, lk_cpu := Some c, lk_pcs := []\<rparr>)\<rparr>)"
  using assms unfolding acquire_def acquire_enter_run pushcli_run kbind_def by (simp add: spin_runs holding_def)

lemma release_run:
  assumes "holding c l k" "\<not> ifl (cpus k c)" "0 < ncli (cpus k c)"
  shows "release c l k = Inr ((), k\<lparr>
    locks := (locks k)(l := (locks k l)\<lparr>lk_cpu := None, lk_pcs := (lk_pcs (locks k l))[0 := 0], locked := 0\<rparr>),
    cpus := (cpus k)(c := (cpus k c)\<lparr>ncli := ncli (cpus k c) - 1, ifl := ncli (cpus k c) = 1 \<and> intena (cpus k c)\<rparr>)\<rparr>)"
  using assms unfolding release_def release_enter_run kbind_def by (simp add: spin_runs)

lemma acquire_free:
  assumes "lock_free l s" "cli c n s" "0 \<le> n"
  shows "\<exists>L. acquire_lock c l s = Inr ((), s\<lparr>lks := L\<rparr>) \<and> cli c (n + 1) (s\<lparr>lks := L\<rparr>) \<and>
     holding c l L \<and> (\<forall>k. k \<noteq> l \<longrightarrow> locks L k = locks (lks s) k)"
proof -
  have "locked (locks (lks s) l) = 0" using assms(1) by (simp add: lock_free_def)
  note r = acquire_run [OF this, of c]
  show ?thesis
    by (rule exI, rule conjI, unfold acquire_lock_def on_locks_def r, simp only: sum.case prod.case)
      (use assms(2,3) in \<open>simp add: cli_def holding_def\<close>)
qed

lemma release_held:
  assumes "holding c l (lks s)" "cli c n s" "0 < n"
  shows "\<exists>L. release_lock c l s = Inr ((), s\<lparr>lks := L\<rparr>) \<and> cli c (n - 1) (s\<lparr>lks := L\<rparr>) \<and>
     lock_free l (s\<lparr>lks := L\<rparr>) \<and> (\<forall>k. k \<noteq> l \<longrightarrow> locks L k = locks (lks s) k)"
proof -
  have "\<not> ifl (cpus (lks s) c)" "0 < ncli (cpus (lks s) c)" using assms(2,3) by (auto simp: cli_def)
  note r = release_run [OF assms(1) this]
  show ?thesis
    by (rule exI, rule conjI, unfold release_lock_def on_locks_def r, simp only: sum.case prod.case)
      (use assms(2,3) in \<open>simp add: cli_def lock_free_def\<close>)
qed

lemma wakeup_runs:
  assumes "lock_free PTABLE_LOCK s" "cli c n s" "0 \<le> n"
  shows "\<exists>L t. wakeup c ch s = Inr ((), s\<lparr>lks := L, ptable := t\<rparr>) \<and> cli c n (s\<lparr>lks := L\<rparr>) \<and>
     lock_free PTABLE_LOCK (s\<lparr>lks := L\<rparr>) \<and> (\<forall>k. k \<noteq> PTABLE_LOCK \<longrightarrow> locks L k = locks (lks s) k)"
proof -
  obtain L where a: "acquire_lock c PTABLE_LOCK s = Inr ((), s\<lparr>lks := L\<rparr>)" "cli c (n + 1) (s\<lparr>lks := L\<rparr>)"
    "holding c PTABLE_LOCK L" "\<forall>k. k \<noteq> PTABLE_LOCK \<longrightarrow> locks L k = locks (lks s) k"
    using acquire_free [OF assms] by blast
  define t where "t = map (\<lambda>x. if p_state x = SLEEPING \<and> p_chan x = ch then x\<lparr>p_state := RUNNABLE\<rparr> else x) (ptable s)"
  define s1 where "s1 = s\<lparr>lks := L, ptable := t\<rparr>"
  have w: "wakeup1 ch (s\<lparr>lks := L\<rparr>) = Inr ((), s1)" by (simp add: wakeup1_def modify_def s1_def t_def)
  have "holding c PTABLE_LOCK (lks s1)" "cli c (n + 1) s1" using a by (simp_all add: s1_def cli_def)
  from release_held [OF this] assms(3) obtain L' where b:
    "release_lock c PTABLE_LOCK s1 = Inr ((), s1\<lparr>lks := L'\<rparr>)" "cli c n (s1\<lparr>lks := L'\<rparr>)"
    "lock_free PTABLE_LOCK (s1\<lparr>lks := L'\<rparr>)" "\<forall>k. k \<noteq> PTABLE_LOCK \<longrightarrow> locks L' k = locks (lks s1) k" by auto
  have "wakeup c ch s = Inr ((), s1\<lparr>lks := L'\<rparr>)" unfolding wakeup_def using a(1) w b(1) by simp
  moreover have "s1\<lparr>lks := L'\<rparr> = s\<lparr>lks := L', ptable := t\<rparr>" by (simp add: s1_def)
  ultimately have "wakeup c ch s = Inr ((), s\<lparr>lks := L', ptable := t\<rparr>)" by simp
  moreover have "cli c n (s\<lparr>lks := L'\<rparr>)" "lock_free PTABLE_LOCK (s\<lparr>lks := L'\<rparr>)"
    using b(2,3) by (simp_all add: cli_def lock_free_def)
  moreover have "\<forall>k. k \<noteq> PTABLE_LOCK \<longrightarrow> locks L' k = locks (lks s) k" using a(4) b(4) by (simp add: s1_def)
  ultimately show ?thesis by blast
qed

text \<open>The state in the middle of \<open>consoleintr\<close> on CPU \<open>c\<close>.\<close>

definition in_intr :: "nat \<Rightarrow> 'a console_st_scheme \<Rightarrow> bool" where
  "in_intr c s \<longleftrightarrow> holding c INPUT_LOCK (lks s) \<and> lock_free PTABLE_LOCK s \<and>
     (\<exists>n. 0 < n \<and> cli c n s) \<and> \<not> con_panicked (con s) \<and> cga_ok (screen (con s)) \<and> input_inv (inp s)"

lemma consoleintr_key_runs:
  assumes "in_intr c s" "k < 256" "k \<noteq> 16"
  shows "\<exists>s'. consoleintr_key c k s = Inr ((), s') \<and> in_intr c s' \<and> lines (inp s') = line_key k (lines (inp s)) \<and>
     kbd_shift s' = kbd_shift s"
proof -
  obtain i out wake where key: "input_key k (inp s) = (i, out, wake)" by (metis prod_cases3)
  have i: "lines i = line_key k (lines (inp s))" "input_inv i"
    using input_key_lines [of "inp s" k] assms key by (simp_all add: in_intr_def)
  obtain k1 where k1: "consputs out (con s) = Inr ((), k1)" "\<not> con_panicked k1" "cga_ok (screen k1)"
    using consputs_ok [of "con s" out] assms(1) by (auto simp: in_intr_def)
  define s1 where "s1 = s\<lparr>inp := i, con := k1\<rparr>"
  have s1: "in_intr c s1" using assms(1) k1 i by (simp add: in_intr_def s1_def cli_def lock_free_def)
  have o: "on_con (consputs out) (s\<lparr>inp := i\<rparr>) = Inr ((), s1)" using k1(1) by (simp add: on_con_def s1_def)
  have run: "consoleintr_key c k s = (if wake then wakeup c ChanInput else ret ()) s1"
    using assms(3) o by (simp add: key consoleintr_key_def)
  show ?thesis
  proof (cases wake)
    case True
    obtain n where n: "0 < n" "cli c n s1" "lock_free PTABLE_LOCK s1" using s1 by (auto simp: in_intr_def)
    have pos: "0 \<le> n" using n(1) by simp
    obtain L t where w: "wakeup c ChanInput s1 = Inr ((), s1\<lparr>lks := L, ptable := t\<rparr>)"
      "cli c n (s1\<lparr>lks := L\<rparr>)" "lock_free PTABLE_LOCK (s1\<lparr>lks := L\<rparr>)"
      "\<forall>k. k \<noteq> PTABLE_LOCK \<longrightarrow> locks L k = locks (lks s1) k" using wakeup_runs [OF n(3,2) pos] by blast
    have "holding c INPUT_LOCK L" using s1 w(4) [rule_format, of INPUT_LOCK] by (simp add: in_intr_def holding_def)
    moreover have "cli c n (s1\<lparr>lks := L, ptable := t\<rparr>)" "lock_free PTABLE_LOCK (s1\<lparr>lks := L, ptable := t\<rparr>)"
      using w(2,3) by (simp_all add: cli_def lock_free_def)
    ultimately have "in_intr c (s1\<lparr>lks := L, ptable := t\<rparr>)"
      using s1 n(1) unfolding in_intr_def by (intro conjI exI [of _ n]) simp_all
    with w(1) run True i show ?thesis by (auto simp: s1_def)
  next
    case False
    with run s1 i show ?thesis by (auto simp: s1_def ret_def)
  qed
qed

lemma on_locks_con: "kept inp s (on_locks m s)" "kept con s (on_locks m s)"
  by (auto simp: kept_def on_locks_def split: sum.splits prod.splits)

lemma on_con_inp: "kept inp s (on_con m s)"
  by (auto simp: kept_def on_con_def split: sum.splits prod.splits)

lemma cons_print_inp: "kept inp s (cons_print c out s)"
  unfolding cons_print_def acquire_lock_def release_lock_def
  by (intro kept_rules on_con_inp on_locks_con)

lemmas print_inp = on_con_inp cons_print_inp

lemma dump_pcs_inp: "kept inp s (dump_pcs c pcs s)"
proof (induction pcs arbitrary: s)
  case (Cons pc pcs)
  show ?case unfolding dump_pcs.simps by (intro kept_rules print_inp Cons)
qed (simp add: kept_branches)

lemma dump_proc_inp: "kept inp s (dump_proc c x s)"
  unfolding dump_proc_def by (intro kept_rules print_inp dump_pcs_inp)

lemma dump_procs_inp: "kept inp s (dump_procs c ps s)"
proof (induction ps arbitrary: s)
  case (Cons p ps)
  show ?case unfolding dump_procs.simps by (intro kept_rules dump_proc_inp Cons)
qed (simp add: kept_branches)

lemma wakeup_inp: "kept inp s (wakeup c ch s)"
  unfolding wakeup_def wakeup1_def acquire_lock_def release_lock_def
  by (intro kept_rules on_locks_con) simp

lemma consoleintr_key_lines:
  assumes "consoleintr_key c k s = Inr ((), s')" "input_inv (inp s)" "k < 256"
  shows "input_inv (inp s')" "lines (inp s') = line_key k (lines (inp s))"
proof -
  have "input_inv (inp s') \<and> lines (inp s') = line_key k (lines (inp s))"
  proof (cases "k = 16")
    case True
    then have "inp s' = inp s"
      using keptD [OF dump_procs_inp] assms(1) by (fastforce simp: consoleintr_key_def procdump_def)
    with True assms(2) show ?thesis by (simp add: line_key_def case_prod_beta)
  next
    case False
    obtain i out wake where key: "input_key k (inp s) = (i, out, wake)" by (metis prod_cases3)
    have "kept inp (s\<lparr>inp := i\<rparr>)
        (kbind (on_con (consputs out)) (\<lambda>_. if wake then wakeup c ChanInput else ret ()) (s\<lparr>inp := i\<rparr>))"
      by (intro kept_rules print_inp wakeup_inp)
    then have "inp s' = i"
      using assms(1) False key by (auto simp: consoleintr_key_def dest: keptD)
    then show ?thesis using input_key_lines [OF assms(2) False assms(3)] key by simp
  qed
  then show "input_inv (inp s')" "lines (inp s') = line_key k (lines (inp s))" by blast+
qed

lemma consoleintr_loop_lines:
  "consoleintr_loop c ks s = Inr ((), s') \<Longrightarrow> input_inv (inp s) \<Longrightarrow> \<forall>k\<in>set ks. k < 256 \<Longrightarrow>
     input_inv (inp s') \<and> lines (inp s') = fold line_key ks (lines (inp s))"
proof (induction ks arbitrary: s)
  case (Cons k ks)
  then obtain s1 where 1: "consoleintr_key c k s = Inr ((), s1)" "consoleintr_loop c ks s1 = Inr ((), s')"
    by (auto simp: kbind_eq_Inr_iff)
  with Cons consoleintr_key_lines [OF 1(1)] show ?case by simp
qed (simp add: ret_def)

lemma consoleintr_loop_runs:
  "in_intr c s \<Longrightarrow> \<forall>k\<in>set ks. k < 256 \<and> k \<noteq> 16 \<Longrightarrow>
     \<exists>s'. consoleintr_loop c ks s = Inr ((), s') \<and> in_intr c s'"
proof (induction ks arbitrary: s)
  case (Cons k ks)
  then obtain s1 where "consoleintr_key c k s = Inr ((), s1)" "in_intr c s1"
    using consoleintr_key_runs [of c s k] by auto
  with Cons show ?case by simp
qed (simp add: ret_def)

text \<open>\<open>consoleintr\<close> can be entered.\<close>

definition may_intr :: "nat \<Rightarrow> 'a console_st_scheme \<Rightarrow> bool" where
  "may_intr c s \<longleftrightarrow> lock_free INPUT_LOCK s \<and> lock_free PTABLE_LOCK s \<and> cli c (ncli (cpus (lks s) c)) s \<and>
     0 \<le> ncli (cpus (lks s) c) \<and> \<not> con_panicked (con s) \<and> cga_ok (screen (con s)) \<and> input_inv (inp s)"

lemma consoleintr_runs:
  assumes "may_intr c s" "\<forall>k\<in>set ks. k < 256 \<and> k \<noteq> 16"
  shows "\<exists>s'. consoleintr c ks s = Inr ((), s')"
proof -
  obtain n where n: "0 \<le> n" "cli c n s" using assms(1) by (auto simp: may_intr_def)
  then obtain L where a: "acquire_lock c INPUT_LOCK s = Inr ((), s\<lparr>lks := L\<rparr>)" "cli c (n + 1) (s\<lparr>lks := L\<rparr>)"
    "holding c INPUT_LOCK L" "\<forall>k. k \<noteq> INPUT_LOCK \<longrightarrow> locks L k = locks (lks s) k"
    using acquire_free [of INPUT_LOCK s c n] assms(1) by (auto simp: may_intr_def)
  then have "in_intr c (s\<lparr>lks := L\<rparr>)"
    using assms(1) n(1) a(4) [rule_format, of PTABLE_LOCK] unfolding in_intr_def may_intr_def lock_free_def
    by (intro conjI exI [of _ "n + 1"]) simp_all
  from consoleintr_loop_runs [OF this assms(2)] obtain s1
    where 1: "consoleintr_loop c ks (s\<lparr>lks := L\<rparr>) = Inr ((), s1)" "in_intr c s1" by blast
  then obtain m where "0 < m" "cli c m s1" "holding c INPUT_LOCK (lks s1)" by (auto simp: in_intr_def)
  from release_held [OF this(3,2,1)] 1(1) a(1) show ?thesis by (auto simp: consoleintr_def)
qed

lemma consoleintr_lines:
  assumes "consoleintr c ks s = Inr ((), s')" "input_inv (inp s)" "\<forall>k\<in>set ks. k < 256"
  shows "input_inv (inp s') \<and> lines (inp s') = fold line_key ks (lines (inp s))"
proof -
  obtain s1 s2 where 1: "acquire_lock c INPUT_LOCK s = Inr ((), s1)" "consoleintr_loop c ks s1 = Inr ((), s2)"
    "release_lock c INPUT_LOCK s2 = Inr ((), s')"
    using assms(1) by (auto simp: consoleintr_def kbind_eq_Inr_iff)
  have "inp s1 = inp s" "inp s' = inp s2"
    using keptD [OF on_locks_con(1) 1(1) [unfolded acquire_lock_def]]
      keptD [OF on_locks_con(1) 1(3) [unfolded release_lock_def]] by simp_all
  with consoleintr_loop_lines [OF 1(2)] assms(2,3) show ?thesis by simp
qed

subsection \<open>Typing\<close>

lemma line_key_0: "line_key 0 x = x"
  by (simp add: line_key_def case_prod_beta)

lemma fold_line_key_filter: "fold line_key cs x = fold line_key (filter (\<lambda>c. c \<noteq> 0) cs) x"
  by (induction cs arbitrary: x) (simp_all add: line_key_0)

lemma fold_printable:
  "\<forall>ch\<in>set l. ch \<in> {32..<127} \<Longrightarrow> length t + length l < INPUT_BUF \<Longrightarrow>
     fold line_key l ([], t) = ([], t @ map of_nat l)"
proof (induction l arbitrary: t)
  case (Cons ch l)
  then have "line_key ch ([], t) = ([], t @ [of_nat ch])" by (auto simp: line_key_def Let_def)
  with Cons show ?case by simp
qed simp

lemma line_read_line:
  "\<forall>b\<in>set l. b \<noteq> 4 \<and> b \<noteq> 10 \<Longrightarrow> length l < n \<Longrightarrow>
     line_read killed target n acc (l @ [10]) = (CRet (acc @ l @ [10]), [])"
proof (induction l arbitrary: n acc)
  case Nil
  then show ?case by (cases n) simp_all
next
  case (Cons b l)
  then show ?case by (cases n) simp_all
qed

subsection \<open>Properties\<close>

text \<open>
  C8 The line editor keeps its promise. For characters below 256 and an input buffer that
  satisfies the invariant, whatever \<open>consoleintr\<close> does to the ring buffer and its three
  wrapping indices is what the abstract editor does to the list of finished lines and the line
  being typed (characters are appended, rubbed out and killed, a line is finished by newline,
  \<open>^D\<close> or a full buffer, and characters that do not fit are dropped). It returns whenever its
  locks are free and no process listing is asked for. And \<open>consoleread\<close> takes from the ring
  buffer what the abstract reader takes from the finished lines: up to a newline, at most \<open>n\<close>
  bytes, \<open>^D\<close> as an end that is left for the next call unless nothing was read.
\<close>
theorem console_line_discipline:
  assumes "input_inv (inp s)" "\<forall>k\<in>set ks. k < 256"
  shows "(consoleintr c ks s = Inr ((), s') \<longrightarrow>
       input_inv (inp s') \<and> lines (inp s') = fold line_key ks (lines (inp s))) \<and>
     (may_intr c s \<and> 16 \<notin> set ks \<longrightarrow> (\<exists>t. consoleintr c ks s = Inr ((), t))) \<and>
     (consoleread_seg killed target n acc (inp s) = (r, i) \<longrightarrow>
       input_inv i \<and> (r, fst (lines i)) = line_read killed target n acc (fst (lines (inp s))) \<and>
       snd (lines i) = snd (lines (inp s)))"
proof -
  have "consoleintr c ks s = Inr ((), s') \<longrightarrow>
      input_inv (inp s') \<and> lines (inp s') = fold line_key ks (lines (inp s))"
    using consoleintr_lines [of c ks s s'] assms by blast
  moreover have "may_intr c s \<and> 16 \<notin> set ks \<longrightarrow> (\<exists>t. consoleintr c ks s = Inr ((), t))"
    using consoleintr_runs [of c s ks] assms(2) by auto
  moreover have "consoleread_seg killed target n acc (inp s) = (r, i) \<longrightarrow>
       input_inv i \<and> (r, fst (lines i)) = line_read killed target n acc (fst (lines (inp s))) \<and>
       snd (lines i) = snd (lines (inp s))"
    using consoleread_seg_lines [OF assms(1), of killed target n acc] by (auto simp: prod_eq_iff)
  ultimately show ?thesis by blast
qed

text \<open>
  C33 Printing never leaves the screen: from a cursor inside the first 24 rows, any sequence of
  characters and rubouts is printed without an access outside the screen memory, leaves the
  cursor inside the 24 rows and everything below them unchanged, and sends every character
  (a rubout as back, blank, back) to the serial line in order.
\<close>
theorem console_screen_bounds:
  assumes "\<not> con_panicked k" "cga_ok (screen k)"
  shows "\<exists>k'. consputs cs k = Inr ((), k') \<and> cga_ok (screen k') \<and>
     drop (24 * 80) (crt (screen k')) = drop (24 * 80) (crt (screen k)) \<and>
     length (crt (screen k')) = length (crt (screen k)) \<and>
     uart_out k' = uart_out k @ (if has_uart k then concat (map uart_bytes cs) else [])"
  using consputs_ok [OF assms, of cs] by blast

text \<open>
  C29 From the keys to the reader: when the input is empty, pressing and releasing the keys for
  fewer than 127 printable characters (with the shift key where the layout needs it) and then
  Enter delivers exactly that line, ended by a newline, to a \<open>consoleread\<close> that asks for
  enough bytes.
\<close>
theorem typed_line_read:
  assumes "may_intr c s" "lines (inp s) = ([], [])" "kbd_shift s = 0"
    and "\<forall>ch\<in>set l. ch \<in> {32..<127}" "length l < 127" "length l < n"
  shows "\<exists>s'. kbdintr c (concat (map keystrokes l) @ [0x1C, 0x9C]) s = Inr ((), s') \<and>
     fst (consoleread_seg killed n n [] (inp s')) = CRet (map of_nat l @ [10])"
proof -
  obtain cs where cs: "kbd_chars (concat (map keystrokes l)) 0 = (cs, 0)" "filter (\<lambda>x. x \<noteq> 0) cs = l"
    using kbd_line [OF assms(4)] by blast
  define ks where "ks = cs @ [10, 0]"
  have k: "kbd_chars (concat (map keystrokes l) @ [0x1C, 0x9C]) 0 = (ks, 0)"
    unfolding kbd_chars_append by (simp only: cs(1) types_enter Let_def prod.case ks_def)
  have set_ks: "set ks \<subseteq> set l \<union> {0, 10}" using cs(2) by (auto simp: ks_def)
  then have small: "\<forall>k\<in>set ks. k < 256 \<and> k \<noteq> 16" using assms(4) by fastforce
  define s0 where "s0 = s\<lparr>kbd_shift := 0\<rparr>"
  have s0: "may_intr c s0" "inp s0 = inp s"
    using assms(1) by (simp_all add: may_intr_def s0_def lock_free_def cli_def)
  obtain s' where s': "consoleintr c ks s0 = Inr ((), s')" using consoleintr_runs [OF s0(1) small] by blast
  have run: "kbdintr c (concat (map keystrokes l) @ [0x1C, 0x9C]) s = Inr ((), s')"
    using s' k assms(3) by (simp add: kbdintr_def s0_def)
  have inv: "input_inv (inp s0)" using s0(1) by (simp add: may_intr_def)
  have f: "fold line_key ks ([], []) = (map of_nat l @ [10], [])"
    using fold_printable [OF assms(4), of "[]"] assms(5) cs(2)
    by (subst fold_line_key_filter) (simp add: ks_def line_key_def)
  have l: "input_inv (inp s')" "lines (inp s') = (map of_nat l @ [10], [])"
    using consoleintr_lines [OF s' inv] small f assms(2) s0(2) by simp_all
  have "of_nat ch \<noteq> (4 :: byte) \<and> of_nat ch \<noteq> (10 :: byte)" if "ch \<in> set l" for ch
    using that assms(4) by (auto simp: word_unat_eq_iff unat_of_nat take_bit_eq_mod)
  then have "fst (consoleread_seg killed n n [] (inp s')) = CRet (map of_nat l @ [10])"
    using consoleread_seg_lines [OF l(1), of killed n n "[]"] l(2)
      line_read_line [of "map of_nat l" n killed n "[]"] assms(6) by simp
  with run show ?thesis by blast
qed

text \<open>A machine after boot, with an empty console; the indices are about to wrap around.\<close>

definition console0 :: console_st where
  "console0 = proc_st.extend (vm_st.extend (mem_st.extend mem0 (vm_st.fields 0x80400000 (\<lambda>_. 0x400000)))
      (proc_st.fields [] (\<lambda>_. None) 0 1 (\<lambda>_. 0)
        \<lparr>cpus = (\<lambda>_. \<lparr>ncli = 0, intena = True, ifl = False\<rparr>),
         locks = (\<lambda>_. \<lparr>locked = 0, lk_name = [], lk_cpu = None, lk_pcs = []\<rparr>)\<rparr> 0 False))
    (console_st.fields
      \<lparr>screen = \<lparr>crt = replicate 2000 0, cursor = 1919\<rparr>, uart_out = [], has_uart = True,
       con_panicked = False, cons_locking = True\<rparr>
      \<lparr>ibuf = replicate 128 0, ir = 0xFFFFFFFE, iw = 0xFFFFFFFE, ie = 0xFFFFFFFE\<rparr> 0)"

lemma console0_simps [simp]:
  "lks console0 = \<lparr>cpus = (\<lambda>_. \<lparr>ncli = 0, intena = True, ifl = False\<rparr>),
     locks = (\<lambda>_. \<lparr>locked = 0, lk_name = [], lk_cpu = None, lk_pcs = []\<rparr>)\<rparr>"
  "con console0 = \<lparr>screen = \<lparr>crt = replicate 2000 0, cursor = 1919\<rparr>, uart_out = [], has_uart = True,
     con_panicked = False, cons_locking = True\<rparr>"
  "inp console0 = \<lparr>ibuf = replicate 128 0, ir = 0xFFFFFFFE, iw = 0xFFFFFFFE, ie = 0xFFFFFFFE\<rparr>"
  "kbd_shift console0 = 0"
  by (simp_all add: console0_def proc_st.defs vm_st.defs mem_st.defs console_st.defs)

lemma console0_lines: "lines (inp console0) = ([], [])"
  by (simp add: lines_def typed_def)

lemma console0_may_intr: "may_intr 2 console0"
  by (simp add: may_intr_def lock_free_def cli_def cga_ok_def input_inv_def lines_def typed_def)

theorem console_line_discipline_witness:
  "\<exists>t. consoleintr 2 [104, 105, 8, 111, 13] console0 = Inr ((), t) \<and> lines (inp t) = ([104, 111, 10], [])"
proof -
  define ks :: "nat list" where "ks = [104, 105, 8, 111, 13]"
  have inv: "input_inv (inp console0)" using console0_may_intr by (simp add: may_intr_def)
  have small: "\<forall>k\<in>set ks. k < 256" "16 \<notin> set ks" by (simp_all add: ks_def)
  obtain t where t: "consoleintr 2 ks console0 = Inr ((), t)"
    using console_line_discipline [OF inv small(1), of 2] console0_may_intr small(2) by blast
  have "lines (inp t) = fold line_key ks (lines (inp console0))"
    using console_line_discipline [OF inv small(1), of 2 t] t by blast
  also have "\<dots> = ([104, 111, 10], [])" unfolding console0_lines by (simp add: ks_def line_key_def)
  finally show ?thesis using t unfolding ks_def by blast
qed

theorem console_screen_bounds_witness:
  "\<exists>k'. consputs [120, 10, 256, 121] (con console0) = Inr ((), k') \<and> cursor (screen k') < 24 * 80 \<and>
     uart_out k' = [120, 10, 8, 32, 8, 121]"
proof -
  have "\<not> con_panicked (con console0)" "cga_ok (screen (con console0))" by (simp_all add: cga_ok_def)
  from console_screen_bounds [OF this, of "[120, 10, 256, 121]"] show ?thesis
    by (auto simp: cga_ok_def uart_bytes_def)
qed

theorem typed_line_read_witness:
  "\<exists>s'. kbdintr 2 (concat (map keystrokes [76, 115]) @ [0x1C, 0x9C]) console0 = Inr ((), s') \<and>
     fst (consoleread_seg False 9 9 [] (inp s')) = CRet [76, 115, 10]"
  using typed_line_read [OF console0_may_intr console0_lines, of "[76, 115]" 9 False] by simp

end
