(* ===== verification/Umalloc.thy ===== *)
theory Umalloc
  imports Prelude
begin

text \<open>
  The user library's allocator (\<open>umalloc.c\<close>), the circular free list of Kernighan and
  Ritchie. A \<open>Header *\<close> is an address; the two fields of a header are functions of its
  address, and the pointer arithmetic of the code counts in units of 8 bytes. The static header
  \<open>base\<close> is at a fixed address below the heap. \<open>sbrk\<close> is the system call: the end of
  the process's memory is part of the state, and whether the kernel has pages left to grow it is
  the parameter \<open>grow\<close>.
\<close>

subsection \<open>The allocator\<close>

record heap =
  hptr :: "u32 \<Rightarrow> u32"
  hsize :: "u32 \<Rightarrow> u32"
  freep :: u32
  base :: u32
  brk :: u32

abbreviation (input) set_ptr :: "u32 \<Rightarrow> u32 \<Rightarrow> heap \<Rightarrow> heap" where
  "set_ptr a v h \<equiv> h\<lparr>hptr := (hptr h)(a := v)\<rparr>"

abbreviation (input) set_size :: "u32 \<Rightarrow> u32 \<Rightarrow> heap \<Rightarrow> heap" where
  "set_size a v h \<equiv> h\<lparr>hsize := (hsize h)(a := v)\<rparr>"

text \<open>
  \<open>sbrk(n)\<close> in the kernel (\<open>growproc\<close> on the signed \<open>n\<close>): growing stops below
  \<open>KERNBASE\<close>; shrinking is \<open>deallocuvm\<close>, which does nothing when the new size wraps
  around to a larger one.
\<close>

definition sbrk :: "(u32 \<Rightarrow> u32 \<Rightarrow> bool) \<Rightarrow> u32 \<Rightarrow> heap \<Rightarrow> u32 \<times> heap" where
  "sbrk grow n h =
     (let sz = brk h; new = sz + n in
      if 0 <s n then
        if new \<ge> 0x80000000 then (-1, h)
        else if new < sz then (sz, h)
        else if grow sz new then (sz, h\<lparr>brk := new\<rparr>) else (-1, h)
      else if n <s 0 then
        let new' = (if new \<ge> sz then sz else new) in
        if new' = 0 then (-1, h) else (sz, h\<lparr>brk := new'\<rparr>)
      else (sz, h))"

text \<open>The walk of \<open>free\<close> from \<open>p\<close> to the place where the block \<open>bp\<close> belongs.\<close>

partial_function (option) free_search :: "heap \<Rightarrow> u32 \<Rightarrow> u32 \<Rightarrow> u32 option" where
  "free_search h bp p =
     (if p < bp \<and> bp < hptr h p then Some p
      else if hptr h p \<le> p \<and> (p < bp \<or> bp < hptr h p) then Some p
      else free_search h bp (hptr h p))"

definition free_up :: "u32 \<Rightarrow> u32 \<Rightarrow> heap \<Rightarrow> heap" where
  "free_up bp p h =
     (if bp + 8 * hsize h bp = hptr h p then
        let h1 = set_size bp (hsize h bp + hsize h (hptr h p)) h in
        set_ptr bp (hptr h1 (hptr h1 p)) h1
      else set_ptr bp (hptr h p) h)"

definition free_down :: "u32 \<Rightarrow> u32 \<Rightarrow> heap \<Rightarrow> heap" where
  "free_down bp p h =
     (if p + 8 * hsize h p = bp then
        let h1 = set_size p (hsize h p + hsize h bp) h in set_ptr p (hptr h1 bp) h1
      else set_ptr p bp h)"

definition free :: "u32 \<Rightarrow> heap \<Rightarrow> heap option" where
  "free ap h =
     (let bp = ap - 8 in
      map_option (\<lambda>p. (free_down bp p (free_up bp p h))\<lparr>freep := p\<rparr>) (free_search h bp (freep h)))"

definition morecore :: "(u32 \<Rightarrow> u32 \<Rightarrow> bool) \<Rightarrow> u32 \<Rightarrow> heap \<Rightarrow> (u32 \<times> heap) option" where
  "morecore grow nu h =
     (let nu' = (if nu < 4096 then 4096 else nu); (p, h1) = sbrk grow (nu' * 8) h in
      if p = -1 then Some (0, h1)
      else map_option (\<lambda>h2. (freep h2, h2)) (free (p + 8) (set_size p nu' h1)))"

text \<open>Cutting \<open>nunits\<close> units out of the block \<open>p\<close> that follows \<open>prevp\<close>.\<close>

definition carve :: "u32 \<Rightarrow> u32 \<Rightarrow> u32 \<Rightarrow> heap \<Rightarrow> u32 \<times> heap" where
  "carve nunits prevp p h =
     (if hsize h p = nunits then (p + 8, (set_ptr prevp (hptr h p) h)\<lparr>freep := prevp\<rparr>)
      else
        let h1 = set_size p (hsize h p - nunits) h; q = p + 8 * hsize h1 p in
        (q + 8, (set_size q nunits h1)\<lparr>freep := prevp\<rparr>))"

partial_function (option) malloc_loop ::
    "(u32 \<Rightarrow> u32 \<Rightarrow> bool) \<Rightarrow> u32 \<Rightarrow> u32 \<Rightarrow> u32 \<Rightarrow> heap \<Rightarrow> (u32 \<times> heap) option" where
  "malloc_loop grow nunits prevp p h =
     (if nunits \<le> hsize h p then Some (carve nunits prevp p h)
      else if p = freep h then
        Option.bind (morecore grow nunits h) (\<lambda>(q, h1).
          if q = 0 then Some (0, h1) else malloc_loop grow nunits q (hptr h1 q) h1)
      else malloc_loop grow nunits p (hptr h p) h)"

definition units :: "u32 \<Rightarrow> u32" where
  "units nbytes = (nbytes + 8 - 1) div 8 + 1"

definition malloc_init :: "heap \<Rightarrow> heap" where
  "malloc_init h =
     (if freep h = 0
      then h\<lparr>hptr := (hptr h)(base h := base h), hsize := (hsize h)(base h := 0), freep := base h\<rparr>
      else h)"

definition malloc :: "(u32 \<Rightarrow> u32 \<Rightarrow> bool) \<Rightarrow> u32 \<Rightarrow> heap \<Rightarrow> (u32 \<times> heap) option" where
  "malloc grow nbytes h =
     (let h1 = malloc_init h in malloc_loop grow (units nbytes) (freep h1) (hptr h1 (freep h1)) h1)"

subsection \<open>The free list\<close>

fun path :: "(u32 \<Rightarrow> u32) \<Rightarrow> u32 \<Rightarrow> u32 list \<Rightarrow> u32 \<Rightarrow> bool" where
  "path f x [] y \<longleftrightarrow> x = y"
| "path f x (a # as) y \<longleftrightarrow> x = a \<and> path f (f a) as y"

lemma path_append [simp]: "path f x (as @ bs) z \<longleftrightarrow> (\<exists>y. path f x as y \<and> path f y bs z)"
  by (induction as arbitrary: x) auto

lemma path_upd [simp]: "a \<notin> set as \<Longrightarrow> path (f(a := v)) x as y \<longleftrightarrow> path f x as y"
  by (induction as arbitrary: x) auto

lemma path_hd: "path f x as y \<Longrightarrow> hd (as @ [y]) = x"
  by (cases as) auto

text \<open>The end of a block, and blocks that do not overlap.\<close>

definition en :: "heap \<Rightarrow> u32 \<Rightarrow> nat" where
  "en h a = unat a + 8 * unat (hsize h a)"

definition apart :: "heap \<Rightarrow> u32 \<Rightarrow> u32 \<Rightarrow> bool" where
  "apart h a b \<longleftrightarrow> en h a \<le> unat b \<or> en h b \<le> unat a"

text \<open>
  The bytes of a set of blocks, the free blocks, which are the headers linked from \<open>freep\<close> (none
  before the first call), and their bytes.
\<close>

definition area :: "heap \<Rightarrow> u32 set \<Rightarrow> nat set" where
  "area h S = (\<Union>a\<in>S. {unat a..<en h a})"

definition free_nodes :: "heap \<Rightarrow> u32 set" where
  "free_nodes h = (if freep h = 0 then {} else range (\<lambda>n. (hptr h ^^ n) (freep h)))"

definition free_area :: "heap \<Rightarrow> nat set" where
  "free_area h = area h (free_nodes h)"

lemma area_simps [simp]: "area h {} = {}" "area h (insert a S) = {unat a..<en h a} \<union> area h S"
  "area h (S \<union> T) = area h S \<union> area h T"
  by (auto simp: area_def)

lemma area_cong: "\<forall>a\<in>S. hsize h' a = hsize h a \<Longrightarrow> area h' S = area h S"
  by (simp add: area_def en_def)

lemma path_orbit: "path f x as y \<Longrightarrow> a \<in> set as \<Longrightarrow> \<exists>n. a = (f ^^ n) x"
proof (induction as arbitrary: x)
  case (Cons b as)
  show ?case
  proof (cases "a = b")
    case True
    then show ?thesis using Cons.prems by (intro exI [of _ 0]) simp
  next
    case False
    then obtain n where "a = (f ^^ n) (f b)" using Cons.IH [of "f b"] Cons.prems by auto
    then show ?thesis using Cons.prems by (intro exI [of _ "Suc n"]) (simp add: funpow_swap1)
  qed
qed simp

lemma path_closed: "path f x as y \<Longrightarrow> a \<in> set as \<Longrightarrow> f a \<in> insert y (set as)"
proof (induction as arbitrary: x)
  case (Cons b as)
  then have "path f (f b) as y" by simp
  then show ?case using Cons by (cases as) auto
qed simp

text \<open>
  The invariant, for the set \<open>A\<close> of blocks in use and the free list \<open>c\<close> from \<open>base\<close>
  on: \<open>c\<close> is linked into a cycle, in the order of the addresses and with a gap between any two
  free blocks, and no two blocks overlap.
\<close>

definition heap_inv :: "heap \<Rightarrow> u32 set \<Rightarrow> u32 list \<Rightarrow> bool" where
  "heap_inv h A c \<longleftrightarrow>
     c \<noteq> [] \<and> path (hptr h) (base h) c (base h) \<and> sorted_wrt (\<lambda>a b. en h a < unat b) c \<and>
     hsize h (base h) = 0 \<and> (\<forall>a\<in>set c. a \<noteq> base h \<longrightarrow> 0 < unat (hsize h a)) \<and> (\<forall>a\<in>set c. en h a \<le> unat (brk h)) \<and>
     freep h \<in> set c \<and> unat (brk h) < 2 ^ 31 \<and> 0 < unat (base h) \<and> unat (base h) < unat (brk h) \<and>
     (\<forall>a\<in>A. 0 < unat (hsize h a) \<and> unat (base h) < unat a \<and> en h a \<le> unat (brk h) \<and>
        (\<forall>b\<in>A. b \<noteq> a \<longrightarrow> apart h a b) \<and> (\<forall>b\<in>set c. apart h a b))"

lemma heap_invD:
  assumes "heap_inv h A c"
  shows "c \<noteq> []" "path (hptr h) (base h) c (base h)" "sorted_wrt (\<lambda>a b. en h a < unat b) c"
    "hsize h (base h) = 0" "\<And>a. a \<in> set c \<Longrightarrow> a \<noteq> base h \<Longrightarrow> 0 < unat (hsize h a)"
    "\<And>a. a \<in> set c \<Longrightarrow> en h a \<le> unat (brk h)" "freep h \<in> set c" "unat (brk h) < 2 ^ 31"
    "0 < unat (base h)" "unat (base h) < unat (brk h)"
    "\<And>a. a \<in> A \<Longrightarrow> 0 < unat (hsize h a)" "\<And>a. a \<in> A \<Longrightarrow> unat (base h) < unat a"
    "\<And>a. a \<in> A \<Longrightarrow> en h a \<le> unat (brk h)" "\<And>a b. a \<in> A \<Longrightarrow> b \<in> A \<Longrightarrow> b \<noteq> a \<Longrightarrow> apart h a b"
    "\<And>a b. a \<in> A \<Longrightarrow> b \<in> set c \<Longrightarrow> apart h a b"
  using assms unfolding heap_inv_def by blast+

lemma base_in: "heap_inv h A c \<Longrightarrow> base h \<in> set c"
  using heap_invD(1,2) [of h A c] by (cases c) auto

text \<open>The free list of the invariant is the one that is linked in memory.\<close>

lemma free_nodes_list:
  assumes "heap_inv h A c"
  shows "free_nodes h = set c"
proof -
  note d = heap_invD [OF assms]
  have "freep h \<in> set c" by (rule d(7))
  then obtain us vs where c: "c = us @ freep h # vs" by (metis split_list)
  have nz: "freep h \<noteq> 0"
  proof
    assume "freep h = 0"
    moreover have "freep h = base h \<or> en h (base h) < unat (freep h)"
      using d(2,3) c by (cases us) auto
    ultimately show False using d(9) by auto
  qed
  have "path (hptr h) (freep h) (freep h # vs @ us) (freep h)" using d(2) c by auto
  then have "set c \<subseteq> range (\<lambda>n. (hptr h ^^ n) (freep h))"
    using path_orbit [of "hptr h" "freep h" "freep h # vs @ us" "freep h"] c by fastforce
  moreover have "(hptr h ^^ n) (freep h) \<in> set c" for n
  proof (induction n)
    case (Suc n)
    then show ?case using path_closed [OF d(2) Suc] base_in [OF assms] by auto
  qed (simp add: d(7))
  ultimately show ?thesis using nz by (auto simp: free_nodes_def)
qed

lemma en_upd: "en (h\<lparr>hsize := (hsize h)(a := v)\<rparr>) b = (if b = a then unat a + 8 * unat v else en h b)"
  "en (h\<lparr>hptr := f\<rparr>) b = en h b" "en (h\<lparr>freep := x\<rparr>) b = en h b" "en (h\<lparr>brk := y\<rparr>) b = en h b"
  by (simp_all add: en_def)

lemma sorted_less: "sorted_wrt (\<lambda>a b. en h a < unat b) (xs @ a # ys) \<Longrightarrow> y \<in> set ys \<Longrightarrow> en h a < unat y"
  by (auto simp: sorted_wrt_append)

lemma en_ge: "unat a \<le> en h a"
  by (simp add: en_def)

lemma sorted_addr:
  assumes "sorted_wrt (\<lambda>a b. en h a < unat b) c"
  shows "sorted_wrt (<) c"
  using assms by (rule sorted_wrt_mono_rel [rotated]) (metis en_ge le_less_trans word_less_nat_alt)

text \<open>A block in use is not in the free list.\<close>

lemma used_not_free:
  assumes "heap_inv h A c" "a \<in> A" "b \<in> set c"
  shows "a \<noteq> b"
proof (cases "b = base h")
  case True
  then show ?thesis using heap_invD(12) [OF assms(1,2)] by auto
next
  case False
  then have "0 < unat (hsize h b)" using heap_invD(5) [OF assms(1,3)] by simp
  then show ?thesis using heap_invD(15) [OF assms] heap_invD(11) [OF assms(1,2)] by (auto simp: apart_def en_def)
qed

subsection \<open>Finding the place of a block\<close>

lemma sorted_split:
  fixes b :: "'a :: linorder"
  shows "sorted_wrt (<) c \<Longrightarrow> b \<notin> set c \<Longrightarrow> \<exists>l r. c = l @ r \<and> (\<forall>x\<in>set l. x < b) \<and> (\<forall>y\<in>set r. b < y)"
proof (induction c)
  case (Cons a c)
  show ?case
  proof (cases "a < b")
    case True
    obtain l r where "c = l @ r" "\<forall>x\<in>set l. x < b" "\<forall>y\<in>set r. b < y" using Cons by auto
    then have "a # c = (a # l) @ r \<and> (\<forall>x\<in>set (a # l). x < b) \<and> (\<forall>y\<in>set r. b < y)" using True by simp
    then show ?thesis by blast
  next
    case False
    then have "b < a" using Cons.prems(2) by auto
    moreover have "\<forall>y\<in>set c. a < y" using Cons.prems(1) by simp
    ultimately have "a # c = [] @ (a # c) \<and> (\<forall>x\<in>set []. x < b) \<and> (\<forall>y\<in>set (a # c). b < y)" by auto
    then show ?thesis by blast
  qed
qed simp

lemma split_at:
  assumes "heap_inv h A c" "bp \<in> A"
  obtains xs p ys where "c = xs @ p # ys" "\<forall>x\<in>set (xs @ [p]). x < bp" "\<forall>y\<in>set ys. bp < y"
proof -
  have s: "sorted_wrt (<) c" using sorted_addr heap_invD(3) [OF assms(1)] by blast
  have "bp \<notin> set c" using used_not_free [OF assms] by blast
  from sorted_split [OF s this] obtain l r where lr: "c = l @ r" "\<forall>x\<in>set l. x < bp" "\<forall>y\<in>set r. bp < y" by blast
  have "base h < bp" using heap_invD(12) [OF assms] by (simp add: word_less_nat_alt)
  then have "base h \<notin> set r" using lr(3) by auto
  moreover have "base h \<in> set c" by (rule base_in [OF assms(1)])
  ultimately have "l \<noteq> []" using lr(1) by auto
  then obtain xs p where "l = xs @ [p]" by (cases l rule: rev_cases) auto
  with lr that [of xs p r] show thesis by simp
qed

lemma search_up:
  "path (hptr h) q (vs @ p # ys) b \<Longrightarrow> sorted_wrt (<) (vs @ p # ys) \<Longrightarrow> \<forall>x\<in>set (vs @ [p]). x < bp \<Longrightarrow>
     \<forall>y\<in>set ys. bp < y \<Longrightarrow> b \<le> p \<Longrightarrow> free_search h bp q = Some p"
proof (induction vs arbitrary: q)
  case Nil
  then have q: "q = p" "hd (ys @ [b]) = hptr h p" using path_hd [of "hptr h" "hptr h p" ys b] by auto
  show ?case using Nil q by (cases ys) (simp_all add: free_search.simps [of h bp p])
next
  case (Cons v vs)
  then have q: "q = v" "path (hptr h) (hptr h v) (vs @ p # ys) b" by auto
  then have "hptr h v \<in> set (vs @ [p])" by (cases vs) auto
  then have "v < hptr h v" "hptr h v < bp" using Cons.prems(2,3) by auto
  then have "free_search h bp q = free_search h bp (hptr h v)"
    using q(1) by (subst free_search.simps) auto
  then show ?case using Cons.IH [OF q(2)] Cons.prems by simp
qed

lemma search_round:
  "path (hptr h) q zs b \<Longrightarrow> sorted_wrt (<) zs \<Longrightarrow> zs \<noteq> [] \<Longrightarrow> \<forall>z\<in>set zs. bp < z \<Longrightarrow> b < bp \<Longrightarrow>
     free_search h bp q = free_search h bp b"
proof (induction zs arbitrary: q)
  case (Cons z zs)
  then have q: "q = z" "path (hptr h) (hptr h z) zs b" by auto
  show ?case
  proof (cases zs)
    case Nil
    then show ?thesis using Cons.prems q by (subst free_search.simps) auto
  next
    case (Cons w ws)
    then have w: "hptr h z = w" using q(2) by simp
    have "z < w" "bp < z" using Cons.prems(2,4) Cons by auto
    then have "free_search h bp q = free_search h bp w" using q(1) w by (subst free_search.simps) auto
    then show ?thesis using Cons.IH [OF q(2)] Cons.prems Cons w by simp
  qed
qed simp

lemma free_search_finds:
  assumes "heap_inv h A c" "c = xs @ p # ys" "\<forall>x\<in>set (xs @ [p]). x < bp" "\<forall>y\<in>set ys. bp < y" "q \<in> set c"
  shows "free_search h bp q = Some p"
proof -
  have s: "sorted_wrt (<) c" using sorted_addr heap_invD(3) [OF assms(1)] by blast
  have pth: "path (hptr h) (base h) c (base h)" by (rule heap_invD(2) [OF assms(1)])
  have hb: "hd c = base h" using heap_invD(1) [OF assms(1)] pth by (cases c) auto
  have bp: "base h \<le> p" using s hb assms(2) by (cases xs) auto
  then have lt: "base h < bp" using assms(3) by auto
  have up: "free_search h bp (base h) = Some p"
    using search_up [OF _ _ assms(3,4) bp, of h] pth s assms(2) by simp
  show ?thesis
  proof (cases "q \<in> set ys")
    case True
    then obtain us vs where u: "ys = us @ q # vs" by (metis split_list)
    have "path (hptr h) q (q # vs) (base h)" using pth assms(2) u by auto
    moreover have "sorted_wrt (<) (q # vs)" using s assms(2) u by (simp add: sorted_wrt_append)
    ultimately have "free_search h bp q = free_search h bp (base h)"
      using search_round [of h q "q # vs" "base h" bp] assms(4) u lt by simp
    then show ?thesis using up by simp
  next
    case False
    then have "q \<in> set (xs @ [p])" using assms(2,5) by auto
    then obtain us vs where u: "xs @ [p] = us @ q # vs" by (metis split_list)
    then have c: "c = us @ q # vs @ ys" using assms(2) by (metis append.assoc append_Cons append_Nil)
    obtain ws where w: "q # vs = ws @ [p]" using u by (metis append_is_Nil_conv last_appendR last_snoc list.discI append_butlast_last_id)
    have "path (hptr h) q ((q # vs) @ ys) (base h)" using pth c by auto
    moreover have "sorted_wrt (<) ((q # vs) @ ys)" using s c by (simp add: sorted_wrt_append)
    moreover have "\<forall>x\<in>set (ws @ [p]). x < bp" using assms(3) u w by (metis Un_iff set_append)
    ultimately show ?thesis using search_up [of h q ws p ys "base h" bp] assms(4) bp w by simp
  qed
qed

subsection \<open>Freeing\<close>

lemma unat_en:
  assumes "en h a \<le> unat (brk h)" "unat (brk h) < 2 ^ 31"
  shows "unat (a + 8 * hsize h a) = en h a"
proof -
  have b: "unat a + 8 * unat (hsize h a) < 2 ^ 31" using assms by (simp add: en_def)
  have m: "unat (8 * hsize h a) = 8 * unat (hsize h a)"
    using b by (subst unat_mult_lem [THEN iffD1]) simp_all
  then show ?thesis using b by (subst unat_add_lem [THEN iffD1]) (simp_all add: en_def)
qed

lemma unat_add_sizes: "8 * (unat x + unat y) < 2 ^ 31 \<Longrightarrow> unat (x + y :: u32) = unat x + unat y"
  by (rule unat_add_lem [THEN iffD1]) simp

text \<open>Joining the block with the free block above it.\<close>

lemma free_up_joins:
  assumes inv: "heap_inv h A c" and bp: "bp \<in> A" and c: "c = xs @ p # ys"
    and lt: "\<forall>x\<in>set (xs @ [p]). x < bp" "\<forall>y\<in>set ys. bp < y"
  obtains h1 f g ys' where "h1 = free_up bp p h" "h1 = h\<lparr>hptr := (hptr h)(bp := f), hsize := (hsize h)(bp := g)\<rparr>"
    "set ys' \<subseteq> set ys" "path (hptr h) f ys' (base h)" "sorted_wrt (\<lambda>a b. en h a < unat b) (xs @ p # ys')"
    "\<forall>y\<in>set ys'. en h1 bp < unat y" "en h1 bp \<le> unat (brk h)" "0 < unat g" "\<forall>a\<in>A - {bp}. apart h1 a bp"
    "en h bp \<le> en h1 bp" "area h (set (xs @ p # ys')) \<union> {unat bp..<en h1 bp} = area h (set c) \<union> {unat bp..<en h bp}"
proof -
  note d = heap_invD [OF inv]
  have e: "en h bp \<le> unat (brk h)" "0 < unat (hsize h bp)" using d(13) [OF bp] d(11) [OF bp] by auto
  have ap: "apart h a bp" if "a \<in> A - {bp}" for a using that d(14) [of a bp] bp by auto
  have pth: "path (hptr h) (hptr h p) ys (base h)" using d(2) c by auto
  have gap: "en h bp \<le> unat y" if "y \<in> set ys" for y
  proof -
    have "apart h bp y" by (rule d(15) [OF bp]) (use that c in simp)
    moreover have "unat bp < unat y" using lt(2) that by (simp add: word_less_nat_alt)
    ultimately show ?thesis using en_ge [of y h] by (auto simp: apart_def)
  qed
  have upd: "en (h\<lparr>hptr := (hptr h)(bp := f), hsize := (hsize h)(bp := g)\<rparr>) a =
      (if a = bp then unat bp + 8 * unat g else en h a)" for f g a by (simp add: en_def)
  show thesis
  proof (cases "bp + 8 * hsize h bp = hptr h p")
    case False
    have "en h bp < unat y" if y: "y \<in> set ys" for y
    proof (cases ys)
      case (Cons n ns)
      then have n: "hptr h p = n" using pth by simp
      then have "en h bp \<noteq> unat n" using False unat_en [OF e(1) d(8)] by (metis word_unat_eq_iff)
      then have "en h bp < unat n" using gap [of n] Cons by simp
      moreover have "n = y \<or> en h n < unat y" using y Cons d(3) c by (auto simp: sorted_wrt_append)
      ultimately show ?thesis using en_ge [of n h] by auto
    qed (use y in simp)
    then show thesis
      using that [of "set_ptr bp (hptr h p) h" "hsize h bp" "hptr h p" ys] False d(3) c pth e ap
      by (simp add: free_up_def en_def apart_def)
  next
    case True
    have "hptr h p \<noteq> base h"
    proof
      assume "hptr h p = base h"
      then have "unat (base h) = en h bp" using True unat_en [OF e(1) d(8)] by simp
      then show False using d(12) [OF bp] by (simp add: en_def)
    qed
    then obtain n ns where ys: "ys = n # ns" using pth by (cases ys) auto
    then have n: "hptr h p = n" "path (hptr h) (hptr h n) ns (base h)" "en h bp = unat n"
      using pth True unat_en [OF e(1) d(8)] by auto
    have "n \<noteq> bp" using lt(2) ys by auto
    have nb: "en h n \<le> unat (brk h)" using d(6) ys c by simp
    define g where "g = hsize h bp + hsize h n"
    have eq: "unat bp + 8 * unat (hsize h bp) = unat n" using n(3) by (simp add: en_def)
    have "8 * (unat (hsize h bp) + unat (hsize h n)) < 2 ^ 31" using nb d(8) eq by (simp add: en_def)
    then have g: "unat g = unat (hsize h bp) + unat (hsize h n)" unfolding g_def by (rule unat_add_sizes)
    then have en: "unat bp + 8 * unat g = en h n" using eq by (simp add: en_def)
    have up: "free_up bp p h = h\<lparr>hptr := (hptr h)(bp := hptr h n), hsize := (hsize h)(bp := g)\<rparr>"
      using True n(1) by (simp add: free_up_def Let_def g_def)
    have "apart (free_up bp p h) a bp" if a: "a \<in> A - {bp}" for a
    proof -
      have "apart h a bp" "apart h a n" using ap [OF a] d(15) [of a n] a c ys by auto
      moreover have "unat a < en h a" using d(11) [of a] a by (auto simp: en_def)
      ultimately show ?thesis using a en n(3) en_ge [of n h] en_ge [of bp h] unfolding up apart_def upd by auto
    qed
    moreover have "sorted_wrt (\<lambda>a b. en h a < unat b) (xs @ p # ns)" "\<forall>y\<in>set ns. en h n < unat y"
      using d(3) c ys by (auto simp: sorted_wrt_append)
    moreover have "{unat bp..<unat n} \<union> {unat n..<en h n} = {unat bp..<en h n}"
      using eq en_ge [of n h] by (intro ivl_disj_un_two(3)) simp_all
    then have "area h (set (xs @ p # ns)) \<union> {unat bp..<unat bp + 8 * unat g} = area h (set c) \<union> {unat bp..<en h bp}"
      unfolding c ys en n(3) by auto
    ultimately show thesis
      using that [of "free_up bp p h" g "hptr h n" ns] up ys n nb en g e(2) en_ge [of n h] by (simp add: upd) blast
  qed
qed

text \<open>
  Freeing a block gives it back to the free list, joined with its free neighbours, and changes no
  other block.
\<close>

lemma sorted_en_cong:
  assumes "sorted_wrt (\<lambda>a b. en h a < unat b) c" "\<forall>a\<in>set c. hsize h' a = hsize h a"
  shows "sorted_wrt (\<lambda>a b. en h' a < unat b) c"
  using assms(1) by (rule sorted_wrt_mono_rel [rotated]) (use assms(2) in \<open>simp add: en_def\<close>)

text \<open>The invariant for a new free list in which only the block \<open>v\<close> has changed.\<close>

lemma heap_inv_rebuild:
  assumes inv: "heap_inv h A c" and fields: "base h2 = base h" "brk h2 = brk h" "freep h2 \<in> set c2"
    and links: "path (hptr h2) (base h) c2 (base h)" "sorted_wrt (\<lambda>a b. en h2 a < unat b) c2"
    and blocks: "set c2 \<subseteq> insert v (set c)" "A2 \<subseteq> A - {v}" "\<forall>a\<in>(A2 \<union> set c2) - {v}. hsize h2 a = hsize h a"
    and v: "0 < unat (hsize h2 v)" "en h2 v \<le> unat (brk h)" "v \<noteq> base h" "\<forall>a\<in>A2. apart h2 a v"
  shows "heap_inv h2 A2 c2"
proof -
  note d = heap_invD [OF inv]
  have ne: "c2 \<noteq> []" using fields(3) by auto
  have en: "en h2 a = en h a" if "a \<in> (A2 \<union> set c2) - {v}" for a using that blocks(3) by (simp add: en_def)
  have free: "0 < unat (hsize h2 a)" if "a \<in> set c2" "a \<noteq> base h" for a
    using that d(5) [of a] blocks(1,3) v(1) by (cases "a = v") auto
  have ends: "en h2 a \<le> unat (brk h)" if "a \<in> set c2" for a
    using that d(6) [of a] blocks(1) v(2) en [of a] by (cases "a = v") auto
  have b0: "hsize h2 (base h) = 0" using blocks(3) v(3) d(4) ne links(1) by (cases c2) auto
  have used: "0 < unat (hsize h2 a) \<and> unat (base h) < unat a \<and> en h2 a \<le> unat (brk h) \<and>
      (\<forall>b\<in>A2. b \<noteq> a \<longrightarrow> apart h2 a b) \<and> (\<forall>b\<in>set c2. apart h2 a b)" if a: "a \<in> A2" for a
  proof -
    have a': "a \<in> A" "a \<noteq> v" using a blocks(2) by auto
    have e: "en h2 a = en h a" "hsize h2 a = hsize h a" using en [of a] blocks(3) a a'(2) by auto
    have "apart h2 a b" if b: "b \<in> A2" "b \<noteq> a" for b
    proof -
      have "b \<in> A" "b \<noteq> v" using b(1) blocks(2) by auto
      then show ?thesis using d(14) [OF a'(1), of b] b en [of b] e by (simp add: apart_def)
    qed
    moreover have "apart h2 a b" if "b \<in> set c2" for b
      using d(15) [OF a'(1), of b] that en [of b] e blocks(1) v(4) a by (cases "b = v") (auto simp: apart_def)
    ultimately show ?thesis using d(11-13) [OF a'(1)] e by simp
  qed
  show ?thesis
    unfolding heap_inv_def fields(1,2)
    using ne links b0 free ends fields(3) d(8-10) used by blast
qed

lemma free_correct:
  assumes inv: "heap_inv h A c" and bp: "bp \<in> A"
  shows "\<exists>h' c'. free (bp + 8) h = Some h' \<and> heap_inv h' (A - {bp}) c' \<and> (\<forall>a\<in>A - {bp}. hsize h' a = hsize h a) \<and>
    base h' = base h \<and> brk h' = brk h \<and> (\<exists>b\<in>set c'. unat b \<le> unat bp \<and> en h bp \<le> en h' b) \<and>
    area h' (set c') = area h (set c) \<union> {unat bp..<en h bp}"
proof -
  note d = heap_invD [OF inv]
  obtain xs p ys where c: "c = xs @ p # ys" and lt: "\<forall>x\<in>set (xs @ [p]). x < bp" "\<forall>y\<in>set ys. bp < y"
    by (rule split_at [OF inv bp])
  have nc: "bp \<notin> set c" using used_not_free [OF inv bp] by blast
  have pn: "bp \<noteq> base h" "bp \<noteq> p" "p \<notin> set xs" "p \<notin> set ys"
    using base_in [OF inv] nc c sorted_addr [OF d(3)] by (auto simp: sorted_wrt_append)
  have search: "free_search h bp (freep h) = Some p" by (rule free_search_finds [OF inv c lt d(7)])
  obtain h1 f g ys' where h1: "h1 = free_up bp p h" "h1 = h\<lparr>hptr := (hptr h)(bp := f), hsize := (hsize h)(bp := g)\<rparr>"
    and ys': "set ys' \<subseteq> set ys" "path (hptr h) f ys' (base h)" "sorted_wrt (\<lambda>a b. en h a < unat b) (xs @ p # ys')"
    and up: "\<forall>y\<in>set ys'. en h1 bp < unat y" "en h1 bp \<le> unat (brk h)" "0 < unat g" "\<forall>a\<in>A - {bp}. apart h1 a bp"
    and grown: "en h bp \<le> en h1 bp" "area h (set (xs @ p # ys')) \<union> {unat bp..<en h1 bp} = area h (set c) \<union> {unat bp..<en h bp}"
    using free_up_joins [OF inv bp c lt] by metis
  define h2 where "h2 = (free_down bp p h1)\<lparr>freep := p\<rparr>"
  have run: "free (bp + 8) h = Some h2" by (simp add: free_def Let_def search h2_def h1(1))
  have sub: "set (xs @ p # ys') \<subseteq> set c" using ys'(1) c by auto
  have out: "bp \<notin> set xs" "bp \<notin> set ys'" "p \<notin> set ys'" using nc sub pn ys'(1) by auto
  have pth: "path (hptr h) (base h) xs p" using d(2) c by auto
  have pe: "en h p \<le> unat (brk h)" using d(6) c by simp
  have le: "en h p \<le> unat bp"
  proof -
    have "apart h bp p" by (rule d(15) [OF bp]) (simp add: c)
    moreover have "unat p < unat bp" using lt(1) by (simp add: word_less_nat_alt)
    ultimately show ?thesis using en_ge [of bp h] by (auto simp: apart_def)
  qed
  show ?thesis
  proof (cases "p + 8 * hsize h1 p = bp")
    case False
    have h2: "h2 = h1\<lparr>hptr := (hptr h1)(p := bp), freep := p\<rparr>" using False by (simp add: h2_def free_down_def)
    have en2: "en h2 a = en h1 a" for a by (simp add: h2 en_def)
    have "en h p \<noteq> unat bp"
      using False unat_en [OF pe d(8)] h1(2) pn(2) by (simp add: word_unat_eq_iff)
    then have "en h p < unat bp" using le by simp
    then have before: "\<forall>x\<in>set (xs @ [p]). en h x < unat bp"
      using d(3) c lt(1) en_ge [of p h] by (force simp: sorted_wrt_append)
    have "sorted_wrt (\<lambda>a b. en h2 a < unat b) (xs @ p # ys')"
      by (rule sorted_en_cong [OF ys'(3)]) (use h2 h1(2) pn(2) out in auto)
    moreover have "\<forall>x\<in>set (xs @ [p]). en h2 x < unat bp"
      using before out pn(2) by (auto simp: h2 h1(2) en_def)
    ultimately have srt: "sorted_wrt (\<lambda>a b. en h2 a < unat b) (xs @ p # bp # ys')"
      using up(1) en2 by (auto simp: sorted_wrt_append)
    have "heap_inv h2 (A - {bp}) (xs @ p # bp # ys')"
    proof (rule heap_inv_rebuild [OF inv, where v = bp])
      show "path (hptr h2) (base h) (xs @ p # bp # ys') (base h)"
        using pth ys'(2) out pn by (simp add: h2 h1(2))
      show "\<forall>a\<in>A - {bp}. apart h2 a bp" using up(4) en2 by (simp add: apart_def)
    qed (use srt sub pn up en2 in \<open>auto simp: h2 h1(2)\<close>)
    moreover have "area h2 (set (xs @ p # ys')) = area h (set (xs @ p # ys'))"
      by (rule area_cong) (use out pn(2) in \<open>auto simp: h2 h1(2)\<close>)
    then have "area h2 (set (xs @ p # bp # ys')) = area h (set c) \<union> {unat bp..<en h bp}"
      unfolding grown(2) [symmetric] using en2 by auto
    ultimately show ?thesis using run grown(1) en2 h1(2)
      by (intro exI [of _ h2] exI [of _ "xs @ p # bp # ys'"]) (auto simp: h2)
  next
    case True
    have eq: "en h p = unat bp" using True unat_en [OF pe d(8)] h1(2) pn(2) by simp
    have pb: "p \<noteq> base h" using eq d(4) d(12) [OF bp] by (auto simp: en_def)
    define g2 where "g2 = hsize h p + g"
    have h2: "h2 = h1\<lparr>hsize := (hsize h1)(p := g2), hptr := (hptr h1)(p := f), freep := p\<rparr>"
      using True h1(2) pn(2) by (simp add: h2_def free_down_def Let_def g2_def)
    have en1: "en h1 bp = unat bp + 8 * unat g" by (simp add: h1(2) en_def)
    have "8 * (unat (hsize h p) + unat g) < 2 ^ 31" using up(2) d(8) eq en1 by (simp add: en_def)
    then have "unat g2 = unat (hsize h p) + unat g" unfolding g2_def by (rule unat_add_sizes)
    then have en2: "en h2 p = en h1 bp" "0 < unat g2" using eq en1 up(3) by (simp_all add: h2 en_def)
    have same: "hsize h2 a = hsize h a" if "a \<noteq> p" "a \<noteq> bp" for a using that by (simp add: h2 h1(2))
    have others: "\<forall>a\<in>set xs. hsize h2 a = hsize h a" "\<forall>a\<in>set ys'. hsize h2 a = hsize h a"
      using pn out by (auto intro!: same)
    then have "sorted_wrt (\<lambda>a b. en h2 a < unat b) xs" "sorted_wrt (\<lambda>a b. en h2 a < unat b) ys'"
      using ys'(3) by (auto simp: sorted_wrt_append intro!: sorted_en_cong [where h = h])
    moreover have "\<forall>x\<in>set xs. en h2 x = en h x" using others(1) by (simp add: en_def)
    ultimately have srt: "sorted_wrt (\<lambda>a b. en h2 a < unat b) (xs @ p # ys')"
      using ys'(3) up(1) en2(1) by (auto simp: sorted_wrt_append)
    have ap: "apart h2 a p" if a: "a \<in> A - {bp}" for a
    proof -
      have "apart h a p" by (rule d(15)) (use a c in auto)
      moreover have "apart h1 a bp" using up(4) a by blast
      moreover have "a \<noteq> p" using used_not_free [OF inv, of a p] a c by auto
      moreover have "unat a < en h a" using d(11) [of a] a by (simp add: en_def)
      ultimately show ?thesis using a eq en2(1) same [of a] en_ge [of p h] en1
        by (auto simp: apart_def en_def h1(2))
    qed
    have "heap_inv h2 (A - {bp}) (xs @ p # ys')"
    proof (rule heap_inv_rebuild [OF inv, where v = p])
      show "path (hptr h2) (base h) (xs @ p # ys') (base h)"
        using pth ys'(2) out pn by (simp add: h2 h1(2))
      show "A - {bp} \<subseteq> A - {p}" using used_not_free [OF inv, of p p] c by auto
    qed (use srt sub pb up(2) en2 ap same out pn in \<open>auto simp: h2 h1(2)\<close>)
    moreover have pbp: "unat p \<le> unat bp" using lt(1) by (simp add: word_less_nat_alt)
    moreover have "area h2 (set (xs @ p # ys')) = area h (set c) \<union> {unat bp..<en h bp}"
    proof -
      have "area h2 (set (xs @ ys')) = area h (set (xs @ ys'))" by (rule area_cong) (use others in auto)
      moreover have "{unat p..<unat bp} \<union> {unat bp..<en h1 bp} = {unat p..<en h1 bp}"
        using pbp en_ge [of bp h1] by (intro ivl_disj_un_two(3)) simp_all
      ultimately show ?thesis unfolding grown(2) [symmetric] using eq en2(1) by auto
    qed
    moreover have "\<forall>a\<in>A - {bp}. hsize h2 a = hsize h a" 
      using used_not_free [OF inv, of p p] c by (auto intro!: same)
    ultimately show ?thesis using run grown(1) en2(1)
      by (intro exI [of _ h2] exI [of _ "xs @ p # ys'"]) (auto simp: h2 h1(2))
  qed
qed

subsection \<open>More memory\<close>

lemma sbrk_grows:
  assumes "unat (brk h) < 2 ^ 31" "0 < unat n" "unat n < 2 ^ 31"
  shows "sbrk grow n h = (-1, h) \<or>
    (sbrk grow n h = (brk h, h\<lparr>brk := brk h + n\<rparr>) \<and> unat (brk h + n) = unat (brk h) + unat n \<and> unat (brk h + n) < 2 ^ 31)"
proof -
  have sum: "unat (brk h + n) = unat (brk h) + unat n"
    by (rule unat_add_lem [THEN iffD1]) (use assms(1,3) in simp)
  have n: "uint n = int (unat n)" by simp
  have u: "uint n < 2 ^ 31" "0 < uint n" 
    unfolding n using assms(2,3) by (simp_all only: of_nat_0_less_iff of_nat_less_iff [where 'a = int, symmetric] of_nat_power of_nat_numeral)
  then have pos: "0 <s n" by (simp add: word_sless_alt sint_u32)
  have "\<not> brk h + n < brk h" using sum by (simp add: word_less_nat_alt)
  moreover have "\<not> 0x80000000 \<le> brk h + n \<longleftrightarrow> unat (brk h + n) < 2 ^ 31" by (simp add: word_le_nat_alt not_le)
  ultimately show ?thesis using pos sum by (auto simp: sbrk_def Let_def)
qed

text \<open>Memory behind the end of the heap, as a block in use.\<close>

lemma heap_inv_extend:
  assumes inv: "heap_inv h A c" and nu: "0 < unat nu" "unat (brk h) + 8 * unat nu = unat b" "unat b < 2 ^ 31"
  shows "heap_inv (h\<lparr>brk := b, hsize := (hsize h)(brk h := nu)\<rparr>) (insert (brk h) A) c" "brk h \<notin> A" "brk h \<notin> set c"
proof -
  note d = heap_invD [OF inv]
  show nA: "brk h \<notin> A" using d(11,13) by (fastforce simp: en_def)
  show nc: "brk h \<notin> set c"
  proof
    assume a: "brk h \<in> set c"
    then have "brk h \<noteq> base h" using d(10) by auto
    then show False using d(5,6) [OF a] by (simp add: en_def)
  qed
  let ?h = "h\<lparr>brk := b, hsize := (hsize h)(brk h := nu)\<rparr>"
  have en: "en ?h a = (if a = brk h then unat b else en h a)" for a using nu(2) by (simp add: en_def)
  have le: "unat (brk h) \<le> unat b" using nu(2) by simp
  have srt: "sorted_wrt (\<lambda>a b. en ?h a < unat b) c" by (rule sorted_en_cong [OF d(3)]) (use nc in auto)
  have ends: "\<forall>a\<in>A \<union> set c. en h a \<le> unat (brk h)" using d(6,13) by blast
  have used: "0 < unat (hsize ?h a) \<and> unat (base h) < unat a \<and> en ?h a \<le> unat b \<and>
      (\<forall>x\<in>insert (brk h) A. x \<noteq> a \<longrightarrow> apart ?h a x) \<and> (\<forall>x\<in>set c. apart ?h a x)" if a: "a \<in> insert (brk h) A" for a
  proof (cases "a = brk h")
    case True
    then show ?thesis using nu(1) d(10) ends nc by (auto simp: apart_def en)
  next
    case False
    then have a': "a \<in> A" using a by simp
    have "apart ?h a x" if "x \<in> A" "x \<noteq> a" for x
      using d(14) [OF a' that] that nA False by (auto simp: apart_def en)
    moreover have "apart ?h a (brk h)" using ends a' False by (simp add: apart_def en)
    moreover have "apart ?h a x" if "x \<in> set c" for x
      using d(15) [OF a' that] that nc False by (auto simp: apart_def en)
    ultimately show ?thesis using d(11,12) [OF a'] ends a' le False by (force simp: en)
  qed
  have "\<forall>a\<in>set c. a \<noteq> base h \<longrightarrow> 0 < unat (hsize ?h a)" "\<forall>a\<in>set c. en ?h a \<le> unat b"
    using d(5) ends le nc by (auto simp: en intro: order_trans)
  moreover have base: "hsize ?h (base h) = 0" "unat (base h) < unat b"
    using d(4) nc base_in [OF inv] d(10) le by auto
  ultimately show "heap_inv ?h (insert (brk h) A) c"
    unfolding heap_inv_def using d(1,2,7,9) srt base nu(3) used by simp
qed

lemma morecore_correct:
  assumes inv: "heap_inv h A c" and nu: "unat nu < 2 ^ 28"
  shows "morecore grow nu h = Some (0, h) \<and> fst (sbrk grow (max 4096 nu * 8) h) = -1 \<or>
    (\<exists>h' c'. morecore grow nu h = Some (freep h', h') \<and> freep h' \<noteq> 0 \<and> heap_inv h' A c' \<and> base h' = base h \<and>
       (\<forall>a\<in>A. hsize h' a = hsize h a) \<and> (\<exists>b\<in>set c'. nu \<le> hsize h' b) \<and>
       area h' (set c') = area h (set c) \<union> {unat (brk h)..<unat (brk h')})"
proof -
  note d = heap_invD [OF inv]
  define nu' where "nu' = (if nu < 4096 then 4096 else nu)"
  have mx: "max 4096 nu = nu'" by (auto simp: nu'_def max_def)
  have nu': "0 < unat nu'" "unat nu' < 2 ^ 28" "unat nu \<le> unat nu'"
    using nu by (auto simp: nu'_def word_less_nat_alt)
  have m: "unat (nu' * 8) = 8 * unat nu'" using nu' by (subst unat_mult_lem [THEN iffD1]) simp_all
  have m': "0 < unat (nu' * 8)" "unat (nu' * 8) < 2 ^ 31" using nu' m by simp_all
  consider "sbrk grow (nu' * 8) h = (-1, h)"
    | "sbrk grow (nu' * 8) h = (brk h, h\<lparr>brk := brk h + nu' * 8\<rparr>)" "unat (brk h + nu' * 8) = unat (brk h) + 8 * unat nu'"
      "unat (brk h + nu' * 8) < 2 ^ 31"
    using sbrk_grows [OF d(8) m', of grow] unfolding m by blast
  then show ?thesis
  proof cases
    case 1
    then show ?thesis unfolding mx by (simp add: morecore_def nu'_def [symmetric] Let_def)
  next
    case 2
    define h1 where "h1 = h\<lparr>brk := brk h + nu' * 8, hsize := (hsize h)(brk h := nu')\<rparr>"
    have e: "heap_inv h1 (insert (brk h) A) c" "brk h \<notin> A" "brk h \<notin> set c"
      using heap_inv_extend [OF inv nu'(1) 2(2) [symmetric] 2(3)] by (simp_all add: h1_def)
    have minus: "insert (brk h) A - {brk h} = A" using e(2) by blast
    from free_correct [OF e(1), of "brk h"] obtain h2 c2 b where f: "free (brk h + 8) h1 = Some h2" "heap_inv h2 A c2"
      "\<forall>a\<in>A. hsize h2 a = hsize h1 a" "base h2 = base h1" "b \<in> set c2" "unat b \<le> unat (brk h)" "en h1 (brk h) \<le> en h2 b"
      "brk h2 = brk h1" "area h2 (set c2) = area h1 (set c) \<union> {unat (brk h)..<en h1 (brk h)}"
      unfolding minus by blast
    have "area h1 (set c) = area h (set c)" by (rule area_cong) (use e(3) in \<open>auto simp: h1_def\<close>)
    moreover have "en h1 (brk h) = unat (brk h2)" using 2(2) f(8) by (simp add: h1_def en_def)
    ultimately have ar: "area h2 (set c2) = area h (set c) \<union> {unat (brk h)..<unat (brk h2)}" using f(9) by simp
    have "unat (-1 :: u32) = 2 ^ 32 - 1" using unat_neg_u32 [of 1] by simp
    then have "brk h \<noteq> -1" using d(8) by auto
    then have run: "morecore grow nu h = Some (freep h2, h2)"
      using 2(1) f(1) by (simp add: morecore_def nu'_def [symmetric] Let_def h1_def)
    have "8 * unat nu' \<le> 8 * unat (hsize h2 b)" using f(6,7) by (simp add: en_def h1_def)
    then have big: "nu \<le> hsize h2 b" using nu'(3) by (simp add: word_le_nat_alt)
    have "freep h2 \<noteq> 0"
    proof
      assume z: "freep h2 = 0"
      then have "0 \<in> set c2" using heap_invD(7) [OF f(2)] by simp
      moreover have "base h2 \<in> set c2" by (rule base_in [OF f(2)])
      ultimately have "base h2 \<le> 0"
        using heap_invD(1,2) [OF f(2)] sorted_addr [OF heap_invD(3) [OF f(2)]] by (cases c2) auto
      then show False using heap_invD(9) [OF f(2)] by simp
    qed
    moreover have "\<forall>a\<in>A. hsize h2 a = hsize h a" using f(3) e(2) by (auto simp: h1_def)
    moreover have "base h2 = base h" using f(4) by (simp add: h1_def)
    ultimately show ?thesis using run f(2,5) big ar by blast
  qed
qed

subsection \<open>Allocating\<close>

lemma pred_split:
  assumes "heap_inv h A c" "q \<in> set c" "hptr h q \<noteq> base h"
  obtains xs ys where "c = xs @ q # hptr h q # ys"
proof -
  obtain xs zs where z: "c = xs @ q # zs" using assms(2) by (metis split_list)
  then have "path (hptr h) (hptr h q) zs (base h)" using heap_invD(2) [OF assms(1)] by auto
  then obtain ys where "zs = hptr h q # ys" using assms(3) by (cases zs) auto
  then show thesis using that z by simp
qed

lemma free_apart:
  assumes "sorted_wrt (\<lambda>a b. en h a < unat b) c" "a \<in> set c" "b \<in> set c" "a \<noteq> b"
  shows "apart h a b"
  using assms by (induction c) (auto simp: apart_def)

text \<open>A free block of the right size leaves the free list.\<close>

lemma carve_whole:
  assumes inv: "heap_inv h A (xs @ q # r # ys)" and rb: "r \<noteq> base h"
  shows "heap_inv (h\<lparr>hptr := (hptr h)(q := hptr h r), freep := q\<rparr>) (insert r A) (xs @ q # ys)"
proof -
  note d = heap_invD [OF inv]
  let ?h = "h\<lparr>hptr := (hptr h)(q := hptr h r), freep := q\<rparr>"
  have nq: "q \<notin> set xs" "q \<notin> set ys" "r \<noteq> q" using sorted_addr [OF d(3)] by (auto simp: sorted_wrt_append)
  have en: "en ?h a = en h a" "apart ?h a b = apart h a b" for a b by (simp_all add: en_def apart_def)
  have pth: "path (hptr ?h) (base h) (xs @ q # ys) (base h)" using d(2) nq by auto
  have srt: "sorted_wrt (\<lambda>a b. en h a < unat b) (xs @ q # ys)" using d(3) by (auto simp: sorted_wrt_append)
  have nr: "r \<notin> set (xs @ q # ys)" using sorted_addr [OF d(3)] nq by (auto simp: sorted_wrt_append)
  have "base h \<in> set (xs @ q # r # ys)" by (rule base_in [OF inv])
  then have rbase: "unat (base h) < unat r"
    using d(2,3) rb en_ge [of "base h" h] by (cases xs) (auto simp: sorted_wrt_append)
  have "apart h r b" if "b \<in> set (xs @ q # ys)" for b
    by (rule free_apart [OF d(3)]) (use that nr in auto)
  moreover have "apart h r b" "apart h b r" if "b \<in> A" for b
    using d(15) [OF that, of r] by (auto simp: apart_def)
  ultimately have used: "\<forall>a\<in>insert r A. 0 < unat (hsize h a) \<and> unat (base h) < unat a \<and> en h a \<le> unat (brk h) \<and>
      (\<forall>b\<in>insert r A. b \<noteq> a \<longrightarrow> apart h a b) \<and> (\<forall>b\<in>set (xs @ q # ys). apart h a b)"
    using d(5) [of r] d(6) [of r] d(11-15) rb rbase by auto
  show ?thesis
    unfolding heap_inv_def en using pth srt d(4-6,8-10) used by simp
qed

text \<open>A larger one is cut: its lower part stays in the free list.\<close>

lemma base_least: "heap_inv h A c \<Longrightarrow> r \<in> set c \<Longrightarrow> unat (base h) \<le> unat r"
  using heap_invD(1,2) [of h A c] sorted_addr [OF heap_invD(3) [of h A c]]
  by (cases c) (auto simp: word_less_nat_alt)

lemma carve_part:
  assumes inv: "heap_inv h A c" and r: "r \<in> set c" "q \<in> set c" and nu: "0 < unat nu" "unat nu < unat (hsize h r)"
  defines "t \<equiv> r + 8 * (hsize h r - nu)"
  shows "heap_inv (h\<lparr>hsize := (hsize h)(r := hsize h r - nu, t := nu), freep := q\<rparr>) (insert t A) c" "t \<notin> A" "r \<notin> A"
    "area (h\<lparr>hsize := (hsize h)(r := hsize h r - nu, t := nu), freep := q\<rparr>) (set c)
      \<union> {unat t..<en (h\<lparr>hsize := (hsize h)(r := hsize h r - nu, t := nu), freep := q\<rparr>) t} = area h (set c)"
proof -
  note d = heap_invD [OF inv]
  have rb: "r \<noteq> base h" using d(4) nu by auto
  have sz: "unat (hsize h r - nu) = unat (hsize h r) - unat nu" using nu by (simp add: unat_sub word_le_nat_alt)
  define h0 where "h0 = h\<lparr>hsize := (hsize h)(r := hsize h r - nu)\<rparr>"
  have e0: "en h0 r + 8 * unat nu = en h r" using sz nu by (simp add: h0_def en_def)
  have "en h0 r \<le> unat (brk h0)" "unat (brk h0) < 2 ^ 31" using e0 d(6) [OF r(1)] d(8) by (auto simp: h0_def)
  then have ut: "unat t = en h0 r" using unat_en [of h0 r] by (simp add: t_def h0_def)
  have tr: "unat r < unat t" using ut sz nu by (simp add: h0_def en_def)
  let ?h = "h\<lparr>hsize := (hsize h)(r := hsize h r - nu, t := nu), freep := q\<rparr>"
  have inside: "\<not> apart h r b \<or> unat b \<noteq> unat t" if "0 < unat (hsize h b)" for b
    using that ut e0 tr nu(1) by (auto simp: apart_def en_def)
  show tA: "t \<notin> A" using inside [of t] d(11) [of t] d(15) [of t r] r(1) by (auto simp: apart_def)
  show rA: "r \<notin> A" using used_not_free [OF inv _ r(1)] by blast
  have rc: "apart h r b" if "b \<in> set c" "b \<noteq> r" for b using free_apart [OF d(3) r(1)] that by blast
  have tc: "t \<notin> set c"
  proof
    assume t: "t \<in> set c"
    have "t \<noteq> base h" using base_least [OF inv r(1)] tr by auto
    then show False using inside [of t] d(5) [OF t] rc [OF t] tr by auto
  qed
  have en: "en ?h a = (if a = t then en h r else if a = r then unat t else en h a)" for a
    using ut e0 tr by (auto simp: en_def h0_def)
  show "area ?h (set c) \<union> {unat t..<en ?h t} = area h (set c)"
  proof -
    obtain D where D: "set c = insert r D" "r \<notin> D" using r(1) by (metis mk_disjoint_insert)
    have "area ?h D = area h D" by (rule area_cong) (use tc D in auto)
    moreover have "{unat r..<unat t} \<union> {unat t..<en h r} = {unat r..<en h r}"
      using tr ut e0 by (intro ivl_disj_un_two(3)) simp_all
    moreover have "t \<noteq> r" using tr by auto
    ultimately show ?thesis unfolding D(1) area_simps en [of t] en [of r] by auto
  qed
  have shrunk: "en ?h a \<le> en h a" if "a \<noteq> t" for a using that en [of a] ut e0 by auto
  have srt: "sorted_wrt (\<lambda>a b. en ?h a < unat b) c"
  proof (rule sorted_wrt_mono_rel [OF _ d(3)])
    fix x y
    assume "x \<in> set c" "en h x < unat y"
    then show "en ?h x < unat y" using shrunk [of x] tc by (cases "x = t") auto
  qed
  have tb: "apart ?h t b" if "b \<in> A \<union> set c" for b
  proof -
    have "b \<noteq> t" using that tA tc by auto
    have "apart h r b" if "b \<noteq> r"
    proof (cases "b \<in> A")
      case True
      then show ?thesis using d(15) [OF True r(1)] by (auto simp: apart_def)
    qed (use \<open>b \<in> A \<union> set c\<close> that rc in blast)
    then consider "b = r" | "b \<noteq> r" "apart h r b" by blast
    then show ?thesis using \<open>b \<noteq> t\<close> tr ut e0 by cases (auto simp: apart_def en)
  qed
  have used: "0 < unat (hsize ?h a) \<and> unat (base h) < unat a \<and> en ?h a \<le> unat (brk h) \<and>
      (\<forall>b\<in>insert t A. b \<noteq> a \<longrightarrow> apart ?h a b) \<and> (\<forall>b\<in>set c. apart ?h a b)" if a: "a \<in> insert t A" for a
  proof (cases "a = t")
    case True
    then show ?thesis using nu(1) base_least [OF inv r(1)] tr d(6) [OF r(1)] tb by (auto simp: en)
  next
    case False
    then have a': "a \<in> A" "a \<noteq> r" using a rA by auto
    have "apart ?h a b" if "b \<in> A \<union> set c" "b \<noteq> a" for b
    proof -
      have "apart h a b" using that d(14,15) a'(1) by auto
      moreover have "en ?h b \<le> en h b" by (rule shrunk) (use that tA tc in auto)
      ultimately show ?thesis using en [of a] False a'(2) by (auto simp: apart_def)
    qed
    moreover have "apart ?h a t" using tb [of a] a' by (auto simp: apart_def)
    moreover have "b \<noteq> a" if "b \<in> set c" for b using used_not_free [OF inv a'(1) that] by blast
    ultimately show ?thesis using d(11-13) [OF a'(1)] en [of a] False a' by auto
  qed
  have "\<forall>a\<in>set c. a \<noteq> base h \<longrightarrow> 0 < unat (hsize ?h a)" using d(5) tc sz nu by auto
  moreover have "\<forall>a\<in>set c. en ?h a \<le> unat (brk h)" 
  proof
    fix a
    assume a: "a \<in> set c"
    then have "a \<noteq> t" using tc by auto
    then show "en ?h a \<le> unat (brk h)" using shrunk [of a] d(6) [OF a] by simp
  qed
  moreover have "hsize ?h (base h) = 0" using d(4) rb tc base_in [OF inv] by auto
  ultimately show "heap_inv ?h (insert t A) c"
    unfolding heap_inv_def using d(1,2,8-10) srt used r(2) by simp
qed

lemma carve_correct:
  assumes inv: "heap_inv h A c" and q: "q \<in> set c" and nu: "0 < unat nu" "nu \<le> hsize h (hptr h q)" "hptr h q \<in> set c"
  shows "\<exists>a h' c'. carve nu q (hptr h q) h = (a + 8, h') \<and> a \<notin> A \<and> hsize h' a = nu \<and> heap_inv h' (insert a A) c' \<and>
    base h' = base h \<and> (\<forall>b\<in>A. hsize h' b = hsize h b) \<and> brk h' = brk h \<and>
    area h' (set c') \<union> {unat a..<en h' a} = area h (set c)"
proof -
  define r where "r = hptr h q"
  have rb: "r \<noteq> base h" using heap_invD(4) [OF inv] nu by (auto simp: r_def)
  have rA: "r \<notin> A" using used_not_free [OF inv _ nu(3)] by (auto simp: r_def)
  obtain xs ys where c: "c = xs @ q # r # ys" using pred_split [OF inv q] rb by (auto simp: r_def)
  show ?thesis
  proof (cases "hsize h r = nu")
    case True
    have "heap_inv (h\<lparr>hptr := (hptr h)(q := hptr h r), freep := q\<rparr>) (insert r A) (xs @ q # ys)"
      using carve_whole [of h A xs q r ys] inv c rb by simp
    moreover have "area (h\<lparr>hptr := (hptr h)(q := hptr h r), freep := q\<rparr>) S = area h S" for S by (rule area_cong) simp
    ultimately show ?thesis using True rA unfolding r_def [symmetric]
      by (intro exI [of _ r] exI [of _ "h\<lparr>hptr := (hptr h)(q := hptr h r), freep := q\<rparr>"] exI [of _ "xs @ q # ys"])
        (auto simp: carve_def c en_upd)
  next
    case False
    then have lt: "unat nu < unat (hsize h r)"
      using nu(2) by (auto simp: r_def word_le_nat_alt word_unat_eq_iff order_less_le)
    define t where "t = r + 8 * (hsize h r - nu)"
    let ?h = "h\<lparr>hsize := (hsize h)(r := hsize h r - nu, t := nu), freep := q\<rparr>"
    have p: "heap_inv ?h (insert t A) c" "t \<notin> A" "area ?h (set c) \<union> {unat t..<en ?h t} = area h (set c)"
      using carve_part [OF inv _ q nu(1) lt] nu(3) by (simp_all add: r_def t_def)
    have "\<forall>b\<in>A. hsize ?h b = hsize h b" using rA p(2) by auto
    with False p show ?thesis unfolding r_def [symmetric]
      by (intro exI [of _ t] exI [of _ ?h] exI [of _ c]) (simp add: carve_def t_def Let_def)
  qed
qed

text \<open>One round through the free list, from the block after \<open>freep\<close> to \<open>freep\<close> itself.\<close>

lemma malloc_round:
  assumes "path (hptr h) p (ps @ [freep h]) z" "set ps \<subseteq> set c" "freep h \<in> set c" "freep h \<notin> set ps" "q \<in> set c" "hptr h q = p"
  shows "(\<exists>r\<in>set c. hptr h r \<in> set c \<and> nu \<le> hsize h (hptr h r) \<and> malloc_loop grow nu q p h = Some (carve nu r (hptr h r) h))
    \<or> (\<forall>b\<in>set (ps @ [freep h]). \<not> nu \<le> hsize h b) \<and>
      malloc_loop grow nu q p h = Option.bind (morecore grow nu h) (\<lambda>(q, h1).
        if q = 0 then Some (0, h1) else malloc_loop grow nu q (hptr h1 q) h1)"
  using assms
proof (induction ps arbitrary: p q)
  case Nil
  then have "p = freep h" by simp
  with Nil show ?case by (subst (1 2) malloc_loop.simps) (auto intro!: bexI [of _ q])
next
  case (Cons a ps)
  then have p: "p = a" "path (hptr h) (hptr h a) (ps @ [freep h]) z" "p \<in> set c" "p \<noteq> freep h" by auto
  show ?case
  proof (cases "nu \<le> hsize h p")
    case True
    then have "malloc_loop grow nu q p h = Some (carve nu q (hptr h q) h)"
      using Cons.prems(6) True by (subst malloc_loop.simps) simp
    then show ?thesis using True Cons.prems(5,6) p(3) by blast
  next
    case False
    then have step: "malloc_loop grow nu q p h = malloc_loop grow nu p (hptr h p) h"
      using p(4) by (subst malloc_loop.simps) simp
    have "hptr h p = hptr h a" "set ps \<subseteq> set c" "freep h \<notin> set ps" using p(1) Cons.prems(2,4) by auto
    from Cons.IH [OF p(2) this(2) Cons.prems(3) this(3) p(3) this(1)] show ?thesis
      unfolding step using p(1) False by auto
  qed
qed

lemma malloc_search:
  assumes inv: "heap_inv h A c"
  shows "(\<exists>q\<in>set c. hptr h q \<in> set c \<and> nu \<le> hsize h (hptr h q) \<and>
      malloc_loop grow nu (freep h) (hptr h (freep h)) h = Some (carve nu q (hptr h q) h))
    \<or> (\<forall>b\<in>set c. \<not> nu \<le> hsize h b) \<and>
      malloc_loop grow nu (freep h) (hptr h (freep h)) h = Option.bind (morecore grow nu h) (\<lambda>(q, h1).
        if q = 0 then Some (0, h1) else malloc_loop grow nu q (hptr h1 q) h1)"
proof -
  note d = heap_invD [OF inv]
  obtain us vs where c: "c = us @ freep h # vs" using d(7) by (metis split_list)
  have "path (hptr h) (hptr h (freep h)) ((vs @ us) @ [freep h]) (hptr h (freep h))" using d(2) c by auto
  moreover have "freep h \<notin> set (vs @ us)" using sorted_addr [OF d(3)] c by (auto simp: sorted_wrt_append)
  moreover have "set (vs @ us) \<subseteq> set c" "set c = set ((vs @ us) @ [freep h])" using c by auto
  ultimately show ?thesis
    using malloc_round [of h "hptr h (freep h)" "vs @ us" "hptr h (freep h)" c "freep h" nu grow] d(7) by simp
qed

lemma malloc_loop_correct:
  assumes inv: "heap_inv h A c" and nu: "0 < unat nu" "unat nu < 2 ^ 28"
  shows "\<exists>p h' c'. malloc_loop grow nu (freep h) (hptr h (freep h)) h = Some (p, h') \<and> base h' = base h \<and>
    (\<forall>b\<in>A. hsize h' b = hsize h b) \<and>
    (p = 0 \<and> h' = h \<and> c' = c \<and> (\<forall>b\<in>set c. hsize h b < nu) \<and> fst (sbrk grow (max 4096 nu * 8) h) = -1 \<or>
     p - 8 \<notin> A \<and> hsize h' (p - 8) = nu \<and> heap_inv h' (insert (p - 8) A) c' \<and>
     area h' (set c') \<union> {unat (p - 8)..<en h' (p - 8)} = area h (set c) \<union> {unat (brk h)..<unat (brk h')})"
proof -
  have found: ?thesis if g: "malloc_loop grow nu (freep h) (hptr h (freep h)) h = Some (carve nu q (hptr h1 q) h1)"
      "heap_inv h1 A c1" "q \<in> set c1" "hptr h1 q \<in> set c1" "nu \<le> hsize h1 (hptr h1 q)" "base h1 = base h"
      "\<forall>b\<in>A. hsize h1 b = hsize h b" "area h1 (set c1) = area h (set c) \<union> {unat (brk h)..<unat (brk h1)}" for q h1 c1
  proof -
    obtain a h' c' where "carve nu q (hptr h1 q) h1 = (a + 8, h')" "a \<notin> A" "hsize h' a = nu"
      "heap_inv h' (insert a A) c'" "base h' = base h1" "\<forall>b\<in>A. hsize h' b = hsize h1 b"
      "brk h' = brk h1" "area h' (set c') \<union> {unat a..<en h' a} = area h1 (set c1)"
      using carve_correct [OF g(2,3) nu(1) g(5,4)] by blast
    then show ?thesis using g(1,6-8)
      by (intro exI [of _ "a + 8"] exI [of _ h'] exI [of _ c']) simp
  qed
  consider (fit) q where "q \<in> set c" "hptr h q \<in> set c" "nu \<le> hsize h (hptr h q)"
      "malloc_loop grow nu (freep h) (hptr h (freep h)) h = Some (carve nu q (hptr h q) h)"
    | (more) "\<forall>b\<in>set c. hsize h b < nu" "malloc_loop grow nu (freep h) (hptr h (freep h)) h = Option.bind (morecore grow nu h) (\<lambda>(q, h1).
        if q = 0 then Some (0, h1) else malloc_loop grow nu q (hptr h1 q) h1)"
    using malloc_search [OF inv, of nu grow] by (auto simp: not_le)
  then show ?thesis
  proof cases
    case fit
    then show ?thesis using found [OF fit(4) inv fit(1,2,3)] by simp
  next
    case more
    from morecore_correct [OF inv nu(2), of grow] show ?thesis
    proof (elim disjE exE conjE)
      assume "morecore grow nu h = Some (0, h)" "fst (sbrk grow (max 4096 nu * 8) h) = -1"
      then show ?thesis using more inv by auto
    next
      fix h1 c1
      assume m: "morecore grow nu h = Some (freep h1, h1)" "freep h1 \<noteq> 0" "heap_inv h1 A c1" "base h1 = base h"
        "\<forall>a\<in>A. hsize h1 a = hsize h a" "\<exists>b\<in>set c1. nu \<le> hsize h1 b"
        "area h1 (set c1) = area h (set c) \<union> {unat (brk h)..<unat (brk h1)}"
      then obtain q where "q \<in> set c1" "hptr h1 q \<in> set c1" "nu \<le> hsize h1 (hptr h1 q)"
        "malloc_loop grow nu (freep h1) (hptr h1 (freep h1)) h1 = Some (carve nu q (hptr h1 q) h1)"
        using malloc_search [OF m(3), of nu grow] by blast
      then show ?thesis using found [OF _ m(3), of q] more(2) m by simp
    qed
  qed
qed

subsection \<open>Properties\<close>

text \<open>
  The allocator's invariant for the blocks \<open>A\<close> in use and the bytes \<open>U\<close> it has had from the
  kernel, before and after its first call: every byte of \<open>U\<close> is in a block in use or in a free
  block that is linked in memory, and in one only.
\<close>

definition alloc_inv :: "heap \<Rightarrow> u32 set \<Rightarrow> nat set \<Rightarrow> bool" where
  "alloc_inv h A U \<longleftrightarrow> area h (A \<union> free_nodes h) = U \<and>
     ((\<exists>c. heap_inv h A c) \<or>
      freep h = 0 \<and> A = {} \<and> 0 < unat (base h) \<and> unat (base h) < unat (brk h) \<and> unat (brk h) < 2 ^ 31)"

lemma alloc_invI: "heap_inv h A c \<Longrightarrow> area h A \<union> area h (set c) = U \<Longrightarrow> alloc_inv h A U"
  by (auto simp: alloc_inv_def free_nodes_list)

lemma apart_disjoint: "apart h a b \<Longrightarrow> {unat a..<en h a} \<inter> {unat b..<en h b} = {}"
  by (auto simp: apart_def)

lemma freep_not_0: "heap_inv h A c \<Longrightarrow> freep h \<noteq> 0"
  using base_least [of h A c "freep h"] heap_invD(7,9) [of h A c] by auto

lemma malloc_init_inv:
  assumes "alloc_inv h A U"
  obtains c where "heap_inv (malloc_init h) A c" "\<forall>b\<in>A. hsize (malloc_init h) b = hsize h b"
    "free_nodes h \<subseteq> set c" "area (malloc_init h) (set c) = free_area h" "brk (malloc_init h) = brk h"
    "\<forall>b\<in>free_nodes h. hsize (malloc_init h) b = hsize h b"
proof (cases "freep h = 0")
  case True
  then have a: "A = {}" "0 < unat (base h)" "unat (base h) < unat (brk h)" "unat (brk h) < 2 ^ 31"
    using assms freep_not_0 by (auto simp: alloc_inv_def)
  then have "heap_inv (malloc_init h) A [base h]" using True by (simp add: heap_inv_def malloc_init_def en_def)
  then show thesis
    by (rule that) (use True a(1) in \<open>simp_all add: free_nodes_def free_area_def malloc_init_def en_def\<close>)
next
  case False
  then obtain c where "heap_inv h A c" using assms by (auto simp: alloc_inv_def)
  then show thesis using False that [of c] by (simp add: malloc_init_def free_area_def free_nodes_list)
qed


lemma sbrk_cong: "brk h1 = brk h \<Longrightarrow> fst (sbrk grow n h1) = fst (sbrk grow n h)"
  by (simp add: sbrk_def Let_def)

lemma malloc_correct:
  assumes "alloc_inv h A U" "0 < unat (units nbytes)" "unat (units nbytes) < 2 ^ 28"
  shows "\<exists>p h'. malloc grow nbytes h = Some (p, h') \<and> (\<forall>b\<in>A. hsize h' b = hsize h b) \<and>
    (p = 0 \<and> (\<forall>b\<in>free_nodes h. hsize h b < units nbytes) \<and> fst (sbrk grow (max 4096 (units nbytes) * 8) h) = -1 \<and>
       alloc_inv h' A U \<and> free_area h' = free_area h \<or>
     p \<noteq> 0 \<and> p - 8 \<notin> A \<and> hsize h' (p - 8) = units nbytes \<and> (\<forall>b\<in>A. apart h' (p - 8) b) \<and>
       alloc_inv h' (insert (p - 8) A) (U \<union> {unat (brk h)..<unat (brk h')}) \<and>
       free_area h' \<union> {unat (p - 8)..<en h' (p - 8)} = free_area h \<union> {unat (brk h)..<unat (brk h')})"
proof -
  define h1 where "h1 = malloc_init h"
  obtain c where c: "heap_inv h1 A c" "\<forall>b\<in>A. hsize h1 b = hsize h b" "free_nodes h \<subseteq> set c"
      "area h1 (set c) = free_area h" "brk h1 = brk h" "\<forall>b\<in>free_nodes h. hsize h1 b = hsize h b"
    using malloc_init_inv [OF assms(1)] unfolding h1_def by blast
  have U: "area h A \<union> free_area h = U" using assms(1) by (simp add: alloc_inv_def free_area_def)
  from malloc_loop_correct [OF c(1) assms(2,3), of grow] obtain p h' c' where
    m: "malloc grow nbytes h = Some (p, h')" "\<forall>b\<in>A. hsize h' b = hsize h1 b" and
    cases: "p = 0 \<and> h' = h1 \<and> c' = c \<and> (\<forall>b\<in>set c. hsize h1 b < units nbytes) \<and>
        fst (sbrk grow (max 4096 (units nbytes) * 8) h1) = -1 \<or>
      p - 8 \<notin> A \<and> hsize h' (p - 8) = units nbytes \<and> heap_inv h' (insert (p - 8) A) c' \<and>
      area h' (set c') \<union> {unat (p - 8)..<en h' (p - 8)} = area h1 (set c) \<union> {unat (brk h1)..<unat (brk h')}"
    by (auto simp: malloc_def Let_def h1_def)
  have same: "\<forall>b\<in>A. hsize h' b = hsize h b" using m(2) c(2) by simp
  have used: "area h' A = area h A" by (rule area_cong [OF same])
  from cases show ?thesis
  proof (elim disjE conjE)
    assume f: "p = 0" "h' = h1" "\<forall>b\<in>set c. hsize h1 b < units nbytes"
      "fst (sbrk grow (max 4096 (units nbytes) * 8) h1) = -1"
    have "\<forall>b\<in>free_nodes h. hsize h b < units nbytes" using f(3) c(3,6) by fastforce
    moreover have "alloc_inv h' A U" unfolding f(2)
      by (rule alloc_invI [OF c(1)]) (use U used f(2) c(4) in simp)
    moreover have "free_area h' = free_area h" using c(4) f(2) free_nodes_list [OF c(1)] by (simp add: free_area_def)
    ultimately show ?thesis using m(1) same f(1,4) sbrk_cong [OF c(5)] by metis
  next
    assume f: "p - 8 \<notin> A" "hsize h' (p - 8) = units nbytes" "heap_inv h' (insert (p - 8) A) c'"
      "area h' (set c') \<union> {unat (p - 8)..<en h' (p - 8)} = area h1 (set c) \<union> {unat (brk h1)..<unat (brk h')}"
    have fa: "free_area h' = area h' (set c')" using free_nodes_list [OF f(3)] by (simp add: free_area_def)
    have "alloc_inv h' (insert (p - 8) A) (U \<union> {unat (brk h)..<unat (brk h')})"
      by (rule alloc_invI [OF f(3)]) (use U used f(4) c(4,5) in auto)
    moreover have "\<forall>b\<in>A. apart h' (p - 8) b" using heap_invD(14) [OF f(3), of "p - 8"] f(1) by blast
    moreover have "p \<noteq> 0"
    proof
      assume "p = 0"
      moreover have "unat (- 8 :: u32) = 2 ^ 32 - 8" using unat_neg_u32 [of 8] by simp
      moreover have "unat (p - 8) \<le> unat (brk h')" using heap_invD(13) [OF f(3), of "p - 8"] en_ge [of "p - 8" h'] by simp
      ultimately show False using heap_invD(8) [OF f(3)] by simp
    qed
    ultimately show ?thesis using m(1) same f(1,2,4) fa c(4,5) by metis
  qed
qed


text \<open>
  C28 Freeing a block in use always returns and takes exactly that block out of use: its bytes,
  none of which was free, are added to the free memory, and no other byte changes hands. The block
  has been joined with the free blocks next to it, so that no free block begins where another one
  ends. Every other block in use keeps its size, and the invariant holds again.
\<close>
theorem free_block:
  assumes "alloc_inv h A U" "a \<in> A"
  shows "\<exists>h'. free (a + 8) h = Some h' \<and> alloc_inv h' (A - {a}) U \<and> (\<forall>b\<in>A - {a}. hsize h' b = hsize h b)
    \<and> free_area h' = free_area h \<union> {unat a..<en h a} \<and> free_area h \<inter> {unat a..<en h a} = {}
    \<and> (\<forall>x\<in>free_nodes h'. \<forall>y\<in>free_nodes h'. x \<noteq> y \<longrightarrow> en h' x \<noteq> unat y)"
proof -
  obtain c where c: "heap_inv h A c" using assms by (auto simp: alloc_inv_def)
  have fn: "free_nodes h = set c" by (rule free_nodes_list [OF c])
  from free_correct [OF c assms(2)] obtain h' c' where
    f: "free (a + 8) h = Some h'" "heap_inv h' (A - {a}) c'" "\<forall>b\<in>A - {a}. hsize h' b = hsize h b"
      "area h' (set c') = area h (set c) \<union> {unat a..<en h a}" by blast
  have fn': "free_nodes h' = set c'" by (rule free_nodes_list [OF f(2)])
  have A: "area h A = {unat a..<en h a} \<union> area h (A - {a})" using assms(2) by (auto simp: area_def)
  have "area h' (A - {a}) = area h (A - {a})" by (rule area_cong [OF f(3)])
  then have "alloc_inv h' (A - {a}) U"
    by (intro alloc_invI [OF f(2)]) (use assms(1) A f(4) fn in \<open>auto simp: alloc_inv_def\<close>)
  moreover have "area h (set c) \<inter> {unat a..<en h a} = {}"
    using apart_disjoint [OF heap_invD(15) [OF c assms(2)]] by (fastforce simp: area_def)
  moreover have "en h' x \<noteq> unat y" if "x \<in> set c'" "y \<in> set c'" "x \<noteq> y" for x y
  proof -
    have "en h' x < unat y \<or> en h' y < unat x"
      using heap_invD(3) [OF f(2)] that by (induction c') auto
    then show ?thesis using en_ge [of x h'] en_ge [of y h'] by auto
  qed
  ultimately show ?thesis using f(1,3,4) fn fn' by (intro exI [of _ h']) (simp add: free_area_def)
qed

text \<open>
  A request for the last seven sizes before \<open>2 ^ 32\<close> overflows when it is rounded to
  units: \<open>malloc\<close> does what it does for a request of 0 bytes, and a block it returns is one
  unit long, which is the header alone.
\<close>
theorem malloc_overflow:
  assumes "alloc_inv h A U" "0xFFFFFFF9 \<le> nbytes"
  shows "\<exists>p h'. malloc grow nbytes h = Some (p, h') \<and> malloc grow 0 h = Some (p, h') \<and>
    (p = 0 \<or> p - 8 \<notin> A \<and> unat (hsize h' (p - 8)) = 1)"
proof -
  have "unat (nbytes + 7) < 8"
  proof -
    have "unat (nbytes + 7) = (unat nbytes + 7) mod 2 ^ 32" by (simp add: unat_word_ariths)
    moreover have "4294967289 \<le> unat nbytes" using assms(2) by (simp add: word_le_nat_alt)
    ultimately show ?thesis using unat_u32_less [of nbytes] by (simp add: mod_if, linarith)
  qed
  then have "unat ((nbytes + 7) div 8) = 0" by (simp add: unat_div)
  then have "(nbytes + 7) div 8 = 0" by (simp add: unsigned_eq_0_iff)
  then have u: "units nbytes = 1" by (simp add: units_def add.commute)
  have u0: "units 0 = 1" by (simp add: units_def)
  have "malloc grow nbytes h = malloc grow 0 h" by (simp add: malloc_def u u0)
  then show ?thesis using malloc_correct [OF assms(1), of nbytes grow] u by auto
qed




text \<open>One block in use, at 0x4000, and the rest of the first 32 kilobytes free.\<close>

definition heap1 :: heap where
  "heap1 = \<lparr>hptr = (\<lambda>_. 0)(0x1000 := 0x4010, 0x4010 := 0x1000), hsize = (\<lambda>_. 0)(0x4000 := 2, 0x4010 := 4094),
     freep = 0x1000, base = 0x1000, brk = 0xC000\<rparr>"

lemma heap1_list: "heap_inv heap1 {0x4000} [0x1000, 0x4010]"
  by (simp add: heap_inv_def heap1_def en_def apart_def)

lemma heap1_inv: "alloc_inv heap1 {0x4000} {0x4000..<0xC000}"
  by (rule alloc_invI [OF heap1_list]) (auto simp: heap1_def en_def)

theorem free_block_witness:
  "\<exists>h'. free 0x4008 heap1 = Some h' \<and> alloc_inv h' {} {0x4000..<0xC000} \<and> free_area h' = {0x4000..<0xC000}"
proof -
  have "free_area heap1 = {0x4010..<0xC000}"
    unfolding free_area_def free_nodes_list [OF heap1_list] by (simp add: heap1_def en_def)
  then show ?thesis using free_block [OF heap1_inv, of "0x4000"] by (auto simp: heap1_def en_def)
qed

theorem malloc_overflow_witness:
  "\<exists>p h'. malloc (\<lambda>_ _. True) 0xFFFFFFFF heap1 = Some (p, h') \<and> (p = 0 \<or> unat (hsize h' (p - 8)) = 1)"
proof -
  have "0xFFFFFFF9 \<le> (0xFFFFFFFF :: u32)" by simp
  from malloc_overflow [OF heap1_inv this, of "\<lambda>_ _. True"] show ?thesis by blast
qed

end
