(* ===== verification/ShellTotal.thy ===== *)
theory ShellTotal
  imports Shell
begin

text \<open>
  The shell's parser on arbitrary input: it ends, it stays inside the line, and whatever is wrong
  with the line is reported by one of its own messages.
\<close>

definition cmdline :: "byte list \<Rightarrow> nat \<Rightarrow> bool" where
  "cmdline buf es \<longleftrightarrow> es < length buf \<and> buf ! es = 0 \<and> (\<forall>i<es. buf ! i \<noteq> 0)"

lemma skip_ws_bounds: "s \<le> es \<Longrightarrow> s \<le> skip_ws buf es s \<and> skip_ws buf es s \<le> es"
proof (induction buf es s rule: skip_ws.induct)
  case (1 buf es s)
  then show ?case by (subst (1 2) skip_ws.simps) auto
qed

lemma skip_word_bounds: "s \<le> es \<Longrightarrow> s \<le> skip_word buf es s \<and> skip_word buf es s \<le> es"
proof (induction buf es s rule: skip_word.induct)
  case (1 buf es s)
  then show ?case by (subst (1 2) skip_word.simps) auto
qed

lemma skip_ws_stops: "skip_ws buf es s < es \<Longrightarrow> buf ! skip_ws buf es s \<notin> set whitespace"
proof (induction buf es s rule: skip_ws.induct)
  case (1 buf es s)
  then show ?case by (subst skip_ws.simps) (auto simp: skip_ws.simps [of buf es s] split: if_splits)
qed

lemma skip_word_moves:
  assumes "s < es" "buf ! s \<notin> set whitespace" "buf ! s \<notin> set symbols"
  shows "s < skip_word buf es s"
  using assms skip_word_bounds [of "Suc s" es buf] by (subst skip_word.simps) auto

text \<open>A token: where it is, and that every token but the last one moves the parser on.\<close>

lemma gettoken_bounds:
  assumes line: "cmdline buf es" and ps: "ps \<le> es" and tok: "gettoken buf es ps = Some (t, q, e, s)"
  shows "ps \<le> q" "q \<le> e" "e \<le> s" "s \<le> es" "t \<noteq> 0 \<Longrightarrow> q < e"
proof -
  note q = gettokenD [OF tok]
  have b: "ps \<le> q" "q \<le> es" using skip_ws_bounds [OF ps, of buf] q(1) by auto
  have end0: "buf ! es = 0" using line by (simp add: cmdline_def)
  have qe: "q \<le> e \<and> e \<le> es \<and> (t \<noteq> 0 \<longrightarrow> q < e)"
  proof (cases "buf ! q = 0")
    case True
    then show ?thesis using q(3) b by simp
  next
    case False
    then have lt: "q < es" using b(2) end0 by (cases "q = es") auto
    have nw: "buf ! q \<notin> set whitespace" using skip_ws_stops [of buf es ps] lt q(1) by simp
    show ?thesis
    proof (cases "buf ! q \<in> set symbols")
      case True
      have gg: "Suc q < es" if "buf ! Suc q = 62" using that lt end0 by (cases "Suc q = es") auto
      show ?thesis using True q(3) lt gg by (auto simp: symbols_def split: if_splits)
    next
      case other: False
      have "e = skip_word buf es q" "t = 97" using q(3) False other by (auto simp: symbols_def)
      then show ?thesis using skip_word_moves [of q es buf] skip_word_bounds [of q es buf] lt nw other by simp
    qed
  qed
  then show "ps \<le> q" "q \<le> e" "t \<noteq> 0 \<Longrightarrow> q < e" using b by auto
  show "e \<le> s" "s \<le> es" using skip_ws_bounds [of e es buf] qe q(2) by auto
qed

text \<open>From a position in the line, no read is behind the terminator.\<close>

lemma peek_some: "cmdline buf es \<Longrightarrow> ps \<le> es \<Longrightarrow> \<exists>m s. peek buf es ps toks = Some (m, s)"
  using skip_ws_bounds [of ps es buf] by (simp add: peek_def cmdline_def Let_def)

lemma gettoken_some:
  assumes "cmdline buf es" "ps \<le> es"
  shows "\<exists>t q e s. gettoken buf es ps = Some (t, q, e, s)"
proof -
  define q where "q = skip_ws buf es ps"
  have q: "q \<le> es" "es < length buf" using assms skip_ws_bounds [of ps es buf] by (simp_all add: q_def cmdline_def)
  then have "Suc q < length buf" if "buf ! q \<noteq> 0" using that assms(1) by (cases "q = es") (auto simp: cmdline_def)
  with q show ?thesis by (auto simp: gettoken_def Let_def q_def [symmetric])
qed

lemma peek_bounds:
  assumes "ps \<le> es" "peek buf es ps toks = Some (m, s)"
  shows "ps \<le> s" "s \<le> es" "m \<Longrightarrow> buf ! s \<noteq> 0" "skip_ws buf es s = s"
proof -
  note s = peekD(1) [OF assms(2)]
  show "ps \<le> s" "s \<le> es" "m \<Longrightarrow> buf ! s \<noteq> 0" using skip_ws_bounds [OF assms(1), of buf] peekD [OF assms(2)] by auto
  show "skip_ws buf es s = s" unfolding s using skip_ws_stops [of buf es ps] by (subst skip_ws.simps) auto
qed

text \<open>After a successful \<open>peek\<close> the next token is not the end of the line.\<close>

lemma peek_gettoken:
  assumes "cmdline buf es" "ps \<le> es" "peek buf es ps toks = Some (True, s)" "gettoken buf es s = Some (t, q, e, s')"
  shows "ps < s'" "s' \<le> es"
proof -
  note p = peek_bounds [OF assms(2,3)]
  have "t \<noteq> 0" using gettokenD [OF assms(4)] p(3,4) by (auto split: if_splits)
  then show "ps < s'" "s' \<le> es" using gettoken_bounds [OF assms(1) p(2) assms(4)] p(1) by auto
qed

subsection \<open>The parser\<close>

text \<open>What a piece of the parser that starts at \<open>ps\<close> may end with.\<close>

definition parse_messages :: "string list" where
  "parse_messages = [''missing file for redirection'', ''syntax'', ''too many args'', ''parseblock'', ''syntax - missing )'']"

definition parsed :: "nat \<Rightarrow> nat \<Rightarrow> ('a \<Rightarrow> bool) \<Rightarrow> stop + 'a \<times> nat \<Rightarrow> bool" where
  "parsed es ps P r \<longleftrightarrow> (case r of Inl e \<Rightarrow> \<exists>m\<in>set parse_messages. e = Panic m | Inr (x, s) \<Rightarrow> P x \<and> ps \<le> s \<and> s \<le> es)"

lemma parsed_simps:
  "parsed es ps P (Inr (x, s)) \<longleftrightarrow> P x \<and> ps \<le> s \<and> s \<le> es"
  "parsed es ps P (Inl e) \<longleftrightarrow> (\<exists>m\<in>set parse_messages. e = Panic m)"
  by (simp_all add: parsed_def)

lemma parsed_panic: "m \<in> set parse_messages \<Longrightarrow> parsed es ps P (Inl (Panic m))"
  by (simp add: parsed_def)

lemma parsed_bind:
  assumes "parsed es ps P r" "\<And>x s. r = Inr (x, s) \<Longrightarrow> P x \<Longrightarrow> ps \<le> s \<Longrightarrow> s \<le> es \<Longrightarrow> parsed es ps0 Q (k x s)"
  shows "parsed es ps0 Q (case r of Inl e \<Rightarrow> Inl e | Inr (x, s) \<Rightarrow> k x s)"
  using assms by (auto simp: parsed_def split: sum.splits)

lemma parsed_mono: "parsed es ps P r \<Longrightarrow> ps0 \<le> ps \<Longrightarrow> (\<And>x. P x \<Longrightarrow> Q x) \<Longrightarrow> parsed es ps0 Q r"
  by (auto simp: parsed_def split: sum.splits)

text \<open>The words of a command lie inside the line.\<close>

definition ref_ok :: "nat \<Rightarrow> word_ref \<Rightarrow> bool" where
  "ref_ok es = (\<lambda>(q, e). q < e \<and> e \<le> es)"

fun cmd_ok :: "nat \<Rightarrow> cmd \<Rightarrow> bool" where
  "cmd_ok es (EXEC ws) \<longleftrightarrow> (\<forall>w\<in>set ws. ref_ok es w)"
| "cmd_ok es (REDIR c w m fd) \<longleftrightarrow> cmd_ok es c \<and> ref_ok es w"
| "cmd_ok es (PIPE l r) \<longleftrightarrow> cmd_ok es l \<and> cmd_ok es r"
| "cmd_ok es (LIST l r) \<longleftrightarrow> cmd_ok es l \<and> cmd_ok es r"
| "cmd_ok es (BACK c) \<longleftrightarrow> cmd_ok es c"

definition redirs_in :: "nat \<Rightarrow> redir list \<Rightarrow> bool" where
  "redirs_in es rs \<longleftrightarrow> (\<forall>r\<in>set rs. ref_ok es (fst r))"

lemma wrap_redirs_in: "cmd_ok es c \<Longrightarrow> redirs_in es rs \<Longrightarrow> cmd_ok es (wrap_redirs c rs)"
  by (induction c rs rule: wrap_redirs.induct) (auto simp: redirs_in_def)

lemma parseredirs_parsed:
  assumes line: "cmdline buf es"
  shows "ps \<le> es \<Longrightarrow> parsed es ps (redirs_in es) (parseredirs buf es ps)"
proof (induction "es - ps" arbitrary: ps rule: less_induct)
  case less
  obtain more s where p: "peek buf es ps [60, 62] = Some (more, s)" using peek_some [OF line less.prems] by blast
  note pb = peek_bounds [OF less.prems p]
  show ?case
  proof (cases more)
    case False
    then show ?thesis using pb by (subst parseredirs.simps) (simp add: p parsed_simps redirs_in_def)
  next
    case True
    then have p': "peek buf es ps [60, 62] = Some (True, s)" using p by simp
    obtain t q0 e0 s1 where g: "gettoken buf es s = Some (t, q0, e0, s1)" using gettoken_some [OF line pb(2)] by blast
    note m = peek_gettoken [OF line less.prems p' g]
    obtain t2 q e s2 where g2: "gettoken buf es s1 = Some (t2, q, e, s2)" using gettoken_some [OF line m(2)] by blast
    note b = gettoken_bounds [OF line m(2) g2]
    have s2: "ps < s2" "s2 \<le> es" using m b by auto
    define r :: "redir list" where "r = (if t = 60 then [((q, e), O_RDONLY, 0)]
      else if t = 62 \<or> t = 43 then [((q, e), O_WRONLY + O_CREATE, 1)] else [])"
    have run: "parseredirs buf es ps = (if t2 \<noteq> 97 then Inl (Panic ''missing file for redirection'')
        else case parseredirs buf es s2 of Inl e \<Rightarrow> Inl e | Inr (rs, s3) \<Rightarrow> Inr (r @ rs, s3))"
      unfolding r_def using s2
      by (cases "t2 = 97"; subst parseredirs.simps; simp add: p' g g2 Let_def split del: if_split)
    have r: "redirs_in es r" if "t2 = 97" using that b by (auto simp: r_def redirs_in_def ref_ok_def)
    have IH: "parsed es s2 (redirs_in es) (parseredirs buf es s2)" using less.hyps s2 by simp
    show ?thesis unfolding run
      using parsed_bind [OF IH, of ps "redirs_in es" "\<lambda>rs s3. Inr (r @ rs, s3)"] r s2
      by (auto simp: parsed_simps redirs_in_def parse_messages_def)
  qed
qed

lemma parseargs_parsed:
  assumes line: "cmdline buf es"
  shows "ps \<le> es \<Longrightarrow>
    parsed es ps (\<lambda>(as, rs). (\<forall>w\<in>set as. ref_ok es w) \<and> redirs_in es rs) (parseargs buf es argc ps)"
proof (induction "es - ps" arbitrary: ps argc rule: less_induct)
  case less
  let ?P = "\<lambda>(as, rs). (\<forall>w\<in>set as. ref_ok es w) \<and> redirs_in es rs"
  obtain stp s where p: "peek buf es ps [124, 41, 38, 59] = Some (stp, s)" using peek_some [OF line less.prems] by blast
  note pb = peek_bounds [OF less.prems p]
  obtain t q e s1 where g: "gettoken buf es s = Some (t, q, e, s1)" using gettoken_some [OF line pb(2)] by blast
  note b = gettoken_bounds [OF line pb(2) g]
  have s1: "ps \<le> s1" "s1 \<le> es" "t \<noteq> 0 \<Longrightarrow> ps < s1" using b pb(1) by auto
  show ?case
  proof (cases "stp \<or> t \<noteq> 97 \<or> Suc argc \<ge> MAXARGS")
    case True
    then show ?thesis using pb s1
      by (subst parseargs.simps) (auto simp: p g parsed_simps redirs_in_def parse_messages_def)
  next
    case False
    have rd: "parsed es s1 (redirs_in es) (parseredirs buf es s1)" by (rule parseredirs_parsed [OF line s1(2)])
    have run: "parseargs buf es argc ps = (case parseredirs buf es s1 of Inl e \<Rightarrow> Inl e | Inr (rs, s2) \<Rightarrow>
        if s2 \<le> ps \<or> es < s2 then Inl Hang
        else case parseargs buf es (Suc argc) s2 of Inl e \<Rightarrow> Inl e
          | Inr ((as, rs'), s3) \<Rightarrow> Inr (((q, e) # as, rs @ rs'), s3))"
      using False by (subst parseargs.simps) (simp add: p g)
    have ref: "ref_ok es (q, e)" using b s1 False by (auto simp: ref_ok_def)
    show ?thesis unfolding run
    proof (rule parsed_bind [OF rd])
      fix rs s2
      assume rs: "redirs_in es rs" "s1 \<le> s2" "s2 \<le> es"
      then have lt: "ps < s2" using s1 False by auto
      have IH: "parsed es s2 ?P (parseargs buf es (Suc argc) s2)" using less.hyps lt rs(3) by simp
      show "parsed es ps ?P (if s2 \<le> ps \<or> es < s2 then Inl Hang
          else case parseargs buf es (Suc argc) s2 of Inl e \<Rightarrow> Inl e
            | Inr ((as, rs'), s3) \<Rightarrow> Inr (((q, e) # as, rs @ rs'), s3))"
        using IH lt rs ref by (auto simp: parsed_def redirs_in_def split: sum.splits prod.splits)
    qed
  qed
qed

lemma parseback_parsed:
  assumes line: "cmdline buf es"
  shows "ps \<le> es \<Longrightarrow> es - ps < n \<Longrightarrow> cmd_ok es c \<Longrightarrow> parsed es ps (cmd_ok es) (parseback n buf es c ps)"
proof (induction n arbitrary: ps c)
  case (Suc n)
  obtain more s where p: "peek buf es ps [38] = Some (more, s)" using peek_some [OF line Suc.prems(1)] by blast
  note pb = peek_bounds [OF Suc.prems(1) p]
  show ?case
  proof (cases more)
    case False
    then show ?thesis using pb Suc.prems by (simp add: p parsed_simps)
  next
    case True
    obtain t q e s1 where g: "gettoken buf es s = Some (t, q, e, s1)" using gettoken_some [OF line pb(2)] by blast
    have m: "ps < s1" "s1 \<le> es" using peek_gettoken [OF line Suc.prems(1) _ g, of "[38]"] p True by simp_all
    have "parsed es s1 (cmd_ok es) (parseback n buf es (BACK c) s1)" using Suc m by simp
    then show ?thesis using True m by (simp add: p g parsed_mono)
  qed
qed simp

lemma parseblock_parsed:
  assumes line: "cmdline buf es" and ps: "ps \<le> es"
    and rec: "\<And>s. ps < s \<Longrightarrow> s \<le> es \<Longrightarrow> parsed es s (cmd_ok es) (parseline buf es s)"
  shows "parsed es ps (cmd_ok es) (parseblock buf es ps)"
proof -
  obtain op s where p: "peek buf es ps [40] = Some (op, s)" using peek_some [OF line ps] by blast
  show ?thesis
  proof (cases op)
    case False
    then show ?thesis by (subst parseblock.simps) (simp add: p parsed_simps parse_messages_def)
  next
    case True
    obtain t q e s1 where g: "gettoken buf es s = Some (t, q, e, s1)" using gettoken_some [OF line peek_bounds(2) [OF ps p]] by blast
    have m: "ps < s1" "s1 \<le> es" using peek_gettoken [OF line ps _ g, of "[40]"] p True by simp_all
    have run: "parseblock buf es ps = (case parseline buf es s1 of Inl e \<Rightarrow> Inl e
      | Inr (c, s2) \<Rightarrow>
          case peek buf es s2 [41] of None \<Rightarrow> Inl Fault | Some (cl, s3) \<Rightarrow>
          if \<not> cl then Inl (Panic ''syntax - missing )'')
          else case gettoken buf es s3 of None \<Rightarrow> Inl Fault | Some (_, _, _, s4) \<Rightarrow>
            case parseredirs buf es s4 of Inl e \<Rightarrow> Inl e | Inr (rs, s5) \<Rightarrow> Inr (wrap_redirs c rs, s5))"
      using True m by (subst parseblock.simps) (simp add: p g)
    show ?thesis unfolding run
    proof (rule parsed_bind [OF rec [OF m]])
      fix c s2
      assume c: "cmd_ok es c" "s1 \<le> s2" "s2 \<le> es"
      obtain cl s3 where p2: "peek buf es s2 [41] = Some (cl, s3)" using peek_some [OF line c(3)] by blast
      obtain t' q' e' s4 where g2: "gettoken buf es s3 = Some (t', q', e', s4)" using gettoken_some [OF line peek_bounds(2) [OF c(3) p2]] by blast
      note pb = peek_bounds [OF c(3) p2] and b = gettoken_bounds [OF line peek_bounds(2) [OF c(3) p2] g2]
      have le: "ps \<le> s4" "s4 \<le> es" using m c pb b by auto
      have "parsed es s4 (redirs_in es) (parseredirs buf es s4)" by (rule parseredirs_parsed [OF line le(2)])
      then have "parsed es ps (cmd_ok es) (case parseredirs buf es s4 of Inl e \<Rightarrow> Inl e | Inr (rs, s5) \<Rightarrow> Inr (wrap_redirs c rs, s5))"
        by (rule parsed_bind) (use c(1) le in \<open>simp add: parsed_simps wrap_redirs_in\<close>)
      then show "parsed es ps (cmd_ok es) (case peek buf es s2 [41] of None \<Rightarrow> Inl Fault | Some (cl, s3) \<Rightarrow>
          if \<not> cl then Inl (Panic ''syntax - missing )'')
          else case gettoken buf es s3 of None \<Rightarrow> Inl Fault | Some (_, _, _, s4) \<Rightarrow>
            case parseredirs buf es s4 of Inl e \<Rightarrow> Inl e | Inr (rs, s5) \<Rightarrow> Inr (wrap_redirs c rs, s5))"
        by (simp add: p2 g2 parsed_simps parse_messages_def)
    qed
  qed
qed

lemma parseexec_parsed:
  assumes line: "cmdline buf es" and ps: "ps \<le> es"
    and rec: "\<And>s. ps \<le> s \<Longrightarrow> s \<le> es \<Longrightarrow> parsed es s (cmd_ok es) (parseblock buf es s)"
  shows "parsed es ps (cmd_ok es) (parseexec buf es ps)"
proof -
  obtain block s where p: "peek buf es ps [40] = Some (block, s)" using peek_some [OF line ps] by blast
  note pb = peek_bounds [OF ps p]
  show ?thesis
  proof (cases block)
    case True
    then show ?thesis using parsed_mono [OF rec [OF pb(1,2)] pb(1)] pb by (subst parseexec.simps) (simp add: p)
  next
    case False
    have run: "parseexec buf es ps = (case parseredirs buf es s of Inl e \<Rightarrow> Inl e
        | Inr (rs, s1) \<Rightarrow> case parseargs buf es 0 s1 of Inl e \<Rightarrow> Inl e
            | Inr ((as, rs'), s2) \<Rightarrow> Inr (wrap_redirs (EXEC as) (rs @ rs'), s2))"
      using False by (subst parseexec.simps) (simp add: p)
    show ?thesis unfolding run
    proof (rule parsed_bind [OF parseredirs_parsed [OF line pb(2)]])
      fix rs s1
      assume rs: "redirs_in es rs" "s \<le> s1" "s1 \<le> es"
      then show "parsed es ps (cmd_ok es) (case parseargs buf es 0 s1 of Inl e \<Rightarrow> Inl e
          | Inr ((as, rs'), s2) \<Rightarrow> Inr (wrap_redirs (EXEC as) (rs @ rs'), s2))"
        using parseargs_parsed [OF line rs(3), of 0] pb(1)
        by (auto simp: parsed_def redirs_in_def intro!: wrap_redirs_in split: sum.splits prod.splits)
    qed
  qed
qed

lemma parsepipe_parsed:
  assumes line: "cmdline buf es"
  shows "ps \<le> es \<Longrightarrow> (\<And>s. ps \<le> s \<Longrightarrow> s \<le> es \<Longrightarrow> parsed es s (cmd_ok es) (parseexec buf es s)) \<Longrightarrow>
    parsed es ps (cmd_ok es) (parsepipe buf es ps)"
proof (induction "es - ps" arbitrary: ps rule: less_induct)
  case less
  show ?case
  proof (subst parsepipe.simps, rule parsed_bind [OF less.prems(2) [OF order_refl less.prems(1)]])
    fix c s1
    assume c: "cmd_ok es c" "ps \<le> s1" "s1 \<le> es"
    obtain more s2 where p: "peek buf es s1 [124] = Some (more, s2)" using peek_some [OF line c(3)] by blast
    note pb = peek_bounds [OF c(3) p]
    obtain t q e s3 where g: "gettoken buf es s2 = Some (t, q, e, s3)" using gettoken_some [OF line pb(2)] by blast
    show "parsed es ps (cmd_ok es) (case peek buf es s1 [124] of None \<Rightarrow> Inl Fault | Some (more, s2) \<Rightarrow>
        if more then case gettoken buf es s2 of None \<Rightarrow> Inl Fault | Some (_, _, _, s3) \<Rightarrow>
          if s3 \<le> ps \<or> es < s3 then Inl Hang
          else case parsepipe buf es s3 of Inl e \<Rightarrow> Inl e | Inr (c2, s4) \<Rightarrow> Inr (PIPE c c2, s4)
        else Inr (c, s2))"
    proof (cases more)
      case False
      then show ?thesis using c pb by (simp add: p parsed_simps)
    next
      case True
      have m: "s1 < s3" "s3 \<le> es" using peek_gettoken [OF line c(3) _ g, of "[124]"] p True by simp_all
      have "parsed es s3 (cmd_ok es) (parsepipe buf es s3)"
        by (rule less.hyps) (use m c less.prems in \<open>auto intro: order_trans\<close>)
      then show ?thesis using True m c by (auto simp: p g parsed_def split: sum.splits)
    qed
  qed
qed

lemma parseline_parsed:
  assumes line: "cmdline buf es" and ps: "ps \<le> es" and pipe: "parsed es ps (cmd_ok es) (parsepipe buf es ps)"
    and rec: "\<And>s. ps < s \<Longrightarrow> s \<le> es \<Longrightarrow> parsed es s (cmd_ok es) (parseline buf es s)"
  shows "parsed es ps (cmd_ok es) (parseline buf es ps)"
proof (subst parseline.simps, rule parsed_bind [OF pipe])
  fix c s1
  assume c: "cmd_ok es c" "ps \<le> s1" "s1 \<le> es"
  have bg: "parsed es s1 (cmd_ok es) (parseback (Suc es) buf es c s1)" by (rule parseback_parsed [OF line c(3) _ c(1)]) simp
  show "parsed es ps (cmd_ok es) (case parseback (Suc es) buf es c s1 of Inl e \<Rightarrow> Inl e
      | Inr (c2, s2) \<Rightarrow> case peek buf es s2 [59] of None \<Rightarrow> Inl Fault | Some (more, s3) \<Rightarrow>
          if more then case gettoken buf es s3 of None \<Rightarrow> Inl Fault | Some (_, _, _, s4) \<Rightarrow>
            if s4 \<le> ps \<or> es < s4 then Inl Hang
            else case parseline buf es s4 of Inl e \<Rightarrow> Inl e | Inr (c3, s5) \<Rightarrow> Inr (LIST c2 c3, s5)
          else Inr (c2, s3))"
  proof (rule parsed_bind [OF bg])
    fix c2 s2
    assume c2: "cmd_ok es c2" "s1 \<le> s2" "s2 \<le> es"
    obtain more s3 where p: "peek buf es s2 [59] = Some (more, s3)" using peek_some [OF line c2(3)] by blast
    note pb = peek_bounds [OF c2(3) p]
    obtain t q e s4 where g: "gettoken buf es s3 = Some (t, q, e, s4)" using gettoken_some [OF line pb(2)] by blast
    have m: "s2 < s4 \<and> s4 \<le> es" if more using peek_gettoken [OF line c2(3) _ g, of "[59]"] p that by simp
    have "parsed es s4 (cmd_ok es) (parseline buf es s4)" if more by (rule rec) (use m that c c2 in auto)
    then show "parsed es ps (cmd_ok es) (case peek buf es s2 [59] of None \<Rightarrow> Inl Fault | Some (more, s3) \<Rightarrow>
          if more then case gettoken buf es s3 of None \<Rightarrow> Inl Fault | Some (_, _, _, s4) \<Rightarrow>
            if s4 \<le> ps \<or> es < s4 then Inl Hang
            else case parseline buf es s4 of Inl e \<Rightarrow> Inl e | Inr (c3, s5) \<Rightarrow> Inr (LIST c2 c3, s5)
          else Inr (c2, s3))"
      using c c2 pb m by (cases more) (auto simp: p g parsed_def split: sum.splits)
  qed
qed

lemma parse_rec:
  assumes line: "cmdline buf es"
  shows "ps \<le> es \<Longrightarrow> parsed es ps (cmd_ok es) (parseline buf es ps) \<and> parsed es ps (cmd_ok es) (parseblock buf es ps)"
proof (induction "es - ps" arbitrary: ps rule: less_induct)
  case less
  have IH: "parsed es s (cmd_ok es) (parseline buf es s)" "parsed es s (cmd_ok es) (parseblock buf es s)"
    if "ps < s" "s \<le> es" for s using less.hyps [of s] that by auto
  have block: "parsed es ps (cmd_ok es) (parseblock buf es ps)"
    by (rule parseblock_parsed [OF line less.prems]) (use IH(1) in blast)
  have exec: "parsed es s (cmd_ok es) (parseexec buf es s)" if "ps \<le> s" "s \<le> es" for s
    by (rule parseexec_parsed [OF line that(2)]) (use IH(2) block that in \<open>metis le_trans nat_less_le\<close>)
  have pipe: "parsed es ps (cmd_ok es) (parsepipe buf es ps)"
    by (rule parsepipe_parsed [OF line less.prems]) (use exec in blast)
  have "parsed es ps (cmd_ok es) (parseline buf es ps)"
    by (rule parseline_parsed [OF line less.prems pipe]) (use IH(1) in blast)
  with block show ?case by blast
qed

text \<open>Ending the words stays inside the buffer.\<close>

lemma fold_end_words:
  "es < length buf \<Longrightarrow> \<forall>w\<in>set ws. ref_ok es w \<Longrightarrow>
     \<exists>b. fold (\<lambda>(q, eq) b. Option.bind b (\<lambda>m. Prelude.st m eq 0)) ws (Some buf) = Some b \<and> length b = length buf"
proof (induction ws arbitrary: buf)
  case (Cons w ws)
  obtain q e where w: "w = (q, e)" by fastforce
  then have "e < length buf" using Cons.prems by (auto simp: ref_ok_def)
  then show ?case using Cons.IH [of "buf[e := 0]"] Cons.prems w by simp
qed simp

lemma nulterminate_total: "es < length buf \<Longrightarrow> cmd_ok es c \<Longrightarrow> \<exists>b. nulterminate c buf = Some b \<and> length b = length buf"
proof (induction c arbitrary: buf)
  case (EXEC ws)
  then show ?case using fold_end_words [of es buf ws] by simp
next
  case (REDIR c w m fd)
  obtain q e where w: "w = (q, e)" by fastforce
  obtain b where "nulterminate c buf = Some b" "length b = length buf" using REDIR by auto
  moreover have "e \<le> es" using REDIR.prems w by (simp add: ref_ok_def)
  ultimately show ?case using REDIR.prems(1) w by simp
next
  case (PIPE l r)
  then obtain b where "nulterminate l buf = Some b" "length b = length buf" by fastforce
  then show ?case using PIPE.IH(2) [of b] PIPE.prems by simp
next
  case (LIST l r)
  then obtain b where "nulterminate l buf = Some b" "length b = length buf" by fastforce
  then show ?case using LIST.IH(2) [of b] LIST.prems by simp
next
  case (BACK c)
  then show ?case by simp
qed

lemma strlen_cmdline: "strlen buf = Some es \<Longrightarrow> cmdline buf es"
proof (induction buf arbitrary: es)
  case (Cons c buf)
  show ?case
  proof (cases "c = 0")
    case False
    then obtain k where "strlen buf = Some k" "es = Suc k" using Cons.prems by auto
    then show ?thesis using Cons.IH [of k] False by (auto simp: cmdline_def nth_Cons split: nat.splits)
  qed (use Cons.prems in \<open>simp add: cmdline_def\<close>)
qed simp

lemma strlen_terminated: "0 \<in> set buf \<Longrightarrow> \<exists>es. strlen buf = Some es"
  by (induction buf) auto

text \<open>
  C27 The parser ends on every line. For any buffer that contains a terminator, \<open>parsecmd\<close>
  returns a command all of whose words are non-empty pieces of the line, together with a buffer of
  the same length in which they are terminated, or it stops with one of its five messages. It never
  runs forever, reads outside the buffer or stores outside it.
\<close>
theorem parsecmd_total:
  assumes "0 \<in> set buf"
  shows "(\<exists>m\<in>set parse_messages. parsecmd buf = Inl (Panic m)) \<or>
    (\<exists>c b es. parsecmd buf = Inr (c, b) \<and> length b = length buf \<and> strlen buf = Some es \<and> cmd_ok es c)"
proof -
  obtain es where es: "strlen buf = Some es" using strlen_terminated [OF assms] by blast
  note line = strlen_cmdline [OF es]
  have p: "parsed es 0 (cmd_ok es) (parseline buf es 0)" using parse_rec [OF line, of 0] by simp
  show ?thesis
  proof (cases "parseline buf es 0")
    case (Inl e)
    then show ?thesis using p es by (auto simp: parsed_simps parsecmd_def)
  next
    case (Inr r)
    then obtain c s where r: "parseline buf es 0 = Inr (c, s)" "cmd_ok es c" using p by (cases r) (auto simp: parsed_simps)
    obtain b where "nulterminate c buf = Some b" "length b = length buf"
      using nulterminate_total [OF _ r(2), of buf] line by (auto simp: cmdline_def)
    moreover have "s \<le> es" using p r(1) by (simp add: parsed_simps)
    then obtain m s' where "peek buf es s [] = Some (m, s')" using peek_some [OF line] by blast
    ultimately show ?thesis using r es by (cases "s' = es") (auto simp: parsecmd_def parse_messages_def)
  qed
qed

text \<open>The line \<open>a >\<close>, with no file to redirect to.\<close>

theorem parsecmd_total_witness:
  "(\<exists>m\<in>set parse_messages. parsecmd [97, 32, 62, 0] = Inl (Panic m)) \<or> (\<exists>c b. parsecmd [97, 32, 62, 0] = Inr (c, b))"
proof -
  have "0 \<in> set [97, 32, 62, 0 :: byte]" by simp
  from parsecmd_total [OF this] show ?thesis by blast
qed

end
