(* ===== verification/PageMap.thy ===== *)
theory PageMap
  imports VmSpec
begin

text \<open>
  Page tables as maps: \<open>pmap s d\<close> is the partial map from virtual page numbers to page table
  entries that the directory at \<open>d\<close> stands for, and \<open>walkpgdir\<close> and \<open>mappages\<close>
  are shown to extend this map, whatever tables they have to allocate on the way.
\<close>

subsection \<open>Entries\<close>

definition slot :: "u32 \<Rightarrow> nat \<Rightarrow> u32" where
  "slot p i = p + 4 * of_nat i"

definition present :: "u32 \<Rightarrow> bool" where
  "present e \<longleftrightarrow> e AND PTE_P \<noteq> 0"

definition tab :: "'a mem_st_scheme \<Rightarrow> u32 \<Rightarrow> nat \<Rightarrow> u32" where
  "tab s p i = ldw s (slot p i)"

lemma slot_frame:
  assumes "kpage s p" "i < 1024"
  shows "frame_no (slot p i) = frame_no p" "frame_off (slot p i) = 4 * i"
proof -
  have u: "unat (v2p p) = frame_no p * 4096" "unat (v2p p) < 0xE000000"
    using kpage_unat [OF assms(1)] assms(1) by (auto simp: kpage_def word_less_nat_alt)
  have i: "unat (of_nat (4 * i) :: u32) = 4 * i"
    unfolding unat_of_nat by (rule mod_less) (use assms(2) in simp)
  have "unat (v2p p) + unat (of_nat (4 * i) :: u32) < 2 ^ 32" using u(2) i assms(2) by simp
  then have "unat (v2p p + of_nat (4 * i)) = unat (v2p p) + unat (of_nat (4 * i) :: u32)"
    using unat_add_lem [of "v2p p" "of_nat (4 * i)"] by simp
  moreover have "v2p (slot p i) = v2p p + of_nat (4 * i)" by (simp add: v2p_def slot_def)
  ultimately have "unat (v2p (slot p i)) = unat (v2p p) + 4 * i" using i by simp
  then have "unat (v2p (slot p i)) = frame_no p * 4096 + 4 * i" using u(1) by simp
  then show "frame_no (slot p i) = frame_no p" "frame_off (slot p i) = 4 * i"
    using assms(2) unfolding frame_no_def [of "slot p i"] frame_off_def by simp_all
qed

lemma tab_stw:
  assumes "mem_ok s" "kpage s p" "i < 1024" "kpage s q" "j < 1024"
  shows "tab (stw (slot p i) x s) q j = (if p = q \<and> i = j then x else tab s q j)"
proof -
  note a = slot_frame [OF assms(2,3)] and b = slot_frame [OF assms(4,5)]
  have l: "length (frames s (frame_no p)) = 4096" using assms(1) by (simp add: mem_ok_def)
  show ?thesis
  proof (cases "p = q")
    case True
    show ?thesis
    proof (cases "i = j")
      case eq: True
      have "frame_off (slot p i) \<le> 4092" using a(2) assms(3) by simp
      with True eq show ?thesis using ldw_stw [OF assms(1)] by (simp add: tab_def)
    next
      case ne: False
      then have "4 * j + 4 \<le> 4 * i \<or> 4 * i + 4 \<le> 4 * j" by linarith
      then have "get32 (put32 (frames s (frame_no p)) (4 * i) (unat x)) (4 * j) = get32 (frames s (frame_no p)) (4 * j)"
        using l assms(3,5) by (intro get_put_other(2)) simp_all
      then show ?thesis using True ne a b by (simp add: tab_def ldw_def stw_def)
    qed
  next
    case False
    then have "frame_no q \<noteq> frame_no p" using frame_no_inj [OF assms(2,4)] by metis
    then show ?thesis using False a b by (simp add: tab_def ldw_def stw_def)
  qed
qed

subsection \<open>The map of a page directory\<close>

definition tbl :: "'a mem_st_scheme \<Rightarrow> u32 \<Rightarrow> nat \<Rightarrow> u32" where
  "tbl s d i = p2v (PTE_ADDR (tab s d i))"

definition pmap :: "'a mem_st_scheme \<Rightarrow> u32 \<Rightarrow> nat \<Rightarrow> u32 option" where
  "pmap s d v =
     (if v < 2 ^ 20 \<and> present (tab s d (v div 1024)) \<and> present (tab s (tbl s d (v div 1024)) (v mod 1024))
      then Some (tab s (tbl s d (v div 1024)) (v mod 1024)) else None)"

text \<open>
  The directory and its tables are pages of the allocator, none of them free, all of them
  different; \<open>F\<close> is the free list.
\<close>

definition pt_ok :: "'a mem_st_scheme \<Rightarrow> u32 \<Rightarrow> u32 list \<Rightarrow> bool" where
  "pt_ok s d F \<longleftrightarrow> kfreelist s F \<and> kpage s d \<and> d \<notin> set F \<and>
     (\<forall>i<1024. present (tab s d i) \<longrightarrow> kpage s (tbl s d i) \<and> tbl s d i \<notin> set F \<and> tbl s d i \<noteq> d \<and>
        (\<forall>j<1024. j \<noteq> i \<longrightarrow> present (tab s d j) \<longrightarrow> tbl s d j \<noteq> tbl s d i))"

lemma pt_okD:
  assumes "pt_ok s d F"
  shows "kfreelist s F" "mem_ok s" "kpage s d" "d \<notin> set F"
    "\<And>i. i < 1024 \<Longrightarrow> present (tab s d i) \<Longrightarrow> kpage s (tbl s d i)"
    "\<And>i. i < 1024 \<Longrightarrow> present (tab s d i) \<Longrightarrow> tbl s d i \<notin> set F"
    "\<And>i. i < 1024 \<Longrightarrow> present (tab s d i) \<Longrightarrow> tbl s d i \<noteq> d"
    "\<And>i j. i < 1024 \<Longrightarrow> present (tab s d i) \<Longrightarrow> j < 1024 \<Longrightarrow> present (tab s d j) \<Longrightarrow> j \<noteq> i \<Longrightarrow> tbl s d j \<noteq> tbl s d i"
  using assms unfolding pt_ok_def kfreelist_def by blast+

lemma kpage_stw [simp]: "kpage (stw v x s) = kpage s" "kpage (set_page v b s) = kpage s" "kpage (s\<lparr>freelist := f\<rparr>) = kpage s"
  by (simp_all add: kpage_def [abs_def] stw_def set_page_def)

lemma free_pages: "kfreelist s F \<Longrightarrow> p \<in> set F \<Longrightarrow> kpage s p"
  using chain_pages [of s "freelist s" F] by (simp add: kfreelist_def)

text \<open>A store into a page that is not free keeps the free list.\<close>

lemma kfreelist_stw:
  assumes "kfreelist s F" "kpage s p" "p \<notin> set F" "i < 1024"
  shows "kfreelist (stw (slot p i) x s) F"
proof -
  note f = slot_frame [OF assms(2,4)]
  have "page_bytes (stw (slot p i) x s) q = page_bytes s q" if "q \<in> set F" for q
  proof -
    have "frame_no q \<noteq> frame_no p"
      using frame_no_inj [OF free_pages [OF assms(1) that] assms(2)] that assms(3) by auto
    then show ?thesis using f by (simp add: page_bytes_def stw_def)
  qed
  then have "chain (stw (slot p i) x s) (freelist s) F = chain s (freelist s) F"
    by (intro chain_cong) (simp_all add: stw_def)
  moreover have "mem_ok (stw (slot p i) x s)" using assms f(2) by (simp add: kfreelist_def)
  ultimately show ?thesis using assms(1) by (simp add: kfreelist_def) (simp add: stw_def)
qed

text \<open>Writing an entry of a table changes the map at one page.\<close>

lemma store_entry:
  fixes x :: u32
  assumes ok: "pt_ok s d F" and i: "i < 1024" "present (tab s d i)" and j: "j < 1024"
  defines "s' \<equiv> stw (slot (tbl s d i) j) x s"
  shows "pt_ok s' d F" "pmap s' d = (pmap s d)(1024 * i + j := (if present x then Some x else None))"
    "\<And>k. k < 1024 \<Longrightarrow> tab s' d k = tab s d k" "\<And>k. k < 1024 \<Longrightarrow> tbl s' d k = tbl s d k"
proof -
  note d = pt_okD [OF ok]
  have t: "kpage s (tbl s d i)" "tbl s d i \<noteq> d" "tbl s d i \<notin> set F" using d(5-7) [OF i] by auto
  show dir: "tab s' d k = tab s d k" if "k < 1024" for k
    using tab_stw [OF d(2) t(1) j d(3) that, of x] t(2) by (simp add: s'_def)
  then show tb: "tbl s' d k = tbl s d k" if "k < 1024" for k using that by (simp add: tbl_def)
  have "kfreelist s' F" using kfreelist_stw [OF d(1) t(1,3) j] by (simp add: s'_def)
  then show "pt_ok s' d F" using ok dir tb unfolding pt_ok_def by (simp add: s'_def)
  show "pmap s' d = (pmap s d)(1024 * i + j := (if present x then Some x else None))"
  proof
    fix v :: nat
    let ?a = "v div 1024" and ?b = "v mod 1024"
    show "pmap s' d v = ((pmap s d)(1024 * i + j := (if present x then Some x else None))) v"
    proof (cases "v < 2 ^ 20 \<and> present (tab s d ?a)")
      case True
      then have a: "?a < 1024" "present (tab s d ?a)" by (simp_all add: less_mult_imp_div_less)
      have e: "tab s' (tbl s d ?a) ?b = (if tbl s d i = tbl s d ?a \<and> j = ?b then x else tab s (tbl s d ?a) ?b)"
        using tab_stw [OF d(2) t(1) j d(5) [OF a], of ?b x] by (simp add: s'_def)
      have "tbl s d i = tbl s d ?a \<longleftrightarrow> i = ?a" using d(8) [OF i a] by metis
      moreover have "v = 1024 * i + j \<longleftrightarrow> i = ?a \<and> j = ?b" using j by auto
      ultimately show ?thesis using True e a dir [OF a(1)] tb [OF a(1)] by (simp add: pmap_def)
    next
      case False
      then have "v \<noteq> 1024 * i + j" using i j by auto
      then show ?thesis using False dir [of ?a] by (auto simp: pmap_def less_mult_imp_div_less)
    qed
  qed
qed

text \<open>A page taken from the free list, zeroed and entered into the directory.\<close>

lemma tab_set_page:
  assumes "kpage s p" "kpage s q" "j < 1024"
  shows "tab (set_page p (replicate 4096 0) s) q j = (if q = p then 0 else tab s q j)"
proof (cases "q = p")
  case True
  have "get32 (replicate 4096 0) (4 * j) = 0" using assms(3) by (simp add: get32_def get16_def)
  then show ?thesis using True slot_frame [OF assms(2,3)] by (simp add: tab_def ldw_def set_page_def)
next
  case False
  then have "frame_no q \<noteq> frame_no p" using frame_no_inj [OF assms(2,1)] by simp
  then show ?thesis using False slot_frame [OF assms(2,3)] by (simp add: tab_def ldw_def set_page_def)
qed

lemma kfreelist_set_page:
  assumes "kfreelist s F" "kpage s p" "p \<notin> set F" "length b = 4096"
  shows "kfreelist (set_page p b s) F"
proof -
  have "page_bytes (set_page p b s) q = page_bytes s q" if "q \<in> set F" for q
    using frame_no_inj [OF free_pages [OF assms(1) that] assms(2)] that assms(3)
    by (auto simp: page_bytes_def set_page_def)
  then have "chain (set_page p b s) (freelist s) F = chain s (freelist s) F"
    by (intro chain_cong) (simp_all add: set_page_def)
  then show ?thesis using assms(1,4) by (simp add: kfreelist_def) (simp add: set_page_def)
qed

lemma dir_entry:
  assumes "kpage s p"
  shows "PTE_ADDR (v2p p OR PTE_P OR PTE_W OR PTE_U) = v2p p" "present (v2p p OR PTE_P OR PTE_W OR PTE_U)"
proof -
  have "4096 dvd unat (v2p p)" using kpage_unat [OF assms] by simp
  then have "pg_aligned (v2p p)" by (simp add: pg_aligned_iff)
  then have "PTE_ADDR (v2p p OR (PTE_P OR PTE_W OR PTE_U)) = v2p p" by (rule PTE_ADDR_OR(1)) simp
  then show "PTE_ADDR (v2p p OR PTE_P OR PTE_W OR PTE_U) = v2p p" by (simp only: or.assoc)
  have "bit (v2p p OR PTE_P OR PTE_W OR PTE_U) 0" by (simp add: bit_or_iff)
  then show "present (v2p p OR PTE_P OR PTE_W OR PTE_U)"
    by (auto simp: present_def and_exp_eq_0_iff_not_bit [of _ 0, simplified])
qed

lemma new_table:
  assumes ok: "pt_ok s d (p # F)" and i: "i < 1024" "\<not> present (tab s d i)"
  defines "s3 \<equiv> stw (slot d i) (v2p p OR PTE_P OR PTE_W OR PTE_U) (set_page p (replicate 4096 0) (s\<lparr>freelist := ldw s p\<rparr>))"
  shows "pt_ok s3 d F" "pmap s3 d = pmap s d" "present (tab s3 d i)" "tbl s3 d i = p"
proof -
  note d = pt_okD [OF ok]
  let ?E = "v2p p OR PTE_P OR PTE_W OR PTE_U"
  define s1 where "s1 = s\<lparr>freelist := ldw s p\<rparr>"
  define s2 where "s2 = set_page p (replicate 4096 0) s1"
  have p: "kpage s p" "p \<notin> set F" "p \<noteq> d" using free_pages [OF d(1), of p] d(1,4) by (auto simp: kfreelist_def)
  have "kfreelist s1 F" using kalloc_law(2) [OF d(1)] by (simp add: s1_def)
  then have f2: "kfreelist s2 F" unfolding s2_def by (rule kfreelist_set_page) (use p in \<open>simp_all add: s1_def\<close>)
  have kp: "kpage s2 = kpage s" "kpage s3 = kpage s" by (simp_all add: s2_def s1_def s3_def)
  have s3: "s3 = stw (slot d i) ?E s2" by (simp add: s3_def s2_def s1_def)
  have f3: "kfreelist s3 F" unfolding s3 by (rule kfreelist_stw [OF f2]) (use d i kp in auto)
  have t1: "tab s1 q j = tab s q j" for q j by (simp add: tab_def ldw_def s1_def)
  have t2: "tab s2 q j = (if q = p then 0 else tab s q j)" if "kpage s q" "j < 1024" for q j
    using tab_set_page [of s1 p q j] that p(1) t1 by (simp add: s2_def s1_def)
  have t3: "tab s3 q j = (if q = d \<and> j = i then ?E else if q = p then 0 else tab s q j)" if "kpage s q" "j < 1024" for q j
    using tab_stw [of s2 d i q j ?E] that f2 d(3) i(1) kp t2 [OF that] by (auto simp: s3 kfreelist_def)
  have dirE: "tab s3 d k = (if k = i then ?E else tab s d k)" if "k < 1024" for k using t3 [OF d(3) that] p(3) by auto
  show tp: "tbl s3 d i = p" using dirE [OF i(1)] dir_entry(1) [OF p(1)] by (simp add: tbl_def p2v_def v2p_def)
  have tk: "tbl s3 d k = tbl s d k" if "k < 1024" "k \<noteq> i" for k using dirE that by (simp add: tbl_def)
  show pr: "present (tab s3 d i)" using dirE [OF i(1)] dir_entry(2) [OF p(1)] by simp
  have old: "kpage s (tbl s d k) \<and> tbl s d k \<noteq> p \<and> tbl s d k \<notin> set F \<and> tbl s d k \<noteq> d" if "k < 1024" "present (tab s d k)" for k
    using d(5-7) [OF that] by auto
  have "kpage s (tbl s3 d k) \<and> tbl s3 d k \<notin> set F \<and> tbl s3 d k \<noteq> d \<and>
      (\<forall>j<1024. j \<noteq> k \<longrightarrow> present (tab s3 d j) \<longrightarrow> tbl s3 d j \<noteq> tbl s3 d k)" if k: "k < 1024" "present (tab s3 d k)" for k
  proof (cases "k = i")
    case True
    then show ?thesis using tp p tk dirE old by auto
  next
    case False
    then have k': "present (tab s d k)" using k dirE by simp
    have "tbl s3 d j \<noteq> tbl s3 d k" if "j < 1024" "j \<noteq> k" "present (tab s3 d j)" for j
      using that d(8) [OF k(1) k' that(1)] tk [of j] tk [OF k(1) False] tp old [OF k(1) k'] dirE [of j] by (cases "j = i") auto
    then show ?thesis using old [OF k(1) k'] tk [OF k(1) False] by auto
  qed
  then show "pt_ok s3 d F" using f3 d(3,4) unfolding pt_ok_def kp by simp
  show "pmap s3 d = pmap s d"
  proof
    fix v :: nat
    have b: "v mod 1024 < 1024" by simp
    show "pmap s3 d v = pmap s d v"
    proof (cases "v < 2 ^ 20 \<and> v div 1024 \<noteq> i")
      case True
      then have a: "v div 1024 < 1024" by (simp add: less_mult_imp_div_less)
      have "tab s3 (tbl s d (v div 1024)) (v mod 1024) = tab s (tbl s d (v div 1024)) (v mod 1024)"
        if "present (tab s d (v div 1024))"
        using t3 [OF _ b] old [OF a that] by simp
      then show ?thesis using True a dirE tk by (auto simp: pmap_def)
    next
      case False
      then show ?thesis using tp t3 [OF p(1) b] p(3) i(2) by (auto simp: pmap_def present_def)
    qed
  qed
qed

text \<open>\<open>walkpgdir\<close> finds or makes the entry of a page and leaves the map as it is.\<close>

definition vpn :: "u32 \<Rightarrow> nat" where
  "vpn va = unat va div 4096"

lemma vpn_parts: "PDX va = vpn va div 1024" "PTX va = vpn va mod 1024" "vpn va < 2 ^ 20" "vpn va = 1024 * PDX va + PTX va"
proof -
  show 1: "PDX va = vpn va div 1024" by (simp add: PDX_eq vpn_def div_mult2_eq [symmetric])
  show 2: "PTX va = vpn va mod 1024" by (simp add: PTX_eq vpn_def)
  show "vpn va < 2 ^ 20" using unat_u32_less [of va] by (simp add: vpn_def less_mult_imp_div_less)
  show "vpn va = 1024 * PDX va + PTX va" unfolding 1 2 by simp
qed

lemma walkpgdir_law:
  assumes ok: "pt_ok s d F"
  shows "walkpgdir d va True s = Inr (0, s) \<and> F = [] \<or>
    (\<exists>s' F'. walkpgdir d va True s = Inr (slot (tbl s' d (PDX va)) (PTX va), s') \<and> pt_ok s' d F' \<and>
       pmap s' d = pmap s d \<and> present (tab s' d (PDX va)) \<and> (F' = F \<or> F = tbl s' d (PDX va) # F'))"
proof (cases "present (tab s d (PDX va))")
  case True
  then have "walkpgdir d va True s = Inr (slot (tbl s d (PDX va)) (PTX va), s)"
    by (simp add: walkpgdir_def present_def tab_def slot_def tbl_def Let_def)
  then show ?thesis using True ok by blast
next
  case absent: False
  then have a: "ldw s (d + 4 * of_nat (PDX va)) AND PTE_P = 0" by (simp add: present_def tab_def slot_def)
  note d = pt_okD [OF ok]
  show ?thesis
  proof (cases F)
    case Nil
    then have "kalloc s = Inr (0, s)" using d(1) by (simp add: kfreelist_def kalloc_def)
    then show ?thesis using a Nil by (simp add: walkpgdir_def Let_def ret_def)
  next
    case (Cons p F')
    have k: "kalloc s = Inr (p, s\<lparr>freelist := ldw s p\<rparr>)" using kalloc_law(1) d(1) Cons by simp
    have "p \<noteq> 0" using free_pages [OF d(1), of p] kpage_unat [of s p] Cons by simp
    note t = new_table [OF ok [unfolded Cons] PDX_less absent]
    show ?thesis using a k \<open>p \<noteq> 0\<close> t Cons
      by (intro disjI2 exI conjI) (auto simp: walkpgdir_def Let_def ret_def slot_def)
  qed
qed

subsection \<open>Mapping a range of pages\<close>

lemma present_or: "present (a OR PTE_P)"
proof -
  have "bit (a OR PTE_P) 0" by (simp add: bit_or_iff)
  then show ?thesis by (auto simp: present_def and_exp_eq_0_iff_not_bit [of _ 0, simplified])
qed

lemma slot_not_0: "kpage s p \<Longrightarrow> i < 1024 \<Longrightarrow> slot p i \<noteq> 0"
proof
  assume a: "kpage s p" "i < 1024" "slot p i = 0"
  have "frame_no (0 :: u32) = 0x80000" by (simp add: frame_no_def v2p_def)
  moreover have "frame_no p < 0xE000" using kpage_unat [OF a(1)] a(1) by (auto simp: kpage_def word_less_nat_alt)
  ultimately show False using slot_frame(1) [OF a(1,2)] a(3) by simp
qed

lemma vpn_step:
  assumes "unat a + 4096 < 2 ^ 32"
  shows "vpn (a + PGSIZE) = Suc (vpn a)"
  using unat_plus_page [OF assms] by (simp add: vpn_def)

text \<open>The map with \<open>n\<close> pages from page number \<open>v0\<close> on mapped to \<open>pa\<close> and what follows.\<close>

definition map_range :: "(nat \<Rightarrow> u32 option) \<Rightarrow> nat \<Rightarrow> nat \<Rightarrow> u32 \<Rightarrow> u32 \<Rightarrow> nat \<Rightarrow> u32 option" where
  "map_range m v0 n pa perm v =
     (if v0 \<le> v \<and> v < v0 + n then Some ((pa + 4096 * of_nat (v - v0)) OR perm OR PTE_P) else m v)"

lemma map_range_Suc:
  "map_range (m(v0 := Some (pa OR perm OR PTE_P))) (Suc v0) n (pa + PGSIZE) perm = map_range m v0 (Suc n) pa perm"
proof
  fix v
  have "of_nat (v - v0) = (of_nat (v - Suc v0) + 1 :: u32)" if "Suc v0 \<le> v"
    using that by (metis Suc_diff_Suc Suc_le_lessD of_nat_Suc add.commute)
  then show "map_range (m(v0 := Some (pa OR perm OR PTE_P))) (Suc v0) n (pa + PGSIZE) perm v = map_range m v0 (Suc n) pa perm v"
    by (auto simp: map_range_def algebra_simps)
qed

lemma mappages_step:
  assumes ok: "pt_ok s d F" and free: "pmap s d (vpn a) = None"
  shows "mappages_loop d a lst pa perm s = Inr (-1, s) \<and> F = [] \<or>
    (\<exists>s' F'. pt_ok s' d F' \<and> length F' \<le> length F \<and> pmap s' d = (pmap s d)(vpn a := Some (pa OR perm OR PTE_P)) \<and>
       mappages_loop d a lst pa perm s =
         (if a = lst then Inr (0, s') else if lst - a < PGSIZE then Inl Hang
          else mappages_loop d (a + PGSIZE) lst (pa + PGSIZE) perm s'))"
proof (cases "walkpgdir d a True s = Inr (0, s) \<and> F = []")
  case True
  then show ?thesis by (subst mappages_loop.simps) (simp add: ret_def)
next
  case False
  then obtain s1 F1 where w: "walkpgdir d a True s = Inr (slot (tbl s1 d (PDX a)) (PTX a), s1)" and ok1: "pt_ok s1 d F1"
    and m: "pmap s1 d = pmap s d" and pr: "present (tab s1 d (PDX a))" and F: "F1 = F \<or> F = tbl s1 d (PDX a) # F1"
    using walkpgdir_law [OF ok, of a] by blast
  let ?pte = "slot (tbl s1 d (PDX a)) (PTX a)" and ?x = "pa OR perm OR PTE_P"
  define s2 where "s2 = stw ?pte ?x s1"
  note st = store_entry [where x = ?x, OF ok1 PDX_less pr PTX_less [of a], folded s2_def]
  have ne: "?pte \<noteq> 0" by (rule slot_not_0 [OF pt_okD(5) [OF ok1 PDX_less pr] PTX_less])
  have "pmap s1 d (vpn a) = None" using free m by simp
  then have "\<not> present (tab s1 (tbl s1 d (PDX a)) (PTX a))"
    using pr vpn_parts(3) [of a] by (simp add: pmap_def vpn_parts(1,2) split: if_splits)
  then have np: "ldw s1 ?pte AND PTE_P = 0" by (simp add: present_def tab_def)
  have "pmap s2 d = (pmap s d)(vpn a := Some ?x)"
    using st(2) m vpn_parts(4) [of a] present_or [of "pa OR perm"] by (simp add: or.assoc)
  moreover have "mappages_loop d a lst pa perm s =
      (if a = lst then Inr (0, s2) else if lst - a < PGSIZE then Inl Hang
       else mappages_loop d (a + PGSIZE) lst (pa + PGSIZE) perm s2)"
    by (subst mappages_loop.simps) (simp add: w ne np s2_def ret_def)
  moreover have "length F1 \<le> length F" using F by auto
  ultimately show ?thesis using st(1) by blast
qed

lemma page_count:
  assumes "4096 * Suc n < 2 ^ 32"
  shows "a \<noteq> a + 4096 * of_nat (Suc n) \<and> \<not> (a + 4096 * of_nat (Suc n) - a < PGSIZE)"
proof -
  have "unat (of_nat (4096 * Suc n) :: u32) = 4096 * Suc n"
    unfolding unat_of_nat by (rule mod_less) (use assms in simp)
  moreover have "(4096 * of_nat (Suc n) :: u32) = of_nat (4096 * Suc n)" by simp
  ultimately have u: "unat (4096 * of_nat (Suc n) :: u32) = 4096 * Suc n" by (simp only:)
  have "4096 * of_nat (Suc n) \<noteq> (0 :: u32)" using u by (metis mult_is_0 nat.distinct(1) unsigned_0 zero_neq_numeral)
  moreover have "\<not> 4096 * of_nat (Suc n) < PGSIZE" unfolding word_less_nat_alt u by simp
  ultimately show ?thesis by (simp only: add_diff_cancel_left' add_cancel_right_right simp_thms)
qed

lemma mappages_loop_law:
  assumes "pt_ok s d F" "unat a + 4096 * n < 2 ^ 32" "\<forall>k\<le>n. pmap s d (vpn a + k) = None"
  shows "\<exists>r s' F'. mappages_loop d a (a + 4096 * of_nat n) pa perm s = Inr (r, s') \<and> pt_ok s' d F' \<and> length F' \<le> length F \<and>
    (r = 0 \<and> pmap s' d = map_range (pmap s d) (vpn a) (Suc n) pa perm \<or>
     r = -1 \<and> F' = [] \<and> (\<forall>v. v \<notin> {vpn a..vpn a + n} \<longrightarrow> pmap s' d v = pmap s d v))"
  using assms
proof (induction n arbitrary: a pa s F)
  case 0
  have one: "map_range m v0 (Suc 0) pa perm = m(v0 := Some (pa OR perm OR PTE_P))" for m v0
    by (auto simp: map_range_def fun_eq_iff)
  have "pmap s d (vpn a) = None" using 0(3) by simp
  from mappages_step [OF 0(1) this, of a pa perm] consider "mappages_loop d a a pa perm s = Inr (-1, s)" "F = []"
    | s' F' where "pt_ok s' d F'" "length F' \<le> length F" "pmap s' d = (pmap s d)(vpn a := Some (pa OR perm OR PTE_P))"
      "mappages_loop d a a pa perm s = Inr (0, s')" by auto
  then show ?case
  proof cases
    case 1
    then show ?thesis using 0(1) by (intro exI [of _ "-1"] exI [of _ s] exI [of _ F]) simp
  next
    case (2 s' F')
    then show ?thesis unfolding one by (intro exI [of _ 0] exI [of _ s'] exI [of _ F']) simp
  qed
next
  case (Suc n)
  have "pmap s d (vpn a) = None" using Suc.prems(3) [rule_format, of 0] by simp
  note one = mappages_step [OF Suc.prems(1) this, of "a + 4096 * of_nat (Suc n)" pa perm]
  have pc: "a \<noteq> a + 4096 * of_nat (Suc n) \<and> \<not> (a + 4096 * of_nat (Suc n) - a < PGSIZE)"
    by (rule page_count) (use Suc.prems(2) in simp)
  have lst: "a + 4096 * of_nat (Suc n) = (a + PGSIZE) + 4096 * of_nat n" by (simp add: algebra_simps)
  have u: "unat (a + PGSIZE) = unat a + 4096" "vpn (a + PGSIZE) = Suc (vpn a)"
    using Suc.prems(2) unat_plus_page [of a] vpn_step [of a] by simp_all
  from one show ?case
  proof (elim disjE exE conjE)
    assume "mappages_loop d a (a + 4096 * of_nat (Suc n)) pa perm s = Inr (-1, s)" "F = []"
    then show ?thesis using Suc.prems(1) by blast
  next
    fix s1 F1
    assume s1: "pt_ok s1 d F1" "length F1 \<le> length F" "pmap s1 d = (pmap s d)(vpn a := Some (pa OR perm OR PTE_P))"
      and run: "mappages_loop d a (a + 4096 * of_nat (Suc n)) pa perm s =
        (if a = a + 4096 * of_nat (Suc n) then Inr (0, s1) else if a + 4096 * of_nat (Suc n) - a < PGSIZE then Inl Hang
         else mappages_loop d (a + PGSIZE) (a + 4096 * of_nat (Suc n)) (pa + PGSIZE) perm s1)"
    have run': "mappages_loop d a (a + 4096 * of_nat (Suc n)) pa perm s =
        mappages_loop d (a + PGSIZE) ((a + PGSIZE) + 4096 * of_nat n) (pa + PGSIZE) perm s1"
      unfolding run using pc by (simp only: if_False lst [symmetric] simp_thms)
    have none: "\<forall>k\<le>n. pmap s1 d (vpn (a + PGSIZE) + k) = None"
    proof (intro allI impI)
      fix k
      assume "k \<le> n"
      then have "pmap s d (vpn a + Suc k) = None" using Suc.prems(3) [rule_format, of "Suc k"] by simp
      then show "pmap s1 d (vpn (a + PGSIZE) + k) = None" unfolding s1(3) u(2) by simp
    qed
    have "unat (a + PGSIZE) + 4096 * n < 2 ^ 32" using Suc.prems(2) u(1) by simp
    from Suc.IH [OF s1(1) this none, of "pa + PGSIZE"] obtain r s' F' where
      r: "mappages_loop d a (a + 4096 * of_nat (Suc n)) pa perm s = Inr (r, s')" "pt_ok s' d F'" "length F' \<le> length F1"
      "r = 0 \<and> pmap s' d = map_range (pmap s1 d) (Suc (vpn a)) (Suc n) (pa + PGSIZE) perm \<or>
       r = -1 \<and> F' = [] \<and> (\<forall>v. v \<notin> {Suc (vpn a)..Suc (vpn a) + n} \<longrightarrow> pmap s' d v = pmap s1 d v)"
      unfolding run' u(2) by blast
    have "map_range (pmap s1 d) (Suc (vpn a)) (Suc n) (pa + PGSIZE) perm = map_range (pmap s d) (vpn a) (Suc (Suc n)) pa perm"
      unfolding s1(3) by (rule map_range_Suc)
    moreover have "pmap s' d v = pmap s d v"
      if "\<forall>v. v \<notin> {Suc (vpn a)..Suc (vpn a) + n} \<longrightarrow> pmap s' d v = pmap s1 d v" "v \<notin> {vpn a..vpn a + Suc n}" for v
      using that(2) that(1) [rule_format, of v] unfolding s1(3) by auto
    moreover have "length F' \<le> length F" using r(3) s1(2) by simp
    ultimately show ?thesis using r(1,2,4) by (intro exI [of _ r] exI [of _ s'] exI [of _ F']) auto
  qed
qed

subsection \<open>Properties\<close>

lemma last_page:
  fixes va sz :: u32
  assumes "0 < unat sz" "unat va + unat sz \<le> 2 ^ 32"
  shows "unat (va + sz - 1) = unat va + unat sz - 1"
proof -
  have one: "unat (sz - 1) = unat sz - 1" using assms(1) by (simp add: unat_sub word_le_nat_alt)
  have "unat (va + (sz - 1)) = unat va + unat (sz - 1)"
    by (rule unat_add_lem [THEN iffD1]) (use assms one in simp)
  then show ?thesis using one assms(1) by (simp add: add_diff_eq)
qed

text \<open>
  C6 \<open>mappages\<close> extends the map of a page directory by exactly the pages asked for. Where the
  directory and its tables are well formed and none of the pages of the range is mapped, it returns
  0 and every page of the range is mapped, in order, to the physical pages from \<open>pa\<close> on with the
  given permissions, or it returns \<open>-1\<close> because the allocator has no page left for a table. In
  both cases no other page's entry changes and the tables are well formed again; it never reports a
  remap, faults or fails to return, also for ranges that end at the top of the address space.
\<close>
theorem mappages_maps:
  assumes "pt_ok s d F" "0 < unat sz" "unat va + unat sz \<le> 2 ^ 32"
    and "\<forall>v\<in>{vpn va..vpn (va + sz - 1)}. pmap s d v = None"
  shows "\<exists>r s' F'. mappages d va sz pa perm s = Inr (r, s') \<and> pt_ok s' d F' \<and>
    (r = 0 \<and> pmap s' d = map_range (pmap s d) (vpn va) (Suc (vpn (va + sz - 1)) - vpn va) pa perm \<or>
     r = -1 \<and> F' = [] \<and> (\<forall>v. v \<notin> {vpn va..vpn (va + sz - 1)} \<longrightarrow> pmap s' d v = pmap s d v))"
proof -
  define a where "a = PGROUNDDOWN va"
  define n where "n = vpn (va + sz - 1) - vpn va"
  have le: "vpn va \<le> vpn (va + sz - 1)" using last_page [OF assms(2,3)] assms(2) by (simp add: vpn_def div_le_mono)
  have ua: "unat a = 4096 * vpn va" by (simp add: a_def unat_PGROUNDDOWN vpn_def)
  then have va: "vpn a = vpn va" by (simp add: vpn_def [of a])
  have top: "4096 * vpn va + 4096 * n = 4096 * vpn (va + sz - 1)" using le by (simp add: n_def)
  have bound: "4096 * vpn (va + sz - 1) < 2 ^ 32" using vpn_parts(3) [of "va + sz - 1"] by simp
  have "unat (of_nat (4096 * n) :: u32) = 4096 * n"
    unfolding unat_of_nat by (rule mod_less) (use top bound in simp)
  then have "unat (a + of_nat (4096 * n)) = unat a + 4096 * n"
    using unat_add_lem [of a "of_nat (4096 * n)"] ua top bound by simp
  then have "unat (PGROUNDDOWN (va + sz - 1)) = unat (a + of_nat (4096 * n))"
    using ua top by (simp add: unat_PGROUNDDOWN vpn_def)
  then have "PGROUNDDOWN (va + sz - 1) = a + of_nat (4096 * n)" by (simp only: word_unat_eq_iff)
  then have lst: "PGROUNDDOWN (va + sz - 1) = a + 4096 * of_nat n" by simp
  have "unat a + 4096 * n < 2 ^ 32" using ua top bound by simp
  moreover have "\<forall>k\<le>n. pmap s d (vpn a + k) = None" using assms(4) le by (auto simp: va n_def)
  moreover have "Suc n = Suc (vpn (va + sz - 1)) - vpn va" "vpn a + n = vpn (va + sz - 1)" using le by (auto simp: va n_def)
  ultimately show ?thesis
    using mappages_loop_law [OF assms(1), of a n pa perm] unfolding mappages_def lst a_def [symmetric] va by auto
qed

text \<open>
  \<open>allocuvm\<close> does not look at what \<open>mappages\<close> returns: with one page left and no page
  table for the first four megabytes, growing a process from 0 to one page takes that page, finds
  none for the table and still reports success, with the page not mapped.
\<close>
theorem allocuvm_unmapped:
  assumes "pt_ok s d [m]" "\<not> present (tab s d 0)"
  shows "\<exists>s'. allocuvm d 0 PGSIZE s = Inr (PGSIZE, s') \<and> pmap s' d 0 = None \<and> kfreelist s' []"
proof -
  note d = pt_okD [OF assms(1)]
  define s1 where "s1 = set_page m (replicate 4096 0) (s\<lparr>freelist := ldw s m\<rparr>)"
  have m: "kpage s m" "m \<noteq> 0" "m \<noteq> d" using free_pages [OF d(1), of m] kpage_unat [of s m] d(4) by auto
  have k: "kalloc s = Inr (m, s\<lparr>freelist := ldw s m\<rparr>)" "kfreelist (s\<lparr>freelist := ldw s m\<rparr>) []"
    using kalloc_law [OF d(1)] by auto
  have f1: "kfreelist s1 []" unfolding s1_def by (rule kfreelist_set_page [OF k(2)]) (use m(1) in simp_all)
  have "tab s1 d 0 = tab s d 0"
    using tab_set_page [of "s\<lparr>freelist := ldw s m\<rparr>" m d 0] m d(3) by (simp add: s1_def tab_def ldw_def)
  then have a1: "\<not> present (tab s1 d 0)" using assms(2) by simp
  have k1: "kalloc s1 = Inr (0, s1)" using f1 by (simp add: kfreelist_def kalloc_def)
  have "walkpgdir d 0 True s1 = Inr (0, s1)"
    using a1 k1 by (simp add: walkpgdir_def Let_def present_def tab_def slot_def PDX_def ret_def)
  then have "mappages d 0 PGSIZE p f s1 = Inr (-1, s1)" for p f
    unfolding mappages_def by (subst mappages_loop.simps) (simp add: PGROUNDDOWN_def ret_def)
  then have "allocuvm d 0 PGSIZE s = Inr (PGSIZE, s1)"
    using k(1) m(2) by (simp add: allocuvm_def PGROUNDUP_def allocuvm_loop.simps [of _ _ _ 0]
        allocuvm_loop.simps [of _ _ _ 4096] s1_def ret_def)
  moreover have "pmap s1 d 0 = None" using a1 by (simp add: pmap_def)
  ultimately show ?thesis using f1 by blast
qed

text \<open>A machine with one free page and an empty page directory.\<close>

definition pages0 :: mem_st where
  "pages0 = mem0\<lparr>freelist := 0x80200000\<rparr>"

lemma pages0_zero: "ldw pages0 v = 0" if "frame_off v \<le> 4092"
  using that by (simp add: pages0_def ldw_def get32_def get16_def)

lemma pages0_ok: "pt_ok pages0 0x80201000 [0x80200000]"
proof -
  have k: "kpage pages0 0x80200000" "kpage pages0 0x80201000" by (simp_all add: kpage_def pg_aligned_def v2p_def pages0_def)
  have z: "tab pages0 0x80201000 i = 0" if "i < 1024" for i
    using slot_frame(2) [OF k(2) that] that by (simp add: tab_def pages0_zero)
  have "ldw pages0 0x80200000 = 0" by (rule pages0_zero) (simp add: frame_off_def v2p_def)
  moreover have "mem_ok pages0" "freelist pages0 = 0x80200000" by (simp_all add: mem_ok_def pages0_def)
  ultimately have "kfreelist pages0 [0x80200000]" using k by (simp add: kfreelist_def)
  then show ?thesis using k z by (simp add: pt_ok_def present_def)
qed

lemma pages0_unmapped: "pmap pages0 0x80201000 v = None"
proof -
  have k: "kpage pages0 0x80201000" by (simp add: kpage_def pg_aligned_def v2p_def pages0_def)
  have "tab pages0 0x80201000 i = 0" if "i < 1024" for i
    using slot_frame(2) [OF k that] that by (simp add: tab_def pages0_zero)
  then show ?thesis by (simp add: pmap_def present_def less_mult_imp_div_less)
qed

theorem mappages_maps_witness:
  "\<exists>r s' F'. mappages 0x80201000 0x2000 0x1001 0x5000 6 pages0 = Inr (r, s') \<and> pt_ok s' 0x80201000 F' \<and>
     pmap s' 0x80201000 7 = None \<and> (r = 0 \<and> pmap s' 0x80201000 3 = Some 0x6007 \<or> r = -1)"
proof -
  have sz: "0 < unat (0x1001 :: u32)" "unat (0x2000 :: u32) + unat (0x1001 :: u32) \<le> 2 ^ 32" by simp_all
  have v: "vpn 0x2000 = 2" "vpn (0x2000 + 0x1001 - 1) = 3" by (simp_all add: vpn_def)
  have none: "\<forall>v\<in>{vpn 0x2000..vpn (0x2000 + 0x1001 - 1)}. pmap pages0 0x80201000 v = None" using pages0_unmapped by blast
  from mappages_maps [where pa = "0x5000" and perm = 6, OF pages0_ok sz none] show ?thesis
    unfolding v by (elim exE conjE disjE) (auto simp: map_range_def pages0_unmapped)
qed

theorem allocuvm_unmapped_witness:
  "\<exists>s'. allocuvm 0x80201000 0 PGSIZE pages0 = Inr (PGSIZE, s') \<and> pmap s' 0x80201000 0 = None"
proof -
  have k: "kpage pages0 0x80201000" by (simp add: kpage_def pg_aligned_def v2p_def pages0_def)
  have "tab pages0 0x80201000 0 = 0" using slot_frame(2) [OF k, of 0] by (simp add: tab_def pages0_zero)
  then have "\<not> present (tab pages0 0x80201000 0)" by (simp add: present_def)
  from allocuvm_unmapped [OF pages0_ok this] show ?thesis by blast
qed

end
