(* ===== verification/FileMap.thy ===== *)
theory FileMap
  imports Fs
begin

text \<open>
  Files as the inode structure of \<open>fs.h\<close> lays them out: twelve direct blocks and one indirect
  block of 128 addresses. \<open>V\<close> is the content of the disk by block number, so that the same
  lemmas serve the kernel, whose disk is seen through the log and the buffer cache, and the builder of
  disk images. A file of \<open>n\<close> bytes has exactly the blocks it needs, all different, inside a set
  \<open>U\<close> of blocks in use.
\<close>

subsection \<open>Blocks and bytes of a file\<close>

definition blk :: "(nat \<Rightarrow> byte list) \<Rightarrow> dinode \<Rightarrow> nat \<Rightarrow> nat" where
  "blk V c k =
     (if k < NDIRECT then di_addrs c ! k
      else if di_addrs c ! NDIRECT = 0 then 0
      else get32 (V (di_addrs c ! NDIRECT)) (4 * (k - NDIRECT)))"

definition own :: "(nat \<Rightarrow> byte list) \<Rightarrow> dinode \<Rightarrow> nat set" where
  "own V c = (blk V c ` {..<MAXFILE} \<union> {di_addrs c ! NDIRECT}) - {0}"

definition contents :: "(nat \<Rightarrow> byte list) \<Rightarrow> dinode \<Rightarrow> nat \<Rightarrow> byte list" where
  "contents V c n = map (\<lambda>j. V (blk V c (j div 512)) ! (j mod 512)) [0..<n]"

definition file_ok :: "nat set \<Rightarrow> (nat \<Rightarrow> byte list) \<Rightarrow> dinode \<Rightarrow> nat \<Rightarrow> bool" where
  "file_ok U V c n \<longleftrightarrow> dinode_ok c \<and> n \<le> MAXFILE * 512 \<and> own V c \<subseteq> U
     \<and> inj_on (blk V c) {k. k * 512 < n}
     \<and> (\<forall>k < MAXFILE. (blk V c k \<noteq> 0) = (k * 512 < n))
     \<and> (di_addrs c ! NDIRECT \<noteq> 0) = (NDIRECT * 512 < n)
     \<and> (\<forall>k < MAXFILE. k * 512 < n \<longrightarrow> blk V c k \<noteq> di_addrs c ! NDIRECT)"

text \<open>The number of blocks, the indirect block included, of a file of \<open>n\<close> bytes.\<close>

definition need :: "nat \<Rightarrow> nat" where
  "need n = (n + 511) div 512 + (if n > NDIRECT * 512 then 1 else 0)"

lemma need_Suc: "fbn \<noteq> NDIRECT \<Longrightarrow> need (fbn * 512 + 1) = need (fbn * 512) + 1"
  "need (NDIRECT * 512 + 1) = need (NDIRECT * 512) + 2"
  by (auto simp: need_def)

lemma need_mono: "a \<le> b \<Longrightarrow> need a \<le> need b"
  unfolding need_def by (intro add_mono div_le_mono) auto

lemma length_file_contents [simp]: "length (contents V c n) = n"
  by (simp add: contents_def)

lemma file_own: "file_ok U V c n \<Longrightarrow> own V c \<subseteq> U"
  unfolding file_ok_def by blast

lemma file_okD:
  assumes "file_ok U V c n" "k < MAXFILE"
  shows "k * 512 < n \<Longrightarrow> blk V c k \<in> own V c" "k * 512 < n \<Longrightarrow> blk V c k \<in> U" "k * 512 < n \<Longrightarrow> blk V c k \<noteq> 0"
    "k * 512 < n \<Longrightarrow> l * 512 < n \<Longrightarrow> blk V c k = blk V c l \<Longrightarrow> k = l"
    "k * 512 < n \<Longrightarrow> blk V c k \<noteq> di_addrs c ! NDIRECT"
    "n \<le> k * 512 \<Longrightarrow> blk V c k = 0"
proof -
  note ok = assms(1) [unfolded file_ok_def]
  have z: "(blk V c k \<noteq> 0) = (k * 512 < n)" using ok assms(2) by blast
  show nz: "k * 512 < n \<Longrightarrow> blk V c k \<noteq> 0" using z by blast
  show o: "k * 512 < n \<Longrightarrow> blk V c k \<in> own V c" using nz assms(2) by (simp add: own_def)
  then show "k * 512 < n \<Longrightarrow> blk V c k \<in> U" using file_own [OF assms(1)] by blast
  show "k * 512 < n \<Longrightarrow> blk V c k \<noteq> di_addrs c ! NDIRECT" using ok assms(2) by blast
  show "n \<le> k * 512 \<Longrightarrow> blk V c k = 0" using z by linarith
  have j: "inj_on (blk V c) {k. k * 512 < n}" using ok by blast
  show "k * 512 < n \<Longrightarrow> l * 512 < n \<Longrightarrow> blk V c k = blk V c l \<Longrightarrow> k = l" using inj_onD [OF j, of k l] by simp
qed

lemma file_ok_ind:
  assumes "file_ok U V c n"
  shows "NDIRECT * 512 < n \<Longrightarrow> di_addrs c ! NDIRECT \<in> own V c" "NDIRECT * 512 < n \<Longrightarrow> di_addrs c ! NDIRECT \<in> U"
    "NDIRECT * 512 < n \<Longrightarrow> di_addrs c ! NDIRECT \<noteq> 0" "n \<le> NDIRECT * 512 \<Longrightarrow> di_addrs c ! NDIRECT = 0"
    "length (di_addrs c) = 13" "n \<le> MAXFILE * 512" "dinode_ok c"
proof -
  note ok = assms [unfolded file_ok_def]
  have i: "(di_addrs c ! NDIRECT \<noteq> 0) = (NDIRECT * 512 < n)" using ok by blast
  show nz: "NDIRECT * 512 < n \<Longrightarrow> di_addrs c ! NDIRECT \<noteq> 0" using i by blast
  then show "NDIRECT * 512 < n \<Longrightarrow> di_addrs c ! NDIRECT \<in> own V c" by (simp add: own_def)
  then show "NDIRECT * 512 < n \<Longrightarrow> di_addrs c ! NDIRECT \<in> U" using file_own [OF assms] by blast
  show "n \<le> NDIRECT * 512 \<Longrightarrow> di_addrs c ! NDIRECT = 0" using i by linarith
  show "length (di_addrs c) = 13" using ok unfolding dinode_ok_def by simp
  show "n \<le> MAXFILE * 512" "dinode_ok c" using ok by blast+
qed

text \<open>Only the number of blocks matters.\<close>

lemma block_below: "k * 512 < n \<longleftrightarrow> k < (n + 511) div (512 :: nat)"
proof -
  have "Suc k \<le> (n + 511) div 512 \<longleftrightarrow> Suc k * 512 \<le> n + 511" by (rule less_eq_div_iff_mult_less_eq) simp
  then show ?thesis by auto
qed

lemma block_count: "k * 512 + 1 \<le> n \<Longrightarrow> n \<le> (k + 1) * 512 \<Longrightarrow> (n + 511) div 512 = k + (1 :: nat)"
  by (intro div_nat_eqI) simp_all

lemma same_blocks: "(n + 511) div 512 = (n' + 511) div 512 \<Longrightarrow> k * 512 < n \<longleftrightarrow> k * 512 < (n' :: nat)"
  by (simp only: block_below)

lemma file_ok_cong:
  assumes "file_ok U V c n" "(n + 511) div 512 = (n' + 511) div 512" "n' \<le> MAXFILE * 512"
  shows "file_ok U V c n'"
proof -
  have "\<And>k. (k * 512 < n) = (k * 512 < n')" by (rule same_blocks [OF assms(2)])
  then show ?thesis using assms(1,3) unfolding file_ok_def by (simp only:) blast
qed

lemma size_irrelevant [simp]:
  "blk V (c\<lparr>di_size := n\<rparr>) = blk V c" "own V (c\<lparr>di_size := n\<rparr>) = own V c"
  "contents V (c\<lparr>di_size := n\<rparr>) = contents V c"
  by (auto simp: fun_eq_iff blk_def own_def contents_def)

lemma file_ok_size: "file_ok U V c n \<Longrightarrow> file_ok U V (c\<lparr>di_size := n\<rparr>) n"
  unfolding file_ok_def dinode_ok_def by (simp only: size_irrelevant) simp

lemma dinode_ok_addr: "dinode_ok c \<Longrightarrow> v < 2 ^ 32 \<Longrightarrow> dinode_ok (c\<lparr>di_addrs := (di_addrs c)[k := v]\<rparr>)"
  by (auto simp: dinode_ok_def dest!: set_update_subset_insert [THEN subsetD])

text \<open>A file depends on the blocks it owns only.\<close>

lemma file_frame:
  assumes ok: "file_ok U V c n" and U1: "own V c \<subseteq> U1" and same: "\<And>b. b \<in> own V c \<Longrightarrow> V1 b = V b"
  shows "blk V1 c = blk V c" "own V1 c = own V c" "file_ok U1 V1 c n" "contents V1 c n = contents V c n"
proof -
  show b: "blk V1 c = blk V c"
  proof
    fix k show "blk V1 c k = blk V c k"
    proof (cases "di_addrs c ! NDIRECT = 0")
      case False
      then have "di_addrs c ! NDIRECT \<in> own V c" by (simp add: own_def)
      then show ?thesis using same by (simp add: blk_def)
    qed (simp add: blk_def)
  qed
  then show o: "own V1 c = own V c" by (simp add: own_def)
  show "file_ok U1 V1 c n" using ok U1 unfolding file_ok_def o b by blast
  have "V1 (blk V c (j div 512)) = V (blk V c (j div 512))" if "j < n" for j
  proof (rule same)
    have "j < MAXFILE * 512" using that file_ok_ind(6) [OF ok] by simp
    then have k: "j div 512 < MAXFILE" by (rule less_mult_imp_div_less)
    have "j div 512 * 512 \<le> j" by simp
    then show "blk V c (j div 512) \<in> own V c" using that by (intro file_okD(1) [OF ok k]) simp
  qed
  then show "contents V1 c n = contents V c n" by (simp add: contents_def b)
qed

subsection \<open>Changing a file\<close>

text \<open>Adding block \<open>fbn\<close>, at the fresh block \<open>x\<close>, to a file that has the blocks before it.\<close>

lemma file_ok_extend:
  assumes ok: "file_ok U V c (fbn * 512)" and fbn: "fbn < MAXFILE" and c1: "dinode_ok c1"
    and blk1: "\<And>k. k < MAXFILE \<Longrightarrow> blk V1 c1 k = (if k = fbn then x else blk V c k)"
    and x: "x \<noteq> 0" "x \<in> U1 - U" and U: "U \<subseteq> U1"
    and ind: "if fbn = NDIRECT then di_addrs c1 ! NDIRECT \<in> U1 - U - {x, 0}
      else di_addrs c1 ! NDIRECT = di_addrs c ! NDIRECT"
  shows "file_ok U1 V1 c1 (fbn * 512 + 1)" and "own V1 c1 \<subseteq> own V c \<union> (U1 - U)"
proof -
  let ?a = "di_addrs c1 ! NDIRECT"
  have a: "?a \<in> own V c \<union> (U1 - U) \<union> {0}" using ind by (auto simp: own_def split: if_splits)
  have b: "blk V1 c1 k \<in> own V c \<union> (U1 - U) \<union> {0}" if "k < MAXFILE" for k
    using x that by (auto simp: own_def blk1)
  show sub: "own V1 c1 \<subseteq> own V c \<union> (U1 - U)"
    unfolding own_def [of V1] using a b by blast
  have lt: "k * 512 < fbn * 512 + 1 \<longleftrightarrow> k \<le> fbn" "k * 512 < fbn * 512 \<longleftrightarrow> k < fbn" for k by auto
  have own1: "own V1 c1 \<subseteq> U1" using sub file_own [OF ok] U by blast
  note d = file_okD [OF ok, unfolded lt] and di = file_ok_ind [OF ok, unfolded lt]
  have inj: "inj_on (blk V1 c1) {k. k \<le> fbn}"
  proof (rule inj_onI)
    fix k l assume kl: "k \<in> {k. k \<le> fbn}" "l \<in> {k. k \<le> fbn}" "blk V1 c1 k = blk V1 c1 l"
    then show "k = l"
      using d(2) [of k] d(2) [of l] d(4) [of k l] x fbn by (cases "k = fbn"; cases "l = fbn") (auto simp: blk1)
  qed
  have nz: "(blk V1 c1 k \<noteq> 0) = (k \<le> fbn)" if "k < MAXFILE" for k
    using d(3) [of k] d(6) [of k] x that by (cases k fbn rule: linorder_cases) (simp_all add: blk1)
  have anz: "(?a \<noteq> 0) = (NDIRECT \<le> fbn)"
    using ind di(3,4) by (cases fbn NDIRECT rule: linorder_cases) auto
  have ne: "blk V1 c1 k \<noteq> ?a" if "k < MAXFILE" "k \<le> fbn" for k
  proof (cases "k = fbn")
    case True
    then show ?thesis using ind di(2,4) x that by (cases fbn NDIRECT rule: linorder_cases) (auto simp: blk1)
  next
    case False
    then show ?thesis using ind d(2,5) [of k] that by (cases "fbn = NDIRECT") (auto simp: blk1)
  qed
  show "file_ok U1 V1 c1 (fbn * 512 + 1)"
    unfolding file_ok_def lt using c1 own1 inj nz anz ne fbn by (simp only: lt) simp
qed

text \<open>What a new entry of the address table or of the indirect block does to the blocks.\<close>

lemma blk_direct:
  assumes "fbn < NDIRECT" "length (di_addrs c) = 13" "di_addrs c ! NDIRECT = 0"
  shows "blk V1 (c\<lparr>di_addrs := (di_addrs c)[fbn := x]\<rparr>) k = (if k = fbn then x else blk V c k)"
  using assms by (auto simp: blk_def nth_list_update)

lemma get32_blank: "k + 4 \<le> n \<Longrightarrow> get32 (replicate n 0) k = 0"
  by (simp add: get32_def get16_def)

text \<open>
  The indirect block \<open>y\<close>: a fresh, blank one when the file has none yet. Its entries before
  the change are the blocks of the file.
\<close>

lemma get32_ind:
  assumes ok: "file_ok U V c (fbn * 512)" and fbn: "NDIRECT \<le> fbn" and k: "NDIRECT \<le> k" "k < MAXFILE"
    and y: "if fbn = NDIRECT then y \<noteq> 0 \<and> V y = replicate 512 0 else y = di_addrs c ! NDIRECT"
  shows "get32 (V y) (4 * (k - NDIRECT)) = blk V c k"
proof (cases "fbn = NDIRECT")
  case True
  then have "di_addrs c ! NDIRECT = 0" using file_ok_ind(4) [OF ok] by simp
  then show ?thesis using True y k by (simp add: blk_def get32_blank)
next
  case False
  then have "di_addrs c ! NDIRECT \<noteq> 0" using file_ok_ind(3) [OF ok] fbn by simp
  then show ?thesis using False y k by (simp add: blk_def)
qed

lemma blk_indirect:
  assumes ok: "file_ok U V c (fbn * 512)" and fbn: "NDIRECT \<le> fbn" "fbn < MAXFILE"
    and y: "if fbn = NDIRECT then y \<noteq> 0 \<and> V y = replicate 512 0 else y = di_addrs c ! NDIRECT"
    and len: "length (V y) = 512" and x: "x < 2 ^ 32" and k: "k < MAXFILE"
    and V1: "V1 y = put32 (V y) (4 * (fbn - NDIRECT)) x"
  shows "blk V1 (c\<lparr>di_addrs := (di_addrs c)[NDIRECT := y]\<rparr>) k = (if k = fbn then x else blk V c k)"
proof (cases "k < NDIRECT")
  case True
  then show ?thesis using fbn by (simp add: blk_def)
next
  case False
  have "y \<noteq> 0" using y file_ok_ind(3) [OF ok] fbn by (auto split: if_splits)
  then have "blk V1 (c\<lparr>di_addrs := (di_addrs c)[NDIRECT := y]\<rparr>) k
      = get32 (put32 (V y) (4 * (fbn - NDIRECT)) x) (4 * (k - NDIRECT))"
    using False V1 file_ok_ind(5) [OF ok] by (simp add: blk_def)
  also have "\<dots> = (if k = fbn then x else get32 (V y) (4 * (k - NDIRECT)))"
  proof (cases "k = fbn")
    case True
    then show ?thesis using get32_put32_same [of "4 * (fbn - NDIRECT)" "V y" x] fbn len x by simp
  next
    case ne: False
    then have "4 * (k - NDIRECT) + 4 \<le> 4 * (fbn - NDIRECT) \<or> 4 * (fbn - NDIRECT) + 4 \<le> 4 * (k - NDIRECT)"
      using False fbn by arith
    with ne show ?thesis using fbn len k by (simp add: get_put_other(2))
  qed
  finally show ?thesis using get32_ind [OF ok fbn(1) _ k y] False by simp
qed

text \<open>Writing into one block of a file.\<close>

lemma file_write:
  assumes ok: "file_ok U V c n" and k: "k * 512 < n" "k < MAXFILE"
  shows "blk (V(blk V c k := buf)) c = blk V c" "own (V(blk V c k := buf)) c = own V c" "file_ok U (V(blk V c k := buf)) c n"
proof -
  have x: "blk V c k \<noteq> di_addrs c ! NDIRECT" by (rule file_okD(5) [OF ok k(2,1)])
  then show b: "blk (V(blk V c k := buf)) c = blk V c" by (auto simp: blk_def)
  then show o: "own (V(blk V c k := buf)) c = own V c" by (simp add: own_def)
  show "file_ok U (V(blk V c k := buf)) c n" using ok unfolding file_ok_def o b .
qed

lemma contents_write:
  assumes ok: "file_ok U V c n" and off: "off + length q \<le> n" "off + length q \<le> (fbn + 1) * 512"
    and fbn: "fbn = off div 512" and q: "q \<noteq> []" and len: "length (V (blk V c fbn)) = 512"
  shows "contents (V(blk V c fbn := overwrite (V (blk V c fbn)) (off mod 512) q)) c n = overwrite (contents V c n) off q"
    (is "contents ?V c n = _")
proof (rule nth_equalityI)
  show "length (contents ?V c n) = length (overwrite (contents V c n) off q)" using off by simp
next
  fix j assume "j < length (contents ?V c n)"
  then have j: "j < n" by simp
  have o: "off = fbn * 512 + off mod 512" "off mod 512 < 512" using fbn by simp_all
  have lq: "0 < length q" using q by simp
  have n: "n \<le> MAXFILE * 512" by (rule file_ok_ind(6) [OF ok])
  have lt: "fbn * 512 < n" "fbn < MAXFILE" using o lq off n by linarith+
  have b2: "blk ?V c = blk V c" by (rule file_write(1) [OF ok lt])
  have "contents ?V c n ! j = ?V (blk V c (j div 512)) ! (j mod 512)" using j by (simp add: contents_def b2)
  also have "\<dots> = overwrite (contents V c n) off q ! j"
  proof (cases "j div 512 = fbn")
    case True
    then have jm: "j = fbn * 512 + j mod 512" by (metis div_mult_mod_eq)
    have iff: "off mod 512 \<le> j mod 512 \<longleftrightarrow> off \<le> j" "j mod 512 < off mod 512 + length q \<longleftrightarrow> j < off + length q"
      "j mod 512 - off mod 512 = j - off" using jm o by linarith+
    have le: "off mod 512 + length q \<le> length (V (blk V c fbn))" using o off len by simp
    have jl: "j mod 512 < length (V (blk V c fbn))" using len by simp
    have "?V (blk V c (j div 512)) ! (j mod 512) = overwrite (V (blk V c fbn)) (off mod 512) q ! (j mod 512)"
      using True by simp
    also have "\<dots> = (if off \<le> j \<and> j < off + length q then q ! (j - off) else V (blk V c fbn) ! (j mod 512))"
      by (simp only: nth_overwrite [OF le jl] iff)
    also have "\<dots> = overwrite (contents V c n) off q ! j"
      using j off True by (subst nth_overwrite) (simp_all add: contents_def)
    finally show ?thesis .
  next
    case False
    have "blk V c (j div 512) \<noteq> blk V c fbn"
    proof -
      have "j div 512 * 512 \<le> j" by simp
      then have "j div 512 * 512 < n" using j by simp
      moreover have "j div 512 < MAXFILE" using j n by (intro less_mult_imp_div_less) simp
      ultimately show ?thesis using file_okD(4) [OF ok _ _ lt(1), of "j div 512"] False by blast
    qed
    moreover have "\<not> (off \<le> j \<and> j < off + length q)"
    proof
      assume "off \<le> j \<and> j < off + length q"
      then have "fbn * 512 \<le> j" "j < (fbn + 1) * 512" using o off by linarith+
      then have "j div 512 = fbn" by (intro div_nat_eqI) simp_all
      then show False using False by simp
    qed
    ultimately show ?thesis using j off by (subst nth_overwrite) (auto simp: contents_def)
  qed
  finally show "contents ?V c n ! j = overwrite (contents V c n) off q ! j" .
qed

lemma contents_cong:
  assumes "\<And>k. k * 512 < n \<Longrightarrow> blk V1 c1 k = blk V c k \<and> V1 (blk V c k) = V (blk V c k)"
  shows "contents V1 c1 n = contents V c n"
proof -
  have "j div 512 * 512 < n" if "j < n" for j :: nat using that div_times_less_eq_dividend [of j 512] by linarith
  then show ?thesis using assms by (simp add: contents_def)
qed

lemma take_contents: "n \<le> N \<Longrightarrow> take n (contents V c N) = contents V c n"
  by (simp add: contents_def take_map)

text \<open>A write that starts inside the file and may end behind it.\<close>

lemma overwrite_contents:
  assumes "off \<le> n" "N = max n (off + length q)"
  shows "overwrite (contents V c N) off q = overwrite (contents V c n) off q"
proof (cases "n \<le> off + length q")
  case True
  then have "take off (contents V c N) = take off (contents V c n)"
    using assms take_contents [of n N V c] by (metis max.cobounded1 min.absorb1 take_take)
  then show ?thesis using True assms by (simp add: overwrite_def)
next
  case False
  then show ?thesis using assms by simp
qed

lemma overwrite_overwrite:
  "a \<le> length m \<Longrightarrow> overwrite (overwrite m a us) (a + length us) vs = overwrite m a (us @ vs)"
  by (simp add: overwrite_def ac_simps)

text \<open>The part of a file in one block.\<close>

lemma contents_slice:
  assumes "off + m \<le> n" "m \<le> 512 - off mod 512" "length (V (blk V c (off div 512))) = 512"
  shows "take m (drop off (contents V c n)) = take m (drop (off mod 512) (V (blk V c (off div 512))))"
proof (rule nth_equalityI)
  show "length (take m (drop off (contents V c n))) = length (take m (drop (off mod 512) (V (blk V c (off div 512)))))"
    using assms by simp
next
  fix i assume "i < length (take m (drop off (contents V c n)))"
  then have i: "i < m" by simp
  have o: "off + i = off div 512 * 512 + (off mod 512 + i)" by simp
  have lt: "off mod 512 + i < 512" using i assms(2) by linarith
  have "(q * 512 + t) div 512 = q" if "t < 512" for q t :: nat using that by (intro div_nat_eqI) simp_all
  then have "(off + i) div 512 = off div 512" using lt by (subst o) blast
  moreover have "(off + i) mod 512 = off mod 512 + i" using lt by (metis mod_add_left_eq mod_less)
  ultimately show "take m (drop off (contents V c n)) ! i = take m (drop (off mod 512) (V (blk V c (off div 512)))) ! i"
    using i assms by (simp add: contents_def)
qed

end
