(* ===== verification/Mkfs.thy ===== *)
theory Mkfs
  imports Dir FileMap
begin

text \<open>
  The file system builder (\<open>mkfs.c\<close>), a program of the host: the image is a list of sectors of
  512 bytes. \<open>exit(1)\<close> and a failed assertion are \<open>None\<close>. On the host, too, integers are
  little-endian, so \<open>xshort\<close> and \<open>xint\<close> are the identity and the structures have the
  layout the kernel reads. A file to copy is its name and the pieces in which \<open>read\<close> returns it.
\<close>

subsection \<open>The image\<close>

record mkfs_st =
  img :: "byte list list"
  freeblock :: nat
  usedblocks :: nat
  freeinode :: nat

abbreviation mk_size :: nat where "mk_size \<equiv> 1024"
abbreviation mk_nblocks :: nat where "mk_nblocks \<equiv> 985"
abbreviation mk_ninodes :: nat where "mk_ninodes \<equiv> 200"
abbreviation mk_nlog :: nat where "mk_nlog \<equiv> 10"

definition wsect :: "nat \<Rightarrow> byte list \<Rightarrow> mkfs_st \<Rightarrow> mkfs_st" where
  "wsect sec buf m =
     m\<lparr>img := (img m @ replicate (Suc sec - length (img m)) (replicate 512 0))[sec := buf]\<rparr>"

definition rsect :: "nat \<Rightarrow> mkfs_st \<Rightarrow> byte list option" where
  "rsect sec m = Prelude.ld (img m) sec"

definition i2b :: "nat \<Rightarrow> nat" where
  "i2b inum = inum div IPB + 2"

definition winode :: "nat \<Rightarrow> dinode \<Rightarrow> mkfs_st \<Rightarrow> mkfs_st option" where
  "winode inum ip m =
     map_option (\<lambda>buf. wsect (i2b inum) (put_dinode buf (inum mod IPB * 64) ip) m) (rsect (i2b inum) m)"

definition rinode :: "nat \<Rightarrow> mkfs_st \<Rightarrow> dinode option" where
  "rinode inum m = map_option (\<lambda>buf. get_dinode buf (inum mod IPB * 64)) (rsect (i2b inum) m)"

definition mk_ialloc :: "int \<Rightarrow> mkfs_st \<Rightarrow> (nat \<times> mkfs_st) option" where
  "mk_ialloc type m =
     (let inum = freeinode m;
          din = \<lparr>di_type = type, di_major = 0, di_minor = 0, di_nlink = 1, di_size = 0,
            di_addrs = replicate (NDIRECT + 1) 0\<rparr> in
      map_option (Pair inum) (winode inum din (m\<lparr>freeinode := Suc inum\<rparr>)))"

fun used_bits :: "nat \<Rightarrow> nat \<Rightarrow> byte list \<Rightarrow> byte list" where
  "used_bits i 0 buf = buf"
| "used_bits i (Suc n) buf = used_bits (Suc i) n (buf[i div 8 := buf ! (i div 8) OR push_bit (i mod 8) 1])"

definition mk_balloc :: "nat \<Rightarrow> mkfs_st \<Rightarrow> mkfs_st option" where
  "mk_balloc used m =
     (if \<not> used < 512 * 8 then None
      else Some (wsect (mk_ninodes div IPB + 3) (used_bits 0 used (replicate 512 0)) m))"

subsection \<open>Appending to a file\<close>

text \<open>The sector of block \<open>fbn\<close> of a file, allocated if need be.\<close>

definition iappend_block :: "nat \<Rightarrow> dinode \<Rightarrow> mkfs_st \<Rightarrow> (nat \<times> dinode \<times> mkfs_st) option" where
  "iappend_block fbn din m =
     (if fbn < NDIRECT then
        if di_addrs din ! fbn = 0 then
          Some (freeblock m, din\<lparr>di_addrs := (di_addrs din)[fbn := freeblock m]\<rparr>,
            m\<lparr>freeblock := freeblock m + 1, usedblocks := usedblocks m + 1\<rparr>)
        else Some (di_addrs din ! fbn, din, m)
      else
        let (din1, m1) =
          (if di_addrs din ! NDIRECT = 0 then
             (din\<lparr>di_addrs := (di_addrs din)[NDIRECT := freeblock m]\<rparr>,
              m\<lparr>freeblock := freeblock m + 1, usedblocks := usedblocks m + 1\<rparr>)
           else (din, m));
          ib = di_addrs din1 ! NDIRECT in
        Option.bind (rsect ib m1) (\<lambda>indirect.
        if get32 indirect (4 * (fbn - NDIRECT)) = 0 then
          let indirect1 = put32 indirect (4 * (fbn - NDIRECT)) (freeblock m1) in
          Some (freeblock m1, din1,
            wsect ib indirect1 (m1\<lparr>freeblock := freeblock m1 + 1, usedblocks := usedblocks m1 + 1\<rparr>))
        else Some (get32 indirect (4 * (fbn - NDIRECT)), din1, m1)))"

lemma chunk_pos: "0 < (off div 512 + 1) * 512 - (off :: nat)"
  using div_mult_mod_eq [of off 512] mod_less_divisor [of 512 off] by (simp add: algebra_simps)

function iappend_loop :: "byte list \<Rightarrow> nat \<Rightarrow> dinode \<Rightarrow> mkfs_st \<Rightarrow> (nat \<times> dinode \<times> mkfs_st) option" where
  "iappend_loop p off din m =
     (if p = [] then Some (off, din, m)
      else
        let fbn = off div 512 in
        if \<not> fbn < MAXFILE then None
        else
          Option.bind (iappend_block fbn din m) (\<lambda>(x, din1, m1).
          let n1 = min (length p) ((fbn + 1) * 512 - off) in
          Option.bind (rsect x m1) (\<lambda>buf.
          iappend_loop (drop n1 p) (off + n1) din1
            (wsect x (overwrite buf (off - fbn * 512) (take n1 p)) m1))))"
  by auto

termination
proof (relation "measure (\<lambda>(p, off, din, m). length p)", goal_cases)
  case (2 p off din m fbn r x r1 din1 m1 n1 buf)
  then show ?case using chunk_pos [of off] by (cases p) auto
qed simp

declare iappend_loop.simps [simp del]

definition iappend :: "nat \<Rightarrow> byte list \<Rightarrow> mkfs_st \<Rightarrow> mkfs_st option" where
  "iappend inum p m =
     Option.bind (rinode inum m) (\<lambda>din.
     Option.bind (iappend_loop p (di_size din) din m) (\<lambda>(off, din1, m1).
     winode inum (din1\<lparr>di_size := off\<rparr>) m1))"

subsection \<open>Building a file system\<close>

definition mk_dirent :: "nat \<Rightarrow> byte list \<Rightarrow> byte list option" where
  "mk_dirent inum name = map_option (\<lambda>nm. bytes16 (inum mod 2 ^ 16) @ nm) (strncpy (replicate DIRSIZ 0) name DIRSIZ)"

definition mk_super :: "byte list" where
  "mk_super = put32 (put32 (put32 (put32 (replicate 512 0) 0 mk_size) 4 mk_nblocks) 8 mk_ninodes) 12 mk_nlog"

definition mkfs_init :: mkfs_st where
  "mkfs_init =
     (let bitblocks = mk_size div (512 * 8) + 1; used = mk_ninodes div IPB + 3 + bitblocks in
      wsect 1 mk_super
        \<lparr>img = replicate (mk_nblocks + used + mk_nlog) (replicate 512 0), freeblock = used, usedblocks = used, freeinode = 1\<rparr>)"

fun append_all :: "nat \<Rightarrow> byte list list \<Rightarrow> mkfs_st \<Rightarrow> mkfs_st option" where
  "append_all inum [] m = Some m"
| "append_all inum (p # ps) m = Option.bind (iappend inum p m) (append_all inum ps)"

text \<open>One file: its name (terminated, without a slash, a leading underscore dropped) and its pieces.\<close>

definition add_file :: "nat \<Rightarrow> byte list \<times> byte list list \<Rightarrow> mkfs_st \<Rightarrow> mkfs_st option" where
  "add_file root = (\<lambda>(name, ps) m.
     if 47 \<in> set (takeWhile (\<lambda>c. c \<noteq> 0) name) then None
     else
       let name1 = (if name \<noteq> [] \<and> hd name = 95 then tl name else name) in
       Option.bind (mk_ialloc T_FILE m) (\<lambda>(inum, m1).
       Option.bind (mk_dirent inum name1) (\<lambda>de.
       Option.bind (iappend root de m1) (append_all inum ps))))"

fun add_files :: "nat \<Rightarrow> (byte list \<times> byte list list) list \<Rightarrow> mkfs_st \<Rightarrow> mkfs_st option" where
  "add_files root [] m = Some m"
| "add_files root (f # fs) m = Option.bind (add_file root f m) (add_files root fs)"

definition fix_root :: "nat \<Rightarrow> mkfs_st \<Rightarrow> mkfs_st option" where
  "fix_root root m =
     Option.bind (rinode root m) (\<lambda>din. winode root (din\<lparr>di_size := (di_size din div 512 + 1) * 512\<rparr>) m)"

definition mkfs :: "(byte list \<times> byte list list) list \<Rightarrow> mkfs_st option" where
  "mkfs files =
     Option.bind (mk_ialloc T_DIR mkfs_init) (\<lambda>(root, m1).
     if root \<noteq> ROOTINO then None
     else
       Option.bind (mk_dirent root [46, 0]) (\<lambda>dot.
       Option.bind (iappend root dot m1) (\<lambda>m2.
       Option.bind (mk_dirent root [46, 46, 0]) (\<lambda>dotdot.
       Option.bind (iappend root dotdot m2) (\<lambda>m3.
       Option.bind (add_files root files m3) (\<lambda>m4.
       Option.bind (fix_root root m4) (\<lambda>m5. mk_balloc (usedblocks m5) m5)))))))"

subsection \<open>Appending, block by block\<close>

text \<open>
  The sectors of an image as a function, and images whose sectors from \<open>freeblock\<close> on are
  blank. The files of an image own sectors of the
  data area below \<open>freeblock\<close>.
\<close>

abbreviation secs_of :: "mkfs_st \<Rightarrow> nat \<Rightarrow> byte list" where
  "secs_of m \<equiv> (!) (img m)"

definition img_ok :: "mkfs_st \<Rightarrow> bool" where
  "img_ok m \<longleftrightarrow> (\<forall>b < length (img m). length (img m ! b) = 512) \<and> length (img m) < 2 ^ 32
     \<and> 29 \<le> freeblock m \<and> freeblock m \<le> length (img m)
     \<and> (\<forall>b < length (img m). freeblock m \<le> b \<longrightarrow> img m ! b = replicate 512 0)"

abbreviation data_area :: "mkfs_st \<Rightarrow> nat set" where
  "data_area m \<equiv> {29..<freeblock m}"

abbreviation mk_file :: "mkfs_st \<Rightarrow> dinode \<Rightarrow> nat \<Rightarrow> bool" where
  "mk_file m din n \<equiv> file_ok (data_area m) (secs_of m) din n"

lemma wsect_in: "sec < length (img m) \<Longrightarrow> wsect sec buf m = m\<lparr>img := (img m)[sec := buf]\<rparr>"
  by (simp add: wsect_def)

lemma rsect_in: "sec < length (img m) \<Longrightarrow> rsect sec m = Some (img m ! sec)"
  by (simp add: rsect_def)

lemma nth_upd_fun: "x < length xs \<Longrightarrow> (!) (xs[x := v]) = ((!) xs)(x := v)"
  by (auto simp: fun_eq_iff nth_list_update)

lemma img_okD:
  assumes "img_ok m"
  shows "b < length (img m) \<Longrightarrow> length (img m ! b) = 512" "29 \<le> freeblock m"
    "freeblock m \<le> length (img m)" "length (img m) < 2 ^ 32"
    "freeblock m \<le> b \<Longrightarrow> b < length (img m) \<Longrightarrow> img m ! b = replicate 512 0"
  using assms unfolding img_ok_def by blast+

lemma img_okI:
  assumes "img_ok m" "length (img m1) = length (img m)" "freeblock m \<le> freeblock m1" "freeblock m1 \<le> length (img m)"
    "\<And>b. b < length (img m) \<Longrightarrow> length (img m1 ! b) = 512"
    "\<And>b. b < length (img m) \<Longrightarrow> freeblock m1 \<le> b \<Longrightarrow> img m1 ! b = img m ! b"
  shows "img_ok m1"
  unfolding img_ok_def using assms(2-6) img_okD(2,4,5) [OF assms(1)] by simp

text \<open>
  What an operation on one file keeps: the other sectors in use, the fields of the inode that are
  not addresses, the number of sectors; and the exact number of sectors it takes.
\<close>

definition grows :: "mkfs_st \<Rightarrow> dinode \<Rightarrow> nat \<Rightarrow> mkfs_st \<Rightarrow> dinode \<Rightarrow> nat \<Rightarrow> bool" where
  "grows m din n m1 din1 n1 \<longleftrightarrow> img_ok m1 \<and> mk_file m1 din1 n1 \<and> length (img m1) = length (img m)
     \<and> freeblock m1 + need n = freeblock m + need n1 \<and> freeblock m \<le> freeblock m1
     \<and> usedblocks m1 + freeblock m = usedblocks m + freeblock m1 \<and> freeinode m1 = freeinode m
     \<and> own (secs_of m1) din1 \<subseteq> own (secs_of m) din \<union> {freeblock m..<freeblock m1}
     \<and> (\<forall>b < freeblock m. b \<notin> own (secs_of m) din \<longrightarrow> img m1 ! b = img m ! b)
     \<and> din1\<lparr>di_addrs := di_addrs din\<rparr> = din"

lemma grows_fields:
  assumes "grows m din n m1 din1 n1"
  shows "di_type din1 = di_type din" "di_nlink din1 = di_nlink din"
proof -
  have "din1\<lparr>di_addrs := di_addrs din\<rparr> = din" using assms by (simp add: grows_def)
  then show "di_type din1 = di_type din" "di_nlink din1 = di_nlink din"
    by (metis dinode.select_convs dinode.surjective dinode.update_convs(6))+
qed

lemma grows_refl: "img_ok m \<Longrightarrow> mk_file m din n \<Longrightarrow> grows m din n m din n"
  by (simp add: grows_def)

lemma grows_trans:
  assumes "grows m din n m1 din1 n1" "grows m1 din1 n1 m2 din2 n2"
  shows "grows m din n m2 din2 n2"
proof -
  note a = assms(1) [unfolded grows_def] and b = assms(2) [unfolded grows_def]
  have "img m2 ! b = img m ! b" if "b < freeblock m" "b \<notin> own (secs_of m) din" for b
  proof -
    have "b \<notin> own (secs_of m1) din1" using a that by (auto dest: subsetD)
    then show ?thesis using a b that by simp
  qed
  moreover have "own (secs_of m2) din2 \<subseteq> own (secs_of m) din \<union> {freeblock m..<freeblock m2}"
  proof
    fix c assume "c \<in> own (secs_of m2) din2"
    with b consider "c \<in> own (secs_of m1) din1" | "freeblock m1 \<le> c" "c < freeblock m2" by auto
    then show "c \<in> own (secs_of m) din \<union> {freeblock m..<freeblock m2}"
      by cases (use a b in \<open>auto dest: subsetD\<close>)
  qed
  moreover have "din2\<lparr>di_addrs := di_addrs din\<rparr> = din"
  proof -
    have "din2\<lparr>di_addrs := di_addrs din\<rparr> = din2\<lparr>di_addrs := di_addrs din1, di_addrs := di_addrs din\<rparr>" by simp
    also have "\<dots> = din1\<lparr>di_addrs := di_addrs din\<rparr>" using b by simp
    finally show ?thesis using a by simp
  qed
  ultimately show ?thesis using a b unfolding grows_def by simp
qed

text \<open>A block was placed: the file grew by it and its old bytes are where they were.\<close>

definition block_placed :: "mkfs_st \<Rightarrow> dinode \<Rightarrow> nat \<Rightarrow> mkfs_st \<Rightarrow> dinode \<Rightarrow> bool" where
  "block_placed m din n m1 din1 \<longleftrightarrow> grows m din n m1 din1 (n + 1)
     \<and> contents (secs_of m1) din1 n = contents (secs_of m) din n"

text \<open>The three ways \<open>iappend_block\<close> adds a block.\<close>

lemma place_direct:
  assumes m: "img_ok m" and ok: "mk_file m din (fbn * 512)" and fbn: "fbn < NDIRECT"
    and room: "freeblock m < length (img m)"
  defines "m1 \<equiv> m\<lparr>freeblock := freeblock m + 1, usedblocks := usedblocks m + 1\<rparr>"
    and "din1 \<equiv> din\<lparr>di_addrs := (di_addrs din)[fbn := freeblock m]\<rparr>"
  shows "block_placed m din (fbn * 512) m1 din1"
    and "iappend_block fbn din m = Some (blk (secs_of m1) din1 fbn, din1, m1)"
proof -
  have f: "fbn < MAXFILE" "fbn \<noteq> NDIRECT" using fbn by simp_all
  have len: "length (di_addrs din) = 13" and z: "di_addrs din ! fbn = 0" and ind: "di_addrs din ! NDIRECT = 0"
    using file_okD(6) [OF ok f(1)] file_ok_ind(4,5) [OF ok] fbn by (simp_all add: blk_def)
  have blk1: "blk (secs_of m1) din1 k = (if k = fbn then freeblock m else blk (secs_of m) din k)" for k
    unfolding din1_def by (rule blk_direct [OF fbn len ind])
  have din1: "dinode_ok din1"
    unfolding din1_def using file_ok_ind(7) [OF ok] room img_okD(4) [OF m] by (intro dinode_ok_addr) simp_all
  have U: "freeblock m \<noteq> 0" "freeblock m \<in> data_area m1 - data_area m" "data_area m \<subseteq> data_area m1"
    "data_area m1 - data_area m = {freeblock m..<freeblock m1}"
    using img_okD(2) [OF m] by (auto simp: m1_def)
  have "di_addrs din1 ! NDIRECT = di_addrs din ! NDIRECT" using fbn by (simp add: din1_def)
  note ext = file_ok_extend [OF ok f(1) din1 blk1 U(1-3), unfolded if_not_P [OF f(2)], OF this, unfolded U(4)]
  moreover have "img_ok m1" using room img_okD(1) [OF m] by (intro img_okI [OF m]) (auto simp: m1_def)
  ultimately have "grows m din (fbn * 512) m1 din1 (fbn * 512 + 1)"
    using fbn need_Suc(1) [of fbn] by (simp add: grows_def) (simp add: m1_def din1_def)
  moreover have "contents (secs_of m1) din1 (fbn * 512) = contents (secs_of m) din (fbn * 512)"
    using blk1 by (intro contents_cong) (auto simp: m1_def)
  ultimately show "block_placed m din (fbn * 512) m1 din1" unfolding block_placed_def by blast
  show "iappend_block fbn din m = Some (blk (secs_of m1) din1 fbn, din1, m1)"
    using fbn z blk1 by (simp add: iappend_block_def m1_def din1_def)
qed

lemma place_indirect:
  assumes m: "img_ok m" and ok: "mk_file m din (fbn * 512)" and fbn: "NDIRECT \<le> fbn" "fbn < MAXFILE"
  defines "y \<equiv> (if fbn = NDIRECT then freeblock m else di_addrs din ! NDIRECT)"
    and "x \<equiv> (if fbn = NDIRECT then freeblock m + 1 else freeblock m)"
  assumes room: "x < length (img m)"
  defines "m1 \<equiv> m\<lparr>freeblock := x + 1, usedblocks := usedblocks m + (x + 1 - freeblock m),
        img := (img m)[y := put32 (img m ! y) (4 * (fbn - NDIRECT)) x]\<rparr>"
    and "din1 \<equiv> din\<lparr>di_addrs := (di_addrs din)[NDIRECT := y]\<rparr>"
  shows "block_placed m din (fbn * 512) m1 din1"
    and "iappend_block fbn din m = Some (blk (secs_of m1) din1 fbn, din1, m1)"
proof -
  let ?k = "4 * (fbn - NDIRECT)"
  have len: "length (di_addrs din) = 13" by (rule file_ok_ind(5) [OF ok])
  have y: "29 \<le> y" "y < x" "y < length (img m)" and x: "freeblock m \<le> x"
    using file_ok_ind(2) [OF ok] fbn img_okD(2,3) [OF m] room by (auto simp: y_def x_def)
  have ly: "length (img m ! y) = 512" by (rule img_okD(1) [OF m y(3)])
  have yb: "if fbn = NDIRECT then y \<noteq> 0 \<and> img m ! y = replicate 512 0 else y = di_addrs din ! NDIRECT"
    using img_okD(5) [OF m _ y(3)] y(1) by (cases "fbn = NDIRECT") (simp_all add: y_def)
  have img1: "img m1 = (img m)[y := put32 (img m ! y) ?k x]" by (simp add: m1_def)
  have ind1: "di_addrs din1 ! NDIRECT = y" using len by (simp add: din1_def)
  have x32: "x < 2 ^ 32" using room img_okD(4) [OF m] by simp
  have at_y: "secs_of m1 y = put32 (img m ! y) ?k x" using y by (simp add: img1)
  have blk1: "blk (secs_of m1) din1 k = (if k = fbn then x else blk (secs_of m) din k)" if "k < MAXFILE" for k
    unfolding din1_def by (rule blk_indirect [where V = "secs_of m" and ?V1.0 = "secs_of m1" and y = y, OF ok fbn yb ly x32 that at_y])
  have din1: "dinode_ok din1"
    unfolding din1_def using file_ok_ind(7) [OF ok] y img_okD(4) [OF m] by (intro dinode_ok_addr) simp_all
  have U: "x \<noteq> 0" "x \<in> data_area m1 - data_area m" "data_area m \<subseteq> data_area m1"
    "data_area m1 - data_area m = {freeblock m..<freeblock m1}"
    using img_okD(2) [OF m] x by (auto simp: m1_def)
  have ind: "if fbn = NDIRECT then di_addrs din1 ! NDIRECT \<in> data_area m1 - data_area m - {x, 0}
      else di_addrs din1 ! NDIRECT = di_addrs din ! NDIRECT"
    unfolding ind1 U(4) using img_okD(2) [OF m] by (simp add: y_def x_def m1_def)
  note ext = file_ok_extend [OF ok fbn(2) din1 blk1 U(1-3) ind, unfolded U(4)]
  have "length (put32 (img m ! y) ?k x) = 512" using fbn ly by (simp add: put32_def bytes32_def bytes16_def)
  then have "img_ok m1"
    using room x y img_okD(1) [OF m] by (intro img_okI [OF m]) (auto simp: m1_def nth_list_update)
  moreover have "img m1 ! b = img m ! b" if "b < freeblock m" "b \<notin> own (secs_of m) din" for b
    using that y(1) unfolding img1 by (cases "b = y") (auto simp: y_def own_def split: if_splits)
  moreover have "need (fbn * 512 + 1) + freeblock m = need (fbn * 512) + (x + 1)"
    using need_Suc by (auto simp: x_def)
  moreover have "din1\<lparr>di_addrs := di_addrs din\<rparr> = din" by (simp add: din1_def)
  ultimately have "grows m din (fbn * 512) m1 din1 (fbn * 512 + 1)"
    using ext x by (simp add: grows_def) (simp add: m1_def)
  moreover have "contents (secs_of m1) din1 (fbn * 512) = contents (secs_of m) din (fbn * 512)"
  proof (rule contents_cong)
    fix k assume k: "k * 512 < fbn * 512"
    then have "k < fbn" "k < MAXFILE" using fbn by simp_all
    moreover have "blk (secs_of m) din k \<noteq> y"
      using file_okD(2,5) [OF ok \<open>k < MAXFILE\<close> k] by (auto simp: y_def)
    ultimately show "blk (secs_of m1) din1 k = blk (secs_of m) din k
        \<and> secs_of m1 (blk (secs_of m) din k) = secs_of m (blk (secs_of m) din k)"
      using blk1 [of k] unfolding img1 by simp
  qed
  ultimately show "block_placed m din (fbn * 512) m1 din1" unfolding block_placed_def by blast
  have "get32 (img m ! y) ?k = 0"
    using get32_ind [OF ok fbn(1) fbn yb] file_okD(6) [OF ok fbn(2)] by simp
  then show "iappend_block fbn din m = Some (blk (secs_of m1) din1 fbn, din1, m1)"
    using fbn len y file_ok_ind(3,4) [OF ok] blk1 [OF fbn(2)]
    by (cases "fbn = NDIRECT")
      (simp_all add: iappend_block_def m1_def din1_def y_def x_def rsect_in wsect_in Let_def)
qed

lemma iappend_block_placed:
  assumes m: "img_ok m" and ok: "mk_file m din off" and off: "off < MAXFILE * 512"
    and room: "freeblock m + need (off + 1) \<le> length (img m) + need off"
  shows "\<exists>m1 din1. iappend_block (off div 512) din m = Some (blk (secs_of m1) din1 (off div 512), din1, m1)
    \<and> block_placed m din off m1 din1"
proof (cases "off mod 512 = 0")
  case True
  define fbn where "fbn = off div 512"
  have o: "off = fbn * 512" using True by (auto simp: fbn_def)
  have fbn: "fbn < MAXFILE" and q: "fbn * 512 div 512 = fbn" using off o by simp_all
  note room = room [unfolded o] and ok = ok [unfolded o]
  show ?thesis
  proof (cases "fbn < NDIRECT")
    case True
    with room have "freeblock m < length (img m)" using need_Suc(1) [of fbn] by simp
    from place_direct [OF m ok True this] show ?thesis unfolding o q by blast
  next
    case False
    with room have "(if fbn = NDIRECT then freeblock m + 1 else freeblock m) < length (img m)"
      using need_Suc by auto
    from place_indirect [OF m ok leI [OF False] fbn this] show ?thesis unfolding o q by blast
  qed
next
  case False
  define q r where "q = off div 512" and "r = off mod 512"
  have qr: "off = q * 512 + r" "0 < r" "r < 512" using False by (simp_all add: q_def r_def)
  have "(off + 511) div 512 = q + 1" "(off + 1 + 511) div 512 = q + 1"
    using qr by (intro div_nat_eqI; simp)+
  then have same: "(off + 511) div 512 = (off + 1 + 511) div 512" and lt: "off div 512 * 512 < off"
    and fbn: "off div 512 < MAXFILE" using off qr by simp_all
  have "NDIRECT * 512 < off \<longleftrightarrow> NDIRECT * 512 < off + 1" by (rule same_blocks [OF same])
  then have "need (off + 1) = need off" using same by (simp add: need_def)
  moreover have "mk_file m din (off + 1)" using off by (intro file_ok_cong [OF ok same]) simp
  ultimately have "block_placed m din off m din" using m by (simp add: block_placed_def grows_def)
  moreover have "iappend_block (off div 512) din m = Some (blk (secs_of m) din (off div 512), din, m)"
  proof -
    have nz: "blk (secs_of m) din (off div 512) \<noteq> 0" by (rule file_okD(3) [OF ok fbn lt])
    have "di_addrs din ! NDIRECT < length (img m)"
      using file_ok_ind(2,4) [OF ok] img_okD(2,3) [OF m] by (cases "NDIRECT * 512 < off") auto
    then show ?thesis using nz by (auto simp: iappend_block_def blk_def rsect_in Let_def split: if_splits)
  qed
  ultimately show ?thesis by blast
qed

text \<open>Writing the bytes of one block.\<close>

definition appends :: "mkfs_st \<Rightarrow> dinode \<Rightarrow> nat \<Rightarrow> byte list \<Rightarrow> mkfs_st \<Rightarrow> dinode \<Rightarrow> bool" where
  "appends m din n p m1 din1 \<longleftrightarrow> grows m din n m1 din1 (n + length p)
     \<and> contents (secs_of m1) din1 (n + length p) = contents (secs_of m) din n @ p"

lemma appends_trans:
  assumes "appends m din n p m1 din1" "appends m1 din1 (n + length p) q m2 din2"
  shows "appends m din n (p @ q) m2 din2"
  using assms grows_trans unfolding appends_def by (fastforce simp: add.assoc)

lemma appends_Nil: "img_ok m \<Longrightarrow> mk_file m din n \<Longrightarrow> appends m din n [] m din"
  by (simp add: appends_def grows_refl)

lemma grows_write:
  assumes g: "grows m din n m1 din1 n1" and k: "k * 512 < n1" "k < MAXFILE" and buf: "length buf = 512"
  shows "grows m din n (m1\<lparr>img := (img m1)[blk (secs_of m1) din1 k := buf]\<rparr>) din1 n1"
proof -
  let ?x = "blk (secs_of m1) din1 k"
  note a = g [unfolded grows_def]
  have m1: "img_ok m1" and ok: "mk_file m1 din1 n1"
    and sub: "own (secs_of m1) din1 \<subseteq> own (secs_of m) din \<union> {freeblock m..<freeblock m1}" using a by blast+
  have x: "?x \<in> own (secs_of m1) din1" "?x \<in> data_area m1" by (rule file_okD(1,2) [OF ok k(2,1)])+
  then have xl: "?x < length (img m1)" using img_okD(3) [OF m1] by simp
  note w = file_write [OF ok k, of buf, folded nth_upd_fun [OF xl]]
  have "(img m1)[?x := buf] ! b = img m ! b" if "b < freeblock m" "b \<notin> own (secs_of m) din" for b
  proof -
    have "b \<notin> own (secs_of m1) din1" using sub that by (auto dest: subsetD)
    then have "b \<noteq> ?x" using x by blast
    then show ?thesis using a that by simp
  qed
  moreover have "img_ok (m1\<lparr>img := (img m1)[?x := buf]\<rparr>)"
    using x buf img_okD(1,3) [OF m1] by (intro img_okI [OF m1]) (auto simp: nth_list_update)
  ultimately show ?thesis using a w(2,3) unfolding grows_def by simp
qed

lemma chunk_appends:
  assumes m: "img_ok m" and ok: "mk_file m din off" and off: "off < MAXFILE * 512"
    and room: "freeblock m + need (off + 1) \<le> length (img m) + need off" and p: "p \<noteq> []"
  defines "fbn \<equiv> off div 512"
  defines "n1 \<equiv> min (length p) ((fbn + 1) * 512 - off)"
  shows "\<exists>x din1 m1 buf. iappend_block fbn din m = Some (x, din1, m1) \<and> rsect x m1 = Some buf
    \<and> appends m din off (take n1 p) (wsect x (overwrite buf (off - fbn * 512) (take n1 p)) m1) din1"
proof -
  obtain m1 din1 where it: "iappend_block fbn din m = Some (blk (secs_of m1) din1 fbn, din1, m1)"
    and g: "grows m din off m1 din1 (off + 1)" and old: "contents (secs_of m1) din1 off = contents (secs_of m) din off"
    unfolding fbn_def using iappend_block_placed [OF m ok off room] unfolding block_placed_def by blast
  let ?q = "take n1 p" and ?x = "blk (secs_of m1) din1 fbn"
  have o: "off = fbn * 512 + off mod 512" "off mod 512 < 512" by (simp_all add: fbn_def)
  then have r: "off - fbn * 512 = off mod 512" by linarith
  have fbn: "fbn < MAXFILE" using off o by simp
  have n1: "0 < n1" "n1 \<le> length p" "off + n1 \<le> (fbn + 1) * 512" using p o by (auto simp: n1_def)
  then have lq: "length ?q = n1" and q: "?q \<noteq> []" by auto
  have "(off + 1 + 511) div 512 = fbn + 1" "(off + n1 + 511) div 512 = fbn + 1"
    using o n1 by (intro div_nat_eqI; simp)+
  then have same: "(off + 1 + 511) div 512 = (off + n1 + 511) div 512" by simp
  have "NDIRECT * 512 < off + 1 \<longleftrightarrow> NDIRECT * 512 < off + n1" by (rule same_blocks [OF same])
  then have need: "need (off + n1) = need (off + 1)" using same by (simp add: need_def)
  have ok1: "mk_file m1 din1 (off + n1)"
    using g n1 fbn unfolding grows_def by (intro file_ok_cong [OF _ same]) auto
  then have g1: "grows m din off m1 din1 (off + n1)" using g need unfolding grows_def by simp
  have m1: "img_ok m1" using g unfolding grows_def by blast
  have lt: "fbn * 512 < off + n1" using o n1 by linarith
  have x: "?x < length (img m1)" using file_okD(2) [OF ok1 fbn lt] img_okD(3) [OF m1] by simp
  have lx: "length (img m1 ! ?x) = 512" by (rule img_okD(1) [OF m1 x])
  let ?buf = "overwrite (img m1 ! ?x) (off mod 512) ?q"
  have buf: "length ?buf = 512" using lx lq o n1 by simp
  have "contents (secs_of (m1\<lparr>img := (img m1)[?x := ?buf]\<rparr>)) din1 (off + n1) = overwrite (contents (secs_of m1) din1 (off + n1)) off ?q"
    using contents_write [OF ok1 _ _ _ q lx, of off] lq n1(3) nth_upd_fun [OF x] by (simp add: fbn_def)
  also have "\<dots> = contents (secs_of m) din off @ ?q"
    using overwrite_contents [of off off "off + n1" ?q] lq old by (simp add: overwrite_def)
  finally have "appends m din off ?q (wsect ?x ?buf m1) din1"
    using grows_write [OF g1 lt fbn buf] unfolding appends_def lq wsect_in [OF x] by simp
  then show ?thesis using it rsect_in [OF x] unfolding r by blast
qed

lemma iappend_loop_appends:
  assumes "img_ok m" "mk_file m din off" "off + length p \<le> MAXFILE * 512"
    "freeblock m + need (off + length p) \<le> length (img m) + need off"
  shows "\<exists>m1 din1. iappend_loop p off din m = Some (off + length p, din1, m1) \<and> appends m din off p m1 din1"
  using assms
proof (induction "length p" arbitrary: p off din m rule: less_induct)
  case less
  show ?case
  proof (cases "p = []")
    case True
    then show ?thesis using less.prems appends_Nil by (auto simp: iappend_loop.simps)
  next
    case False
    then have lp: "0 < length p" by simp
    then have off: "off < MAXFILE * 512" using less.prems(3) by linarith
    have fbn: "off div 512 < MAXFILE" using less_mult_imp_div_less [OF off] .
    have mono: "need (off + 1) \<le> need (off + length p)" using lp by (intro need_mono) linarith
    define n1 where "n1 = min (length p) ((off div 512 + 1) * 512 - off)"
    have n1: "0 < n1" "n1 \<le> length p" using lp chunk_pos [of off] by (simp_all add: n1_def)
    obtain x din1 m1 buf where b: "iappend_block (off div 512) din m = Some (x, din1, m1)" "rsect x m1 = Some buf"
      and a: "appends m din off (take n1 p) (wsect x (overwrite buf (off - off div 512 * 512) (take n1 p)) m1) din1"
      (is "appends _ _ _ _ ?m2 _")
      using chunk_appends [OF less.prems(1,2) off _ False] less.prems(4) mono unfolding n1_def by fastforce
    have lq: "length (take n1 p) = n1" using n1 by simp
    note g = a [unfolded appends_def lq grows_def]
    have sum: "off + n1 + length (drop n1 p) = off + length p" using n1 by simp
    have "\<exists>m3 din3. iappend_loop (drop n1 p) (off + n1) din1 ?m2 = Some (off + n1 + length (drop n1 p), din3, m3)
        \<and> appends ?m2 din1 (off + n1) (drop n1 p) m3 din3"
      using g n1 less.prems(3,4) lp by (intro less.hyps) (simp_all add: sum)
    then obtain m3 din3 where it: "iappend_loop (drop n1 p) (off + n1) din1 ?m2 = Some (off + length p, din3, m3)"
      and c: "appends ?m2 din1 (off + n1) (drop n1 p) m3 din3" unfolding sum by blast
    have "appends m din off (take n1 p @ drop n1 p) m3 din3"
      using a c by (intro appends_trans) (simp_all only: lq)
    moreover have "iappend_loop p off din m = Some (off + length p, din3, m3)"
      using False fbn b it by (subst iappend_loop.simps) (simp add: Let_def n1_def)
    ultimately show ?thesis by simp
  qed
qed

subsection \<open>The files of an image\<close>

definition ino_at :: "mkfs_st \<Rightarrow> nat \<Rightarrow> dinode" where
  "ino_at m i = get_dinode (img m ! i2b i) (i mod IPB * 64)"

text \<open>
  The invariant of the builder: every inode handed out is a well-formed file, no two files share a
  sector, and exactly the sectors below \<open>freeblock\<close> are in use: the 29 of the superblock, the inodes
  and the bitmap, and those the files need. The abstract image maps an inode to its type and bytes.
\<close>

definition mk_inv :: "mkfs_st \<Rightarrow> bool" where
  "mk_inv m \<longleftrightarrow> img_ok m \<and> length (img m) = mk_size \<and> 1 \<le> freeinode m \<and> freeinode m \<le> 208
     \<and> usedblocks m = freeblock m
     \<and> freeblock m = 29 + (\<Sum>i\<in>{1..<freeinode m}. need (di_size (ino_at m i)))
     \<and> (\<forall>i\<in>{1..<freeinode m}. mk_file m (ino_at m i) (di_size (ino_at m i)) \<and> di_nlink (ino_at m i) = 1)
     \<and> (\<forall>i\<in>{1..<freeinode m}. \<forall>j\<in>{1..<freeinode m}. i \<noteq> j \<longrightarrow>
          own (secs_of m) (ino_at m i) \<inter> own (secs_of m) (ino_at m j) = {})"

definition mk_view :: "mkfs_st \<Rightarrow> nat \<Rightarrow> (int \<times> byte list) option" where
  "mk_view m i =
     (if 1 \<le> i \<and> i < freeinode m
      then Some (di_type (ino_at m i), contents (secs_of m) (ino_at m i) (di_size (ino_at m i))) else None)"

lemma mk_frame:
  assumes "mk_file m din n" "freeblock m \<le> freeblock m1" "\<And>b. b \<in> own (secs_of m) din \<Longrightarrow> img m1 ! b = img m ! b"
  shows "blk (secs_of m1) din = blk (secs_of m) din" "own (secs_of m1) din = own (secs_of m) din" "mk_file m1 din n"
    "contents (secs_of m1) din n = contents (secs_of m) din n"
proof -
  have "own (secs_of m) din \<subseteq> data_area m1" using file_own [OF assms(1)] assms(2) by auto
  note f = file_frame [where ?V1.0 = "secs_of m1", OF assms(1) this assms(3)]
  show "blk (secs_of m1) din = blk (secs_of m) din" "own (secs_of m1) din = own (secs_of m) din" "mk_file m1 din n"
    "contents (secs_of m1) din n = contents (secs_of m) din n" by (rule f; assumption)+
qed

lemma i2b_bounds: "i < 208 \<Longrightarrow> 2 \<le> i2b i \<and> i2b i \<le> 27"
  by (simp add: i2b_def)

lemma winode_at:
  assumes m: "img_ok m" and i: "i < 208" and din: "dinode_ok din"
  defines "m1 \<equiv> m\<lparr>img := (img m)[i2b i := put_dinode (img m ! i2b i) (i mod IPB * 64) din]\<rparr>"
  shows "winode i din m = Some m1" "img_ok m1" "ino_at m1 i = din"
    "j \<noteq> i \<Longrightarrow> j < 208 \<Longrightarrow> ino_at m1 j = ino_at m j" "b < 2 \<or> 28 \<le> b \<Longrightarrow> img m1 ! b = img m ! b"
proof -
  note ib = i2b_bounds [OF i]
  have lt: "i2b i < length (img m)" using ib img_okD(2,3) [OF m] by simp
  have l: "length (img m ! i2b i) = 512" by (rule img_okD(1) [OF m lt])
  have k: "i mod IPB * 64 + 64 \<le> 512" by simp
  show "winode i din m = Some m1" by (simp add: winode_def rsect_in wsect_in lt m1_def)
  show "img_ok m1" using ib l k din img_okD(1-3) [OF m]
    by (intro img_okI [OF m]) (auto simp: m1_def nth_list_update)
  show "ino_at m1 i = din" using get_put_dinode [of "i mod IPB * 64" "img m ! i2b i" din] l k din lt
    by (simp add: ino_at_def m1_def)
  show "b < 2 \<or> 28 \<le> b \<Longrightarrow> img m1 ! b = img m ! b" using ib by (auto simp: m1_def nth_list_update)
  assume j: "j \<noteq> i" "j < 208"
  show "ino_at m1 j = ino_at m j"
  proof (cases "i2b j = i2b i")
    case True
    then have "j div IPB = i div IPB" by (simp add: i2b_def)
    with j(1) have "j mod IPB \<noteq> i mod IPB" by (metis div_mult_mod_eq)
    then have "j mod IPB * 64 + 64 \<le> i mod IPB * 64 \<or> i mod IPB * 64 + 64 \<le> j mod IPB * 64" by linarith
    moreover have "j mod IPB * 64 + 64 \<le> 512" by simp
    ultimately show ?thesis using True lt l k din get_put_dinode_other by (simp add: ino_at_def m1_def)
  qed (simp add: ino_at_def m1_def)
qed

lemma mk_invD:
  assumes "mk_inv m"
  shows "img_ok m" "length (img m) = mk_size" "1 \<le> freeinode m" "freeinode m \<le> 208" "usedblocks m = freeblock m"
    "freeblock m = 29 + (\<Sum>i\<in>{1..<freeinode m}. need (di_size (ino_at m i)))"
    "1 \<le> i \<Longrightarrow> i < freeinode m \<Longrightarrow> mk_file m (ino_at m i) (di_size (ino_at m i))"
    "1 \<le> i \<Longrightarrow> i < freeinode m \<Longrightarrow> 1 \<le> j \<Longrightarrow> j < freeinode m \<Longrightarrow> i \<noteq> j \<Longrightarrow>
       own (secs_of m) (ino_at m i) \<inter> own (secs_of m) (ino_at m j) = {}"
    "1 \<le> i \<Longrightarrow> i < freeinode m \<Longrightarrow> di_nlink (ino_at m i) = 1"
  using assms unfolding mk_inv_def by auto

text \<open>
  One file is replaced: inode \<open>i\<close> gets \<open>din1\<close>, whose sectors are its own or new, and every other
  file keeps its sectors.
\<close>

lemma mk_inv_replace:
  assumes inv: "mk_inv m" and i: "1 \<le> i" "i < freeinode m"
    and g: "grows m (ino_at m i) (di_size (ino_at m i)) m1 din1 n"
  defines "m2 \<equiv> m1\<lparr>img := (img m1)[i2b i := put_dinode (img m1 ! i2b i) (i mod IPB * 64) (din1\<lparr>di_size := n\<rparr>)]\<rparr>"
  shows "winode i (din1\<lparr>di_size := n\<rparr>) m1 = Some m2" "mk_inv m2" "freeinode m2 = freeinode m"
    "mk_view m2 = (mk_view m)(i \<mapsto> (di_type (ino_at m i), contents (secs_of m1) din1 n))"
    "img m2 ! 1 = img m ! 1"
proof -
  note a = g [unfolded grows_def]
  let ?d = "din1\<lparr>di_size := n\<rparr>"
  note oki = mk_invD(7) [OF inv i] and N = mk_invD(2-4) [OF inv] and fb = img_okD(2) [OF mk_invD(1) [OF inv]]
  have m1: "img_ok m1" and ok1: "mk_file m1 din1 n" and le: "freeblock m \<le> freeblock m1" using a by blast+
  have fi: "freeinode m1 = freeinode m" and len: "length (img m1) = length (img m)" using a by blast+
  have i': "i < 208" using i N by simp
  have dok: "dinode_ok ?d" using file_ok_size [OF ok1] unfolding file_ok_def by blast
  note w = winode_at [OF m1 i' dok, folded m2_def]
  show "winode i ?d m1 = Some m2" by (rule w(1))
  have m2: "freeblock m2 = freeblock m1" "freeinode m2 = freeinode m" "usedblocks m2 = usedblocks m1"
      "length (img m2) = mk_size"
    using fi len N by (simp_all add: m2_def)
  show "freeinode m2 = freeinode m" by (rule m2(2))
  have low: "img m1 ! b = img m ! b" if "b < 29" for b
  proof -
    have "b \<notin> own (secs_of m) (ino_at m i)" using file_own [OF oki] that by auto
    then show ?thesis using a fb that by simp
  qed
  show "img m2 ! 1 = img m ! 1" using w(5) [of 1] low [of 1] by simp
  have s2: "img m2 ! b = img m1 ! b" if "29 \<le> b" for b using w(5) [of b] that by simp
  have din_j: "ino_at m2 j = ino_at m j" if "j \<noteq> i" "j < freeinode m" for j
    using w(4) [OF that(1)] low [of "i2b j"] i2b_bounds [of j] that N by (simp add: ino_at_def)
  have keep: "img m2 ! b = img m ! b"
    if "j \<noteq> i" "1 \<le> j" "j < freeinode m" "b \<in> own (secs_of m) (ino_at m j)" for j b
  proof -
    have "29 \<le> b" "b < freeblock m" using file_own [OF mk_invD(7) [OF inv that(2,3)]] that(4) by auto
    moreover have "b \<notin> own (secs_of m) (ino_at m i)" using mk_invD(8) [OF inv i that(2,3)] that(1,4) by blast
    ultimately show ?thesis using a s2 by simp
  qed
  note fj = mk_frame [OF mk_invD(7) [OF inv], where ?m1.0 = m2, unfolded m2(1), OF _ _ le keep]
  have s1: "img m2 ! b = img m1 ! b" if "b \<in> own (secs_of m1) din1" for b
    using file_own [OF ok1] s2 that by auto
  note f1 = mk_frame [OF ok1, where ?m1.0 = m2, unfolded m2(1), OF order_refl s1]
  have view_i: "ino_at m2 i = ?d" by (rule w(3))
  have own_i: "own (secs_of m2) (ino_at m2 i) \<subseteq> own (secs_of m) (ino_at m i) \<union> {freeblock m..<freeblock m1}"
    using a f1(2) view_i by simp
  have own_j: "own (secs_of m2) (ino_at m2 j) = own (secs_of m) (ino_at m j)" if "j \<noteq> i" "1 \<le> j" "j < freeinode m" for j
    using fj(2) [OF that(2,3) that] din_j that by simp
  have disj: "own (secs_of m2) (ino_at m2 i) \<inter> own (secs_of m2) (ino_at m2 j) = {}"
    if "j \<noteq> i" "1 \<le> j" "j < freeinode m" for j
    using own_i own_j [OF that] mk_invD(8) [OF inv i that(2,3)] that(1)
      file_own [OF mk_invD(7) [OF inv that(2,3)]] by fastforce
  have "own (secs_of m2) (ino_at m2 k) \<inter> own (secs_of m2) (ino_at m2 j) = {}"
    if "1 \<le> k" "k < freeinode m" "1 \<le> j" "j < freeinode m" "k \<noteq> j" for k j
    using disj [of j] disj [of k] own_j [of j] own_j [of k] mk_invD(8) [OF inv that] that
    by (cases "k = i"; cases "j = i") auto
  moreover have same: "di_type din1 = di_type (ino_at m i)" "di_nlink din1 = di_nlink (ino_at m i)"
    using grows_fields [OF g] .
  moreover have "di_nlink (ino_at m2 j) = 1" if "1 \<le> j" "j < freeinode m" for j
    using din_j [of j] view_i same(2) mk_invD(9) [OF inv] that i by (cases "j = i") simp_all
  moreover have "mk_file m2 (ino_at m2 j) (di_size (ino_at m2 j))" if "1 \<le> j" "j < freeinode m" for j
  proof (cases "j = i")
    case True
    then show ?thesis using file_ok_size [OF f1(3)] view_i m2(1) by simp
  next
    case False
    then show ?thesis using fj(3) [OF that False that] din_j [OF False that(2)] m2(1) by simp
  qed
  moreover have "freeblock m1 = 29 + (\<Sum>j\<in>{1..<freeinode m}. need (di_size (ino_at m2 j)))"
  proof -
    let ?s = "\<lambda>m j. need (di_size (ino_at m j))" and ?I = "{1..<freeinode m}"
    have i_in: "i \<in> ?I" using i by simp
    have "sum (?s m2) (?I - {i}) = sum (?s m) (?I - {i})" using din_j by (intro sum.cong) auto
    then have "sum (?s m2) ?I + ?s m i = sum (?s m) ?I + need n"
      using view_i sum.remove [OF _ i_in, of "?s m2"] sum.remove [OF _ i_in, of "?s m"] by simp
    then show ?thesis using a mk_invD(6) [OF inv] by simp
  qed
  ultimately show "mk_inv m2"
    using w(2) m2 N a mk_invD(5) [OF inv] unfolding mk_inv_def by auto
  show "mk_view m2 = (mk_view m)(i \<mapsto> (di_type (ino_at m i), contents (secs_of m1) din1 n))"
  proof
    fix j
    show "mk_view m2 j = ((mk_view m)(i \<mapsto> (di_type (ino_at m i), contents (secs_of m1) din1 n))) j"
    proof (cases "j = i")
      case True
      then show ?thesis using i m2 view_i f1(4) same(1) by (simp add: mk_view_def)
    next
      case False
      then show ?thesis using m2 din_j [OF False] fj(4) [OF _ _ False] by (auto simp: mk_view_def)
    qed
  qed
qed

lemma iappend_view:
  assumes inv: "mk_inv m" and v: "mk_view m i = Some (ty, c)" and fits: "length c + length p \<le> MAXFILE * 512"
    and room: "freeblock m + need (length c + length p) \<le> mk_size + need (length c)"
  shows "\<exists>m1. iappend i p m = Some m1 \<and> mk_inv m1 \<and> freeinode m1 = freeinode m
    \<and> freeblock m1 + need (length c) = freeblock m + need (length (c @ p))
    \<and> mk_view m1 = (mk_view m)(i \<mapsto> (ty, c @ p)) \<and> img m1 ! 1 = img m ! 1"
proof -
  let ?d = "ino_at m i"
  have i: "1 \<le> i" "i < freeinode m" and ty: "ty = di_type ?d" and c: "c = contents (secs_of m) ?d (di_size ?d)"
    using v by (auto simp: mk_view_def split: if_splits)
  have lc: "length c = di_size ?d" by (simp add: c contents_def)
  obtain m1 din1 where it: "iappend_loop p (di_size ?d) ?d m = Some (di_size ?d + length p, din1, m1)"
    and a: "appends m ?d (di_size ?d) p m1 din1"
    using iappend_loop_appends [OF mk_invD(1) [OF inv] mk_invD(7) [OF inv i]] fits room mk_invD(2) [OF inv] lc
    by fastforce
  have "i2b i < length (img m)" using i2b_bounds [of i] i mk_invD(2,4) [OF inv] by simp
  then have "rinode i m = Some ?d" by (simp add: rinode_def rsect_in ino_at_def)
  then have "iappend i p m = winode i (din1\<lparr>di_size := di_size ?d + length p\<rparr>) m1" using it by (simp add: iappend_def)
  moreover have g: "grows m ?d (di_size ?d) m1 din1 (di_size ?d + length p)"
    and "contents (secs_of m1) din1 (di_size ?d + length p) = c @ p" using a unfolding appends_def c by blast+
  moreover have "freeblock m1 + need (length c) = freeblock m + need (length (c @ p))"
    using g lc unfolding grows_def by simp
  ultimately show ?thesis using mk_inv_replace [OF inv i g] ty by simp
qed

lemma ialloc_view:
  assumes inv: "mk_inv m" and n: "freeinode m < 208" and ty: "0 \<le> ty" "ty < 2 ^ 15"
  shows "\<exists>m1. mk_ialloc ty m = Some (freeinode m, m1) \<and> mk_inv m1 \<and> freeinode m1 = Suc (freeinode m)
    \<and> freeblock m1 = freeblock m
    \<and> mk_view m1 = (mk_view m)(freeinode m \<mapsto> (ty, [])) \<and> img m1 ! 1 = img m ! 1"
proof -
  let ?i = "freeinode m" and ?m0 = "m\<lparr>freeinode := Suc (freeinode m)\<rparr>"
  let ?d = "\<lparr>di_type = ty, di_major = 0, di_minor = 0, di_nlink = 1, di_size = 0,
            di_addrs = replicate 13 (0 :: nat)\<rparr>"
  have dok: "dinode_ok ?d" using ty by (simp add: dinode_ok_def)
  have m0: "img_ok ?m0" using mk_invD(1) [OF inv] by (simp add: img_ok_def)
  define m1 where "m1 = ?m0\<lparr>img := (img ?m0)[i2b ?i := put_dinode (img ?m0 ! i2b ?i) (?i mod IPB * 64) ?d]\<rparr>"
  note w = winode_at [OF m0 n dok, folded m1_def]
  have fb: "freeblock m1 = freeblock m" "usedblocks m1 = usedblocks m" "freeinode m1 = Suc ?i" "length (img m1) = mk_size"
    using mk_invD(2) [OF inv] by (simp_all add: m1_def)
  have din_j: "ino_at m1 j = ino_at m j" if "j < ?i" for j using w(4) [of j] n that by (simp add: ino_at_def)
  have blank: "blk (secs_of m1) ?d k = 0" for k by (simp add: blk_def)
  then have own_i: "own (secs_of m1) ?d = {}" by (auto simp: own_def)
  have ok_i: "mk_file m1 ?d 0" using dok unfolding file_ok_def own_i blank by simp
  have keep: "img m1 ! b = img m ! b" if "b \<in> own (secs_of m) (ino_at m j)" "1 \<le> j" "j < ?i" for j b
    using file_own [OF mk_invD(7) [OF inv that(2,3)]] that(1) w(5) [of b] by auto
  have fj: "own (secs_of m1) (ino_at m1 j) = own (secs_of m) (ino_at m j)" "mk_file m1 (ino_at m1 j) (di_size (ino_at m1 j))"
    "contents (secs_of m1) (ino_at m1 j) (di_size (ino_at m1 j)) = contents (secs_of m) (ino_at m j) (di_size (ino_at m j))"
    if "1 \<le> j" "j < ?i" for j
    using mk_frame [OF mk_invD(7) [OF inv that], where ?m1.0 = m1, OF _ keep] fb(1) din_j [OF that(2)] that by simp_all
  have "mk_inv m1"
    unfolding mk_inv_def
  proof (intro conjI ballI impI)
    show "freeblock m1 = 29 + (\<Sum>i\<in>{1..<freeinode m1}. need (di_size (ino_at m1 i)))"
      using mk_invD(3,6) [OF inv] w(3) din_j unfolding fb by (simp add: need_def)
    fix j assume j: "j \<in> {1..<freeinode m1}"
    then show "mk_file m1 (ino_at m1 j) (di_size (ino_at m1 j))"
      using w(3) ok_i fj(2) [of j] unfolding fb by (cases "j = ?i") auto
    show "di_nlink (ino_at m1 j) = 1"
      using w(3) din_j [of j] mk_invD(9) [OF inv, of j] j unfolding fb by (cases "j = ?i") auto
    fix k assume k: "k \<in> {1..<freeinode m1}" and ne: "j \<noteq> k"
    show "own (secs_of m1) (ino_at m1 j) \<inter> own (secs_of m1) (ino_at m1 k) = {}"
      using w(3) own_i fj(1) [of j] fj(1) [of k] mk_invD(8) [OF inv, of j k] j k ne
      unfolding fb by (cases "j = ?i"; cases "k = ?i") auto
  qed (use w(2) fb n mk_invD(3,5) [OF inv] in auto)
  moreover have "mk_view m1 = (mk_view m)(?i \<mapsto> (ty, []))"
  proof
    fix j show "mk_view m1 j = ((mk_view m)(?i \<mapsto> (ty, []))) j"
      using w(3) fb mk_invD(3) [OF inv] din_j [of j] fj(3) [of j]
      by (cases "j = ?i") (auto simp: mk_view_def contents_def [of _ _ 0])
  qed
  moreover have "mk_ialloc ty m = Some (?i, m1)" using w(1) by (simp add: mk_ialloc_def)
  moreover have "img m1 ! 1 = img m ! 1" using w(5) [of 1] by simp
  ultimately show ?thesis using fb by blast
qed

lemma append_all_view:
  assumes "mk_inv m" "mk_view m i = Some (ty, c)" "length c + length (concat ps) \<le> MAXFILE * 512"
    "freeblock m + need (length c + length (concat ps)) \<le> mk_size + need (length c)"
  shows "\<exists>m1. append_all i ps m = Some m1 \<and> mk_inv m1 \<and> freeinode m1 = freeinode m
    \<and> freeblock m1 + need (length c) = freeblock m + need (length (c @ concat ps))
    \<and> mk_view m1 = (mk_view m)(i \<mapsto> (ty, c @ concat ps)) \<and> img m1 ! 1 = img m ! 1"
  using assms
proof (induction ps arbitrary: m c)
  case Nil
  then show ?case by auto
next
  case (Cons p ps)
  have "need (length c + length p) \<le> need (length c + length (concat (p # ps)))" by (rule need_mono) simp
  then obtain m1 where m1: "iappend i p m = Some m1" "mk_inv m1" "freeinode m1 = freeinode m"
    "freeblock m1 + need (length c) = freeblock m + need (length (c @ p))"
    "mk_view m1 = (mk_view m)(i \<mapsto> (ty, c @ p))" "img m1 ! 1 = img m ! 1"
    using iappend_view [OF Cons.prems(1,2), of p] Cons.prems(3,4) by auto
  moreover have "mk_view m1 i = Some (ty, c @ p)" "length (c @ p) + length (concat ps) \<le> MAXFILE * 512"
    "freeblock m1 + need (length (c @ p) + length (concat ps)) \<le> mk_size + need (length (c @ p))"
    using m1(4,5) Cons.prems(3,4) by (simp_all add: add.assoc)
  moreover obtain m2 where "append_all i ps m1 = Some m2" "mk_inv m2" "freeinode m2 = freeinode m1"
    "freeblock m2 + need (length (c @ p)) = freeblock m1 + need (length ((c @ p) @ concat ps))"
    "mk_view m2 = (mk_view m1)(i \<mapsto> (ty, (c @ p) @ concat ps))" "img m2 ! 1 = img m1 ! 1"
    using Cons.IH [OF m1(2) calculation(7-9)] by blast
  ultimately show ?case by (auto simp: add.assoc)
qed

text \<open>The directory entry of a file, and those of a list of files from inode \<open>i\<close> on.\<close>

definition entry :: "nat \<Rightarrow> byte list \<Rightarrow> byte list" where
  "entry inum name = bytes16 inum @ cname DIRSIZ name @ replicate (DIRSIZ - length (cname DIRSIZ name)) 0"

definition file_name :: "byte list \<Rightarrow> byte list" where
  "file_name name = (if name \<noteq> [] \<and> hd name = 95 then tl name else name)"

primrec dir_entries :: "nat \<Rightarrow> (byte list \<times> byte list list) list \<Rightarrow> byte list" where
  "dir_entries i [] = []"
| "dir_entries i (f # fs) = entry i (file_name (fst f)) @ dir_entries (Suc i) fs"

definition file_fits :: "byte list \<times> byte list list \<Rightarrow> bool" where
  "file_fits f \<longleftrightarrow> 0 \<in> set (fst f) \<and> 47 \<notin> set (fst f) \<and> length (concat (snd f)) \<le> MAXFILE * 512"

lemma length_entry [simp]: "length (entry i name) = 16"
  by (simp add: entry_def cname_def bytes16_def length_takeWhile_le le_trans [OF length_takeWhile_le])

lemma length_dir_entries [simp]: "length (dir_entries i fs) = 16 * length fs"
  by (induction fs arbitrary: i) auto

lemma mk_dirent_entry:
  assumes "0 \<in> set name" "inum < 2 ^ 16"
  shows "mk_dirent inum name = Some (entry inum name)"
  using strncpy_cname [of DIRSIZ "replicate DIRSIZ 0" name] assms by (simp add: mk_dirent_def entry_def readable_def)

lemma file_name_terminated: "0 \<in> set name \<Longrightarrow> 0 \<in> set (file_name name)"
  by (cases name) (auto simp: file_name_def)

lemma add_file_view:
  assumes inv: "mk_inv m" and n: "freeinode m < 208" "1 < freeinode m"
    and root: "mk_view m ROOTINO = Some (ty, c)" and f: "file_fits f" and dir: "length c + 16 \<le> MAXFILE * 512"
    and room: "freeblock m + need (length c + 16) + need (length (concat (snd f))) \<le> mk_size + need (length c)"
  shows "\<exists>m1. add_file ROOTINO f m = Some m1 \<and> mk_inv m1 \<and> freeinode m1 = Suc (freeinode m)
    \<and> freeblock m1 + need (length c) = freeblock m + need (length c + 16) + need (length (concat (snd f)))
    \<and> mk_view m1 = (mk_view m)(ROOTINO \<mapsto> (ty, c @ entry (freeinode m) (file_name (fst f))),
        freeinode m \<mapsto> (T_FILE, concat (snd f))) \<and> img m1 ! 1 = img m ! 1"
proof -
  let ?i = "freeinode m" and ?e = "entry (freeinode m) (file_name (fst f))"
  have nm: "47 \<notin> set (takeWhile (\<lambda>c. c \<noteq> 0) (fst f))" "mk_dirent ?i (file_name (fst f)) = Some ?e"
    using f n file_name_terminated by (auto simp: file_fits_def mk_dirent_entry dest: set_takeWhileD)
  obtain m1 where m1: "mk_ialloc T_FILE m = Some (?i, m1)" "mk_inv m1" "freeinode m1 = Suc ?i" "freeblock m1 = freeblock m"
    "mk_view m1 = (mk_view m)(?i \<mapsto> (T_FILE, []))" "img m1 ! 1 = img m ! 1"
    using ialloc_view [OF inv n(1), of T_FILE] by auto
  have v1: "mk_view m1 ROOTINO = Some (ty, c)" using m1(5) n root by simp
  obtain m2 where m2: "iappend ROOTINO ?e m1 = Some m2" "mk_inv m2" "freeinode m2 = Suc ?i"
    "freeblock m2 + need (length c) = freeblock m + need (length c + 16)"
    "mk_view m2 = (mk_view m1)(ROOTINO \<mapsto> (ty, c @ ?e))" "img m2 ! 1 = img m ! 1"
    using iappend_view [OF m1(2) v1, of ?e] dir room m1 by auto
  have v2: "mk_view m2 ?i = Some (T_FILE, [])" using m2(5) m1(5) n by simp
  have n0: "need 0 = 0" by (simp add: need_def)
  obtain m3 where m3: "append_all ?i (snd f) m2 = Some m3" "mk_inv m3" "freeinode m3 = Suc ?i"
    "freeblock m3 = freeblock m2 + need (length (concat (snd f)))"
    "mk_view m3 = (mk_view m2)(?i \<mapsto> (T_FILE, concat (snd f)))" "img m3 ! 1 = img m ! 1"
    using append_all_view [OF m2(2) v2, of "snd f"] f room m2 n0 by (auto simp: file_fits_def)
  have "add_file ROOTINO f m = Some m3"
    using nm m1(1) m2(1) m3(1) by (simp add: add_file_def case_prod_beta file_name_def Let_def)
  moreover have "mk_view m3 = (mk_view m)(ROOTINO \<mapsto> (ty, c @ ?e), ?i \<mapsto> (T_FILE, concat (snd f)))"
    using n unfolding m3(5) m2(5) m1(5) by (auto simp: fun_eq_iff)
  ultimately show ?thesis using m3 m2(4) by simp
qed

lemma add_files_view:
  assumes "mk_inv m" "freeinode m + length fs \<le> 208" "1 < freeinode m"
    "mk_view m ROOTINO = Some (ty, c)" "\<forall>f \<in> set fs. file_fits f" "length c + 16 * length fs \<le> MAXFILE * 512"
    "freeblock m + need (length c + 16 * length fs) + (\<Sum>f\<leftarrow>fs. need (length (concat (snd f)))) \<le> mk_size + need (length c)"
  shows "\<exists>m1. add_files ROOTINO fs m = Some m1 \<and> mk_inv m1 \<and> freeinode m1 = freeinode m + length fs
    \<and> freeblock m1 + need (length c)
        = freeblock m + need (length c + 16 * length fs) + (\<Sum>f\<leftarrow>fs. need (length (concat (snd f))))
    \<and> mk_view m1 ROOTINO = Some (ty, c @ dir_entries (freeinode m) fs)
    \<and> (\<forall>k < length fs. mk_view m1 (freeinode m + k) = Some (T_FILE, concat (snd (fs ! k))))
    \<and> (\<forall>j. 1 < j \<and> j < freeinode m \<longrightarrow> mk_view m1 j = mk_view m j) \<and> img m1 ! 1 = img m ! 1"
  using assms
proof (induction fs arbitrary: m c)
  case Nil
  then show ?case by auto
next
  case (Cons f fs)
  let ?i = "freeinode m" and ?e = "entry (freeinode m) (file_name (fst f))" and ?l = "length (concat (snd f))"
  have mono: "need (length c + 16) \<le> need (length c + 16 * length (f # fs))" by (rule need_mono) simp
  obtain m1 where m1: "add_file ROOTINO f m = Some m1" "mk_inv m1" "freeinode m1 = Suc ?i"
    "freeblock m1 + need (length c) = freeblock m + need (length c + 16) + need ?l"
    "mk_view m1 = (mk_view m)(ROOTINO \<mapsto> (ty, c @ ?e), ?i \<mapsto> (T_FILE, concat (snd f)))" "img m1 ! 1 = img m ! 1"
    using add_file_view [OF Cons.prems(1) _ Cons.prems(3,4), of f] Cons.prems(2,5-7) mono by auto
  have pre: "freeinode m1 + length fs \<le> 208" "1 < freeinode m1" "mk_view m1 ROOTINO = Some (ty, c @ ?e)"
    "\<forall>f \<in> set fs. file_fits f" "length (c @ ?e) + 16 * length fs \<le> MAXFILE * 512"
    "freeblock m1 + need (length (c @ ?e) + 16 * length fs) + (\<Sum>f\<leftarrow>fs. need (length (concat (snd f))))
      \<le> mk_size + need (length (c @ ?e))"
    using m1(3-5) Cons.prems(2,3,5-7) by (simp_all add: add.assoc)
  obtain m2 where m2: "add_files ROOTINO fs m1 = Some m2" "mk_inv m2" "freeinode m2 = Suc ?i + length fs"
    "freeblock m2 + need (length (c @ ?e))
      = freeblock m1 + need (length (c @ ?e) + 16 * length fs) + (\<Sum>f\<leftarrow>fs. need (length (concat (snd f))))"
    "mk_view m2 ROOTINO = Some (ty, (c @ ?e) @ dir_entries (Suc ?i) fs)"
    "\<forall>k < length fs. mk_view m2 (Suc ?i + k) = Some (T_FILE, concat (snd (fs ! k)))"
    "\<forall>j. 1 < j \<and> j < Suc ?i \<longrightarrow> mk_view m2 j = mk_view m1 j" "img m2 ! 1 = img m1 ! 1"
    using Cons.IH [OF m1(2) pre] unfolding m1(3) by blast
  have "mk_view m2 (?i + k) = Some (T_FILE, concat (snd ((f # fs) ! k)))" if "k < length (f # fs)" for k
    using m2(6,7) m1(5) Cons.prems(3) that by (cases k) auto
  moreover have "mk_view m2 j = mk_view m j" if "1 < j" "j < ?i" for j using m2(7) m1(5) that by simp
  moreover have "freeblock m2 + need (length c)
      = freeblock m + need (length c + 16 * length (f # fs)) + (\<Sum>f\<leftarrow>f # fs. need (length (concat (snd f))))"
    using m1(4) m2(4) by (simp add: add.assoc)
  ultimately show ?case using m1(1,6) m2(1,2,3,5,8) by auto
qed

lemma length_used_bits [simp]: "length (used_bits i n buf) = length buf"
  by (induction i n buf rule: used_bits.induct) auto

lemma bit_used_bits:
  assumes "i + n \<le> 8 * length buf" "b < 8 * length buf"
  shows "bit (used_bits i n buf ! (b div 8)) (b mod 8) \<longleftrightarrow> i \<le> b \<and> b < i + n \<or> bit (buf ! (b div 8)) (b mod 8)"
  using assms
proof (induction i n buf rule: used_bits.induct)
  case (2 i n buf)
  let ?buf = "buf[i div 8 := buf ! (i div 8) OR push_bit (i mod 8) 1]"
  have "i div 8 < length buf" using 2(2) by (simp add: div_less_iff_less_mult)
  then have "bit (?buf ! (b div 8)) (b mod 8) \<longleftrightarrow> b = i \<or> bit (buf ! (b div 8)) (b mod 8)"
  proof (cases "b div 8 = i div 8")
    case True
    then have "b mod 8 = i mod 8 \<longleftrightarrow> b = i" by (metis div_mult_mod_eq)
    moreover have "i mod 8 < 8" "b mod 8 < 8" by simp_all
    ultimately show ?thesis using True \<open>i div 8 < length buf\<close>
      by (auto simp: bit_or_iff bit_exp_iff)
  qed auto
  then show ?case using 2 by auto
qed auto

lemma mkfs_init_inv:
  "mk_inv mkfs_init" "freeinode mkfs_init = 1" "freeblock mkfs_init = 29" "img mkfs_init ! 1 = mk_super"
proof -
  have i: "mkfs_init = \<lparr>img = (replicate 1024 (replicate 512 0))[1 := mk_super],
      freeblock = 29, usedblocks = 29, freeinode = 1\<rparr>"
    by (simp add: mkfs_init_def wsect_def)
  have "length mk_super = 512" by (simp add: mk_super_def put32_def bytes32_def bytes16_def)
  then have "img_ok mkfs_init" by (simp add: i img_ok_def nth_list_update)
  then show "mk_inv mkfs_init" by (simp add: mk_inv_def i)
  show "freeinode mkfs_init = 1" "freeblock mkfs_init = 29" "img mkfs_init ! 1 = mk_super" by (simp_all add: i)
qed

lemma superblock_mk_super:
  "get_superblock mk_super = \<lparr>sb_size = mk_size, sb_nblocks = mk_nblocks, sb_ninodes = mk_ninodes, sb_nlog = mk_nlog\<rparr>"
proof -
  have l: "length (put32 d k v) = length d" if "k + 4 \<le> length d" for d k v
    using that by (simp add: put32_def bytes32_def bytes16_def)
  show ?thesis by (simp add: get_superblock_def mk_super_def get_put_other get32_put32_same l)
qed

text \<open>The last two steps: the size of the root directory is rounded up, the bitmap is written.\<close>

lemma finish_image:
  assumes inv: "mk_inv m" and fi: "1 < freeinode m"
  shows "\<exists>m2. Option.bind (fix_root ROOTINO m) (\<lambda>m5. mk_balloc (usedblocks m5) m5) = Some m2
    \<and> img_ok m2 \<and> length (img m2) = mk_size \<and> freeblock m2 = freeblock m \<and> img m2 ! 1 = img m ! 1
    \<and> (\<forall>b < 4096. bit (img m2 ! 28 ! (b div 8)) (b mod 8) = (b < freeblock m))
    \<and> (\<forall>j\<in>{1..<freeinode m}. rinode j m2 = Some (ino_at m2 j)
         \<and> di_type (ino_at m2 j) = di_type (ino_at m j) \<and> di_nlink (ino_at m2 j) = di_nlink (ino_at m j)
      \<and> di_size (ino_at m2 j) = (if j = 1 then (di_size (ino_at m j) div 512 + 1) * 512 else di_size (ino_at m j))
         \<and> mk_file m2 (ino_at m2 j) (di_size (ino_at m j))
         \<and> contents (secs_of m2) (ino_at m2 j) (di_size (ino_at m j)) = contents (secs_of m) (ino_at m j) (di_size (ino_at m j)))"
proof -
  let ?d = "ino_at m ROOTINO"
  let ?n = "(di_size ?d div 512 + 1) * 512"
  note ok = mk_invD(7) [OF inv] and N = mk_invD(2-5) [OF inv] and img = mk_invD(1) [OF inv]
  have "di_size ?d \<le> MAXFILE * 512" using ok [of ROOTINO] fi unfolding file_ok_def by simp
  then have "di_size ?d div 512 \<le> MAXFILE * 512 div 512" by (rule div_le_mono)
  then have "?n < 2 ^ 32" by simp
  then have dok: "dinode_ok (?d\<lparr>di_size := ?n\<rparr>)"
    using ok [of ROOTINO] fi unfolding file_ok_def dinode_ok_def by simp
  define m1 where "m1 = m\<lparr>img := (img m)[i2b 1 := put_dinode (img m ! i2b 1) (1 mod IPB * 64) (?d\<lparr>di_size := ?n\<rparr>)]\<rparr>"
  have one: "(1 :: nat) < 208" by simp
  note w = winode_at [OF img one dok, folded m1_def]
  define bits where "bits = used_bits 0 (freeblock m) (replicate 512 0)"
  define m2 where "m2 = m1\<lparr>img := (img m1)[28 := bits]\<rparr>"
  have len: "length (img m1) = 1024" "usedblocks m1 = freeblock m" "freeblock m1 = freeblock m" using N by (simp_all add: m1_def)
  have fb: "freeblock m < 4096" using img_okD(3) [OF img] N by simp
  have ri: "rinode j m' = Some (ino_at m' j)" if "j < 208" "length (img m') = 1024" for j m'
    using i2b_bounds [OF that(1)] that(2) by (simp add: rinode_def rsect_in ino_at_def)
  have a1: "Option.bind (fix_root ROOTINO m) (\<lambda>m5. mk_balloc (usedblocks m5) m5) = Some m2"
    using ri [OF one N(1)] w(1) fb len by (simp add: fix_root_def mk_balloc_def wsect_in m2_def bits_def)
  have a2: "img m2 ! 1 = img m ! 1" using w(5) [of 1] by (simp add: m2_def)
  have a3: "bit (img m2 ! 28 ! (b div 8)) (b mod 8) = (b < freeblock m)" if "b < 4096" for b
    using bit_used_bits [of 0 "freeblock m" "replicate 512 0" b] fb len that
    by (simp add: m2_def bits_def div_less_iff_less_mult)
  have at2: "ino_at m2 j = (if j = 1 then ?d\<lparr>di_size := ?n\<rparr> else ino_at m j)" if "j < 208" for j
    using i2b_bounds [OF that] w(3) w(4) [of j] that by (simp add: ino_at_def m2_def)
  have "29 \<le> freeblock m" by (rule img_okD(2) [OF img])
  then have a4: "img_ok m2" using img_okD(1,3,5) [OF w(2)] len
    by (intro img_okI [OF w(2)]) (auto simp: m2_def bits_def nth_list_update intro: img_okD [OF w(2)])
  have a5: "rinode j m2 = Some (ino_at m2 j)
      \<and> di_type (ino_at m2 j) = di_type (ino_at m j) \<and> di_nlink (ino_at m2 j) = di_nlink (ino_at m j)
      \<and> di_size (ino_at m2 j) = (if j = 1 then (di_size (ino_at m j) div 512 + 1) * 512 else di_size (ino_at m j))
      \<and> mk_file m2 (ino_at m2 j) (di_size (ino_at m j))
      \<and> contents (secs_of m2) (ino_at m2 j) (di_size (ino_at m j)) = contents (secs_of m) (ino_at m j) (di_size (ino_at m j))"
    if "j \<in> {1..<freeinode m}" for j
  proof -
    have j: "1 \<le> j" "j < freeinode m" "j < 208" using that N by simp_all
    have "img m2 ! b = img m ! b" if "b \<in> own (secs_of m) (ino_at m j)" for b
      using file_own [OF ok [OF j(1,2)]] that w(5) [of b] by (auto simp: m2_def)
    note fr = mk_frame [OF ok [OF j(1,2)], where ?m1.0 = m2, OF _ this]
    have "freeblock m \<le> freeblock m2" by (simp add: m2_def m1_def)
    note fr = fr [OF this]
    have at: "ino_at m2 j = (ino_at m j)\<lparr>di_size := if j = 1 then (di_size (ino_at m j) div 512 + 1) * 512 else di_size (ino_at m j)\<rparr>"
      using at2 [OF j(3)] by simp
    have "dinode_ok (ino_at m2 j)" using at2 [OF j(3)] dok file_ok_ind(7) [OF ok [OF j(1,2)]] by simp
    then have "mk_file m2 (ino_at m2 j) (di_size (ino_at m j))"
      using fr(3) unfolding at file_ok_def by (simp only: size_irrelevant) simp
    then show ?thesis using ri [OF j(3), of m2] len fr(4) at by (simp add: m2_def)
  qed
  have a6: "length (img m2) = mk_size" "freeblock m2 = freeblock m" using len by (simp_all add: m2_def)
  from a3 a5 show ?thesis using a1 a2 a4 a6 by (intro exI [of _ m2] conjI allI ballI impI) (simp_all only:)
qed

lemma mkfs_root:
  "\<exists>m. Option.bind (mk_ialloc T_DIR mkfs_init) (\<lambda>(root, m1).
       if root \<noteq> ROOTINO then None
       else Option.bind (mk_dirent root [46, 0]) (\<lambda>dot. Option.bind (iappend root dot m1) (\<lambda>m2.
            Option.bind (mk_dirent root [46, 46, 0]) (\<lambda>dotdot. Option.bind (iappend root dotdot m2) (k root)))))
      = k ROOTINO m \<and> mk_inv m \<and> freeinode m = 2 \<and> freeblock m = 30 \<and> img m ! 1 = mk_super
    \<and> mk_view m ROOTINO = Some (T_DIR, entry 1 [46, 0] @ entry 1 [46, 46, 0])"
proof -
  obtain m1 where m1: "mk_ialloc T_DIR mkfs_init = Some (1, m1)" "mk_inv m1" "freeinode m1 = 2" "freeblock m1 = 29"
    "mk_view m1 ROOTINO = Some (T_DIR, [])" "img m1 ! 1 = mk_super"
    using ialloc_view [OF mkfs_init_inv(1), of T_DIR] mkfs_init_inv(2-4) by auto
  have n: "need 0 = 0" "need 16 = 1" "need 32 = 1" by (simp_all add: need_def)
  obtain m2 where m2: "iappend ROOTINO (entry 1 [46, 0]) m1 = Some m2" "mk_inv m2" "freeinode m2 = 2" "freeblock m2 = 30"
    "mk_view m2 ROOTINO = Some (T_DIR, entry 1 [46, 0])" "img m2 ! 1 = mk_super"
    using iappend_view [OF m1(2,5), of "entry 1 [46, 0]"] m1(3,4,6) n by auto
  obtain m3 where m3: "iappend ROOTINO (entry 1 [46, 46, 0]) m2 = Some m3" "mk_inv m3" "freeinode m3 = 2"
    "freeblock m3 = 30" "mk_view m3 ROOTINO = Some (T_DIR, entry 1 [46, 0] @ entry 1 [46, 46, 0])" "img m3 ! 1 = mk_super"
    using iappend_view [OF m2(2,5), of "entry 1 [46, 46, 0]"] m2(3,4,6) n by auto
  have "mk_dirent 1 [46, 0] = Some (entry 1 [46, 0])" "mk_dirent 1 [46, 46, 0] = Some (entry 1 [46, 46, 0])"
    by (simp_all add: mk_dirent_entry)
  then show ?thesis using m1(1) m2(1) m3 by auto
qed

text \<open>The image of a list of files, with all that a kernel relies on.\<close>

lemma mkfs_image:
  assumes "length files \<le> 198" "\<forall>f \<in> set files. file_fits f"
    and F: "F = 29 + need (32 + 16 * length files) + (\<Sum>f\<leftarrow>files. need (length (concat (snd f))))" "F \<le> 1024"
  shows "\<exists>m. mkfs files = Some m \<and> img_ok m \<and> length (img m) = mk_size \<and> freeblock m = F \<and> img m ! 1 = mk_super
    \<and> (\<forall>b < 4096. bit (img m ! 28 ! (b div 8)) (b mod 8) = (b < F))
    \<and> rinode 1 m = Some (ino_at m 1) \<and> di_type (ino_at m 1) = T_DIR \<and> di_nlink (ino_at m 1) = 1
    \<and> di_size (ino_at m 1) = ((32 + 16 * length files) div 512 + 1) * 512 \<and> mk_file m (ino_at m 1) (32 + 16 * length files)
    \<and> contents (secs_of m) (ino_at m 1) (32 + 16 * length files) = entry 1 [46, 0] @ entry 1 [46, 46, 0] @ dir_entries 2 files
    \<and> (\<forall>k < length files. rinode (k + 2) m = Some (ino_at m (k + 2)) \<and> di_type (ino_at m (k + 2)) = T_FILE
         \<and> di_nlink (ino_at m (k + 2)) = 1 \<and> di_size (ino_at m (k + 2)) = length (concat (snd (files ! k)))
         \<and> mk_file m (ino_at m (k + 2)) (length (concat (snd (files ! k))))
         \<and> contents (secs_of m) (ino_at m (k + 2)) (length (concat (snd (files ! k)))) = concat (snd (files ! k)))"
proof -
  let ?c = "entry 1 [46, 0] @ entry 1 [46, 46, 0]" and ?n = "32 + 16 * length files"
  define k where "k = (\<lambda>root m3. Option.bind (add_files root files m3) (\<lambda>m4.
       Option.bind (fix_root root m4) (\<lambda>m5. mk_balloc (usedblocks m5) m5)))"
  obtain m3 where m3: "mkfs files = k ROOTINO m3" "mk_inv m3" "freeinode m3 = 2" "freeblock m3 = 30" "img m3 ! 1 = mk_super"
    "mk_view m3 ROOTINO = Some (T_DIR, ?c)"
    using mkfs_root [of k] unfolding mkfs_def k_def by blast
  have n: "need (length ?c) = 1" by (simp add: need_def)
  obtain m4 where m4: "add_files ROOTINO files m3 = Some m4" "mk_inv m4" "freeinode m4 = 2 + length files" "freeblock m4 = F"
    "mk_view m4 ROOTINO = Some (T_DIR, ?c @ dir_entries 2 files)"
    "\<forall>k < length files. mk_view m4 (2 + k) = Some (T_FILE, concat (snd (files ! k)))" "img m4 ! 1 = mk_super"
    using add_files_view [OF m3(2) _ _ m3(6), of files] assms n m3(3-5) by auto
  have fi: "1 < freeinode m4" using m4(3) by simp
  obtain m where m: "k ROOTINO m3 = Some m" "img_ok m" "length (img m) = mk_size" "freeblock m = F" "img m ! 1 = mk_super"
    "\<forall>b < 4096. bit (img m ! 28 ! (b div 8)) (b mod 8) = (b < F)"
    and ino: "\<And>j. 1 \<le> j \<Longrightarrow> j < 2 + length files \<Longrightarrow> rinode j m = Some (ino_at m j)
      \<and> di_type (ino_at m j) = di_type (ino_at m4 j) \<and> di_nlink (ino_at m j) = di_nlink (ino_at m4 j)
      \<and> di_size (ino_at m j) = (if j = 1 then (di_size (ino_at m4 j) div 512 + 1) * 512 else di_size (ino_at m4 j))
      \<and> mk_file m (ino_at m j) (di_size (ino_at m4 j))
      \<and> contents (secs_of m) (ino_at m j) (di_size (ino_at m4 j)) = contents (secs_of m4) (ino_at m4 j) (di_size (ino_at m4 j))"
    using finish_image [OF m4(2) fi] m4(1,3,4,7) unfolding k_def by auto
  have v: "di_type (ino_at m j) = t \<and> di_nlink (ino_at m j) = 1 \<and> di_size (ino_at m4 j) = length d
      \<and> mk_file m (ino_at m j) (length d) \<and> contents (secs_of m) (ino_at m j) (length d) = d"
    if "mk_view m4 j = Some (t, d)" for j t d
  proof -
    have j: "1 \<le> j" "j < 2 + length files" "t = di_type (ino_at m4 j)" "d = contents (secs_of m4) (ino_at m4 j) (di_size (ino_at m4 j))"
      using that m4(3) by (auto simp: mk_view_def split: if_splits)
    then have "length d = di_size (ino_at m4 j)" by simp
    then show ?thesis using ino [OF j(1,2)] j(2-4) mk_invD(9) [OF m4(2) j(1)] m4(3) by simp
  qed
  have len: "length (?c @ dir_entries 2 files) = ?n" by simp
  note root = v [OF m4(5), unfolded len]
  have "rinode (k + 2) m = Some (ino_at m (k + 2)) \<and> di_type (ino_at m (k + 2)) = T_FILE
       \<and> di_nlink (ino_at m (k + 2)) = 1 \<and> di_size (ino_at m (k + 2)) = length (concat (snd (files ! k)))
       \<and> mk_file m (ino_at m (k + 2)) (length (concat (snd (files ! k))))
       \<and> contents (secs_of m) (ino_at m (k + 2)) (length (concat (snd (files ! k)))) = concat (snd (files ! k))"
    if "k < length files" for k
    using v [OF m4(6) [rule_format, OF that]] ino [of "k + 2"] that by (simp add: add.commute)
  moreover have "di_size (ino_at m 1) = (?n div 512 + 1) * 512" "rinode 1 m = Some (ino_at m 1)"
    using ino [of 1] root by simp_all
  ultimately show ?thesis using m3(1) m root by (intro exI [of _ m]) simp
qed

text \<open>
  C16 \<open>mkfs\<close> builds the file system it is given: if the names are terminated and without a slash, each
  file fits the direct and indirect blocks, and all of them fit the disk, the builder succeeds. The
  superblock then has the geometry, the bitmap marks exactly the sectors in use, the root directory
  holds ``.'', ``..'' and an entry per file, in order, with its name without the leading underscore,
  and inode \<open>k + 2\<close> is a regular file with exactly the bytes of the \<open>k\<close>-th file.
\<close>

theorem mkfs_builds:
  assumes "length files \<le> 198" "\<forall>f \<in> set files. file_fits f"
    and "29 + need (32 + 16 * length files) + (\<Sum>f\<leftarrow>files. need (length (concat (snd f)))) \<le> 1024"
  shows "\<exists>m. mkfs files = Some m
    \<and> get_superblock (img m ! 1) = \<lparr>sb_size = 1024, sb_nblocks = 985, sb_ninodes = 200, sb_nlog = 10\<rparr>
    \<and> (\<forall>b < 4096. bit (img m ! 28 ! (b div 8)) (b mod 8)
         = (b < 29 + need (32 + 16 * length files) + (\<Sum>f\<leftarrow>files. need (length (concat (snd f))))))
    \<and> (\<exists>root. rinode 1 m = Some root \<and> di_type root = T_DIR
         \<and> di_size root = ((32 + 16 * length files) div 512 + 1) * 512
         \<and> contents (secs_of m) root (32 + 16 * length files)
             = entry 1 [46, 0] @ entry 1 [46, 46, 0] @ dir_entries 2 files)
    \<and> (\<forall>k < length files. \<exists>din. rinode (k + 2) m = Some din \<and> di_type din = T_FILE
         \<and> di_size din = length (concat (snd (files ! k)))
         \<and> contents (secs_of m) din (di_size din) = concat (snd (files ! k)))"
proof -
  from mkfs_image [OF assms(1,2) refl assms(3)] obtain m where m: "mkfs files = Some m" "img m ! 1 = mk_super"
    "\<forall>b < 4096. bit (img m ! 28 ! (b div 8)) (b mod 8)
       = (b < 29 + need (32 + 16 * length files) + (\<Sum>f\<leftarrow>files. need (length (concat (snd f)))))"
    "rinode 1 m = Some (ino_at m 1)" "di_type (ino_at m 1) = T_DIR"
    "di_size (ino_at m 1) = ((32 + 16 * length files) div 512 + 1) * 512"
    "contents (secs_of m) (ino_at m 1) (32 + 16 * length files) = entry 1 [46, 0] @ entry 1 [46, 46, 0] @ dir_entries 2 files"
    "\<forall>k < length files. rinode (k + 2) m = Some (ino_at m (k + 2)) \<and> di_type (ino_at m (k + 2)) = T_FILE
       \<and> di_size (ino_at m (k + 2)) = length (concat (snd (files ! k)))
       \<and> contents (secs_of m) (ino_at m (k + 2)) (di_size (ino_at m (k + 2))) = concat (snd (files ! k))" by auto
  then show ?thesis using superblock_mk_super by (intro exI [of _ m]) auto
qed

theorem mkfs_builds_witness:
  "\<exists>m. mkfs [([95, 108, 115, 0], [[127, 69], [76, 70]])] = Some m
     \<and> (\<forall>k < 1. \<exists>din. rinode (k + 2) m = Some din \<and> di_size din = 4 \<and> contents (secs_of m) din (di_size din) = [127, 69, 76, 70])"
  using mkfs_builds [of "[([95, 108, 115, 0], [[127, 69], [76, 70]])]"] by (auto simp: file_fits_def need_def)

end
