(* ===== verification/Inode.thy ===== *)
theory Inode
  imports FileMap
begin

text \<open>
  The content of files in the kernel (\<open>bmap\<close>, \<open>readi\<close> and \<open>writei\<close> of
  \<open>fs.c\<close>): a locked inode stands for a sequence of bytes, seen through the log and the buffer
  cache; \<open>readi\<close> reads it and \<open>writei\<close> replaces a part of it or extends it, allocating the
  blocks it needs, within the blocks one transaction may have.
\<close>

subsection \<open>Allocation\<close>

text \<open>
  The bitmap block (there is one: the disk has at most \<open>BPB\<close> blocks), the data blocks in use, the
  free blocks below \<open>L\<close>, where the log does not begin before \<open>L\<close>, and a well-formed file
  system.
\<close>

abbreviation BM :: "'a log_st_scheme \<Rightarrow> nat" where
  "BM s \<equiv> BB s 0"

definition dblocks :: "'a log_st_scheme \<Rightarrow> nat set" where
  "dblocks s = {b. BM s < b \<and> b < sb_size (sbl s) \<and> bused s b \<and> fvalid s b}"

definition frees :: "nat \<Rightarrow> 'a log_st_scheme \<Rightarrow> nat set" where
  "frees L s = {b. b < L \<and> \<not> bused s b}"

definition fs_ok :: "(nat \<times> nat \<Rightarrow> byte list) \<Rightarrow> nat \<Rightarrow> 'a log_st_scheme \<Rightarrow> bool" where
  "fs_ok D L s \<longleftrightarrow> tinv D s \<and> bitmap_ok s \<and> BM s < L \<and> L \<le> sb_size (sbl s) \<and> sb_size (sbl s) \<le> BPB
     \<and> (\<forall>b \<le> BM s. bused s b) \<and> (\<forall>b < L. fvalid s b)"

lemma BB_BM: "b < BPB \<Longrightarrow> BB s b = BM s"
  by (simp add: BBLOCK_def)

lemma finite_frees [simp]: "finite (frees L s)"
  by (simp add: frees_def)

lemma balloc_ok:
  assumes ok: "fs_ok D L s" and free: "frees L s \<noteq> {}" "fhold s \<inter> frees L s = {}"
    and room: "card (insert (BM s) (lused s)) < lcap s" "Suc (card (fhold s) + card (insert (BM s) (lused s))) < NBUF" "lg_busy s"
  shows "\<exists>r s'. balloc (lg_dev s) s = Inr (r, s') \<and> fs_ok D L s' \<and> BM s < r \<and> r < L \<and> r \<notin> dblocks s
    \<and> dblocks s' = insert r (dblocks s) \<and> r \<in> frees L s \<and> frees L s' = frees L s - {r} \<and> sbl s' = sbl s
    \<and> fview s' r = replicate BSIZE 0 \<and> (\<forall>n. n \<noteq> r \<and> n \<noteq> BM s \<longrightarrow> fview s' n = fview s n)
    \<and> fhold s' = fhold s \<and> lused s' = insert r (insert (BM s) (lused s)) \<and> fframe s' = fframe s
    \<and> (\<forall>m j. fown s m j \<longrightarrow> fown s' m j)"
proof -
  note o = ok [unfolded fs_ok_def]
  let ?n = "sb_size (sbl s)"
  have t: "tinv D s" "lg_busy s" "bitmap_ok s" using o room(3) by blast+
  have sz: "BM s < L" "L \<le> ?n" "?n \<le> BPB" using o by blast+
  have BM: "BB s b = BM s" if "b < ?n" for b using that sz by (intro BB_BM) simp
  obtain b where b: "b < L" "\<not> bused s b" using free(1) by (auto simp: frees_def)
  have "find (\<lambda>b. \<not> bused s b) [0..<?n] \<noteq> None" using b sz by (auto simp: find_None_iff intro!: exI [of _ b])
  then obtain r where f: "find (\<lambda>b. \<not> bused s b) [0..<?n] = Some r" by auto
  then have r: "\<not> bused s r" "r < ?n" by (auto dest: find_SomeD)
  have "r \<le> b"
  proof (rule ccontr)
    assume "\<not> r \<le> b"
    from f obtain i where i: "i < length [0..<?n]" "[0..<?n] ! i = r" "\<forall>j<i. \<not> \<not> bused s ([0..<?n] ! j)"
      by (auto simp: find_Some_iff)
    with b \<open>\<not> r \<le> b\<close> show False by auto
  qed
  then have rL: "r < L" using b by simp
  have rv: "fvalid s r" "BM s < r" "r \<in> frees L s" using o rL r by (auto simp: frees_def not_le [symmetric])
  have rh: "r \<notin> fhold s" using free(2) rv(3) by blast
  have u: "\<forall>b < ?n. bused s (BB s b)" "bused s 1"
    using o BM by (auto simp: BBLOCK_def)
  have len: "length (fview s (BB s r)) = BSIZE" using lb.data_length [OF t(1)] t(3) r(2) by (auto simp: bitmap_ok_def)
  note room' = room(1,2) [folded BM [OF r(2)]]
  from balloc_law [OF t f rv(1) rh room'] obtain s' where s': "balloc (lg_dev s) s = Inr (r, s')" "tinv D s'"
    "fview s' = (fview s)(BB s r := mark_bit (fview s (BB s r)) (r mod BPB), r := replicate BSIZE 0)"
    "fhold s' = fhold s" "lused s' = insert r (insert (BB s r) (lused s))" "fframe s' = fframe s"
    "\<forall>m j. fown s m j \<longrightarrow> fown s' m j" by blast
  note m = bused_marked [OF s'(3) r(1) u len]
  have sb: "sbl s' = sbl s" by (rule m(1) [OF r(2)])
  note g = fframe_geom [OF s'(6)]
  have used: "bused s' b \<longleftrightarrow> b = r \<or> bused s b" if "b < ?n" for b by (rule m(2) [OF that])
  have "bitmap_ok s'" using t(3) g s'(4) sb by (simp add: bitmap_ok_def)
  then have "fs_ok D L s'" using o s'(2) g sb used sz by (auto simp: fs_ok_def)
  moreover have "dblocks s' = insert r (dblocks s)"
    using used sb g rv r by (auto simp: dblocks_def)
  moreover have "frees L s' = frees L s - {r}" using used sz by (auto simp: frees_def)
  moreover have "r \<notin> dblocks s" using r by (simp add: dblocks_def)
  ultimately show ?thesis
    using s' sb rv rL BM [OF r(2)] by (intro exI [of _ r] exI [of _ s']) auto
qed

subsection \<open>Mapping blocks\<close>

text \<open>The part of \<open>bmap\<close> that finds, or enters, a block in the indirect block \<open>y\<close>.\<close>

definition ind_block :: "nat \<Rightarrow> nat \<Rightarrow> nat \<Rightarrow> ('a fs_st_scheme, nat) kern" where
  "ind_block dev y k =
     kbind (bread dev y) (\<lambda>bp.
     kbind (gets (bdata bp)) (\<lambda>d.
     kbind (if get32 d (4 * k) = 0 then
         kbind (balloc dev) (\<lambda>addr.
         kbind (gets (bdata bp)) (\<lambda>d'.
         kbind (set_bdata bp (put32 d' (4 * k) addr)) (\<lambda>_.
         kbind (log_write bp) (\<lambda>_. ret addr))))
       else ret (get32 d (4 * k))) (\<lambda>addr.
     kbind (brelse bp) (\<lambda>_. ret addr))))"

lemma dblocksD: "b \<in> dblocks s \<Longrightarrow> BM s < b \<and> b < sb_size (sbl s) \<and> bused s b \<and> fvalid s b"
  by (simp add: dblocks_def)

lemma fs_okD:
  assumes "fs_ok D L s"
  shows "tinv D s" "b \<le> BM s \<Longrightarrow> bused s b" "bitmap_ok s" "BM s < L" "L \<le> sb_size (sbl s)" "sb_size (sbl s) \<le> BPB" "b < L \<Longrightarrow> fvalid s b"
  using assms unfolding fs_ok_def by blast+

text \<open>States that differ in buffers and the cache of inodes only.\<close>

lemma fs_ok_cong:
  assumes "fs_ok D L s" "tinv D s'" "fview s' = fview s" "fframe s' = fframe s"
    "1 \<notin> fhold s'" "BM s \<notin> fhold s'"
  shows "fs_ok D L s'" "dblocks s' = dblocks s" "frees L s' = frees L s" "sbl s' = sbl s"
proof -
  note g = fframe_geom [OF assms(4)]
  show sb: "sbl s' = sbl s" using assms(3) by (simp add: sbl_def)
  then have u: "bused s' = bused s" using assms(3) by (simp add: bused_def [abs_def])
  show "dblocks s' = dblocks s" "frees L s' = frees L s" using g sb u by (simp_all add: dblocks_def frees_def)
  have "BB s b = BM s" if "b < sb_size (sbl s)" for b using that fs_okD(6) [OF assms(1)] by (intro BB_BM) simp
  then have "fvalid s' (BB s b) \<and> BB s b \<notin> fhold s'" if "b < sb_size (sbl s)" for b
    using fs_okD(3) [OF assms(1)] g(9) assms(6) that unfolding bitmap_ok_def by metis
  then have "bitmap_ok s'"
    using fs_okD(3) [OF assms(1)] g(9) sb assms(5) unfolding bitmap_ok_def by simp
  then show "fs_ok D L s'" using assms(1,2) g sb u by (simp add: fs_ok_def)
qed

text \<open>Writing a block that is not the bitmap.\<close>

lemma fs_ok_write:
  assumes ok: "fs_ok D L s" and t: "tinv D s'" and v: "fview s' = (fview s)(y := d)" and fr: "fframe s' = fframe s"
    and y: "y \<noteq> 1" "y \<noteq> BM s" and h: "fhold s' = {}"
  shows "fs_ok D L s'" "dblocks s' = dblocks s" "frees L s' = frees L s" "sbl s' = sbl s"
proof -
  note g = fframe_geom [OF fr]
  show sb: "sbl s' = sbl s" using v y by (simp add: sbl_def)
  have u: "bused s' x = bused s x" if "x < BPB" for x
    using v sb y BB_BM [OF that, of s] by (simp add: bused_def)
  have n: "BM s < L" "L \<le> sb_size (sbl s)" "sb_size (sbl s) \<le> BPB" by (rule fs_okD(4-6) [OF ok])+
  have "bitmap_ok s'" using fs_okD(3) [OF ok] h g(9) sb by (simp add: bitmap_ok_def)
  then show "fs_ok D L s'" using ok t g(6,9) sb u n unfolding fs_ok_def by simp
  show "dblocks s' = dblocks s" "frees L s' = frees L s" using g(9) sb u n by (auto simp: dblocks_def frees_def)
qed

lemma ind_found:
  assumes ok: "fs_ok D L s" "fhold s = {}" and y: "y \<in> dblocks s" and nz: "get32 (fview s y) (4 * k) \<noteq> 0"
    and room: "card (lused s) < NBUF"
  shows "\<exists>s'. ind_block (lg_dev s) y k s = Inr (get32 (fview s y) (4 * k), s') \<and> fs_ok D L s' \<and> fview s' = fview s
    \<and> fhold s' = {} \<and> lused s' = lused s \<and> fframe s' = fframe s"
proof -
  have "fvalid s y" "y \<notin> fhold s" "card (fhold s) + card (lused s) < NBUF" using dblocksD [OF y] ok(2) room by simp_all
  from lb.rd [OF fs_okD(1) [OF ok(1)] this] obtain b s1 where s1: "bread (lg_dev s) y s = Inr (b, s1)" "tinv D s1"
    "fown s1 y b" "fview s1 = fview s" "fhold s1 = insert y (fhold s)" "lused s1 = lused s" "fframe s1 = fframe s" by blast
  from lb.rel [OF s1(2,3)] obtain s2 where s2: "brelse b s1 = Inr ((), s2)" "tinv D s2" "fview s2 = fview s1"
    "fhold s2 = fhold s1 - {y}" "lused s2 = lused s1" "fframe s2 = fframe s1" by blast
  have "ind_block (lg_dev s) y k s = Inr (get32 (fview s y) (4 * k), s2)"
    using s1(1) s2(1) lb.data [OF s1(2,3)] s1(4) nz by (simp add: ind_block_def ret_def)
  moreover have e: "fview s2 = fview s" "fhold s2 = {}" "lused s2 = lused s" "fframe s2 = fframe s"
    using s1 s2 ok(2) by simp_all
  moreover have "fs_ok D L s2" using e by (intro fs_ok_cong(1) [OF ok(1) s2(2)]) simp_all
  ultimately show ?thesis by blast
qed

lemma ind_entry:
  assumes ok: "fs_ok D L s" "fhold s = {}" and y: "y \<in> dblocks s" and z: "get32 (fview s y) (4 * k) = 0" and k: "k < NINDIRECT"
    and free: "frees L s \<noteq> {}" and room: "Suc (card (insert (BM s) (lused s))) < lcap s" "card (insert (BM s) (lused s)) + 2 < NBUF" "lg_busy s"
  shows "\<exists>r s'. ind_block (lg_dev s) y k s = Inr (r, s') \<and> fs_ok D L s' \<and> BM s < r \<and> r < L \<and> r \<notin> dblocks s \<and> sbl s' = sbl s
    \<and> dblocks s' = insert r (dblocks s) \<and> r \<in> frees L s \<and> frees L s' = frees L s - {r}
    \<and> fview s' y = put32 (fview s y) (4 * k) r \<and> (\<forall>n. n \<noteq> r \<and> n \<noteq> BM s \<and> n \<noteq> y \<longrightarrow> fview s' n = fview s n)
    \<and> fhold s' = {} \<and> lused s' = insert y (insert r (insert (BM s) (lused s))) \<and> fframe s' = fframe s"
proof -
  note yd = dblocksD [OF y]
  have cl: "card (lused s) \<le> card (insert (BM s) (lused s))" by (rule card_insert_le)
  have "fvalid s y" "y \<notin> fhold s" "card (fhold s) + card (lused s) < NBUF" using yd ok(2) room(2) cl by simp_all
  from lb.rd [OF fs_okD(1) [OF ok(1)] this] obtain b s1 where s1: "bread (lg_dev s) y s = Inr (b, s1)" "tinv D s1"
    "fown s1 y b" "fview s1 = fview s" "fhold s1 = insert y (fhold s)" "lused s1 = lused s" "fframe s1 = fframe s" by blast
  have h1: "fhold s1 = {y}" "1 \<notin> fhold s1" "BM s \<notin> fhold s1" using s1(5) ok(2) yd by (auto simp: BBLOCK_def)
  note c1 = fs_ok_cong [OF ok(1) s1(2,4,7) h1(2,3)] and g1 = fframe_geom [OF s1(7)]
  have BM1: "BM s1 = BM s" using c1(4) by simp
  have "fhold s1 \<inter> frees L s1 = {}" using h1(1) yd c1(3) by (auto simp: frees_def)
  then obtain r s2 where s2: "balloc (lg_dev s1) s1 = Inr (r, s2)" "fs_ok D L s2" "BM s1 < r" "r < L" "r \<notin> dblocks s1"
    "dblocks s2 = insert r (dblocks s1)" "r \<in> frees L s1" "frees L s2 = frees L s1 - {r}" "sbl s2 = sbl s1"
    "\<forall>n. n \<noteq> r \<and> n \<noteq> BM s1 \<longrightarrow> fview s2 n = fview s1 n" "fhold s2 = fhold s1"
    "lused s2 = insert r (insert (BM s1) (lused s1))" "fframe s2 = fframe s1" "\<forall>m j. fown s1 m j \<longrightarrow> fown s2 m j"
    using balloc_ok [OF c1(1)] free room c1(3) g1 s1(6) h1(1) BM1 by auto
  have own2: "fown s2 y b" using s2(14) s1(3) by blast
  have yr: "y \<noteq> r" "y \<noteq> BM s" using s2(5) c1(2) y yd by auto
  have v2: "fview s2 y = fview s y" using s2(10) yr BM1 s1(4) by simp
  have "length (fview s y) = BSIZE" using lb.data_length [OF fs_okD(1) [OF ok(1)]] yd by blast
  then have len: "length (put32 (fview s y) (4 * k) r) = BSIZE" using k by (simp add: put32_def bytes32_def bytes16_def)
  note g2 = fframe_geom [OF s2(13)]
  have "card (lused s2) \<le> Suc (card (insert (BM s) (lused s)))"
    using s2(12) s1(6) BM1 card_insert_le_m1 by (simp add: card_insert_if)
  then have "lg_busy s2" "card (lused s2) < lcap s2" "card (fhold s2) + card (lused s2) < NBUF"
    using room g1 g2 s2(11) h1(1) by auto
  from lb.put [OF fs_okD(1) [OF s2(2)] own2 len this] obtain s3 where
    s3: "kbind (set_bdata b (put32 (fview s y) (4 * k) r)) (\<lambda>_. log_write b) s2 = Inr ((), s3)" "tinv D s3"
      "fview s3 = (fview s2)(y := put32 (fview s y) (4 * k) r)" "fhold s3 = fhold s2" "lused s3 = insert y (lused s2)"
      "fframe s3 = fframe s2" "\<forall>m j. fown s2 m j \<longrightarrow> fown s3 m j" by blast
  have own3: "fown s3 y b" using s3(7) own2 by blast
  from lb.rel [OF s3(2) own3] obtain s4 where s4: "brelse b s3 = Inr ((), s4)" "tinv D s4" "fview s4 = fview s3"
    "fhold s4 = fhold s3 - {y}" "lused s4 = lused s3" "fframe s4 = fframe s3" by blast
  have "bdata b s1 = fview s y" "bdata b s2 = fview s y"
    using lb.data [OF s1(2,3)] s1(4) lb.data [OF fs_okD(1) [OF s2(2)] own2] v2 by simp_all
  then have "ind_block (lg_dev s) y k s
      = kbind (kbind (set_bdata b (put32 (fview s y) (4 * k) r)) (\<lambda>_. log_write b)) (\<lambda>_. kbind (brelse b) (\<lambda>_. ret r)) s2"
    using s1(1) z s2(1) g1 by (simp add: ind_block_def kbind_assoc)
  then have run: "ind_block (lg_dev s) y k s = Inr (r, s4)" using s3(1) s4(1) by (simp add: ret_def)
  have v4: "fview s4 = (fview s2)(y := put32 (fview s y) (4 * k) r)" "fhold s4 = {}" "fframe s4 = fframe s2"
    using s3 s4 s2(11) h1(1) by simp_all
  have "y \<noteq> 1" "y \<noteq> BM s2" using s2(9) BM1 yd by (auto simp: BBLOCK_def)
  note w = fs_ok_write [OF s2(2) s4(2) v4(1,3) this v4(2)]
  show ?thesis
    using run w s2 s3 s4 c1 BM1 v4 s1 yr
    by (intro exI [of _ r] exI [of _ s4]) auto
qed

text \<open>The locked inode.\<close>

abbreviation cpy :: "'a fs_st_scheme \<Rightarrow> nat \<Rightarrow> dinode" where
  "cpy s ip \<equiv> i_copy (icache s ! ip)"

abbreviation ind_of :: "'a fs_st_scheme \<Rightarrow> nat \<Rightarrow> nat" where
  "ind_of s ip \<equiv> di_addrs (i_copy (icache s ! ip)) ! NDIRECT"

lemma fs_ok_icache [simp]:
  "fs_ok D L (icache_update f s) = fs_ok D L s" "dblocks (icache_update f s) = dblocks s"
  "frees L (icache_update f s) = frees L s"
  by (simp_all add: fs_ok_def bitmap_ok_def dblocks_def frees_def)

lemma bmap_indirect:
  assumes "NDIRECT \<le> bn" "bn < MAXFILE"
  shows "bmap ip bn s = kbind (if ind_of s ip = 0 then
            kbind (balloc (i_dev (ino s ip))) (\<lambda>addr.
            kbind (upd_copy ip (\<lambda>c. c\<lparr>di_addrs := (di_addrs c)[NDIRECT := addr]\<rparr>)) (\<lambda>_. ret addr))
          else ret (ind_of s ip)) (\<lambda>ind. ind_block (i_dev (ino s ip)) ind (bn - NDIRECT)) s"
proof -
  have "\<not> bn < NDIRECT" "bn - NDIRECT < NINDIRECT" using assms by linarith+
  then show ?thesis unfolding bmap_def ind_block_def Let_def by (simp only: if_True if_False)
qed

text \<open>
  What a step on the locked inode \<open>ip\<close> leaves: the file system stays well formed, the file takes
  exactly the blocks its size needs, and no block of another file, nor any other block but the bitmap,
  changes.
\<close>

definition extends :: "(nat \<times> nat \<Rightarrow> byte list) \<Rightarrow> nat \<Rightarrow> nat \<Rightarrow> 'a fs_st_scheme \<Rightarrow> nat \<Rightarrow> 'a fs_st_scheme \<Rightarrow> nat \<Rightarrow> bool" where
  "extends D L ip s n s1 n1 \<longleftrightarrow> fs_ok D L s1 \<and> fhold s1 = {} \<and> gframe s1 = gframe s \<and> sbl s1 = sbl s
     \<and> file_ok (dblocks s1) (fview s1) (cpy s1 ip) n1
     \<and> dblocks s \<subseteq> dblocks s1 \<and> own (fview s1) (cpy s1 ip) \<subseteq> own (fview s) (cpy s ip) \<union> (dblocks s1 - dblocks s)
     \<and> card (frees L s1) + need n1 = card (frees L s) + need n
     \<and> (\<forall>b. b \<noteq> BM s \<and> b \<notin> own (fview s) (cpy s ip) \<union> (dblocks s1 - dblocks s) \<longrightarrow> fview s1 b = fview s b)
     \<and> icache s1 = (icache s)[ip := (ino s ip)\<lparr>i_copy := cpy s1 ip\<rparr>]
     \<and> (cpy s1 ip)\<lparr>di_addrs := di_addrs (cpy s ip)\<rparr> = cpy s ip
     \<and> (ind_of s ip \<noteq> 0 \<longrightarrow> ind_of s1 ip = ind_of s ip) \<and> n \<le> n1 \<and> (n1 = n \<longrightarrow> cpy s1 ip = cpy s ip)"

text \<open>The blocks of the transaction, with those every step may need.\<close>

definition tset :: "'a fs_st_scheme \<Rightarrow> nat \<Rightarrow> nat set" where
  "tset s ip = lused s \<union> {BM s} \<union> ({ind_of s ip} - {0})"

definition cost :: "'a fs_st_scheme \<Rightarrow> nat \<Rightarrow> nat" where
  "cost s ip = card (tset s ip) + (if ind_of s ip = 0 then 1 else 0)"

definition locked :: "'a fs_st_scheme \<Rightarrow> nat \<Rightarrow> bool" where
  "locked s ip \<longleftrightarrow> ip < NINODE \<and> length (icache s) = NINODE \<and> i_dev (ino s ip) = lg_dev s"

lemma finite_tset [simp]: "finite (tset s ip)"
  by (simp add: tset_def)

lemma cost_bounds: "card (insert (BM s) (lused s)) \<le> cost s ip" "card (lused s) \<le> cost s ip"
proof -
  have "card (insert (BM s) (lused s)) \<le> card (tset s ip)" "card (lused s) \<le> card (tset s ip)"
    by (auto simp: tset_def intro!: card_mono)
  then show "card (insert (BM s) (lused s)) \<le> cost s ip" "card (lused s) \<le> cost s ip" by (simp_all add: cost_def)
qed

lemma bmap_old:
  assumes ok: "fs_ok D L s" "fhold s = {}" and lk: "locked s ip" and f: "file_ok (dblocks s) (fview s) (cpy s ip) n"
    and k: "k < MAXFILE" "k * 512 < n" and room: "cost s ip < NBUF"
  shows "\<exists>s1. bmap ip k s = Inr (blk (fview s) (cpy s ip) k, s1) \<and> fs_ok D L s1 \<and> fview s1 = fview s \<and> fhold s1 = {}
    \<and> lused s1 = lused s \<and> fframe s1 = fframe s"
proof (cases "k < NDIRECT")
  case True
  then show ?thesis using file_okD(3) [OF f k] ok by (simp add: bmap_def blk_def)
next
  case False
  then have n: "NDIRECT * 512 < n" using k by simp
  note y = file_ok_ind(2,3) [OF f n]
  have b: "blk (fview s) (cpy s ip) k = get32 (fview s (ind_of s ip)) (4 * (k - NDIRECT))" using False y(2) by (simp add: blk_def)
  have c: "card (lused s) < NBUF" using cost_bounds(2) [of s ip] room by simp
  have "bmap ip k s = ind_block (lg_dev s) (ind_of s ip) (k - NDIRECT) s"
    using False k y(2) lk by (simp add: bmap_indirect locked_def)
  then show ?thesis using ind_found [OF ok y(1) _ c, of "k - NDIRECT"] file_okD(3) [OF f k] b by simp
qed

lemma bmap_new_direct:
  assumes ok: "fs_ok D L s" "fhold s = {}" and lk: "locked s ip" and f: "file_ok (dblocks s) (fview s) (cpy s ip) (k * 512)"
    and k: "k < NDIRECT" and free: "frees L s \<noteq> {}" and room: "cost s ip < lcap s" "cost s ip + 1 < NBUF" "lg_busy s"
  shows "\<exists>s1. bmap ip k s = Inr (blk (fview s1) (cpy s1 ip) k, s1) \<and> extends D L ip s (k * 512) s1 (k * 512 + 1)
    \<and> contents (fview s1) (cpy s1 ip) (k * 512) = contents (fview s) (cpy s ip) (k * 512)
    \<and> lused s1 \<subseteq> insert (blk (fview s1) (cpy s1 ip) k) (tset s ip)"
proof -
  have km: "k < MAXFILE" "k \<noteq> NDIRECT" using k by simp_all
  have len: "length (di_addrs (cpy s ip)) = 13" and z: "di_addrs (cpy s ip) ! k = 0" and ind: "ind_of s ip = 0"
    using file_okD(6) [OF f km(1)] file_ok_ind(4,5) [OF f] k by (simp_all add: blk_def)
  have ipl: "ip < length (icache s)" "i_dev (ino s ip) = lg_dev s" using lk by (simp_all add: locked_def)
  obtain r s1 where s1: "balloc (lg_dev s) s = Inr (r, s1)" "fs_ok D L s1" "BM s < r" "r < L" "r \<notin> dblocks s"
    "dblocks s1 = insert r (dblocks s)" "r \<in> frees L s" "frees L s1 = frees L s - {r}" "sbl s1 = sbl s"
    "\<forall>n. n \<noteq> r \<and> n \<noteq> BM s \<longrightarrow> fview s1 n = fview s n" "fhold s1 = fhold s"
    "lused s1 = insert r (insert (BM s) (lused s))" "fframe s1 = fframe s"
    using balloc_ok [OF ok(1) free] ok(2) room cost_bounds(1) [of s ip] by auto
  let ?c1 = "(cpy s ip)\<lparr>di_addrs := (di_addrs (cpy s ip))[k := r]\<rparr>"
  define s2 where "s2 = s1\<lparr>icache := (icache s1)[ip := (icache s1 ! ip)\<lparr>i_copy := ?c1\<rparr>]\<rparr>"
  note ic = fframe_fsD(1) [OF s1(13)]
  have c2: "cpy s2 ip = ?c1" using ipl ic by (simp add: s2_def)
  have run: "bmap ip k s = Inr (r, s2)"
    using k z ipl s1(1) ic by (simp add: bmap_def Let_def upd_copy_def upd_ino_def s2_def ret_def)
  have blk1: "blk (fview s1) ?c1 j = (if j = k then r else blk (fview s) (cpy s ip) j)" for j
    by (rule blk_direct [OF k len ind])
  have r32: "r < 2 ^ 32" using fs_okD(7) [OF ok(1) s1(4)] by (simp add: fvalid_def)
  have r0: "r \<noteq> 0" using s1(3) by simp
  have "di_addrs ?c1 ! NDIRECT = ind_of s ip" using k by simp
  note ext = file_ok_extend [OF f km(1) dinode_ok_addr [OF file_ok_ind(7) [OF f] r32] blk1 r0, of "dblocks s1",
      unfolded if_not_P [OF km(2)], OF _ _ this]
  have fo: "file_ok (dblocks s1) (fview s1) ?c1 (k * 512 + 1)"
    "own (fview s1) ?c1 \<subseteq> own (fview s) (cpy s ip) \<union> (dblocks s1 - dblocks s)"
    using ext s1(5,6) by auto
  have keep: "fview s1 b = fview s b" if "b \<noteq> BM s" "b \<notin> dblocks s1 - dblocks s" for b using that s1(5,6,10) by auto
  have same: "fview s1 b = fview s b" if "b \<in> own (fview s) (cpy s ip)" for b
  proof (rule keep)
    have "b \<in> dblocks s" using that file_own [OF f] by blast
    then show "b \<noteq> BM s" "b \<notin> dblocks s1 - dblocks s" by (auto simp: dblocks_def)
  qed
  have "contents (fview s1) ?c1 (k * 512) = contents (fview s) (cpy s ip) (k * 512)"
  proof (rule contents_cong)
    fix j assume j: "j * 512 < k * 512"
    then have "j < MAXFILE" "j \<noteq> k" using km by simp_all
    then show "blk (fview s1) ?c1 j = blk (fview s) (cpy s ip) j
        \<and> fview s1 (blk (fview s) (cpy s ip) j) = fview s (blk (fview s) (cpy s ip) j)"
      using same file_okD(1) [OF f _ j] blk1 by simp
  qed
  moreover have "card (frees L s) = Suc (card (frees L s1))" using s1(7,8) card_Suc_Diff1 [OF finite_frees s1(7)] by simp
  then have "extends D L ip s (k * 512) s2 (k * 512 + 1)"
    using fo keep s1(2,6,8,9,11) ok(2) c2 ic ind need_Suc(1) [OF km(2)] gframe_fframe [OF s1(13)]
    unfolding extends_def by (auto simp: s2_def)
  moreover have "lused s1 \<subseteq> insert r (tset s ip)" using s1(12) by (auto simp: tset_def)
  ultimately show ?thesis using run c2 blk1 [of k] by (intro exI [of _ s2]) (simp add: s2_def)
qed

text \<open>The first part of \<open>bmap\<close> beyond the direct blocks: the file has an indirect block.\<close>

lemma ind_stage:
  assumes ok: "fs_ok D L s" "fhold s = {}" and lk: "locked s ip" and f: "file_ok (dblocks s) (fview s) (cpy s ip) (k * 512)"
    and k: "NDIRECT \<le> k" and free: "k = NDIRECT \<longrightarrow> frees L s \<noteq> {}" and room: "cost s ip < lcap s" "cost s ip + 1 < NBUF" "lg_busy s"
  shows "\<exists>y s1. (if ind_of s ip = 0 then
            kbind (balloc (i_dev (ino s ip))) (\<lambda>addr.
            kbind (upd_copy ip (\<lambda>c. c\<lparr>di_addrs := (di_addrs c)[NDIRECT := addr]\<rparr>)) (\<lambda>_. ret addr))
          else ret (ind_of s ip)) s = Inr (y, s1)
    \<and> fs_ok D L s1 \<and> fhold s1 = {} \<and> gframe s1 = gframe s \<and> sbl s1 = sbl s \<and> y \<in> dblocks s1
    \<and> (if k = NDIRECT then y \<notin> dblocks s \<and> fview s1 y = replicate 512 0 else y = ind_of s ip)
    \<and> dblocks s1 = insert y (dblocks s) \<and> card (frees L s1) + (if k = NDIRECT then 1 else 0) = card (frees L s)
    \<and> (\<forall>b. b \<noteq> BM s \<and> b \<notin> dblocks s1 - dblocks s \<longrightarrow> fview s1 b = fview s b)
    \<and> icache s1 = (icache s)[ip := (ino s ip)\<lparr>i_copy := (cpy s ip)\<lparr>di_addrs := (di_addrs (cpy s ip))[NDIRECT := y]\<rparr>\<rparr>]
    \<and> insert (BM s) (lused s1) \<subseteq> insert y (tset s ip)"
proof (cases "k = NDIRECT")
  case True
  have ind: "ind_of s ip = 0" using file_ok_ind(4) [OF f] True by simp
  have ipl: "ip < length (icache s)" "i_dev (ino s ip) = lg_dev s" using lk by (simp_all add: locked_def)
  obtain r s1 where s1: "balloc (lg_dev s) s = Inr (r, s1)" "fs_ok D L s1" "r \<notin> dblocks s"
    "dblocks s1 = insert r (dblocks s)" "r \<in> frees L s" "frees L s1 = frees L s - {r}" "sbl s1 = sbl s"
    "fview s1 r = replicate BSIZE 0" "\<forall>n. n \<noteq> r \<and> n \<noteq> BM s \<longrightarrow> fview s1 n = fview s n" "fhold s1 = fhold s"
    "lused s1 = insert r (insert (BM s) (lused s))" "fframe s1 = fframe s"
    using balloc_ok [OF ok(1) mp [OF free True]] ok(2) room cost_bounds(1) [of s ip] by auto
  note ic = fframe_fsD(1) [OF s1(12)]
  let ?c = "(cpy s ip)\<lparr>di_addrs := (di_addrs (cpy s ip))[NDIRECT := r]\<rparr>"
  let ?s2 = "s1\<lparr>icache := (icache s1)[ip := (icache s1 ! ip)\<lparr>i_copy := ?c\<rparr>]\<rparr>"
  have c: "card (frees L s1) + 1 = card (frees L s)" using s1(6) card_Suc_Diff1 [OF finite_frees s1(5)] by simp
  have "kbind (balloc (i_dev (ino s ip))) (\<lambda>addr.
      kbind (upd_copy ip (\<lambda>c. c\<lparr>di_addrs := (di_addrs c)[NDIRECT := addr]\<rparr>)) (\<lambda>_. ret addr)) s = Inr (r, ?s2)"
    using ipl s1(1) ic by (simp add: upd_copy_def upd_ino_def ret_def)
  moreover have "gframe s1 = gframe s" by (rule gframe_fframe [OF s1(12)])
  moreover have "\<forall>b. b \<noteq> BM s \<and> b \<notin> dblocks s1 - dblocks s \<longrightarrow> fview s1 b = fview s b" using s1(3,4,9) by auto
  moreover have "insert (BM s) (lused s1) \<subseteq> insert r (tset s ip)" using s1(11) by (auto simp: tset_def)
  ultimately show ?thesis
    using True ind s1(2-4,7,8,10) c ic ok(2) by (intro exI [of _ r] exI [of _ ?s2]) simp
next
  case False
  then have n: "NDIRECT * 512 < k * 512" using k by simp
  note y = file_ok_ind(2,3) [OF f n]
  have "(icache s)[ip := (ino s ip)\<lparr>i_copy := (cpy s ip)\<lparr>di_addrs := (di_addrs (cpy s ip))[NDIRECT := ind_of s ip]\<rparr>\<rparr>] = icache s"
    by simp
  moreover have "insert (BM s) (lused s) \<subseteq> insert (ind_of s ip) (tset s ip)" by (auto simp: tset_def)
  ultimately show ?thesis
    using False y ok by (intro exI [of _ "ind_of s ip"] exI [of _ s]) (auto simp: ret_def)
qed

lemma bmap_new_indirect:
  assumes ok: "fs_ok D L s" "fhold s = {}" and lk: "locked s ip" and f: "file_ok (dblocks s) (fview s) (cpy s ip) (k * 512)"
    and k: "NDIRECT \<le> k" "k < MAXFILE" and free: "need (k * 512 + 1) \<le> card (frees L s) + need (k * 512)"
    and room: "cost s ip + 1 < lcap s" "cost s ip + 2 < NBUF" "lg_busy s"
  shows "\<exists>s1. bmap ip k s = Inr (blk (fview s1) (cpy s1 ip) k, s1) \<and> extends D L ip s (k * 512) s1 (k * 512 + 1)
    \<and> contents (fview s1) (cpy s1 ip) (k * 512) = contents (fview s) (cpy s ip) (k * 512)
    \<and> lused s1 \<subseteq> insert (blk (fview s1) (cpy s1 ip) k) (tset s ip \<union> ({ind_of s1 ip} - {0}))"
proof -
  have nf: "(if k = NDIRECT then 2 else 1) \<le> card (frees L s)"
    using free need_Suc by (cases "k = NDIRECT") auto
  have fr1: "k = NDIRECT \<longrightarrow> frees L s \<noteq> {}" using nf by auto
  have rm: "cost s ip < lcap s" "cost s ip + 1 < NBUF" "lg_busy s" using room by simp_all
  have ipl: "ip < length (icache s)" "i_dev (ino s ip) = lg_dev s" using lk by (simp_all add: locked_def)
  obtain y s1 where st: "(if ind_of s ip = 0 then
            kbind (balloc (i_dev (ino s ip))) (\<lambda>addr.
            kbind (upd_copy ip (\<lambda>c. c\<lparr>di_addrs := (di_addrs c)[NDIRECT := addr]\<rparr>)) (\<lambda>_. ret addr))
          else ret (ind_of s ip)) s = Inr (y, s1)"
    and s1: "fs_ok D L s1" "fhold s1 = {}" "gframe s1 = gframe s" "sbl s1 = sbl s" "y \<in> dblocks s1"
      "if k = NDIRECT then y \<notin> dblocks s \<and> fview s1 y = replicate 512 0 else y = ind_of s ip"
      "dblocks s1 = insert y (dblocks s)" "card (frees L s1) + (if k = NDIRECT then 1 else 0) = card (frees L s)"
      "\<forall>b. b \<noteq> BM s \<and> b \<notin> dblocks s1 - dblocks s \<longrightarrow> fview s1 b = fview s b"
      "icache s1 = (icache s)[ip := (ino s ip)\<lparr>i_copy := (cpy s ip)\<lparr>di_addrs := (di_addrs (cpy s ip))[NDIRECT := y]\<rparr>\<rparr>]"
      "insert (BM s) (lused s1) \<subseteq> insert y (tset s ip)"
    using ind_stage [OF ok lk f k(1) fr1 rm] by (elim exE conjE) (rule that; assumption)
  let ?c = "cpy s ip" and ?c1 = "(cpy s ip)\<lparr>di_addrs := (di_addrs (cpy s ip))[NDIRECT := y]\<rparr>"
  have same1: "fview s1 b = fview s b" if "b \<in> own (fview s) ?c" for b
  proof -
    have "b \<in> dblocks s" using that file_own [OF f] by blast
    then show ?thesis using s1(9) by (auto simp: dblocks_def)
  qed
  note fr = file_frame [OF f file_own [OF f] same1]
  have yz: "y \<noteq> 0" using dblocksD [OF s1(5)] by simp
  have yb: "if k = NDIRECT then y \<noteq> 0 \<and> fview s1 y = replicate 512 0 else y = di_addrs ?c ! NDIRECT"
    using s1(6) yz by simp
  have z: "get32 (fview s1 y) (4 * (k - NDIRECT)) = 0"
    using get32_ind [OF fr(3) k(1) k yb] file_okD(6) [OF fr(3) k(2)] by simp
  have BM1: "BM s1 = BM s" and dev1: "lg_dev s1 = lg_dev s" and cap1: "lcap s1 = lcap s" "lg_busy s1 = lg_busy s"
    using s1(4) gframeD [OF s1(3)] by simp_all
  have cst: "card (insert (BM s1) (lused s1)) \<le> cost s ip"
  proof (cases "k = NDIRECT")
    case True
    then have "ind_of s ip = 0" using file_ok_ind(4) [OF f] by simp
    moreover have "card (insert (BM s) (lused s1)) \<le> card (insert y (tset s ip))"
      by (rule card_mono [OF _ s1(11)]) simp
    ultimately show ?thesis using BM1 card_insert_le_m1 [of "Suc (card (tset s ip))" "tset s ip" y]
      by (simp add: cost_def card_insert_if split: if_splits)
  next
    case False
    then have "y \<in> tset s ip" using s1(6) yz by (simp add: tset_def)
    then have "card (insert (BM s) (lused s1)) \<le> card (tset s ip)"
      using s1(11) by (intro card_mono) auto
    then show ?thesis using BM1 by (simp add: cost_def)
  qed
  have fr2: "frees L s1 \<noteq> {}" using nf s1(8) by (auto split: if_splits)
  have kn: "k - NDIRECT < NINDIRECT" using k by simp
  obtain r s2 where s2: "ind_block (lg_dev s1) y (k - NDIRECT) s1 = Inr (r, s2)" "fs_ok D L s2" "BM s1 < r" "r < L"
      "r \<notin> dblocks s1" "sbl s2 = sbl s1" "dblocks s2 = insert r (dblocks s1)" "r \<in> frees L s1" "frees L s2 = frees L s1 - {r}"
      "fview s2 y = put32 (fview s1 y) (4 * (k - NDIRECT)) r"
      "\<forall>n. n \<noteq> r \<and> n \<noteq> BM s1 \<and> n \<noteq> y \<longrightarrow> fview s2 n = fview s1 n"
      "fhold s2 = {}" "lused s2 = insert y (insert r (insert (BM s1) (lused s1)))" "fframe s2 = fframe s1"
    using ind_entry [OF s1(1,2,5) z kn fr2] cst room cap1 by auto
  have ic2: "icache s2 = icache s1" by (rule fframe_fsD(1) [OF s2(14)])
  have c2: "cpy s2 ip = ?c1" using ic2 s1(10) ipl by simp
  have ly: "length (fview s1 y) = 512" using lb.data_length [OF fs_okD(1) [OF s1(1)]] dblocksD [OF s1(5)] by blast
  have r32: "r < 2 ^ 32" and y32: "y < 2 ^ 32"
    using fs_okD(7) [OF s1(1) s2(4)] dblocksD [OF s1(5)] by (simp_all add: fvalid_def)
  have blk1: "blk (fview s2) ?c1 j = (if j = k then r else blk (fview s) ?c j)" if "j < MAXFILE" for j
    using blk_indirect [where V = "fview s1" and ?V1.0 = "fview s2" and y = y, OF fr(3) k yb ly r32 that s2(10)] fr(1) by simp
  have bm: "dblocks s1 \<subseteq> dblocks s2" "dblocks s \<subseteq> dblocks s2" using s1(7) s2(7) by auto
  have rx: "r \<noteq> 0" "r \<in> dblocks s2 - dblocks s" using s2(3,5,7) s1(7) by auto
  have len: "length (di_addrs ?c) = 13" by (rule file_ok_ind(5) [OF f])
  have ind1: "di_addrs ?c1 ! NDIRECT = y" using len by simp
  have ind: "if k = NDIRECT then di_addrs ?c1 ! NDIRECT \<in> dblocks s2 - dblocks s - {r, 0} else di_addrs ?c1 ! NDIRECT = ind_of s ip"
    unfolding ind1 using s1(5,6) s2(5) bm(1) yz by (cases "k = NDIRECT") auto
  note ext = file_ok_extend [OF f k(2) dinode_ok_addr [OF file_ok_ind(7) [OF f] y32] blk1 rx bm(2) ind]
  have yo: "y \<in> own (fview s) ?c \<union> (dblocks s2 - dblocks s)"
    using s1(5,6) bm(1) yz by (cases "k = NDIRECT") (auto simp: own_def)
  have keep: "fview s2 b = fview s b" if "b \<noteq> BM s" "b \<notin> own (fview s) ?c \<union> (dblocks s2 - dblocks s)" for b
  proof -
    have "b \<noteq> r" "b \<noteq> y" "b \<notin> dblocks s1 - dblocks s" using that rx(2) yo s2(7) by auto
    then show ?thesis using s2(11) s1(9) that(1) BM1 by simp
  qed
  have cont: "contents (fview s2) ?c1 (k * 512) = contents (fview s) ?c (k * 512)"
  proof (rule contents_cong)
    fix j assume j: "j * 512 < k * 512"
    then have jm: "j < MAXFILE" "j \<noteq> k" using k by simp_all
    let ?b = "blk (fview s) ?c j"
    have b: "?b \<in> dblocks s" "?b \<in> own (fview s) ?c" "?b \<noteq> ind_of s ip" using file_okD(1,2,5) [OF f jm(1) j] by auto
    then have "?b \<noteq> r" "?b \<noteq> BM s1" "?b \<noteq> y"
      using rx(2) s1(6) BM1 by (auto simp: dblocks_def split: if_splits)
    then show "blk (fview s2) ?c1 j = ?b \<and> fview s2 ?b = fview s ?b"
      using blk1 [OF jm(1)] jm(2) s2(11) same1 [OF b(2)] by simp
  qed
  have "card (frees L s2) + need (k * 512 + 1) = card (frees L s) + need (k * 512)"
  proof -
    have "card (frees L s1) = Suc (card (frees L s2))" using s2(9) card_Suc_Diff1 [OF finite_frees s2(8)] by simp
    then show ?thesis using s1(8) need_Suc by (cases "k = NDIRECT") auto
  qed
  moreover have "ind_of s ip \<noteq> 0 \<longrightarrow> y = ind_of s ip"
    using s1(6) file_ok_ind(4) [OF f] by (cases "k = NDIRECT") auto
  ultimately have "extends D L ip s (k * 512) s2 (k * 512 + 1)"
    using ext keep s2(2,6,12) s1(3,4,10) c2 ic2 ind1 bm(2) gframe_fframe [OF s2(14)]
    unfolding extends_def by auto
  moreover have "lused s2 \<subseteq> insert r (tset s ip \<union> ({y} - {0}))" using yz s2(13) s1(11) BM1 by (auto simp: tset_def)
  moreover have "bmap ip k s = Inr (r, s2)" using st s2(1) ipl dev1 by (simp add: bmap_indirect [OF k])
  ultimately show ?thesis using cont c2 blk1 [OF k(2)] ind1 by (intro exI [of _ s2]) simp
qed

lemma extends_same:
  assumes "fs_ok D L s" "file_ok (dblocks s) (fview s) (cpy s ip) n" "fs_ok D L s1" "fview s1 = fview s" "fhold s1 = {}"
    "fframe s1 = fframe s"
  shows "extends D L ip s n s1 n" "cpy s1 ip = cpy s ip" "dblocks s1 = dblocks s"
proof -
  have "1 \<notin> fhold s1" "BM s \<notin> fhold s1" using assms(5) by simp_all
  note c = fs_ok_cong [OF assms(1) fs_okD(1) [OF assms(3)] assms(4,6) this]
  have ic: "icache s1 = icache s" by (rule fframe_fsD(1) [OF assms(6)])
  then show "cpy s1 ip = cpy s ip" by simp
  show "dblocks s1 = dblocks s" by (rule c(2))
  show "extends D L ip s n s1 n"
    using assms(2-5) c(2-4) ic gframe_fframe [OF assms(6)] unfolding extends_def by simp
qed

lemma extends_trans:
  assumes a: "extends D L ip s n s1 n1" and b: "extends D L ip s1 n1 s2 n2"
  shows "extends D L ip s n s2 n2"
proof -
  note a' = a [unfolded extends_def] and b' = b [unfolded extends_def]
  have sb: "sbl s1 = sbl s" using a' by blast
  have sub: "dblocks s \<subseteq> dblocks s1" "dblocks s1 \<subseteq> dblocks s2"
    "own (fview s1) (cpy s1 ip) \<subseteq> own (fview s) (cpy s ip) \<union> (dblocks s1 - dblocks s)"
    "own (fview s2) (cpy s2 ip) \<subseteq> own (fview s1) (cpy s1 ip) \<union> (dblocks s2 - dblocks s1)" using a' b' by blast+
  have "fview s2 b = fview s b" if "b \<noteq> BM s" "b \<notin> own (fview s) (cpy s ip) \<union> (dblocks s2 - dblocks s)" for b
  proof -
    have "b \<notin> own (fview s1) (cpy s1 ip) \<union> (dblocks s2 - dblocks s1)" "b \<notin> own (fview s) (cpy s ip) \<union> (dblocks s1 - dblocks s)"
      using sub that(2) by blast+
    then show ?thesis using a' b' that(1) sb by simp
  qed
  moreover have "own (fview s2) (cpy s2 ip) \<subseteq> own (fview s) (cpy s ip) \<union> (dblocks s2 - dblocks s)" using sub by blast
  moreover have "(cpy s2 ip)\<lparr>di_addrs := di_addrs (cpy s ip)\<rparr> = cpy s ip"
  proof -
    have "(cpy s2 ip)\<lparr>di_addrs := di_addrs (cpy s ip)\<rparr>
        = (cpy s2 ip)\<lparr>di_addrs := di_addrs (cpy s1 ip), di_addrs := di_addrs (cpy s ip)\<rparr>" by simp
    also have "\<dots> = (cpy s1 ip)\<lparr>di_addrs := di_addrs (cpy s ip)\<rparr>" using b' by simp
    finally show ?thesis using a' by simp
  qed
  moreover have "icache s2 = (icache s)[ip := (ino s ip)\<lparr>i_copy := cpy s2 ip\<rparr>]"
  proof -
    define c1 c2 where "c1 = cpy s1 ip" and "c2 = cpy s2 ip"
    have "icache s1 = (icache s)[ip := (ino s ip)\<lparr>i_copy := c1\<rparr>]" "icache s2 = (icache s1)[ip := (ino s1 ip)\<lparr>i_copy := c2\<rparr>]"
      using a' b' unfolding c1_def c2_def by blast+
    then have "icache s2 = (icache s)[ip := (ino s ip)\<lparr>i_copy := c2\<rparr>]"
      by (cases "ip < length (icache s)") (simp_all add: list_update_beyond)
    then show ?thesis by (simp only: c2_def)
  qed
  moreover have "card (frees L s2) + need n2 = card (frees L s) + need n" using a' b' by simp
  moreover have "dblocks s \<subseteq> dblocks s2" using sub by blast
  moreover have "n \<le> n2 \<and> (n2 = n \<longrightarrow> cpy s2 ip = cpy s ip)"
  proof -
    have "n \<le> n1" "n1 \<le> n2" "n1 = n \<longrightarrow> cpy s1 ip = cpy s ip" "n2 = n1 \<longrightarrow> cpy s2 ip = cpy s1 ip" using a' b' by blast+
    then show ?thesis by auto
  qed
  ultimately show ?thesis using a' b' sb unfolding extends_def by simp
qed

lemma bmap_law:
  assumes ok: "fs_ok D L s" "fhold s = {}" and lk: "locked s ip" and f: "file_ok (dblocks s) (fview s) (cpy s ip) n"
    and k: "k < MAXFILE" "k * 512 \<le> n" and free: "need (max n (k * 512 + 1)) \<le> card (frees L s) + need n"
    and room: "cost s ip + 1 < lcap s" "cost s ip + 2 < NBUF" "lg_busy s"
  shows "\<exists>s1. bmap ip k s = Inr (blk (fview s1) (cpy s1 ip) k, s1) \<and> extends D L ip s n s1 (max n (k * 512 + 1))
    \<and> contents (fview s1) (cpy s1 ip) n = contents (fview s) (cpy s ip) n
    \<and> lused s1 \<subseteq> insert (blk (fview s1) (cpy s1 ip) k) (tset s ip \<union> ({ind_of s1 ip} - {0}))"
proof (cases "k * 512 < n")
  case True
  then have mx: "max n (k * 512 + 1) = n" by simp
  have "cost s ip < NBUF" using room by simp
  from bmap_old [OF ok lk f k(1) True this] obtain s1 where s1: "bmap ip k s = Inr (blk (fview s) (cpy s ip) k, s1)"
    "fs_ok D L s1" "fview s1 = fview s" "fhold s1 = {}" "lused s1 = lused s" "fframe s1 = fframe s" by blast
  note e = extends_same [OF ok(1) f s1(2,3,4,6)]
  show ?thesis unfolding mx using s1 e by (intro exI [of _ s1]) (auto simp: tset_def)
next
  case False
  then have n: "n = k * 512" using k by simp
  then have mx: "max n (k * 512 + 1) = k * 512 + 1" by simp
  note f' = f [unfolded n] and free' = free [unfolded mx, unfolded n]
  show ?thesis
  proof (cases "k < NDIRECT")
    case True
    then have "frees L s \<noteq> {}" using free' need_Suc(1) [of k] by auto
    moreover have "cost s ip < lcap s" "cost s ip + 1 < NBUF" "lg_busy s" using room by simp_all
    ultimately show ?thesis
      unfolding mx unfolding n using bmap_new_direct [OF ok lk f' True] by blast
  next
    case False
    then show ?thesis
      unfolding mx unfolding n using bmap_new_indirect [OF ok lk f' leI [OF False] k(1) free' room] by blast
  qed
qed

subsection \<open>Writing\<close>

declare writei_loop.simps [simp del] readi_loop.simps [simp del]

text \<open>One round of the loop of \<open>writei\<close>.\<close>

definition writei_chunk :: "nat \<Rightarrow> byte list \<Rightarrow> nat \<Rightarrow> ('a fs_st_scheme, unit) kern" where
  "writei_chunk ip q off =
     kbind (gets (\<lambda>s. i_dev (ino s ip))) (\<lambda>dev.
     kbind (bmap ip (off div BSIZE)) (\<lambda>addr.
     kbind (bread dev addr) (\<lambda>bp.
     kbind (gets (bdata bp)) (\<lambda>d.
     kbind (set_bdata bp (overwrite d (off mod BSIZE) q)) (\<lambda>_.
     kbind (log_write bp) (\<lambda>_. brelse bp))))))"

lemma writei_loop_chunk:
  "src \<noteq> [] \<Longrightarrow> writei_loop ip src off =
     (let m = min (length src) (BSIZE - off mod BSIZE) in
      kbind (writei_chunk ip (take m src) off) (\<lambda>_. writei_loop ip (drop m src) (off + m)))"
  by (subst writei_loop.simps) (simp add: writei_chunk_def kbind_assoc Let_def)

definition wrote :: "(nat \<times> nat \<Rightarrow> byte list) \<Rightarrow> nat \<Rightarrow> nat \<Rightarrow> 'a fs_st_scheme \<Rightarrow> nat \<Rightarrow> nat \<Rightarrow> byte list \<Rightarrow> 'a fs_st_scheme \<Rightarrow> bool" where
  "wrote D L ip s n off q s1 \<longleftrightarrow> extends D L ip s n s1 (max n (off + length q))
     \<and> contents (fview s1) (cpy s1 ip) (max n (off + length q)) = overwrite (contents (fview s) (cpy s ip) n) off q"

lemma wrote_trans:
  assumes "wrote D L ip s n off p s1" "wrote D L ip s1 (max n (off + length p)) (off + length p) q s2" "off \<le> n"
  shows "wrote D L ip s n off (p @ q) s2"
proof -
  have mx: "max (max n (off + length p)) (off + length p + length q) = max n (off + length (p @ q))" by simp
  note a = assms(1) [unfolded wrote_def] and b = assms(2) [unfolded wrote_def mx]
  show ?thesis
    using extends_trans [OF a [THEN conjunct1] b [THEN conjunct1]] a b assms(3)
      overwrite_overwrite [of off "contents (fview s) (cpy s ip) n" p q]
    unfolding wrote_def by simp
qed

lemma extends_locked: "extends D L ip s n s1 n1 \<Longrightarrow> locked s ip \<Longrightarrow> locked s1 ip"
proof -
  assume e: "extends D L ip s n s1 n1" and lk: "locked s ip"
  define c1 where "c1 = cpy s1 ip"
  have "icache s1 = (icache s)[ip := (ino s ip)\<lparr>i_copy := c1\<rparr>]" "gframe s1 = gframe s"
    using e unfolding extends_def c1_def by blast+
  then show ?thesis using lk gframeD(1) [of s1 s] by (simp add: locked_def)
qed

text \<open>The blocks a write of \<open>l\<close> bytes at \<open>off\<close> touches.\<close>

definition spanned :: "nat \<Rightarrow> nat \<Rightarrow> nat" where
  "spanned off l = (off + l + 511) div 512 - off div 512"

lemma cost_step:
  assumes e: "extends D L ip s n s1 n1" and u: "lused s1 \<subseteq> insert x (tset s ip \<union> ({ind_of s1 ip} - {0}))"
  shows "cost s1 ip \<le> cost s ip + 1"
proof -
  have sb: "BM s1 = BM s" and ind: "ind_of s ip \<noteq> 0 \<longrightarrow> ind_of s1 ip = ind_of s ip"
    using e unfolding extends_def by simp_all
  have le: "card (insert a A) \<le> card A + 1" if "finite A" for a and A :: "nat set"
    using that by (simp add: card_insert_if)
  consider "ind_of s1 ip = 0" | "ind_of s1 ip \<noteq> 0" "ind_of s ip = 0" | "ind_of s1 ip \<noteq> 0" "ind_of s1 ip = ind_of s ip"
    using ind by blast
  then show ?thesis
  proof cases
    case 1
    then have "tset s1 ip \<subseteq> insert x (tset s ip)" using u sb by (auto simp: tset_def)
    then have "card (tset s1 ip) \<le> card (insert x (tset s ip))" by (intro card_mono) simp_all
    then show ?thesis using 1 ind le [of "tset s ip" x] by (simp add: cost_def)
  next
    case 2
    then have "tset s1 ip \<subseteq> insert (ind_of s1 ip) (insert x (tset s ip))" using u sb by (auto simp: tset_def)
    then have "card (tset s1 ip) \<le> card (insert (ind_of s1 ip) (insert x (tset s ip)))" by (intro card_mono) simp_all
    then show ?thesis
      using 2 le [of "tset s ip" x] le [of "insert x (tset s ip)" "ind_of s1 ip"] by (simp add: cost_def)
  next
    case 3
    then have "tset s1 ip \<subseteq> insert x (tset s ip)" using u sb by (auto simp: tset_def)
    then have "card (tset s1 ip) \<le> card (insert x (tset s ip))" by (intro card_mono) simp_all
    then show ?thesis using 3 le [of "tset s ip" x] by (simp add: cost_def)
  qed
qed

lemma writei_chunk_law:
  assumes ok: "fs_ok D L s" "fhold s = {}" and lk: "locked s ip" and f: "file_ok (dblocks s) (fview s) (cpy s ip) n"
    and off: "off \<le> n" "off < MAXFILE * 512" and q: "q \<noteq> []" "off mod 512 + length q \<le> 512"
    and free: "need (max n (off + length q)) \<le> card (frees L s) + need n"
    and room: "cost s ip + 1 < lcap s" "cost s ip + 2 < NBUF" "lg_busy s"
  shows "\<exists>s1. writei_chunk ip q off s = Inr ((), s1) \<and> wrote D L ip s n off q s1 \<and> cost s1 ip \<le> cost s ip + 1"
proof -
  define k r where "k = off div 512" and "r = off mod 512"
  have o: "off = k * 512 + r" "r < 512" "off mod 512 = r" "off div 512 = k" by (simp_all add: k_def r_def)
  have k: "k < MAXFILE" "k * 512 \<le> n" using off o by linarith+
  obtain l where lq: "length q = Suc l" "r + Suc l \<le> 512" using q o(3) by (cases q) auto
  let ?N = "max n (off + length q)" and ?M = "max n (k * 512 + 1)"
  have NM: "(?M + 511) div 512 = (?N + 511) div 512"
  proof (cases "(k + 1) * 512 \<le> n")
    case True
    then have "?N = n" "?M = n" using o lq by auto
    then show ?thesis by simp
  next
    case False
    have "k * 512 + 1 \<le> ?M" "?M \<le> (k + 1) * 512" "k * 512 + 1 \<le> ?N" "?N \<le> (k + 1) * 512"
      using False o(1,2) lq k(2) by simp_all
    then show ?thesis by (simp only: block_count)
  qed
  have "NDIRECT * 512 < ?M \<longleftrightarrow> NDIRECT * 512 < ?N" by (rule same_blocks [OF NM])
  then have nd: "need ?N = need ?M" using NM by (simp add: need_def)
  obtain s1 where s1: "bmap ip k s = Inr (blk (fview s1) (cpy s1 ip) k, s1)" "extends D L ip s n s1 ?M"
    "contents (fview s1) (cpy s1 ip) n = contents (fview s) (cpy s ip) n"
    "lused s1 \<subseteq> insert (blk (fview s1) (cpy s1 ip) k) (tset s ip \<union> ({ind_of s1 ip} - {0}))"
    using bmap_law [OF ok lk f k _ room] free nd by auto
  let ?x = "blk (fview s1) (cpy s1 ip) k" and ?c = "cpy s1 ip"
  note e = s1(2) [unfolded extends_def]
  have ok1: "fs_ok D L s1" "fhold s1 = {}" and fM: "file_ok (dblocks s1) (fview s1) ?c ?M" using e by blast+
  have "off + length q \<le> (k + 1) * 512" using o(1) lq by simp
  moreover have "(k + 1) * 512 \<le> MAXFILE * 512" using k(1) by simp
  ultimately have "?N \<le> MAXFILE * 512" using file_ok_ind(6) [OF f] by simp
  then have fN: "file_ok (dblocks s1) (fview s1) ?c ?N" by (rule file_ok_cong [OF fM NM])
  have kN: "k * 512 < ?N" using o(1) lq by simp
  have x: "?x \<in> dblocks s1" "?x \<in> own (fview s1) ?c" by (rule file_okD(1,2) [OF fN k(1) kN])+
  note xd = dblocksD [OF x(1)]
  have cost1: "card (lused s1) \<le> cost s ip + 1"
    using cost_step [OF s1(2,4)] cost_bounds(2) [of s1 ip] by simp
  have t1: "tinv D s1" by (rule fs_okD(1) [OF ok1(1)])
  have len: "length (fview s1 ?x) = 512" using lb.data_length [OF t1] xd by blast
  let ?g = "\<lambda>d. overwrite d r q"
  have g: "gframe s1 = gframe s" using e by blast
  have pre: "fvalid s1 ?x" "?x \<notin> fhold s1" "lg_busy s1" "card (lused s1) < lcap s1" "Suc (card (fhold s1) + card (lused s1)) < NBUF"
    "length (?g (fview s1 ?x)) = BSIZE"
    using xd ok1 cost1 room gframeD(2,4) [OF g] len lq by simp_all
  obtain s2 where s2: "lb.update (lg_dev s1) ?x ?g s1 = Inr ((), s2)" "tinv D s2" "fview s2 = (fview s1)(?x := ?g (fview s1 ?x))"
    "fhold s2 = fhold s1" "lused s2 = insert ?x (lused s1)" "fframe s2 = fframe s1"
    using lb.update_view [where f = ?g, OF t1 pre] by blast
  have run: "writei_chunk ip q off s = Inr ((), s2)"
  proof -
    have "i_dev (ino s ip) = lg_dev s1" using lk gframeD(1) [OF g] by (simp add: locked_def)
    then show ?thesis using s1(1) s2(1) o by (simp add: writei_chunk_def lb.update_def)
  qed
  note w = file_write [OF fN kN k(1), of "?g (fview s1 ?x)", folded s2(3)]
  have ic: "icache s2 = icache s1" by (rule fframe_fsD(1) [OF s2(6)])
  have BM1: "?x \<noteq> 1" "?x \<noteq> BM s1" and h2: "fhold s2 = {}" using xd s2(4) ok1(2) by (auto simp: BBLOCK_def)
  note fw = fs_ok_write [OF ok1(1) s2(2,3,6) BM1 h2]
  have e2: "extends D L ip s n s2 ?N"
  proof -
    have xo: "?x \<in> own (fview s) (cpy s ip) \<union> (dblocks s1 - dblocks s)" using e x(2) by blast
    have "fview s2 b = fview s b" if "b \<noteq> BM s" "b \<notin> own (fview s) (cpy s ip) \<union> (dblocks s1 - dblocks s)" for b
    proof -
      have "b \<noteq> ?x" using that xo by blast
      then show ?thesis using e that s2(3) by simp
    qed
    moreover have "n \<le> ?N" "?N = n \<longrightarrow> ?M = n" using o(1) lq(1) by auto
    ultimately show ?thesis
      using e fw w h2 nd ic gframe_fframe [OF s2(6)] unfolding extends_def by simp
  qed
  have "contents (fview s2) ?c ?N = overwrite (contents (fview s1) ?c ?N) off q"
    using contents_write [OF fN _ _ o(4) [symmetric] q(1), unfolded o(3)] len lq o(1) s2(3) by simp
  also have "\<dots> = overwrite (contents (fview s) (cpy s ip) n) off q"
    using overwrite_contents [OF off(1), of ?N q] s1(3) by simp
  finally have "wrote D L ip s n off q s2" using e2 ic unfolding wrote_def by simp
  moreover have "cost s2 ip \<le> cost s ip + 1"
    using s1(4) s2(5) ic by (intro cost_step [OF e2, of ?x]) simp
  ultimately show ?thesis using run by blast
qed

lemma spanned_chunk:
  assumes "m = min l (512 - off mod 512)" "0 < l"
  shows "1 \<le> spanned off l" "m < l \<Longrightarrow> spanned (off + m) (l - m) + 1 = spanned off l"
proof -
  define k r where "k = off div 512" and "r = off mod 512"
  have o: "off = k * 512 + r" "r < 512" "off div 512 = k" by (simp_all add: k_def r_def)
  have "k * 512 + 512 \<le> off + l + 511" using o(1) assms(2) by simp
  then have "(k * 512 + 512) div 512 \<le> (off + l + 511) div 512" by (rule div_le_mono)
  then have le: "k + 1 \<le> (off + l + 511) div 512" by simp
  then show "1 \<le> spanned off l" unfolding spanned_def o(3) by simp
  assume "m < l"
  then have m: "off + m = (k + 1) * 512" "off + m + (l - m) = off + l" using assms(1) o by (auto simp: r_def [symmetric])
  then have "(off + m) div 512 = k + 1" by simp
  then show "spanned (off + m) (l - m) + 1 = spanned off l" unfolding spanned_def o(3) m(2) using le by simp
qed

lemma writei_loop_law:
  assumes "fs_ok D L s" "fhold s = {}" "locked s ip" "file_ok (dblocks s) (fview s) (cpy s ip) n"
    "off \<le> n" "off + length src \<le> MAXFILE * 512" "need (max n (off + length src)) \<le> card (frees L s) + need n"
    "cost s ip + spanned off (length src) < lcap s" "cost s ip + spanned off (length src) + 1 < NBUF" "lg_busy s"
  shows "\<exists>s1. writei_loop ip src off s = Inr ((), s1) \<and> wrote D L ip s n off src s1
    \<and> cost s1 ip \<le> cost s ip + spanned off (length src)"
  using assms
proof (induction "length src" arbitrary: src off n s rule: less_induct)
  case less
  note p = less.prems
  show ?case
  proof (cases "src = []")
    case True
    have "wrote D L ip s n off [] s"
      using extends_same(1) [OF p(1,4,1) _ p(2)] p(5) by (simp add: wrote_def overwrite_def max_def)
    then show ?thesis using True by (auto simp: writei_loop.simps ret_def)
  next
    case False
    define m where "m = min (length src) (512 - off mod 512)"
    have ls: "0 < length src" using False by simp
    have r: "off mod 512 < 512" by simp
    have m: "0 < m" "m \<le> length src" "off mod 512 + m \<le> 512" using ls r unfolding m_def min_def by auto
    note sp = spanned_chunk [OF m_def ls]
    let ?q = "take m src" and ?l = "length src"
    have lq: "length ?q = m" "?q \<noteq> []" using m by auto
    have o: "off < MAXFILE * 512" using p(6) ls by linarith
    have mono: "need (max n (off + m)) \<le> need (max n (off + ?l))" using m by (intro need_mono) simp
    obtain s1 where s1: "writei_chunk ip ?q off s = Inr ((), s1)" "wrote D L ip s n off ?q s1" "cost s1 ip \<le> cost s ip + 1"
      using writei_chunk_law [OF p(1-5) o lq(2)] lq(1) m(3) mono p(7-10) sp(1) by auto
    note e = s1(2) [unfolded wrote_def lq(1)]
    let ?N = "max n (off + m)"
    have ex: "extends D L ip s n s1 ?N" using e by blast
    note x = ex [unfolded extends_def]
    have run: "writei_loop ip src off s = writei_loop ip (drop m src) (off + m) s1"
      using s1(1) unfolding writei_loop_chunk [OF False] Let_def m_def by simp
    have "\<exists>s2. writei_loop ip (drop m src) (off + m) s1 = Inr ((), s2) \<and> wrote D L ip s1 ?N (off + m) (drop m src) s2
        \<and> cost s2 ip \<le> cost s ip + spanned off ?l"
    proof (cases "m < ?l")
      case True
      have sum: "off + m + length (drop m src) = off + ?l" "max ?N (off + ?l) = max n (off + ?l)" using m by simp_all
      have cap: "lcap s1 = lcap s" using x gframeD(4) by blast
      have sp2: "spanned (off + m) (length (drop m src)) + 1 = spanned off ?l" using sp(2) [OF True] by simp
      have "\<exists>s2. writei_loop ip (drop m src) (off + m) s1 = Inr ((), s2) \<and> wrote D L ip s1 ?N (off + m) (drop m src) s2
        \<and> cost s2 ip \<le> cost s1 ip + spanned (off + m) (length (drop m src))"
      proof (rule less.hyps)
        show "length (drop m src) < ?l" using m by simp
        show "fs_ok D L s1" "fhold s1 = {}" "file_ok (dblocks s1) (fview s1) (cpy s1 ip) ?N" using x by blast+
        show "locked s1 ip" by (rule extends_locked [OF ex p(3)])
        show "off + m \<le> ?N" by simp
        show "off + m + length (drop m src) \<le> MAXFILE * 512" unfolding sum using p(6) .
        show "need (max ?N (off + m + length (drop m src))) \<le> card (frees L s1) + need ?N"
          unfolding sum using x p(7) by simp
        show "cost s1 ip + spanned (off + m) (length (drop m src)) < lcap s1"
          "cost s1 ip + spanned (off + m) (length (drop m src)) + 1 < NBUF"
          using p(8,9) s1(3) sp2 cap by linarith+
        show "lg_busy s1" using x gframeD(2) p(10) by blast
      qed
      then obtain s2 where "writei_loop ip (drop m src) (off + m) s1 = Inr ((), s2)"
        "wrote D L ip s1 ?N (off + m) (drop m src) s2" "cost s2 ip \<le> cost s1 ip + spanned (off + m) (length (drop m src))"
        by blast
      then show ?thesis using s1(3) sp2 by (intro exI [of _ s2]) simp
    next
      case False
      then have "drop m src = []" by simp
      moreover have "wrote D L ip s1 ?N (off + m) [] s1"
        using extends_same(1) [of D L s1 ip ?N s1] x by (simp add: wrote_def overwrite_def)
      ultimately show ?thesis using s1(3) sp(1) by (auto simp: writei_loop.simps ret_def)
    qed
    then obtain s2 where s2: "writei_loop ip (drop m src) (off + m) s1 = Inr ((), s2)"
      "wrote D L ip s1 ?N (off + m) (drop m src) s2" "cost s2 ip \<le> cost s ip + spanned off ?l" by blast
    have "wrote D L ip s n off (?q @ drop m src) s2"
      using s2(2) by (intro wrote_trans [OF s1(2) _ p(5)]) (simp only: lq(1))
    then show ?thesis using s2(1,3) run by simp
  qed
qed

subsection \<open>Reading\<close>

lemma readi_loop_law:
  assumes "fs_ok D L s" "fhold s = {}" "locked s ip" "file_ok (dblocks s) (fview s) (cpy s ip) n"
    "off + l \<le> n" "cost s ip < NBUF"
  shows "\<exists>s1. readi_loop ip off l s = Inr (take l (drop off (contents (fview s) (cpy s ip) n)), s1)
    \<and> fs_ok D L s1 \<and> fview s1 = fview s \<and> fhold s1 = {} \<and> lused s1 = lused s \<and> fframe s1 = fframe s"
  using assms
proof (induction l arbitrary: off s rule: less_induct)
  case (less l)
  note p = less.prems
  let ?c = "cpy s ip" and ?V = "fview s"
  show ?case
  proof (cases "l = 0")
    case True
    then show ?thesis using p by (simp add: readi_loop.simps ret_def)
  next
    case False
    define m k where "m = min l (512 - off mod 512)" and "k = off div 512"
    have m: "0 < m" "m \<le> l" "m \<le> 512 - off mod 512" using False unfolding m_def min_def by auto
    have "off < n" using p(5) False by simp
    then have kn: "k * 512 < n" using div_times_less_eq_dividend [of off 512] unfolding k_def by linarith
    have "off < MAXFILE * 512" using \<open>off < n\<close> file_ok_ind(6) [OF p(4)] by simp
    then have km: "k < MAXFILE" unfolding k_def by (rule less_mult_imp_div_less)
    let ?x = "blk ?V ?c k"
    from bmap_old [OF p(1-4) km kn p(6)] obtain s1 where s1: "bmap ip k s = Inr (?x, s1)" "fs_ok D L s1"
      "fview s1 = fview s" "fhold s1 = {}" "lused s1 = lused s" "fframe s1 = fframe s" by blast
    note x = dblocksD [OF file_okD(2) [OF p(4) km kn]] and g1 = fframe_geom [OF s1(6)]
    have "fvalid s1 ?x" "?x \<notin> fhold s1" "card (fhold s1) + card (lused s1) < NBUF"
      using x g1(9) s1(4,5) p(6) cost_bounds(2) [of s ip] by simp_all
    from lb.peek_view [OF fs_okD(1) [OF s1(2)] this] obtain s2 where s2: "lb.peek (lg_dev s1) ?x s1 = Inr (fview s1 ?x, s2)"
      "tinv D s2" "fview s2 = fview s1" "fhold s2 = fhold s1" "lused s2 = lused s1" "fframe s2 = fframe s1" by blast
    have eq: "fview s2 = ?V" "fhold s2 = {}" "lused s2 = lused s" "fframe s2 = fframe s" using s1 s2 by simp_all
    have "1 \<notin> fhold s2" "BM s \<notin> fhold s2" using eq(2) by simp_all
    note c2 = fs_ok_cong [OF p(1) s2(2) eq(1,4) this] and ic = fframe_fsD(1) [OF eq(4)]
    have lk2: "locked s2 ip" "cost s2 ip = cost s ip"
      using p(3) ic fframe_geom(1) [OF eq(4)] c2(4) eq(3) by (simp_all add: locked_def cost_def tset_def)
    have off2: "off + m + (l - m) \<le> n" using m(2) p(5) by simp
    have f2: "file_ok (dblocks s2) (fview s2) (cpy s2 ip) n" using p(4) c2(2) eq(1) ic by simp
    have l2: "l - m < l" "cost s2 ip < NBUF" using m p(6) lk2(2) by simp_all
    from less.IH [OF l2(1) c2(1) eq(2) lk2(1) f2 off2 l2(2)] obtain s3 where
      s3: "readi_loop ip (off + m) (l - m) s2 = Inr (take (l - m) (drop (off + m) (contents ?V ?c n)), s3)"
        "fs_ok D L s3" "fview s3 = ?V" "fhold s3 = {}" "lused s3 = lused s" "fframe s3 = fframe s"
      using eq ic by auto
    have dev: "i_dev (ino s ip) = lg_dev s1" using p(3) g1(1) by (simp add: locked_def)
    have len: "length (?V (blk ?V ?c (off div 512))) = 512" using lb.data_length [OF fs_okD(1) [OF p(1)]] x unfolding k_def by blast
    have "off + m \<le> n" using m(2) p(5) by simp
    note sl = contents_slice [where V = ?V and c = ?c, OF this m(3) len, folded k_def]
    have step: "readi_loop ip off l s = kbind (lb.peek (lg_dev s1) ?x) (\<lambda>d.
        kbind (readi_loop ip (off + m) (l - m)) (\<lambda>r. ret (take m (drop (off mod 512) d) @ r))) s1"
      using False s1(1) dev unfolding m_def k_def
      by (subst readi_loop.simps) (simp add: lb.peek_def kbind_assoc Let_def)
    have "take l xs = take m xs @ take (l - m) (drop m xs)" for xs :: "byte list"
      using m(2) by (metis le_add_diff_inverse take_add)
    from this [of "drop off (contents ?V ?c n)"]
    have "readi_loop ip off l s = Inr (take l (drop off (contents ?V ?c n)), s3)"
      unfolding step using s2(1) s3(1) s1(3) sl by (simp add: ret_def add.commute)
    then show ?thesis using s3 by blast
  qed
qed

text \<open>A locked inode that is a file, and its bytes.\<close>

definition inode_ok :: "(nat \<times> nat \<Rightarrow> byte list) \<Rightarrow> nat \<Rightarrow> 'a fs_st_scheme \<Rightarrow> nat \<Rightarrow> bool" where
  "inode_ok D L s ip \<longleftrightarrow> fs_ok D L s \<and> fhold s = {} \<and> locked s ip \<and> i_inum (ino s ip) < sb_ninodes (sbl s)
     \<and> di_type (cpy s ip) \<noteq> T_DEV \<and> file_ok (dblocks s) (fview s) (cpy s ip) (di_size (cpy s ip))"

definition file_bytes :: "'a fs_st_scheme \<Rightarrow> nat \<Rightarrow> byte list" where
  "file_bytes s ip = contents (fview s) (cpy s ip) (di_size (cpy s ip))"

lemma readi_law:
  assumes "inode_ok D L s ip" "cost s ip < NBUF" "off \<le> length (file_bytes s ip)" "off + n < 2 ^ 32"
  shows "\<exists>s1. readi ip off n s = Inr ((int (min n (length (file_bytes s ip) - off)), take n (drop off (file_bytes s ip))), s1)
    \<and> inode_ok D L s1 ip \<and> file_bytes s1 ip = file_bytes s ip \<and> fview s1 = fview s \<and> lused s1 = lused s \<and> fframe s1 = fframe s"
proof -
  note i = assms(1) [unfolded inode_ok_def]
  let ?z = "di_size (cpy s ip)"
  have z: "length (file_bytes s ip) = ?z" by (simp add: file_bytes_def)
  define l where "l = (if off + n > ?z then ?z - off else n)"
  have l: "off + l \<le> ?z" "l = min n (?z - off)" using assms(3) z by (auto simp: l_def)
  obtain s1 where s1: "readi_loop ip off l s = Inr (take l (drop off (file_bytes s ip)), s1)"
    "fs_ok D L s1" "fview s1 = fview s" "fhold s1 = {}" "lused s1 = lused s" "fframe s1 = fframe s"
    using readi_loop_law [of D L s ip ?z off l] i l(1) assms(2) unfolding file_bytes_def by blast
  have ic: "icache s1 = icache s" by (rule fframe_fsD(1) [OF s1(6)])
  have "fs_ok D L s" using i by blast
  moreover have "1 \<notin> fhold s1" "BM s \<notin> fhold s1" using s1(4) by simp_all
  ultimately have c: "dblocks s1 = dblocks s" "sbl s1 = sbl s"
    using fs_ok_cong(2,4) [OF _ fs_okD(1) [OF s1(2)] s1(3,6)] by blast+
  have "inode_ok D L s1 ip"
    using i s1(2-4) c ic fframe_geom(1) [OF s1(6)] by (simp add: inode_ok_def locked_def)
  moreover have "readi ip off n s = Inr ((int l, take l (drop off (file_bytes s ip))), s1)"
    using i assms(3,4) z s1(1) unfolding readi_def Let_def l_def by (simp add: ret_def)
  moreover have "take l (drop off (file_bytes s ip)) = take n (drop off (file_bytes s ip))"
    using l(2) z by (simp add: take_drop min_def)
  ultimately show ?thesis using l(2) z s1(3,5,6) ic by (simp add: file_bytes_def)
qed

subsection \<open>The operations\<close>

lemma inode_block:
  assumes "fs_ok D L s" "i < sb_ninodes (sbl s)"
  shows "IBLOCK i < BM s" "IBLOCK i \<noteq> 1" "IBLOCK i \<notin> dblocks s" "fvalid s (IBLOCK i)"
proof -
  have "i div IPB \<le> sb_ninodes (sbl s) div IPB" using assms(2) by (intro div_le_mono) simp
  then show lt: "IBLOCK i < BM s" by (simp add: IBLOCK_def BBLOCK_def)
  show "IBLOCK i \<noteq> 1" by (simp add: IBLOCK_def)
  show "IBLOCK i \<notin> dblocks s" using lt by (simp add: dblocks_def)
  show "fvalid s (IBLOCK i)" using lt fs_okD(4,7) [OF assms(1)] by simp
qed

lemma extends_dnode:
  assumes e: "extends D L ip s n s1 n1" and ok: "fs_ok D L s" "file_ok (dblocks s) (fview s) (cpy s ip) n" and i: "i < sb_ninodes (sbl s)"
  shows "dnode s1 i = dnode s i"
proof -
  have sb: "sbl s1 = sbl s" and ok1: "fs_ok D L s1" using e unfolding extends_def by blast+
  note b = inode_block [OF ok(1) i] and b1 = inode_block [OF ok1, unfolded sb, OF i]
  have "IBLOCK i \<notin> own (fview s) (cpy s ip) \<union> (dblocks s1 - dblocks s)" using b(3) b1(3) file_own [OF ok(2)] by blast
  then have "fview s1 (IBLOCK i) = fview s (IBLOCK i)" using e b(1) unfolding extends_def by simp
  then show ?thesis by (simp add: dnode_def)
qed

text \<open>The last step of \<open>writei\<close>: the new size, in the cache and on the disk.\<close>

lemma set_size_law:
  assumes ok: "fs_ok D L s" "fhold s = {}" "locked s ip" and f: "file_ok (dblocks s) (fview s) (cpy s ip) n"
    and i: "i_inum (ino s ip) < sb_ninodes (sbl s)" and room: "cost s ip < lcap s" "cost s ip + 1 < NBUF" "lg_busy s"
  shows "\<exists>s1. kbind (upd_copy ip (di_size_update (\<lambda>_. n))) (\<lambda>_. iupdate ip) s = Inr ((), s1)
    \<and> fs_ok D L s1 \<and> fhold s1 = {} \<and> gframe s1 = gframe s \<and> sbl s1 = sbl s \<and> dblocks s1 = dblocks s
    \<and> icache s1 = (icache s)[ip := (ino s ip)\<lparr>i_copy := (cpy s ip)\<lparr>di_size := n\<rparr>\<rparr>]
    \<and> (\<forall>b. b \<noteq> IBLOCK (i_inum (ino s ip)) \<longrightarrow> fview s1 b = fview s b)
    \<and> dnode s1 = (dnode s)(i_inum (ino s ip) := (cpy s ip)\<lparr>di_size := n\<rparr>)
    \<and> lused s1 = insert (IBLOCK (i_inum (ino s ip))) (lused s)"
proof -
  let ?c = "(cpy s ip)\<lparr>di_size := n\<rparr>" and ?i = "i_inum (ino s ip)"
  have ipl: "ip < length (icache s)" using ok(3) by (simp add: locked_def)
  define s0 where "s0 = s\<lparr>icache := (icache s)[ip := (ino s ip)\<lparr>i_copy := ?c\<rparr>]\<rparr>"
  have i0: "ino s0 ip = (ino s ip)\<lparr>i_copy := ?c\<rparr>" using ipl by (simp add: s0_def)
  have v0: "fs_ok D L s0" "fview s0 = fview s" "fhold s0 = {}" "lused s0 = lused s" "sbl s0 = sbl s" "dblocks s0 = dblocks s" "lcap s0 = lcap s"
    "gframe s0 = gframe s"
    using ok by (simp_all add: s0_def)
  note ib = inode_block [OF v0(1), unfolded v0(5), OF i]
  have cok: "dinode_ok ?c" by (rule file_ok_ind(7) [OF file_ok_size [OF f]])
  have pre: "tinv D s0" "lg_busy s0" "in_ok s0 ip" "dinode_ok (i_copy (ino s0 ip))"
    "card (lused s0) < lcap s0" "Suc (card (fhold s0) + card (lused s0)) < NBUF"
    using fs_okD(1) [OF v0(1)] ok(3) ib(4) v0 cok i0 room cost_bounds(2) [of s ip]
    by (simp_all add: in_ok_def locked_def s0_def)
  from iupdate_law [OF pre] obtain s1 where s1: "iupdate ip s0 = Inr ((), s1)" "tinv D s1"
    "fview s1 = (fview s0)(IBLOCK ?i := put_dinode (fview s0 (IBLOCK ?i)) (islot ?i) ?c)"
    "fhold s1 = fhold s0" "lused s1 = insert (IBLOCK ?i) (lused s0)" "fframe s1 = fframe s0"
    unfolding i0 by auto
  have "IBLOCK ?i \<noteq> BM s0" "fhold s1 = {}" using ib(1) v0 s1(4) by simp_all
  note w = fs_ok_write [OF v0(1) s1(2,3,6) ib(2) this]
  have "length (fview s0 (IBLOCK ?i)) = BSIZE" using lb.data_length [OF pre(1)] ib(4) by blast
  then have "dnode s1 = (dnode s0)(?i := ?c)" using s1(3) cok by (intro dnode_put) simp_all
  moreover have "dnode s0 = dnode s" using v0(2) by (auto simp: dnode_def)
  moreover have "kbind (upd_copy ip (di_size_update (\<lambda>_. n))) (\<lambda>_. iupdate ip) s = Inr ((), s1)"
    using s1(1) by (simp add: upd_copy_def upd_ino_def s0_def)
  moreover have "icache s1 = icache s0" by (rule fframe_fsD(1) [OF s1(6)])
  ultimately show ?thesis
    using w v0 s1(3-5) gframe_fframe [OF s1(6)] by (intro exI [of _ s1]) (simp add: s0_def)
qed

lemma writei_law:
  assumes ok: "inode_ok D L s ip" and off: "off \<le> length (file_bytes s ip)" "off + length src \<le> MAXFILE * 512"
    and free: "need (max (length (file_bytes s ip)) (off + length src)) \<le> card (frees L s) + need (length (file_bytes s ip))"
    and room: "cost s ip + spanned off (length src) < lcap s" "cost s ip + spanned off (length src) + 1 < NBUF" "lg_busy s"
  shows "\<exists>s1. writei ip src off s = Inr (int (length src), s1) \<and> inode_ok D L s1 ip
    \<and> file_bytes s1 ip = overwrite (file_bytes s ip) off src \<and> sbl s1 = sbl s
    \<and> i_inum (ino s1 ip) = i_inum (ino s ip) \<and> gframe s1 = gframe s \<and> di_type (cpy s1 ip) = di_type (cpy s ip)
    \<and> (\<exists>c. icache s1 = (icache s)[ip := (ino s ip)\<lparr>i_copy := c\<rparr>])
    \<and> (\<forall>b. b \<in> dblocks s \<and> b \<notin> own (fview s) (cpy s ip) \<longrightarrow> fview s1 b = fview s b)
    \<and> (\<forall>i < sb_ninodes (sbl s). i \<noteq> i_inum (ino s ip) \<longrightarrow> dnode s1 i = dnode s i)
    \<and> (dnode s (i_inum (ino s ip)) = cpy s ip \<longrightarrow> dnode s1 (i_inum (ino s ip)) = cpy s1 ip)
    \<and> card (lused s1) \<le> cost s ip + spanned off (length src) + 1"
proof -
  note i = ok [unfolded inode_ok_def]
  let ?z = "di_size (cpy s ip)" and ?i = "i_inum (ino s ip)" and ?l = "length src"
  let ?N = "max ?z (off + ?l)"
  have z: "length (file_bytes s ip) = ?z" by (simp add: file_bytes_def)
  have si: "fs_ok D L s" "fhold s = {}" "locked s ip" "?i < sb_ninodes (sbl s)" "di_type (cpy s ip) \<noteq> T_DEV"
    "file_ok (dblocks s) (fview s) (cpy s ip) ?z" using i by blast+
  note off' = off [unfolded z] and free' = free [unfolded z]
  obtain s1 where s1: "writei_loop ip src off s = Inr ((), s1)" "wrote D L ip s ?z off src s1"
    "cost s1 ip \<le> cost s ip + spanned off ?l"
    using writei_loop_law [OF si(1-3,6) off' free' room] by blast
  have ex: "extends D L ip s ?z s1 ?N" and con: "contents (fview s1) (cpy s1 ip) ?N = overwrite (file_bytes s ip) off src"
    using s1(2) unfolding wrote_def file_bytes_def by blast+
  note e = ex [unfolded extends_def]
  have e1: "fs_ok D L s1" "fhold s1 = {}" "gframe s1 = gframe s" "sbl s1 = sbl s" "file_ok (dblocks s1) (fview s1) (cpy s1 ip) ?N"
    using e by blast+
  have lk1: "locked s1 ip" by (rule extends_locked [OF ex si(3)])
  have dn: "dnode s1 j = dnode s j" if "j < sb_ninodes (sbl s)" for j by (rule extends_dnode [OF ex si(1,6) that])
  define c1 where "c1 = cpy s1 ip"
  have ic1: "icache s1 = (icache s)[ip := (ino s ip)\<lparr>i_copy := c1\<rparr>]" using e unfolding c1_def by blast
  then have i1: "i_inum (ino s1 ip) = ?i" using si(3) by (simp add: locked_def)
  have "di_size (cpy s1 ip) = di_size ((cpy s1 ip)\<lparr>di_addrs := di_addrs (cpy s ip)\<rparr>)"
    "di_type (cpy s1 ip) = di_type ((cpy s1 ip)\<lparr>di_addrs := di_addrs (cpy s ip)\<rparr>)" by simp_all
  then have z1: "di_size (cpy s1 ip) = ?z" "di_type (cpy s1 ip) = di_type (cpy s ip)" using e by simp_all
  have keep: "fview s1 b = fview s b" if "b \<in> dblocks s" "b \<notin> own (fview s) (cpy s ip)" for b
    using e that by (auto simp: dblocks_def)
  have unfold: "writei ip src off s = (if ?l > 0 \<and> off + ?l > ?z
      then kbind (kbind (upd_copy ip (di_size_update (\<lambda>_. off + ?l))) (\<lambda>_. iupdate ip)) (\<lambda>_. ret (int ?l)) s1
      else Inr (int ?l, s1))"
    using off' si(5) s1(1) z1(1) by (simp add: writei_def Let_def kbind_assoc)
  show ?thesis
  proof (cases "?l > 0 \<and> off + ?l > ?z")
    case True
    then have N: "?N = off + ?l" by simp
    have rm: "cost s1 ip < lcap s1" "cost s1 ip + 1 < NBUF" "lg_busy s1"
      using s1(3) room gframeD(2,4) [OF e1(3)] by simp_all
    obtain s2 where s2: "kbind (upd_copy ip (di_size_update (\<lambda>_. off + ?l))) (\<lambda>_. iupdate ip) s1 = Inr ((), s2)"
      "fs_ok D L s2" "fhold s2 = {}" "gframe s2 = gframe s1" "sbl s2 = sbl s1" "dblocks s2 = dblocks s1"
      "icache s2 = (icache s1)[ip := (ino s1 ip)\<lparr>i_copy := (cpy s1 ip)\<lparr>di_size := off + ?l\<rparr>\<rparr>]"
      "\<forall>b. b \<noteq> IBLOCK ?i \<longrightarrow> fview s2 b = fview s1 b" "dnode s2 = (dnode s1)(?i := (cpy s1 ip)\<lparr>di_size := off + ?l\<rparr>)"
      "lused s2 = insert (IBLOCK ?i) (lused s1)"
      using set_size_law [OF e1(1,2) lk1 e1(5)] si(4) e1(4) i1 rm unfolding N by auto
    have ipl: "ip < length (icache s1)" using lk1 by (simp add: locked_def)
    have c2: "ino s2 ip = (ino s1 ip)\<lparr>i_copy := (cpy s1 ip)\<lparr>di_size := off + ?l\<rparr>\<rparr>" using s2(7) ipl by simp
    note ib = inode_block [OF si(1,4)] and ib1 = inode_block [OF e1(1), of ?i, unfolded e1(4), OF si(4)]
    have "fview s2 b = fview s1 b" if "b \<in> own (fview s1) (cpy s1 ip)" for b
    proof -
      have "b \<noteq> IBLOCK ?i" using that file_own [OF e1(5)] ib1(3) by blast
      then show ?thesis using s2(8) by blast
    qed
    note fr = file_frame [OF e1(5) file_own [OF e1(5)] this]
    have ok2: "inode_ok D L s2 ip"
      using s2(2-7) lk1 i1 si(4,5) e1(4) c2 z1(2) file_ok_size [OF fr(3)] gframeD(1) [OF s2(4)]
      unfolding N by (simp add: inode_ok_def locked_def)
    have "file_bytes s2 ip = overwrite (file_bytes s ip) off src"
      using fr(4) con c2 unfolding N by (simp add: file_bytes_def)
    moreover have "fview s2 b = fview s b" if "b \<in> dblocks s" "b \<notin> own (fview s) (cpy s ip)" for b
    proof -
      have "b \<noteq> IBLOCK ?i" using that(1) ib(3) by blast
      then show ?thesis using s2(8) keep [OF that] by simp
    qed
    moreover have "card (lused s2) \<le> cost s ip + spanned off ?l + 1"
      using s2(10) s1(3) cost_bounds(2) [of s1 ip] by (simp add: card_insert_if)
    moreover have "dnode s2 ?i = cpy s2 ip" using s2(9) c2 by simp
    moreover have "\<exists>c. icache s2 = (icache s)[ip := (ino s ip)\<lparr>i_copy := c\<rparr>]" using s2(7) ic1 ipl by auto
    moreover have "dnode s2 j = dnode s j" if "j < sb_ninodes (sbl s)" "j \<noteq> ?i" for j using s2(9) dn that by simp
    ultimately show ?thesis
      using unfold True s2(1,4,5) ok2 e1(3,4) c2 i1 z1(2) by (intro exI [of _ s2]) (simp add: ret_def)
  next
    case False
    then have N: "?N = ?z" using off' by auto
    have c: "cpy s1 ip = cpy s ip" using e N by blast
    have "inode_ok D L s1 ip" using e1 lk1 i1 si(4,5) c N by (simp add: inode_ok_def)
    moreover have "file_bytes s1 ip = overwrite (file_bytes s ip) off src"
      using con z1(1) unfolding N by (simp add: file_bytes_def)
    moreover have "card (lused s1) \<le> cost s ip + spanned off ?l + 1"
      using s1(3) cost_bounds(2) [of s1 ip] by simp
    moreover have "writei ip src off s = Inr (int ?l, s1)" unfolding unfold by (simp only: False if_False)
    moreover have "\<exists>c. icache s1 = (icache s)[ip := (ino s ip)\<lparr>i_copy := c\<rparr>]" using ic1 by blast
    ultimately show ?thesis using keep dn si(4) e1(3,4) i1 c by (intro exI [of _ s1]) simp
  qed
qed

lemma cost_le: "cost s ip \<le> card (lused s) + 2"
proof -
  have "card (insert a A) \<le> card A + 1" if "finite A" for a and A :: "nat set"
    using that by (simp add: card_insert_if)
  from this [of "lused s" "BM s"] this [of "insert (BM s) (lused s)" "ind_of s ip"] show ?thesis
    by (auto simp: cost_def tset_def insert_Diff_if insert_commute)
qed

lemma need_le:
  assumes "n' \<le> n + 3 * 512"
  shows "need n' \<le> need n + 4"
proof -
  have "(n' + 511) div 512 \<le> (n + 511 + 3 * 512) div 512" using assms by (intro div_le_mono) simp
  also have "\<dots> = 3 + (n + 511) div 512" by (rule div_mult_self1) simp
  finally show ?thesis by (simp add: need_def)
qed

lemma spanned_le: "l \<le> 3 * 512 \<Longrightarrow> spanned off l \<le> 4"
proof -
  assume l: "l \<le> 3 * 512"
  define k r where "k = off div 512" and "r = off mod 512"
  have o: "off = k * 512 + r" "r < 512" by (simp_all add: k_def r_def)
  have "(off + l + 511) div 512 < k + 5" using o l by (intro less_mult_imp_div_less) simp
  then show ?thesis by (simp add: spanned_def k_def [symmetric])
qed

text \<open>
  C12 (roundtrip): a write of at most the 1536 bytes that \<open>filewrite\<close> puts into one transaction
  succeeds whenever four blocks are free, whatever blocks it has to allocate, and logs at most seven
  blocks. Afterwards the file has the bytes written at their place and is otherwise as before, reading
  them back returns them, and no block of another file and no other inode has changed.
\<close>

theorem writei_readi:
  assumes "inode_ok D L s ip" "lused s = {}" "lg_busy s" "7 \<le> lcap s" "4 \<le> card (frees L s)"
    and "off \<le> length (file_bytes s ip)" "length src \<le> 3 * 512" "off + length src \<le> MAXFILE * 512"
  shows "\<exists>s1. writei ip src off s = Inr (int (length src), s1) \<and> inode_ok D L s1 ip
    \<and> file_bytes s1 ip = overwrite (file_bytes s ip) off src
    \<and> (\<exists>s2. readi ip off (length src) s1 = Inr ((int (length src), src), s2))
    \<and> (\<forall>b. b \<in> dblocks s \<and> b \<notin> own (fview s) (cpy s ip) \<longrightarrow> fview s1 b = fview s b)
    \<and> (\<forall>i < sb_ninodes (sbl s). i \<noteq> i_inum (ino s ip) \<longrightarrow> dnode s1 i = dnode s i)
    \<and> (dnode s (i_inum (ino s ip)) = cpy s ip \<longrightarrow> dnode s1 (i_inum (ino s ip)) = cpy s1 ip)
    \<and> card (lused s1) \<le> 7"
proof -
  let ?z = "length (file_bytes s ip)"
  have c: "cost s ip + spanned off (length src) \<le> 6"
    using cost_le [of s ip] spanned_le [OF assms(7), of off] assms(2) by simp
  have nd: "need (max ?z (off + length src)) \<le> card (frees L s) + need ?z"
    using need_le [of "max ?z (off + length src)" ?z] assms(5-7) by simp
  from writei_law [OF assms(1,6,8) nd] c assms(3,4) obtain s1 where
    s1: "writei ip src off s = Inr (int (length src), s1)" "inode_ok D L s1 ip"
      "file_bytes s1 ip = overwrite (file_bytes s ip) off src"
      "\<forall>b. b \<in> dblocks s \<and> b \<notin> own (fview s) (cpy s ip) \<longrightarrow> fview s1 b = fview s b"
      "\<forall>i < sb_ninodes (sbl s). i \<noteq> i_inum (ino s ip) \<longrightarrow> dnode s1 i = dnode s i"
      "dnode s (i_inum (ino s ip)) = cpy s ip \<longrightarrow> dnode s1 (i_inum (ino s ip)) = cpy s1 ip"
      "card (lused s1) \<le> cost s ip + spanned off (length src) + 1" by auto
  have "off \<le> length (file_bytes s1 ip)" "take (length src) (drop off (file_bytes s1 ip)) = src"
      "length src \<le> length (file_bytes s1 ip) - off"
    using s1(3) assms(6) by (simp_all add: overwrite_def)
  moreover have "cost s1 ip < NBUF" "off + length src < 2 ^ 32"
    using cost_le [of s1 ip] s1(7) c assms(8) by simp_all
  ultimately obtain s2 where "readi ip off (length src) s1 = Inr ((int (length src), src), s2)"
    using readi_law [OF s1(2), of off "length src"] by auto
  then show ?thesis using s1 c by (intro exI [of _ s1]) auto
qed

lemma direct_file_ok:
  assumes c: "dinode_ok c" "di_addrs c = bs @ replicate (13 - length bs) 0" and bs: "length bs \<le> NDIRECT" "distinct bs" "0 \<notin> set bs" "set bs \<subseteq> U"
    and n: "(n + 511) div 512 = length bs"
  shows "file_ok U V c n" "k < length bs \<Longrightarrow> blk V c k = bs ! k"
proof -
  have b: "blk V c k = (if k < length bs then bs ! k else 0)" for k
    using c(2) bs(1) by (auto simp: blk_def nth_append)
  then show "k < length bs \<Longrightarrow> blk V c k = bs ! k" by simp
  have ind: "di_addrs c ! NDIRECT = 0" using c(2) bs(1) by (simp add: nth_append)
  have below: "k * 512 < n \<longleftrightarrow> k < length bs" for k unfolding block_below n ..
  have nz: "bs ! k \<noteq> 0" if "k < length bs" for k using bs(3) nth_mem [OF that] by metis
  have "\<not> NDIRECT * 512 < n" using below [of NDIRECT] bs(1) by simp
  then have le: "n \<le> MAXFILE * 512" by simp
  have "own V c \<subseteq> U" using b subsetD [OF bs(4) nth_mem] ind by (auto simp: own_def split: if_splits)
  moreover have "inj_on (blk V c) {k. k < length bs}" using bs(2) by (auto simp: inj_on_def b nth_eq_iff_index_eq)
  ultimately show "file_ok U V c n"
    unfolding file_ok_def below using c(1) b ind nz le bs(1) by auto
qed

text \<open>The sample disk: its root directory in block 7, and its file \<open>a\<close> of 600 bytes in the blocks 8 and 9.\<close>

lemma fs0_files:
  fixes s :: fs_st
  assumes s: "tinv D s" "fhold s = {}" "lregion s = {90..<100}" "\<forall>n. n \<notin> {90..<100} \<longrightarrow> fview s n = img0 n"
  shows "fs_ok D 90 s" "sb_ninodes (sbl s) = 24" "4 \<le> card (frees 90 s)"
    "file_ok (dblocks s) (fview s) file_dinode 600" "file_ok (dblocks s) (fview s) root_dinode 48"
    "dnode s 1 = root_dinode" "dnode s 2 = file_dinode"
proof -
  note b = fs0_bitmap [OF s(4,3,2)]
  have BM: "BM s = 6" using b(2) [of 0] by simp
  have fv: "fvalid s n" if "n < 90" for n using that s(3) by (simp add: fvalid_def)
  show "fs_ok D 90 s" unfolding fs_ok_def using s(1) b(1,3,5) BM fv by simp
  show "sb_ninodes (sbl s) = 24" using b(1) by simp
  have "{12, 13, 14, 15} \<subseteq> frees 90 s" using b(5) by (simp add: frees_def)
  then have "card {12, 13, 14, 15 :: nat} \<le> card (frees 90 s)" by (intro card_mono) simp_all
  then show "4 \<le> card (frees 90 s)" by simp
  have d: "{7, 8, 9} \<subseteq> dblocks s" using BM b(1) b(5) [of 7] b(5) [of 8] b(5) [of 9] fv by (simp add: dblocks_def)
  then show "file_ok (dblocks s) (fview s) file_dinode 600"
    by (intro direct_file_ok(1) [where bs = "[8, 9]"]) (simp_all add: file_dinode_def [THEN arg_cong [where f = di_addrs]])
  show "file_ok (dblocks s) (fview s) root_dinode 48"
    using d by (intro direct_file_ok(1) [where bs = "[7]"]) (simp_all add: root_dinode_def [THEN arg_cong [where f = di_addrs]])
  have v: "fview s 2 = put_dinode (put_dinode (replicate BSIZE 0) 64 root_dinode) 128 file_dinode" using s(4) by (simp add: img0_def)
  have i: "IBLOCK 1 = 2" "IBLOCK 2 = 2" by (simp_all add: IBLOCK_def)
  show "dnode s 1 = root_dinode" "dnode s 2 = file_dinode"
    unfolding dnode_def i v by (simp_all add: islot_def get_put_dinode get_put_dinode_other)
qed

lemma fs0_inode:
  "\<exists>(s :: fs_st) D. inode_ok D 90 s 0 \<and> lused s = {} \<and> lg_busy s \<and> lcap s = 9 \<and> 4 \<le> card (frees 90 s)
    \<and> length (file_bytes s 0) = 600"
proof -
  from fs0_boot obtain t :: fs_st and D where t: "tinv D t" "lg_busy t" "lg_dev t = ROOTDEV" "fhold t = {}"
    "lused t = {}" "lcap t = 9" "lregion t = {90..<100}" "\<forall>n. n \<notin> {90..<100} \<longrightarrow> fview t n = img0 n"
    "icache t = icache fs0" by blast
  define s where "s = t\<lparr>icache := (icache t)[0 := \<lparr>i_dev = ROOTDEV, i_inum = 2, i_ref = 1, i_busy = True, i_valid = True,
     i_copy = file_dinode\<rparr>]\<rparr>"
  have s: "tinv D s" "fhold s = {}" "lregion s = {90..<100}" "\<forall>n. n \<notin> {90..<100} \<longrightarrow> fview s n = img0 n"
    and more: "lg_busy s" "lg_dev s = ROOTDEV" "lused s = {}" "lcap s = 9"
    using t by (simp_all add: s_def lregion_def)
  have c: "ino s 0 = \<lparr>i_dev = ROOTDEV, i_inum = 2, i_ref = 1, i_busy = True, i_valid = True, i_copy = file_dinode\<rparr>"
    "length (icache s) = NINODE" using t(9) by (simp_all add: s_def fs0_def)
  note f = fs0_files [OF s]
  have "inode_ok D 90 s 0" using f(1,2,4) s(2) more c by (simp add: inode_ok_def locked_def file_dinode_def)
  then show ?thesis
    using f(3) more c by (intro exI [of _ s] exI [of _ D]) (simp add: file_bytes_def file_dinode_def)
qed

theorem writei_readi_witness:
  "\<exists>(s :: fs_st) s1 s2. length (file_bytes s 0) = 600 \<and> writei 0 (replicate 1000 7) 500 s = Inr (1000, s1)
    \<and> length (file_bytes s1 0) = 1500 \<and> readi 0 500 1000 s1 = Inr ((1000, replicate 1000 7), s2)"
proof -
  from fs0_inode obtain s :: fs_st and D where s: "inode_ok D 90 s 0" "lused s = {}" "lg_busy s" "lcap s = 9" "4 \<le> card (frees 90 s)"
    "length (file_bytes s 0) = 600" by blast
  then show ?thesis
    using writei_readi [OF s(1-3), of 500 "replicate 1000 7"] by (force simp: overwrite_def)
qed

end
