(* ===== verification/Icache.thy ===== *)
theory Icache
  imports Inode
begin

text \<open>
  The cache of inodes (\<open>iget\<close>, \<open>idup\<close>, \<open>ilock\<close>, \<open>iunlock\<close> and \<open>iput\<close> of
  \<open>fs.c\<close>): at most one entry per inode in use, whose copy, when valid, is the inode on the disk.
  What the operations do to it is told by the number of references to each inode.
\<close>

subsection \<open>References\<close>

definition refs :: "'a fs_st_scheme \<Rightarrow> nat \<Rightarrow> int" where
  "refs s n = (\<Sum>ip<NINODE. if i_inum (ino s ip) = n then i_ref (ino s ip) else 0)"

definition active :: "'a fs_st_scheme \<Rightarrow> nat set" where
  "active s = {n. 0 < refs s n}"

text \<open>The entries in \<open>K\<close> are locked.\<close>

definition icache_ok :: "nat set \<Rightarrow> 'a fs_st_scheme \<Rightarrow> bool" where
  "icache_ok K s \<longleftrightarrow> length (icache s) = NINODE \<and> (\<forall>ip<NINODE. 0 \<le> i_ref (ino s ip))
     \<and> (\<forall>ip<NINODE. 0 < i_ref (ino s ip) \<longrightarrow> i_dev (ino s ip) = lg_dev s \<and> (i_busy (ino s ip) \<longleftrightarrow> ip \<in> K)
          \<and> (i_valid (ino s ip) \<longrightarrow> i_copy (ino s ip) = dnode s (i_inum (ino s ip))))
     \<and> inj_on (\<lambda>ip. i_inum (ino s ip)) {ip. ip < NINODE \<and> 0 < i_ref (ino s ip)}
     \<and> K \<subseteq> {ip. ip < NINODE \<and> 0 < i_ref (ino s ip)}"

lemma icache_okD:
  assumes "icache_ok K s"
  shows "length (icache s) = NINODE" "ip < NINODE \<Longrightarrow> 0 \<le> i_ref (ino s ip)"
    "ip < NINODE \<Longrightarrow> 0 < i_ref (ino s ip) \<Longrightarrow> i_dev (ino s ip) = lg_dev s"
    "ip < NINODE \<Longrightarrow> 0 < i_ref (ino s ip) \<Longrightarrow> i_busy (ino s ip) \<longleftrightarrow> ip \<in> K"
    "ip < NINODE \<Longrightarrow> 0 < i_ref (ino s ip) \<Longrightarrow> i_valid (ino s ip) \<Longrightarrow> i_copy (ino s ip) = dnode s (i_inum (ino s ip))"
    "ip < NINODE \<Longrightarrow> 0 < i_ref (ino s ip) \<Longrightarrow> j < NINODE \<Longrightarrow> 0 < i_ref (ino s j)
       \<Longrightarrow> i_inum (ino s ip) = i_inum (ino s j) \<Longrightarrow> ip = j"
    "ip \<in> K \<Longrightarrow> ip < NINODE \<and> 0 < i_ref (ino s ip)"
  using assms unfolding icache_ok_def inj_on_def by blast+

lemma refs_upd:
  assumes "ip < NINODE" "length (icache s) = NINODE" "icache s' = (icache s)[ip := x]"
  shows "refs s' n + (if i_inum (ino s ip) = n then i_ref (ino s ip) else 0)
    = refs s n + (if i_inum x = n then i_ref x else 0)"
proof -
  let ?f = "\<lambda>s j. if i_inum (ino s j) = n then i_ref (ino s j) else 0"
  have "sum (?f s') ({..<NINODE} - {ip}) = sum (?f s) ({..<NINODE} - {ip})"
    using assms by (intro sum.cong) auto
  then show ?thesis
    using sum.remove [of "{..<NINODE}" ip "?f s'"] sum.remove [of "{..<NINODE}" ip "?f s"] assms
    by (simp add: refs_def)
qed

lemma dnode_icache [simp]: "dnode (icache_update f s) = dnode s"
  by (simp add: dnode_def fun_eq_iff)

lemma refs_set:
  assumes "ip < NINODE" "length (icache s) = NINODE" "icache s' = (icache s)[ip := x]"
    and "i_inum x = n" "i_inum (ino s ip) = n \<or> i_ref (ino s ip) = 0"
  shows "refs s' = (refs s)(n := refs s n + i_ref x - i_ref (ino s ip))"
proof
  fix m show "refs s' m = ((refs s)(n := refs s n + i_ref x - i_ref (ino s ip))) m"
    using refs_upd [OF assms(1-3), of m] assms(4,5) by (cases "m = n") (auto split: if_splits)
qed

lemma refs_cong: "icache s' = icache s \<Longrightarrow> refs s' = refs s"
  by (simp add: refs_def fun_eq_iff cong: if_cong)

lemma icache_ok_upd:
  assumes ok: "icache_ok K s" and ip: "ip < NINODE" and ic: "icache s' = (icache s)[ip := x]"
    and same: "dnode s' = dnode s" "lg_dev s' = lg_dev s" "K' - {ip} = K - {ip}"
    and x: "0 \<le> i_ref x" "ip \<in> K' \<Longrightarrow> 0 < i_ref x" "0 < i_ref x \<Longrightarrow> i_dev x = lg_dev s \<and> (i_busy x \<longleftrightarrow> ip \<in> K')
      \<and> (i_valid x \<longrightarrow> i_copy x = dnode s (i_inum x))"
      "\<And>j. 0 < i_ref x \<Longrightarrow> j < NINODE \<Longrightarrow> j \<noteq> ip \<Longrightarrow> 0 < i_ref (ino s j) \<Longrightarrow> i_inum (ino s j) \<noteq> i_inum x"
  shows "icache_ok K' s'"
proof -
  note o = icache_okD [OF ok]
  have at: "ino s' ip = x" and other: "\<And>j. j \<noteq> ip \<Longrightarrow> ino s' j = ino s j" using ic ip o(1) by simp_all
  have K: "j \<in> K' \<longleftrightarrow> j \<in> K" if "j \<noteq> ip" for j using same(3) that by blast
  have "i_dev (ino s' j) = lg_dev s' \<and> (i_busy (ino s' j) \<longleftrightarrow> j \<in> K')
      \<and> (i_valid (ino s' j) \<longrightarrow> i_copy (ino s' j) = dnode s' (i_inum (ino s' j)))"
    if "j < NINODE" "0 < i_ref (ino s' j)" for j
    using that at other [of j] o(3,4,5) [of j] x(3) K [of j] same(1,2) by (cases "j = ip") simp_all
  moreover have "0 \<le> i_ref (ino s' j)" if "j < NINODE" for j using that at other [of j] o(2) [of j] x(1) by (cases "j = ip") simp_all
  moreover have "inj_on (\<lambda>ip. i_inum (ino s' ip)) {ip. ip < NINODE \<and> 0 < i_ref (ino s' ip)}"
  proof (rule inj_onI)
    fix j k
    assume jk: "j \<in> {ip. ip < NINODE \<and> 0 < i_ref (ino s' ip)}" "k \<in> {ip. ip < NINODE \<and> 0 < i_ref (ino s' ip)}"
      "i_inum (ino s' j) = i_inum (ino s' k)"
    show "j = k"
    proof (rule ccontr)
      assume "j \<noteq> k"
      then consider "j = ip" "k \<noteq> ip" | "j \<noteq> ip" "k = ip" | "j \<noteq> ip" "k \<noteq> ip" by blast
      then show False
      proof cases
        case 1
        then show ?thesis using jk at other [of k] x(4) [of k] by simp
      next
        case 2
        then show ?thesis using jk at other [of j] x(4) [of j] by simp
      next
        case 3
        then show ?thesis using jk other [of j] other [of k] o(6) [of j k] \<open>j \<noteq> k\<close> by simp
      qed
    qed
  qed
  moreover have "j < NINODE \<and> 0 < i_ref (ino s' j)" if "j \<in> K'" for j
    using that at other [of j] o(7) [of j] x(2) K [of j] ip by (cases "j = ip") simp_all
  ultimately show ?thesis using o(1) ic unfolding icache_ok_def by auto
qed

lemma icache_ok_entry:
  assumes ok: "icache_ok K s" and ip: "ip < NINODE" "0 < i_ref (ino s ip)" and ic: "icache s' = (icache s)[ip := x]"
    and same: "dnode s' = dnode s" "lg_dev s' = lg_dev s" "K' - {ip} = K - {ip}" "i_inum x = i_inum (ino s ip)" "i_dev x = lg_dev s"
    and x: "0 \<le> i_ref x" "ip \<in> K' \<Longrightarrow> 0 < i_ref x" "i_busy x \<longleftrightarrow> ip \<in> K'" "i_valid x \<Longrightarrow> i_copy x = dnode s (i_inum x)"
  shows "icache_ok K' s'"
proof (rule icache_ok_upd [OF ok ip(1) ic same(1-3) x(1,2)])
  show "i_inum (ino s j) \<noteq> i_inum x" if "j < NINODE" "j \<noteq> ip" "0 < i_ref (ino s j)" for j
    using icache_okD(6) [OF ok that(1,3) ip] that(2) same(4) by auto
qed (use same x in simp_all)

lemma icache_ok_cong:
  assumes "icache_ok K s" "icache s' = icache s" "dnode s' = dnode s" "lg_dev s' = lg_dev s"
  shows "icache_ok K s'"
  using assms by (simp add: icache_ok_def)

text \<open>An inode with a reference has an entry, and as long as not all entries are in use one is free.\<close>

lemma refs_pos:
  assumes "icache_ok K s" "ip < NINODE" "0 < i_ref (ino s ip)"
  shows "refs s (i_inum (ino s ip)) = i_ref (ino s ip)"
proof -
  note o = icache_okD [OF assms(1)]
  let ?f = "\<lambda>j. if i_inum (ino s j) = i_inum (ino s ip) then i_ref (ino s j) else 0"
  have "?f j = 0" if "j \<in> {..<NINODE} - {ip}" for j
    using that o(2) [of j] o(6) [of j ip] assms(2,3) by (cases "0 < i_ref (ino s j)") auto
  then have "sum ?f ({..<NINODE} - {ip}) = 0" by (intro sum.neutral) blast
  then show ?thesis using sum.remove [of "{..<NINODE}" ip ?f] assms(2) by (simp add: refs_def)
qed

lemma active_eq:
  assumes "icache_ok K s"
  shows "active s = (\<lambda>ip. i_inum (ino s ip)) ` {ip. ip < NINODE \<and> 0 < i_ref (ino s ip)}"
proof (intro set_eqI iffI)
  fix n assume "n \<in> active s"
  then have "refs s n \<noteq> 0" by (simp add: active_def)
  from this [unfolded refs_def] obtain ip where "ip \<in> {..<NINODE}" "(if i_inum (ino s ip) = n then i_ref (ino s ip) else 0) \<noteq> 0"
    by (rule sum.not_neutral_contains_not_neutral)
  then show "n \<in> (\<lambda>ip. i_inum (ino s ip)) ` {ip. ip < NINODE \<and> 0 < i_ref (ino s ip)}"
    using icache_okD(2) [OF assms, of ip] by (auto split: if_splits)
next
  fix n assume "n \<in> (\<lambda>ip. i_inum (ino s ip)) ` {ip. ip < NINODE \<and> 0 < i_ref (ino s ip)}"
  then show "n \<in> active s" using refs_pos [OF assms] by (auto simp: active_def)
qed

lemma finite_active: "icache_ok K s \<Longrightarrow> finite (active s)"
  by (simp add: active_eq)

lemma free_entry:
  assumes "icache_ok K s" "card (active s) < NINODE"
  shows "\<exists>ip<NINODE. i_ref (ino s ip) = 0"
proof (rule ccontr)
  assume n: "\<not> ?thesis"
  have "0 < i_ref (ino s ip)" if "ip < NINODE" for ip using n icache_okD(2) [OF assms(1) that] that by (metis less_le)
  then have "{ip. ip < NINODE \<and> 0 < i_ref (ino s ip)} = {..<NINODE}" by blast
  then have "card (active s) = NINODE"
    using card_image [of "\<lambda>ip. i_inum (ino s ip)" "{..<NINODE}"] assms(1) by (simp add: active_eq [OF assms(1)] icache_ok_def)
  then show False using assms(2) by simp
qed

text \<open>The cache after the boot.\<close>

lemma icache_empty:
  assumes "length (icache s) = NINODE" "\<And>ip. ip < NINODE \<Longrightarrow> i_ref (ino s ip) = 0"
  shows "icache_ok {} s" "refs s = (\<lambda>_. 0)" "active s = {}"
proof -
  have "{ip. ip < NINODE \<and> 0 < i_ref (ino s ip)} = {}" using assms(2) by auto
  then show "icache_ok {} s" using assms unfolding icache_ok_def by (simp only:) auto
  have "refs s n = 0" for n unfolding refs_def using assms(2) by (intro sum.neutral) simp
  then show "refs s = (\<lambda>_. 0)" by blast
  then show "active s = {}" by (simp add: active_def)
qed

subsection \<open>Operations\<close>

text \<open>What an operation that only reads leaves alone.\<close>

definition steady :: "(nat \<times> nat \<Rightarrow> byte list) \<Rightarrow> nat \<Rightarrow> 'a fs_st_scheme \<Rightarrow> 'a fs_st_scheme \<Rightarrow> bool" where
  "steady D L s s' \<longleftrightarrow> fs_ok D L s' \<and> fhold s' = {} \<and> fview s' = fview s \<and> lused s' = lused s \<and> gframe s' = gframe s"

lemma steadyD:
  assumes "steady D L s s'"
  shows "fs_ok D L s'" "fhold s' = {}" "fview s' = fview s" "lused s' = lused s" "gframe s' = gframe s"
    "lg_dev s' = lg_dev s" "sbl s' = sbl s" "dblocks s' = dblocks s" "dnode s' = dnode s"
proof -
  show c: "fs_ok D L s'" "fhold s' = {}" "fview s' = fview s" "lused s' = lused s" "gframe s' = gframe s"
    using assms by (simp_all add: steady_def)
  show "lg_dev s' = lg_dev s" by (rule gframeD(1) [OF c(5)])
  show sb: "sbl s' = sbl s" by (rule sbl_cong [OF c(3)])
  show "dblocks s' = dblocks s" using sb c(3) gframeD(3) [OF c(5)] by (simp add: dblocks_def bused_def)
  show "dnode s' = dnode s" using c(3) by (simp add: dnode_def fun_eq_iff)
qed

lemma steady_trans: "steady D L s s1 \<Longrightarrow> steady D L s1 s2 \<Longrightarrow> steady D L s s2"
  by (simp add: steady_def)

lemma steady_icache: "fs_ok D L s \<Longrightarrow> fhold s = {} \<Longrightarrow> steady D L s (s\<lparr>icache := ic\<rparr>)"
  by (simp add: steady_def)

lemma iget_law:
  assumes ok: "icache_ok K s" and room: "card (active s) < NINODE"
  shows "\<exists>ip ic. iget (lg_dev s) n s = Inr (ip, s\<lparr>icache := ic\<rparr>) \<and> ip < NINODE \<and> i_inum (ic ! ip) = n \<and> 0 < i_ref (ic ! ip)
    \<and> icache_ok K (s\<lparr>icache := ic\<rparr>) \<and> refs (s\<lparr>icache := ic\<rparr>) = (refs s)(n := refs s n + 1)
    \<and> (\<forall>j<NINODE. 0 < i_ref (ino s j) \<longrightarrow> ic ! j = (ino s j)\<lparr>i_ref := i_ref (ic ! j)\<rparr> \<and> i_ref (ino s j) \<le> i_ref (ic ! j))"
proof -
  note o = icache_okD [OF ok]
  let ?P = "\<lambda>ip. 0 < i_ref (ino s ip) \<and> i_dev (ino s ip) = lg_dev s \<and> i_inum (ino s ip) = n"
  show ?thesis
  proof (cases "find ?P [0..<NINODE]")
    case (Some ip)
    then have ip: "ip < NINODE" "0 < i_ref (ino s ip)" "i_inum (ino s ip) = n" by (auto dest: find_SomeD)
    let ?x = "(ino s ip)\<lparr>i_ref := i_ref (ino s ip) + 1\<rparr>" and ?s' = "s\<lparr>icache := (icache s)[ip := (ino s ip)\<lparr>i_ref := i_ref (ino s ip) + 1\<rparr>]\<rparr>"
    have "refs ?s' = (refs s)(n := refs s n + 1)"
      using refs_set [OF ip(1) o(1), of ?s' ?x n] ip(3) by simp
    moreover have "icache_ok K ?s'"
      using ip o(3-5) [OF ip(1,2)] by (intro icache_ok_entry [OF ok ip(1,2), where x = ?x]) auto
    moreover have "iget (lg_dev s) n s = Inr (ip, ?s')" using Some by (simp add: iget_def upd_ino_def ret_def)
    ultimately show ?thesis
      using ip o(1) by (intro exI [of _ ip] exI [of _ "icache ?s'"]) (auto simp: nth_list_update)
  next
    case None
    then have new: "\<not> ?P j" if "j < NINODE" for j using that by (simp add: find_None_iff)
    have "find (\<lambda>ip. i_ref (ino s ip) = 0) [0..<NINODE] \<noteq> None"
      using free_entry [OF ok room] by (auto simp: find_None_iff)
    then obtain ip where f: "find (\<lambda>ip. i_ref (ino s ip) = 0) [0..<NINODE] = Some ip" by auto
    then have ip: "ip < NINODE" "i_ref (ino s ip) = 0" by (auto dest: find_SomeD)
    define x where "x = (ino s ip)\<lparr>i_dev := lg_dev s, i_inum := n, i_ref := 1, i_busy := False, i_valid := False\<rparr>"
    let ?s' = "s\<lparr>icache := (icache s)[ip := x]\<rparr>"
    have x: "i_dev x = lg_dev s" "i_inum x = n" "i_ref x = 1" "\<not> i_busy x" "\<not> i_valid x" by (simp_all add: x_def)
    have "refs ?s' = (refs s)(n := refs s n + 1)"
      using refs_set [OF ip(1) o(1), of ?s' x n] ip(2) x by simp
    moreover have "icache_ok K ?s'"
    proof (rule icache_ok_upd [OF ok ip(1), where x = x])
      show "i_inum (ino s j) \<noteq> i_inum x" if "j < NINODE" "0 < i_ref (ino s j)" for j
        using new [OF that(1)] o(3) [OF that] that(2) x(2) by auto
    qed (use ip x o(7) [of ip] in auto)
    moreover have "iget (lg_dev s) n s = Inr (ip, ?s')" using None f by (simp add: iget_def upd_ino_def ret_def x_def)
    ultimately show ?thesis
      using ip o(1) x by (intro exI [of _ ip] exI [of _ "icache ?s'"]) (auto simp: nth_list_update)
  qed
qed

lemma idup_law:
  assumes ok: "icache_ok K s" and ip: "ip < NINODE" "0 < i_ref (ino s ip)"
  shows "\<exists>ic. idup ip s = Inr (ip, s\<lparr>icache := ic\<rparr>) \<and> i_inum (ic ! ip) = i_inum (ino s ip) \<and> 0 < i_ref (ic ! ip)
    \<and> icache_ok K (s\<lparr>icache := ic\<rparr>)
    \<and> refs (s\<lparr>icache := ic\<rparr>) = (refs s)(i_inum (ino s ip) := refs s (i_inum (ino s ip)) + 1)"
proof -
  note o = icache_okD [OF ok]
  let ?x = "(ino s ip)\<lparr>i_ref := i_ref (ino s ip) + 1\<rparr>" and ?s' = "s\<lparr>icache := (icache s)[ip := (ino s ip)\<lparr>i_ref := i_ref (ino s ip) + 1\<rparr>]\<rparr>"
  have "icache_ok K ?s'"
    using ip o(3-5) [OF ip] by (intro icache_ok_entry [OF ok ip(1,2), where x = ?x]) auto
  moreover have "refs ?s' = (refs s)(i_inum (ino s ip) := refs s (i_inum (ino s ip)) + 1)"
    using refs_set [OF ip(1) o(1), of ?s' ?x] by simp
  moreover have "idup ip s = Inr (ip, ?s')" by (simp add: idup_def upd_ino_def ret_def)
  ultimately show ?thesis using ip o(1) by (intro exI [of _ "icache ?s'"]) simp
qed

text \<open>Locking an entry reads the inode if it has not been read yet.\<close>

lemma lock_law:
  assumes fs: "fs_ok D L s" "fhold s = {}" "card (lused s) < NBUF" and ok: "icache_ok K s"
    and ip: "ip < NINODE" "0 < i_ref (ino s ip)" "ip \<notin> K"
    and n: "i_inum (ino s ip) < sb_ninodes (sbl s)" "di_type (dnode s (i_inum (ino s ip))) \<noteq> 0"
  shows "\<exists>s'. ilock ip s = Inr ((), s') \<and> steady D L s s' \<and> icache_ok (insert ip K) s' \<and> refs s' = refs s
    \<and> icache s' = (icache s)[ip := (ino s ip)\<lparr>i_busy := True, i_copy := dnode s (i_inum (ino s ip)), i_valid := True\<rparr>]"
proof -
  note o = icache_okD [OF ok]
  let ?x = "(ino s ip)\<lparr>i_busy := True, i_copy := dnode s (i_inum (ino s ip)), i_valid := True\<rparr>"
  have "in_ok s ip" using ip(1) o(1) o(3) [OF ip(1,2)] inode_block(4) [OF fs(1) n(1)] fs(2) by (simp add: in_ok_def)
  moreover have "1 \<le> i_ref (ino s ip)" "\<not> i_busy (ino s ip)" using ip o(4) [OF ip(1,2)] by simp_all
  ultimately obtain s' where s': "ilock ip s = Inr ((), s')" "tinv D s'" "fview s' = fview s" "fhold s' = fhold s"
    "lused s' = lused s" "gframe s' = gframe s"
    "icache s' = (icache s)[ip := (ino s ip)\<lparr>i_busy := True,
         i_copy := if i_valid (ino s ip) then i_copy (ino s ip) else dnode s (i_inum (ino s ip)), i_valid := True\<rparr>]"
    using ilock_law [OF fs_okD(1) [OF fs(1)], of ip] fs(2,3) n(2) by auto
  have ic: "icache s' = (icache s)[ip := ?x]" using s'(7) o(5) [OF ip(1,2)] by (cases "i_valid (ino s ip)") simp_all
  have fv: "fvalid s' = fvalid s" and dev: "lg_dev s' = lg_dev s" by (rule gframeD(1,3) [OF s'(6)])+
  have sb: "sbl s' = sbl s" by (rule sbl_cong [OF s'(3)])
  have "bitmap_ok s'" using fs_okD(3) [OF fs(1)] by (simp add: bitmap_ok_cong [OF s'(3,4) fv])
  moreover have "bused s' = bused s" using s'(3) sb by (simp add: bused_def fun_eq_iff)
  ultimately have st: "steady D L s s'"
    using fs s' sb fv by (simp add: steady_def fs_ok_def)
  have "icache_ok (insert ip K) s'"
    using ip o(3) [OF ip(1,2)] by (intro icache_ok_entry [OF ok ip(1,2) ic steadyD(9,6) [OF st]]) auto
  moreover have "refs s' = refs s" using refs_set [OF ip(1) o(1) ic] by simp
  ultimately show ?thesis using s'(1) st ic by blast
qed

lemma unlock_law:
  assumes fs: "fs_ok D L s" "fhold s = {}" and ok: "icache_ok K s" and ip: "ip \<in> K"
  shows "\<exists>ic. iunlock ip s = Inr ((), s\<lparr>icache := ic\<rparr>) \<and> ic = (icache s)[ip := (ino s ip)\<lparr>i_busy := False\<rparr>]
    \<and> icache_ok (K - {ip}) (s\<lparr>icache := ic\<rparr>) \<and> refs (s\<lparr>icache := ic\<rparr>) = refs s"
proof -
  note o = icache_okD [OF ok]
  have ip': "ip < NINODE" "0 < i_ref (ino s ip)" using o(7) [OF ip] by simp_all
  let ?x = "(ino s ip)\<lparr>i_busy := False\<rparr>" and ?s' = "s\<lparr>icache := (icache s)[ip := (ino s ip)\<lparr>i_busy := False\<rparr>]\<rparr>"
  have "icache_ok (K - {ip}) ?s'"
    using ip' o(3,5) [OF ip'] by (intro icache_ok_entry [OF ok ip', where x = ?x]) auto
  moreover have "refs ?s' = refs s" using refs_set [OF ip'(1) o(1), of ?s' ?x] by simp
  moreover have "iunlock ip s = Inr ((), ?s')" using ip ip' o(4) [OF ip'] by (simp add: iunlock_def upd_ino_def modify_def)
  ultimately show ?thesis by (intro exI [of _ "icache ?s'"]) simp
qed

text \<open>Giving up a reference to an inode that has a name.\<close>

lemma iput_law:
  assumes ok: "icache_ok K s" and ip: "ip < NINODE" "0 < i_ref (ino s ip)" "ip \<in> K \<Longrightarrow> 1 < i_ref (ino s ip)"
    and n: "di_nlink (dnode s (i_inum (ino s ip))) \<noteq> 0"
  shows "\<exists>ic. iput ip s = Inr ((), s\<lparr>icache := ic\<rparr>) \<and> icache_ok K (s\<lparr>icache := ic\<rparr>)
    \<and> (\<forall>j. j \<noteq> ip \<longrightarrow> ic ! j = ino s j) \<and> ic ! ip = (ino s ip)\<lparr>i_ref := i_ref (ino s ip) - 1\<rparr>
    \<and> refs (s\<lparr>icache := ic\<rparr>) = (refs s)(i_inum (ino s ip) := refs s (i_inum (ino s ip)) - 1)"
proof -
  note o = icache_okD [OF ok]
  let ?x = "(ino s ip)\<lparr>i_ref := i_ref (ino s ip) - 1\<rparr>" and ?s' = "s\<lparr>icache := (icache s)[ip := (ino s ip)\<lparr>i_ref := i_ref (ino s ip) - 1\<rparr>]\<rparr>"
  have "icache_ok K ?s'"
    using ip o(3-5) [OF ip(1,2)] by (intro icache_ok_entry [OF ok ip(1,2), where x = ?x]) auto
  moreover have "refs ?s' = (refs s)(i_inum (ino s ip) := refs s (i_inum (ino s ip)) - 1)"
    using refs_set [OF ip(1) o(1), of ?s' ?x] by simp
  moreover have "iput ip s = Inr ((), ?s')"
    using n o(5) [OF ip(1,2)] by (auto simp: iput_def Let_def upd_ino_def kbind_def modify_def)
  ultimately show ?thesis using ip o(1) by (intro exI [of _ "icache ?s'"]) simp
qed

lemma iunlockput_law:
  assumes fs: "fs_ok D L s" "fhold s = {}" and ok: "icache_ok K s" and ip: "ip \<in> K"
    and n: "di_nlink (dnode s (i_inum (ino s ip))) \<noteq> 0"
  shows "\<exists>ic. iunlockput ip s = Inr ((), s\<lparr>icache := ic\<rparr>) \<and> icache_ok (K - {ip}) (s\<lparr>icache := ic\<rparr>)
    \<and> (\<forall>j. j \<noteq> ip \<longrightarrow> ic ! j = ino s j) \<and> i_inum (ic ! ip) = i_inum (ino s ip) \<and> i_ref (ic ! ip) = i_ref (ino s ip) - 1
    \<and> refs (s\<lparr>icache := ic\<rparr>) = (refs s)(i_inum (ino s ip) := refs s (i_inum (ino s ip)) - 1)"
proof -
  have ip': "ip < length (icache s)" "ip < NINODE" "0 < i_ref (ino s ip)" using icache_okD(1,7) [OF ok] ip by simp_all
  obtain ic where ic: "iunlock ip s = Inr ((), s\<lparr>icache := ic\<rparr>)" "ic = (icache s)[ip := (ino s ip)\<lparr>i_busy := False\<rparr>]"
    "icache_ok (K - {ip}) (s\<lparr>icache := ic\<rparr>)" "refs (s\<lparr>icache := ic\<rparr>) = refs s"
    using unlock_law [OF fs ok ip] by blast
  have "ic ! ip = (ino s ip)\<lparr>i_busy := False\<rparr>" "\<And>j. j \<noteq> ip \<Longrightarrow> ic ! j = ino s j" using ic(2) ip' by simp_all
  then show ?thesis
    using iput_law [OF ic(3) ip'(2)] ip' n ic(1,4) by (auto simp: iunlockput_def)
qed

end
