(* ===== verification/Namei.thy ===== *)
theory Namei
  imports Icache Dir
begin

text \<open>
  Directories as maps from names to inode numbers, and paths through them: \<open>dirlookup\<close> finds the
  first entry of a name, \<open>dirlink\<close> adds an entry, and \<open>namex\<close> follows a path from directory
  to directory, taking and giving up a reference to each inode on the way.
\<close>

subsection \<open>Searching a directory\<close>

text \<open>The first entry from number \<open>k\<close> on that is in use and has the name.\<close>

definition dfind :: "byte list \<Rightarrow> byte list \<Rightarrow> nat \<Rightarrow> nat option" where
  "dfind bs nm k = find (\<lambda>j. get16 bs (16 * j) \<noteq> 0 \<and> cname DIRSIZ (drop (16 * j + 2) bs) = nm) [k..<length bs div 16]"

definition dlook :: "byte list \<Rightarrow> byte list \<Rightarrow> nat option" where
  "dlook bs nm = map_option (\<lambda>j. get16 bs (16 * j)) (dfind bs nm 0)"

lemma dfind_step:
  "dfind bs nm k =
     (if k < length bs div 16 then
        if get16 bs (16 * k) \<noteq> 0 \<and> cname DIRSIZ (drop (16 * k + 2) bs) = nm then Some k else dfind bs nm (Suc k)
      else None)"
  by (simp add: dfind_def upt_rec)

lemma entry_slice:
  assumes "16 * k + 16 \<le> length bs"
  shows "get16 (take 16 (drop (16 * k) bs)) 0 = get16 bs (16 * k)"
    "length (drop 2 (take 16 (drop (16 * k) bs))) = 14"
    "cname DIRSIZ (drop 2 (take 16 (drop (16 * k) bs))) = cname DIRSIZ (drop (16 * k + 2) bs)"
proof -
  show "get16 (take 16 (drop (16 * k) bs)) 0 = get16 bs (16 * k)"
    using assms by (simp add: get16_def)
  show "length (drop 2 (take 16 (drop (16 * k) bs))) = 14" using assms by simp
  have "drop 2 (take 16 (drop (16 * k) bs)) = take 14 (drop (16 * k + 2) bs)" by (simp add: drop_take add.commute)
  then show "cname DIRSIZ (drop 2 (take 16 (drop (16 * k) bs))) = cname DIRSIZ (drop (16 * k + 2) bs)"
    by (simp add: cname_def)
qed

text \<open>A locked directory.\<close>

definition dir_ok :: "(nat \<times> nat \<Rightarrow> byte list) \<Rightarrow> nat \<Rightarrow> 'a fs_st_scheme \<Rightarrow> nat \<Rightarrow> bool" where
  "dir_ok D L s dp \<longleftrightarrow> inode_ok D L s dp \<and> di_type (cpy s dp) = T_DIR \<and> 16 dvd length (file_bytes s dp)"

lemma dir_ok_cong:
  assumes "dir_ok D L s dp" "steady D L s s'" "length (icache s') = length (icache s)"
    and "i_copy (ino s' dp) = i_copy (ino s dp)" "i_dev (ino s' dp) = i_dev (ino s dp)" "i_inum (ino s' dp) = i_inum (ino s dp)"
  shows "dir_ok D L s' dp" "file_bytes s' dp = file_bytes s dp"
  using assms steadyD [OF assms(2)] by (simp_all add: dir_ok_def inode_ok_def locked_def file_bytes_def)

lemma dir_read:
  assumes ok: "dir_ok D L s dp" and room: "card (lused s) \<le> 7" and k: "k < length (file_bytes s dp) div 16"
  shows "\<exists>s1. readi dp (16 * k) 16 s = Inr ((16, take 16 (drop (16 * k) (file_bytes s dp))), s1) \<and> dir_ok D L s1 dp
    \<and> file_bytes s1 dp = file_bytes s dp \<and> fview s1 = fview s \<and> lused s1 = lused s \<and> fframe s1 = fframe s"
proof -
  have i: "inode_ok D L s dp" using ok by (simp add: dir_ok_def)
  have "length (file_bytes s dp) \<le> MAXFILE * 512"
    using i file_ok_ind(6) unfolding inode_ok_def file_bytes_def length_file_contents by blast
  moreover have e: "16 * k + 16 \<le> length (file_bytes s dp)" using k by linarith
  ultimately have "16 * k \<le> length (file_bytes s dp)" "16 * k + 16 < 2 ^ 32" by simp_all
  moreover have "cost s dp < NBUF" using cost_le [of s dp] room by simp
  ultimately obtain s1 where s1: "readi dp (16 * k) 16 s
      = Inr ((int (min 16 (length (file_bytes s dp) - 16 * k)), take 16 (drop (16 * k) (file_bytes s dp))), s1)"
    "inode_ok D L s1 dp" "file_bytes s1 dp = file_bytes s dp" "fview s1 = fview s" "lused s1 = lused s" "fframe s1 = fframe s"
    using readi_law [OF i] by blast
  then show ?thesis
    using e ok fframe_fsD(1) [OF s1(6)] by (intro exI [of _ s1]) (auto simp: dir_ok_def)
qed

lemma dirlookup_loop_law:
  assumes "dir_ok D L s dp" "card (lused s) \<le> 7" "readable DIRSIZ name"
  shows "\<exists>s1. dirlookup_loop dp name (16 * k) s
      = (case dfind (file_bytes s dp) (cname DIRSIZ name) k of None \<Rightarrow> Inr (None, s1)
         | Some j \<Rightarrow> kbind (iget (lg_dev s) (get16 (file_bytes s dp) (16 * j))) (\<lambda>ip. ret (Some (ip, 16 * j))) s1)
    \<and> dir_ok D L s1 dp \<and> file_bytes s1 dp = file_bytes s dp \<and> fview s1 = fview s \<and> lused s1 = lused s \<and> fframe s1 = fframe s"
  using assms
proof (induction "length (file_bytes s dp) div 16 - k" arbitrary: k s)
  case 0
  let ?bs = "file_bytes s dp"
  have "16 dvd length ?bs" using 0(2) by (simp add: dir_ok_def)
  then have "length ?bs \<le> 16 * k" using 0(1) by auto
  then have "\<not> 16 * k < di_size (cpy s dp)" by (simp add: file_bytes_def)
  moreover have "dfind ?bs nm k = None" for nm using 0(1) by (subst dfind_step) simp
  ultimately show ?case
    using 0(2) by (subst dirlookup_loop.simps) (auto simp: gets_def kbind_def ret_def)
next
  case (Suc d)
  let ?bs = "file_bytes s dp" and ?nm = "cname DIRSIZ name"
  have k: "k < length ?bs div 16" "16 * k + 16 \<le> length ?bs" using Suc(2) by linarith+
  obtain s1 where s1: "readi dp (16 * k) 16 s = Inr ((16, take 16 (drop (16 * k) ?bs)), s1)" "dir_ok D L s1 dp"
    "file_bytes s1 dp = ?bs" "fview s1 = fview s" "lused s1 = lused s" "fframe s1 = fframe s"
    using dir_read [OF Suc(3,4) k(1)] by blast
  have lt: "16 * k < di_size (cpy s dp)" "16 * k < 2 ^ 32" "i_dev (ino s dp) = lg_dev s"
    using k(2) Suc(3) file_ok_ind(6) [of _ _ "cpy s dp"]
    unfolding dir_ok_def inode_ok_def locked_def file_bytes_def by force+
  note e = entry_slice [OF k(2)]
  let ?de = "take 16 (drop (16 * k) ?bs)"
  obtain v where v: "namecmp name (drop 2 ?de) = Some v" "v = 0 \<longleftrightarrow> ?nm = cname DIRSIZ (drop (16 * k + 2) ?bs)"
    using strncmp_cname [of DIRSIZ name "drop 2 ?de"] e(2,3) Suc(5) by (auto simp: namecmp_def readable_def)
  have dev1: "i_dev (ino s1 dp) = lg_dev s" using fframe_fsD(1) [OF s1(6)] lt(3) by simp
  have step: "dirlookup_loop dp name (16 * k) s
      = (if get16 ?bs (16 * k) \<noteq> 0 \<and> cname DIRSIZ (drop (16 * k + 2) ?bs) = ?nm
         then kbind (iget (lg_dev s) (get16 ?bs (16 * k))) (\<lambda>ip. ret (Some (ip, 16 * k))) s1
         else dirlookup_loop dp name (16 * Suc k) s1)"
    using lt s1(1) e v dev1
    by (subst dirlookup_loop.simps) (auto simp: gets_def kbind_def lift_opt_def ret_def add.commute)
  show ?case
  proof (cases "get16 ?bs (16 * k) \<noteq> 0 \<and> cname DIRSIZ (drop (16 * k + 2) ?bs) = ?nm")
    case True
    then have "dfind ?bs ?nm k = Some k" using k(1) by (subst dfind_step) simp
    then show ?thesis using step True s1 by (intro exI [of _ s1]) simp
  next
    case False
    then have "dfind ?bs ?nm k = dfind ?bs ?nm (Suc k)" using k(1) by (subst dfind_step) auto
    moreover have "d = length (file_bytes s1 dp) div 16 - Suc k" "card (lused s1) \<le> 7" using Suc(2,4) s1(3,5) by simp_all
    note Suc(1) [OF this(1) s1(2) this(2) Suc(5), unfolded s1(3-6) fframe_geom(1) [OF s1(6)]]
    ultimately show ?thesis unfolding step if_not_P [OF False] by simp
  qed
qed

text \<open>A lookup takes a reference to the inode it finds.\<close>

lemma dirlookup_law:
  assumes ok: "dir_ok D L s dp" and room: "card (lused s) \<le> 7" and name: "readable DIRSIZ name"
    and ic: "icache_ok K s" "card (active s) < NINODE"
  shows "case dlook (file_bytes s dp) (cname DIRSIZ name) of
      None \<Rightarrow> \<exists>s1. dirlookup dp name s = Inr (None, s1) \<and> steady D L s s1 \<and> icache s1 = icache s
    | Some n \<Rightarrow> \<exists>ip off s1. dirlookup dp name s = Inr (Some (ip, off), s1) \<and> steady D L s s1 \<and> ip < NINODE
        \<and> i_inum (ino s1 ip) = n \<and> 0 < i_ref (ino s1 ip) \<and> icache_ok K s1 \<and> refs s1 = (refs s)(n := refs s n + 1)
        \<and> (\<forall>j<NINODE. 0 < i_ref (ino s j) \<longrightarrow> ino s1 j = (ino s j)\<lparr>i_ref := i_ref (ino s1 j)\<rparr> \<and> i_ref (ino s j) \<le> i_ref (ino s1 j))"
proof -
  let ?bs = "file_bytes s dp" and ?nm = "cname DIRSIZ name"
  from dirlookup_loop_law [OF ok room name, of 0] obtain s1 where
    s1: "dirlookup_loop dp name (16 * 0) s = (case dfind ?bs ?nm 0 of None \<Rightarrow> Inr (None, s1)
         | Some j \<Rightarrow> kbind (iget (lg_dev s) (get16 ?bs (16 * j))) (\<lambda>ip. ret (Some (ip, 16 * j))) s1)"
      "dir_ok D L s1 dp" "fview s1 = fview s" "lused s1 = lused s" "fframe s1 = fframe s" by blast
  have run: "dirlookup dp name s = (case dfind ?bs ?nm 0 of None \<Rightarrow> Inr (None, s1)
         | Some j \<Rightarrow> kbind (iget (lg_dev s) (get16 ?bs (16 * j))) (\<lambda>ip. ret (Some (ip, 16 * j))) s1)"
    using s1(1) ok by (simp add: dirlookup_def dir_ok_def)
  note same = fframe_fsD(1) [OF s1(5)] and dev = fframe_geom(1) [OF s1(5)]
  have fs1: "fs_ok D L s1" "fhold s1 = {}" using s1(2) by (simp_all add: dir_ok_def inode_ok_def)
  then have st: "steady D L s s1" using s1(3,4) gframe_fframe [OF s1(5)] by (simp add: steady_def)
  have ic1: "icache_ok K s1" "refs s1 = refs s"
    by (rule icache_ok_cong [OF ic(1) same steadyD(9) [OF st] dev], rule refs_cong [OF same])
  show ?thesis
  proof (cases "dfind ?bs ?nm 0")
    case None
    then show ?thesis using run st same by (auto simp: dlook_def)
  next
    case (Some j)
    let ?n = "get16 ?bs (16 * j)"
    have "card (active s1) < NINODE" using ic(2) ic1(2) by (simp add: active_def)
    then obtain ip ic2 where g: "iget (lg_dev s1) ?n s1 = Inr (ip, s1\<lparr>icache := ic2\<rparr>)" "ip < NINODE" "i_inum (ic2 ! ip) = ?n"
      "0 < i_ref (ic2 ! ip)" "icache_ok K (s1\<lparr>icache := ic2\<rparr>)" "refs (s1\<lparr>icache := ic2\<rparr>) = (refs s1)(?n := refs s1 ?n + 1)"
      "\<forall>j<NINODE. 0 < i_ref (ino s1 j) \<longrightarrow> ic2 ! j = (ino s1 j)\<lparr>i_ref := i_ref (ic2 ! j)\<rparr> \<and> i_ref (ino s1 j) \<le> i_ref (ic2 ! j)"
      using iget_law [OF ic1(1)] by blast
    have "steady D L s (s1\<lparr>icache := ic2\<rparr>)" by (rule steady_trans [OF st steady_icache [OF fs1]])
    moreover have "dirlookup dp name s = Inr (Some (ip, 16 * j), s1\<lparr>icache := ic2\<rparr>)"
      using run Some g(1) dev by (simp add: ret_def)
    ultimately show ?thesis
      using Some g(2-7) ic1(2) same by (auto simp: dlook_def)
  qed
qed

subsection \<open>Following a path\<close>

text \<open>
  The inode a path leads to, by the directories on the disk; with \<open>par\<close>, the directory of its last
  element. The inodes on the way have to be in order: a type, a name, and for a directory its content.
\<close>

definition dir_bytes :: "'a log_st_scheme \<Rightarrow> nat \<Rightarrow> byte list" where
  "dir_bytes s n = contents (fview s) (dnode s n) (di_size (dnode s n))"

fun resolve :: "bool \<Rightarrow> 'a log_st_scheme \<Rightarrow> nat \<Rightarrow> byte list list \<Rightarrow> nat option" where
  "resolve par s n [] = (if par then None else Some n)"
| "resolve par s n (e # es) =
     (if di_type (dnode s n) \<noteq> T_DIR then None
      else if par \<and> es = [] then Some n
      else case dlook (dir_bytes s n) e of None \<Rightarrow> None | Some m \<Rightarrow> resolve par s m es)"

definition node_ok :: "'a log_st_scheme \<Rightarrow> nat \<Rightarrow> bool" where
  "node_ok s n \<longleftrightarrow> n < sb_ninodes (sbl s) \<and> di_type (dnode s n) \<noteq> 0 \<and> di_nlink (dnode s n) \<noteq> 0
     \<and> (di_type (dnode s n) = T_DIR \<longrightarrow>
          file_ok (dblocks s) (fview s) (dnode s n) (di_size (dnode s n)) \<and> 16 dvd di_size (dnode s n))"

fun path_ok :: "'a log_st_scheme \<Rightarrow> nat \<Rightarrow> byte list list \<Rightarrow> bool" where
  "path_ok s n [] \<longleftrightarrow> node_ok s n"
| "path_ok s n (e # es) \<longleftrightarrow> node_ok s n
     \<and> (di_type (dnode s n) = T_DIR \<longrightarrow> (case dlook (dir_bytes s n) e of None \<Rightarrow> True | Some m \<Rightarrow> path_ok s m es))"

lemma path_node: "path_ok s n es \<Longrightarrow> node_ok s n"
  by (cases es) simp_all

lemma path_cong:
  assumes "steady D L s s'"
  shows "dir_bytes s' n = dir_bytes s n" "node_ok s' n = node_ok s n" "path_ok s' n es = path_ok s n es"
    "resolve par s' n es = resolve par s n es"
proof -
  note d = steadyD [OF assms]
  show b: "dir_bytes s' n = dir_bytes s n" for n using d by (simp add: dir_bytes_def)
  show o: "node_ok s' n = node_ok s n" for n using d by (simp add: node_ok_def)
  show "path_ok s' n es = path_ok s n es"
    using b o d(9) by (induction es arbitrary: n) (simp_all split: option.split)
  show "resolve par s' n es = resolve par s n es"
    using b d(9) by (induction es arbitrary: n) (simp_all split: option.split)
qed

text \<open>References that are taken and given up.\<close>

definition bump :: "(nat \<Rightarrow> int) \<Rightarrow> nat \<Rightarrow> int \<Rightarrow> nat \<Rightarrow> int" where
  "bump f n d = f(n := f n + d)"

lemma bump_bump:
  "bump (bump f m 1) m (-1) = f" "bump (bump f m (-1)) m 1 = f" "bump (bump (bump f m 1) n (-1)) m (-1) = bump f n (-1)"
  by (auto simp: bump_def fun_eq_iff)

lemma active_bump:
  assumes "icache_ok K s" "Suc (card {x. 0 < bump (refs s) n (-1) x}) < NINODE"
  shows "card (active s) < NINODE"
proof -
  let ?B = "{x. 0 < bump (refs s) n (-1) x}"
  have "?B \<subseteq> active s" by (auto simp: active_def bump_def split: if_splits)
  then have fin: "finite ?B" using finite_active [OF assms(1)] by (rule finite_subset)
  have "active s \<subseteq> insert n ?B" by (auto simp: active_def bump_def)
  then have "card (active s) \<le> card (insert n ?B)" using fin by (intro card_mono) simp_all
  also have "\<dots> \<le> Suc (card ?B)" using fin by (simp add: card_insert_if)
  finally show ?thesis using assms(2) by simp
qed

text \<open>One step of \<open>namex\<close>: the directory is locked, searched and given up.\<close>

lemma namex_lock:
  assumes fs: "fs_ok D L s" "fhold s = {}" "card (lused s) \<le> 7" and ic: "icache_ok {} s"
    and ip: "ip < NINODE" "0 < i_ref (ino s ip)" and n: "node_ok s (i_inum (ino s ip))"
  shows "\<exists>s1. ilock ip s = Inr ((), s1) \<and> steady D L s s1 \<and> icache_ok {ip} s1 \<and> refs s1 = refs s
    \<and> i_inum (ino s1 ip) = i_inum (ino s ip) \<and> cpy s1 ip = dnode s (i_inum (ino s ip))
    \<and> (di_type (dnode s (i_inum (ino s ip))) = T_DIR \<longrightarrow>
         dir_ok D L s1 ip \<and> file_bytes s1 ip = dir_bytes s (i_inum (ino s ip)))"
proof -
  note d = n [unfolded node_ok_def]
  have "i_inum (ino s ip) < sb_ninodes (sbl s)" "di_type (dnode s (i_inum (ino s ip))) \<noteq> 0" "card (lused s) < NBUF"
    using d fs(3) by simp_all
  from lock_law [OF fs(1,2) this(3) ic ip _ this(1,2)] obtain s1 where s1: "ilock ip s = Inr ((), s1)" "steady D L s s1"
    "icache_ok {ip} s1" "refs s1 = refs s"
    "icache s1 = (icache s)[ip := (ino s ip)\<lparr>i_busy := True, i_copy := dnode s (i_inum (ino s ip)), i_valid := True\<rparr>]" by auto
  have at: "ino s1 ip = (ino s ip)\<lparr>i_busy := True, i_copy := dnode s (i_inum (ino s ip)), i_valid := True\<rparr>"
    using s1(5) ip(1) icache_okD(1) [OF ic] by simp
  note st = steadyD [OF s1(2)]
  have "locked s1 ip" using ip(1) at icache_okD(1) [OF s1(3)] icache_okD(3) [OF ic ip] st(6) by (simp add: locked_def)
  then have "dir_ok D L s1 ip \<and> file_bytes s1 ip = dir_bytes s (i_inum (ino s ip))"
    if "di_type (dnode s (i_inum (ino s ip))) = T_DIR"
    using that d at st by (simp add: dir_ok_def inode_ok_def file_bytes_def dir_bytes_def)
  then show ?thesis using s1 at by (intro exI [of _ s1]) simp
qed

lemma namex_give:
  assumes st: "steady D L s s1" and ic: "icache_ok {ip} s1" and n: "node_ok s (i_inum (ino s1 ip))"
  shows "\<exists>s2. iunlockput ip s1 = Inr ((), s2) \<and> steady D L s s2 \<and> icache_ok {} s2 \<and> (\<forall>j. j \<noteq> ip \<longrightarrow> ino s2 j = ino s1 j)
    \<and> i_inum (ino s2 ip) = i_inum (ino s1 ip) \<and> i_ref (ino s2 ip) = i_ref (ino s1 ip) - 1
    \<and> refs s2 = bump (refs s1) (i_inum (ino s1 ip)) (-1)"
proof -
  note d = steadyD [OF st]
  have "di_nlink (dnode s1 (i_inum (ino s1 ip))) \<noteq> 0" using n d(9) by (simp add: node_ok_def)
  from iunlockput_law [OF d(1,2) ic _ this] obtain ic2 where "iunlockput ip s1 = Inr ((), s1\<lparr>icache := ic2\<rparr>)"
    "icache_ok {} (s1\<lparr>icache := ic2\<rparr>)" "\<forall>j. j \<noteq> ip \<longrightarrow> ic2 ! j = ino s1 j"
    "i_inum (ic2 ! ip) = i_inum (ino s1 ip)" "i_ref (ic2 ! ip) = i_ref (ino s1 ip) - 1"
    "refs (s1\<lparr>icache := ic2\<rparr>) = (refs s1)(i_inum (ino s1 ip) := refs s1 (i_inum (ino s1 ip)) - 1)" by auto
  moreover have "steady D L s (s1\<lparr>icache := ic2\<rparr>)" by (rule steady_trans [OF st steady_icache [OF d(1,2)]])
  ultimately show ?thesis by (intro exI [of _ "s1\<lparr>icache := ic2\<rparr>"]) (simp add: bump_def)
qed

lemma namex_enter:
  assumes st: "steady D L s s1" and dir: "dir_ok D L s1 ip" "card (lused s) \<le> 7" and ic: "icache_ok {ip} s1" "card (active s1) < NINODE"
    and n: "node_ok s (i_inum (ino s1 ip))" and name: "length name = DIRSIZ"
  shows "case dlook (file_bytes s1 ip) (cname DIRSIZ name) of
      None \<Rightarrow> \<exists>s3. kbind (dirlookup ip name) (\<lambda>r. case r of None \<Rightarrow> kbind (iunlockput ip) (\<lambda>_. ret None)
          | Some (nxt, _) \<Rightarrow> kbind (iunlockput ip) (\<lambda>_. f nxt)) s1 = Inr (None, s3)
        \<and> steady D L s s3 \<and> icache_ok {} s3 \<and> refs s3 = bump (refs s1) (i_inum (ino s1 ip)) (-1)
    | Some m \<Rightarrow> \<exists>nxt s3. kbind (dirlookup ip name) (\<lambda>r. case r of None \<Rightarrow> kbind (iunlockput ip) (\<lambda>_. ret None)
          | Some (nxt, _) \<Rightarrow> kbind (iunlockput ip) (\<lambda>_. f nxt)) s1 = f nxt s3
        \<and> steady D L s s3 \<and> icache_ok {} s3 \<and> nxt < NINODE \<and> 0 < i_ref (ino s3 nxt) \<and> i_inum (ino s3 nxt) = m
        \<and> refs s3 = bump (bump (refs s1) m 1) (i_inum (ino s1 ip)) (-1)"
proof -
  let ?n = "i_inum (ino s1 ip)"
  have ip: "ip < NINODE" "0 < i_ref (ino s1 ip)" using icache_okD(7) [OF ic(1)] by simp_all
  have "card (lused s1) \<le> 7" "readable DIRSIZ name" using dir(2) steadyD(4) [OF st] name by (simp_all add: readable_def)
  note look = dirlookup_law [OF dir(1) this ic]
  show ?thesis
  proof (cases "dlook (file_bytes s1 ip) (cname DIRSIZ name)")
    case None
    with look obtain s2 where s2: "dirlookup ip name s1 = Inr (None, s2)" "steady D L s1 s2" "icache s2 = icache s1" by auto
    have "icache_ok {ip} s2" by (rule icache_ok_cong [OF ic(1) s2(3) steadyD(9,6) [OF s2(2)]])
    from namex_give [OF steady_trans [OF st s2(2)] this] n s2(3) obtain s3 where "iunlockput ip s2 = Inr ((), s3)"
      "steady D L s s3" "icache_ok {} s3" "refs s3 = bump (refs s2) ?n (-1)" by auto
    then show ?thesis using None s2(1) refs_cong [OF s2(3)] by (auto simp: ret_def)
  next
    case (Some m)
    with look obtain nxt off s2 where s2: "dirlookup ip name s1 = Inr (Some (nxt, off), s2)" "steady D L s1 s2" "nxt < NINODE"
      "i_inum (ino s2 nxt) = m" "0 < i_ref (ino s2 nxt)" "icache_ok {ip} s2" "refs s2 = (refs s1)(m := refs s1 m + 1)"
      "\<forall>j<NINODE. 0 < i_ref (ino s1 j) \<longrightarrow> ino s2 j = (ino s1 j)\<lparr>i_ref := i_ref (ino s2 j)\<rparr> \<and> i_ref (ino s1 j) \<le> i_ref (ino s2 j)"
      by auto
    have "ino s2 ip = (ino s1 ip)\<lparr>i_ref := i_ref (ino s2 ip)\<rparr>" using s2(8) ip by blast
    then have same: "i_inum (ino s2 ip) = ?n" by (metis inode.select_convs(2) inode.surjective inode.update_convs(3))
    from namex_give [OF steady_trans [OF st s2(2)] s2(6)] n same obtain s3 where s3: "iunlockput ip s2 = Inr ((), s3)"
      "steady D L s s3" "icache_ok {} s3" "\<forall>j. j \<noteq> ip \<longrightarrow> ino s3 j = ino s2 j" "i_inum (ino s3 ip) = ?n"
      "i_ref (ino s3 ip) = i_ref (ino s2 ip) - 1" "refs s3 = bump (refs s2) ?n (-1)" by auto
    have "0 < i_ref (ino s3 nxt) \<and> i_inum (ino s3 nxt) = m"
    proof (cases "nxt = ip")
      case True
      then have "m = ?n" using s2(4) same by simp
      then have "i_ref (ino s2 ip) = i_ref (ino s1 ip) + 1"
        using refs_pos [OF ic(1) ip] refs_pos [OF s2(6,3,5)] s2(4,7) True by simp
      then show ?thesis using True s3(5,6) ip(2) \<open>m = ?n\<close> by simp
    qed (use s2(4,5) s3(4) in simp)
    then show ?thesis
      using s2(1,3,7) s3(1-3,7) unfolding Some option.case by (intro exI [of _ nxt] exI [of _ s3]) (simp add: bump_def)
  qed
qed

abbreviation names :: "byte list \<Rightarrow> byte list list" where
  "names p \<equiv> map (take DIRSIZ) (elems p)"

text \<open>What \<open>namex\<close> has done when it returns \<open>r\<close> and its path leads to \<open>t\<close>: the references are \<open>R\<close> and one to \<open>t\<close>.\<close>

definition reached :: "bool \<Rightarrow> byte list list \<Rightarrow> (nat \<Rightarrow> int) \<Rightarrow> nat option \<Rightarrow> (nat \<times> byte list) option \<Rightarrow> 'a fs_st_scheme \<Rightarrow> bool" where
  "reached par es R t r s' \<longleftrightarrow>
     (case t of None \<Rightarrow> r = None \<and> refs s' = R
      | Some m \<Rightarrow> \<exists>ip nm. r = Some (ip, nm) \<and> ip < NINODE \<and> 0 < i_ref (ino s' ip) \<and> i_inum (ino s' ip) = m
          \<and> refs s' = bump R m 1 \<and> (par \<longrightarrow> cname DIRSIZ nm = last es))"

lemma namex_stop:
  fixes s :: "'a fs_st_scheme"
  assumes s1: "steady D L s s1" "icache_ok {ip} s1" "refs s1 = refs s" and n: "node_ok s (i_inum (ino s1 ip))"
  shows "\<exists>s'. kbind (iunlockput ip) (\<lambda>_. ret None) s1 = Inr (None, s') \<and> steady D L s s' \<and> icache_ok {} s'
      \<and> reached par es (bump (refs s) (i_inum (ino s1 ip)) (-1)) None None s'"
    "\<exists>s'. kbind (iunlock ip) (\<lambda>_. ret (Some (ip, nm))) s1 = Inr (Some (ip, nm), s') \<and> steady D L s s' \<and> icache_ok {} s'
      \<and> reached par [cname DIRSIZ nm] (bump (refs s) (i_inum (ino s1 ip)) (-1)) (Some (i_inum (ino s1 ip))) (Some (ip, nm)) s'"
proof -
  from namex_give [OF s1(1,2) n] obtain s2 where "iunlockput ip s1 = Inr ((), s2)" "steady D L s s2" "icache_ok {} s2"
    "refs s2 = bump (refs s1) (i_inum (ino s1 ip)) (-1)" by blast
  then show "\<exists>s'. kbind (iunlockput ip) (\<lambda>_. ret None) s1 = Inr (None, s') \<and> steady D L s s' \<and> icache_ok {} s'
      \<and> reached par es (bump (refs s) (i_inum (ino s1 ip)) (-1)) None None s'"
    using s1(3) by (intro exI [of _ s2]) (simp add: ret_def reached_def)
  note f1 = steadyD(1,2) [OF s1(1)]
  from unlock_law [OF f1 s1(2)] obtain ic where ic: "iunlock ip s1 = Inr ((), s1\<lparr>icache := ic\<rparr>)"
    "ic = (icache s1)[ip := (ino s1 ip)\<lparr>i_busy := False\<rparr>]" "icache_ok {} (s1\<lparr>icache := ic\<rparr>)"
    "refs (s1\<lparr>icache := ic\<rparr>) = refs s1" by auto
  have ip: "ip < NINODE" "0 < i_ref (ino s1 ip)" using icache_okD(7) [OF s1(2)] by simp_all
  then have "ic ! ip = (ino s1 ip)\<lparr>i_busy := False\<rparr>" using ic(2) icache_okD(1) [OF s1(2)] by simp
  moreover have "steady D L s (s1\<lparr>icache := ic\<rparr>)" by (rule steady_trans [OF s1(1) steady_icache [OF f1]])
  ultimately show "\<exists>s'. kbind (iunlock ip) (\<lambda>_. ret (Some (ip, nm))) s1 = Inr (Some (ip, nm), s') \<and> steady D L s s' \<and> icache_ok {} s'
      \<and> reached par [cname DIRSIZ nm] (bump (refs s) (i_inum (ino s1 ip)) (-1)) (Some (i_inum (ino s1 ip))) (Some (ip, nm)) s'"
    using ic s1(3) ip by (intro exI [of _ "s1\<lparr>icache := ic\<rparr>"]) (simp add: ret_def reached_def bump_bump)
qed

lemma namex_loop_law:
  fixes s :: "'a fs_st_scheme"
  assumes "fs_ok D L s" "fhold s = {}" "card (lused s) \<le> 7" "icache_ok {} s" "ip < NINODE" "0 < i_ref (ino s ip)"
    and "Suc (card {x. 0 < bump (refs s) (i_inum (ino s ip)) (-1) x}) < NINODE"
    and "cstr path p" "length name = DIRSIZ" "path_ok s (i_inum (ino s ip)) (names p)"
  shows "\<exists>r s'. namex_loop ip path par name s = Inr (r, s') \<and> steady D L s s' \<and> icache_ok {} s'
    \<and> reached par (names p) (bump (refs s) (i_inum (ino s ip)) (-1)) (resolve par s (i_inum (ino s ip)) (names p)) r s'"
  using assms
proof (induction "names p" arbitrary: ip path p name s)
  case Nil
  note a = Nil.prems and ip = Nil.prems(5,6)
  let ?n = "i_inum (ino s ip)"
  have "elems p = []" using Nil.hyps by simp
  then have run: "namex_loop ip path par name s = (if par then kbind (iput ip) (\<lambda>_. ret None) s else Inr (Some (ip, name), s))"
    using skipelem_elems [OF a(8,9)] by (subst namex_loop.simps) (simp add: ret_def)
  have e: "names p = []" using Nil.hyps by simp
  show ?case
  proof (cases par)
    case True
    have "di_nlink (dnode s ?n) \<noteq> 0" using path_node [OF a(10)] by (simp add: node_ok_def)
    from iput_law [OF a(4) ip _ this] obtain ic where "iput ip s = Inr ((), s\<lparr>icache := ic\<rparr>)" "icache_ok {} (s\<lparr>icache := ic\<rparr>)"
      "refs (s\<lparr>icache := ic\<rparr>) = (refs s)(?n := refs s ?n - 1)" by auto
    then show ?thesis
      using run True steady_icache [OF a(1,2)] unfolding e
      by (intro exI [of _ None] exI [of _ "s\<lparr>icache := ic\<rparr>"]) (simp add: ret_def reached_def bump_def fun_upd_def)
  next
    case False
    have "steady D L s s" using a(1,2) by (simp add: steady_def)
    then show ?thesis
      using run False a ip unfolding e by (intro exI [of _ "Some (ip, name)"] exI [of _ s]) (simp add: reached_def bump_bump)
  qed
next
  case (Cons e es)
  note a = Cons.prems and ip = Cons.prems(5,6)
  let ?n = "i_inum (ino s ip)" and ?R = "bump (refs s) (i_inum (ino s ip)) (-1)"
  have np: "names p = e # es" using Cons.hyps by simp
  then have el: "elems p \<noteq> []" "take DIRSIZ (hd (elems p)) = e" "map (take DIRSIZ) (tl (elems p)) = es"
    by (cases "elems p"; simp)+
  obtain path' p' name' where sk: "skipelem path name = Some (Some (path', name'))" "cstr path' p'" "length name' = DIRSIZ"
    "cname DIRSIZ name' = e" "elems p' = tl (elems p)" "hd path' = 0 \<longleftrightarrow> tl (elems p) = []"
    using skipelem_elems [OF a(8,9)] el(1,2) by auto
  have es: "names p' = es" "hd path' = 0 \<longleftrightarrow> es = []" using sk(5,6) el(3) by auto
  have node: "node_ok s ?n" by (rule path_node [OF a(10)])
  obtain s1 where s1: "ilock ip s = Inr ((), s1)" "steady D L s s1" "icache_ok {ip} s1" "refs s1 = refs s"
    "i_inum (ino s1 ip) = ?n" "cpy s1 ip = dnode s ?n"
    "di_type (dnode s ?n) = T_DIR \<longrightarrow> dir_ok D L s1 ip \<and> file_bytes s1 ip = dir_bytes s ?n"
    using namex_lock [OF a(1-4) ip node] by blast
  define k :: "nat \<Rightarrow> ('a fs_st_scheme, (nat \<times> byte list) option) kern" where "k = (\<lambda>nxt. namex_loop nxt path' par name')"
  have run: "namex_loop ip path par name s =
      (if di_type (dnode s ?n) \<noteq> T_DIR then kbind (iunlockput ip) (\<lambda>_. ret None) s1
       else if par \<and> es = [] then kbind (iunlock ip) (\<lambda>_. ret (Some (ip, name'))) s1
       else kbind (dirlookup ip name') (\<lambda>r. case r of None \<Rightarrow> kbind (iunlockput ip) (\<lambda>_. ret None)
          | Some (nxt, _) \<Rightarrow> kbind (iunlockput ip) (\<lambda>_. k nxt)) s1)"
    using sk(1) s1(1,6) es(2) unfolding k_def by (subst namex_loop.simps) (simp add: gets_def kbind_def)
  have node1: "node_ok s (i_inum (ino s1 ip))" using node s1(5) by simp
  note stop = namex_stop [where par = par, OF s1(2-4) node1, unfolded s1(5)]
  show ?case
  proof (cases "di_type (dnode s ?n) = T_DIR")
    case False
    then show ?thesis using run stop(1) [of "e # es"] unfolding np by auto
  next
    case dir: True
    then have d1: "dir_ok D L s1 ip" "file_bytes s1 ip = dir_bytes s ?n" using s1(7) by blast+
    show ?thesis
    proof (cases "par \<and> es = []")
      case True
      then show ?thesis using run dir np stop(2) [of name'] sk(4) by auto
    next
      case False
      have act: "card (active s1) < NINODE" using active_bump [OF s1(3), of ?n] a(7) s1(4) by simp
      note step = namex_enter [OF s1(2) d1(1) a(3) s1(3) act node1 sk(3), of k, unfolded d1(2) sk(4) s1(4,5)]
      have run': "namex_loop ip path par name s = kbind (dirlookup ip name') (\<lambda>r. case r of None \<Rightarrow> kbind (iunlockput ip) (\<lambda>_. ret None)
          | Some (nxt, _) \<Rightarrow> kbind (iunlockput ip) (\<lambda>_. k nxt)) s1" using run dir False by auto
      show ?thesis
      proof (cases "dlook (dir_bytes s ?n) e")
        case None
        then show ?thesis using step run' dir False np by (auto simp: reached_def)
      next
        case (Some m)
        with step obtain nxt s3 where s3: "namex_loop ip path par name s = k nxt s3" "steady D L s s3" "icache_ok {} s3"
          "nxt < NINODE" "0 < i_ref (ino s3 nxt)" "i_inum (ino s3 nxt) = m" "refs s3 = bump (bump (refs s) m 1) ?n (-1)"
          unfolding run' by auto
        have R: "bump (refs s3) m (-1) = ?R" unfolding s3(7) by (rule bump_bump)
        have "path_ok s3 m (names p')" using a(10) np dir Some es(1) path_cong(3) [OF s3(2)] by simp
        moreover have "card (lused s3) \<le> 7" using a(3) steadyD(4) [OF s3(2)] by simp
        ultimately obtain r s' where s': "k nxt s3 = Inr (r, s')" "steady D L s3 s'" "icache_ok {} s'"
          "reached par (names p') ?R (resolve par s3 m (names p')) r s'"
          using Cons.hyps(1) [of p' s3 nxt path' name'] es(1) steadyD(1,2) [OF s3(2)] s3(3-6) a(7) sk(2,3) R
          unfolding k_def by auto
        have "resolve par s ?n (names p) = resolve par s3 m (names p')"
          using np dir False Some es(1) path_cong(4) [OF s3(2)] by auto
        moreover have "reached par (names p) ?R t r s'" if "reached par (names p') ?R t r s'" "par \<longrightarrow> es \<noteq> []" for t
          using that np es(1) by (simp add: reached_def split: option.splits)
        ultimately show ?thesis using s3(1) s' steady_trans [OF s3(2) s'(2)] False by auto
      qed
    qed
  qed
qed

lemma namex_law:
  assumes "fs_ok D L s" "fhold s = {}" "card (lused s) \<le> 7" "lg_dev s = ROOTDEV" "icache_ok {} s" "card (active s) + 2 \<le> NINODE"
    and "cstr path p" "length name = DIRSIZ" "hd path \<noteq> 47 \<longrightarrow> cwd < NINODE \<and> 0 < i_ref (ino s cwd)"
    and "start = (if hd path = 47 then ROOTINO else i_inum (ino s cwd))" "path_ok s start (names p)"
  shows "\<exists>r s'. namex cwd path par name s = Inr (r, s') \<and> steady D L s s' \<and> icache_ok {} s'
    \<and> reached par (names p) (refs s) (resolve par s start (names p)) r s'"
proof -
  have "card (active s) < NINODE" using assms(6) by simp
  note get = iget_law [OF assms(5) this, unfolded assms(4)]
  obtain ip ic where ip: "(if hd path = 47 then iget ROOTDEV ROOTINO else idup cwd) s = Inr (ip, s\<lparr>icache := ic\<rparr>)" "ip < NINODE"
    "i_inum (ic ! ip) = start" "0 < i_ref (ic ! ip)" "icache_ok {} (s\<lparr>icache := ic\<rparr>)" "refs (s\<lparr>icache := ic\<rparr>) = bump (refs s) start 1"
  proof (cases "hd path = 47")
    case True
    then show ?thesis using get [of ROOTINO] assms(10) that by (auto simp: bump_def)
  next
    case False
    then show ?thesis using idup_law [OF assms(5), of cwd] assms(9,10) that by (auto simp: bump_def)
  qed
  let ?s = "s\<lparr>icache := ic\<rparr>"
  have st: "steady D L s ?s" by (rule steady_icache [OF assms(1,2)])
  have R: "bump (refs ?s) start (-1) = refs s" unfolding ip(6) by (rule bump_bump)
  have "path_ok ?s start (names p)" using assms(11) path_cong(3) [OF st] by simp
  moreover have "Suc (card {x. 0 < refs s x}) < NINODE" using assms(6) by (simp add: active_def)
  ultimately obtain r s' where s': "namex_loop ip path par name ?s = Inr (r, s')" "steady D L ?s s'" "icache_ok {} s'"
    "reached par (names p) (refs s) (resolve par ?s start (names p)) r s'"
    using namex_loop_law [of D L ?s ip path p name par] steadyD(1,2,4) [OF st] ip(2-5) assms(3,7,8) R by auto
  have "path \<noteq> []" using assms(7) by auto
  then have "namex cwd path par name s = Inr (r, s')" using ip(1) s'(1) by (simp add: namex_def kbind_def)
  moreover have "steady D L s s'" by (rule steady_trans [OF st s'(2)])
  ultimately show ?thesis using s'(3,4) path_cong(4) [OF st] by (intro exI [of _ r] exI [of _ s']) simp
qed

text \<open>
  C13 (functional): \<open>namex\<close>, and with it \<open>namei\<close> and \<open>nameiparent\<close>, follows every
  terminated path as the directories on the disk lead it, from the root or the current directory:
  through ``.'' and repeated slashes, with elements cut to fourteen bytes. It returns an entry of the
  inode cache for the inode the path leads to, or 0 exactly when an element is missing or not a
  directory; for \<open>nameiparent\<close> that is the directory of the last element, whose name is left in
  \<open>name\<close>. It never panics or blocks, changes no block, leaves no inode locked, and holds
  exactly one more reference, to the inode it returns, than before. The hypotheses: no inode is locked,
  two entries of the cache are free, and the inodes on the path are in order.
\<close>

theorem namex_resolves:
  assumes "fs_ok D L s" "fhold s = {}" "card (lused s) \<le> 7" "lg_dev s = ROOTDEV" "icache_ok {} s" "card (active s) + 2 \<le> NINODE"
    and "cstr path p" "length name = DIRSIZ" "hd path \<noteq> 47 \<longrightarrow> cwd < NINODE \<and> 0 < i_ref (ino s cwd)"
    and "start = (if hd path = 47 then ROOTINO else i_inum (ino s cwd))" "path_ok s start (names p)"
  shows "\<exists>r s'. namex cwd path par name s = Inr (r, s') \<and> fview s' = fview s \<and> icache_ok {} s' \<and> steady D L s s'
    \<and> (case resolve par s start (names p) of
         None \<Rightarrow> r = None \<and> refs s' = refs s
       | Some n \<Rightarrow> \<exists>ip nm. r = Some (ip, nm) \<and> ip < NINODE \<and> i_inum (ino s' ip) = n \<and> 0 < i_ref (ino s' ip)
           \<and> refs s' = (refs s)(n := refs s n + 1) \<and> (par \<longrightarrow> cname DIRSIZ nm = last (names p)))"
proof -
  from namex_law [OF assms] obtain r s' where "namex cwd path par name s = Inr (r, s')" "steady D L s s'" "icache_ok {} s'"
    "reached par (names p) (refs s) (resolve par s start (names p)) r s'" by blast
  then show ?thesis
    using steadyD(3) [of D L s s'] by (intro exI [of _ r] exI [of _ s']) (auto simp: reached_def bump_def split: option.splits)
qed

text \<open>The path \<open>/a\<close> on the sample disk.\<close>

lemma fs0_path:
  fixes s :: fs_st
  assumes s: "tinv D s" "fhold s = {}" "lregion s = {90..<100}" "\<forall>n. n \<notin> {90..<100} \<longrightarrow> fview s n = img0 n"
  shows "path_ok s ROOTINO [[97]]" "resolve False s ROOTINO [[97]] = Some 2"
    "dir_bytes s ROOTINO = dirent0 1 [0x2e] @ dirent0 1 [0x2e, 0x2e] @ dirent0 2 [0x61]"
proof -
  note f = fs0_files [OF s]
  let ?es = "dirent0 1 [0x2e] @ dirent0 1 [0x2e, 0x2e] @ dirent0 2 [0x61]"
  have b: "blk (fview s) root_dinode 0 = 7" by (simp add: blk_def root_dinode_def)
  have v: "fview s 7 = overwrite (replicate BSIZE 0) 0 ?es" using s(4) by (simp add: img0_def)
  have "contents (fview s) root_dinode 48 = map (\<lambda>j. fview s 7 ! j) [0..<48]"
    by (simp add: contents_def b)
  also have "\<dots> = take 48 (fview s 7)" using v by (intro nth_equalityI) simp_all
  also have "\<dots> = ?es" unfolding v by (simp add: overwrite_def)
  finally show d: "dir_bytes s ROOTINO = ?es" using f(6) by (simp add: dir_bytes_def root_dinode_def)
  have "dlook ?es [97] = Some 2" by code_simp
  then show "path_ok s ROOTINO [[97]]" "resolve False s ROOTINO [[97]] = Some 2"
    using f d by (simp_all add: node_ok_def root_dinode_def file_dinode_def)
qed

theorem namex_resolves_witness:
  "\<exists>(s :: fs_st) ip nm s'. namex 0 [47, 97, 0] False (replicate DIRSIZ 0) s = Inr (Some (ip, nm), s') \<and> i_inum (ino s' ip) = 2
    \<and> refs s 2 = 0 \<and> refs s' 2 = 1"
proof -
  from fs0_boot obtain s :: fs_st and D where s: "tinv D s" "fhold s = {}" "lregion s = {90..<100}"
    "\<forall>n. n \<notin> {90..<100} \<longrightarrow> fview s n = img0 n" "lg_dev s = ROOTDEV" "lused s = {}" "icache s = icache fs0" by blast
  have c: "icache_ok {} s" "refs s = (\<lambda>_. 0)" "active s = {}" by (rule icache_empty; simp add: s(7) fs0_def)+
  have e: "names [47, 97] = [[97]]" by (simp add: elems_def)
  note p = fs0_path [OF s(1-4)]
  have "path_ok s ROOTINO (names [47, 97])" unfolding e by (rule p(1))
  from namex_resolves [OF fs0_files(1) [OF s(1-4)] s(2) _ s(5) c(1), of "[47, 97, 0]" "[47, 97]" "replicate DIRSIZ 0" 0 ROOTINO False, OF _ _ _ _ _ _ this]
  obtain ip nm s' where "namex 0 [47, 97, 0] False (replicate DIRSIZ 0) s = Inr (Some (ip, nm), s')" "i_inum (ino s' ip) = 2"
    "refs s' = (refs s)(2 := refs s 2 + 1)" unfolding e p(2) using s(6) c(3) by auto
  then show ?thesis using c(2) by (intro exI [of _ s] exI [of _ ip] exI [of _ nm] exI [of _ s']) simp
qed

end
