(* ===== verification/Dirlink.thy ===== *)
theory Dirlink
  imports Namei
begin

text \<open>
  Adding an entry to a directory (\<open>dirlink\<close> of \<open>fs.c\<close>), as an update of the map from names to
  inode numbers that the directory stands for.
\<close>

subsection \<open>The new entry\<close>

text \<open>The slot \<open>dirlink\<close> takes: the first entry that is free, or the end of the directory.\<close>

definition dfree :: "byte list \<Rightarrow> nat \<Rightarrow> nat" where
  "dfree bs k = (case find (\<lambda>j. get16 bs (16 * j) = 0) [k..<length bs div 16] of Some j \<Rightarrow> j | None \<Rightarrow> length bs div 16)"

lemma dfree_step:
  assumes "k \<le> length bs div 16"
  shows "dfree bs k = (if k < length bs div 16 \<and> get16 bs (16 * k) \<noteq> 0 then dfree bs (Suc k) else k)"
  using assms by (auto simp: dfree_def upt_rec)

lemma dfree_slot:
  "dfree bs 0 \<le> length bs div 16" "dfree bs 0 < length bs div 16 \<Longrightarrow> get16 bs (16 * dfree bs 0) = 0"
  unfolding dfree_def by (auto dest: find_SomeD split: option.splits)

lemma dirlink_slot_law:
  assumes "dir_ok D L s dp" "card (lused s) \<le> 7" "k \<le> length (file_bytes s dp) div 16"
  shows "\<exists>s1. dirlink_slot dp (16 * k) s = Inr (16 * dfree (file_bytes s dp) k, s1)
    \<and> dir_ok D L s1 dp \<and> file_bytes s1 dp = file_bytes s dp \<and> fview s1 = fview s \<and> lused s1 = lused s \<and> fframe s1 = fframe s"
  using assms
proof (induction "length (file_bytes s dp) div 16 - k" arbitrary: k s)
  case 0
  let ?bs = "file_bytes s dp"
  have k: "k = length ?bs div 16" using 0(1,4) by simp
  moreover have "16 dvd length ?bs" using 0(2) by (simp add: dir_ok_def)
  ultimately have "16 * k = length ?bs" by simp
  then have "\<not> 16 * k < di_size (cpy s dp)" by (simp add: file_bytes_def)
  moreover have "dfree ?bs k = k" using k by (subst dfree_step) simp_all
  ultimately show ?case
    using 0(2) by (subst dirlink_slot.simps) (auto simp: gets_def kbind_def ret_def)
next
  case (Suc d)
  let ?bs = "file_bytes s dp"
  have k: "k < length ?bs div 16" "16 * k + 16 \<le> length ?bs" using Suc(2) by linarith+
  obtain s1 where s1: "readi dp (16 * k) 16 s = Inr ((16, take 16 (drop (16 * k) ?bs)), s1)" "dir_ok D L s1 dp"
    "file_bytes s1 dp = ?bs" "fview s1 = fview s" "lused s1 = lused s" "fframe s1 = fframe s"
    using dir_read [OF Suc(3,4) k(1)] by blast
  have lt: "16 * k < di_size (cpy s dp)" "16 * k < 2 ^ 32"
    using k(2) Suc(3) file_ok_ind(6) [of _ _ "cpy s dp"]
    unfolding dir_ok_def inode_ok_def file_bytes_def by force+
  have step: "dirlink_slot dp (16 * k) s = (if get16 ?bs (16 * k) = 0 then Inr (16 * k, s1) else dirlink_slot dp (16 * Suc k) s1)"
    using lt s1(1) entry_slice(1) [OF k(2)]
    by (subst dirlink_slot.simps) (auto simp: gets_def kbind_def ret_def add.commute)
  note fr = dfree_step [OF less_imp_le [OF k(1)]]
  show ?case
  proof (cases "get16 ?bs (16 * k) = 0")
    case True
    then show ?thesis using step s1 fr by (intro exI [of _ s1]) simp
  next
    case False
    have "d = length (file_bytes s1 dp) div 16 - Suc k" "card (lused s1) \<le> 7" "Suc k \<le> length (file_bytes s1 dp) div 16"
      using Suc(2,4) s1(3,5) k(1) by simp_all
    note Suc(1) [OF this(1) s1(2) this(2,3), unfolded s1(3-6)]
    then show ?thesis unfolding step if_not_P [OF False] using fr False k(1) by simp
  qed
qed

text \<open>Writing an entry at \<open>j\<close>, a free slot or the end, adds its name to the map.\<close>

lemma entry_put:
  assumes j: "j \<le> length bs div 16" "16 dvd length bs" and e: "length nm = DIRSIZ"
    and bs': "bs' = overwrite bs (16 * j) (bytes16 n @ nm)"
  shows "length bs' div 16 = max (length bs div 16) (Suc j)" "16 dvd length bs'"
    "i < length bs div 16 \<Longrightarrow> i \<noteq> j \<Longrightarrow> get16 bs' (16 * i) = get16 bs (16 * i)"
    "i < length bs div 16 \<Longrightarrow> i \<noteq> j \<Longrightarrow> cname DIRSIZ (drop (16 * i + 2) bs') = cname DIRSIZ (drop (16 * i + 2) bs)"
    "n < 2 ^ 16 \<Longrightarrow> get16 bs' (16 * j) = n" "cname DIRSIZ (drop (16 * j + 2) bs') = cname DIRSIZ nm"
proof -
  let ?e = "bytes16 n @ nm" and ?N = "length bs div 16"
  have le: "length ?e = 16" using e by (simp add: bytes16_def)
  have N: "length bs = 16 * ?N" using j(2) by simp
  have b: "bs' = take (16 * j) bs @ ?e @ drop (16 * j + 16) bs" using le by (simp add: bs' overwrite_def)
  have len: "length bs' = 16 * max ?N (Suc j)" unfolding b using le N j(1) by (simp add: max_def)
  then show "length bs' div 16 = max ?N (Suc j)" "16 dvd length bs'" by simp_all
  obtain M where M: "length bs' = 16 * M" "?N \<le> M" "Suc j \<le> M" using len by (metis max.cobounded1 max.cobounded2)
  have at: "drop (16 * j) bs' = ?e @ drop (16 * j + 16) bs" unfolding b using N j(1) by simp
  have slot: "take 16 (drop (16 * j) bs') = ?e" unfolding at using le by simp
  have ej: "16 * j + 16 \<le> length bs'" using M by simp
  show "get16 bs' (16 * j) = n" if "n < 2 ^ 16"
    using entry_slice(1) [OF ej] that unfolding slot by (simp add: get16_def bytes16_def unat_byte_of_nat)
  show "cname DIRSIZ (drop (16 * j + 2) bs') = cname DIRSIZ nm"
    using entry_slice(3) [OF ej] unfolding slot by (simp add: bytes16_def)
  assume i: "i < ?N" "i \<noteq> j"
  have ei: "16 * i + 16 \<le> length bs" "16 * i + 16 \<le> length bs'" using i(1) N M by linarith+
  have "take 16 (drop (16 * i) bs') = take 16 (drop (16 * i) bs)"
  proof (cases "i < j")
    case True
    then have "16 * i + 16 \<le> 16 * j" "16 * j \<le> length bs" using N j(1) by linarith+
    then have "take 16 (drop (16 * i) (take (16 * j) bs @ xs)) = take 16 (drop (16 * i) bs)" for xs
      by (auto simp: drop_take min_def)
    then show ?thesis unfolding b .
  next
    case False
    then have "16 * i = (16 * j + 16) + (16 * i - (16 * j + 16))" using i(2) by simp
    then have "drop (16 * i) xs = drop (16 * i - (16 * j + 16)) (drop (16 * j + 16) xs)" for xs :: "byte list"
      by (metis drop_drop add.commute)
    moreover have "drop (16 * j + 16) bs' = drop (16 * j + 16) bs" unfolding b using N j(1) le by simp
    ultimately show ?thesis by metis
  qed
  then show "get16 bs' (16 * i) = get16 bs (16 * i)" "cname DIRSIZ (drop (16 * i + 2) bs') = cname DIRSIZ (drop (16 * i + 2) bs)"
    using entry_slice(1,3) [OF ei(1)] entry_slice(1,3) [OF ei(2)] by simp_all
qed

lemma find_unique:
  assumes "j < n" "P j" "\<And>i. i < n \<Longrightarrow> i \<noteq> j \<Longrightarrow> \<not> P i"
  shows "find P [0..<n] = Some j"
  using assms by (auto simp: find_Some_iff intro!: exI [of _ j])

lemma dlook_put:
  assumes j: "j \<le> length bs div 16" "16 dvd length bs" "j < length bs div 16 \<Longrightarrow> get16 bs (16 * j) = 0"
    and e: "length nm = DIRSIZ" "0 < n" "n < 2 ^ 16" and new: "dlook bs (cname DIRSIZ nm) = None"
  shows "dlook (overwrite bs (16 * j) (bytes16 n @ nm)) = (dlook bs)(cname DIRSIZ nm \<mapsto> n)"
proof
  define bs' where "bs' = overwrite bs (16 * j) (bytes16 n @ nm)"
  note p = entry_put [OF j(1,2) e(1) bs'_def]
  let ?P = "\<lambda>bs x j. get16 bs (16 * j) \<noteq> 0 \<and> cname DIRSIZ (drop (16 * j + 2) bs) = x" and ?N = "length bs div 16" and ?nm = "cname DIRSIZ nm"
  have same: "?P bs' x i \<longleftrightarrow> ?P bs x i" if "i < ?N" "i \<noteq> j" for x i using p(3,4) [OF that] by simp
  fix x
  have "dlook bs' x = ((dlook bs)(?nm \<mapsto> n)) x"
  proof (cases "x = ?nm")
    case True
    have none: "\<not> ?P bs ?nm i" if "i < ?N" for i using new that by (auto simp: dlook_def dfind_def find_None_iff)
    have "dfind bs' ?nm 0 = Some j"
      unfolding dfind_def p(1) using p(5,6) e(2,3) same none j(1) by (intro find_unique) auto
    then show ?thesis using True p(5) e(3) by (simp add: dlook_def)
  next
    case False
    then have nj: "\<not> ?P bs' x j" using p(6) by auto
    have d: "dfind bs' x 0 = find (?P bs' x) [0..<?N]"
    proof (cases "j < ?N")
      case True
      then have "max ?N (Suc j) = ?N" by simp
      then show ?thesis unfolding dfind_def p(1) by simp
    next
      case False
      then have "max ?N (Suc j) = Suc ?N" "j = ?N" using j(1) by simp_all
      then show ?thesis unfolding dfind_def p(1) using nj by (auto simp: find_append split: option.split)
    qed
    have "find (?P bs' x) [0..<?N] = find (?P bs x) [0..<?N]"
    proof (rule find_cong_set)
      fix i assume "i \<in> set [0..<?N]"
      then show "?P bs' x i = ?P bs x i" using same [of i x] nj j(3) by (cases "i = j") auto
    qed
    then have f: "dfind bs' x 0 = dfind bs x 0" unfolding d by (simp add: dfind_def)
    have "get16 bs' (16 * i) = get16 bs (16 * i)" if "dfind bs x 0 = Some i" for i
    proof -
      have "i < ?N" "?P bs x i" using that by (auto simp: dfind_def dest: find_SomeD)
      then show ?thesis using p(3) [of i] j(3) by (cases "i = j") auto
    qed
    then show ?thesis using False f by (cases "dfind bs x 0") (simp_all add: dlook_def)
  qed
  then show "dlook (overwrite bs (16 * j) (bytes16 n @ nm)) x = ((dlook bs)(?nm \<mapsto> n)) x" by (simp add: bs'_def)
qed

subsection \<open>The operation\<close>

lemma spanned_entry: "spanned (16 * j) 16 \<le> 1"
proof -
  define q r where "q = 16 * j div 512" and "r = 16 * j mod 512"
  have o: "16 * j = q * 512 + r" unfolding q_def r_def by (rule div_mult_mod_eq [symmetric])
  have "16 dvd r" by (simp add: r_def dvd_mod_iff)
  moreover have "r < 512" by (simp add: r_def)
  ultimately have "r \<le> 496" by (auto elim!: dvdE)
  then have "(16 * j + 16 + 511) div 512 < q + 2" using o by (intro less_mult_imp_div_less) simp
  then show ?thesis unfolding spanned_def q_def [symmetric] by simp
qed

lemma need_entry: "n' \<le> n + 16 \<Longrightarrow> need n' \<le> need n + 2"
proof -
  assume "n' \<le> n + 16"
  then have "(n' + 511) div 512 \<le> (n + 511 + 1 * 512) div 512" by (intro div_le_mono) simp
  also have "\<dots> = 1 + (n + 511) div 512" by (rule div_mult_self1) simp
  finally show ?thesis by (simp add: need_def)
qed

lemma icache_ok_write:
  assumes ok: "icache_ok K s" and dp: "dp \<in> K" and ic: "icache s1 = (icache s)[dp := (ino s dp)\<lparr>i_copy := c\<rparr>]"
    and dev: "lg_dev s1 = lg_dev s" and other: "\<And>n. n \<in> active s \<Longrightarrow> n \<noteq> i_inum (ino s dp) \<Longrightarrow> dnode s1 n = dnode s n"
    and own: "dnode s (i_inum (ino s dp)) = cpy s dp \<Longrightarrow> dnode s1 (i_inum (ino s dp)) = c"
  shows "icache_ok K s1" "refs s1 = refs s"
proof -
  note o = icache_okD [OF ok]
  have d: "dp < NINODE" "0 < i_ref (ino s dp)" using o(7) [OF dp] by simp_all
  have at: "ino s1 dp = (ino s dp)\<lparr>i_copy := c\<rparr>" and oth: "\<And>j. j \<noteq> dp \<Longrightarrow> ino s1 j = ino s j" using ic d o(1) by simp_all
  have f: "i_ref (ino s1 j) = i_ref (ino s j)" "i_inum (ino s1 j) = i_inum (ino s j)" "i_dev (ino s1 j) = i_dev (ino s j)"
    "i_busy (ino s1 j) = i_busy (ino s j)" "i_valid (ino s1 j) = i_valid (ino s j)" for j
    using at oth [of j] by (cases "j = dp"; simp)+
  have "cpy s1 j = dnode s1 (i_inum (ino s j))" if j: "j < NINODE" "0 < i_ref (ino s j)" "i_valid (ino s j)" for j
  proof (cases "j = dp")
    case True
    then show ?thesis using at own o(5) [OF j] by simp
  next
    case False
    then have "i_inum (ino s j) \<noteq> i_inum (ino s dp)" using o(6) [OF j(1,2) d] by blast
    moreover have "i_inum (ino s j) \<in> active s" using refs_pos [OF ok j(1,2)] j(2) by (simp add: active_def)
    ultimately show ?thesis using other oth [OF False] o(5) [OF j] by simp
  qed
  then show "icache_ok K s1" using ok ic dev unfolding icache_ok_def f by simp
  show "refs s1 = refs s" using f by (simp add: refs_def fun_eq_iff cong: if_cong)
qed

lemma dirlink_write:
  assumes ok: "dir_ok D L s dp" and ic: "icache_ok K s" "dp \<in> K" "active s \<subseteq> {..<sb_ninodes (sbl s)}"
    and tr: "lg_busy s" "card (lused s) + 4 \<le> lcap s" "card (lused s) \<le> 5" "2 \<le> card (frees L s)"
    and j: "j \<le> length (file_bytes s dp) div 16" "length (file_bytes s dp) + 16 \<le> MAXFILE * 512" and nm: "length nm = DIRSIZ"
  shows "\<exists>s1. writei dp (bytes16 n @ nm) (16 * j) s = Inr (16, s1) \<and> dir_ok D L s1 dp \<and> icache_ok K s1 \<and> refs s1 = refs s
    \<and> file_bytes s1 dp = overwrite (file_bytes s dp) (16 * j) (bytes16 n @ nm)
    \<and> (\<forall>b. b \<in> dblocks s \<and> b \<notin> own (fview s) (cpy s dp) \<longrightarrow> fview s1 b = fview s b)
    \<and> (\<forall>i < sb_ninodes (sbl s). i \<noteq> i_inum (ino s dp) \<longrightarrow> dnode s1 i = dnode s i)"
proof -
  let ?bs = "file_bytes s dp" and ?e = "bytes16 n @ nm" and ?i = "i_inum (ino s dp)"
  have io: "inode_ok D L s dp" and dvd: "16 dvd length ?bs" using ok by (simp_all add: dir_ok_def)
  have le: "length ?e = 16" using nm by (simp add: bytes16_def)
  have off: "16 * j \<le> length ?bs" using j(1) dvd by auto
  have "need (max (length ?bs) (16 * j + 16)) \<le> need (length ?bs) + 2" using off by (intro need_entry) simp
  then have "need (max (length ?bs) (16 * j + length ?e)) \<le> card (frees L s) + need (length ?bs)" using tr(4) le by simp
  moreover have "cost s dp + spanned (16 * j) (length ?e) < lcap s" "cost s dp + spanned (16 * j) (length ?e) + 1 < NBUF"
    using cost_le [of s dp] spanned_entry [of j] tr(2,3) le by simp_all
  moreover have "16 * j + length ?e \<le> MAXFILE * 512" using off j(2) le by simp
  ultimately obtain s1 c where s1: "writei dp ?e (16 * j) s = Inr (int (length ?e), s1)" "inode_ok D L s1 dp"
    "file_bytes s1 dp = overwrite ?bs (16 * j) ?e" "gframe s1 = gframe s" "di_type (cpy s1 dp) = di_type (cpy s dp)"
    "icache s1 = (icache s)[dp := (ino s dp)\<lparr>i_copy := c\<rparr>]"
    "\<forall>b. b \<in> dblocks s \<and> b \<notin> own (fview s) (cpy s dp) \<longrightarrow> fview s1 b = fview s b"
    "\<forall>i < sb_ninodes (sbl s). i \<noteq> ?i \<longrightarrow> dnode s1 i = dnode s i" "dnode s ?i = cpy s dp \<longrightarrow> dnode s1 ?i = cpy s1 dp"
    using writei_law [OF io off, of ?e] tr(1) by auto
  have "dp < length (icache s)" using icache_okD(1,7) [OF ic(1)] ic(2) by simp
  then have "cpy s1 dp = c" using s1(6) by simp
  then have c: "icache_ok K s1" "refs s1 = refs s"
    using icache_ok_write [OF ic(1,2) s1(6) gframeD(1) [OF s1(4)]] s1(8,9) ic(3) by auto
  have "dir_ok D L s1 dp" using s1(2,5) ok entry_put(2) [OF j(1) dvd nm s1(3)] by (simp add: dir_ok_def)
  then show ?thesis using s1 c le by (intro exI [of _ s1]) simp
qed

lemma dirlink_new:
  assumes ok: "dir_ok D L s dp" and ic: "icache_ok K s" "dp \<in> K" "active s \<subseteq> {..<sb_ninodes (sbl s)}" "card (active s) < NINODE"
    and tr: "lg_busy s" "card (lused s) + 4 \<le> lcap s" "card (lused s) \<le> 5" "2 \<le> card (frees L s)"
    and name: "length (file_bytes s dp) + 16 \<le> MAXFILE * 512" "readable DIRSIZ name" and n: "0 < inum" "inum < 2 ^ 16"
    and new: "dlook (file_bytes s dp) (cname DIRSIZ name) = None"
  shows "\<exists>s'. dirlink dp name inum s = Inr (0, s') \<and> dir_ok D L s' dp \<and> icache_ok K s' \<and> refs s' = refs s
    \<and> dlook (file_bytes s' dp) = (dlook (file_bytes s dp))(cname DIRSIZ name \<mapsto> inum)
    \<and> (\<forall>b. b \<in> dblocks s \<and> b \<notin> own (fview s) (cpy s dp) \<longrightarrow> fview s' b = fview s b)
    \<and> (\<forall>i < sb_ninodes (sbl s). i \<noteq> i_inum (ino s dp) \<longrightarrow> dnode s' i = dnode s i)"
proof -
  let ?bs = "file_bytes s dp" and ?nm = "cname DIRSIZ name" and ?j = "dfree (file_bytes s dp) 0"
  let ?e = "?nm @ replicate (DIRSIZ - length ?nm) 0"
  have l7: "card (lused s) \<le> 7" using tr(3) by simp
  from dirlookup_law [OF ok l7 name(2) ic(1,4)] new obtain s1 where
    s1: "dirlookup dp name s = Inr (None, s1)" "steady D L s s1" "icache s1 = icache s" by auto
  have b1: "dir_ok D L s1 dp" "file_bytes s1 dp = ?bs" using s1(3) by (auto intro!: dir_ok_cong [OF ok s1(2)])
  obtain s2 where s2: "dirlink_slot dp (16 * 0) s1 = Inr (16 * ?j, s2)" "dir_ok D L s2 dp" "file_bytes s2 dp = ?bs"
    "fview s2 = fview s1" "lused s2 = lused s1" "fframe s2 = fframe s1"
    using dirlink_slot_law [OF b1(1), of 0] l7 steadyD(4) [OF s1(2)] b1(2) by auto
  have "steady D L s1 s2" using s2 gframe_fframe [OF s2(6)] by (simp add: steady_def dir_ok_def inode_ok_def)
  then have st: "steady D L s s2" by (rule steady_trans [OF s1(2)])
  have i2: "icache s2 = icache s" using fframe_fsD(1) [OF s2(6)] s1(3) by simp
  have e: "length ?e = DIRSIZ" "cname DIRSIZ ?e = ?nm" "strncpy (replicate DIRSIZ 0) name DIRSIZ = Some ?e"
    using length_cname [of DIRSIZ name] cname_pad [of ?nm DIRSIZ "[]"] strncpy_cname [of DIRSIZ "replicate DIRSIZ 0" name] name(2)
    by simp_all
  have same: "refs s2 = refs s" "active s2 = active s" "frees L s2 = frees L s" "lcap s2 = lcap s" "lg_busy s2 = lg_busy s"
    using refs_cong [OF i2] steadyD(3,7) [OF st] gframeD(2,4) [OF steadyD(5) [OF st]]
    by (simp_all add: active_def frees_def bused_def)
  obtain s3 where s3: "writei dp (bytes16 inum @ ?e) (16 * ?j) s2 = Inr (16, s3)" "dir_ok D L s3 dp"
    "icache_ok K s3" "refs s3 = refs s2" "file_bytes s3 dp = overwrite ?bs (16 * ?j) (bytes16 inum @ ?e)"
    "\<forall>b. b \<in> dblocks s2 \<and> b \<notin> own (fview s2) (cpy s2 dp) \<longrightarrow> fview s3 b = fview s2 b"
    "\<forall>i < sb_ninodes (sbl s2). i \<noteq> i_inum (ino s2 dp) \<longrightarrow> dnode s3 i = dnode s2 i"
    using dirlink_write [OF s2(2) icache_ok_cong [OF ic(1) i2 steadyD(9,6) [OF st]] ic(2), of ?j ?e inum]
      ic(3) tr name(1) same steadyD(4,7) [OF st] s2(3) dfree_slot(1) e(1) by auto
  have "dlook (file_bytes s3 dp) = (dlook ?bs)(?nm \<mapsto> inum)"
    using dlook_put [OF dfree_slot(1) _ dfree_slot(2) e(1) n] ok new s3(5) e(2) by (simp add: dir_ok_def)
  moreover have "dirlink dp name inum s = Inr (0, s3)"
    using s1(1) s2(1) s3(1) e(3) n(2) by (simp add: dirlink_def lift_opt_def kbind_def ret_def)
  ultimately show ?thesis
    using s3 same(1) steadyD [OF st] i2 by (intro exI [of _ s3]) simp
qed

lemma dirlink_exists:
  assumes ok: "dir_ok D L s dp" and ic: "icache_ok K s" "card (active s) < NINODE" "dp \<in> K"
    and name: "card (lused s) \<le> 7" "readable DIRSIZ name"
    and old: "dlook (file_bytes s dp) (cname DIRSIZ name) = Some m" "di_nlink (dnode s m) \<noteq> 0"
  shows "\<exists>s'. dirlink dp name inum s = Inr (-1, s') \<and> dir_ok D L s' dp \<and> icache_ok K s' \<and> refs s' = refs s
    \<and> file_bytes s' dp = file_bytes s dp \<and> steady D L s s'"
proof -
  from dirlookup_law [OF ok name ic(1,2)] old(1) obtain ip off s1 where
    s1: "dirlookup dp name s = Inr (Some (ip, off), s1)" "steady D L s s1" "ip < NINODE"
      "i_inum (ino s1 ip) = m" "0 < i_ref (ino s1 ip)" "icache_ok K s1" "refs s1 = (refs s)(m := refs s m + 1)"
      "\<forall>j<NINODE. 0 < i_ref (ino s j) \<longrightarrow> ino s1 j = (ino s j)\<lparr>i_ref := i_ref (ino s1 j)\<rparr> \<and> i_ref (ino s j) \<le> i_ref (ino s1 j)"
    by auto
  have keep: "i_copy (ino s1 j) = i_copy (ino s j)" "i_inum (ino s1 j) = i_inum (ino s j)" "i_dev (ino s1 j) = i_dev (ino s j)" if "j \<in> K" for j
  proof -
    have j: "j < NINODE" "0 < i_ref (ino s j)" using icache_okD(7) [OF ic(1) that] by simp_all
    define x where "x = i_ref (ino s1 j)"
    have "ino s1 j = (ino s j)\<lparr>i_ref := x\<rparr>" using s1(8) j unfolding x_def by blast
    then show "i_copy (ino s1 j) = i_copy (ino s j)" "i_inum (ino s1 j) = i_inum (ino s j)" "i_dev (ino s1 j) = i_dev (ino s j)" by simp_all
  qed
  have "1 < i_ref (ino s1 ip)" if "ip \<in> K"
    using refs_pos [OF ic(1) s1(3)] refs_pos [OF s1(6,3,5)] icache_okD(7) [OF ic(1) that] s1(4,7) keep(2) [OF that] by simp
  moreover have "di_nlink (dnode s1 (i_inum (ino s1 ip))) \<noteq> 0" using old(2) s1(4) steadyD(9) [OF s1(2)] by simp
  ultimately obtain ic2 where i2: "iput ip s1 = Inr ((), s1\<lparr>icache := ic2\<rparr>)" "icache_ok K (s1\<lparr>icache := ic2\<rparr>)"
    "\<forall>j. j \<noteq> ip \<longrightarrow> ic2 ! j = ino s1 j" "ic2 ! ip = (ino s1 ip)\<lparr>i_ref := i_ref (ino s1 ip) - 1\<rparr>"
    "refs (s1\<lparr>icache := ic2\<rparr>) = (refs s1)(m := refs s1 m - 1)"
    using iput_law [OF s1(6,3,5)] s1(4) by auto
  let ?s = "s1\<lparr>icache := ic2\<rparr>"
  have R: "refs ?s = refs s" unfolding i2(5) s1(7) by simp
  have st: "steady D L s ?s" by (rule steady_trans [OF s1(2) steady_icache [OF steadyD(1,2) [OF s1(2)]]])
  have "i_copy (ic2 ! dp) = i_copy (ino s1 dp)" "i_inum (ic2 ! dp) = i_inum (ino s1 dp)" "i_dev (ic2 ! dp) = i_dev (ino s1 dp)"
    using i2(3,4) by (cases "dp = ip"; simp)+
  then have "dir_ok D L ?s dp" "file_bytes ?s dp = file_bytes s dp"
    using keep [OF ic(3)] icache_okD(1) [OF i2(2)] icache_okD(1) [OF ic(1)] by (auto intro!: dir_ok_cong [OF ok st])
  moreover have "dirlink dp name inum s = Inr (-1, ?s)" using s1(1) i2(1) by (simp add: dirlink_def kbind_def ret_def)
  ultimately show ?thesis using i2(2) R st by blast
qed

text \<open>
  C14 (refinement): a directory is a finite map from names to inode numbers, and \<open>dirlink\<close> is its
  update. Inside a transaction with room for four more blocks and two free blocks on the disk, adding
  the inode number \<open>inum\<close> under a new name returns 0 and adds exactly that pair to the map,
  whether a free entry is reused or the directory grows; if the name is there it returns -1 and nothing
  has changed. No other inode and no block of another file changes, and no reference is kept.
\<close>

theorem dirlink_adds:
  assumes "dir_ok D L s dp" "icache_ok K s" "dp \<in> K" "active s \<subseteq> {..<sb_ninodes (sbl s)}" "card (active s) < NINODE"
    and "lg_busy s" "card (lused s) + 4 \<le> lcap s" "card (lused s) \<le> 5" "2 \<le> card (frees L s)"
    and "length (file_bytes s dp) + 16 \<le> MAXFILE * 512" "readable DIRSIZ name" "0 < inum" "inum < 2 ^ 16"
    and "\<forall>m. dlook (file_bytes s dp) (cname DIRSIZ name) = Some m \<longrightarrow> di_nlink (dnode s m) \<noteq> 0"
  shows "\<exists>r s'. dirlink dp name inum s = Inr (r, s') \<and> dir_ok D L s' dp \<and> icache_ok K s' \<and> refs s' = refs s
    \<and> (if dlook (file_bytes s dp) (cname DIRSIZ name) = None
       then r = 0 \<and> dlook (file_bytes s' dp) = (dlook (file_bytes s dp))(cname DIRSIZ name \<mapsto> inum)
       else r = -1 \<and> file_bytes s' dp = file_bytes s dp \<and> fview s' = fview s)
    \<and> (\<forall>b. b \<in> dblocks s \<and> b \<notin> own (fview s) (cpy s dp) \<longrightarrow> fview s' b = fview s b)
    \<and> (\<forall>i < sb_ninodes (sbl s). i \<noteq> i_inum (ino s dp) \<longrightarrow> dnode s' i = dnode s i)"
proof (cases "dlook (file_bytes s dp) (cname DIRSIZ name)")
  case None
  then show ?thesis using dirlink_new [OF assms(1-13) None] by (intro exI [of _ 0]) simp
next
  case (Some m)
  have l7: "card (lused s) \<le> 7" and nl: "di_nlink (dnode s m) \<noteq> 0" using assms(8,14) Some by simp_all
  from dirlink_exists [OF assms(1,2,5,3) l7 assms(11) Some nl] obtain s' where "dirlink dp name inum s = Inr (-1, s')"
    "dir_ok D L s' dp" "icache_ok K s'" "refs s' = refs s" "file_bytes s' dp = file_bytes s dp" "steady D L s s'" by blast
  then show ?thesis using Some steadyD(3,9) [of D L s s'] by (intro exI [of _ "-1"] exI [of _ s']) simp
qed

text \<open>The root directory of the sample disk, locked in a transaction.\<close>

lemma fs0_dir:
  "\<exists>(s :: fs_st) D. dir_ok D 90 s 0 \<and> icache_ok {0} s \<and> active s = {1} \<and> sb_ninodes (sbl s) = 24 \<and> lg_busy s
    \<and> lused s = {} \<and> lcap s = 9 \<and> 4 \<le> card (frees 90 s)
    \<and> file_bytes s 0 = dirent0 1 [0x2e] @ dirent0 1 [0x2e, 0x2e] @ dirent0 2 [0x61]"
proof -
  from fs0_boot obtain t :: fs_st and D where t: "tinv D t" "lg_busy t" "lg_dev t = ROOTDEV" "fhold t = {}"
    "lused t = {}" "lcap t = 9" "lregion t = {90..<100}" "\<forall>n. n \<notin> {90..<100} \<longrightarrow> fview t n = img0 n"
    "icache t = icache fs0" by blast
  let ?x = "\<lparr>i_dev = ROOTDEV, i_inum = 1, i_ref = 1, i_busy = True, i_valid = True, i_copy = root_dinode\<rparr>"
  define s where "s = t\<lparr>icache := (icache t)[0 := ?x]\<rparr>"
  have s: "tinv D s" "fhold s = {}" "lregion s = {90..<100}" "\<forall>n. n \<notin> {90..<100} \<longrightarrow> fview s n = img0 n"
    and more: "lg_busy s" "lg_dev s = ROOTDEV" "lused s = {}" "lcap s = 9" "length (icache s) = NINODE" "ino s 0 = ?x"
    using t by (simp_all add: s_def lregion_def fs0_def)
  note f = fs0_files [OF s]
  have c: "icache_ok {} t" "refs t = (\<lambda>_. 0)" by (rule icache_empty; simp add: t(9) fs0_def)+
  have zero: "i_ref (ino t j) = 0" if "j < NINODE" for j using that t(9) by (simp add: fs0_def)
  have "icache_ok {0} s"
  proof (rule icache_ok_upd [OF c(1), where x = ?x])
    show "icache s = (icache t)[0 := ?x]" "dnode s = dnode t" by (simp_all add: s_def)
    show "0 < i_ref ?x \<Longrightarrow> i_dev ?x = lg_dev t \<and> (i_busy ?x \<longleftrightarrow> 0 \<in> {0 :: nat}) \<and> (i_valid ?x \<longrightarrow> i_copy ?x = dnode t (i_inum ?x))"
      using f(6) t(3) by (simp add: s_def)
  qed (use zero in \<open>auto simp: s_def\<close>)
  moreover have "refs s = (\<lambda>_. 0)(1 := 1)"
    using refs_set [of 0 t s ?x 1] t(9) zero [of 0] c(2) by (simp add: s_def fs0_def)
  moreover have "file_bytes s 0 = dir_bytes s 1" using more(6) f(6) by (simp add: file_bytes_def dir_bytes_def)
  moreover have "dir_bytes s 1 = dirent0 1 [0x2e] @ dirent0 1 [0x2e, 0x2e] @ dirent0 2 [0x61]" using fs0_path(3) [OF s] by simp
  ultimately show ?thesis
    using f more s(2) by (intro exI [of _ s] exI [of _ D]) (auto simp: dir_ok_def inode_ok_def locked_def active_def root_dinode_def)
qed

theorem dirlink_adds_witness:
  "\<exists>(s :: fs_st) s'. dirlink 0 [98, 0] 7 s = Inr (0, s') \<and> dlook (file_bytes s 0) [98] = None
    \<and> dlook (file_bytes s' 0) [98] = Some 7 \<and> dlook (file_bytes s' 0) [97] = Some 2"
proof -
  from fs0_dir obtain s :: fs_st and D where s: "dir_ok D 90 s 0" "icache_ok {0} s" "active s = {1}" "sb_ninodes (sbl s) = 24" "lg_busy s"
    "lused s = {}" "lcap s = 9" "4 \<le> card (frees 90 s)"
    "file_bytes s 0 = dirent0 1 [0x2e] @ dirent0 1 [0x2e, 0x2e] @ dirent0 2 [0x61]" by blast
  have d: "dlook (file_bytes s 0) [98] = None" "dlook (file_bytes s 0) [97] = Some 2" unfolding s(9) by code_simp+
  have c: "cname DIRSIZ [98, 0] = [98]" by (simp add: cname_def)
  have "length (file_bytes s 0) = 48" unfolding s(9) by simp
  then obtain s' where "dirlink 0 [98, 0] 7 s = Inr (0, s')" "dlook (file_bytes s' 0) = (dlook (file_bytes s 0))([98] \<mapsto> 7)"
    using dirlink_adds [OF s(1,2), of "[98, 0]" 7, unfolded c] s(3-8) d by (auto simp: readable_def)
  then show ?thesis using d by (intro exI [of _ s] exI [of _ s']) simp
qed

end
