(* ===== verification/Image.thy ===== *)
theory Image
  imports Dirlink Mkfs
begin

text \<open>
  The disk that \<open>mkfs\<close> builds as the kernel finds it: the state after the boot, the files and the
  root directory seen through the log and the buffer cache.
\<close>

subsection \<open>Entries of a directory\<close>

lemma dlook_Cons:
  assumes "i < 2 ^ 16"
  shows "dlook (entry i nm @ bs) x = (if i \<noteq> 0 \<and> cname DIRSIZ nm = x then Some i else dlook bs x)"
proof -
  define bs' where "bs' = entry i nm @ bs"
  let ?P = "\<lambda>bs j. get16 bs (16 * j) \<noteq> 0 \<and> cname DIRSIZ (drop (16 * j + 2) bs) = x" and ?N = "length bs div 16"
  have N: "length bs' div 16 = Suc ?N" by (simp add: bs'_def)
  have g: "get16 bs' (16 * Suc j) = get16 bs (16 * j)" for j by (simp add: get16_def nth_append bs'_def)
  have d: "drop (16 * Suc j + 2) bs' = drop (16 * j + 2) bs" for j by (simp add: bs'_def)
  have 0: "get16 bs' (16 * 0) = i" using assms by (simp add: get16_def entry_def bytes16_def unat_byte_of_nat bs'_def)
  have c: "cname DIRSIZ (drop (16 * 0 + 2) bs') = cname DIRSIZ nm"
    using cname_pad [of "cname DIRSIZ nm" DIRSIZ bs] length_cname [of DIRSIZ nm] by (simp add: entry_def bytes16_def bs'_def)
  have "[0..<Suc ?N] = 0 # map Suc [0..<?N]" by (simp add: map_Suc_upt upt_conv_Cons del: upt_Suc)
  then have "dfind bs' x 0 = (if ?P bs' 0 then Some 0 else map_option Suc (find (\<lambda>j. ?P bs' (Suc j)) [0..<?N]))"
    unfolding dfind_def N by (simp only: find.simps find_map)
  also have "\<dots> = (if i \<noteq> 0 \<and> cname DIRSIZ nm = x then Some 0 else map_option Suc (dfind bs x 0))"
    unfolding 0 c g d dfind_def ..
  finally have f: "dfind bs' x 0 = (if i \<noteq> 0 \<and> cname DIRSIZ nm = x then Some 0 else map_option Suc (dfind bs x 0))" .
  have "dlook bs' x = (if i \<noteq> 0 \<and> cname DIRSIZ nm = x then Some i else dlook bs x)"
    unfolding dlook_def f using 0 by (cases "dfind bs x 0") (simp_all add: g del: mult_Suc_right)
  then show ?thesis by (simp add: bs'_def)
qed

lemma dlook_dir_entries:
  assumes "k < length files" "cname DIRSIZ (file_name (fst (files ! k))) = x" "0 < i" "i + k < 2 ^ 16"
    and "\<forall>j<k. cname DIRSIZ (file_name (fst (files ! j))) \<noteq> x"
  shows "dlook (dir_entries i files @ t) x = Some (i + k)"
  using assms
proof (induction files arbitrary: i k)
  case (Cons f fs)
  show ?case
  proof (cases k)
    case 0
    then show ?thesis using Cons.prems by (simp add: dlook_Cons)
  next
    case (Suc k')
    then have "cname DIRSIZ (file_name (fst f)) \<noteq> x" using Cons.prems(5) by fastforce
    moreover have "\<forall>j<k'. cname DIRSIZ (file_name (fst (fs ! j))) \<noteq> x" using Cons.prems(5) Suc by fastforce
    ultimately show ?thesis using Cons.IH [of k' "Suc i"] Cons.prems(1-4) Suc by (simp add: dlook_Cons)
  qed
qed simp

subsection \<open>The kernel after the boot\<close>

text \<open>A machine that boots with the disk \<open>d\<close>: zeroed memory, no inode in use.\<close>

definition boots_from :: "byte list list \<Rightarrow> 'a fs_st_scheme \<Rightarrow> bool" where
  "boots_from d r \<longleftrightarrow> bss r \<and> length (lh_sector r) = LOGSIZE \<and> \<not> lg_busy r \<and> length (icache r) = NINODE
     \<and> (\<forall>ip<NINODE. i_ref (ino r ip) = 0) \<and> (\<forall>b<length d. dcontent r (ROOTDEV, b) = d ! b)"

lemma image_boots:
  fixes r :: "'a fs_st_scheme"
  assumes m: "img_ok m" "length (img m) = mk_size" "img m ! 1 = mk_super" "freeblock m \<le> 1014"
    and bits: "\<forall>b < 4096. bit (img m ! 28 ! (b div 8)) (b mod 8) = (b < freeblock m)" and r: "boots_from (img m) r"
  shows "\<exists>s :: 'a fs_st_scheme. initlog (binit r) = Inr ((), s) \<and> fs_ok (dcontent s) 1014 s \<and> fhold s = {} \<and> lused s = {}
    \<and> lg_dev s = ROOTDEV \<and> icache_ok {} s \<and> refs s = (\<lambda>_. 0) \<and> sb_ninodes (sbl s) = 200
    \<and> (\<forall>b<1014. fview s b = img m ! b) \<and> dblocks s = {29..<freeblock m}"
proof -
  note b = r [unfolded boots_from_def]
  have d: "dcontent r (ROOTDEV, n) = img m ! n" if "n < 1024" for n using b that m(2) by simp
  have sb: "get_superblock (dcontent r (ROOTDEV, 1)) = \<lparr>sb_size = 1014 + 10, sb_nblocks = 985, sb_ninodes = 200, sb_nlog = 10\<rparr>"
    using d [of 1] m(3) superblock_mk_super by simp
  have "img m ! 1014 = replicate 512 0" using img_okD(5) [OF m(1), of 1014] m(2,4) by simp
  then have h: "get32 (dcontent r (ROOTDEV, 1014)) 0 = 0" using d [of 1014] by (simp add: get32_def get16_def)
  obtain s :: "'a fs_st_scheme" where s: "initlog (binit r) = Inr ((), s)" "linv (dcontent s) s" "lh_n s = 0" "held s = {}" "lg_dev s = ROOTDEV"
    "lg_start s = 1014" "lg_size s = 10" "log_st.more s = log_st.more r"
    "\<forall>n. n \<notin> {1014..<1014 + 10} \<longrightarrow> dcontent s (ROOTDEV, n) = dcontent r (ROOTDEV, n)"
    using disk_boot [OF _ _ sb _ h] b by auto
  note v = boot_view [OF s(2-4,7), unfolded s(5,6)]
  have V: "fview s n = img m ! n" if "n < 1014" for n using v(6) [of n] s(9) d [of n] that by simp
  have "icache s = icache r" using s(8) by (cases s; cases r; simp)
  then have c: "icache_ok {} s" "refs s = (\<lambda>_. 0)" using icache_empty [of s] b by auto
  have S: "sbl s = \<lparr>sb_size = 1024, sb_nblocks = 985, sb_ninodes = 200, sb_nlog = 10\<rparr>"
    using V [of 1] m(3) superblock_mk_super by (simp add: sbl_def)
  have BM: "BB s x = 28" if "x < 4096" for x using that S by (simp add: BBLOCK_def)
  have u: "bused s x \<longleftrightarrow> x < freeblock m" if "x < 1024" for x
    using bits V [of 28] BM [of x] that by (simp add: bused_def bit_used_iff)
  have fv: "fvalid s x \<longleftrightarrow> x < 2 ^ 28 \<and> x \<notin> {1014..<1024}" for x using v(5) by (simp add: fvalid_def)
  have F: "29 \<le> freeblock m" by (rule img_okD(2) [OF m(1)])
  have "bitmap_ok s" using fv BM S v(2) by (simp add: bitmap_ok_def)
  then have "fs_ok (dcontent s) 1014 s" using v(1) S BM [of 0] u F fv by (simp add: fs_ok_def)
  moreover have "dblocks s = {29..<freeblock m}" using BM [of 0] S u fv F m(4) by (auto simp: dblocks_def)
  ultimately show ?thesis using s(1,5) v(2,3) c V S by (intro exI [of _ s]) simp
qed

text \<open>The files of the image are files of the kernel.\<close>

lemma image_file:
  assumes s: "\<forall>b<1014. fview s b = img m ! b" "dblocks s = {29..<freeblock m}" "freeblock m \<le> 1014" and f: "mk_file m c n"
  shows "file_ok (dblocks s) (fview s) c n" "contents (fview s) c n = contents (secs_of m) c n"
proof -
  have "fview s b = secs_of m b" if "b \<in> own (secs_of m) c" for b using file_own [OF f] that s(1,3) by fastforce
  note fr = file_frame [OF f file_own [OF f], where ?V1.0 = "fview s", OF this]
  show "file_ok (dblocks s) (fview s) c n" "contents (fview s) c n = contents (secs_of m) c n" using fr(3,4) s(2) by simp_all
qed

lemma image_dnode:
  assumes "\<forall>b<1014. fview s b = img m ! b" "k < 200"
  shows "dnode s k = ino_at m k"
proof -
  have "IBLOCK k < 1014" using assms(2) by (simp add: IBLOCK_def)
  then show ?thesis using assms(1) by (simp add: dnode_def ino_at_def islot_def IBLOCK_def i2b_def)
qed

lemma contents_take: "n \<le> n' \<Longrightarrow> take n (contents V c n') = contents V c n"
  by (simp add: contents_def take_map)

lemma round_blocks:
  assumes "n mod 512 \<noteq> (0 :: nat)"
  shows "(n + 511) div 512 = ((n div 512 + 1) * 512 + 511) div 512"
proof -
  define q r where "q = n div 512" and "r = n mod 512"
  have n: "n = q * 512 + r" "0 < r" "r < 512" using assms by (simp_all add: q_def r_def)
  have "(n + 511) div 512 = q + 1" using n by (intro div_nat_eqI) simp_all
  moreover have "((q + 1) * 512 + 511) div 512 = q + 1" by (intro div_nat_eqI) simp_all
  ultimately show ?thesis by (simp add: q_def)
qed

text \<open>The path of the file number \<open>k\<close>, when no earlier entry has its name.\<close>

lemma image_path:
  assumes s: "\<forall>b<1014. fview s b = img m ! b" "dblocks s = {29..<freeblock m}" "freeblock m \<le> 1014" "sb_ninodes (sbl s) = 200"
    and root: "di_type (ino_at m 1) = T_DIR" "di_nlink (ino_at m 1) = 1" "di_size (ino_at m 1) = ((32 + 16 * length files) div 512 + 1) * 512"
      "mk_file m (ino_at m 1) (32 + 16 * length files)"
      "contents (secs_of m) (ino_at m 1) (32 + 16 * length files) = entry 1 [46, 0] @ entry 1 [46, 46, 0] @ dir_entries 2 files"
    and fk: "di_type (ino_at m (k + 2)) = T_FILE" "di_nlink (ino_at m (k + 2)) = 1" "k < length files" "length files \<le> 198"
    and n: "(32 + 16 * length files) mod 512 \<noteq> 0"
    and x: "x = cname DIRSIZ (file_name (fst (files ! k)))" "x \<noteq> [46]" "x \<noteq> [46, 46]" "\<forall>j<k. cname DIRSIZ (file_name (fst (files ! j))) \<noteq> x"
  shows "path_ok s ROOTINO [x]" "resolve False s ROOTINO [x] = Some (k + 2)"
proof -
  let ?n = "32 + 16 * length files" and ?R = "((32 + 16 * length files) div 512 + 1) * 512" and ?es = "dir_entries 2 files"
  note f = image_file [OF s(1-3) root(4)]
  have d1: "dnode s 1 = ino_at m 1" and dk: "dnode s (k + 2) = ino_at m (k + 2)" using image_dnode [OF s(1)] fk(3,4) by simp_all
  have "?n div 512 \<le> 3200 div 512" using fk(4) by (intro div_le_mono) simp
  then have "?R \<le> MAXFILE * 512" by simp
  then have R: "file_ok (dblocks s) (fview s) (ino_at m 1) ?R" by (rule file_ok_cong [OF f(1) round_blocks [OF n]])
  have "?n < 512 + ?n div 512 * 512" by (rule dividend_less_div_times) simp
  then have le: "?n \<le> ?R" by simp
  have "take ?n (dir_bytes s 1) = entry 1 [46, 0] @ entry 1 [46, 46, 0] @ ?es"
    unfolding dir_bytes_def d1 root(3) contents_take [OF le] f(2) root(5) by (rule refl)
  then obtain t where "dir_bytes s 1 = (entry 1 [46, 0] @ entry 1 [46, 46, 0] @ ?es) @ t" by (metis append_take_drop_id)
  moreover have "cname DIRSIZ [46, 0] = [46]" "cname DIRSIZ [46, 46, 0] = [46, 46]" by (simp_all add: cname_def)
  moreover have "dlook (?es @ t) x = Some (2 + k)" using x fk(3,4) by (intro dlook_dir_entries) simp_all
  ultimately have "dlook (dir_bytes s 1) x = Some (k + 2)" using x(2,3) by (simp add: dlook_Cons)
  moreover have "16 dvd ?R" by (rule dvd_mult) simp
  ultimately show "path_ok s ROOTINO [x]" "resolve False s ROOTINO [x] = Some (k + 2)"
    using R d1 dk root(1-3) fk s(4) by (simp_all add: node_ok_def)
qed

subsection \<open>Opening and reading a file\<close>

lemma names_one:
  assumes "x \<noteq> []" "47 \<notin> set x" "length x \<le> DIRSIZ"
  shows "names (47 # x) = [x]"
proof -
  have "split_slash x = [x]" using assms(2) by (induction x) auto
  then show ?thesis using assms(1,3) by (simp add: elems_def)
qed

text \<open>An unlocked file that a path leads to, opened, locked and read.\<close>

lemma open_read:
  fixes s :: "'a fs_st_scheme"
  assumes fs: "fs_ok D L s" "fhold s = {}" "lused s = {}" "lg_dev s = ROOTDEV" and ic: "icache_ok {} s" "card (active s) + 2 \<le> NINODE"
    and x: "x \<noteq> []" "0 \<notin> set x" "47 \<notin> set x" "length x \<le> DIRSIZ" "path_ok s ROOTINO [x]" "resolve False s ROOTINO [x] = Some m"
    and f: "node_ok s m" "di_type (dnode s m) \<noteq> T_DEV" "file_ok (dblocks s) (fview s) (dnode s m) (di_size (dnode s m))"
    and rd: "off \<le> di_size (dnode s m)" "off + n < 2 ^ 32"
  shows "\<exists>ip s1 s2 s3. namei cwd (47 # x @ [0]) s = Inr (Some ip, s1) \<and> i_inum (ino s1 ip) = m \<and> ilock ip s1 = Inr ((), s2)
    \<and> readi ip off n s2 = Inr ((int (min n (di_size (dnode s m) - off)), take n (drop off (dir_bytes s m))), s3)"
proof -
  have e: "names (47 # x) = [x]" by (rule names_one [OF x(1,3,4)])
  have "cstr (47 # x @ [0]) (47 # x)" using x(2) by (simp add: cstr_def)
  then obtain r s1 where s1: "namex cwd (47 # x @ [0]) False (replicate DIRSIZ 0) s = Inr (r, s1)" "steady D L s s1" "icache_ok {} s1"
    "reached False [x] (refs s) (Some m) r s1"
    using namex_law [of D L s "47 # x @ [0]" "47 # x" "replicate DIRSIZ 0" cwd ROOTINO False] fs ic x(5,6) unfolding e by auto
  then obtain ip nm where r: "r = Some (ip, nm)" "ip < NINODE" "0 < i_ref (ino s1 ip)" "i_inum (ino s1 ip) = m" by (auto simp: reached_def)
  note d = steadyD [OF s1(2)]
  have n: "m < sb_ninodes (sbl s1)" "di_type (dnode s1 m) \<noteq> 0" "card (lused s1) < NBUF" using f(1) d(4,7,9) fs(3) by (simp_all add: node_ok_def)
  from lock_law [OF d(1,2) n(3) s1(3) r(2,3), unfolded r(4), OF _ n(1,2)] obtain s2 where
    s2: "ilock ip s1 = Inr ((), s2)" "steady D L s1 s2" "icache_ok {ip} s2"
      "icache s2 = (icache s1)[ip := (ino s1 ip)\<lparr>i_busy := True, i_copy := dnode s1 m, i_valid := True\<rparr>]" by auto
  note t = steadyD [OF s2(2)]
  have at: "ino s2 ip = (ino s1 ip)\<lparr>i_busy := True, i_copy := dnode s m, i_valid := True\<rparr>"
    using s2(4) r(2) icache_okD(1) [OF s1(3)] d(9) by simp
  have "locked s2 ip" using r(2) at icache_okD(1) [OF s2(3)] icache_okD(3) [OF s1(3) r(2,3)] t(6) by (simp add: locked_def)
  then have io: "inode_ok D L s2 ip" using t d at r(4) f n(1) by (simp add: inode_ok_def)
  have fb: "file_bytes s2 ip = dir_bytes s m" "length (file_bytes s2 ip) = di_size (dnode s m)"
    using at t(3) d(3) by (simp_all add: file_bytes_def dir_bytes_def)
  have "cost s2 ip < NBUF" using cost_le [of s2 ip] t(4) d(4) fs(3) by simp
  from readi_law [OF io this, of off n] rd fb obtain s3 where
    "readi ip off n s2 = Inr ((int (min n (di_size (dnode s m) - off)), take n (drop off (dir_bytes s m))), s3)" by auto
  moreover have "namei cwd (47 # x @ [0]) s = Inr (Some ip, s1)" using s1(1) r(1) by (simp add: namei_def ret_def)
  ultimately show ?thesis using s2(1) r(4) by blast
qed

lemma image_read:
  fixes r :: "'a fs_st_scheme"
  assumes files: "length files \<le> 198" "\<forall>f \<in> set files. file_fits f"
    "29 + need (32 + 16 * length files) + (\<Sum>f\<leftarrow>files. need (length (concat (snd f)))) \<le> 1014" "(32 + 16 * length files) mod 512 \<noteq> 0"
    and m: "mkfs files = Some m" and r: "boots_from (img m) r"
    and k: "k < length files" "x = cname DIRSIZ (file_name (fst (files ! k)))" "x \<noteq> []" "x \<noteq> [46]" "x \<noteq> [46, 46]"
      "\<forall>j<k. cname DIRSIZ (file_name (fst (files ! j))) \<noteq> x"
    and rd: "off \<le> length (concat (snd (files ! k)))" "off + n < 2 ^ 32"
  shows "\<exists>s ip s1 s2 s3. initlog (binit r) = Inr ((), s) \<and> namei cwd (47 # x @ [0]) s = Inr (Some ip, s1) \<and> ilock ip s1 = Inr ((), s2)
    \<and> readi ip off n s2 = Inr ((int (min n (length (concat (snd (files ! k))) - off)), take n (drop off (concat (snd (files ! k))))), s3)"
proof -
  let ?F = "29 + need (32 + 16 * length files) + (\<Sum>f\<leftarrow>files. need (length (concat (snd f))))" and ?c = "concat (snd (files ! k))"
  have "?F \<le> 1024" using files(3) by simp
  from mkfs_image [OF files(1,2) refl this] m k(1) have i: "img_ok m" "length (img m) = mk_size" "freeblock m = ?F" "img m ! 1 = mk_super"
    "\<forall>b < 4096. bit (img m ! 28 ! (b div 8)) (b mod 8) = (b < ?F)"
    and root: "di_type (ino_at m 1) = T_DIR" "di_nlink (ino_at m 1) = 1" "di_size (ino_at m 1) = ((32 + 16 * length files) div 512 + 1) * 512"
      "mk_file m (ino_at m 1) (32 + 16 * length files)"
      "contents (secs_of m) (ino_at m 1) (32 + 16 * length files) = entry 1 [46, 0] @ entry 1 [46, 46, 0] @ dir_entries 2 files"
    and fk: "di_type (ino_at m (k + 2)) = T_FILE" "di_nlink (ino_at m (k + 2)) = 1" "di_size (ino_at m (k + 2)) = length ?c"
      "mk_file m (ino_at m (k + 2)) (length ?c)" "contents (secs_of m) (ino_at m (k + 2)) (length ?c) = ?c" by auto
  have F: "freeblock m \<le> 1014" using i(3) files(3) by simp
  from image_boots [OF i(1,2,4) F _ r] i(3,5) obtain s :: "'a fs_st_scheme" where s: "initlog (binit r) = Inr ((), s)" "fs_ok (dcontent s) 1014 s"
    "fhold s = {}" "lused s = {}" "lg_dev s = ROOTDEV" "icache_ok {} s" "refs s = (\<lambda>_. 0)" "sb_ninodes (sbl s) = 200"
    "\<forall>b<1014. fview s b = img m ! b" "dblocks s = {29..<freeblock m}" by auto
  note p = image_path [OF s(9,10) F s(8) root fk(1,2) k(1) files(1,4) k(2,4-6)]
  have dk: "dnode s (k + 2) = ino_at m (k + 2)" using image_dnode [OF s(9)] k(1) files(1) by simp
  note fl = image_file [OF s(9,10) F fk(4)]
  have c: "dir_bytes s (k + 2) = ?c" using fl(2) fk(3,5) dk by (simp add: dir_bytes_def)
  have "47 \<notin> set (fst (files ! k))" using files(2) k(1) by (simp add: file_fits_def)
  then have "47 \<notin> set (file_name (fst (files ! k)))" by (auto simp: file_name_def dest: list.set_sel(2) [rotated])
  then have x: "0 \<notin> set x" "47 \<notin> set x" "length x \<le> DIRSIZ"
    using length_cname [of DIRSIZ] by (auto simp: k(2) cname_def dest: set_takeWhileD in_set_takeD)
  have "node_ok s (k + 2)" using dk fk(1,2) k(1) files(1) s(8) by (simp add: node_ok_def)
  moreover have "card (active s) + 2 \<le> NINODE" using s(7) by (simp add: active_def)
  ultimately obtain ip s1 s2 s3 where "namei cwd (47 # x @ [0]) s = Inr (Some ip, s1)" "ilock ip s1 = Inr ((), s2)"
    "readi ip off n s2 = Inr ((int (min n (length ?c - off)), take n (drop off ?c)), s3)"
    using open_read [OF s(2-6) _ k(3) x p, of off n cwd] dk fk(1,3) fl(1) rd c by auto
  then show ?thesis using s(1) by blast
qed

text \<open>There is such a machine for every image.\<close>

lemma boots_from_image:
  assumes "img_ok m" "length (img m) = mk_size"
  shows "boots_from (img m) (fs0\<lparr>dbase := \<lambda>a. if fst a = ROOTDEV \<and> snd a < 1024 then img m ! snd a else replicate BSIZE 0\<rparr>)"
  using assms img_okD(1) [OF assms(1)] by (auto simp: boots_from_def bss_def fs0_def bio0_def dcontent_def)

end
