(* ===== verification/Spec2Isabelle.thy ===== *)
theory Spec2Isabelle
  imports CString Printf Grep Bio Layout Log Fs Dir Kalloc Vm Spinlock Pipe Proc File Process Exec Syscall Shell ShellParse Sched SyscallSpec Console Umalloc ShellTotal PageMap Mkfs Inode Dirlink Image
begin

text \<open>
  \<^bold>\<open>The program.\<close> \<open>src/assignment1\<close> is xv6, a small Unix for x86
  multiprocessors, with the user programs that run on it and the host program that builds its disk.
  A process enters the kernel by a trap (\<open>trap.c\<close>), which dispatches system calls
  (\<open>syscall.c\<close>, \<open>sysproc.c\<close>, \<open>sysfile.c\<close>) and device interrupts. System calls work
  on processes (\<open>proc.c\<close>, \<open>exec.c\<close>) and their page tables (\<open>vm.c\<close>,
  \<open>kalloc.c\<close>), and on open files (\<open>file.c\<close>), which are pipes (\<open>pipe.c\<close>), the
  console (\<open>console.c\<close>, \<open>kbd.c\<close>, \<open>uart.c\<close>) or inodes (\<open>fs.c\<close>). Inodes
  are stored through the log (\<open>log.c\<close>) in the buffer cache (\<open>bio.c\<close>) over the disk
  driver (\<open>ide.c\<close>). Everything shared between CPUs is under spin locks
  (\<open>spinlock.c\<close>). The other directories of \<open>src\<close> are course exercises that do not use
  xv6.

  \<^bold>\<open>Conventions\<close> (\<open>Prelude\<close>). A kernel operation is a function from a state to a
  result and a new state, or to the reason why it stops: \<open>Panic\<close> with the message of the code,
  \<open>Asleep\<close> where it would wait for another process, \<open>Fault\<close> where it would use memory
  it must not use, \<open>Hang\<close> where a loop would not end. \<open>kbind\<close> composes operations as the
  code composes statements. The states extend each other as records in the order of the layers:
  \<open>bio_st\<close>, \<open>log_st\<close>, \<open>fs_st\<close>, \<open>mem_st\<close>, \<open>vm_st\<close>,
  \<open>proc_st\<close>, \<open>file_st\<close>; \<open>console_st\<close> extends \<open>proc_st\<close>. A pointer
  into a table of the kernel is an index, a pointer to physical memory or to user memory is a 32 bit
  word, and a pointer into one object is an index or the rest of the object. Operations that give up
  the CPU are split where they do, and the pieces interleave in a step relation. User programs
  return an option or the same sum type.

  \<^bold>\<open>The theories\<close>, the sources they model and what they show:

  \<^item> \<open>CString\<close>: \<open>string.c\<close>, \<open>ulib.c\<close> and the string stores of
    \<open>x86.h\<close>. The block operations equal their byte-wise specifications, also on overlapping
    regions; the string operations depend on the bytes before the terminator only.
  \<^item> \<open>Printf\<close>: \<open>printf.c\<close> and the formatted output of \<open>console.c\<close>.
    Numbers print as their numerals and read back; a format prints piece by piece.
  \<^item> \<open>Grep\<close>: \<open>grep.c\<close>. The backtracking matcher decides the language of its
    pattern; the line filter is right on input that arrives in one read, and wrong on longer input.
  \<^item> \<open>Bio\<close>: \<open>bio.c\<close>, \<open>buf.h\<close>, \<open>ide.c\<close>. The doubly linked list
    implements a least-recently-used order; the cache is coherent with the disk; the
    driver starts the drive, which interrupts only for a command it was given, and serves its queue
    in order, so that every request completes with the right block.
  \<^item> \<open>Layout\<close>: the little-endian fields of on-disk structures (\<open>fs.h\<close>), with
    their round trips.
  \<^item> \<open>Log\<close>: \<open>log.c\<close>. Transactions are atomic against a crash at any disk write;
    the log absorbs repeated writes of a block.
  \<^item> \<open>Fs\<close> and \<open>Dir\<close>: \<open>fs.c\<close>, with \<open>fs.h\<close>, \<open>file.h\<close>,
    \<open>stat.h\<close>. Block allocation against the bitmap, inode round trips, and paths as
    sequences of elements.
  \<^item> \<open>FileMap\<close>, \<open>Inode\<close>: the content of files. \<open>FileMap\<close> is the theory
    of direct and indirect blocks, shared with \<open>Mkfs\<close>; \<open>Inode\<close> shows that
    \<open>bmap\<close>, \<open>readi\<close> and \<open>writei\<close> of \<open>fs.c\<close> read and replace the bytes
    of a file, whatever blocks they allocate, within the blocks one transaction may have.
  \<^item> \<open>Icache\<close>, \<open>Namei\<close>, \<open>Dirlink\<close>: the cache of inodes, paths and
    directories of \<open>fs.c\<close>. \<open>Icache\<close> describes \<open>iget\<close>, \<open>idup\<close>,
    \<open>ilock\<close>, \<open>iunlock\<close> and \<open>iput\<close> by the references to each inode;
    \<open>Namei\<close> shows that \<open>namex\<close> follows a path as the directories on the disk lead it
    and keeps exactly one reference; \<open>Dirlink\<close> that \<open>dirlink\<close> updates the map from
    names to inode numbers a directory stands for.
  \<^item> \<open>Mmu\<close>, \<open>Kalloc\<close>: \<open>mmu.h\<close>, \<open>memlayout.h\<close>,
    \<open>kalloc.c\<close>. Address arithmetic with wrap-around; the free list threaded through the free
    pages is a stack of all pages that are not in use; a page is filled with junk when it is freed.
  \<^item> \<open>Vm\<close>, \<open>VmSpec\<close>, \<open>PageMap\<close>: \<open>vm.c\<close>. Page tables are words
    in physical pages; \<open>VmSpec\<close> shows that page table operations change pages only, and
    \<open>PageMap\<close> that \<open>walkpgdir\<close> and \<open>mappages\<close> extend the partial map a
    directory stands for by exactly the pages asked for.
  \<^item> \<open>Spinlock\<close>: \<open>spinlock.c\<close>. Mutual exclusion and absence of panics in every
    interleaving.
  \<^item> \<open>Ring\<close>, \<open>Pipe\<close>: ring buffers with wrapping indices, and \<open>pipe.c\<close>.
    A pipe is a FIFO in every interleaving; where wakeups can and cannot be lost. The stretches
    between two sleeps say which channel they wake, for the interleavings here and for the calls in
    \<open>File\<close> alike.
  \<^item> \<open>Proc\<close>, \<open>Process\<close>, \<open>ProcTable\<close>, \<open>Sched\<close>:
    \<open>proc.c\<close>, \<open>proc.h\<close>. \<open>Proc\<close> and \<open>Process\<close> are the code,
    \<open>ProcTable\<close> an abstract process table with its invariants, \<open>Sched\<close> the refinement:
    every interleaving of the CPUs only makes abstract steps, so no process runs on two CPUs,
    process numbers are unique, no process is an orphan and no exit is missed by \<open>wait\<close>.
  \<^item> \<open>File\<close>, \<open>Exec\<close>, \<open>Syscall\<close>, \<open>SyscallSpec\<close>:
    \<open>file.c\<close>, \<open>exec.c\<close>, \<open>elf.h\<close>, \<open>syscall.c\<close>,
    \<open>sysproc.c\<close>, \<open>sysfile.c\<close>, \<open>trap.c\<close>. What the argument checks accept
    lies in the memory of the calling process, as long as the size asked for is not negative; what
    \<open>read\<close> does with a negative one.
  \<^item> \<open>Kbd\<close>, \<open>Console\<close>: \<open>kbd.c\<close>, \<open>kbd.h\<close>,
    \<open>console.c\<close>, \<open>uart.c\<close>, and \<open>procdump\<close> of \<open>proc.c\<close>. The line
    editor implements an editor on lists; a line typed on the keyboard is the line read; the screen
    memory is never left.
  \<^item> \<open>Umalloc\<close>: \<open>umalloc.c\<close>. Blocks in use never overlap; the free list is a
    cycle in address order without adjacent free blocks; both operations return, and every byte that
    came from the kernel is in a block in use or in a free block that is linked in memory.
  \<^item> \<open>Shell\<close>, \<open>ShellParse\<close>, \<open>ShellTotal\<close>: \<open>sh.c\<close>. Every
    command is parsed back from its text; the parser ends on every line; commands run with the
    input and output their pipes and redirections give them; the prompt.
  \<^item> \<open>Mkfs\<close>: \<open>mkfs.c\<close>. The image has the files it was given, and its
    superblock, bitmap and root directory are right.
  \<^item> \<open>Image\<close>: the disk of \<open>mkfs.c\<close> as the kernel finds it after the boot. The
    property that joins the builder, the log, the cache, the paths and the inodes,
    \<open>mkfs_boot_read\<close>, is at the end of this theory.

  \<^bold>\<open>Interfaces.\<close> The locale \<open>block_cache\<close> (\<open>Bio\<close>) is the contract of
  the buffer cache, \<open>logged_blocks\<close> (\<open>Log\<close>) that of the blocks of a transaction,
  \<open>page_allocator\<close> (\<open>Kalloc\<close>) that of the page allocator, and \<open>ring_size\<close>
  (\<open>Ring\<close>) the sizes for which ring buffers with wrapping indices work. Each is interpreted
  on the definitions that model the code, and the layers above are verified inside it.

  \<^bold>\<open>Bounds and fuel.\<close> No model is cut off by fuel: the wait for the disk may take as many
  interrupts as there are requests in the queue, which \<open>iderw_completes\<close> shows to be enough, and
  the loop over \<open>&\<close> in the parser as many rounds as the line has characters. Loops that run over addresses with
  wrap-around, and the recursion of the shell's parser, have a guard that gives \<open>Hang\<close> when
  the measure does not decrease; \<open>parsecmd_total\<close> and \<open>mappages_maps\<close> show that it is
  not reached. The loops of the user allocator are partial functions to option, and
  \<open>malloc_block\<close> and \<open>free_block\<close> show that they return. Table sizes are those of
  \<open>param.h\<close> and \<open>fs.h\<close>.

  \<^bold>\<open>Not modelled.\<close>

  \<^item> Start-up and hardware set-up: \<open>bootasm.S\<close>, \<open>bootmain.c\<close>, \<open>entry.S\<close>,
    \<open>entryother.S\<close>, \<open>main.c\<close>, \<open>mp.c\<close>, \<open>lapic.c\<close>,
    \<open>ioapic.c\<close>, \<open>picirq.c\<close>, \<open>timer.c\<close>, \<open>uartinit\<close>,
    \<open>ideinit\<close>, \<open>seginit\<close>, \<open>tvinit\<close>: writes to ports, device registers and
    descriptor tables, whose effect is that of the devices.
  \<^item> Assembly: \<open>trapasm.S\<close>, \<open>swtch.S\<close>, \<open>usys.S\<close>,
    \<open>initcode.S\<close>, \<open>vectors.S\<close> (generated). A switch of contexts is the boundary between
    two steps of a CPU.
  \<^item> \<open>memide.c\<close>, an alternative to \<open>ide.c\<close> that the kernel is not linked with.
  \<^item> The main functions of the small user programs (\<open>cat\<close>, \<open>echo\<close>,
    \<open>init\<close>, \<open>kill\<close>, \<open>ln\<close>, \<open>ls\<close>, \<open>mkdir\<close>, \<open>rm\<close>,
    \<open>wc\<close>, \<open>zombie\<close>), short sequences of system calls, and the test programs
    \<open>usertests\<close>, \<open>forktest\<close>, \<open>stressfs\<close>.
  \<^item> The exercises of \<open>lab1\<close> to \<open>lab11\<close>, \<open>stuff\<close> and
    \<open>temp\<close>: small programs, many in several copies, over the C library, assembly or Python,
    that share nothing with xv6.
\<close>

subsection \<open>From the builder to the kernel\<close>

text \<open>
  C15 (functional): the disk that \<open>mkfs\<close> builds is one the kernel can use. When a machine boots
  from it (\<open>binit\<close>, \<open>initlog\<close>), \<open>namei\<close> of a slash and the name of the
  \<open>k\<close>-th file finds its inode, \<open>ilock\<close> locks it, and \<open>readi\<close> returns exactly
  the bytes of that file from any offset. The hypotheses: the files fit below the log, the entries of
  the root directory do not fill its blocks exactly (its size would cover a block it does not have), and
  no earlier entry has the same name.
\<close>

theorem mkfs_boot_read:
  fixes r :: "'a fs_st_scheme"
  assumes "length files \<le> 198" "\<forall>f \<in> set files. file_fits f"
    and "29 + need (32 + 16 * length files) + (\<Sum>f\<leftarrow>files. need (length (concat (snd f)))) \<le> 1014" "(32 + 16 * length files) mod 512 \<noteq> 0"
    and "mkfs files = Some m" "boots_from (img m) r"
    and "k < length files" "x = cname DIRSIZ (file_name (fst (files ! k)))" "x \<noteq> []" "x \<noteq> [46]" "x \<noteq> [46, 46]"
    and "\<forall>j<k. cname DIRSIZ (file_name (fst (files ! j))) \<noteq> x"
    and "off \<le> length (concat (snd (files ! k)))" "off + n < 2 ^ 32"
  shows "\<exists>s ip s1 s2 s3. initlog (binit r) = Inr ((), s) \<and> namei cwd (47 # x @ [0]) s = Inr (Some ip, s1) \<and> ilock ip s1 = Inr ((), s2)
    \<and> readi ip off n s2 = Inr ((int (min n (length (concat (snd (files ! k))) - off)), take n (drop off (concat (snd (files ! k))))), s3)"
  using image_read [OF assms] .

theorem mkfs_boot_read_witness:
  "\<exists>m (r :: fs_st) s ip s1 s2 s3. mkfs [([95, 108, 115, 0], [[127, 69], [76, 70]])] = Some m \<and> initlog (binit r) = Inr ((), s)
    \<and> namei 0 [47, 108, 115, 0] s = Inr (Some ip, s1) \<and> ilock ip s1 = Inr ((), s2) \<and> readi ip 1 2 s2 = Inr ((2, [69, 76]), s3)"
proof -
  let ?fs = "[([95, 108, 115, 0], [[127, 69], [76, 70]])] :: (byte list \<times> byte list list) list"
  have F: "29 + need (32 + 16 * length ?fs) + (\<Sum>f\<leftarrow>?fs. need (length (concat (snd f)))) \<le> 1014" by (simp add: need_def)
  have ok: "length ?fs \<le> 198" "\<forall>f \<in> set ?fs. file_fits f" "(32 + 16 * length ?fs) mod 512 \<noteq> 0" by (simp_all add: file_fits_def)
  obtain m where m: "mkfs ?fs = Some m" "img_ok m" "length (img m) = mk_size"
    using mkfs_image [OF ok(1,2) refl] F by auto
  have x: "[108, 115] = cname DIRSIZ (file_name (fst (?fs ! 0)))" by (simp add: cname_def file_name_def)
  let ?r = "fs0\<lparr>dbase := \<lambda>a. if fst a = ROOTDEV \<and> snd a < 1024 then img m ! snd a else replicate BSIZE 0\<rparr>"
  have k: "0 < length ?fs" "[108, 115 :: byte] \<noteq> []" "[108, 115 :: byte] \<noteq> [46]" "[108, 115 :: byte] \<noteq> [46, 46]"
    "\<forall>j<0. cname DIRSIZ (file_name (fst (?fs ! j))) \<noteq> [108, 115]" "1 \<le> length (concat (snd (?fs ! 0)))" "1 + 2 < (2 :: nat) ^ 32"
    by simp_all
  from mkfs_boot_read [OF ok(1,2) F ok(3) m(1) boots_from_image [OF m(2,3)] k(1) x k(2-7), of 0]
  obtain s ip s1 s2 s3 where "initlog (binit ?r) = Inr ((), s)" "namei 0 [47, 108, 115, 0] s = Inr (Some ip, s1)"
    "ilock ip s1 = Inr ((), s2)" "readi ip 1 2 s2 = Inr ((2, [69, 76]), s3)" by auto
  then show ?thesis using m(1) by (intro exI conjI)
qed

end
